(* ===== verification/Prelude.thy ===== *)
theory Prelude
  imports Main "HOL-Library.Word" "HOL-Library.Monad_Syntax"
begin

text \<open>
  Shared material of the development: machine words of the build that is modelled (64-bit
  \<open>sexp_uint_t\<close>, 128-bit \<open>sexp_luint_t\<close>), their reading as natural numbers, and little-endian
  digit sequences.
\<close>

unbundle bit_operations_syntax

subsection \<open>Machine integers\<close>

type_synonym u8 = "8 word"
type_synonym u32 = "32 word"
type_synonym u64 = "64 word"
type_synonym u128 = "128 word"

named_theorems unat_arith_laws \<open>reading the C operators on unsigned words as natural numbers\<close>

lemma unat_shr [unat_arith_laws]: "unat (drop_bit n x :: 'a::len word) = unat x div 2 ^ n"
  unfolding unat_drop_bit_eq by (simp only: drop_bit_eq_div)

lemma unat_shl [unat_arith_laws]:
  "unat (push_bit n x :: 'a::len word) = unat x * 2 ^ n mod 2 ^ LENGTH('a)"
  unfolding unsigned_push_bit_eq by (simp only: push_bit_eq_mult take_bit_eq_mod)

lemma unat_low_bits: "unat (take_bit n x :: 'a::len word) = unat x mod 2 ^ n"
  unfolding unsigned_take_bit_eq by (simp only: take_bit_eq_mod)

lemma unat_add_mod [unat_arith_laws]:
  "unat (x + y :: 'a::len word) = (unat x + unat y) mod 2 ^ LENGTH('a)"
  by (rule unat_word_ariths)

lemma unat_mult_mod [unat_arith_laws]:
  "unat (x * y :: 'a::len word) = (unat x * unat y) mod 2 ^ LENGTH('a)"
  by (rule unat_word_ariths)

lemma unat_u64_less [simp]: "unat (x :: u64) < 18446744073709551616"
  using unsigned_less [of x, where 'a = nat] by simp

lemma unat_u64_bound: "unat (x :: u64) < 2 ^ 64"
  by simp

lemma bit_u64_less: "bit (w :: u64) n \<Longrightarrow> n < 64"
  using bit_imp_le_length [of w n] by simp

lemma uint_u64_bounds: "0 \<le> uint (w :: u64)" "uint (w :: u64) < 18446744073709551616"
  using uint_lt2p [of w] by simp_all

lemma uint_u64_range: "0 \<le> uint (w :: u64)" "uint (w :: u64) < 2 ^ 64"
  using uint_lt2p [of w] by simp_all

lemma sint_by_cases:
  "sint (w :: 'a::len word) = (if uint w < 2 ^ (LENGTH('a) - 1) then uint w else uint w - 2 ^ LENGTH('a))"
proof -
  let ?m = "2 ^ LENGTH('a) :: int" and ?h = "2 ^ (LENGTH('a) - 1) :: int"
  have h: "?m = 2 * ?h" by (simp flip: power_Suc)
  have r: "- ?h \<le> sint w" "sint w < ?h" by (rule sint_ge, rule sint_lt)
  have u: "uint w = sint w mod ?m" by (simp add: uint_sint take_bit_eq_mod)
  show ?thesis
  proof (cases "0 \<le> sint w")
    case True
    then have "uint w = sint w" using u r h by simp
    with r show ?thesis by simp
  next
    case False
    have "uint w = (sint w + ?m) mod ?m" using u by simp
    also have "\<dots> = sint w + ?m" using False r h by (intro mod_pos_pos_trivial) linarith+
    finally show ?thesis using r h by simp
  qed
qed

lemma sint_u64: "sint (w :: u64) = (if uint w < 2 ^ 63 then uint w else uint w - 2 ^ 64)"
  using sint_by_cases [of w] by simp

lemma sint_u128: "sint (w :: u128) = (if uint w < 2 ^ 127 then uint w else uint w - 2 ^ 128)"
  using sint_by_cases [of w] by simp

lemma unat_neg: "unat (- w :: 'a::len word) = (2 ^ LENGTH('a) - unat w) mod 2 ^ LENGTH('a)"
proof (cases "w = 0")
  case False
  have "0 < unat w" using False by (simp add: unat_gt_0)
  have "unat w < 2 ^ LENGTH('a)" by (rule unsigned_less)
  have "of_nat (2 ^ LENGTH('a) - unat w) = (- w :: 'a word)"
    using \<open>unat w < _\<close> by (simp add: of_nat_diff less_imp_le)
  then have "unat (- w) = unat (of_nat (2 ^ LENGTH('a) - unat w) :: 'a word)" by simp
  then show ?thesis by (simp only: unsigned_of_nat take_bit_eq_mod of_nat_id)
qed simp

lemma unat_not: "unat (NOT w :: 'a::len word) = 2 ^ LENGTH('a) - 1 - unat w"
proof -
  have "NOT w = - 1 - w" by (simp add: not_eq_complement)
  then show ?thesis by (simp add: unat_sub unsigned_minus_1_eq_mask mask_eq_exp_minus_1)
qed

lemma and_mask32_eq: "(x :: u64) AND 0xFFFFFFFF = take_bit 32 x"
proof -
  have "(0xFFFFFFFF :: u64) = mask 32" by (simp add: mask_eq_exp_minus_1)
  then show ?thesis by (simp only: take_bit_eq_mask)
qed

lemma unat_and_mask32 [unat_arith_laws]: "unat ((x :: u64) AND 0xFFFFFFFF) = unat x mod 2 ^ 32"
  by (simp only: and_mask32_eq unat_low_bits)

lemma unat_ucast_u128: "unat (ucast (w :: u64) :: u128) = unat w"
  by (rule unsigned_ucast_eq [THEN trans])
    (simp add: take_bit_nat_eq_self_iff less_trans [OF unat_u64_less])

lemma unat_ucast_u64: "unat (ucast (w :: u128) :: u64) = unat w mod 2 ^ 64"
  by (rule unsigned_ucast_eq [THEN trans]) (simp only: take_bit_eq_mod, simp)

lemma or_disjoint_nat: "push_bit n h OR (l::nat) = h * 2 ^ n + l" if "l < 2 ^ n"
proof -
  from that have "l = take_bit n l" by (simp add: take_bit_nat_eq_self)
  then have "push_bit n h OR l = push_bit n h + l"
    by (metis (no_types, lifting) bit_push_bit_iff bit_take_bit_iff disjunctive_add linorder_not_less)
  then show ?thesis by (simp add: push_bit_eq_mult)
qed

lemma unat_join:
  assumes "unat h * 2 ^ n < 2 ^ LENGTH('a)" and "unat l < 2 ^ n"
  shows "unat (push_bit n h OR l :: 'a::len word) = unat h * 2 ^ n + unat l"
proof -
  have "unat (push_bit n h) = push_bit n (unat h)"
    using assms(1) by (simp add: unat_shl del: push_bit_eq_mult)
      (simp add: push_bit_eq_mult)
  then have "unat (push_bit n h OR l) = push_bit n (unat h) OR unat l"
    by (simp only: unsigned_or_eq)
  then show ?thesis using assms(2) by (simp only: or_disjoint_nat)
qed

lemma mod_power_add_split: "(s::nat) mod 2 ^ (m + n) = s mod 2 ^ m + 2 ^ m * (s div 2 ^ m mod 2 ^ n)"
  by (simp add: power_add mod_mult2_eq)

lemma carry_step: "(s::nat) mod k + k * ((t + s div k) mod m) = (s + k * t) mod (k * m)"
  by (cases "k = 0") (simp_all add: mod_mult2_eq add.commute)

lemma unat_sub_mod:
  "unat (x - y :: 'a::len word) = (unat x + 2 ^ LENGTH('a) - unat y) mod 2 ^ LENGTH('a)"
proof -
  have "unat y \<le> 2 ^ LENGTH('a)" by (simp add: less_imp_le)
  then have "unat x + 2 ^ LENGTH('a) - unat y = unat x + (2 ^ LENGTH('a) - unat y)" by simp
  moreover have "unat (x + - y) = (unat x + (2 ^ LENGTH('a) - unat y)) mod 2 ^ LENGTH('a)"
    by (simp only: unat_add_mod unat_neg mod_simps)
  ultimately show ?thesis by simp
qed

subsection \<open>Parts of a list\<close>

definition segment :: "nat \<Rightarrow> nat \<Rightarrow> 'a list \<Rightarrow> 'a list" where
  "segment i j xs = take (j - i) (drop i xs)"

lemma segment_split: "i \<le> j \<Longrightarrow> xs = take i xs @ segment i j xs @ drop j xs"
  unfolding segment_def
  by (metis add_diff_inverse_nat append_take_drop_id drop_drop not_less add.commute)

lemma list_split3:
  assumes "length xs = a + b + c"
  obtains us vs ws where "xs = us @ vs @ ws" "length us = a" "length vs = b" "length ws = c"
proof (rule that)
  show "xs = take a xs @ take b (drop a xs) @ drop b (drop a xs)" by (simp del: drop_drop)
qed (use assms in simp_all)

end
