(* ===== verification/Tagging.thy ===== *)
theory Tagging
  imports Prelude
begin

text \<open>
  Immediate objects, \<^verbatim>\<open>include/chibi/sexp.h\<close>: a \<open>sexp\<close> is a machine word whose low bits say
  whether it is a fixnum, a heap pointer, a string cursor, a character or a unique immediate.
  The build with signed shifts and disjoint string cursors is modelled; words are \<open>u64\<close>, read
  as \<open>sexp_sint_t\<close> through \<open>sint\<close>.  Signed arithmetic that overflows wraps, as the shift and
  add instructions the macros compile to do.
\<close>

subsection \<open>Tags\<close>

definition SEXP_MAX_FIXNUM :: u64 where
  "SEXP_MAX_FIXNUM = push_bit 62 1 - 1"

definition SEXP_MIN_FIXNUM :: u64 where
  "SEXP_MIN_FIXNUM = - SEXP_MAX_FIXNUM - 1"

definition SEXP_UINT_T_MAX :: u64 where
  "SEXP_UINT_T_MAX = - 1"

definition sexp_pointerp_w :: "u64 \<Rightarrow> bool" where
  "sexp_pointerp_w x \<longleftrightarrow> x AND 3 = 0"

definition sexp_fixnump_w :: "u64 \<Rightarrow> bool" where
  "sexp_fixnump_w x \<longleftrightarrow> x AND 1 = 1"

definition sexp_string_cursorp_w :: "u64 \<Rightarrow> bool" where
  "sexp_string_cursorp_w x \<longleftrightarrow> x AND 7 = 2"

definition sexp_charp_w :: "u64 \<Rightarrow> bool" where
  "sexp_charp_w x \<longleftrightarrow> x AND 255 = 30"

definition sexp_make_fixnum :: "u64 \<Rightarrow> u64" where
  "sexp_make_fixnum n = push_bit 1 n + 1"

definition sexp_unbox_fixnum :: "u64 \<Rightarrow> u64" where
  "sexp_unbox_fixnum n = signed_drop_bit 1 n"

definition sexp_make_string_cursor :: "u64 \<Rightarrow> u64" where
  "sexp_make_string_cursor n = push_bit 3 n + 2"

definition sexp_unbox_string_cursor :: "u64 \<Rightarrow> u64" where
  "sexp_unbox_string_cursor n = signed_drop_bit 3 n"

definition sexp_string_cursor_to_fixnum :: "u64 \<Rightarrow> u64" where
  "sexp_string_cursor_to_fixnum n = sexp_make_fixnum (sexp_unbox_string_cursor n)"

definition sexp_fixnum_to_string_cursor :: "u64 \<Rightarrow> u64" where
  "sexp_fixnum_to_string_cursor n = sexp_make_string_cursor (sexp_unbox_fixnum n)"

definition sexp_make_character :: "u64 \<Rightarrow> u64" where
  "sexp_make_character n = push_bit 8 n + 30"

definition sexp_unbox_character :: "u64 \<Rightarrow> u32" where
  "sexp_unbox_character n = ucast (signed_drop_bit 8 n)"

subsection \<open>Fixnum arithmetic on tagged words\<close>

definition c_div :: "int \<Rightarrow> int \<Rightarrow> int" where
  "c_div a b = sgn a * sgn b * (\<bar>a\<bar> div \<bar>b\<bar>)"

definition c_rem :: "int \<Rightarrow> int \<Rightarrow> int" where
  "c_rem a b = sgn a * (\<bar>a\<bar> mod \<bar>b\<bar>)"

definition sexp_fx_add :: "u64 \<Rightarrow> u64 \<Rightarrow> u64" where
  "sexp_fx_add a b = a + b - 1"

definition sexp_fx_sub :: "u64 \<Rightarrow> u64 \<Rightarrow> u64" where
  "sexp_fx_sub a b = a - b + 1"

definition sexp_fx_mul :: "u64 \<Rightarrow> u64 \<Rightarrow> u64" where
  "sexp_fx_mul a b = (a - 1) * signed_drop_bit 1 b + 1"

definition sexp_fx_div :: "u64 \<Rightarrow> u64 \<Rightarrow> u64" where
  "sexp_fx_div a b =
    sexp_make_fixnum (word_of_int (c_div (sint (sexp_unbox_fixnum a)) (sint (sexp_unbox_fixnum b))))"

definition sexp_fx_rem :: "u64 \<Rightarrow> u64 \<Rightarrow> u64" where
  "sexp_fx_rem a b =
    sexp_make_fixnum (word_of_int (c_rem (sint (sexp_unbox_fixnum a)) (sint (sexp_unbox_fixnum b))))"

definition sexp_fx_sign :: "u64 \<Rightarrow> int" where
  "sexp_fx_sign a = sint (1 OR signed_drop_bit 63 a)"

definition sexp_fx_neg :: "u64 \<Rightarrow> u64" where
  "sexp_fx_neg a = sexp_make_fixnum (- sexp_unbox_fixnum a)"

definition sexp_fx_abs :: "u64 \<Rightarrow> u64" where
  "sexp_fx_abs a = (if sint a < 0 then sexp_fx_neg a else a)"

definition sexp_unbox_fx_abs :: "u64 \<Rightarrow> u64" where
  "sexp_unbox_fx_abs a = (if sint a < 0 then - sexp_unbox_fixnum a else sexp_unbox_fixnum a)"

subsection \<open>The value of a fixnum\<close>

definition fits_fixnum :: "int \<Rightarrow> bool" where
  "fits_fixnum n \<longleftrightarrow> - (2 ^ 62) \<le> n \<and> n < 2 ^ 62"

definition fixnum_word :: "int \<Rightarrow> u64" where
  "fixnum_word n = sexp_make_fixnum (word_of_int n)"

definition fixnum_value :: "u64 \<Rightarrow> int" where
  "fixnum_value w = sint (sexp_unbox_fixnum w)"

lemma sint_fixnum_bounds: "sint SEXP_MAX_FIXNUM = 2 ^ 62 - 1" "sint SEXP_MIN_FIXNUM = - (2 ^ 62)"
  "uint SEXP_MAX_FIXNUM = 2 ^ 62 - 1" "uint SEXP_MIN_FIXNUM = 2 ^ 64 - 2 ^ 62"
  by (simp_all add: SEXP_MAX_FIXNUM_def SEXP_MIN_FIXNUM_def)

lemma fixnum_value_div: "fixnum_value w = sint w div 2"
  by (simp add: fixnum_value_def sexp_unbox_fixnum_def sint_signed_drop_bit_eq drop_bit_eq_div)

lemma fits_fixnum_value: "fits_fixnum (fixnum_value w)"
  using sint_ge [of w] sint_lt [of w] by (simp add: fits_fixnum_def fixnum_value_div) presburger

lemma sint_signed_word: "- (2 ^ 63) \<le> n \<Longrightarrow> n < 2 ^ 63 \<Longrightarrow> sint (word_of_int n :: u64) = n"
  by (simp add: signed_of_int signed_take_bit_int_eq_self)

lemma fixnum_word_alt: "fixnum_word n = word_of_int (2 * n + 1)"
  by (simp add: fixnum_word_def sexp_make_fixnum_def push_bit_eq_mult)

lemma sint_fixnum_word: "fits_fixnum n \<Longrightarrow> sint (fixnum_word n) = 2 * n + 1"
  unfolding fixnum_word_alt by (rule sint_signed_word) (simp_all add: fits_fixnum_def)

lemma fixnum_value_word [simp]: "fits_fixnum n \<Longrightarrow> fixnum_value (fixnum_word n) = n"
  by (simp add: fixnum_value_div sint_fixnum_word)

lemma sexp_make_fixnum_word: "sexp_make_fixnum n = fixnum_word (sint n)"
  by (simp add: fixnum_word_def)

lemma odd_sint: "odd (sint w) \<longleftrightarrow> bit (w :: u64) 0"
  by (simp add: bit_sint_iff flip: bit_0)

lemma fixnump_bit0: "sexp_fixnump_w w \<longleftrightarrow> bit w 0"
  by (simp add: sexp_fixnump_w_def and_one_eq odd_iff_mod_2_eq_one bit_0)

lemma fixnum_word_value: "sexp_fixnump_w w \<Longrightarrow> fixnum_word (fixnum_value w) = w"
  by (simp add: fixnum_word_alt fixnum_value_div fixnump_bit0 flip: odd_sint)

lemma fixnump_word [simp]: "sexp_fixnump_w (fixnum_word n)"
  by (simp add: fixnump_bit0 fixnum_word_alt bit_word_of_int_iff bit_0)

lemma fixnum_word_inject:
  "fits_fixnum m \<Longrightarrow> fits_fixnum n \<Longrightarrow> fixnum_word m = fixnum_word n \<longleftrightarrow> m = n"
  by (metis fixnum_value_word)

lemma fixnum_value_inject:
  "sexp_fixnump_w v \<Longrightarrow> sexp_fixnump_w w \<Longrightarrow> fixnum_value v = fixnum_value w \<longleftrightarrow> v = w"
  by (metis fixnum_word_value)

lemma sint_neg_fixnum: "sint w < 0 \<longleftrightarrow> fixnum_value w < 0"
  by (simp add: fixnum_value_div)

lemma signed_shr63: "signed_drop_bit 63 (w :: u64) = (if sint w < 0 then - 1 else 0)"
proof (rule signed_word_eqI)
  have "sint w div 2 ^ 63 = (if sint w < 0 then - 1 else 0)"
  proof (cases "sint w < 0")
    case True
    then have "(sint w + 2 ^ 63) div 2 ^ 63 = 0"
      using sint_ge [of w] by (intro div_pos_pos_trivial) simp_all
    then show ?thesis using True by simp
  qed (use sint_lt [of w] in \<open>simp add: div_pos_pos_trivial\<close>)
  then show "sint (signed_drop_bit 63 w) = sint (if sint w < 0 then - 1 else 0 :: u64)"
    by (simp add: sint_signed_drop_bit_eq drop_bit_eq_div)
qed

lemma sexp_fx_sign_value: "sexp_fx_sign w = (if fixnum_value w < 0 then - 1 else 1)"
  by (simp add: sexp_fx_sign_def signed_shr63 sint_neg_fixnum)

lemma uint_word_nonneg:
  "0 \<le> n \<Longrightarrow> n < 2 ^ 64 \<Longrightarrow> uint (word_of_int n :: u64) = n"
  by (simp add: unsigned_of_int take_bit_int_eq_self)

lemma word_unbox: "sexp_unbox_fixnum w = word_of_int (fixnum_value w)"
  by (simp add: fixnum_value_def)

lemma sexp_unbox_fx_abs_value: "uint (sexp_unbox_fx_abs w) = \<bar>fixnum_value w\<bar>"
proof -
  have "sexp_unbox_fx_abs w = word_of_int \<bar>fixnum_value w\<bar>"
    by (simp add: sexp_unbox_fx_abs_def sint_neg_fixnum word_unbox)
  moreover have "\<bar>fixnum_value w\<bar> < 2 ^ 64"
    using fits_fixnum_value [of w] by (auto simp: fits_fixnum_def abs_if)
  ultimately show ?thesis by (simp only: uint_word_nonneg abs_ge_zero)
qed

lemma fx_ops_word:
  assumes "fits_fixnum m" "fits_fixnum n"
  shows "sexp_fx_add (fixnum_word m) (fixnum_word n) = fixnum_word (m + n)"
    and "sexp_fx_sub (fixnum_word m) (fixnum_word n) = fixnum_word (m - n)"
    and "sexp_fx_mul (fixnum_word m) (fixnum_word n) = fixnum_word (m * n)"
    and "sexp_fx_div (fixnum_word m) (fixnum_word n) = fixnum_word (c_div m n)"
    and "sexp_fx_rem (fixnum_word m) (fixnum_word n) = fixnum_word (c_rem m n)"
    and "sexp_fx_neg (fixnum_word m) = fixnum_word (- m)"
proof -
  have v: "sint (word_of_int m :: u64) = m" "sint (word_of_int n :: u64) = n"
    using assms by (simp_all add: sint_signed_word fits_fixnum_def)
  have n: "signed_drop_bit 1 (fixnum_word n) = word_of_int n"
    using assms word_unbox [of "fixnum_word n"] by (simp add: sexp_unbox_fixnum_def)
  show "sexp_fx_mul (fixnum_word m) (fixnum_word n) = fixnum_word (m * n)"
    unfolding sexp_fx_mul_def n by (simp add: fixnum_word_alt algebra_simps)
  show "sexp_fx_div (fixnum_word m) (fixnum_word n) = fixnum_word (c_div m n)"
    "sexp_fx_rem (fixnum_word m) (fixnum_word n) = fixnum_word (c_rem m n)"
    using assms by (simp_all add: sexp_fx_div_def sexp_fx_rem_def word_unbox v fixnum_word_def [symmetric])
  show "sexp_fx_neg (fixnum_word m) = fixnum_word (- m)"
    using assms by (simp add: sexp_fx_neg_def word_unbox) (simp add: fixnum_word_def)
qed (simp_all add: sexp_fx_add_def sexp_fx_sub_def fixnum_word_alt)

lemma c_div_rem: "c_div a b * b + c_rem a b = a"
proof -
  have "c_div a b * b + c_rem a b = sgn a * (\<bar>a\<bar> div \<bar>b\<bar> * (sgn b * b) + \<bar>a\<bar> mod \<bar>b\<bar>)"
    by (simp add: c_div_def c_rem_def algebra_simps)
  also have "\<dots> = sgn a * (\<bar>a\<bar> div \<bar>b\<bar> * \<bar>b\<bar> + \<bar>a\<bar> mod \<bar>b\<bar>)" by (simp add: abs_sgn mult.commute)
  also have "\<dots> = a" by (simp add: sgn_mult_abs)
  finally show ?thesis .
qed

lemma c_rem_bound: "b \<noteq> 0 \<Longrightarrow> \<bar>c_rem a b\<bar> < \<bar>b\<bar>"
  by (simp add: c_rem_def abs_mult abs_sgn_eq)

lemma c_rem_le: "\<bar>c_rem a b\<bar> \<le> \<bar>a\<bar>"
proof -
  have "\<bar>a\<bar> mod \<bar>b\<bar> \<le> \<bar>a\<bar>" by (simp add: zmod_le_nonneg_dividend)
  moreover have "0 \<le> \<bar>a\<bar> mod \<bar>b\<bar>" by (cases "b = 0") simp_all
  ultimately show ?thesis by (cases "a = 0") (simp_all add: c_rem_def abs_mult abs_sgn_eq)
qed

lemma c_div_le: "\<bar>c_div a b\<bar> \<le> \<bar>a\<bar>"
proof (cases "b = 0")
  case False
  then have "\<bar>a\<bar> div \<bar>b\<bar> \<le> \<bar>a\<bar> div 1" by (intro zdiv_mono2) simp_all
  moreover have "0 \<le> \<bar>a\<bar> div \<bar>b\<bar>" using False by (simp add: pos_imp_zdiv_nonneg_iff)
  ultimately show ?thesis using False by (cases "a = 0") (simp_all add: c_div_def abs_mult abs_sgn_eq)
qed (simp add: c_div_def)

subsection \<open>Round trips and disjointness of the tags\<close>

lemma low_bits_tag:
  assumes "k \<le> 8" "unat x < 2 ^ k"
  shows "(push_bit k n + x :: u64) AND mask k = x"
proof -
  have d: "(2::nat) ^ k dvd 2 ^ 64" using assms(1) by (intro le_imp_power_dvd) simp
  have "unat (take_bit k (push_bit k n + x)) = (unat n * 2 ^ k mod 2 ^ 64 + unat x) mod 2 ^ 64 mod 2 ^ k"
    by (simp only: unat_low_bits unat_add_mod unat_shl) simp
  also have "\<dots> = (unat n * 2 ^ k mod 2 ^ 64 mod 2 ^ k + unat x) mod 2 ^ k"
    by (simp only: mod_mod_cancel [OF d] mod_simps)
  also have "\<dots> = unat x" using assms(2) by (simp only: mod_mod_cancel [OF d]) simp
  finally show ?thesis by (simp only: take_bit_eq_mask word_unat_eq_iff)
qed

lemma tag_low_bits:
  "sexp_make_fixnum n AND 1 = 1" "sexp_make_string_cursor n AND 7 = 2" "sexp_make_character n AND 255 = 30"
  using low_bits_tag [of 1 1 n] low_bits_tag [of 3 2 n] low_bits_tag [of 8 30 n]
  by (simp_all add: sexp_make_fixnum_def sexp_make_string_cursor_def sexp_make_character_def mask_eq_exp_minus_1)

lemma smaller_tag:
  "w AND 3 = 0 \<Longrightarrow> w AND 1 = 0" "w AND 7 = 2 \<Longrightarrow> w AND 1 = 0" "w AND 255 = 30 \<Longrightarrow> w AND 1 = 0"
  "w AND 7 = 2 \<Longrightarrow> w AND 3 = 2" "w AND 255 = 30 \<Longrightarrow> w AND 3 = 2" "w AND 255 = 30 \<Longrightarrow> w AND 7 = 6"
  for w :: u64
proof -
  have m: "w AND 1 = (w AND 3) AND 1" "w AND 1 = (w AND 7) AND 1" "w AND 1 = (w AND 255) AND 1"
    "w AND 3 = (w AND 7) AND 3" "w AND 3 = (w AND 255) AND 3" "w AND 7 = (w AND 255) AND 7"
    by (simp_all add: and.assoc)
  show "w AND 3 = 0 \<Longrightarrow> w AND 1 = 0" using m(1) by simp
  show "w AND 7 = 2 \<Longrightarrow> w AND 1 = 0" using m(2) by simp
  show "w AND 255 = 30 \<Longrightarrow> w AND 1 = 0" using m(3) by simp
  show "w AND 7 = 2 \<Longrightarrow> w AND 3 = 2" using m(4) by simp
  show "w AND 255 = 30 \<Longrightarrow> w AND 3 = 2" using m(5) by simp
  show "w AND 255 = 30 \<Longrightarrow> w AND 7 = 6" using m(6) by simp
qed

lemma signed_shr_shl:
  assumes "- (2 ^ (63 - k)) \<le> sint n" "sint n < 2 ^ (63 - k)" "k \<le> 8" "0 \<le> x" "x < 2 ^ k"
  shows "signed_drop_bit k (push_bit k n + word_of_int x :: u64) = n"
proof (rule signed_word_eqI)
  have e: "(2::int) ^ (63 - k) * 2 ^ k = 2 ^ 63" using assms(3) by (simp flip: power_add)
  have lo: "- (2 ^ 63) \<le> sint n * 2 ^ k"
    using mult_right_mono [OF assms(1), of "2 ^ k"] by (simp add: e)
  have "(sint n + 1) * 2 ^ k \<le> 2 ^ (63 - k) * 2 ^ k" using assms(2) by (intro mult_right_mono) simp_all
  then have hi: "sint n * 2 ^ k + 2 ^ k \<le> 2 ^ 63" by (simp only: e distrib_right mult_1_left)
  have "push_bit k n + word_of_int x = (word_of_int (sint n * 2 ^ k + x) :: u64)"
    by (simp add: push_bit_eq_mult)
  moreover have "sint (word_of_int (sint n * 2 ^ k + x) :: u64) = sint n * 2 ^ k + x"
    using lo hi assms by (intro sint_signed_word) linarith+
  ultimately have "sint (signed_drop_bit k (push_bit k n + word_of_int x)) = (sint n * 2 ^ k + x) div 2 ^ k"
    by (simp only: sint_signed_drop_bit_eq drop_bit_eq_div)
  also have "\<dots> = sint n" using assms by (simp add: div_pos_pos_trivial)
  finally show "sint (signed_drop_bit k (push_bit k n + word_of_int x)) = sint n" .
qed

text \<open>
  C34.  Boxing round trips: a signed word of 63 bits survives \<open>sexp_make_fixnum\<close>, one of 61 bits
  \<open>sexp_make_string_cursor\<close> and the conversion between the two, and a 32-bit code point
  \<open>sexp_make_character\<close>.
\<close>

theorem immediate_roundtrip:
  assumes "fits_fixnum (sint n)" and "- (2 ^ 60) \<le> sint c" and "sint c < 2 ^ 60"
  shows "sexp_unbox_fixnum (sexp_make_fixnum n) = n
    \<and> sexp_unbox_string_cursor (sexp_make_string_cursor c) = c
    \<and> sexp_string_cursor_to_fixnum (sexp_make_string_cursor c) = sexp_make_fixnum c
    \<and> sexp_fixnum_to_string_cursor (sexp_make_fixnum c) = sexp_make_string_cursor c
    \<and> sexp_unbox_character (sexp_make_character (scast ch)) = ch"
proof -
  have c': "- (2 ^ 62) \<le> sint c" "sint c < 2 ^ 62" using assms by simp_all
  have sc: "sexp_unbox_string_cursor (sexp_make_string_cursor c) = c"
    using signed_shr_shl [of 3 c 2] assms
    by (simp add: sexp_unbox_string_cursor_def sexp_make_string_cursor_def)
  have fx: "sexp_unbox_fixnum (sexp_make_fixnum m) = m" if "- (2 ^ 62) \<le> sint m" "sint m < 2 ^ 62" for m
    using signed_shr_shl [of 1 m 1] that by (simp add: sexp_unbox_fixnum_def sexp_make_fixnum_def)
  have id: "ucast (scast ch :: u64) = ch"
    by (rule bit_word_eqI) (auto simp: bit_unsigned_iff bit_signed_iff min_def less_Suc_eq_le
      numeral_eq_Suc dest!: le_antisym)
  have "sint (scast ch :: u64) = sint ch" by (rule sint_up_scast) (simp add: is_up)
  then have "signed_drop_bit 8 (push_bit 8 (scast ch :: u64) + word_of_int 30) = scast ch"
    using sint_ge [of ch] sint_lt [of ch] by (intro signed_shr_shl) simp_all
  then have "sexp_unbox_character (sexp_make_character (scast ch)) = ch"
    by (simp add: sexp_unbox_character_def sexp_make_character_def id)
  with sc fx [OF c'] fx [of n] assms(1) show ?thesis
    by (simp add: fits_fixnum_def sexp_string_cursor_to_fixnum_def sexp_fixnum_to_string_cursor_def)
qed

theorem immediate_roundtrip_witness:
  "sexp_unbox_fixnum (sexp_make_fixnum SEXP_MIN_FIXNUM) = SEXP_MIN_FIXNUM
   \<and> sexp_unbox_string_cursor (sexp_make_string_cursor 5) = 5
   \<and> sexp_unbox_character (sexp_make_character (scast (955 :: u32))) = 955"
  using immediate_roundtrip [of SEXP_MIN_FIXNUM 5 955]
  by (simp add: fits_fixnum_def sint_fixnum_bounds)

text \<open>
  The tags are disjoint: an immediate made by one of the constructors answers true to its own
  predicate only, and never looks like a heap pointer.
\<close>

lemma immediate_tags_disjoint:
  "sexp_fixnump_w (sexp_make_fixnum n) \<and> \<not> sexp_pointerp_w (sexp_make_fixnum n)
     \<and> \<not> sexp_string_cursorp_w (sexp_make_fixnum n) \<and> \<not> sexp_charp_w (sexp_make_fixnum n)
   \<and> sexp_string_cursorp_w (sexp_make_string_cursor n) \<and> \<not> sexp_pointerp_w (sexp_make_string_cursor n)
     \<and> \<not> sexp_fixnump_w (sexp_make_string_cursor n) \<and> \<not> sexp_charp_w (sexp_make_string_cursor n)
   \<and> sexp_charp_w (sexp_make_character n) \<and> \<not> sexp_pointerp_w (sexp_make_character n)
     \<and> \<not> sexp_fixnump_w (sexp_make_character n) \<and> \<not> sexp_string_cursorp_w (sexp_make_character n)"
  unfolding sexp_fixnump_w_def sexp_pointerp_w_def sexp_string_cursorp_w_def sexp_charp_w_def
  using tag_low_bits [of n] smaller_tag [of "sexp_make_fixnum n"]
    smaller_tag [of "sexp_make_string_cursor n"] smaller_tag [of "sexp_make_character n"]
  by auto

end
