(* ===== verification/Luint.thy ===== *)
theory Luint
  imports Tagging
begin

text \<open>
  Double-width integers, \<^verbatim>\<open>include/chibi/bignum.h\<close>.  The header has two implementations of
  \<open>sexp_luint_t\<close>/\<open>sexp_lsint_t\<close>: macros over the compiler's 128-bit integers
  (\<open>!SEXP_USE_CUSTOM_LONG_LONGS\<close>, here \<open>native_\<close>) and inline functions over a pair of
  64-bit words (\<open>SEXP_USE_CUSTOM_LONG_LONGS\<close>).  Both are translated; the interface the bignum
  digit loops rely on is the locale \<open>long_long\<close>, interpreted on both.
\<close>

subsection \<open>The pair representation\<close>

record luint =
  luint_hi :: u64
  luint_lo :: u64

record lsint =
  lsint_hi :: u64
  lsint_lo :: u64

definition lsint_lt_0 :: "lsint \<Rightarrow> bool" where
  "lsint_lt_0 a \<longleftrightarrow> sint (lsint_hi a) < 0"

definition sexp_lsint_fits_sint :: "lsint \<Rightarrow> bool" where
  "sexp_lsint_fits_sint x \<longleftrightarrow> lsint_hi x = signed_drop_bit 63 (lsint_lo x)"

definition sexp_luint_fits_uint :: "luint \<Rightarrow> bool" where
  "sexp_luint_fits_uint x \<longleftrightarrow> luint_hi x = 0"

definition luint_from_lsint :: "lsint \<Rightarrow> luint" where
  "luint_from_lsint v = \<lparr>luint_hi = lsint_hi v, luint_lo = lsint_lo v\<rparr>"

definition lsint_from_luint :: "luint \<Rightarrow> lsint" where
  "lsint_from_luint v = \<lparr>lsint_hi = luint_hi v, lsint_lo = luint_lo v\<rparr>"

definition lsint_from_sint :: "u64 \<Rightarrow> lsint" where
  "lsint_from_sint v = \<lparr>lsint_hi = signed_drop_bit 63 v, lsint_lo = v\<rparr>"

definition luint_from_uint :: "u64 \<Rightarrow> luint" where
  "luint_from_uint v = \<lparr>luint_hi = 0, luint_lo = v\<rparr>"

definition lsint_to_sint :: "lsint \<Rightarrow> u64" where
  "lsint_to_sint v = lsint_lo v"

definition luint_to_uint :: "luint \<Rightarrow> u64" where
  "luint_to_uint v = luint_lo v"

definition lsint_to_sint_hi :: "lsint \<Rightarrow> u64" where
  "lsint_to_sint_hi v = lsint_hi v"

definition luint_to_uint_hi :: "luint \<Rightarrow> u64" where
  "luint_to_uint_hi v = luint_hi v"

definition lsint_negate :: "lsint \<Rightarrow> lsint" where
  "lsint_negate v =
    (let a_hi = NOT (lsint_hi v); a_lo = NOT (lsint_lo v);
         aLoLo = a_lo AND 0xFFFFFFFF; aLoHi = drop_bit 32 a_lo;
         aHiLo = a_hi AND 0xFFFFFFFF; aHiHi = drop_bit 32 a_hi;
         sumLoLo = aLoLo + 1; carry = drop_bit 32 sumLoLo;
         resultLoLo = sumLoLo AND 0xFFFFFFFF;
         sumLoHi = aLoHi + carry; resultLoHi = sumLoHi AND 0xFFFFFFFF;
         carry = drop_bit 32 sumLoHi;
         sumHiLo = aHiLo + carry; resultHiLo = sumHiLo AND 0xFFFFFFFF;
         carry = drop_bit 32 sumHiLo;
         sumHiHi = aHiHi + carry; resultHiHi = sumHiHi AND 0xFFFFFFFF
     in \<lparr>lsint_hi = push_bit 32 resultHiHi OR resultHiLo,
         lsint_lo = push_bit 32 resultLoHi OR resultLoLo\<rparr>)"

definition luint_eq :: "luint \<Rightarrow> luint \<Rightarrow> bool" where
  "luint_eq a b \<longleftrightarrow> luint_hi a = luint_hi b \<and> luint_lo a = luint_lo b"

definition luint_lt :: "luint \<Rightarrow> luint \<Rightarrow> bool" where
  "luint_lt a b =
    (if luint_hi a < luint_hi b then True
     else if luint_hi a > luint_hi b then False
     else luint_lo a < luint_lo b)"

definition luint_shl :: "luint \<Rightarrow> nat \<Rightarrow> luint" where
  "luint_shl v shift =
    (if shift = 0 then v
     else if shift \<ge> 64 then \<lparr>luint_hi = push_bit (shift - 64) (luint_lo v), luint_lo = 0\<rparr>
     else \<lparr>luint_hi = push_bit shift (luint_hi v) OR drop_bit (64 - shift) (luint_lo v),
           luint_lo = push_bit shift (luint_lo v)\<rparr>)"

definition luint_shr :: "luint \<Rightarrow> nat \<Rightarrow> luint" where
  "luint_shr v shift =
    (if shift = 0 then v
     else if shift \<ge> 64 then \<lparr>luint_hi = 0, luint_lo = drop_bit (shift - 64) (luint_hi v)\<rparr>
     else \<lparr>luint_hi = drop_bit shift (luint_hi v),
           luint_lo = drop_bit shift (luint_lo v) OR push_bit (64 - shift) (luint_hi v)\<rparr>)"

definition luint_add :: "luint \<Rightarrow> luint \<Rightarrow> luint" where
  "luint_add a b =
    (let aLoLo = luint_lo a AND 0xFFFFFFFF; aLoHi = drop_bit 32 (luint_lo a);
         aHiLo = luint_hi a AND 0xFFFFFFFF; aHiHi = drop_bit 32 (luint_hi a);
         bLoLo = luint_lo b AND 0xFFFFFFFF; bLoHi = drop_bit 32 (luint_lo b);
         bHiLo = luint_hi b AND 0xFFFFFFFF; bHiHi = drop_bit 32 (luint_hi b);
         sumLoLo = aLoLo + bLoLo; carry = drop_bit 32 sumLoLo;
         resultLoLo = sumLoLo AND 0xFFFFFFFF;
         sumLoHi = aLoHi + bLoHi + carry; resultLoHi = sumLoHi AND 0xFFFFFFFF;
         carry = drop_bit 32 sumLoHi;
         sumHiLo = aHiLo + bHiLo + carry; resultHiLo = sumHiLo AND 0xFFFFFFFF;
         carry = drop_bit 32 sumHiLo;
         sumHiHi = aHiHi + bHiHi + carry; resultHiHi = sumHiHi AND 0xFFFFFFFF
     in \<lparr>luint_hi = push_bit 32 resultHiHi OR resultHiLo,
         luint_lo = push_bit 32 resultLoHi OR resultLoLo\<rparr>)"

definition luint_add_uint :: "luint \<Rightarrow> u64 \<Rightarrow> luint" where
  "luint_add_uint a b =
    (let aLoLo = luint_lo a AND 0xFFFFFFFF; aLoHi = drop_bit 32 (luint_lo a);
         aHiLo = luint_hi a AND 0xFFFFFFFF; aHiHi = drop_bit 32 (luint_hi a);
         bLoLo = b AND 0xFFFFFFFF; bLoHi = drop_bit 32 b;
         sumLoLo = aLoLo + bLoLo; carry = drop_bit 32 sumLoLo;
         resultLoLo = sumLoLo AND 0xFFFFFFFF;
         sumLoHi = aLoHi + bLoHi + carry; resultLoHi = sumLoHi AND 0xFFFFFFFF;
         carry = drop_bit 32 sumLoHi;
         sumHiLo = aHiLo + carry; resultHiLo = sumHiLo AND 0xFFFFFFFF;
         carry = drop_bit 32 sumHiLo;
         sumHiHi = aHiHi + carry; resultHiHi = sumHiHi AND 0xFFFFFFFF
     in \<lparr>luint_hi = push_bit 32 resultHiHi OR resultHiLo,
         luint_lo = push_bit 32 resultLoHi OR resultLoLo\<rparr>)"

definition luint_sub :: "luint \<Rightarrow> luint \<Rightarrow> luint" where
  "luint_sub a b =
    (let negB = \<lparr>luint_hi = NOT (luint_hi b), luint_lo = NOT (luint_lo b)\<rparr>
     in luint_add a (luint_add_uint negB 1))"

definition luint_mul_half :: "luint \<Rightarrow> u64 \<Rightarrow> luint" where
  "luint_mul_half a b =
    (let aLoLo = luint_lo a AND 0xFFFFFFFF; aLoHi = drop_bit 32 (luint_lo a);
         aHiLo = luint_hi a AND 0xFFFFFFFF; aHiHi = drop_bit 32 (luint_hi a);
         prodLoLo = \<lparr>luint_hi = 0, luint_lo = aLoLo * b\<rparr>;
         prodLoHi = \<lparr>luint_hi = drop_bit 32 (aLoHi * b), luint_lo = push_bit 32 (aLoHi * b)\<rparr>;
         prodHiLo = \<lparr>luint_hi = aHiLo * b, luint_lo = 0\<rparr>;
         prodHiHi = \<lparr>luint_hi = push_bit 32 (aHiHi * b), luint_lo = 0\<rparr>
     in luint_add (luint_add (luint_add prodLoLo prodLoHi) prodHiLo) prodHiHi)"

definition luint_mul_uint :: "luint \<Rightarrow> u64 \<Rightarrow> luint" where
  "luint_mul_uint a b =
    (let bLo = b AND 0xFFFFFFFF; bHi = drop_bit 32 b;
         resultBLo = luint_mul_half a bLo; resultBHi = luint_mul_half a bHi
     in luint_add resultBLo (luint_shl resultBHi 32))"

definition lsint_mul_sint :: "lsint \<Rightarrow> u64 \<Rightarrow> lsint" where
  "lsint_mul_sint a b =
    (if lsint_lt_0 a then
       (let minusA = luint_from_lsint (lsint_negate a)
        in if sint b < 0 then lsint_from_luint (luint_mul_uint minusA (- b))
           else lsint_negate (lsint_from_luint (luint_mul_uint minusA b)))
     else
       (if sint b < 0
        then lsint_negate (lsint_from_luint (luint_mul_uint (luint_from_lsint a) (- b)))
        else lsint_from_luint (luint_mul_uint (luint_from_lsint a) b)))"

fun luint_div_loop :: "nat \<Rightarrow> luint \<Rightarrow> luint \<Rightarrow> luint \<Rightarrow> luint \<Rightarrow> luint" where
  "luint_div_loop 0 b a quot rmd = quot"
| "luint_div_loop (Suc n) b a quot rmd =
    (let quot = luint_shl quot 1;
         rmd = luint_shl rmd 1;
         rmd = rmd\<lparr>luint_lo := luint_lo rmd OR (drop_bit 63 (luint_hi a) AND 1)\<rparr>;
         a = luint_shl a 1
     in if \<not> luint_lt rmd b
        then luint_div_loop n b a (quot\<lparr>luint_lo := luint_lo quot OR 1\<rparr>) (luint_sub rmd b)
        else luint_div_loop n b a quot rmd)"

definition luint_div :: "luint \<Rightarrow> luint \<Rightarrow> luint" where
  "luint_div a b =
    (if luint_lt a b then luint_from_uint 0
     else if luint_eq a b then luint_from_uint 1
     else luint_div_loop 128 b a (luint_from_uint 0) (luint_from_uint 0))"

definition luint_div_uint :: "luint \<Rightarrow> u64 \<Rightarrow> luint" where
  "luint_div_uint a b = luint_div a (luint_from_uint b)"

definition luint_and :: "luint \<Rightarrow> luint \<Rightarrow> luint" where
  "luint_and a b = \<lparr>luint_hi = luint_hi a AND luint_hi b, luint_lo = luint_lo a AND luint_lo b\<rparr>"

definition luint_is_fixnum :: "luint \<Rightarrow> bool" where
  "luint_is_fixnum x \<longleftrightarrow> luint_hi x = 0 \<and> luint_lo x \<le> SEXP_MAX_FIXNUM"

definition lsint_is_fixnum :: "lsint \<Rightarrow> bool" where
  "lsint_is_fixnum x =
    (if sint (lsint_hi x) > 0 then False
     else if lsint_hi x = 0 then lsint_lo x \<le> SEXP_MAX_FIXNUM
     else if lsint_hi x = - 1 then SEXP_MIN_FIXNUM \<le> lsint_lo x
     else False)"

subsection \<open>Reading a pair as a number\<close>

definition luint_nat :: "luint \<Rightarrow> nat" where
  "luint_nat x = unat (luint_hi x) * 2 ^ 64 + unat (luint_lo x)"

lemma luint_nat_less: "luint_nat x < 2 ^ 128"
  using unat_u64_less [of "luint_hi x"] unat_u64_less [of "luint_lo x"]
  by (simp add: luint_nat_def del: unat_u64_less)

lemma luint_nat_hi: "luint_nat x div 2 ^ 64 = unat (luint_hi x)"
  and luint_nat_lo: "luint_nat x mod 2 ^ 64 = unat (luint_lo x)"
  using unat_u64_less [of "luint_lo x"] by (simp_all add: luint_nat_def del: unat_u64_less)

lemma luint_nat_inject: "luint_nat x = luint_nat y \<longleftrightarrow> x = y"
proof
  assume e: "luint_nat x = luint_nat y"
  have "luint_hi x = luint_hi y" by (metis e luint_nat_hi word_unat_eq_iff)
  moreover have "luint_lo x = luint_lo y" by (metis e luint_nat_lo word_unat_eq_iff)
  ultimately show "x = y" by (simp add: luint.equality)
qed simp

lemma luint_natI:
  assumes "unat h = m div 2 ^ 64 mod 2 ^ 64" and "unat l = m mod 2 ^ 64"
  shows "luint_nat \<lparr>luint_hi = h, luint_lo = l\<rparr> = m mod 2 ^ 128"
  using assms mod_power_add_split [of m 64 64] by (simp add: luint_nat_def)

text \<open>The four-limb carry chain shared by \<open>luint_add\<close>, \<open>luint_add_uint\<close> and \<open>lsint_negate\<close>.\<close>

lemma limb_step:
  assumes "unat t + 2 ^ 32 \<le> 2 ^ 64"
  shows "unat (t + drop_bit 32 (s :: u64)) = unat t + unat s div 2 ^ 32"
proof -
  have "unat s div 2 ^ 32 < 2 ^ 32"
    by (rule less_mult_imp_div_less) (use unat_u64_less [of s] in simp)
  then have "unat t + unat s div 2 ^ 32 < 2 ^ 64" using assms by linarith
  then show ?thesis by (simp add: unat_arith_laws)
qed

lemma unat_join32: "unat (push_bit 32 (h AND 0xFFFFFFFF) OR (l AND 0xFFFFFFFF) :: u64)
   = unat h mod 2 ^ 32 * 2 ^ 32 + unat l mod 2 ^ 32"
  by (subst unat_join) (simp_all add: unat_and_mask32)

lemma carry_chain_nat:
  fixes s :: "nat"
  shows "s mod B + B * ((t2 + s div B) mod B
       + B * ((t3 + (t2 + s div B) div B) mod B
       + B * ((t4 + (t3 + (t2 + s div B) div B) div B) mod B)))
    = (s + B * (t2 + B * (t3 + B * t4))) mod (B * (B * (B * B)))"
proof -
  let ?u = "t2 + s div B" let ?v = "t3 + ?u div B" let ?w = "t4 + ?v div B"
  have "?v mod B + B * (?w mod B) = (?v + B * t4) mod (B * B)"
    by (rule carry_step)
  moreover have "?u mod B + B * ((t3 + B * t4 + ?u div B) mod (B * B))
      = (?u + B * (t3 + B * t4)) mod (B * (B * B))"
    by (rule carry_step)
  moreover have "s mod B + B * ((t2 + B * (t3 + B * t4) + s div B) mod (B * (B * B)))
      = (s + B * (t2 + B * (t3 + B * t4))) mod (B * (B * (B * B)))"
    by (rule carry_step)
  ultimately show ?thesis by (simp add: add_ac)
qed

lemma carry_chain:
  fixes s t2 t3 t4 :: u64
  defines "s2 \<equiv> t2 + drop_bit 32 s"
  defines "s3 \<equiv> t3 + drop_bit 32 s2"
  defines "s4 \<equiv> t4 + drop_bit 32 s3"
  assumes "unat t2 + 2 ^ 32 \<le> 2 ^ 64" "unat t3 + 2 ^ 32 \<le> 2 ^ 64" "unat t4 + 2 ^ 32 \<le> 2 ^ 64"
  shows "luint_nat \<lparr>luint_hi = push_bit 32 (s4 AND 0xFFFFFFFF) OR (s3 AND 0xFFFFFFFF),
                    luint_lo = push_bit 32 (s2 AND 0xFFFFFFFF) OR (s AND 0xFFFFFFFF)\<rparr>
     = (unat s + 2 ^ 32 * (unat t2 + 2 ^ 32 * (unat t3 + 2 ^ 32 * unat t4))) mod 2 ^ 128"
proof -
  have u: "unat s2 = unat t2 + unat s div 2 ^ 32" "unat s3 = unat t3 + unat s2 div 2 ^ 32"
    "unat s4 = unat t4 + unat s3 div 2 ^ 32"
    unfolding s2_def s3_def s4_def by (rule limb_step, fact)+
  have "(2::nat) ^ 128 = 2 ^ 32 * (2 ^ 32 * (2 ^ 32 * 2 ^ 32))" by simp
  then show ?thesis
    using carry_chain_nat [of "unat s" "2 ^ 32" "unat t2" "unat t3" "unat t4"]
    unfolding luint_nat_def luint.select_convs unat_join32 u by (simp add: algebra_simps)
qed

lemma split32: "unat x = unat (x AND 0xFFFFFFFF) + 2 ^ 32 * unat (drop_bit 32 (x :: u64))"
  by (simp only: unat_and_mask32 unat_shr) simp

lemma half_less: "unat ((x :: u64) AND 0xFFFFFFFF) < 2 ^ 32" "unat (drop_bit 32 (x :: u64)) < 2 ^ 32"
  by (simp_all only: unat_and_mask32 unat_shr)
    (simp, rule less_mult_imp_div_less, use unat_u64_less [of x] in simp)

lemma unat_add_small: "unat (x + y :: u64) = unat x + unat y" if "unat x + unat y < 2 ^ 64"
  using that by (simp add: unat_add_mod)

lemma luint_nat_halves:
  "luint_nat x = unat (luint_lo x AND 0xFFFFFFFF) + 2 ^ 32 * (unat (drop_bit 32 (luint_lo x))
     + 2 ^ 32 * (unat (luint_hi x AND 0xFFFFFFFF) + 2 ^ 32 * unat (drop_bit 32 (luint_hi x))))"
  using split32 [of "luint_lo x"] split32 [of "luint_hi x"] by (simp add: luint_nat_def)

lemma luint_add_nat: "luint_nat (luint_add a b) = (luint_nat a + luint_nat b) mod 2 ^ 128"
proof -
  note h = half_less [of "luint_lo a"] half_less [of "luint_hi a"]
    half_less [of "luint_lo b"] half_less [of "luint_hi b"]
  have [simp]: "unat ((luint_lo a AND 0xFFFFFFFF) + (luint_lo b AND 0xFFFFFFFF))
      = unat (luint_lo a AND 0xFFFFFFFF) + unat (luint_lo b AND 0xFFFFFFFF)"
    "unat (drop_bit 32 (luint_lo a) + drop_bit 32 (luint_lo b))
      = unat (drop_bit 32 (luint_lo a)) + unat (drop_bit 32 (luint_lo b))"
    "unat ((luint_hi a AND 0xFFFFFFFF) + (luint_hi b AND 0xFFFFFFFF))
      = unat (luint_hi a AND 0xFFFFFFFF) + unat (luint_hi b AND 0xFFFFFFFF)"
    "unat (drop_bit 32 (luint_hi a) + drop_bit 32 (luint_hi b))
      = unat (drop_bit 32 (luint_hi a)) + unat (drop_bit 32 (luint_hi b))"
    using h by (simp_all add: unat_add_small)
  show ?thesis
    unfolding luint_add_def Let_def luint_nat_halves [of a] luint_nat_halves [of b]
    by (subst carry_chain) (use h in \<open>simp_all add: algebra_simps\<close>)
qed

lemma luint_from_uint_nat: "luint_nat (luint_from_uint v) = unat v"
  by (simp add: luint_from_uint_def luint_nat_def)

lemma luint_add_uint_eq: "luint_add_uint a b = luint_add a (luint_from_uint b)"
  by (simp add: luint_add_uint_def luint_add_def luint_from_uint_def)

lemma luint_add_uint_nat: "luint_nat (luint_add_uint a b) = (luint_nat a + unat b) mod 2 ^ 128"
  by (simp only: luint_add_uint_eq luint_add_nat luint_from_uint_nat)

lemma luint_nat_not: "luint_nat \<lparr>luint_hi = NOT (luint_hi v), luint_lo = NOT (luint_lo v)\<rparr>
    = 2 ^ 128 - 1 - luint_nat v"
  using unat_u64_less [of "luint_hi v"] unat_u64_less [of "luint_lo v"]
  by (simp add: luint_nat_def unat_not del: unat_u64_less)

lemma luint_neg_nat:
  "luint_nat (luint_add_uint \<lparr>luint_hi = NOT (luint_hi v), luint_lo = NOT (luint_lo v)\<rparr> 1)
     = (2 ^ 128 - luint_nat v) mod 2 ^ 128"
proof -
  have "2 ^ 128 - 1 - luint_nat v + 1 = 2 ^ 128 - luint_nat v"
    using luint_nat_less [of v] by linarith
  then show ?thesis by (simp only: luint_add_uint_nat luint_nat_not unat_1)
qed

lemma luint_sub_nat: "luint_nat (luint_sub a b) = (luint_nat a + 2 ^ 128 - luint_nat b) mod 2 ^ 128"
proof -
  have "luint_nat (luint_sub a b) = (luint_nat a + (2 ^ 128 - luint_nat b)) mod 2 ^ 128"
    by (simp only: luint_sub_def Let_def luint_add_nat luint_neg_nat mod_simps)
  then show ?thesis using luint_nat_less [of b] by simp
qed

lemma luint_sub_ge: "luint_nat (luint_sub a b) = luint_nat a - luint_nat b" if "luint_nat b \<le> luint_nat a"
proof -
  from that have "luint_nat a + 2 ^ 128 - luint_nat b = luint_nat a - luint_nat b + 2 ^ 128" by simp
  then have "luint_nat (luint_sub a b) = (luint_nat a - luint_nat b) mod 2 ^ 128"
    by (simp only: luint_sub_nat mod_add_self2)
  moreover have "luint_nat a - luint_nat b < 2 ^ 128"
    using luint_nat_less [of a] by (rule less_imp_diff_less)
  ultimately show ?thesis by simp
qed

lemma lsint_negate_nat:
  "luint_nat (luint_from_lsint (lsint_negate v)) = (2 ^ 128 - luint_nat (luint_from_lsint v)) mod 2 ^ 128"
proof -
  have "luint_from_lsint (lsint_negate v)
      = luint_add_uint \<lparr>luint_hi = NOT (luint_hi (luint_from_lsint v)),
                        luint_lo = NOT (luint_lo (luint_from_lsint v))\<rparr> 1"
    by (simp add: lsint_negate_def luint_add_uint_def luint_from_lsint_def Let_def)
  then show ?thesis by (simp only: luint_neg_nat)
qed

lemma luint_eq_nat: "luint_eq a b \<longleftrightarrow> luint_nat a = luint_nat b"
  unfolding luint_nat_inject luint_eq_def by (metis luint.equality old.unit.exhaust)

lemma luint_lt_nat: "luint_lt a b \<longleftrightarrow> luint_nat a < luint_nat b"
  using unat_u64_less [of "luint_lo a"] unat_u64_less [of "luint_lo b"]
  unfolding luint_lt_def luint_nat_def word_less_nat_alt by (auto simp del: unat_u64_less)

definition u128_of :: "luint \<Rightarrow> u128" where
  "u128_of x = push_bit 64 (ucast (luint_hi x)) OR ucast (luint_lo x)"

lemma unat_u128_of: "unat (u128_of x) = luint_nat x"
proof -
  note u = unat_ucast_u128
  have "unat (luint_hi x) * 2 ^ 64 < 2 ^ LENGTH(128)"
    using unat_u64_less [of "luint_hi x"] by (simp del: unat_u64_less)
  then show ?thesis
    unfolding u128_of_def luint_nat_def by (subst unat_join) (simp_all only: u unat_u64_bound)
qed

lemma bit_u128_of: "bit (u128_of x) n \<longleftrightarrow> (if n < 64 then bit (luint_lo x) n else bit (luint_hi x) (n - 64))"
  by (auto simp: u128_of_def bit_or_iff bit_push_bit_iff bit_unsigned_iff dest: bit_u64_less)

lemma u128_of_eqI: "(\<And>n. n < 128 \<Longrightarrow> bit (u128_of x) n \<longleftrightarrow> bit y n) \<Longrightarrow> u128_of x = y"
  by (rule bit_word_eqI) simp

lemma u128_of_shl: "u128_of (luint_shl v n) = push_bit n (u128_of v)" if "n < 128"
  using that by (intro u128_of_eqI)
    (auto simp: luint_shl_def bit_u128_of bit_push_bit_iff bit_or_iff bit_drop_bit_eq ac_simps
      dest: bit_u64_less)

lemma u128_of_shr: "u128_of (luint_shr v n) = drop_bit n (u128_of v)" if "n < 128"
  using that by (intro u128_of_eqI)
    (auto simp: luint_shr_def bit_u128_of bit_push_bit_iff bit_or_iff bit_drop_bit_eq ac_simps
      dest: bit_u64_less)

lemma luint_shl_nat: "luint_nat (luint_shl v n) = luint_nat v * 2 ^ n mod 2 ^ 128" if "n < 128"
  using unat_shl [of n "u128_of v"] by (simp add: unat_u128_of flip: u128_of_shl [OF that])

lemma luint_shr_nat: "luint_nat (luint_shr v n) = luint_nat v div 2 ^ n" if "n < 128"
  using u128_of_shr [OF that, of v] by (metis unat_u128_of unat_shr)

lemma unat_mult_small: "unat (x * y :: u64) = unat x * unat y" if "unat x < 2 ^ 32" "unat y < 2 ^ 32"
proof -
  have "unat x * unat y < 2 ^ 32 * 2 ^ 32" using that by (intro mult_strict_mono) simp_all
  then show ?thesis by (simp add: unat_mult_mod)
qed

lemma luint_nat_cross:
  "luint_nat \<lparr>luint_hi = drop_bit 32 p, luint_lo = push_bit 32 p\<rparr> = unat p * 2 ^ 32"
proof -
  have "luint_nat \<lparr>luint_hi = drop_bit 32 p, luint_lo = push_bit 32 p\<rparr>
      = unat p div 2 ^ 32 * (2 ^ 32 * 2 ^ 32) + unat p * 2 ^ 32 mod (2 ^ 32 * 2 ^ 32)"
    by (simp add: luint_nat_def unat_arith_laws)
  also have "\<dots> = (unat p div 2 ^ 32 * 2 ^ 32 + unat p mod 2 ^ 32) * 2 ^ 32"
    unfolding mult_mod_left [symmetric] by (simp only: algebra_simps)
  finally show ?thesis by (simp only: div_mult_mod_eq)
qed

lemma luint_nat_top:
  "luint_nat \<lparr>luint_hi = push_bit 32 p, luint_lo = 0\<rparr> = unat p * 2 ^ 96 mod 2 ^ 128"
proof -
  have "unat p * 2 ^ 32 mod 2 ^ 64 * 2 ^ 64 = unat p * 2 ^ 32 * 2 ^ 64 mod (2 ^ 64 * 2 ^ 64)"
    by (rule mult_mod_left)
  then show ?thesis by (simp add: luint_nat_def unat_arith_laws mult.commute)
qed

lemma luint_mul_half_nat:
  assumes b: "unat b < 2 ^ 32"
  shows "luint_nat (luint_mul_half a b) = luint_nat a * unat b mod 2 ^ 128"
proof -
  note h = half_less [of "luint_lo a"] half_less [of "luint_hi a"]
  have "luint_nat (luint_mul_half a b)
      = (unat (luint_lo a AND 0xFFFFFFFF) * unat b + unat (drop_bit 32 (luint_lo a)) * unat b * 2 ^ 32
         + unat (luint_hi a AND 0xFFFFFFFF) * unat b * 2 ^ 64
         + unat (drop_bit 32 (luint_hi a)) * unat b * 2 ^ 96) mod 2 ^ 128"
    unfolding luint_mul_half_def Let_def luint_add_nat luint_nat_cross luint_nat_top
    using h b by (simp add: luint_nat_def unat_mult_small mod_simps)
  also have "\<dots> = luint_nat a * unat b mod 2 ^ 128"
    by (simp add: luint_nat_halves [of a] algebra_simps)
  finally show ?thesis .
qed

lemma luint_mul_uint_nat: "luint_nat (luint_mul_uint a b) = luint_nat a * unat b mod 2 ^ 128"
proof -
  have "luint_nat (luint_mul_uint a b)
      = (luint_nat a * unat (b AND 0xFFFFFFFF)
         + luint_nat a * unat (drop_bit 32 b) mod 2 ^ 128 * 2 ^ 32 mod 2 ^ 128) mod 2 ^ 128"
    by (simp only: luint_mul_uint_def Let_def luint_add_nat luint_mul_half_nat [OF half_less(1)]
        luint_mul_half_nat [OF half_less(2)] luint_shl_nat mod_simps)
  also have "\<dots> = luint_nat a * (unat (b AND 0xFFFFFFFF) + 2 ^ 32 * unat (drop_bit 32 b)) mod 2 ^ 128"
    by (simp only: mod_simps) (simp only: algebra_simps)
  finally show ?thesis by (simp only: split32 [of b, symmetric])
qed

text \<open>The shift-and-subtract division loop.\<close>

lemma luint_nat_shl1_or:
  assumes "luint_nat x < 2 ^ 127" and "unat w < 2"
  shows "luint_nat ((luint_shl x 1)\<lparr>luint_lo := luint_lo (luint_shl x 1) OR w\<rparr>) = 2 * luint_nat x + unat w"
proof -
  let ?y = "luint_shl x 1"
  have y: "luint_nat ?y = 2 * luint_nat x"
    using assms(1) luint_shl_nat [of 1 x] by simp
  have "luint_lo ?y = push_bit 1 (luint_lo x)" by (simp add: luint_shl_def)
  then have "unat (luint_lo ?y) = unat (luint_lo x) * 2 ^ 1 mod 2 ^ 64" by (simp only: unat_shl) simp
  then have "even (unat (luint_lo ?y))" by (simp add: dvd_mod)
  then have "unat (luint_lo ?y OR w) = unat (luint_lo ?y) + unat w"
    using or_disjoint_nat [of "unat w" 1 "unat (luint_lo ?y) div 2"] assms(2)
    by (simp add: unsigned_or_eq push_bit_eq_mult)
  with y show ?thesis by (simp add: luint_nat_def)
qed

lemma luint_top_bit: "unat (drop_bit 63 (luint_hi a) AND 1) = luint_nat a div 2 ^ 127"
proof -
  have "luint_nat a div 2 ^ 127 = unat (luint_hi a) div 2 ^ 63"
    by (simp add: luint_nat_hi [symmetric] flip: div_mult2_eq)
  moreover have "unat (luint_hi a) div 2 ^ 63 < 2"
    by (rule less_mult_imp_div_less) (use unat_u64_less [of "luint_hi a"] in simp)
  ultimately show ?thesis
    unfolding unsigned_and_eq unat_shr by (simp add: and_one_eq)
qed

lemma luint_div_loop_nat:
  assumes "n \<le> 128" "0 < luint_nat b" "luint_nat r < luint_nat b"
    and a: "luint_nat a = A * 2 ^ (128 - n) mod 2 ^ 128" and A: "A < 2 ^ 128"
    and qr: "A div 2 ^ n = luint_nat q * luint_nat b + luint_nat r"
  shows "luint_nat (luint_div_loop n b a q r) = A div luint_nat b"
  using assms
proof (induction n arbitrary: a q r)
  case 0
  then show ?case by (simp add: mult.commute)
next
  case (Suc n)
  let ?b = "luint_nat b"
  let ?w = "drop_bit 63 (luint_hi a) AND 1"
  let ?q = "luint_shl q 1" and ?a = "luint_shl a 1"
  let ?r = "(luint_shl r 1)\<lparr>luint_lo := luint_lo (luint_shl r 1) OR ?w\<rparr>"
  let ?bit = "A div 2 ^ n mod 2"
  have An: "A div 2 ^ Suc n < 2 ^ 127"
  proof (rule less_mult_imp_div_less)
    have "(2::nat) ^ 128 \<le> 2 ^ 127 * 2 ^ Suc n" by (simp flip: power_add)
    with Suc.prems(5) show "A < 2 ^ 127 * 2 ^ Suc n" by linarith
  qed
  have "luint_nat q * 1 \<le> luint_nat q * ?b" using Suc.prems(2) by (intro mult_le_mono) simp_all
  then have q127: "luint_nat q < 2 ^ 127" and r127: "luint_nat r < 2 ^ 127"
    using An Suc.prems(6) by linarith+
  have w: "unat ?w = ?bit"
  proof -
    have e: "(2::nat) ^ 128 = 2 ^ Suc n * 2 ^ (127 - n)" "(2::nat) ^ 127 = 2 ^ n * 2 ^ (127 - n)"
      using Suc.prems(1) by (simp_all flip: power_add)
    have "luint_nat a = A mod 2 ^ Suc n * 2 ^ (127 - n)"
      using Suc.prems(4) Suc.prems(1) unfolding e(1) by (simp add: mult_mod_left)
    then have "luint_nat a div 2 ^ 127 = A mod 2 ^ Suc n div 2 ^ n"
      unfolding e(2) by simp
    also have "\<dots> = ?bit"
      using mod_mult2_eq [of A "2 ^ n" 2] by (simp add: mult.commute [of 2])
    finally show ?thesis by (simp only: luint_top_bit)
  qed
  have r': "luint_nat ?r = 2 * luint_nat r + ?bit"
    using luint_nat_shl1_or [OF r127, of ?w] w by simp
  have q': "luint_nat ?q = 2 * luint_nat q"
    using luint_shl_nat [of 1 q] q127 by simp
  have q1: "luint_nat (?q\<lparr>luint_lo := luint_lo ?q OR 1\<rparr>) = 2 * luint_nat q + 1"
    using luint_nat_shl1_or [OF q127, of 1] by simp
  have a': "luint_nat ?a = A * 2 ^ (128 - n) mod 2 ^ 128"
  proof -
    have "luint_nat ?a = A * 2 ^ (128 - Suc n) * 2 mod 2 ^ 128"
      using luint_shl_nat [of 1 a] Suc.prems(4) by (simp add: mod_simps)
    moreover have "(2::nat) ^ (128 - n) = 2 ^ (128 - Suc n) * 2"
      using Suc.prems(1) by (metis Suc_diff_le diff_Suc_Suc power_Suc2)
    ultimately show ?thesis by (simp add: mult.assoc)
  qed
  have split: "A div 2 ^ n = 2 * (A div 2 ^ Suc n) + ?bit"
    by (simp add: div_mult2_eq mult.commute [of 2])
  show ?case
  proof (cases "luint_lt ?r b")
    case True
    then have "luint_nat ?r < ?b" by (simp only: luint_lt_nat)
    moreover have "A div 2 ^ n = luint_nat ?q * ?b + luint_nat ?r"
      using split Suc.prems(6) q' r' by (simp add: algebra_simps)
    ultimately have "luint_nat (luint_div_loop n b ?a ?q ?r) = A div ?b"
      using Suc.IH Suc.prems a' by simp
    with True show ?thesis by (simp add: Let_def)
  next
    case False
    then have ge: "?b \<le> luint_nat ?r" by (simp only: luint_lt_nat)
    then have s: "luint_nat (luint_sub ?r b) = luint_nat ?r - ?b" by (rule luint_sub_ge)
    have lt: "luint_nat ?r - ?b < ?b" using r' Suc.prems(3) by simp
    have "A div 2 ^ n = luint_nat (?q\<lparr>luint_lo := luint_lo ?q OR 1\<rparr>) * ?b + luint_nat (luint_sub ?r b)"
      using split Suc.prems(6) q1 r' s ge by (simp add: algebra_simps)
    then have "luint_nat (luint_div_loop n b ?a (?q\<lparr>luint_lo := luint_lo ?q OR 1\<rparr>) (luint_sub ?r b)) = A div ?b"
      using Suc.IH Suc.prems a' s lt by simp
    with False show ?thesis by (simp add: Let_def)
  qed
qed

lemma luint_div_nat: "luint_nat (luint_div a b) = luint_nat a div luint_nat b" if "luint_nat b \<noteq> 0"
proof -
  consider "luint_nat a < luint_nat b" | "luint_nat a = luint_nat b" | "luint_nat b < luint_nat a"
    by linarith
  then show ?thesis
  proof cases
    case 3
    then show ?thesis
      using that luint_nat_less [of a]
      by (simp add: luint_div_def luint_lt_nat luint_eq_nat luint_div_loop_nat luint_from_uint_nat)
  qed (use that in \<open>simp_all add: luint_div_def luint_lt_nat luint_eq_nat luint_from_uint_nat\<close>)
qed

subsection \<open>The macros over 128-bit integers\<close>

definition native_from_uint :: "u64 \<Rightarrow> u128" where "native_from_uint v = ucast v"
definition native_from_sint :: "u64 \<Rightarrow> u128" where "native_from_sint v = scast v"
definition native_to_uint :: "u128 \<Rightarrow> u64" where "native_to_uint v = ucast v"
definition native_to_uint_hi :: "u128 \<Rightarrow> u64" where "native_to_uint_hi v = ucast (drop_bit 64 v)"
definition native_to_sint_hi :: "u128 \<Rightarrow> u64" where "native_to_sint_hi v = ucast (signed_drop_bit 64 v)"
definition native_fits_sint :: "u128 \<Rightarrow> bool" where "native_fits_sint x \<longleftrightarrow> scast (ucast x :: u64) = x"
definition native_fits_uint :: "u128 \<Rightarrow> bool" where "native_fits_uint x \<longleftrightarrow> ucast (ucast x :: u64) = x"
definition native_negate :: "u128 \<Rightarrow> u128" where "native_negate v = - v"
definition native_eq :: "u128 \<Rightarrow> u128 \<Rightarrow> bool" where "native_eq a b \<longleftrightarrow> a = b"
definition native_lt :: "u128 \<Rightarrow> u128 \<Rightarrow> bool" where "native_lt a b \<longleftrightarrow> a < b"
definition native_lt_0 :: "u128 \<Rightarrow> bool" where "native_lt_0 a \<longleftrightarrow> sint a < 0"
definition native_shl :: "u128 \<Rightarrow> nat \<Rightarrow> u128" where "native_shl a shift = push_bit shift a"
definition native_shr :: "u128 \<Rightarrow> nat \<Rightarrow> u128" where "native_shr a shift = drop_bit shift a"
definition native_add :: "u128 \<Rightarrow> u128 \<Rightarrow> u128" where "native_add a b = a + b"
definition native_add_uint :: "u128 \<Rightarrow> u64 \<Rightarrow> u128" where "native_add_uint a b = a + ucast b"
definition native_sub :: "u128 \<Rightarrow> u128 \<Rightarrow> u128" where "native_sub a b = a - b"
definition native_mul_uint :: "u128 \<Rightarrow> u64 \<Rightarrow> u128" where "native_mul_uint a b = a * ucast b"
definition native_mul_sint :: "u128 \<Rightarrow> u64 \<Rightarrow> u128" where "native_mul_sint a b = a * scast b"
definition native_div :: "u128 \<Rightarrow> u128 \<Rightarrow> u128" where "native_div a b = a div b"
definition native_div_uint :: "u128 \<Rightarrow> u64 \<Rightarrow> u128" where "native_div_uint a b = a div ucast b"
definition native_and :: "u128 \<Rightarrow> u128 \<Rightarrow> u128" where "native_and a b = a AND b"
definition native_luint_is_fixnum :: "u128 \<Rightarrow> bool" where
  "native_luint_is_fixnum x \<longleftrightarrow> x \<le> ucast SEXP_MAX_FIXNUM"
definition native_lsint_is_fixnum :: "u128 \<Rightarrow> bool" where
  "native_lsint_is_fixnum x \<longleftrightarrow> sint SEXP_MIN_FIXNUM \<le> sint x \<and> sint x \<le> sint SEXP_MAX_FIXNUM"

lemmas native_defs = native_from_uint_def native_from_sint_def native_to_uint_def
  native_to_uint_hi_def native_to_sint_hi_def native_fits_sint_def native_fits_uint_def
  native_negate_def native_eq_def native_lt_def native_lt_0_def native_shl_def native_shr_def
  native_add_def native_add_uint_def native_sub_def native_mul_uint_def native_mul_sint_def
  native_div_def native_div_uint_def native_and_def native_luint_is_fixnum_def
  native_lsint_is_fixnum_def

subsection \<open>The interface used by the digit loops\<close>

locale long_long =
  fixes val :: "'l \<Rightarrow> nat"
    and from_uint :: "u64 \<Rightarrow> 'l"
    and to_uint :: "'l \<Rightarrow> u64"
    and shl :: "'l \<Rightarrow> nat \<Rightarrow> 'l"
    and shr :: "'l \<Rightarrow> nat \<Rightarrow> 'l"
    and add :: "'l \<Rightarrow> 'l \<Rightarrow> 'l"
    and sub :: "'l \<Rightarrow> 'l \<Rightarrow> 'l"
    and mul_uint :: "'l \<Rightarrow> u64 \<Rightarrow> 'l"
    and div_uint :: "'l \<Rightarrow> u64 \<Rightarrow> 'l"
  assumes val_from_uint: "val (from_uint v) = unat v"
    and unat_to_uint: "unat (to_uint x) = val x mod 2 ^ 64"
    and val_shl: "n < 128 \<Longrightarrow> val (shl x n) = val x * 2 ^ n mod 2 ^ 128"
    and val_shr: "n < 128 \<Longrightarrow> val (shr x n) = val x div 2 ^ n"
    and val_add: "val (add x y) = (val x + val y) mod 2 ^ 128"
    and val_sub: "val y \<le> val x \<Longrightarrow> val (sub x y) = val x - val y"
    and val_mul_uint: "val (mul_uint x v) = val x * unat v mod 2 ^ 128"
    and val_div_uint: "v \<noteq> 0 \<Longrightarrow> val (div_uint x v) = val x div unat v"
begin

lemma mul_add_fits: "unat a * unat b + unat c < 2 ^ 128" for a b c :: u64
proof -
  have "unat a * unat b \<le> (2 ^ 64 - 1) * (2 ^ 64 - 1)"
    using unat_u64_less [of a] unat_u64_less [of b] by (intro mult_le_mono) (simp_all del: unat_u64_less)
  moreover have "unat c \<le> 2 ^ 64 - 1" using unat_u64_less [of c] by (simp del: unat_u64_less)
  ultimately have "unat a * unat b + unat c \<le> (2 ^ 64 - 1) * (2 ^ 64 - 1) + (2 ^ 64 - 1)"
    by (rule add_mono)
  then show ?thesis by simp
qed

lemma val_mul_add: "val (add (mul_uint (from_uint a) b) (from_uint c)) = unat a * unat b + unat c"
  using mul_add_fits [of a b c] by (simp add: val_add val_mul_uint val_from_uint mod_simps)

text \<open>One step of \<open>sexp_bignum_fxmul\<close>: the low word and the carry are the two digits of the product.\<close>

lemma mul_step:
  assumes "n = add (mul_uint (from_uint a) b) (from_uint c)"
  shows "unat (to_uint n) + 2 ^ 64 * unat (to_uint (shr n 64)) = unat a * unat b + unat c"
proof -
  have n: "val n = unat a * unat b + unat c" using assms by (simp only: val_mul_add)
  have "val n div 2 ^ 64 < 2 ^ 64"
    by (rule less_mult_imp_div_less) (use mul_add_fits [of a b c] n in simp)
  then show ?thesis by (simp add: unat_to_uint val_shr flip: n)
qed

text \<open>One step of \<open>sexp_bignum_fxdiv\<close>: schoolbook division of a two-digit number by a digit.\<close>

lemma div_step:
  assumes n: "n = add (shl (from_uint r) 64) (from_uint d)" and rb: "unat r < unat b"
    and q: "q = to_uint (div_uint n b)"
  shows "unat q = (unat r * 2 ^ 64 + unat d) div unat b"
    and "val (sub n (mul_uint (from_uint q) b)) = (unat r * 2 ^ 64 + unat d) mod unat b"
    and "unat (to_uint (sub n (mul_uint (from_uint q) b))) = (unat r * 2 ^ 64 + unat d) mod unat b"
proof -
  let ?n = "unat r * 2 ^ 64 + unat d"
  have "?n < (unat r + 1) * 2 ^ 64" by simp
  also have "\<dots> \<le> unat b * 2 ^ 64" using rb by (intro mult_le_mono1) simp
  finally have lt: "?n < unat b * 2 ^ 64" .
  also have "\<dots> \<le> 2 ^ 64 * 2 ^ 64" by (intro mult_le_mono1) (simp add: less_imp_le)
  finally have n128: "?n < 2 ^ 128" by simp
  have vn: "val n = ?n"
    using n n128 by (simp add: val_add val_shl val_from_uint mod_simps)
  have b0: "b \<noteq> 0" using rb by auto
  have "?n div unat b < 2 ^ 64" using lt by (simp add: less_mult_imp_div_less mult.commute)
  then show uq: "unat q = ?n div unat b" by (simp add: q unat_to_uint val_div_uint b0 vn)
  have le: "unat q * unat b \<le> ?n" unfolding uq by (rule div_times_less_eq_dividend)
  then have vm: "val (mul_uint (from_uint q) b) = unat q * unat b"
    using n128 by (simp add: val_mul_uint val_from_uint)
  have "?n - unat q * unat b = ?n mod unat b" unfolding uq by (rule minus_div_mult_eq_mod)
  moreover have "?n mod unat b < 2 ^ 64"
    using mod_less_divisor [of "unat b" ?n] unat_u64_bound [of b] rb by linarith
  ultimately show "val (sub n (mul_uint (from_uint q) b)) = ?n mod unat b"
    "unat (to_uint (sub n (mul_uint (from_uint q) b))) = ?n mod unat b"
    using le by (simp_all add: unat_to_uint val_sub vm vn)
qed

end

interpretation pair: long_long luint_nat luint_from_uint luint_to_uint luint_shl luint_shr
  luint_add luint_sub luint_mul_uint luint_div_uint
proof
  show "unat (luint_to_uint x) = luint_nat x mod 2 ^ 64" for x
    by (simp only: luint_to_uint_def luint_nat_lo)
  show "luint_nat (luint_div_uint x v) = luint_nat x div unat v" if "v \<noteq> 0" for x v
    using that by (simp add: luint_div_uint_def luint_div_nat luint_from_uint_nat unat_eq_zero)
qed (simp_all add: luint_from_uint_nat luint_shl_nat luint_shr_nat luint_add_nat luint_sub_ge
      luint_mul_uint_nat)

interpretation native: long_long unat native_from_uint native_to_uint native_shl native_shr
  native_add native_sub native_mul_uint native_div_uint
proof
  show "unat (native_sub x y) = unat x - unat y" if "unat y \<le> unat x" for x y
    using that by (simp add: native_sub_def unat_sub word_le_nat_alt)
qed (simp_all add: native_defs unat_ucast_u128 unat_ucast_u64 unat_arith_laws unat_div_distrib
    del: push_bit_eq_mult)

subsection \<open>The pair implementation refines the 128-bit one\<close>

lemma u128_eqI: "unat x = unat y \<Longrightarrow> x = y" for x y :: u128
  by (simp only: word_unat_eq_iff)

definition s128_of :: "lsint \<Rightarrow> u128" where
  "s128_of x = u128_of (luint_from_lsint x)"

lemma s128_of_from_luint: "s128_of (lsint_from_luint x) = u128_of x"
  by (simp add: s128_of_def luint_from_lsint_def lsint_from_luint_def u128_of_def)

lemma lsint_from_luint_from_lsint: "lsint_from_luint (luint_from_lsint x) = x"
  by (simp add: lsint_from_luint_def luint_from_lsint_def)

lemma u128_of_from_lsint: "u128_of (luint_from_lsint x) = s128_of x"
  by (simp add: s128_of_def)

lemma u128_of_mul_uint: "u128_of (luint_mul_uint a b) = native_mul_uint (u128_of a) b"
  by (rule u128_eqI) (simp add: unat_u128_of luint_mul_uint_nat native_defs unat_mult_mod unat_ucast_u128)

lemma s128_of_negate: "s128_of (lsint_negate v) = native_negate (s128_of v)"
  by (rule u128_eqI)
    (simp add: s128_of_def unat_u128_of lsint_negate_nat native_defs unat_neg)

lemma uint_s128_of: "uint (s128_of x) = uint (lsint_hi x) * 2 ^ 64 + uint (lsint_lo x)"
  by (simp only: uint_nat s128_of_def unat_u128_of) (simp add: luint_nat_def luint_from_lsint_def)

lemma sint_s128_of: "sint (s128_of x) = sint (lsint_hi x) * 2 ^ 64 + uint (lsint_lo x)"
proof (cases "uint (lsint_hi x) < 2 ^ 63")
  case True
  then show ?thesis
    using uint_u64_bounds [of "lsint_lo x"] by (simp add: sint_u128 sint_u64 uint_s128_of)
next
  case False
  then have "2 ^ 127 \<le> uint (lsint_hi x) * 2 ^ 64 + uint (lsint_lo x)"
    by (intro add_increasing2) simp_all
  with False show ?thesis by (simp add: sint_u128 sint_u64 uint_s128_of)
qed

lemma ucast_neg_sint: "ucast (- b :: u64) = (- scast b :: u128)" if "sint b < 0"
proof -
  have neg: "\<not> uint b < 2 ^ 63" using that by (auto simp: sint_u64 split: if_splits)
  then have "0 < unat b" by (auto simp: unat_gt_0)
  then have "unat (- b) = 2 ^ 64 - unat b" by (simp add: unat_neg)
  then have "uint (- b) = 2 ^ 64 - uint b"
    using unat_u64_bound [of b] by (simp only: uint_nat of_nat_diff less_imp_le) simp
  then have "uint (- b) = - sint b" using neg by (simp add: sint_u64)
  then show ?thesis by (metis of_int_minus of_int_sint scast_eq ucast_eq word_of_int_minus)
qed

lemma ucast_nonneg_sint: "ucast (b :: u64) = (scast b :: u128)" if "\<not> sint b < 0"
proof -
  have "uint b = sint b" using that uint_u64_bounds [of b] by (simp add: sint_u64 split: if_splits)
  then show ?thesis by (metis scast_eq ucast_eq)
qed

lemma s128_of_mul_sint: "s128_of (lsint_mul_sint a b) = native_mul_sint (s128_of a) b"
  by (cases "lsint_lt_0 a"; cases "sint b < 0")
    (simp_all add: lsint_mul_sint_def s128_of_from_luint s128_of_negate u128_of_mul_uint
      u128_of_from_lsint native_defs ucast_neg_sint ucast_nonneg_sint)

text \<open>The two tests on a double-width value: whether it is a fixnum, and whether it is one word.\<close>

lemma luint_is_fixnum_u128: "luint_is_fixnum a = native_luint_is_fixnum (u128_of a)"
proof -
  have n: "native_luint_is_fixnum (u128_of a) \<longleftrightarrow> luint_nat a \<le> unat SEXP_MAX_FIXNUM"
    by (simp add: native_luint_is_fixnum_def word_le_nat_alt unat_u128_of unat_ucast_u128)
  have m: "unat SEXP_MAX_FIXNUM < 2 ^ 64" by (rule unat_u64_bound)
  show ?thesis
  proof (cases "luint_hi a = 0")
    case False
    then have "1 \<le> unat (luint_hi a)" by (simp add: Suc_le_eq unat_gt_0)
    then have "2 ^ 64 \<le> luint_nat a" by (simp add: luint_nat_def)
    with False n m show ?thesis by (simp add: luint_is_fixnum_def)
  qed (simp add: n luint_is_fixnum_def luint_nat_def word_le_nat_alt)
qed

lemma luint_fits_uint_u128: "sexp_luint_fits_uint a = native_fits_uint (u128_of a)"
proof -
  have "native_fits_uint (u128_of a) \<longleftrightarrow> unat (ucast (native_to_uint (u128_of a)) :: u128) = luint_nat a"
    by (simp add: native_fits_uint_def native_to_uint_def word_unat_eq_iff unat_u128_of)
  also have "native_to_uint (u128_of a) = luint_lo a"
    by (rule bit_word_eqI) (simp add: native_defs bit_unsigned_iff bit_u128_of)
  finally show ?thesis
    by (simp add: sexp_luint_fits_uint_def luint_nat_def unat_eq_zero unat_ucast_u128)
qed

text \<open>
  C20.  The pair implementation of \<open>sexp_luint_t\<close> computes what the 128-bit macros compute: each of
  the sixteen unsigned operations the header has in both versions commutes with reading the pair
  \<open>(hi, lo)\<close> as a 128-bit word, so the two builds of the digit loops agree.  The divisions have a
  non-zero divisor and the shifts go by less than 128 places, as C requires of the macros.
\<close>

theorem luint_refines_native:
  assumes "u128_of b \<noteq> 0" and "d \<noteq> 0" and "k < 128"
  shows "u128_of (luint_add a b) = native_add (u128_of a) (u128_of b)
    \<and> u128_of (luint_add_uint a w) = native_add_uint (u128_of a) w
    \<and> u128_of (luint_sub a b) = native_sub (u128_of a) (u128_of b)
    \<and> u128_of (luint_mul_uint a w) = native_mul_uint (u128_of a) w
    \<and> u128_of (luint_div a b) = native_div (u128_of a) (u128_of b)
    \<and> u128_of (luint_div_uint a d) = native_div_uint (u128_of a) d
    \<and> u128_of (luint_shl a k) = native_shl (u128_of a) k
    \<and> u128_of (luint_shr a k) = native_shr (u128_of a) k
    \<and> u128_of (luint_and a b) = native_and (u128_of a) (u128_of b)
    \<and> u128_of (luint_from_uint w) = native_from_uint w
    \<and> luint_to_uint a = native_to_uint (u128_of a)
    \<and> luint_to_uint_hi a = native_to_uint_hi (u128_of a)
    \<and> luint_eq a b = native_eq (u128_of a) (u128_of b)
    \<and> luint_lt a b = native_lt (u128_of a) (u128_of b)
    \<and> luint_is_fixnum a = native_luint_is_fixnum (u128_of a)
    \<and> sexp_luint_fits_uint a = native_fits_uint (u128_of a)"
proof (intro conjI)
  have nz: "luint_nat b \<noteq> 0" using assms(1) by (simp add: unat_eq_zero flip: unat_u128_of)
  show "u128_of (luint_add a b) = native_add (u128_of a) (u128_of b)"
    by (rule u128_eqI) (simp add: native_defs unat_u128_of luint_add_nat unat_add_mod)
  show "u128_of (luint_add_uint a w) = native_add_uint (u128_of a) w"
    by (rule u128_eqI)
      (simp add: native_defs unat_u128_of luint_add_uint_nat unat_add_mod unat_ucast_u128)
  show "u128_of (luint_div a b) = native_div (u128_of a) (u128_of b)"
    by (rule u128_eqI) (simp add: native_defs unat_u128_of luint_div_nat nz unat_div_distrib)
  show "u128_of (luint_div_uint a d) = native_div_uint (u128_of a) d"
    using assms(2) by (intro u128_eqI)
      (simp add: native_defs unat_u128_of luint_div_uint_def luint_div_nat luint_from_uint_nat unat_eq_zero unat_div_distrib unat_ucast_u128)
  show "u128_of (luint_and a b) = native_and (u128_of a) (u128_of b)"
    by (rule u128_of_eqI) (simp add: native_defs bit_u128_of bit_and_iff luint_and_def)
  show "u128_of (luint_sub a b) = native_sub (u128_of a) (u128_of b)"
    by (rule u128_eqI) (simp add: native_defs unat_u128_of luint_sub_nat unat_sub_mod)
  show "u128_of (luint_from_uint w) = native_from_uint w"
    by (rule u128_eqI) (simp add: native_defs unat_u128_of luint_from_uint_nat unat_ucast_u128)
  show "luint_to_uint a = native_to_uint (u128_of a)"
    by (rule bit_word_eqI) (simp add: native_defs luint_to_uint_def bit_unsigned_iff bit_u128_of)
  show "luint_to_uint_hi a = native_to_uint_hi (u128_of a)"
    by (rule bit_word_eqI)
      (simp add: native_defs luint_to_uint_hi_def bit_unsigned_iff bit_drop_bit_eq bit_u128_of)
  show "luint_is_fixnum a = native_luint_is_fixnum (u128_of a)"
    by (rule luint_is_fixnum_u128)
  show "sexp_luint_fits_uint a = native_fits_uint (u128_of a)"
    by (rule luint_fits_uint_u128)
qed (use assms in \<open>simp_all add: native_defs u128_of_mul_uint [unfolded native_defs] u128_of_shl
  u128_of_shr luint_eq_nat luint_lt_nat word_less_nat_alt word_unat_eq_iff unat_u128_of
  del: push_bit_eq_mult\<close>)

theorem luint_refines_native_witness:
  "u128_of (luint_mul_uint \<lparr>luint_hi = 3, luint_lo = - 1\<rparr> (- 1))
     = native_mul_uint (u128_of \<lparr>luint_hi = 3, luint_lo = - 1\<rparr>) (- 1)
   \<and> u128_of (luint_div \<lparr>luint_hi = 3, luint_lo = - 1\<rparr> \<lparr>luint_hi = 1, luint_lo = 7\<rparr>)
     = native_div (u128_of \<lparr>luint_hi = 3, luint_lo = - 1\<rparr>) (u128_of \<lparr>luint_hi = 1, luint_lo = 7\<rparr>)
   \<and> u128_of (luint_div_uint \<lparr>luint_hi = 3, luint_lo = - 1\<rparr> 10)
     = native_div_uint (u128_of \<lparr>luint_hi = 3, luint_lo = - 1\<rparr>) 10"
proof -
  have b: "u128_of \<lparr>luint_hi = 1, luint_lo = 7\<rparr> \<noteq> 0" by (simp add: u128_of_def)
  have "(10 :: u64) \<noteq> 0" by simp
  from luint_refines_native [OF b this, of 5 "\<lparr>luint_hi = 3, luint_lo = - 1\<rparr>" "- 1"]
  show ?thesis by simp
qed

lemma sint_u128_eqI: "sint x = sint y \<Longrightarrow> x = y" for x y :: u128
  by (rule signed_word_eqI)

lemma sint_bounds_u128: "- (2 ^ 127) \<le> sint (v :: u64)" "sint (v :: u64) < 2 ^ 127"
  using sint_ge [of v] sint_lt [of v] by simp_all

lemma sint_scast_u128: "sint (scast (v :: u64) :: u128) = sint v"
  using sint_bounds_u128 [of v] by (simp add: signed_scast_eq signed_take_bit_int_eq_self)

lemma sint_signed_shr63: "sint (signed_drop_bit 63 (v :: u64)) * 2 ^ 64 + uint v = sint v"
proof -
  have "sint (signed_drop_bit 63 v) = sint v div 2 ^ 63"
    by (simp add: sint_signed_drop_bit_eq drop_bit_eq_div)
  also have "\<dots> = (if sint v < 0 then - 1 else 0)"
  proof (cases "sint v < 0")
    case True
    then have "(sint v + 2 ^ 63) div 2 ^ 63 = 0"
      using sint_ge [of v] by (intro div_pos_pos_trivial) simp_all
    then show ?thesis using True by simp
  qed (use sint_lt [of v] in \<open>simp add: div_pos_pos_trivial\<close>)
  finally show ?thesis using uint_u64_bounds [of v] by (simp add: sint_u64 [of v])
qed

lemma fits_fixnum_iff:
  assumes "0 \<le> l" "l < 2 ^ 64"
  shows "- (2 ^ 62) \<le> h * 2 ^ 64 + l \<and> h * 2 ^ 64 + l \<le> 2 ^ 62 - 1
    \<longleftrightarrow> h = 0 \<and> l \<le> 2 ^ 62 - 1 \<or> h = - 1 \<and> 2 ^ 64 - 2 ^ 62 \<le> (l :: int)"
proof -
  consider "h \<le> - 2" | "h = - 1" | "h = 0" | "1 \<le> h" by linarith
  then show ?thesis
  proof cases
    case 1
    then have "h * 2 ^ 64 \<le> - 2 * 2 ^ 64" by (intro mult_right_mono) simp_all
    with 1 assms show ?thesis by simp
  next
    case 4
    then have "1 * 2 ^ 64 \<le> h * 2 ^ 64" by (intro mult_right_mono) simp_all
    with 4 assms show ?thesis by simp
  qed (use assms in simp_all)
qed

lemma sint_eq_iff_u64: "sint (x :: u64) = 0 \<longleftrightarrow> x = 0" "sint (x :: u64) = - 1 \<longleftrightarrow> x = - 1"
  by (metis signed_word_eqI signed_0 , metis signed_word_eqI signed_minus_1)

lemma ucast_s128_of: "ucast (s128_of x) = lsint_lo x"
  by (rule bit_word_eqI) (simp add: bit_unsigned_iff s128_of_def bit_u128_of luint_from_lsint_def)

lemma s128_of_from_sint: "s128_of (lsint_from_sint v) = scast v"
  by (rule sint_u128_eqI)
    (simp only: sint_s128_of lsint_from_sint_def sint_scast_u128 sint_signed_shr63 lsint.select_convs)

lemma s128_of_inject: "s128_of x = s128_of y \<longleftrightarrow> x = y"
  by (metis luint_nat_inject s128_of_def s128_of_from_luint unat_u128_of lsint_from_luint_from_lsint)

lemma fits_sint_iff: "sexp_lsint_fits_sint x \<longleftrightarrow> scast (ucast (s128_of x) :: u64) = s128_of x"
proof -
  have "sexp_lsint_fits_sint x \<longleftrightarrow> lsint_from_sint (lsint_lo x) = x"
    by (cases x) (auto simp: sexp_lsint_fits_sint_def lsint_from_sint_def)
  then show ?thesis by (simp only: ucast_s128_of s128_of_inject flip: s128_of_from_sint)
qed

lemma lsint_is_fixnum_iff:
  "lsint_is_fixnum x \<longleftrightarrow> - (2 ^ 62) \<le> sint (s128_of x) \<and> sint (s128_of x) \<le> 2 ^ 62 - 1"
  unfolding sint_s128_of fits_fixnum_iff [OF uint_u64_range]
  by (auto simp: lsint_is_fixnum_def sint_eq_iff_u64 word_le_def sint_fixnum_bounds)

text \<open>
  C21.  The signed pair \<open>sexp_lsint_t\<close> agrees with the 128-bit signed macros: conversion, negation,
  the product that \<open>sexp_mul\<close> uses to detect overflow, the sign test, and the test for a result
  that fits a fixnum.
\<close>

theorem lsint_refines_native:
  "s128_of (lsint_from_sint v) = native_from_sint v
   \<and> s128_of (lsint_negate a) = native_negate (s128_of a)
   \<and> s128_of (lsint_mul_sint a v) = native_mul_sint (s128_of a) v
   \<and> lsint_to_sint a = native_to_uint (s128_of a)
   \<and> lsint_to_sint_hi a = native_to_sint_hi (s128_of a)
   \<and> lsint_lt_0 a = native_lt_0 (s128_of a)
   \<and> lsint_is_fixnum a = native_lsint_is_fixnum (s128_of a)
   \<and> sexp_lsint_fits_sint a = native_fits_sint (s128_of a)"
proof (intro conjI)
  show "s128_of (lsint_from_sint v) = native_from_sint v"
    by (simp only: native_defs s128_of_from_sint)
  show "lsint_to_sint a = native_to_uint (s128_of a)"
    by (simp only: native_defs ucast_s128_of lsint_to_sint_def)
  show "lsint_to_sint_hi a = native_to_sint_hi (s128_of a)"
    by (rule bit_word_eqI)
      (auto simp add: native_defs lsint_to_sint_hi_def bit_unsigned_iff bit_signed_drop_bit_iff s128_of_def bit_u128_of
       luint_from_lsint_def)
  show "lsint_lt_0 a = native_lt_0 (s128_of a)"
    using uint_u64_range [of "lsint_lo a"]
    by (cases "sint (lsint_hi a) < 0") (simp_all add: native_defs lsint_lt_0_def sint_s128_of not_less)
  show "lsint_is_fixnum a = native_lsint_is_fixnum (s128_of a)"
    by (simp only: lsint_is_fixnum_iff native_defs sint_fixnum_bounds)
  show "sexp_lsint_fits_sint a = native_fits_sint (s128_of a)"
    by (simp only: fits_sint_iff native_defs)
qed (simp_all add: s128_of_negate s128_of_mul_sint)

end
