(* ===== verification/Bignum.thy ===== *)
theory Bignum
  imports Luint
begin

text \<open>
  Bignum digit arithmetic, \<^verbatim>\<open>bignum.c\<close>.  A bignum is a sign and a little-endian array of 64-bit
  digits; \<open>sexp_bignum_length\<close> is the length of the list.  The functions pass bignums by value:
  an in-place update returns the updated bignum, and a destination argument \<open>dst\<close> is an
  optional bignum whose storage is reused.  Allocation succeeds and clears the object, as
  \<open>sexp_alloc_tagged\<close> does when the heap can grow.  Loops over digits are recursions over the
  digit list, from the low end where the code counts up and from the high end where it counts down.
\<close>

subsection \<open>Data and operations\<close>

record bignum =
  sexp_bignum_sign :: int
  sexp_bignum_data :: "u64 list"

abbreviation sexp_bignum_length :: "bignum \<Rightarrow> nat" where
  "sexp_bignum_length a \<equiv> length (sexp_bignum_data a)"

definition sexp_make_bignum :: "nat \<Rightarrow> bignum" where
  "sexp_make_bignum len = \<lparr>sexp_bignum_sign = 1, sexp_bignum_data = replicate len 0\<rparr>"

definition sexp_fixnum_to_bignum :: "u64 \<Rightarrow> bignum" where
  "sexp_fixnum_to_bignum a =
    (let res = sexp_make_bignum 1
     in res\<lparr>sexp_bignum_data := (sexp_bignum_data res)[0 := sexp_unbox_fx_abs a],
            sexp_bignum_sign := sexp_fx_sign a\<rparr>)"

definition sexp_copy_bignum :: "bignum option \<Rightarrow> bignum \<Rightarrow> nat \<Rightarrow> bignum" where
  "sexp_copy_bignum dst a len0 =
    (let len = if len0 > 0 then len0 else sexp_bignum_length a;
         dlen = (case dst of None \<Rightarrow> len
                 | Some d \<Rightarrow> if sexp_bignum_length d < len then len else sexp_bignum_length d);
         len = if sexp_bignum_length a < len then sexp_bignum_length a else len
     in \<lparr>sexp_bignum_sign = sexp_bignum_sign a,
         sexp_bignum_data = take len (sexp_bignum_data a) @ replicate (dlen - len) 0\<rparr>)"

definition sexp_bignum_zerop :: "bignum \<Rightarrow> bool" where
  "sexp_bignum_zerop a \<longleftrightarrow> list_all (\<lambda>d. d = 0) (sexp_bignum_data a)"

fun hi_loop :: "u64 list \<Rightarrow> nat \<Rightarrow> nat" where
  "hi_loop data 0 = 0"
| "hi_loop data (Suc i) = (if data ! Suc i = 0 then hi_loop data i else Suc i)"

definition sexp_bignum_hi :: "bignum \<Rightarrow> nat" where
  "sexp_bignum_hi a = hi_loop (sexp_bignum_data a) (sexp_bignum_length a - 1) + 1"

fun compare_loop :: "u64 list \<Rightarrow> u64 list \<Rightarrow> nat \<Rightarrow> int" where
  "compare_loop adata bdata 0 = 0"
| "compare_loop adata bdata (Suc ai) =
    (if adata ! ai > bdata ! ai then 1
     else if adata ! ai < bdata ! ai then - 1
     else compare_loop adata bdata ai)"

definition sexp_bignum_compare_abs :: "bignum \<Rightarrow> bignum \<Rightarrow> int" where
  "sexp_bignum_compare_abs a b =
    (let ai = sexp_bignum_hi a; bi = sexp_bignum_hi b
     in if ai \<noteq> bi then int ai - int bi
        else compare_loop (sexp_bignum_data a) (sexp_bignum_data b) ai)"

definition sexp_bignum_compare :: "bignum \<Rightarrow> bignum \<Rightarrow> int" where
  "sexp_bignum_compare a b =
    (if sexp_bignum_sign a \<noteq> sexp_bignum_sign b then sexp_bignum_sign a
     else (let cmp = sexp_bignum_compare_abs a b
           in if sexp_bignum_sign a < 0 then - cmp else cmp))"

text \<open>The carry loop of \<open>sexp_bignum_fxadd\<close>, over the first \<open>len\<close> digits.\<close>

fun fxadd_loop :: "u64 \<Rightarrow> u64 list \<Rightarrow> u64 list \<times> u64" where
  "fxadd_loop carry [] = ([], carry)"
| "fxadd_loop carry (n # ds) =
    (let carry' = (if n > SEXP_UINT_T_MAX - carry then 1 else 0)
     in if carry' = 0 then ((n + carry) # ds, 0)
        else (let (ds', c) = fxadd_loop carry' ds in ((n + carry) # ds', c)))"

definition sexp_bignum_fxadd :: "bignum \<Rightarrow> u64 \<Rightarrow> bignum" where
  "sexp_bignum_fxadd a b =
    (let len = sexp_bignum_hi a; data = sexp_bignum_data a;
         (ds, carry) = fxadd_loop b (take len data);
         a = a\<lparr>sexp_bignum_data := ds @ drop len data\<rparr>
     in if carry \<noteq> 0
        then (let a = sexp_copy_bignum None a (len + 1)
              in a\<lparr>sexp_bignum_data := (sexp_bignum_data a)[len := 1]\<rparr>)
        else a)"

text \<open>The borrow loop of \<open>sexp_bignum_fxsub\<close> stops when the borrow is gone.\<close>

fun fxsub_loop :: "u64 \<Rightarrow> u64 list \<Rightarrow> u64 list" where
  "fxsub_loop borrow [] = []"
| "fxsub_loop borrow (n # ds) =
    (if borrow = 0 then n # ds
     else (n - borrow) # fxsub_loop (if n < borrow then 1 else 0) ds)"

definition sexp_bignum_fxsub :: "bignum \<Rightarrow> u64 \<Rightarrow> bignum" where
  "sexp_bignum_fxsub a b =
    (let len = sexp_bignum_hi a; data = sexp_bignum_data a
     in if len = 1 \<and> b > data ! 0
        then a\<lparr>sexp_bignum_data := data[0 := b - data ! 0], sexp_bignum_sign := - sexp_bignum_sign a\<rparr>
        else a\<lparr>sexp_bignum_data := fxsub_loop b data\<rparr>)"

fun fxmul_loop :: "u64 \<Rightarrow> u64 \<Rightarrow> u64 list \<Rightarrow> u64 list \<times> u64" where
  "fxmul_loop b carry [] = ([], carry)"
| "fxmul_loop b carry (d # ds) =
    (let n = native_add (native_mul_uint (native_from_uint d) b) (native_from_uint carry);
         (ds', c) = fxmul_loop b (native_to_uint (native_shr n 64)) ds
     in (native_to_uint n # ds', c))"

definition sexp_bignum_fxmul :: "bignum option \<Rightarrow> bignum \<Rightarrow> u64 \<Rightarrow> nat \<Rightarrow> bignum" where
  "sexp_bignum_fxmul d a b offset =
    (let len = sexp_bignum_length a;
         d = (case d of None \<Rightarrow> sexp_make_bignum (len + offset)
              | Some d \<Rightarrow> if sexp_bignum_length d < len + offset then sexp_make_bignum (len + offset) else d);
         data = sexp_bignum_data d;
         (ds, carry) = fxmul_loop b 0 (sexp_bignum_data a);
         d = d\<lparr>sexp_bignum_data := take offset data @ ds @ drop (len + offset) data\<rparr>
     in if carry \<noteq> 0
        then (let d = (if sexp_bignum_length d \<le> len + offset
                       then sexp_copy_bignum None d (len + offset + 1) else d)
              in d\<lparr>sexp_bignum_data := (sexp_bignum_data d)[len + offset := carry]\<rparr>)
        else d)"

text \<open>Digits from the top: the running remainder is the result for the digits above.\<close>

fun fxdiv_loop :: "u64 \<Rightarrow> u64 list \<Rightarrow> u64 list \<times> u64" where
  "fxdiv_loop b [] = ([], 0)"
| "fxdiv_loop b (d # ds) =
    (let (qs, r) = fxdiv_loop b ds;
         n = native_add (native_shl (native_from_uint r) 64) (native_from_uint d);
         q = native_to_uint (native_div_uint n b);
         r = native_to_uint (native_sub n (native_mul_uint (native_from_uint q) b))
     in (q # qs, r))"

definition sexp_bignum_fxdiv :: "bignum \<Rightarrow> u64 \<Rightarrow> nat \<Rightarrow> bignum \<times> u64" where
  "sexp_bignum_fxdiv a b offset =
    (let len = sexp_bignum_hi a; data = sexp_bignum_data a;
         (qs, r) = fxdiv_loop b (drop offset (take len data))
     in (a\<lparr>sexp_bignum_data := take (min offset len) data @ qs @ drop len data\<rparr>, r))"

definition sexp_bignum_add_fixnum :: "bignum \<Rightarrow> u64 \<Rightarrow> bignum" where
  "sexp_bignum_add_fixnum a b =
    (let c = sexp_copy_bignum None a 0
     in if sexp_bignum_sign c = sexp_fx_sign b
        then sexp_bignum_fxadd c (sexp_unbox_fx_abs b)
        else sexp_bignum_fxsub c (sexp_unbox_fx_abs b))"

text \<open>The two loops of \<open>sexp_bignum_sub_digits\<close>: over the digits of \<open>b\<close>, then over the rest of \<open>c\<close>.\<close>

fun sub_loop :: "u64 \<Rightarrow> u64 list \<Rightarrow> u64 list \<Rightarrow> u64 list \<times> u64" where
  "sub_loop borrow (a # as) (b # bs) =
    (if a > b \<or> a = b \<and> borrow = 0
     then (let (cs, c) = sub_loop 0 as bs in ((a - b - borrow) # cs, c))
     else (let (cs, c) = sub_loop 1 as bs in ((SEXP_UINT_T_MAX - b + 1 - borrow + a) # cs, c)))"
| "sub_loop borrow _ _ = ([], borrow)"

fun borrow_loop :: "u64 \<Rightarrow> u64 list \<Rightarrow> u64 list" where
  "borrow_loop borrow [] = []"
| "borrow_loop borrow (c # cs) =
    (if borrow = 0 then c # cs else (c - 1) # borrow_loop (if c = 0 then 1 else 0) cs)"

definition sub_digits_ge :: "bignum option \<Rightarrow> bignum \<Rightarrow> bignum \<Rightarrow> bignum" where
  "sub_digits_ge dst a b =
    (let alen = sexp_bignum_hi a; blen = sexp_bignum_hi b;
         c = (case dst of None \<Rightarrow> sexp_copy_bignum None a 0
              | Some d \<Rightarrow> if sexp_bignum_hi d \<ge> alen then d else sexp_copy_bignum None a 0);
         cdata = sexp_bignum_data c;
         (cs, borrow) = sub_loop 0 (take blen (sexp_bignum_data a)) (take blen (sexp_bignum_data b))
     in c\<lparr>sexp_bignum_data := cs @ borrow_loop borrow (drop blen (take alen cdata)) @ drop alen cdata\<rparr>)"

definition sexp_bignum_sub_digits :: "bignum option \<Rightarrow> bignum \<Rightarrow> bignum \<Rightarrow> bignum" where
  "sexp_bignum_sub_digits dst a b =
    (let alen = sexp_bignum_hi a; blen = sexp_bignum_hi b
     in if alen < blen \<or> alen = blen \<and> sexp_bignum_compare_abs a b < 0
        then sub_digits_ge dst b a else sub_digits_ge dst a b)"

fun add_loop :: "u64 \<Rightarrow> u64 list \<Rightarrow> u64 list \<Rightarrow> u64 list \<times> u64" where
  "add_loop carry (a # as) (b # bs) =
    (let p_sum = a + b;
         carry' = (if a > SEXP_UINT_T_MAX - b then 1 else 0)
                + (if p_sum > SEXP_UINT_T_MAX - carry then 1 else 0);
         (cs, c) = add_loop carry' as bs
     in ((p_sum + carry) # cs, c))"
| "add_loop carry _ _ = ([], carry)"

fun carry_loop :: "u64 \<Rightarrow> u64 list \<Rightarrow> u64 list \<times> u64" where
  "carry_loop carry [] = ([], carry)"
| "carry_loop carry (c # cs) =
    (if carry = 0 then (c # cs, 0)
     else (let (cs', k) = carry_loop (if c = SEXP_UINT_T_MAX then 1 else 0) cs in ((c + 1) # cs', k)))"

definition add_digits_ge :: "bignum option \<Rightarrow> bignum \<Rightarrow> bignum \<Rightarrow> bignum" where
  "add_digits_ge dst a b =
    (let alen = sexp_bignum_hi a; blen = sexp_bignum_hi b;
         c = (case dst of None \<Rightarrow> sexp_copy_bignum None a 0
              | Some d \<Rightarrow> if sexp_bignum_hi d \<ge> alen then d else sexp_copy_bignum None a 0);
         cdata = sexp_bignum_data c;
         (cs, carry) = add_loop 0 (take blen (sexp_bignum_data a)) (take blen (sexp_bignum_data b));
         (ds, carry) = carry_loop carry (drop blen (take alen cdata));
         c = c\<lparr>sexp_bignum_data := cs @ ds @ drop alen cdata\<rparr>
     in if carry \<noteq> 0
        then (let c = sexp_copy_bignum None c (alen + 1)
              in c\<lparr>sexp_bignum_data := (sexp_bignum_data c)[alen := 1]\<rparr>)
        else c)"

definition sexp_bignum_add_digits :: "bignum option \<Rightarrow> bignum \<Rightarrow> bignum \<Rightarrow> bignum" where
  "sexp_bignum_add_digits dst a b =
    (if sexp_bignum_hi a < sexp_bignum_hi b then add_digits_ge dst b a else add_digits_ge dst a b)"

text \<open>
  When the signs differ the code compares the magnitudes after the digits have been written, so with the first operand as
  destination it would compare the difference; the model compares the operands.  No caller passes
  operands of different signs together with a destination.
\<close>

definition sexp_bignum_add :: "bignum option \<Rightarrow> bignum \<Rightarrow> bignum \<Rightarrow> bignum" where
  "sexp_bignum_add dst a b =
    (if sexp_bignum_sign a = sexp_bignum_sign b
     then (sexp_bignum_add_digits dst a b)\<lparr>sexp_bignum_sign := sexp_bignum_sign a\<rparr>
     else (sexp_bignum_sub_digits dst a b)
            \<lparr>sexp_bignum_sign := sexp_bignum_sign (if sexp_bignum_compare_abs a b \<ge> 0 then a else b)\<rparr>)"

definition sexp_bignum_sub :: "bignum option \<Rightarrow> bignum \<Rightarrow> bignum \<Rightarrow> bignum" where
  "sexp_bignum_sub dst a b =
    (if sexp_bignum_sign a = sexp_bignum_sign b
     then (sexp_bignum_sub_digits dst a b)
            \<lparr>sexp_bignum_sign := (if sexp_bignum_compare_abs a b \<ge> 0 then sexp_bignum_sign a
                                    else - sexp_bignum_sign a)\<rparr>
     else (sexp_bignum_add_digits dst a b)\<lparr>sexp_bignum_sign := sexp_bignum_sign a\<rparr>)"

definition sexp_bignum_split :: "bignum \<Rightarrow> nat \<Rightarrow> bignum \<times> bignum" where
  "sexp_bignum_split a k =
    (let alen = sexp_bignum_hi a; adata = sexp_bignum_data a;
         lo = sexp_make_bignum k; hi = sexp_make_bignum (alen - k + 1)
     in (lo\<lparr>sexp_bignum_data := take k adata\<rparr>,
         hi\<lparr>sexp_bignum_data := drop k (take alen adata) @ drop (alen - k) (sexp_bignum_data hi)\<rparr>))"

definition sexp_bignum_shift :: "bignum \<Rightarrow> nat \<Rightarrow> bignum" where
  "sexp_bignum_shift a k =
    (let alen = sexp_bignum_hi a; res = sexp_make_bignum (alen + k + 1); rdata = sexp_bignum_data res
     in res\<lparr>sexp_bignum_data := take k rdata @ take alen (sexp_bignum_data a) @ drop (k + alen) rdata\<rparr>)"

subsection \<open>The value of a bignum\<close>

fun dval :: "u64 list \<Rightarrow> nat" where
  "dval [] = 0"
| "dval (d # ds) = unat d + 2 ^ 64 * dval ds"

definition bn_nat :: "bignum \<Rightarrow> nat" where
  "bn_nat a = dval (sexp_bignum_data a)"

definition bn_int :: "bignum \<Rightarrow> int" where
  "bn_int a = sexp_bignum_sign a * int (bn_nat a)"

definition bignum_ok :: "bignum \<Rightarrow> bool" where
  "bignum_ok a \<longleftrightarrow> sexp_bignum_data a \<noteq> [] \<and> sexp_bignum_sign a \<in> {1, - 1}"

lemma dval_append: "dval (xs @ ys) = dval xs + 2 ^ (64 * length xs) * dval ys"
  by (induction xs) (simp_all add: algebra_simps power_add)

lemma dval_replicate_0 [simp]: "dval (replicate n 0) = 0"
  by (induction n) simp_all

lemma dval_less: "dval xs < 2 ^ (64 * length xs)"
proof (induction xs)
  case (Cons d ds)
  have "unat d + 2 ^ 64 * dval ds < 2 ^ 64 * (dval ds + 1)" by simp
  also have "\<dots> \<le> 2 ^ 64 * 2 ^ (64 * length ds)" using Cons by (intro mult_le_mono2) simp
  finally show ?case by (simp add: power_add)
qed simp

lemma dval_take_drop: "dval xs = dval (take k xs) + 2 ^ (64 * min k (length xs)) * dval (drop k xs)"
  using dval_append [of "take k xs" "drop k xs"] by (simp add: min.commute)

lemma dval_split: "k \<le> length xs \<Longrightarrow> dval xs = dval (take k xs) + 2 ^ (64 * k) * dval (drop k xs)"
  using dval_take_drop [of xs k] by (simp add: min_def)

lemma dval_take_less: "dval (take k xs) < 2 ^ (64 * k)"
  using dval_less [of "take k xs"]
  by (rule less_le_trans) (simp add: power_increasing)

lemma dval_take_Suc: "k < length xs \<Longrightarrow> dval (take (Suc k) xs) = dval (take k xs) + 2 ^ (64 * k) * unat (xs ! k)"
  by (simp add: take_Suc_conv_app_nth dval_append)

lemma dval_eq_0_iff: "dval xs = 0 \<longleftrightarrow> list_all (\<lambda>d. d = 0) xs"
  by (induction xs) (simp_all add: unat_eq_zero)

lemma list_all_0_replicate: "list_all (\<lambda>d. d = 0) xs \<Longrightarrow> xs = replicate (length xs) 0"
  by (induction xs) simp_all

lemma dval_update_0: "i < length xs \<Longrightarrow> xs ! i = 0 \<Longrightarrow> dval (xs[i := v]) = dval xs + 2 ^ (64 * i) * unat v"
  by (induction xs arbitrary: i) (auto simp: nth_Cons algebra_simps power_add split: nat.splits)

subsubsection \<open>The number of significant digits\<close>

lemma hi_loop_le: "hi_loop data i \<le> i"
  by (induction i) auto

lemma hi_loop_top: "0 < hi_loop data i \<Longrightarrow> data ! hi_loop data i \<noteq> 0"
  by (induction i) auto

lemma hi_loop_zeros: "hi_loop data i < j \<Longrightarrow> j \<le> i \<Longrightarrow> data ! j = 0"
  by (induction i) (auto split: if_splits simp: le_Suc_eq)

lemma hi_pos [simp]: "0 < sexp_bignum_hi a"
  by (simp add: sexp_bignum_hi_def)

lemma hi_neq_0 [simp]: "sexp_bignum_hi a \<noteq> 0"
  by (simp add: sexp_bignum_hi_def)

lemma hi_ge_1 [simp]: "Suc 0 \<le> sexp_bignum_hi a"
  by (simp add: sexp_bignum_hi_def)

lemma hi_le_length: "sexp_bignum_data a \<noteq> [] \<Longrightarrow> sexp_bignum_hi a \<le> sexp_bignum_length a"
  using hi_loop_le [of "sexp_bignum_data a" "sexp_bignum_length a - 1"]
  by (cases "sexp_bignum_data a") (simp_all add: sexp_bignum_hi_def)

lemma hi_le_Suc_length: "sexp_bignum_hi a \<le> Suc (sexp_bignum_length a)"
  using hi_loop_le [of "sexp_bignum_data a" "sexp_bignum_length a - 1"]
  by (simp add: sexp_bignum_hi_def)

lemma hi_top: "1 < sexp_bignum_hi a \<Longrightarrow> sexp_bignum_data a ! (sexp_bignum_hi a - 1) \<noteq> 0"
  using hi_loop_top [of "sexp_bignum_data a"] by (simp add: sexp_bignum_hi_def)

lemma drop_hi: "drop (sexp_bignum_hi a) (sexp_bignum_data a)
    = replicate (sexp_bignum_length a - sexp_bignum_hi a) 0"
proof (rule nth_equalityI)
  fix i assume i: "i < length (drop (sexp_bignum_hi a) (sexp_bignum_data a))"
  then have "sexp_bignum_data a ! (sexp_bignum_hi a + i) = 0"
    unfolding sexp_bignum_hi_def
    by (intro hi_loop_zeros [of _ "sexp_bignum_length a - 1"]) simp_all
  with i show "drop (sexp_bignum_hi a) (sexp_bignum_data a) ! i
      = replicate (sexp_bignum_length a - sexp_bignum_hi a) 0 ! i" by simp
qed simp

lemma bn_nat_take_hi: "dval (take (sexp_bignum_hi a) (sexp_bignum_data a)) = bn_nat a"
  using dval_take_drop [of "sexp_bignum_data a" "sexp_bignum_hi a"]
  by (simp add: bn_nat_def drop_hi)

lemma bn_nat_less_hi: "bn_nat a < 2 ^ (64 * sexp_bignum_hi a)"
  using dval_take_less [of "sexp_bignum_hi a" "sexp_bignum_data a"] by (simp add: bn_nat_take_hi)

lemma hi_gt_1_length: "1 < sexp_bignum_hi a \<Longrightarrow> sexp_bignum_hi a \<le> sexp_bignum_length a"
  using hi_loop_le [of "sexp_bignum_data a" "sexp_bignum_length a - 1"]
  by (cases "sexp_bignum_data a") (simp_all add: sexp_bignum_hi_def)

lemma bn_nat_ge_hi:
  assumes "1 < sexp_bignum_hi a"
  shows "2 ^ (64 * (sexp_bignum_hi a - 1)) \<le> bn_nat a"
proof -
  let ?k = "sexp_bignum_hi a - 1"
  have "?k < sexp_bignum_length a" using hi_gt_1_length [OF assms] assms by linarith
  then have "bn_nat a = dval (take ?k (sexp_bignum_data a)) + 2 ^ (64 * ?k) * unat (sexp_bignum_data a ! ?k)"
    using dval_take_Suc [of ?k "sexp_bignum_data a"] assms by (simp add: bn_nat_take_hi)
  moreover have "1 \<le> unat (sexp_bignum_data a ! ?k)"
    using hi_top [OF assms] by (simp add: Suc_le_eq unat_gt_0)
  ultimately show ?thesis by (simp add: trans_le_add2)
qed

lemma hi_eq_1_iff: "sexp_bignum_hi a = 1 \<longleftrightarrow> bn_nat a < 2 ^ 64"
proof
  assume "bn_nat a < 2 ^ 64"
  show "sexp_bignum_hi a = 1"
  proof (rule ccontr)
    assume "sexp_bignum_hi a \<noteq> 1"
    then have h: "1 < sexp_bignum_hi a" using hi_pos [of a] by linarith
    then have "(2::nat) ^ (64 * 1) \<le> 2 ^ (64 * (sexp_bignum_hi a - 1))" by (intro power_increasing) simp_all
    then show False using bn_nat_ge_hi [OF h] \<open>bn_nat a < 2 ^ 64\<close> by simp
  qed
qed (use bn_nat_less_hi [of a] in simp)

lemma bn_nat_hi_1: "sexp_bignum_hi a = 1 \<Longrightarrow> sexp_bignum_data a \<noteq> [] \<Longrightarrow> bn_nat a = unat (sexp_bignum_data a ! 0)"
  using bn_nat_take_hi [of a] by (cases "sexp_bignum_data a") simp_all

lemma bn_nat_hi_less:
  assumes "sexp_bignum_hi a < sexp_bignum_hi b"
  shows "bn_nat a < bn_nat b"
proof -
  have b: "1 < sexp_bignum_hi b" using assms hi_pos [of a] by linarith
  have "bn_nat a < 2 ^ (64 * sexp_bignum_hi a)" by (rule bn_nat_less_hi)
  also have "\<dots> \<le> 2 ^ (64 * (sexp_bignum_hi b - 1))" using assms by (intro power_increasing) simp_all
  also have "\<dots> \<le> bn_nat b" using b by (rule bn_nat_ge_hi)
  finally show ?thesis .
qed

subsubsection \<open>Comparison\<close>

lemma digit_order:
  assumes "x < 2 ^ m" "y < 2 ^ m" "u < (v::nat)"
  shows "x + 2 ^ m * u < y + 2 ^ m * v"
proof -
  have "x + 2 ^ m * u < 2 ^ m * (u + 1)" using assms(1) by simp
  also have "\<dots> \<le> 2 ^ m * v" using assms(3) by (intro mult_le_mono2) simp
  finally show ?thesis by simp
qed

lemma compare_loop_sgn:
  "n \<le> length xs \<Longrightarrow> n \<le> length ys \<Longrightarrow>
   sgn (compare_loop xs ys n) = sgn (int (dval (take n xs)) - int (dval (take n ys)))"
proof (induction n)
  case (Suc n)
  let ?x = "dval (take n xs)" and ?y = "dval (take n ys)"
  have t: "dval (take (Suc n) xs) = ?x + 2 ^ (64 * n) * unat (xs ! n)"
    "dval (take (Suc n) ys) = ?y + 2 ^ (64 * n) * unat (ys ! n)"
    using Suc.prems by (simp_all add: dval_take_Suc)
  consider "xs ! n > ys ! n" | "xs ! n < ys ! n" | "xs ! n = ys ! n" by (rule linorder_cases)
  then show ?case
  proof cases
    case 1
    have "dval (take (Suc n) ys) < dval (take (Suc n) xs)"
      unfolding t using 1 by (intro digit_order dval_take_less) (simp add: word_less_nat_alt)
    with 1 show ?thesis by simp
  next
    case 2
    have "dval (take (Suc n) xs) < dval (take (Suc n) ys)"
      unfolding t using 2 by (intro digit_order dval_take_less) (simp add: word_less_nat_alt)
    with 2 show ?thesis by (simp add: not_less_iff_gr_or_eq)
  next
    case 3
    then show ?thesis using Suc t by simp
  qed
qed simp

lemma compare_abs_sgn:
  assumes "bignum_ok a" "bignum_ok b"
  shows "sgn (sexp_bignum_compare_abs a b) = sgn (int (bn_nat a) - int (bn_nat b))"
proof (cases "sexp_bignum_hi a" "sexp_bignum_hi b" rule: linorder_cases)
  case less
  then show ?thesis using bn_nat_hi_less [OF less] by (simp add: sexp_bignum_compare_abs_def)
next
  case greater
  then show ?thesis using bn_nat_hi_less [OF greater] by (simp add: sexp_bignum_compare_abs_def)
next
  case equal
  have "sgn (compare_loop (sexp_bignum_data a) (sexp_bignum_data b) (sexp_bignum_hi b))
      = sgn (int (bn_nat a) - int (bn_nat b))"
    using assms compare_loop_sgn [of "sexp_bignum_hi b" "sexp_bignum_data a" "sexp_bignum_data b"]
      hi_le_length [of a] hi_le_length [of b] bn_nat_take_hi [of a] bn_nat_take_hi [of b]
    by (simp add: equal bignum_ok_def)
  with equal show ?thesis by (simp add: sexp_bignum_compare_abs_def)
qed

lemma compare_abs_neg:
  "bignum_ok a \<Longrightarrow> bignum_ok b \<Longrightarrow> sexp_bignum_compare_abs a b < 0 \<longleftrightarrow> bn_nat a < bn_nat b"
  using compare_abs_sgn [of a b] by (auto simp: sgn_if split: if_splits)

lemma compare_abs_zero:
  "bignum_ok a \<Longrightarrow> bignum_ok b \<Longrightarrow> sexp_bignum_compare_abs a b = 0 \<longleftrightarrow> bn_nat a = bn_nat b"
  using compare_abs_sgn [of a b] by (auto simp: sgn_if split: if_splits)

subsubsection \<open>Carries and borrows\<close>

lemma overflow_test: "SEXP_UINT_T_MAX - c < n \<longleftrightarrow> 2 ^ 64 \<le> unat n + unat c"
proof -
  have "SEXP_UINT_T_MAX - c = NOT c"
    by (simp add: SEXP_UINT_T_MAX_def not_eq_complement minus_diff_commute [of 1 c])
  then have "unat (SEXP_UINT_T_MAX - c) = 2 ^ 64 - 1 - unat c" by (simp add: unat_not)
  then show ?thesis
    using unat_u64_less [of c] by (simp add: word_less_nat_alt less_diff_conv2 del: unat_u64_less) linarith
qed

lemma digit_carry:
  "unat (n + c :: u64) + 2 ^ 64 * (if SEXP_UINT_T_MAX - c < n then 1 else 0) = unat n + unat c"
proof (cases "2 ^ 64 \<le> unat n + unat c")
  case True
  then have "(unat n + unat c) mod 2 ^ 64 = unat n + unat c - 2 ^ 64"
    using unat_u64_less [of n] unat_u64_less [of c] by (simp add: le_mod_geq del: unat_u64_less)
  with True show ?thesis by (simp add: overflow_test unat_add_mod)
qed (simp add: overflow_test unat_add_mod)

lemma digit_borrow:
  "unat (n - c :: u64) + unat c = unat n + 2 ^ 64 * (if n < c then 1 else 0)"
proof (cases "n < c")
  case True
  then have "unat (n - c) = unat n + 2 ^ 64 - unat c"
    using unat_u64_less [of c] by (simp add: unat_sub_mod word_less_nat_alt)
  then show ?thesis using True unat_u64_less [of c] by (simp del: unat_u64_less)
qed (simp add: unat_sub not_less word_le_nat_alt)

lemma fxadd_loop_val:
  assumes "fxadd_loop b ds = (ds', c)"
  shows "length ds' = length ds \<and> dval ds' + 2 ^ (64 * length ds) * unat c = dval ds + unat b
    \<and> (ds \<noteq> [] \<longrightarrow> c \<in> {0, 1})"
  using assms
proof (induction b ds arbitrary: ds' c rule: fxadd_loop.induct)
  case (2 carry n ds)
  show ?case
  proof (cases "SEXP_UINT_T_MAX - carry < n")
    case True
    then obtain es where es: "fxadd_loop 1 ds = (es, c)" "ds' = (n + carry) # es"
      using 2(2) by (auto split: prod.splits)
    have "dval es + 2 ^ (64 * length ds) * unat c = dval ds + 1"
      "length es = length ds" "ds \<noteq> [] \<Longrightarrow> c \<in> {0, 1}"
      using 2(1) [OF refl, of es c] es(1) True by auto
    moreover have "ds = [] \<Longrightarrow> c = 1" using es(1) by simp
    ultimately show ?thesis
      using es(2) digit_carry [of n carry] True by (auto simp: power_add algebra_simps)
  next
    case False
    then show ?thesis using 2(2) digit_carry [of n carry] by auto
  qed
qed simp

lemma carry_loop_val:
  assumes "carry_loop c cs = (ds, k)" "c \<in> {0, 1}"
  shows "length ds = length cs \<and> dval ds + 2 ^ (64 * length cs) * unat k = dval cs + unat c \<and> k \<in> {0, 1}"
  using assms
proof (induction c cs arbitrary: ds k rule: carry_loop.induct)
  case (2 carry c cs)
  show ?case
  proof (cases "carry = 0")
    case True
    then show ?thesis using 2(2) by simp
  next
    case False
    let ?k = "if c = SEXP_UINT_T_MAX then 1 else 0 :: u64"
    obtain es where es: "carry_loop ?k cs = (es, k)" "ds = (c + 1) # es"
      using 2(2) False by (auto split: prod.splits)
    have "length es = length cs \<and> dval es + 2 ^ (64 * length cs) * unat k = dval cs + unat ?k \<and> k \<in> {0, 1}"
      using 2(1) [OF False es(1)] by simp
    moreover have "unat (c + 1) + 2 ^ 64 * unat ?k = unat c + 1"
    proof (cases "c = SEXP_UINT_T_MAX")
      case True
      then show ?thesis
        by (simp add: SEXP_UINT_T_MAX_def unsigned_minus_1_eq_mask mask_eq_exp_minus_1)
    next
      case False
      then have "unat c \<noteq> 2 ^ 64 - 1"
        by (simp add: SEXP_UINT_T_MAX_def word_unat_eq_iff unsigned_minus_1_eq_mask mask_eq_exp_minus_1)
      then have "Suc (unat c) < 2 ^ 64" using unat_u64_less [of c] by (simp del: unat_u64_less)
      then show ?thesis using False by (simp add: unat_add_mod)
    qed
    ultimately show ?thesis
      using es(2) 2(3) False by (auto simp: power_add algebra_simps)
  qed
qed auto

lemma add_loop_val:
  assumes "add_loop c as bs = (cs, k)" "c \<in> {0, 1}" "length as = length bs"
  shows "length cs = length as \<and> dval cs + 2 ^ (64 * length as) * unat k = dval as + dval bs + unat c
    \<and> k \<in> {0, 1}"
  using assms
proof (induction c as bs arbitrary: cs k rule: add_loop.induct)
  case (1 carry a as b bs)
  let ?c1 = "if SEXP_UINT_T_MAX - b < a then 1 else 0 :: u64"
  let ?c2 = "if SEXP_UINT_T_MAX - carry < a + b then 1 else 0 :: u64"
  obtain ds where ds: "add_loop (?c1 + ?c2) as bs = (ds, k)" "cs = (a + b + carry) # ds"
    using 1(2) by (auto simp: Let_def split: prod.splits)
  have s1: "unat (a + b) + 2 ^ 64 * unat ?c1 = unat a + unat b"
    using digit_carry [of a b] by (auto split: if_splits)
  have s2: "unat (a + b + carry) + 2 ^ 64 * unat ?c2 = unat (a + b) + unat carry"
    using digit_carry [of "a + b" carry] by (auto split: if_splits)
  have c: "unat carry \<le> 1" using 1(3) by auto
  have "\<not> (?c1 = 1 \<and> ?c2 = 1)"
  proof
    assume "?c1 = 1 \<and> ?c2 = 1"
    then show False
      using s1 s2 c unat_u64_less [of a] unat_u64_less [of b] by (auto split: if_splits simp del: unat_u64_less)
  qed
  then have c12: "?c1 + ?c2 \<in> {0, 1}" and u: "unat (?c1 + ?c2) = unat ?c1 + unat ?c2" by auto
  from 1(1) [OF refl refl _ c12] ds(1) 1(4)
  have "length ds = length as \<and> dval ds + 2 ^ (64 * length as) * unat k
      = dval as + dval bs + unat (?c1 + ?c2) \<and> k \<in> {0, 1}" by simp
  then show ?case using ds(2) s1 s2 unfolding u by (auto simp: power_add algebra_simps)
qed auto

lemma fxsub_loop_val:
  "unat b \<le> dval ds \<Longrightarrow> length (fxsub_loop b ds) = length ds \<and> dval (fxsub_loop b ds) + unat b = dval ds"
proof (induction b ds rule: fxsub_loop.induct)
  case (2 borrow n ds)
  let ?k = "if n < borrow then 1 else 0 :: u64"
  show ?case
  proof (cases "borrow = 0")
    case False
    have d: "unat (n - borrow) + unat borrow = unat n + 2 ^ 64 * unat ?k"
      using digit_borrow [of n borrow] by (auto split: if_splits)
    have "unat ?k \<le> dval ds"
    proof (cases "n < borrow")
      case True
      have "dval ds \<noteq> 0"
      proof
        assume "dval ds = 0"
        then have "unat borrow \<le> unat n" using 2(2) by simp
        then show False using True by (simp add: word_less_nat_alt)
      qed
      then show ?thesis using True by simp
    qed simp
    from 2(1) [OF False this] d False show ?thesis by (auto simp: algebra_simps)
  qed simp
qed simp

lemma borrow_loop_val:
  "b \<in> {0, 1} \<Longrightarrow> unat b \<le> dval cs \<Longrightarrow>
   length (borrow_loop b cs) = length cs \<and> dval (borrow_loop b cs) + unat b = dval cs"
proof (induction b cs rule: borrow_loop.induct)
  case (2 b c cs)
  show ?case
  proof (cases "b = 0")
    case False
    then have b: "b = 1" using 2(2) by simp
    let ?k = "if c = 0 then 1 else 0 :: u64"
    have d: "unat (c - 1) + 1 = unat c + 2 ^ 64 * unat ?k"
      using digit_borrow [of c 1] by (auto split: if_splits simp: word_less_nat_alt unat_eq_zero)
    have "unat ?k \<le> dval cs" using 2(3) b by (auto simp: Suc_le_eq intro: Nat.gr0I)
    from 2(1) [OF False _ this] d b show ?thesis by (auto simp: algebra_simps)
  qed simp
qed simp

lemma sub_loop_val:
  assumes "sub_loop c as bs = (cs, k)" "c \<in> {0, 1}" "length as = length bs"
  shows "length cs = length as \<and> dval cs + dval bs + unat c = dval as + 2 ^ (64 * length as) * unat k
    \<and> k \<in> {0, 1}"
  using assms
proof (induction c as bs arbitrary: cs k rule: sub_loop.induct)
  case (1 borrow a as b bs)
  have w: "unat borrow \<le> 1" using 1(4) by auto
  show ?case
  proof (cases "a > b \<or> a = b \<and> borrow = 0")
    case True
    then obtain ds where ds: "sub_loop 0 as bs = (ds, k)" "cs = (a - b - borrow) # ds"
      using 1(3) by (auto split: prod.splits)
    have "unat (a - b - borrow) + unat b + unat borrow = unat a"
      using True digit_borrow [of a b] digit_borrow [of "a - b" borrow] w
      by (auto simp: word_less_nat_alt split: if_splits)
    moreover have "length ds = length as \<and> dval ds + dval bs = dval as + 2 ^ (64 * length as) * unat k \<and> k \<in> {0, 1}"
      using 1(1) [OF True ds(1)] 1(5) by simp
    ultimately show ?thesis using ds(2) by (auto simp: power_add algebra_simps)
  next
    case False
    let ?x = "SEXP_UINT_T_MAX - b + 1 - borrow + a"
    obtain ds where ds: "sub_loop 1 as bs = (ds, k)" "cs = ?x # ds"
      using 1(3) False by (auto split: prod.splits)
    have x: "?x = a - b - borrow" by (simp add: SEXP_UINT_T_MAX_def)
    have "unat ?x + unat b + unat borrow = unat a + 2 ^ 64"
      unfolding x using False digit_borrow [of a b] digit_borrow [of "a - b" borrow] w unat_u64_less [of b]
      by (auto simp: word_less_nat_alt not_less word_unat_eq_iff simp del: unat_u64_less split: if_splits)
    moreover have "length ds = length as \<and> dval ds + dval bs + 1 = dval as + 2 ^ (64 * length as) * unat k \<and> k \<in> {0, 1}"
      using 1(2) [OF False ds(1)] 1(5) by simp
    ultimately show ?thesis using ds(2) by (auto simp: power_add algebra_simps)
  qed
qed auto

subsubsection \<open>Whole-bignum operations\<close>

lemma bn_nat_make [simp]: "bn_nat (sexp_make_bignum n) = 0"
  by (simp add: bn_nat_def sexp_make_bignum_def)

lemma ok_make [simp]: "0 < n \<Longrightarrow> bignum_ok (sexp_make_bignum n)"
  by (auto simp: bignum_ok_def sexp_make_bignum_def)

lemma sign_make [simp]: "sexp_bignum_sign (sexp_make_bignum n) = 1"
  and data_make [simp]: "sexp_bignum_data (sexp_make_bignum n) = replicate n 0"
  by (simp_all add: sexp_make_bignum_def)

lemma copy_same: "sexp_copy_bignum None a 0 = a"
  by (simp add: sexp_copy_bignum_def)

lemma fixnum_to_bignum_val:
  "bn_int (sexp_fixnum_to_bignum w) = fixnum_value w" "bignum_ok (sexp_fixnum_to_bignum w)"
  "int (bn_nat (sexp_fixnum_to_bignum w)) = \<bar>fixnum_value w\<bar>"
  using sexp_unbox_fx_abs_value [of w]
  by (auto simp: sexp_fixnum_to_bignum_def bn_int_def bn_nat_def bignum_ok_def sexp_make_bignum_def
      sexp_fx_sign_value)

lemma dval_zero_tail: "dval (xs @ replicate m 0) = dval xs"
  by (simp add: dval_append)

lemma copy_extend:
  "length xs = n \<Longrightarrow>
   sexp_copy_bignum None (a\<lparr>sexp_bignum_data := xs @ replicate m 0\<rparr>) (Suc n) = a\<lparr>sexp_bignum_data := xs @ [0]\<rparr>"
  "length xs = n \<Longrightarrow>
   sexp_copy_bignum None (a\<lparr>sexp_bignum_data := xs\<rparr>) (Suc n) = a\<lparr>sexp_bignum_data := xs @ [0]\<rparr>"
  by (cases m) (auto simp: sexp_copy_bignum_def bignum.equality)

lemma fxadd_val:
  assumes "bignum_ok a"
  shows "bn_nat (sexp_bignum_fxadd a b) = bn_nat a + unat b"
    and "sexp_bignum_sign (sexp_bignum_fxadd a b) = sexp_bignum_sign a"
    and "bignum_ok (sexp_bignum_fxadd a b)"
proof -
  let ?len = "sexp_bignum_hi a" and ?data = "sexp_bignum_data a"
  obtain ds c where ds: "fxadd_loop b (take ?len ?data) = (ds, c)" by fastforce
  have len: "?len \<le> length ?data" using assms by (simp add: hi_le_length bignum_ok_def)
  have l: "length ds = ?len" and v: "dval ds + 2 ^ (64 * ?len) * unat c = bn_nat a + unat b"
    and c: "c \<in> {0, 1}"
    using fxadd_loop_val [OF ds, unfolded length_take min_absorb2 [OF len]] len assms
    by (auto simp: bn_nat_take_hi bignum_ok_def)
  have ne: "ds \<noteq> []" using l hi_pos [of a] by (metis length_0_conv less_irrefl)
  have "bn_nat (sexp_bignum_fxadd a b) = bn_nat a + unat b
    \<and> sexp_bignum_sign (sexp_bignum_fxadd a b) = sexp_bignum_sign a
    \<and> bignum_ok (sexp_bignum_fxadd a b)"
    using c v assms ne l
    by (auto simp: sexp_bignum_fxadd_def ds Let_def bn_nat_def drop_hi dval_zero_tail copy_extend bignum_ok_def
        list_update_append dval_append)
  then show "bn_nat (sexp_bignum_fxadd a b) = bn_nat a + unat b"
    "sexp_bignum_sign (sexp_bignum_fxadd a b) = sexp_bignum_sign a" "bignum_ok (sexp_bignum_fxadd a b)"
    by simp_all
qed

lemma fxsub_val:
  assumes "bignum_ok a"
  shows "bn_int (sexp_bignum_fxsub a b) = bn_int a - sexp_bignum_sign a * int (unat b)"
    and "bignum_ok (sexp_bignum_fxsub a b)"
proof -
  let ?d = "sexp_bignum_data a"
  have ne: "?d \<noteq> []" using assms by (simp add: bignum_ok_def)
  have "bn_int (sexp_bignum_fxsub a b) = bn_int a - sexp_bignum_sign a * int (unat b)
    \<and> bignum_ok (sexp_bignum_fxsub a b)"
  proof (cases "sexp_bignum_hi a = 1 \<and> b > ?d ! 0")
    case True
    then have h: "bn_nat a = unat (?d ! 0)" using bn_nat_hi_1 ne by simp
    obtain x xs where d: "?d = x # xs" using ne by (cases ?d) simp_all
    have z: "dval xs = 0" using h d by (simp add: bn_nat_def)
    have "unat (b - x) = unat b - unat x" using True d by (simp add: unat_sub less_imp_le)
    moreover have "unat x \<le> unat b" using True d by (simp add: word_less_nat_alt)
    ultimately show ?thesis
      using True d z assms by (auto simp: sexp_bignum_fxsub_def bn_int_def bn_nat_def bignum_ok_def algebra_simps of_nat_diff)
  next
    case False
    have "unat b \<le> dval ?d"
    proof (cases "sexp_bignum_hi a = 1")
      case True
      then show ?thesis using False ne bn_nat_hi_1 [of a] by (simp add: bn_nat_def word_le_nat_alt not_less)
    next
      case hi: False
      then have "2 ^ 64 \<le> bn_nat a" using hi_eq_1_iff [of a] by simp
      then show ?thesis using unat_u64_less [of b] by (simp add: bn_nat_def del: unat_u64_less)
    qed
    from fxsub_loop_val [OF this] have l: "length (fxsub_loop b ?d) = length ?d"
      and v: "int (dval ?d) = int (dval (fxsub_loop b ?d)) + int (unat b)"
      by (simp_all only: flip: of_nat_add)
    have "sexp_bignum_fxsub a b = a\<lparr>sexp_bignum_data := fxsub_loop b ?d\<rparr>"
      using False by (simp only: sexp_bignum_fxsub_def Let_def if_False)
    moreover have "fxsub_loop b ?d \<noteq> []" using l ne by auto
    ultimately show ?thesis
      using assms v by (simp add: bn_int_def bn_nat_def bignum_ok_def algebra_simps)
  qed
  then show "bn_int (sexp_bignum_fxsub a b) = bn_int a - sexp_bignum_sign a * int (unat b)"
    "bignum_ok (sexp_bignum_fxsub a b)" by simp_all
qed

lemma add_fixnum_val:
  assumes "bignum_ok a"
  shows "bn_int (sexp_bignum_add_fixnum a w) = bn_int a + fixnum_value w"
    and "bignum_ok (sexp_bignum_add_fixnum a w)"
proof -
  have s: "sexp_bignum_sign a \<in> {1, - 1}" using assms by (simp add: bignum_ok_def)
  have w: "fixnum_value w = sexp_fx_sign w * int (unat (sexp_unbox_fx_abs w))"
    using sexp_unbox_fx_abs_value [of w] by (simp add: sexp_fx_sign_value)
  show "bn_int (sexp_bignum_add_fixnum a w) = bn_int a + fixnum_value w"
  proof (cases "sexp_bignum_sign a = sexp_fx_sign w")
    case True
    then show ?thesis
      using assms unfolding w by (simp add: sexp_bignum_add_fixnum_def copy_same bn_int_def fxadd_val algebra_simps)
  next
    case False
    then have "sexp_fx_sign w = - sexp_bignum_sign a" using s by (auto simp: sexp_fx_sign_value split: if_splits)
    then show ?thesis
      using assms False s unfolding w by (auto simp: sexp_bignum_add_fixnum_def copy_same fxsub_val)
  qed
  show "bignum_ok (sexp_bignum_add_fixnum a w)"
    using assms by (simp add: sexp_bignum_add_fixnum_def copy_same fxadd_val fxsub_val)
qed

lemma fxmul_loop_val:
  "fxmul_loop b c ds = (es, k) \<Longrightarrow>
   length es = length ds \<and> dval es + 2 ^ (64 * length ds) * unat k = dval ds * unat b + unat c"
proof (induction b c ds arbitrary: es k rule: fxmul_loop.induct)
  case (2 b c d ds)
  let ?n = "native_add (native_mul_uint (native_from_uint d) b) (native_from_uint c)"
  obtain fs where fs: "fxmul_loop b (native_to_uint (native_shr ?n 64)) ds = (fs, k)"
    "es = native_to_uint ?n # fs"
    using 2(2) by (auto simp: Let_def split: prod.splits)
  have "length fs = length ds \<and> dval fs + 2 ^ (64 * length ds) * unat k
      = dval ds * unat b + unat (native_to_uint (native_shr ?n 64))"
    using 2(1) [OF refl fs(1)] .
  moreover have "unat (native_to_uint ?n) + 2 ^ 64 * unat (native_to_uint (native_shr ?n 64))
      = unat d * unat b + unat c" by (rule native.mul_step [OF refl])
  ultimately show ?case using fs(2) by (auto simp: power_add algebra_simps)
qed simp

text \<open>The destination of \<open>sexp_bignum_fxmul\<close> is a fresh bignum, or the operand itself (in place).\<close>

lemma fxmul_val:
  assumes "sexp_bignum_data a \<noteq> []" "dst = None \<or> dst = Some a"
  shows "bn_nat (sexp_bignum_fxmul dst a b 0) = bn_nat a * unat b"
    and "sexp_bignum_data (sexp_bignum_fxmul dst a b 0) \<noteq> []"
    and "sexp_bignum_sign (sexp_bignum_fxmul dst a b 0) = (if dst = None then 1 else sexp_bignum_sign a)"
proof -
  obtain ds c where ds: "fxmul_loop b 0 (sexp_bignum_data a) = (ds, c)" by fastforce
  have l: "length ds = sexp_bignum_length a"
    and v: "dval ds + 2 ^ (64 * sexp_bignum_length a) * unat c = bn_nat a * unat b"
    using fxmul_loop_val [OF ds] by (simp_all add: bn_nat_def)
  have ne: "ds \<noteq> []" using l assms by auto
  have "bn_nat (sexp_bignum_fxmul dst a b 0) = bn_nat a * unat b
    \<and> sexp_bignum_data (sexp_bignum_fxmul dst a b 0) \<noteq> []
    \<and> sexp_bignum_sign (sexp_bignum_fxmul dst a b 0) = (if dst = None then 1 else sexp_bignum_sign a)"
    using assms(2) ne l v
    by (auto simp: sexp_bignum_fxmul_def ds Let_def copy_extend bn_nat_def list_update_append dval_append)
  then show "bn_nat (sexp_bignum_fxmul dst a b 0) = bn_nat a * unat b"
    "sexp_bignum_data (sexp_bignum_fxmul dst a b 0) \<noteq> []"
    "sexp_bignum_sign (sexp_bignum_fxmul dst a b 0) = (if dst = None then 1 else sexp_bignum_sign a)"
    by simp_all
qed

lemma fxdiv_loop_val:
  assumes "b \<noteq> 0" "fxdiv_loop b ds = (qs, r)"
  shows "length qs = length ds \<and> dval qs = dval ds div unat b \<and> unat r = dval ds mod unat b"
  using assms(2)
proof (induction ds arbitrary: qs r)
  case (Cons d ds)
  obtain ps s where ps: "fxdiv_loop b ds = (ps, s)" by fastforce
  let ?n = "native_add (native_shl (native_from_uint s) 64) (native_from_uint d)"
  let ?q = "native_to_uint (native_div_uint ?n b)"
  have e: "qs = ?q # ps" "r = native_to_uint (native_sub ?n (native_mul_uint (native_from_uint ?q) b))"
    using Cons.prems by (simp_all add: ps Let_def)
  have b: "0 < unat b" using assms(1) by (simp add: unat_gt_0)
  have ih: "length ps = length ds" "dval ps = dval ds div unat b" "unat s = dval ds mod unat b"
    using Cons.IH [OF ps] by simp_all
  have "unat s < unat b" using b ih(3) by simp
  note st = native.div_step [OF refl this refl, of d, folded e(2)]
  let ?m = "unat s * 2 ^ 64 + unat d"
  have dv: "dval (d # ds) = ?m + unat b * (2 ^ 64 * dval ps)"
  proof -
    have "dval ds = unat s + unat b * dval ps" unfolding ih by simp
    then show ?thesis by (simp add: algebra_simps)
  qed
  have "dval (d # ds) div unat b = ?m div unat b + 2 ^ 64 * dval ps"
    "dval (d # ds) mod unat b = ?m mod unat b"
    unfolding dv using b by simp_all
  then show ?case using e(1) ih(1) st by simp
qed simp

lemma fxdiv_val:
  assumes "bignum_ok a" "b \<noteq> 0" "sexp_bignum_fxdiv a b 0 = (q, r)"
  shows "bn_nat q = bn_nat a div unat b" "unat r = bn_nat a mod unat b"
    "bignum_ok q" "sexp_bignum_sign q = sexp_bignum_sign a" "sexp_bignum_length q = sexp_bignum_length a"
proof -
  let ?len = "sexp_bignum_hi a" and ?data = "sexp_bignum_data a"
  obtain qs s where qs: "fxdiv_loop b (take ?len ?data) = (qs, s)" by fastforce
  have len: "?len \<le> length ?data" using assms by (simp add: hi_le_length bignum_ok_def)
  have l: "length qs = ?len" and v: "dval qs = bn_nat a div unat b" "unat s = bn_nat a mod unat b"
    using fxdiv_loop_val [OF assms(2) qs] len by (simp_all add: bn_nat_take_hi)
  have q: "q = a\<lparr>sexp_bignum_data := qs @ drop ?len ?data\<rparr>" "r = s"
    using assms(3) by (simp_all add: sexp_bignum_fxdiv_def qs Let_def)
  show "bn_nat q = bn_nat a div unat b" "unat r = bn_nat a mod unat b"
    using v by (simp_all add: q bn_nat_def drop_hi dval_zero_tail)
  show "sexp_bignum_sign q = sexp_bignum_sign a" by (simp add: q)
  show l: "sexp_bignum_length q = sexp_bignum_length a" using l len by (simp add: q)
  show "bignum_ok q" using assms(1) l by (auto simp: q bignum_ok_def)
qed

text \<open>The destination of an addition is fresh, the first operand itself, or too short to be reused.\<close>

lemma add_digits_ge_val:
  assumes "bignum_ok a" "bignum_ok b" "sexp_bignum_hi b \<le> sexp_bignum_hi a"
    "dst = None \<or> dst = Some a \<or> (\<exists>d. dst = Some d \<and> sexp_bignum_hi d < sexp_bignum_hi a)"
  shows "bn_nat (add_digits_ge dst a b) = bn_nat a + bn_nat b \<and> sexp_bignum_data (add_digits_ge dst a b) \<noteq> []"
proof -
  let ?m = "sexp_bignum_hi a" and ?n = "sexp_bignum_hi b"
  let ?A = "sexp_bignum_data a" and ?B = "sexp_bignum_data b"
  have lens: "?m \<le> length ?A" "?n \<le> length ?B" using assms by (simp_all add: hi_le_length bignum_ok_def)
  obtain cs c where cs: "add_loop 0 (take ?n ?A) (take ?n ?B) = (cs, c)" by fastforce
  obtain ds k where ds: "carry_loop c (drop ?n (take ?m ?A)) = (ds, k)" by fastforce
  have l1: "length (take ?n ?A) = ?n" "length (take ?n ?B) = ?n" using lens assms(3) by simp_all
  have c: "length cs = ?n" "dval cs + 2 ^ (64 * ?n) * unat c = dval (take ?n ?A) + bn_nat b" "c \<in> {0, 1}"
    using add_loop_val [OF cs] l1 by (simp_all add: bn_nat_take_hi)
  have l2: "length (drop ?n (take ?m ?A)) = ?m - ?n" using lens by simp
  have d: "length ds = ?m - ?n" "dval ds + 2 ^ (64 * (?m - ?n)) * unat k = dval (drop ?n (take ?m ?A)) + unat c"
    "k \<in> {0, 1}"
    using carry_loop_val [OF ds c(3)] unfolding l2 by simp_all
  have a: "bn_nat a = dval (take ?n ?A) + 2 ^ (64 * ?n) * dval (drop ?n (take ?m ?A))"
    using dval_split [of ?n "take ?m ?A"] lens assms(3) by (simp add: bn_nat_take_hi min_def)
  have p: "(2::nat) ^ (64 * ?m) = 2 ^ (64 * ?n) * 2 ^ (64 * (?m - ?n))"
    using assms(3) by (simp flip: power_add add: algebra_simps)
  have v: "dval (cs @ ds) + 2 ^ (64 * ?m) * unat k = bn_nat a + bn_nat b"
  proof -
    have "dval (cs @ ds) + 2 ^ (64 * ?m) * unat k
        = dval cs + 2 ^ (64 * ?n) * (dval ds + 2 ^ (64 * (?m - ?n)) * unat k)"
      unfolding p by (simp add: dval_append c(1) algebra_simps)
    also have "\<dots> = (dval cs + 2 ^ (64 * ?n) * unat c) + 2 ^ (64 * ?n) * dval (drop ?n (take ?m ?A))"
      unfolding d(2) by (simp add: algebra_simps)
    finally show ?thesis unfolding c(2) a by simp
  qed
  have l: "length (cs @ ds) = ?m" using c d assms(3) by simp
  have ne: "cs @ ds \<noteq> []" using l hi_pos [of a] by (metis length_0_conv less_irrefl)
  have sel: "(case dst of None \<Rightarrow> sexp_copy_bignum None a 0
      | Some d \<Rightarrow> if sexp_bignum_hi d \<ge> ?m then d else sexp_copy_bignum None a 0) = a"
    using assms(4) by (auto simp: copy_same)
  define es where "es = cs @ ds"
  let ?a = "a\<lparr>sexp_bignum_data := es @ drop ?m ?A\<rparr>"
  have "add_digits_ge dst a b
      = (if k \<noteq> 0 then (let c = sexp_copy_bignum None ?a (?m + 1)
                        in c\<lparr>sexp_bignum_data := (sexp_bignum_data c)[?m := 1]\<rparr>) else ?a)"
    unfolding add_digits_ge_def sel Let_def cs ds prod.case es_def by simp
  then show ?thesis
    using d(3) v l ne unfolding es_def [symmetric]
    by (auto simp: bn_nat_def drop_hi dval_zero_tail copy_extend Let_def list_update_append dval_append)
qed

lemma sub_digits_ge_val:
  assumes "bignum_ok a" "bignum_ok b" "bn_nat b \<le> bn_nat a"
  shows "bn_nat (sub_digits_ge None a b) = bn_nat a - bn_nat b \<and> sexp_bignum_data (sub_digits_ge None a b) \<noteq> []"
proof -
  let ?m = "sexp_bignum_hi a" and ?n = "sexp_bignum_hi b"
  let ?A = "sexp_bignum_data a" and ?B = "sexp_bignum_data b"
  have mn: "?n \<le> ?m" using bn_nat_hi_less [of a b] assms(3) by linarith
  have lens: "?m \<le> length ?A" "?n \<le> length ?B" using assms by (simp_all add: hi_le_length bignum_ok_def)
  obtain cs c where cs: "sub_loop 0 (take ?n ?A) (take ?n ?B) = (cs, c)" by fastforce
  have l1: "length (take ?n ?A) = ?n" "length (take ?n ?B) = ?n" using lens mn by simp_all
  have c: "length cs = ?n" "dval cs + bn_nat b = dval (take ?n ?A) + 2 ^ (64 * ?n) * unat c" "c \<in> {0, 1}"
    using sub_loop_val [OF cs] l1 by (simp_all add: bn_nat_take_hi)
  let ?R = "drop ?n (take ?m ?A)"
  have a: "bn_nat a = dval (take ?n ?A) + 2 ^ (64 * ?n) * dval ?R"
    using dval_split [of ?n "take ?m ?A"] lens mn by (simp add: bn_nat_take_hi min_def)
  have "unat c \<le> dval ?R"
  proof (rule ccontr)
    assume "\<not> unat c \<le> dval ?R"
    then have "unat c = 1" "dval ?R = 0" using c(3) by auto
    then have "bn_nat a = dval (take ?n ?A)" "dval cs + bn_nat b = dval (take ?n ?A) + 2 ^ (64 * ?n)"
      using a c(2) by simp_all
    moreover have "dval cs < 2 ^ (64 * ?n)" using dval_less [of cs] c(1) by simp
    ultimately show False using assms(3) by linarith
  qed
  from borrow_loop_val [OF c(3) this]
  have d: "length (borrow_loop c ?R) = length ?R" "dval (borrow_loop c ?R) + unat c = dval ?R" by simp_all
  have "dval (cs @ borrow_loop c ?R) + bn_nat b = bn_nat a"
  proof -
    have "dval (cs @ borrow_loop c ?R) + bn_nat b
        = (dval cs + bn_nat b) + 2 ^ (64 * ?n) * dval (borrow_loop c ?R)"
      by (simp add: dval_append c(1))
    also have "\<dots> = dval (take ?n ?A) + 2 ^ (64 * ?n) * (dval (borrow_loop c ?R) + unat c)"
      unfolding c(2) by (simp add: algebra_simps)
    finally show ?thesis unfolding a d(2) .
  qed
  moreover have "sub_digits_ge None a b = a\<lparr>sexp_bignum_data := (cs @ borrow_loop c ?R) @ drop ?m ?A\<rparr>"
    by (simp add: sub_digits_ge_def copy_same cs Let_def)
  moreover have "cs \<noteq> []" using c(1) hi_pos [of b] by (metis length_0_conv less_irrefl)
  ultimately show ?thesis by (auto simp: bn_nat_def drop_hi dval_append)
qed

lemma add_digits_val:
  assumes "bignum_ok a" "bignum_ok b" "dst = None \<or> dst = Some a"
  shows "bn_nat (sexp_bignum_add_digits dst a b) = bn_nat a + bn_nat b"
    and "sexp_bignum_data (sexp_bignum_add_digits dst a b) \<noteq> []"
  using assms add_digits_ge_val [of a b dst] add_digits_ge_val [of b a dst]
  by (auto simp: sexp_bignum_add_digits_def)

lemma sub_digits_val:
  assumes "bignum_ok a" "bignum_ok b"
  shows "int (bn_nat (sexp_bignum_sub_digits None a b)) = \<bar>int (bn_nat a) - int (bn_nat b)\<bar>"
    and "sexp_bignum_data (sexp_bignum_sub_digits None a b) \<noteq> []"
proof -
  have sw: "sexp_bignum_hi a < sexp_bignum_hi b \<or> sexp_bignum_hi a = sexp_bignum_hi b
      \<and> sexp_bignum_compare_abs a b < 0 \<longleftrightarrow> bn_nat a < bn_nat b"
    using compare_abs_neg [OF assms] bn_nat_hi_less [of a b] bn_nat_hi_less [of b a]
    by (metis less_asym linorder_neqE_nat)
  show "int (bn_nat (sexp_bignum_sub_digits None a b)) = \<bar>int (bn_nat a) - int (bn_nat b)\<bar>"
    "sexp_bignum_data (sexp_bignum_sub_digits None a b) \<noteq> []"
    using sub_digits_ge_val [OF assms] sub_digits_ge_val [OF assms(2,1)]
    unfolding sexp_bignum_sub_digits_def Let_def sw by (auto simp: of_nat_diff)
qed

lemma bignum_add_val:
  assumes "bignum_ok a" "bignum_ok b" "dst = None \<or> dst = Some a \<and> sexp_bignum_sign a = sexp_bignum_sign b"
  shows "bn_int (sexp_bignum_add dst a b) = bn_int a + bn_int b" and "bignum_ok (sexp_bignum_add dst a b)"
proof -
  have s: "sexp_bignum_sign a \<in> {1, - 1}" "sexp_bignum_sign b \<in> {1, - 1}"
    using assms by (simp_all add: bignum_ok_def)
  have "bn_int (sexp_bignum_add dst a b) = bn_int a + bn_int b \<and> bignum_ok (sexp_bignum_add dst a b)"
  proof (cases "sexp_bignum_sign a = sexp_bignum_sign b")
    case True
    have "dst = None \<or> dst = Some a" using assms(3) by auto
    from add_digits_val [OF assms(1,2) this] True s show ?thesis
      by (auto simp: sexp_bignum_add_def bn_int_def bn_nat_def bignum_ok_def)
  next
    case False
    then have "dst = None" using assms(3) by simp
    then show ?thesis
      using False s sub_digits_val [OF assms(1,2)] compare_abs_neg [OF assms(1,2)]
      by (auto simp: sexp_bignum_add_def bn_int_def bn_nat_def bignum_ok_def)
  qed
  then show "bn_int (sexp_bignum_add dst a b) = bn_int a + bn_int b" "bignum_ok (sexp_bignum_add dst a b)"
    by simp_all
qed

lemma bignum_sub_val:
  assumes "bignum_ok a" "bignum_ok b"
  shows "bn_int (sexp_bignum_sub None a b) = bn_int a - bn_int b" and "bignum_ok (sexp_bignum_sub None a b)"
proof -
  have s: "sexp_bignum_sign a \<in> {1, - 1}" "sexp_bignum_sign b \<in> {1, - 1}"
    using assms by (simp_all add: bignum_ok_def)
  have "bn_int (sexp_bignum_sub None a b) = bn_int a - bn_int b \<and> bignum_ok (sexp_bignum_sub None a b)"
    using s sub_digits_val [OF assms] compare_abs_neg [OF assms] add_digits_val [OF assms, of None]
    by (auto simp: sexp_bignum_sub_def bn_int_def bn_nat_def bignum_ok_def)
  then show "bn_int (sexp_bignum_sub None a b) = bn_int a - bn_int b" "bignum_ok (sexp_bignum_sub None a b)"
    by simp_all
qed

lemma bn_int_eq_nat: "sexp_bignum_sign a = 1 \<Longrightarrow> bn_int a = int (bn_nat a)"
  by (simp add: bn_int_def)

lemma abs_bn_int: "bignum_ok a \<Longrightarrow> \<bar>bn_int a\<bar> = int (bn_nat a)"
  by (auto simp: bn_int_def bignum_ok_def)

lemma bn_int_sign: "bignum_ok a \<Longrightarrow> bn_int a \<noteq> 0 \<Longrightarrow> sexp_bignum_sign a = sgn (bn_int a)"
  by (auto simp: bn_int_def bignum_ok_def sgn_mult)

lemma bn_nat_add_pos:
  assumes "bignum_ok a" "bignum_ok b" "sexp_bignum_sign a = 1" "sexp_bignum_sign b = 1" "dst = None \<or> dst = Some a"
  shows "bn_nat (sexp_bignum_add dst a b) = bn_nat a + bn_nat b" "sexp_bignum_sign (sexp_bignum_add dst a b) = 1"
  using assms add_digits_val [of a b dst]
  by (simp_all add: sexp_bignum_add_def bn_nat_def)

lemma bn_nat_sub_pos:
  assumes "bignum_ok a" "bignum_ok b" "sexp_bignum_sign a = 1" "sexp_bignum_sign b = 1" "bn_nat b \<le> bn_nat a"
  shows "bn_nat (sexp_bignum_sub None a b) = bn_nat a - bn_nat b" "sexp_bignum_sign (sexp_bignum_sub None a b) = 1"
  using assms sub_digits_val [of a b] compare_abs_neg [of a b]
  by (auto simp: sexp_bignum_sub_def bn_nat_def)

lemma drop_zero_cell: "drop n (replicate (Suc n) x) = [x]"
  by (induction n) simp_all

lemma split_val:
  assumes "sexp_bignum_split a k = (lo, hi)" "0 < k" "k < sexp_bignum_hi a"
  shows "bn_nat a = bn_nat lo + 2 ^ (64 * k) * bn_nat hi" "0 < bn_nat hi"
    "bignum_ok lo" "bignum_ok hi" "sexp_bignum_sign lo = 1" "sexp_bignum_sign hi = 1"
proof -
  let ?m = "sexp_bignum_hi a" and ?A = "sexp_bignum_data a"
  have m: "?m \<le> length ?A" using assms(2,3) by (intro hi_gt_1_length) linarith
  have e: "lo = \<lparr>sexp_bignum_sign = 1, sexp_bignum_data = take k ?A\<rparr>"
    "hi = \<lparr>sexp_bignum_sign = 1, sexp_bignum_data = drop k (take ?m ?A) @ [0]\<rparr>"
    using assms(1,3) drop_zero_cell [of "?m - k" 0]
    by (auto simp only: sexp_bignum_split_def Let_def sexp_make_bignum_def bignum.update_convs
        bignum.select_convs prod.inject Suc_eq_plus1)
  show v: "bn_nat a = bn_nat lo + 2 ^ (64 * k) * bn_nat hi"
    using dval_split [of k "take ?m ?A"] m assms(3) bn_nat_take_hi [of a]
    by (simp add: e bn_nat_def dval_append min_def)
  have "bn_nat lo < 2 ^ (64 * k)" using dval_take_less [of k ?A] by (simp add: e bn_nat_def)
  also have "\<dots> \<le> 2 ^ (64 * (?m - 1))" using assms(3) by (intro power_increasing) simp_all
  also have "\<dots> \<le> bn_nat a" using assms(2,3) by (intro bn_nat_ge_hi) linarith
  finally show "0 < bn_nat hi" using v by (cases "bn_nat hi") simp_all
  show "bignum_ok lo" "bignum_ok hi" "sexp_bignum_sign lo = 1" "sexp_bignum_sign hi = 1"
    using assms(2) m by (auto simp: e bignum_ok_def)
qed

lemma shift_val:
  assumes "bignum_ok a"
  shows "bn_nat (sexp_bignum_shift a k) = 2 ^ (64 * k) * bn_nat a" "bignum_ok (sexp_bignum_shift a k)"
    "sexp_bignum_sign (sexp_bignum_shift a k) = 1"
  using assms hi_le_length [of a] bn_nat_take_hi [of a]
  by (auto simp: sexp_bignum_shift_def Let_def bn_nat_def dval_append bignum_ok_def min_def
      simp del: replicate_Suc)

subsection \<open>Karatsuba multiplication\<close>

text \<open>
  \<open>sexp_bignum_mul\<close> terminates because the sum of the operands gets smaller: a split operand is
  \<open>a1 * B ^ k + a0\<close> with \<open>a1 > 0\<close> and \<open>k > 0\<close>, so \<open>a1 + a0 < a\<close>.
\<close>

lemma split_sum_less:
  assumes "sexp_bignum_split a k = (lo, hi)" "0 < k" "k < sexp_bignum_hi a"
  shows "bn_nat (sexp_bignum_add None hi lo) < bn_nat a" "bn_nat lo < bn_nat a" "bn_nat hi < bn_nat a"
proof -
  note v = split_val [OF assms]
  have "(2::nat) ^ 1 \<le> 2 ^ (64 * k)" using assms(2) by (intro power_increasing) simp_all
  then have "2 * bn_nat hi \<le> 2 ^ (64 * k) * bn_nat hi" by (intro mult_le_mono1) simp
  then have "bn_nat lo + 2 * bn_nat hi \<le> bn_nat a" using v(1) by linarith
  then show "bn_nat (sexp_bignum_add None hi lo) < bn_nat a" "bn_nat lo < bn_nat a" "bn_nat hi < bn_nat a"
    using v(2) unfolding bn_nat_add_pos(1) [OF v(4,3,6,5), of None, simplified] by linarith+
qed

lemma karatsuba_args:
  assumes "\<not> sexp_bignum_hi a < sexp_bignum_hi b" "sexp_bignum_hi b \<noteq> 1"
    "(a0, a1) = sexp_bignum_split a (sexp_bignum_hi b div 2)"
    "(b0, b1) = sexp_bignum_split b (sexp_bignum_hi b div 2)"
  shows "bn_nat (sexp_bignum_add None b1 b0) + bn_nat (sexp_bignum_add None a1 a0) < bn_nat a + bn_nat b"
    "bn_nat a0 + bn_nat b0 < bn_nat a + bn_nat b" "bn_nat a1 + bn_nat b1 < bn_nat a + bn_nat b"
proof -
  have "2 \<le> sexp_bignum_hi b" using assms(2) hi_pos [of b] by linarith
  then have k: "0 < sexp_bignum_hi b div 2" "sexp_bignum_hi b div 2 < sexp_bignum_hi b" by simp_all
  then have "sexp_bignum_hi b div 2 < sexp_bignum_hi a" using assms(1) by linarith
  note split_sum_less [OF assms(3) [symmetric] k(1) this] split_sum_less [OF assms(4) [symmetric] k]
  then show "bn_nat (sexp_bignum_add None b1 b0) + bn_nat (sexp_bignum_add None a1 a0) < bn_nat a + bn_nat b"
    "bn_nat a0 + bn_nat b0 < bn_nat a + bn_nat b" "bn_nat a1 + bn_nat b1 < bn_nat a + bn_nat b"
    by linarith+
qed

function sexp_bignum_mul :: "bignum option \<Rightarrow> bignum \<Rightarrow> bignum \<Rightarrow> bignum" where
  "sexp_bignum_mul dst a b =
    (let alen = sexp_bignum_hi a; blen = sexp_bignum_hi b
     in if alen < blen then sexp_bignum_mul dst b a
        else
          (let z1 =
             (if blen = 1 then sexp_bignum_fxmul dst a (sexp_bignum_data b ! 0) 0
              else
                (let k = blen div 2;
                     (a0, a1) = sexp_bignum_split a k;
                     (b0, b1) = sexp_bignum_split b k;
                     z0 = sexp_bignum_add None a1 a0;
                     z1 = sexp_bignum_add None b1 b0;
                     z1 = sexp_bignum_mul None z1 z0;
                     z0 = sexp_bignum_mul None a0 b0;
                     z2 = sexp_bignum_mul None a1 b1;
                     z1 = sexp_bignum_sub None z1 z0;
                     z1 = sexp_bignum_sub None z1 z2;
                     z2 = sexp_bignum_shift z2 (2 * k);
                     z1 = sexp_bignum_shift z1 k;
                     z1 = sexp_bignum_add (Some z1) z1 z0
                 in sexp_bignum_add (Some z1) z1 z2))
           in z1\<lparr>sexp_bignum_sign := sexp_bignum_sign a * sexp_bignum_sign b\<rparr>))"
  by pat_completeness auto
termination
proof (relation "measures [\<lambda>(dst, a, b). bn_nat a + bn_nat b,
    \<lambda>(dst, a, b). if sexp_bignum_hi a < sexp_bignum_hi b then 1 else 0]", goal_cases)
  case 1
  show ?case by simp
next
  case 2
  then show ?case by simp
next
  case 3
  then show ?case using karatsuba_args(1) by simp
next
  case 4
  then show ?case using karatsuba_args(2) by simp
next
  case 5
  then show ?case using karatsuba_args(3) by simp
qed

declare sexp_bignum_mul.simps [simp del]

lemma karatsuba_identity:
  fixes a0 a1 b0 b1 K :: nat
  shows "(b1 + b0) * (a1 + a0) - a0 * b0 - a1 * b1 = a0 * b1 + a1 * b0"
    and "a0 * b0 + K * (a0 * b1 + a1 * b0) + K * K * (a1 * b1) = (a0 + K * a1) * (b0 + K * b1)"
  by (simp_all add: algebra_simps)

lemma mul_swap: "sexp_bignum_hi a < sexp_bignum_hi b \<Longrightarrow> sexp_bignum_mul dst a b = sexp_bignum_mul dst b a"
  by (subst sexp_bignum_mul.simps) simp

lemma mul_digit:
  "\<not> sexp_bignum_hi a < sexp_bignum_hi b \<Longrightarrow> sexp_bignum_hi b = 1 \<Longrightarrow>
   sexp_bignum_mul dst a b = (sexp_bignum_fxmul dst a (sexp_bignum_data b ! 0) 0)
     \<lparr>sexp_bignum_sign := sexp_bignum_sign a * sexp_bignum_sign b\<rparr>"
  by (subst sexp_bignum_mul.simps) simp

lemma mul_karatsuba:
  assumes "\<not> sexp_bignum_hi a < sexp_bignum_hi b" "sexp_bignum_hi b \<noteq> 1" "k = sexp_bignum_hi b div 2"
    "sexp_bignum_split a k = (a0, a1)" "sexp_bignum_split b k = (b0, b1)"
    "zz = sexp_bignum_mul None (sexp_bignum_add None b1 b0) (sexp_bignum_add None a1 a0)"
    "z0 = sexp_bignum_mul None a0 b0" "z2 = sexp_bignum_mul None a1 b1"
    "z1 = sexp_bignum_shift (sexp_bignum_sub None (sexp_bignum_sub None zz z0) z2) k"
    "y = sexp_bignum_add (Some z1) z1 z0"
  shows "sexp_bignum_mul dst a b = (sexp_bignum_add (Some y) y (sexp_bignum_shift z2 (2 * k)))
     \<lparr>sexp_bignum_sign := sexp_bignum_sign a * sexp_bignum_sign b\<rparr>"
  unfolding assms(6-10) using assms(1-5) by (subst sexp_bignum_mul.simps) (simp add: Let_def)

definition mul_right :: "bignum \<Rightarrow> bignum \<Rightarrow> bool" where
  "mul_right a b \<longleftrightarrow> bn_nat (sexp_bignum_mul None a b) = bn_nat a * bn_nat b
    \<and> sexp_bignum_sign (sexp_bignum_mul None a b) = sexp_bignum_sign a * sexp_bignum_sign b
    \<and> bignum_ok (sexp_bignum_mul None a b)"

lemma mul_right_karatsuba:
  assumes ok: "bignum_ok a" "bignum_ok b" and hi: "\<not> sexp_bignum_hi a < sexp_bignum_hi b" "sexp_bignum_hi b \<noteq> 1"
    and ih: "\<And>x y. bn_nat x + bn_nat y < bn_nat a + bn_nat b \<Longrightarrow> bignum_ok x \<Longrightarrow> bignum_ok y \<Longrightarrow> mul_right x y"
  shows "mul_right a b"
proof -
  define k where "k = sexp_bignum_hi b div 2"
  obtain a0 a1 where a: "sexp_bignum_split a k = (a0, a1)" by fastforce
  obtain b0 b1 where b: "sexp_bignum_split b k = (b0, b1)" by fastforce
  have "2 \<le> sexp_bignum_hi b" using hi(2) hi_pos [of b] by linarith
  then have k: "0 < k" "k < sexp_bignum_hi b" "k < sexp_bignum_hi a" using hi by (simp_all add: k_def)
  note va = split_val [OF a k(1,3)] and vb = split_val [OF b k(1,2)]
  note less = karatsuba_args [OF hi, folded k_def, OF a [symmetric] b [symmetric]]
  have sa: "bn_nat (sexp_bignum_add None a1 a0) = bn_nat a1 + bn_nat a0"
    "sexp_bignum_sign (sexp_bignum_add None a1 a0) = 1" "bignum_ok (sexp_bignum_add None a1 a0)"
    using va bn_nat_add_pos bignum_add_val by simp_all
  have sb: "bn_nat (sexp_bignum_add None b1 b0) = bn_nat b1 + bn_nat b0"
    "sexp_bignum_sign (sexp_bignum_add None b1 b0) = 1" "bignum_ok (sexp_bignum_add None b1 b0)"
    using vb bn_nat_add_pos bignum_add_val by simp_all
  define zz where "zz = sexp_bignum_mul None (sexp_bignum_add None b1 b0) (sexp_bignum_add None a1 a0)"
  define z0 where "z0 = sexp_bignum_mul None a0 b0"
  define z2 where "z2 = sexp_bignum_mul None a1 b1"
  have zz: "bn_nat zz = (bn_nat b1 + bn_nat b0) * (bn_nat a1 + bn_nat a0)" "sexp_bignum_sign zz = 1" "bignum_ok zz"
    using ih [OF less(1) sb(3) sa(3)] by (simp_all add: mul_right_def zz_def sa sb)
  have z0: "bn_nat z0 = bn_nat a0 * bn_nat b0" "sexp_bignum_sign z0 = 1" "bignum_ok z0"
    using ih [OF less(2) va(3) vb(3)] by (simp_all add: mul_right_def z0_def va vb)
  have z2: "bn_nat z2 = bn_nat a1 * bn_nat b1" "sexp_bignum_sign z2 = 1" "bignum_ok z2"
    using ih [OF less(3) va(4) vb(4)] by (simp_all add: mul_right_def z2_def va vb)
  define d1 where "d1 = sexp_bignum_sub None zz z0"
  have d1: "bn_nat d1 = bn_nat zz - bn_nat z0" "sexp_bignum_sign d1 = 1" "bignum_ok d1"
    unfolding d1_def using zz z0 by (simp_all add: bn_nat_sub_pos bignum_sub_val algebra_simps)
  define d2 where "d2 = sexp_bignum_sub None d1 z2"
  have d2: "bn_nat d2 = bn_nat a0 * bn_nat b1 + bn_nat a1 * bn_nat b0" "sexp_bignum_sign d2 = 1" "bignum_ok d2"
    unfolding d2_def using d1 z2 zz z0 karatsuba_identity(1) [of "bn_nat b1" "bn_nat b0" "bn_nat a1" "bn_nat a0"]
    by (simp_all add: bn_nat_sub_pos bignum_sub_val algebra_simps)
  define z1 where "z1 = sexp_bignum_shift d2 k"
  note z1 = shift_val [OF d2(3), of k, folded z1_def]
  define y where "y = sexp_bignum_add (Some z1) z1 z0"
  have y: "bn_nat y = bn_nat z1 + bn_nat z0" "sexp_bignum_sign y = 1" "bignum_ok y"
    unfolding y_def using z1 z0 by (simp_all add: bn_nat_add_pos bignum_add_val)
  note s2 = shift_val [OF z2(3), of "2 * k"]
  let ?r = "sexp_bignum_add (Some y) y (sexp_bignum_shift z2 (2 * k))"
  have r: "bn_nat ?r = bn_nat y + bn_nat (sexp_bignum_shift z2 (2 * k))" "bignum_ok ?r"
    using y s2 by (simp_all add: bn_nat_add_pos bignum_add_val)
  have "sexp_bignum_mul None a b = ?r\<lparr>sexp_bignum_sign := sexp_bignum_sign a * sexp_bignum_sign b\<rparr>"
    by (rule mul_karatsuba [OF hi k_def a b zz_def z0_def z2_def _ y_def])
      (simp add: z1_def d2_def d1_def)
  moreover have "bn_nat ?r = bn_nat a * bn_nat b"
    unfolding r y z1 s2 z0 z2 d2 va(1) vb(1)
    using karatsuba_identity(2) [of "bn_nat a0" "bn_nat b0" "2 ^ (64 * k)" "bn_nat b1" "bn_nat a1"]
    by (simp add: algebra_simps flip: power_add)
  ultimately show ?thesis
    using r ok by (auto simp: mul_right_def bn_nat_def bignum_ok_def)
qed

lemma mul_right_digit:
  assumes "bignum_ok a" "bignum_ok b" "\<not> sexp_bignum_hi a < sexp_bignum_hi b" "sexp_bignum_hi b = 1"
  shows "mul_right a b"
proof -
  have "bn_nat b = unat (sexp_bignum_data b ! 0)" using assms by (intro bn_nat_hi_1) (simp_all add: bignum_ok_def)
  then show ?thesis
    using assms fxmul_val [of a None "sexp_bignum_data b ! 0"]
    by (auto simp: mul_right_def mul_digit bignum_ok_def bn_nat_def)
qed

lemma mul_right_all: "bignum_ok a \<Longrightarrow> bignum_ok b \<Longrightarrow> mul_right a b"
proof (induction "bn_nat a + bn_nat b" arbitrary: a b rule: less_induct)
  case less
  have main: "mul_right x y"
    if "bignum_ok x" "bignum_ok y" "bn_nat x + bn_nat y = bn_nat a + bn_nat b" "\<not> sexp_bignum_hi x < sexp_bignum_hi y" for x y
    using mul_right_karatsuba [OF that(1,2,4)] mul_right_digit [OF that(1,2,4)] less.hyps that(3) by metis
  show ?case
  proof (cases "sexp_bignum_hi a < sexp_bignum_hi b")
    case True
    then show ?thesis using main [of b a] less.prems by (simp add: mul_right_def mul_swap [OF True] mult.commute)
  qed (use main [of a b] less.prems in simp)
qed

lemma bignum_mul_val:
  assumes "bignum_ok a" "bignum_ok b"
  shows "bn_int (sexp_bignum_mul None a b) = bn_int a * bn_int b" and "bignum_ok (sexp_bignum_mul None a b)"
    and "bn_nat (sexp_bignum_mul None a b) = bn_nat a * bn_nat b"
    and "sexp_bignum_sign (sexp_bignum_mul None a b) = sexp_bignum_sign a * sexp_bignum_sign b"
  using mul_right_all [OF assms] by (simp_all add: mul_right_def bn_int_def)

subsection \<open>Exponentiation by squaring\<close>

fun expt_loop :: "nat \<Rightarrow> bignum \<Rightarrow> bignum \<Rightarrow> bignum" where
  "expt_loop abs_e acc res =
    (if abs_e = 0 then res
     else expt_loop (abs_e div 2) (sexp_bignum_mul None acc acc)
            (if odd abs_e then sexp_bignum_mul None res acc else res))"

declare expt_loop.simps [simp del]

lemma expt_loop_val:
  assumes "bignum_ok acc" "bignum_ok res"
  shows "bn_int (expt_loop e acc res) = bn_int res * bn_int acc ^ e \<and> bignum_ok (expt_loop e acc res)"
  using assms
proof (induction e acc res rule: expt_loop.induct)
  case (1 e acc res)
  show ?case
  proof (cases "e = 0")
    case True
    then show ?thesis using "1.prems" by (simp add: expt_loop.simps)
  next
    case False
    let ?res = "if odd e then sexp_bignum_mul None res acc else res"
    let ?acc = "sexp_bignum_mul None acc acc"
    have acc: "bignum_ok ?acc" "bn_int ?acc = bn_int acc * bn_int acc"
      using bignum_mul_val "1.prems" by simp_all
    have res: "bignum_ok ?res" "bn_int ?res = bn_int res * bn_int acc ^ (e mod 2)"
      using bignum_mul_val "1.prems" by (simp_all add: odd_iff_mod_2_eq_one)
    have "bn_int acc ^ (e mod 2) * (bn_int acc * bn_int acc) ^ (e div 2) = bn_int acc ^ e"
      by (simp add: power_add [symmetric] power_mult [symmetric] flip: power2_eq_square)
    then show ?thesis
      using 1(1) [OF False acc(1) res(1)] acc(2) res(2) False
      by (simp add: expt_loop.simps [of e] mult.assoc)
  qed
qed

subsection \<open>Properties\<close>

text \<open>
  C19.  Schoolbook addition and subtraction on signed digit arrays compute the exact integer sum and
  difference, for every combination of signs and lengths, and return well-formed bignums.
\<close>

theorem bignum_add_sub_exact:
  assumes "bignum_ok a" and "bignum_ok b"
  shows "bn_int (sexp_bignum_add None a b) = bn_int a + bn_int b \<and> bignum_ok (sexp_bignum_add None a b)
    \<and> bn_int (sexp_bignum_sub None a b) = bn_int a - bn_int b \<and> bignum_ok (sexp_bignum_sub None a b)"
  using bignum_add_val [OF assms] bignum_sub_val [OF assms] by simp

theorem bignum_add_sub_exact_witness:
  "bn_int (sexp_bignum_add None \<lparr>sexp_bignum_sign = 1, sexp_bignum_data = [- 1]\<rparr>
      \<lparr>sexp_bignum_sign = 1, sexp_bignum_data = [1]\<rparr>) = 2 ^ 64
   \<and> bn_int (sexp_bignum_sub None \<lparr>sexp_bignum_sign = 1, sexp_bignum_data = [- 1]\<rparr>
      \<lparr>sexp_bignum_sign = - 1, sexp_bignum_data = [1]\<rparr>) = 2 ^ 64"
  using bignum_add_sub_exact [of "\<lparr>sexp_bignum_sign = 1, sexp_bignum_data = [- 1]\<rparr>"
      "\<lparr>sexp_bignum_sign = 1, sexp_bignum_data = [1]\<rparr>"]
    bignum_add_sub_exact [of "\<lparr>sexp_bignum_sign = 1, sexp_bignum_data = [- 1]\<rparr>"
      "\<lparr>sexp_bignum_sign = - 1, sexp_bignum_data = [1]\<rparr>"]
  by (simp add: bignum_ok_def bn_int_def bn_nat_def unsigned_minus_1_eq_mask mask_eq_exp_minus_1)

text \<open>
  C2.  Karatsuba multiplication terminates and equals the exact product, including the splits, the
  shifted additions and the signed middle term of every recursive call.
\<close>

theorem bignum_mul_exact:
  assumes "bignum_ok a" and "bignum_ok b"
  shows "bn_int (sexp_bignum_mul None a b) = bn_int a * bn_int b \<and> bignum_ok (sexp_bignum_mul None a b)"
  using bignum_mul_val [OF assms] by simp

theorem bignum_mul_exact_witness:
  "bn_int (sexp_bignum_mul None \<lparr>sexp_bignum_sign = - 1, sexp_bignum_data = [5, 0, 1]\<rparr>
      \<lparr>sexp_bignum_sign = 1, sexp_bignum_data = [0, 3]\<rparr>) = - ((5 + 2 ^ 128) * (3 * 2 ^ 64))"
  using bignum_mul_exact [of "\<lparr>sexp_bignum_sign = - 1, sexp_bignum_data = [5, 0, 1]\<rparr>"
      "\<lparr>sexp_bignum_sign = 1, sexp_bignum_data = [0, 3]\<rparr>"]
  by (simp add: bignum_ok_def bn_int_def bn_nat_def)

text \<open>
  The one-digit routines are exact: multiplication by a machine word, in place or into a new
  bignum, and division with remainder by a non-zero machine word.
\<close>

lemma bignum_digit_mul_div:
  assumes "bignum_ok a" and "w \<noteq> 0"
  shows "bn_nat (sexp_bignum_fxmul None a w 0) = bn_nat a * unat w
    \<and> bn_nat (sexp_bignum_fxmul (Some a) a w 0) = bn_nat a * unat w
    \<and> bn_nat (fst (sexp_bignum_fxdiv a w 0)) = bn_nat a div unat w
    \<and> unat (snd (sexp_bignum_fxdiv a w 0)) = bn_nat a mod unat w"
  using assms fxmul_val(1) [of a None w] fxmul_val(1) [of a "Some a" w]
    fxdiv_val(1,2) [OF assms prod.collapse [symmetric]]
  by (simp add: bignum_ok_def)

lemma bignum_digit_mul_div_witness:
  "unat (snd (sexp_bignum_fxdiv \<lparr>sexp_bignum_sign = 1, sexp_bignum_data = [3, 1]\<rparr> 10 0)) = 9"
  using bignum_digit_mul_div [of "\<lparr>sexp_bignum_sign = 1, sexp_bignum_data = [3, 1]\<rparr>" 10]
  by (simp add: bignum_ok_def bn_nat_def)

end
