(* ===== verification/Numbers.thy ===== *)
theory Numbers
  imports Bignum
begin

text \<open>
  The numeric tower, \<^verbatim>\<open>bignum.c\<close> from the generic arithmetic on, with the number constructors of
  \<^verbatim>\<open>sexp.c\<close> and the conversions of \<^verbatim>\<open>eval.c\<close>.  A value is a tagged word, or a heap object given
  by its contents; an exception object is a value too.  Arithmetic on doubles is IEEE arithmetic of
  the machine and of libm: it is the parameter \<open>F\<close>, a record of operations on a type \<open>'f\<close>.

  The C functions call each other: \<open>sexp_add\<close> on ratios multiplies, the ratio normaliser divides,
  bignum division adds.  Every function therefore takes the record \<open>N\<close> of the arithmetic entry
  points it calls, and \<open>arith F n\<close> ties the knot up to call depth \<open>n\<close>.  Results are \<open>option\<close>
  values: \<open>None\<close> is a call that does not return (the depth is exhausted, a loop runs forever, or
  the machine traps a division by zero).
\<close>

subsection \<open>Values\<close>

datatype excn = Type_error nat | Xtype_error string | Read_error string

datatype 'f sexp =
    IMM u64
  | FLONUM 'f
  | BIGNUM bignum
  | RATIO "'f sexp" "'f sexp"
  | COMPLEX "'f sexp" "'f sexp"
  | EXCEPTION excn "'f sexp"
  | OBJECT nat

definition SEXP_MAKE_IMMEDIATE :: "u64 \<Rightarrow> 'f sexp" where
  "SEXP_MAKE_IMMEDIATE n = IMM (push_bit 8 n + 62)"

definition SEXP_FALSE :: "'f sexp" where "SEXP_FALSE = SEXP_MAKE_IMMEDIATE 0"
definition SEXP_VOID :: "'f sexp" where "SEXP_VOID = SEXP_MAKE_IMMEDIATE 4"

definition make_fixnum :: "u64 \<Rightarrow> 'f sexp" where "make_fixnum n = IMM (sexp_make_fixnum n)"

definition SEXP_NEG_ONE :: "'f sexp" where "SEXP_NEG_ONE = make_fixnum (- 1)"
definition SEXP_ZERO :: "'f sexp" where "SEXP_ZERO = make_fixnum 0"
definition SEXP_ONE :: "'f sexp" where "SEXP_ONE = make_fixnum 1"
definition SEXP_TWO :: "'f sexp" where "SEXP_TWO = make_fixnum 2"
definition SEXP_TEN :: "'f sexp" where "SEXP_TEN = make_fixnum 10"

definition SEXP_FIXNUM :: nat where "SEXP_FIXNUM = 2"
definition SEXP_NUMBER :: nat where "SEXP_NUMBER = 3"
definition SEXP_FLONUM :: nat where "SEXP_FLONUM = 11"
definition SEXP_BIGNUM :: nat where "SEXP_BIGNUM = 12"

definition sexp_type_exception :: "nat \<Rightarrow> 'f sexp \<Rightarrow> 'f sexp" where
  "sexp_type_exception type_id obj = EXCEPTION (Type_error type_id) obj"

definition sexp_xtype_exception :: "string \<Rightarrow> 'f sexp \<Rightarrow> 'f sexp" where
  "sexp_xtype_exception msg obj = EXCEPTION (Xtype_error msg) obj"

text \<open>Tag tests and field accessors; an accessor is only applied to an object of its type.\<close>

fun sexp_fixnump :: "'f sexp \<Rightarrow> bool" where
  "sexp_fixnump (IMM w) = sexp_fixnump_w w" | "sexp_fixnump _ = False"

fun sexp_flonump :: "'f sexp \<Rightarrow> bool" where
  "sexp_flonump (FLONUM _) = True" | "sexp_flonump _ = False"

fun sexp_bignump :: "'f sexp \<Rightarrow> bool" where
  "sexp_bignump (BIGNUM _) = True" | "sexp_bignump _ = False"

fun sexp_ratiop :: "'f sexp \<Rightarrow> bool" where
  "sexp_ratiop (RATIO _ _) = True" | "sexp_ratiop _ = False"

fun sexp_complexp :: "'f sexp \<Rightarrow> bool" where
  "sexp_complexp (COMPLEX _ _) = True" | "sexp_complexp _ = False"

fun sexp_exceptionp :: "'f sexp \<Rightarrow> bool" where
  "sexp_exceptionp (EXCEPTION _ _) = True" | "sexp_exceptionp _ = False"

fun imm_word :: "'f sexp \<Rightarrow> u64" where "imm_word (IMM w) = w"
fun sexp_flonum_value :: "'f sexp \<Rightarrow> 'f" where "sexp_flonum_value (FLONUM f) = f"
fun bignum_object :: "'f sexp \<Rightarrow> bignum" where "bignum_object (BIGNUM b) = b"
fun sexp_ratio_numerator :: "'f sexp \<Rightarrow> 'f sexp" where "sexp_ratio_numerator (RATIO n d) = n"
fun sexp_ratio_denominator :: "'f sexp \<Rightarrow> 'f sexp" where "sexp_ratio_denominator (RATIO n d) = d"
fun sexp_complex_real :: "'f sexp \<Rightarrow> 'f sexp" where "sexp_complex_real (COMPLEX r i) = r"
fun sexp_complex_imag :: "'f sexp \<Rightarrow> 'f sexp" where "sexp_complex_imag (COMPLEX r i) = i"

definition unbox_fixnum :: "'f sexp \<Rightarrow> u64" where
  "unbox_fixnum x = sexp_unbox_fixnum (imm_word x)"

definition sexp_exact_integerp :: "'f sexp \<Rightarrow> bool" where
  "sexp_exact_integerp x \<longleftrightarrow> sexp_fixnump x \<or> sexp_bignump x"

definition sexp_exactp :: "'f sexp \<Rightarrow> bool" where
  "sexp_exactp x \<longleftrightarrow> sexp_exact_integerp x \<or> sexp_ratiop x"

definition sexp_exact_negativep :: "'f sexp \<Rightarrow> bool" where
  "sexp_exact_negativep x \<longleftrightarrow>
    (if sexp_fixnump x then sint (unbox_fixnum x) < 0
     else sexp_bignump x \<and> sexp_bignum_sign (bignum_object x) < 0)"

definition sexp_exact_positivep :: "'f sexp \<Rightarrow> bool" where
  "sexp_exact_positivep x \<longleftrightarrow>
    (if sexp_fixnump x then sint (unbox_fixnum x) > 0
     else sexp_bignump x \<and> sexp_bignum_sign (bignum_object x) > 0)"

definition sexp_oddp :: "'f sexp \<Rightarrow> bool" where
  "sexp_oddp x \<longleftrightarrow>
    (if sexp_fixnump x then unbox_fixnum x AND 1 \<noteq> 0
     else sexp_bignump x \<and> sexp_bignum_data (bignum_object x) ! 0 AND 1 \<noteq> 0)"

subsection \<open>Floating point operations\<close>

record 'f flo_ops =
  f_add :: "'f \<Rightarrow> 'f \<Rightarrow> 'f"
  f_sub :: "'f \<Rightarrow> 'f \<Rightarrow> 'f"
  f_mul :: "'f \<Rightarrow> 'f \<Rightarrow> 'f"
  f_div :: "'f \<Rightarrow> 'f \<Rightarrow> 'f"
  f_neg :: "'f \<Rightarrow> 'f"
  f_abs :: "'f \<Rightarrow> 'f"
  f_trunc :: "'f \<Rightarrow> 'f"
  f_fmod :: "'f \<Rightarrow> 'f \<Rightarrow> 'f"
  f_lt :: "'f \<Rightarrow> 'f \<Rightarrow> bool"
  f_le :: "'f \<Rightarrow> 'f \<Rightarrow> bool"
  f_eq :: "'f \<Rightarrow> 'f \<Rightarrow> bool"
  f_of_int :: "int \<Rightarrow> 'f"
  f_to_int :: "'f \<Rightarrow> int"
  f_isinf :: "'f \<Rightarrow> bool"
  f_isnan :: "'f \<Rightarrow> bool"

definition f_isfinite :: "'f flo_ops \<Rightarrow> 'f \<Rightarrow> bool" where
  "f_isfinite F f \<longleftrightarrow> \<not> f_isinf F f \<and> \<not> f_isnan F f"

definition sexp_fixnum_to_double :: "'f flo_ops \<Rightarrow> 'f sexp \<Rightarrow> 'f" where
  "sexp_fixnum_to_double F x = f_of_int F (sint (unbox_fixnum x))"

definition sexp_bignum_to_double :: "'f flo_ops \<Rightarrow> bignum \<Rightarrow> 'f" where
  "sexp_bignum_to_double F a =
    f_mul F
      (foldr (\<lambda>d res. f_add F (f_mul F res (f_add F (f_of_int F (2 ^ 64 - 1)) (f_of_int F 1))) (f_of_int F (uint d)))
        (take (sexp_bignum_hi a) (sexp_bignum_data a)) (f_of_int F 0))
      (f_of_int F (sexp_bignum_sign a))"

subsection \<open>Negation\<close>

fun sexp_negate_exact :: "'f sexp \<Rightarrow> 'f sexp" where
  "sexp_negate_exact (BIGNUM b) = BIGNUM (b\<lparr>sexp_bignum_sign := - sexp_bignum_sign b\<rparr>)"
| "sexp_negate_exact (IMM w) = (if sexp_fixnump_w w then IMM (sexp_fx_neg w) else IMM w)"
| "sexp_negate_exact x = x"

definition sexp_negate :: "'f flo_ops \<Rightarrow> 'f sexp \<Rightarrow> 'f sexp" where
  "sexp_negate F x = (if sexp_flonump x then FLONUM (f_neg F (sexp_flonum_value x)) else sexp_negate_exact x)"

definition sexp_negate_maybe_ratio :: "'f flo_ops \<Rightarrow> 'f sexp \<Rightarrow> 'f sexp" where
  "sexp_negate_maybe_ratio F x =
    (if sexp_ratiop x
     then RATIO (sexp_negate_exact (sexp_ratio_numerator x)) (sexp_ratio_denominator x)
     else sexp_negate F x)"

subsection \<open>Integers\<close>

fun sexp_bignum_normalize :: "'f sexp \<Rightarrow> 'f sexp" where
  "sexp_bignum_normalize (BIGNUM a) =
    (if sexp_bignum_hi a > 1 then BIGNUM a
     else (let data = sexp_bignum_data a
           in if data ! 0 > SEXP_MAX_FIXNUM \<and> \<not> (sexp_bignum_sign a = - 1 \<and> data ! 0 = SEXP_MAX_FIXNUM + 1)
              then BIGNUM a
              else make_fixnum (data ! 0 * word_of_int (sexp_bignum_sign a))))"
| "sexp_bignum_normalize a = a"

declare sexp_bignum_normalize.simps(1) [simp del]

definition sexp_make_integer_from_lsint :: "u128 \<Rightarrow> 'f sexp" where
  "sexp_make_integer_from_lsint x =
    (let lo = native_to_uint x; hi = native_to_sint_hi x in
     if native_lsint_is_fixnum x then make_fixnum lo
     else if native_fits_sint x then
       (if native_lt_0 x then BIGNUM \<lparr>sexp_bignum_sign = - 1, sexp_bignum_data = [- lo]\<rparr>
        else BIGNUM \<lparr>sexp_bignum_sign = 1, sexp_bignum_data = [lo]\<rparr>)
     else
       (if native_lt_0 x then BIGNUM \<lparr>sexp_bignum_sign = - 1, sexp_bignum_data = [- lo, NOT hi]\<rparr>
        else BIGNUM \<lparr>sexp_bignum_sign = 1, sexp_bignum_data = [lo, hi]\<rparr>))"

definition sexp_make_unsigned_integer_from_luint :: "u128 \<Rightarrow> 'f sexp" where
  "sexp_make_unsigned_integer_from_luint x =
    (if native_luint_is_fixnum x then make_fixnum (native_to_uint x)
     else if native_fits_uint x then BIGNUM \<lparr>sexp_bignum_sign = 1, sexp_bignum_data = [native_to_uint x]\<rparr>
     else BIGNUM \<lparr>sexp_bignum_sign = 1, sexp_bignum_data = [native_to_uint x, native_to_uint_hi x]\<rparr>)"

fun fxrem_loop :: "u64 \<Rightarrow> u64 list \<Rightarrow> u128" where
  "fxrem_loop b [] = native_from_uint 0"
| "fxrem_loop b (d # ds) =
    (let n = native_add (native_shl (fxrem_loop b ds) 64) (native_from_uint d);
         q = native_to_uint (native_div_uint n b)
     in native_sub n (native_mul_uint (native_from_uint q) b))"

definition sexp_bignum_fxrem :: "bignum \<Rightarrow> u64 \<Rightarrow> 'f sexp" where
  "sexp_bignum_fxrem a b =
    (let data = sexp_bignum_data a; sgn = word_of_int (sexp_bignum_sign a); q = b - 1
     in if sint b > 0 \<and> b AND q = 0 then make_fixnum (sgn * (data ! 0 AND q))
        else (let b0 = (if sint b \<ge> 0 then b else - b)
              in if b0 = 0 then sexp_xtype_exception ''divide by zero'' (BIGNUM a)
                 else make_fixnum (sgn * native_to_uint (fxrem_loop b0 (take (sexp_bignum_hi a) data)))))"

subsection \<open>The arithmetic entry points\<close>

record 'f arith =
  r_add :: "'f sexp \<Rightarrow> 'f sexp \<Rightarrow> 'f sexp option"
  r_sub :: "'f sexp \<Rightarrow> 'f sexp \<Rightarrow> 'f sexp option"
  r_mul :: "'f sexp \<Rightarrow> 'f sexp \<Rightarrow> 'f sexp option"
  r_div :: "'f sexp \<Rightarrow> 'f sexp \<Rightarrow> 'f sexp option"
  r_quotient :: "'f sexp \<Rightarrow> 'f sexp \<Rightarrow> 'f sexp option"
  r_remainder :: "'f sexp \<Rightarrow> 'f sexp \<Rightarrow> 'f sexp option"
  r_compare :: "'f sexp \<Rightarrow> 'f sexp \<Rightarrow> 'f sexp option"
  r_inexact_to_exact :: "'f sexp \<Rightarrow> 'f sexp option"

subsection \<open>Bignum division\<close>

definition top_digits :: "u64 list \<Rightarrow> nat \<Rightarrow> u128" where
  "top_digits data len = native_add_uint (native_shl (native_from_uint (data ! (len - 1))) 64) (data ! (len - 2))"

definition small_top :: "u64 \<Rightarrow> bool" where
  "small_top d \<longleftrightarrow> native_lt (native_from_uint d) (native_shl (native_from_uint 1) 32)"

definition more_digits :: "u128 \<Rightarrow> u64 \<Rightarrow> u128" where
  "more_digits n d = native_add_uint (native_shl n 32) (drop_bit 32 d)"

text \<open>The estimate of \<open>sexp_bignum_quot_rem\<close>: the digit pair \<open>d\<close> and its offset \<open>off\<close>.\<close>

definition quot_guess :: "bignum \<Rightarrow> bignum \<Rightarrow> u128 \<times> nat" where
  "quot_guess a1 b1 =
    (let alen = sexp_bignum_hi a1; blen = sexp_bignum_hi b1;
         adata = sexp_bignum_data a1; bdata = sexp_bignum_data b1;
         off = alen - blen + 1;
         dn = top_digits adata alen;
         dd = top_digits bdata blen;
         small = small_top (adata ! (alen - 1)) \<and> small_top (bdata ! (blen - 1));
         (dn, dd) = (if alen > 2 \<and> blen > 2 \<and> small
                     then (more_digits dn (adata ! (alen - 3)), more_digits dd (bdata ! (blen - 3)))
                     else (dn, dd));
         d = native_div dn dd
     in if native_eq d (native_from_uint 0)
        then (let dn = top_digits adata alen;
                  dd = native_from_uint (bdata ! (blen - 1));
                  (dn, dd) = (if small
                              then (more_digits dn (adata ! (alen - 3)), more_digits dd (bdata ! (blen - 2)))
                              else (dn, dd))
              in (native_div dn dd, off - 1))
        else (d, off))"

definition set_digit :: "bignum \<Rightarrow> nat \<Rightarrow> u64 \<Rightarrow> bignum" where
  "set_digit x i d = x\<lparr>sexp_bignum_data := (sexp_bignum_data x)[i := d]\<rparr>"

definition set_digits :: "bignum \<Rightarrow> nat \<Rightarrow> u64 \<Rightarrow> u64 \<Rightarrow> bignum" where
  "set_digits x off dhi dlo =
    (let x = set_digit x off dhi in if off > 0 then set_digit x (off - 1) dlo else x)"

partial_function (option) quot_rem_loop ::
  "'f arith \<Rightarrow> bignum \<Rightarrow> bignum \<Rightarrow> 'f sexp \<Rightarrow> bignum \<Rightarrow> nat \<Rightarrow> int \<Rightarrow> (bignum \<times> 'f sexp \<times> int) option" where
  "quot_rem_loop N b1 a1 q x off sign =
    (if sexp_bignum_compare_abs a1 b1 < 0 then Some (a1, q, sign)
     else
       (let x = set_digits x off 0 0;
            (d, off) = quot_guess a1 b1;
            dhi = native_to_uint (native_shr d 64);
            dlo = native_to_uint (native_and d (native_sub (native_shl (native_from_uint 1) 64) (native_from_uint 1)));
            x = set_digits x off dhi dlo;
            y = sexp_bignum_mul None b1 x;
            a1 = (if sign < 0 then sexp_bignum_add None a1 y else sexp_bignum_sub None a1 y)
        in do {
          q \<leftarrow> (if sign < 0 then r_sub N q (BIGNUM x) else r_add N q (BIGNUM x));
          (if sexp_bignum_sign a1 \<noteq> sign
           then quot_rem_loop N b1 (a1\<lparr>sexp_bignum_sign := - sign\<rparr>) q x off (- sign)
           else quot_rem_loop N b1 a1 q x off sign)
        }))"

definition negate_if :: "bool \<Rightarrow> 'f sexp \<Rightarrow> 'f sexp" where
  "negate_if c x = (if c then sexp_negate_exact x else x)"

text \<open>Quotient and remainder; after an exception the remainder keeps its initial value.\<close>

definition sexp_bignum_quot_rem :: "'f arith \<Rightarrow> bignum \<Rightarrow> bignum \<Rightarrow> ('f sexp \<times> 'f sexp) option" where
  "sexp_bignum_quot_rem N a b =
    (let blen = sexp_bignum_hi b;
         qneg = sexp_bignum_sign a * sexp_bignum_sign b < 0;
         rneg = sexp_bignum_sign a < 0
     in if blen = 1 \<and> sexp_bignum_data b ! 0 = 0
        then Some (sexp_xtype_exception ''divide by zero'' (BIGNUM a), SEXP_VOID)
        else
          (let a1 = (sexp_copy_bignum None a 0)\<lparr>sexp_bignum_sign := 1\<rparr>
           in if blen = 1
              then (let (a1, r) = sexp_bignum_fxdiv a1 (sexp_bignum_data b ! 0) 0;
                        b1 = set_digit (sexp_make_bignum 1) 0 r
                    in Some (negate_if qneg (BIGNUM a1), negate_if rneg (sexp_bignum_normalize (BIGNUM b1))))
              else (let b1 = (sexp_copy_bignum None b 0)\<lparr>sexp_bignum_sign := 1\<rparr>;
                        x = sexp_make_bignum (sexp_bignum_length a)
                    in do {
                      (a1, q, sign) \<leftarrow> quot_rem_loop N b1 a1 SEXP_ZERO x 0 1;
                      let a1 = sexp_bignum_normalize (BIGNUM a1);
                      (q, a1) \<leftarrow>
                        (if sign < 0 \<and> a1 \<noteq> SEXP_ZERO
                         then do { q \<leftarrow> r_sub N q SEXP_ONE; a1 \<leftarrow> r_add N a1 (BIGNUM b1); Some (q, a1) }
                         else Some (q, a1));
                      Some (negate_if qneg q, negate_if rneg a1)
                    })))"

definition sexp_bignum_quotient :: "'f arith \<Rightarrow> bignum \<Rightarrow> bignum \<Rightarrow> 'f sexp option" where
  "sexp_bignum_quotient N a b = map_option fst (sexp_bignum_quot_rem N a b)"

definition sexp_bignum_remainder :: "'f arith \<Rightarrow> bignum \<Rightarrow> bignum \<Rightarrow> 'f sexp option" where
  "sexp_bignum_remainder N a b = map_option snd (sexp_bignum_quot_rem N a b)"

definition sexp_bignum_expt :: "'f arith \<Rightarrow> bignum \<Rightarrow> 'f sexp \<Rightarrow> 'f sexp option" where
  "sexp_bignum_expt N a b =
    (let e = sint (unbox_fixnum b);
         res = expt_loop (nat \<bar>e\<bar>) (sexp_copy_bignum None a 0) (sexp_fixnum_to_bignum (sexp_make_fixnum 1))
     in if e < 0
        then map_option sexp_bignum_normalize
               (r_div N (BIGNUM (sexp_fixnum_to_bignum (sexp_make_fixnum 1))) (BIGNUM res))
        else Some (sexp_bignum_normalize (BIGNUM res)))"

end
