(* ===== verification/Tower.thy ===== *)
theory Tower
  imports Numbers
begin

text \<open>
  Generic arithmetic, \<^verbatim>\<open>bignum.c\<close>: ratios, complex numbers and the dispatch on the pair of number
  types, with \<open>sexp_ratio_normalize\<close> and \<open>sexp_complex_normalize\<close> of \<^verbatim>\<open>sexp.c\<close> and the exactness
  conversions of \<^verbatim>\<open>eval.c\<close>.  The functions of libm (\<open>exp\<close>, \<open>log\<close>, \<open>sin\<close>, ...) are not modelled.
\<close>

subsection \<open>Doubles and exact numbers\<close>

partial_function (option) double_to_bignum_loop ::
  "'f flo_ops \<Rightarrow> 'f \<Rightarrow> bignum \<Rightarrow> bignum \<Rightarrow> bignum option" where
  "double_to_bignum_loop F f res scale =
    (if f_le F (f_of_int F 1) f
     then (let tmp = sexp_bignum_fxmul None scale (word_of_int (f_to_int F (f_fmod F f (f_of_int F 16)))) 0
           in double_to_bignum_loop F (f_trunc F (f_div F f (f_of_int F 16)))
                (sexp_bignum_add (Some res) res tmp) (sexp_bignum_fxmul None scale 16 0))
     else Some res)"

definition sexp_double_to_bignum :: "'f flo_ops \<Rightarrow> 'f \<Rightarrow> bignum option" where
  "sexp_double_to_bignum F f =
    (let sign = (if f_lt F f (f_of_int F 0) then - 1 else 1)
     in do {
       res \<leftarrow> double_to_bignum_loop F (f_abs F f)
                (sexp_fixnum_to_bignum (sexp_make_fixnum 0)) (sexp_fixnum_to_bignum (sexp_make_fixnum 1));
       Some (res\<lparr>sexp_bignum_sign := sign\<rparr>)
     })"

subsection \<open>Ratios\<close>

partial_function (option) gcd_loop ::
  "('f sexp \<Rightarrow> 'f sexp \<Rightarrow> 'f sexp option) \<Rightarrow> 'f sexp \<Rightarrow> 'f sexp \<Rightarrow> ('f sexp + 'f sexp) option" where
  "gcd_loop rmd num den =
    (if den = SEXP_ZERO then Some (Inr num)
     else do {
       tmp \<leftarrow> rmd num den;
       (if sexp_exceptionp tmp then Some (Inl tmp) else gcd_loop rmd den tmp)
     })"

definition promote_min_fixnum :: "'f sexp \<Rightarrow> 'f sexp" where
  "promote_min_fixnum n =
    (if n = make_fixnum SEXP_MIN_FIXNUM then BIGNUM (sexp_fixnum_to_bignum (imm_word n)) else n)"

definition positive_denominator :: "'f flo_ops \<Rightarrow> 'f sexp \<Rightarrow> 'f sexp \<Rightarrow> 'f sexp \<times> 'f sexp" where
  "positive_denominator F num den =
    (if sexp_exact_negativep den
     then (sexp_negate F (promote_min_fixnum num), sexp_negate F den) else (num, den))"

definition sexp_ratio_normalize :: "'f flo_ops \<Rightarrow> 'f arith \<Rightarrow> 'f sexp \<Rightarrow> 'f sexp option" where
  "sexp_ratio_normalize F N rat =
    (let (rnum, rden) = positive_denominator F (sexp_ratio_numerator rat) (sexp_ratio_denominator rat)
     in if rden = SEXP_ZERO then Some (EXCEPTION (Read_error ''zero denominator in ratio'') (RATIO rnum rden))
        else if rnum = SEXP_ZERO then Some SEXP_ZERO
        else do {
          g \<leftarrow> gcd_loop (r_remainder N) rnum rden;
          (case g of Inl e \<Rightarrow> Some e
           | Inr num \<Rightarrow> do {
               rden \<leftarrow> r_quotient N rden num;
               rnum \<leftarrow> r_quotient N rnum num;
               let (rnum, rden) = positive_denominator F rnum rden;
               let rnum = sexp_bignum_normalize rnum;
               let rden = sexp_bignum_normalize rden;
               Some (if rden = SEXP_ONE then rnum else RATIO rnum rden)
             })
        })"

definition sexp_to_double_real :: "'f flo_ops \<Rightarrow> 'f sexp \<Rightarrow> 'f" where
  "sexp_to_double_real F x =
    (if sexp_bignump x then sexp_bignum_to_double F (bignum_object x) else sexp_fixnum_to_double F x)"

definition integer_to_double :: "'f flo_ops \<Rightarrow> 'f sexp \<Rightarrow> 'f" where
  "integer_to_double F x =
    (if sexp_flonump x then sexp_flonum_value x
     else if sexp_fixnump x then sexp_fixnum_to_double F x
     else if sexp_bignump x then sexp_bignum_to_double F (bignum_object x)
     else f_of_int F 0)"

definition sexp_ratio_to_double :: "'f flo_ops \<Rightarrow> 'f arith \<Rightarrow> 'f sexp \<Rightarrow> 'f option" where
  "sexp_ratio_to_double F N rat =
    (let num = sexp_ratio_numerator rat; den = sexp_ratio_denominator rat;
         res = f_div F (sexp_to_double_real F num) (sexp_to_double_real F den)
     in if f_isfinite F res then Some res
        else do {
          c \<leftarrow> r_compare N num den;
          (if sint (unbox_fixnum c) < 0
           then do { q \<leftarrow> r_quotient N den num; Some (f_div F (f_of_int F 1) (integer_to_double F q)) }
           else do { q \<leftarrow> r_quotient N num den; Some (integer_to_double F q) })
        })"

definition sexp_to_double :: "'f flo_ops \<Rightarrow> 'f arith \<Rightarrow> 'f sexp \<Rightarrow> 'f option" where
  "sexp_to_double F N x = (if sexp_ratiop x then sexp_ratio_to_double F N x else Some (integer_to_double F x))"

partial_function (option) double_to_ratio_loop ::
  "'f flo_ops \<Rightarrow> 'f arith \<Rightarrow> 'f \<Rightarrow> bignum \<Rightarrow> 'f sexp \<Rightarrow> (bignum \<times> 'f sexp) option" where
  "double_to_ratio_loop F N f res scale =
    (if f_eq F f (f_of_int F 0) then Some (res, scale)
     else do {
       let res = sexp_bignum_fxmul None res 2 0;
       scale \<leftarrow> r_mul N scale (make_fixnum 2);
       let f = f_mul F f (f_of_int F 2);
       let i = f_to_int F (f_trunc F f);
       (if i \<noteq> 0 then double_to_ratio_loop F N (f_sub F f (f_of_int F i)) (sexp_bignum_fxadd res (word_of_int i)) scale
        else double_to_ratio_loop F N f res scale)
     })"

definition sexp_double_to_ratio_2 :: "'f flo_ops \<Rightarrow> 'f arith \<Rightarrow> 'f \<Rightarrow> 'f sexp option" where
  "sexp_double_to_ratio_2 F N f =
    (if f_eq F f (f_trunc F f)
     then map_option (\<lambda>b. sexp_bignum_normalize (BIGNUM b)) (sexp_double_to_bignum F f)
     else do {
       whole \<leftarrow> sexp_double_to_bignum F (f_trunc F f);
       let sign = (if f_lt F f (f_of_int F 0) then - 1 else 1);
       (res, scale) \<leftarrow> double_to_ratio_loop F N (f_abs F (f_sub F f (f_trunc F f)))
                        (sexp_fixnum_to_bignum (sexp_make_fixnum 0)) SEXP_ONE;
       let res = sexp_bignum_normalize (BIGNUM (res\<lparr>sexp_bignum_sign := sign\<rparr>));
       let scale = sexp_bignum_normalize scale;
       res \<leftarrow> sexp_ratio_normalize F N (RATIO res scale);
       r_add N res (BIGNUM whole)
     })"

definition sexp_ratio_add :: "'f flo_ops \<Rightarrow> 'f arith \<Rightarrow> 'f sexp \<Rightarrow> 'f sexp \<Rightarrow> 'f sexp option" where
  "sexp_ratio_add F N a b = do {
     num \<leftarrow> r_mul N (sexp_ratio_numerator a) (sexp_ratio_denominator b);
     den \<leftarrow> r_mul N (sexp_ratio_numerator b) (sexp_ratio_denominator a);
     num \<leftarrow> r_add N num den;
     den \<leftarrow> r_mul N (sexp_ratio_denominator a) (sexp_ratio_denominator b);
     sexp_ratio_normalize F N (RATIO num den)
   }"

definition sexp_ratio_mul :: "'f flo_ops \<Rightarrow> 'f arith \<Rightarrow> 'f sexp \<Rightarrow> 'f sexp \<Rightarrow> 'f sexp option" where
  "sexp_ratio_mul F N a b = do {
     num \<leftarrow> r_mul N (sexp_ratio_numerator a) (sexp_ratio_numerator b);
     den \<leftarrow> r_mul N (sexp_ratio_denominator a) (sexp_ratio_denominator b);
     sexp_ratio_normalize F N (RATIO num den)
   }"

definition sexp_ratio_div :: "'f flo_ops \<Rightarrow> 'f arith \<Rightarrow> 'f sexp \<Rightarrow> 'f sexp \<Rightarrow> 'f sexp option" where
  "sexp_ratio_div F N a b = do {
     num \<leftarrow> r_mul N (sexp_ratio_numerator a) (sexp_ratio_denominator b);
     den \<leftarrow> r_mul N (sexp_ratio_denominator a) (sexp_ratio_numerator b);
     sexp_ratio_normalize F N (RATIO num den)
   }"

definition sexp_ratio_compare :: "'f arith \<Rightarrow> 'f sexp \<Rightarrow> 'f sexp \<Rightarrow> 'f sexp option" where
  "sexp_ratio_compare N a b = do {
     a2 \<leftarrow> r_mul N (sexp_ratio_numerator a) (sexp_ratio_denominator b);
     b2 \<leftarrow> r_mul N (sexp_ratio_numerator b) (sexp_ratio_denominator a);
     r_compare N a2 b2
   }"

definition sexp_ratio_round :: "'f flo_ops \<Rightarrow> 'f arith \<Rightarrow> 'f sexp \<Rightarrow> 'f sexp option" where
  "sexp_ratio_round F N a = do {
     let num = sexp_ratio_numerator a;
     let den = sexp_ratio_denominator a;
     q \<leftarrow> r_quotient N num den;
     (if den = SEXP_TWO \<and> sexp_oddp q
      then r_add N q (if sexp_exact_positivep q then SEXP_ONE else SEXP_NEG_ONE)
      else do {
        r \<leftarrow> r_remainder N num den;
        r \<leftarrow> r_mul N r SEXP_TWO;
        let r = (if sexp_exact_negativep r then sexp_negate F r else r);
        c \<leftarrow> r_compare N r den;
        (if sint (unbox_fixnum c) > 0
         then r_add N q (if sexp_exact_negativep num then SEXP_NEG_ONE else SEXP_ONE)
         else Some q)
      })
   }"

definition sexp_ratio_trunc :: "'f arith \<Rightarrow> 'f sexp \<Rightarrow> 'f sexp option" where
  "sexp_ratio_trunc N a = r_quotient N (sexp_ratio_numerator a) (sexp_ratio_denominator a)"

definition sexp_ratio_floor :: "'f arith \<Rightarrow> 'f sexp \<Rightarrow> 'f sexp option" where
  "sexp_ratio_floor N a = do {
     q \<leftarrow> r_quotient N (sexp_ratio_numerator a) (sexp_ratio_denominator a);
     (if sexp_exact_negativep (sexp_ratio_numerator a) then r_add N q SEXP_NEG_ONE else Some q)
   }"

definition sexp_ratio_ceiling :: "'f arith \<Rightarrow> 'f sexp \<Rightarrow> 'f sexp option" where
  "sexp_ratio_ceiling N a = do {
     q \<leftarrow> r_quotient N (sexp_ratio_numerator a) (sexp_ratio_denominator a);
     (if sexp_exact_positivep (sexp_ratio_numerator a) then r_add N q SEXP_ONE else Some q)
   }"

subsection \<open>Complex numbers\<close>

definition sexp_complex_normalize :: "'f sexp \<Rightarrow> 'f sexp" where
  "sexp_complex_normalize cpx =
    (if sexp_complexp cpx \<and> sexp_complex_imag cpx = SEXP_ZERO then sexp_complex_real cpx else cpx)"

definition sexp_complex_copy :: "'f sexp \<Rightarrow> 'f sexp" where
  "sexp_complex_copy a = COMPLEX (sexp_complex_real a) (sexp_complex_imag a)"

definition sexp_complex_add :: "'f arith \<Rightarrow> 'f sexp \<Rightarrow> 'f sexp \<Rightarrow> 'f sexp option" where
  "sexp_complex_add N a b = do {
     real \<leftarrow> r_add N (sexp_complex_real a) (sexp_complex_real b);
     imag \<leftarrow> r_add N (sexp_complex_imag a) (sexp_complex_imag b);
     Some (sexp_complex_normalize (COMPLEX real imag))
   }"

definition negate_complex :: "'f flo_ops \<Rightarrow> 'f sexp \<Rightarrow> 'f sexp" where
  "negate_complex F z = COMPLEX (sexp_negate_maybe_ratio F (sexp_complex_real z))
     (sexp_negate_maybe_ratio F (sexp_complex_imag z))"

definition sexp_complex_sub :: "'f flo_ops \<Rightarrow> 'f arith \<Rightarrow> 'f sexp \<Rightarrow> 'f sexp \<Rightarrow> 'f sexp option" where
  "sexp_complex_sub F N a b = sexp_complex_add N a (negate_complex F (sexp_complex_copy b))"

definition sexp_complex_mul :: "'f arith \<Rightarrow> 'f sexp \<Rightarrow> 'f sexp \<Rightarrow> 'f sexp option" where
  "sexp_complex_mul N a b = do {
     real \<leftarrow> r_mul N (sexp_complex_real a) (sexp_complex_real b);
     res \<leftarrow> r_mul N (sexp_complex_imag a) (sexp_complex_imag b);
     real \<leftarrow> r_sub N real res;
     imag \<leftarrow> r_mul N (sexp_complex_real a) (sexp_complex_imag b);
     res \<leftarrow> r_mul N (sexp_complex_imag a) (sexp_complex_real b);
     imag \<leftarrow> r_add N imag res;
     Some (sexp_complex_normalize (COMPLEX real imag))
   }"

definition sexp_complex_div :: "'f arith \<Rightarrow> 'f sexp \<Rightarrow> 'f sexp \<Rightarrow> 'f sexp option" where
  "sexp_complex_div N a b = do {
     denom \<leftarrow> r_mul N (sexp_complex_real b) (sexp_complex_real b);
     res \<leftarrow> r_mul N (sexp_complex_imag b) (sexp_complex_imag b);
     denom \<leftarrow> r_add N denom res;
     real \<leftarrow> r_mul N (sexp_complex_real a) (sexp_complex_real b);
     res \<leftarrow> r_mul N (sexp_complex_imag a) (sexp_complex_imag b);
     real \<leftarrow> r_add N real res;
     real \<leftarrow> r_div N real denom;
     imag \<leftarrow> r_mul N (sexp_complex_imag a) (sexp_complex_real b);
     res \<leftarrow> r_mul N (sexp_complex_real a) (sexp_complex_imag b);
     imag \<leftarrow> r_sub N imag res;
     imag \<leftarrow> r_div N imag denom;
     Some (sexp_complex_normalize (COMPLEX real imag))
   }"

subsection \<open>Dispatch\<close>

datatype sexp_number_type = NUM_NOT | NUM_FIX | NUM_FLO | NUM_BIG | NUM_RAT | NUM_CPX

fun num_rank :: "sexp_number_type \<Rightarrow> nat" where
  "num_rank NUM_NOT = 0" | "num_rank NUM_FIX = 1" | "num_rank NUM_FLO = 2"
| "num_rank NUM_BIG = 3" | "num_rank NUM_RAT = 4" | "num_rank NUM_CPX = 5"

definition sexp_number_types :: "sexp_number_type list" where
  "sexp_number_types =
    [NUM_NOT, NUM_NOT, NUM_FIX, NUM_NOT, NUM_NOT, NUM_NOT, NUM_NOT, NUM_NOT, NUM_NOT, NUM_NOT, NUM_NOT,
     NUM_FLO, NUM_BIG, NUM_RAT, NUM_CPX, NUM_NOT, NUM_NOT]"

fun sexp_pointer_tag :: "'f sexp \<Rightarrow> nat" where
  "sexp_pointer_tag (FLONUM _) = 11"
| "sexp_pointer_tag (BIGNUM _) = 12"
| "sexp_pointer_tag (RATIO _ _) = 13"
| "sexp_pointer_tag (COMPLEX _ _) = 14"
| "sexp_pointer_tag (EXCEPTION _ _) = 19"
| "sexp_pointer_tag (OBJECT t) = t"

fun sexp_pointerp :: "'f sexp \<Rightarrow> bool" where
  "sexp_pointerp (IMM _) = False" | "sexp_pointerp _ = True"

definition sexp_number_type :: "'f sexp \<Rightarrow> sexp_number_type" where
  "sexp_number_type a =
    (if sexp_pointerp a
     then (if sexp_pointer_tag a < length sexp_number_types then sexp_number_types ! sexp_pointer_tag a else NUM_NOT)
     else if sexp_fixnump a then NUM_FIX else NUM_NOT)"

definition sorted_operands :: "'f sexp \<Rightarrow> 'f sexp \<Rightarrow> 'f sexp \<times> 'f sexp" where
  "sorted_operands a b =
    (if num_rank (sexp_number_type a) > num_rank (sexp_number_type b) then (b, a) else (a, b))"

definition sexp_add :: "'f flo_ops \<Rightarrow> 'f arith \<Rightarrow> 'f sexp \<Rightarrow> 'f sexp \<Rightarrow> 'f sexp option" where
  "sexp_add F N a b =
    (let (a, b) = sorted_operands a b; flo = sexp_flonum_value; big = bignum_object
     in case (sexp_number_type a, sexp_number_type b) of
       (NUM_NOT, _) \<Rightarrow> Some (sexp_type_exception SEXP_NUMBER a)
     | (NUM_FIX, NUM_FIX) \<Rightarrow>
         (let sum = unbox_fixnum a + unbox_fixnum b
          in if sint sum < sint SEXP_MIN_FIXNUM \<or> sint sum > sint SEXP_MAX_FIXNUM
             then r_add N (BIGNUM (sexp_fixnum_to_bignum (imm_word a))) b
             else Some (make_fixnum sum))
     | (NUM_FIX, NUM_FLO) \<Rightarrow>
         Some (if a = SEXP_ZERO then b else FLONUM (f_add F (sexp_fixnum_to_double F a) (flo b)))
     | (NUM_FIX, NUM_BIG) \<Rightarrow> Some (sexp_bignum_normalize (BIGNUM (sexp_bignum_add_fixnum (big b) (imm_word a))))
     | (NUM_FLO, NUM_FLO) \<Rightarrow> Some (FLONUM (f_add F (flo a) (flo b)))
     | (NUM_FLO, NUM_BIG) \<Rightarrow> Some (FLONUM (f_add F (flo a) (sexp_bignum_to_double F (big b))))
     | (NUM_BIG, NUM_BIG) \<Rightarrow> Some (sexp_bignum_normalize (BIGNUM (sexp_bignum_add None (big b) (big a))))
     | (NUM_FLO, NUM_RAT) \<Rightarrow> map_option (\<lambda>d. FLONUM (f_add F (flo a) d)) (sexp_ratio_to_double F N b)
     | (NUM_FIX, NUM_RAT) \<Rightarrow> sexp_ratio_add F N (RATIO a SEXP_ONE) b
     | (NUM_BIG, NUM_RAT) \<Rightarrow> sexp_ratio_add F N (RATIO a SEXP_ONE) b
     | (NUM_RAT, NUM_RAT) \<Rightarrow> sexp_ratio_add F N a b
     | (NUM_CPX, NUM_CPX) \<Rightarrow> sexp_complex_add N a b
     | (_, NUM_CPX) \<Rightarrow> sexp_complex_add N (COMPLEX a SEXP_ZERO) b
     | _ \<Rightarrow> Some SEXP_VOID)"

definition ratio_sub :: "'f flo_ops \<Rightarrow> 'f arith \<Rightarrow> bool \<Rightarrow> 'f sexp \<Rightarrow> 'f sexp \<Rightarrow> 'f sexp option" where
  "ratio_sub F N negatep a b = do {
     r \<leftarrow> sexp_ratio_add F N a (RATIO (sexp_negate_exact (sexp_ratio_numerator b)) (sexp_ratio_denominator b));
     Some (if negatep then sexp_negate_maybe_ratio F r else r)
   }"

definition complex_sub :: "'f flo_ops \<Rightarrow> 'f arith \<Rightarrow> bool \<Rightarrow> 'f sexp \<Rightarrow> 'f sexp \<Rightarrow> 'f sexp option" where
  "complex_sub F N negatep a b = do {
     r \<leftarrow> sexp_complex_sub F N a b;
     Some (if negatep
           then (if sexp_complexp r then negate_complex F (sexp_complex_copy r) else sexp_negate_maybe_ratio F r)
           else r)
   }"

definition sexp_sub :: "'f flo_ops \<Rightarrow> 'f arith \<Rightarrow> 'f sexp \<Rightarrow> 'f sexp \<Rightarrow> 'f sexp option" where
  "sexp_sub F N a b =
    (let flo = sexp_flonum_value; big = bignum_object
     in case (sexp_number_type a, sexp_number_type b) of
       (NUM_NOT, _) \<Rightarrow> Some (sexp_type_exception SEXP_NUMBER a)
     | (_, NUM_NOT) \<Rightarrow> Some (sexp_type_exception SEXP_NUMBER b)
     | (NUM_FIX, NUM_FIX) \<Rightarrow> Some (IMM (sexp_fx_sub (imm_word a) (imm_word b)))
     | (NUM_FIX, NUM_FLO) \<Rightarrow>
         Some (FLONUM (if a = SEXP_ZERO then f_neg F (flo b) else f_sub F (sexp_fixnum_to_double F a) (flo b)))
     | (NUM_FIX, NUM_BIG) \<Rightarrow>
         (let tmp1 = sexp_fixnum_to_bignum (imm_word a)
          in Some (sexp_bignum_normalize (sexp_negate_exact (BIGNUM (sexp_bignum_sub None (big b) tmp1)))))
     | (NUM_FLO, NUM_FIX) \<Rightarrow> Some (FLONUM (f_sub F (flo a) (sexp_fixnum_to_double F b)))
     | (NUM_FLO, NUM_FLO) \<Rightarrow> Some (FLONUM (f_sub F (flo a) (flo b)))
     | (NUM_FLO, NUM_BIG) \<Rightarrow> Some (FLONUM (f_sub F (flo a) (sexp_bignum_to_double F (big b))))
     | (NUM_BIG, NUM_FIX) \<Rightarrow>
         (let tmp1 = sexp_fixnum_to_bignum (imm_word b)
          in Some (sexp_bignum_normalize (BIGNUM (sexp_bignum_sub None (big a) tmp1))))
     | (NUM_BIG, NUM_FLO) \<Rightarrow> Some (FLONUM (f_sub F (sexp_bignum_to_double F (big a)) (flo b)))
     | (NUM_BIG, NUM_BIG) \<Rightarrow> Some (sexp_bignum_normalize (BIGNUM (sexp_bignum_sub None (big a) (big b))))
     | (NUM_FLO, NUM_RAT) \<Rightarrow> map_option (\<lambda>d. FLONUM (f_sub F (flo a) d)) (sexp_ratio_to_double F N b)
     | (NUM_RAT, NUM_FLO) \<Rightarrow> map_option (\<lambda>d. FLONUM (f_sub F d (flo b))) (sexp_ratio_to_double F N a)
     | (NUM_RAT, NUM_FIX) \<Rightarrow> ratio_sub F N True (RATIO b SEXP_ONE) a
     | (NUM_RAT, NUM_BIG) \<Rightarrow> ratio_sub F N True (RATIO b SEXP_ONE) a
     | (NUM_FIX, NUM_RAT) \<Rightarrow> ratio_sub F N False (RATIO a SEXP_ONE) b
     | (NUM_BIG, NUM_RAT) \<Rightarrow> ratio_sub F N False (RATIO a SEXP_ONE) b
     | (NUM_RAT, NUM_RAT) \<Rightarrow> ratio_sub F N False a b
     | (NUM_RAT, NUM_CPX) \<Rightarrow> do { d \<leftarrow> sexp_ratio_to_double F N a; complex_sub F N False (FLONUM d) b }
     | (NUM_CPX, NUM_RAT) \<Rightarrow>
         do { d \<leftarrow> sexp_ratio_to_double F N b; complex_sub F N True (COMPLEX (FLONUM d) SEXP_ZERO) a }
     | (NUM_CPX, NUM_CPX) \<Rightarrow> complex_sub F N False a b
     | (NUM_CPX, _) \<Rightarrow> complex_sub F N True (COMPLEX b SEXP_ZERO) a
     | (_, NUM_CPX) \<Rightarrow> complex_sub F N False (COMPLEX a SEXP_ZERO) b)"

definition sexp_mul :: "'f flo_ops \<Rightarrow> 'f arith \<Rightarrow> 'f sexp \<Rightarrow> 'f sexp \<Rightarrow> 'f sexp option" where
  "sexp_mul F N a b =
    (let swapped = num_rank (sexp_number_type a) > num_rank (sexp_number_type b);
         (a', b') = sorted_operands a b; flo = sexp_flonum_value; big = bignum_object
     in case (sexp_number_type a', sexp_number_type b') of
       (NUM_NOT, NUM_CPX) \<Rightarrow> Some (if swapped then a else SEXP_VOID)
     | (NUM_NOT, _) \<Rightarrow> Some (sexp_type_exception SEXP_NUMBER a')
     | (NUM_FIX, NUM_FIX) \<Rightarrow>
         (let prod = native_mul_sint (native_from_sint (unbox_fixnum a')) (unbox_fixnum b')
          in if \<not> native_lsint_is_fixnum prod
             then r_mul N (BIGNUM (sexp_fixnum_to_bignum (imm_word a'))) b'
             else Some (make_fixnum (native_to_uint prod)))
     | (NUM_FIX, NUM_FLO) \<Rightarrow>
         Some (if a' = SEXP_ZERO then a' else FLONUM (f_mul F (sexp_fixnum_to_double F a') (flo b')))
     | (NUM_FIX, NUM_BIG) \<Rightarrow>
         (let r = sexp_bignum_fxmul None (big b') (sexp_unbox_fx_abs (imm_word a')) 0
          in Some (sexp_bignum_normalize
               (BIGNUM (r\<lparr>sexp_bignum_sign := sexp_fx_sign (imm_word a') * sexp_bignum_sign (big b')\<rparr>))))
     | (NUM_FLO, NUM_FLO) \<Rightarrow> Some (FLONUM (f_mul F (flo a') (flo b')))
     | (NUM_FLO, NUM_BIG) \<Rightarrow> Some (FLONUM (f_mul F (flo a') (sexp_bignum_to_double F (big b'))))
     | (NUM_BIG, NUM_BIG) \<Rightarrow> Some (sexp_bignum_normalize (BIGNUM (sexp_bignum_mul None (big a') (big b'))))
     | (NUM_FLO, NUM_RAT) \<Rightarrow> map_option (\<lambda>d. FLONUM (f_mul F (flo a') d)) (sexp_ratio_to_double F N b')
     | (NUM_FIX, NUM_RAT) \<Rightarrow> sexp_ratio_mul F N (RATIO a' SEXP_ONE) b'
     | (NUM_BIG, NUM_RAT) \<Rightarrow> sexp_ratio_mul F N (RATIO a' SEXP_ONE) b'
     | (NUM_RAT, NUM_RAT) \<Rightarrow> sexp_ratio_mul F N a' b'
     | (NUM_CPX, NUM_CPX) \<Rightarrow> sexp_complex_mul N a' b'
     | (_, NUM_CPX) \<Rightarrow> sexp_complex_mul N (COMPLEX a' SEXP_ZERO) b'
     | _ \<Rightarrow> Some SEXP_VOID)"

definition sexp_div :: "'f flo_ops \<Rightarrow> 'f arith \<Rightarrow> 'f sexp \<Rightarrow> 'f sexp \<Rightarrow> 'f sexp option" where
  "sexp_div F N a b =
    (let flo = sexp_flonum_value; big = bignum_object
     in case (sexp_number_type a, sexp_number_type b) of
       (NUM_NOT, NUM_CPX) \<Rightarrow> Some SEXP_VOID
     | (NUM_NOT, _) \<Rightarrow> Some (sexp_type_exception SEXP_NUMBER a)
     | (NUM_CPX, NUM_NOT) \<Rightarrow> Some SEXP_VOID
     | (_, NUM_NOT) \<Rightarrow> Some (sexp_type_exception SEXP_NUMBER b)
     | (NUM_FIX, NUM_FIX) \<Rightarrow> sexp_ratio_normalize F N (RATIO a b)
     | (NUM_FIX, NUM_FLO) \<Rightarrow> Some (FLONUM (f_div F (sexp_fixnum_to_double F a) (flo b)))
     | (NUM_FIX, NUM_BIG) \<Rightarrow> sexp_ratio_normalize F N (RATIO a b)
     | (NUM_FLO, NUM_FIX) \<Rightarrow> Some (FLONUM (f_div F (flo a) (sexp_fixnum_to_double F b)))
     | (NUM_FLO, NUM_FLO) \<Rightarrow> Some (FLONUM (f_div F (flo a) (flo b)))
     | (NUM_FLO, NUM_BIG) \<Rightarrow> Some (FLONUM (f_div F (flo a) (sexp_bignum_to_double F (big b))))
     | (NUM_BIG, NUM_FIX) \<Rightarrow> sexp_ratio_normalize F N (RATIO a b)
     | (NUM_BIG, NUM_BIG) \<Rightarrow> sexp_ratio_normalize F N (RATIO a b)
     | (NUM_BIG, NUM_FLO) \<Rightarrow> Some (FLONUM (f_div F (sexp_bignum_to_double F (big a)) (flo b)))
     | (NUM_FLO, NUM_RAT) \<Rightarrow> map_option (\<lambda>d. FLONUM (f_div F (flo a) d)) (sexp_ratio_to_double F N b)
     | (NUM_RAT, NUM_FLO) \<Rightarrow> map_option (\<lambda>d. FLONUM (f_div F d (flo b))) (sexp_ratio_to_double F N a)
     | (NUM_RAT, NUM_FIX) \<Rightarrow> sexp_ratio_div F N a (RATIO b SEXP_ONE)
     | (NUM_RAT, NUM_BIG) \<Rightarrow> sexp_ratio_div F N a (RATIO b SEXP_ONE)
     | (NUM_FIX, NUM_RAT) \<Rightarrow> sexp_ratio_div F N (RATIO a SEXP_ONE) b
     | (NUM_BIG, NUM_RAT) \<Rightarrow> sexp_ratio_div F N (RATIO a SEXP_ONE) b
     | (NUM_RAT, NUM_RAT) \<Rightarrow> sexp_ratio_div F N a b
     | (NUM_CPX, NUM_RAT) \<Rightarrow>
         do { d \<leftarrow> sexp_ratio_to_double F N b; sexp_complex_div N a (COMPLEX (FLONUM d) SEXP_ZERO) }
     | (NUM_CPX, NUM_CPX) \<Rightarrow> sexp_complex_div N a b
     | (NUM_CPX, _) \<Rightarrow> sexp_complex_div N a (COMPLEX b SEXP_ZERO)
     | (NUM_RAT, NUM_CPX) \<Rightarrow>
         do { d \<leftarrow> sexp_ratio_to_double F N a; sexp_complex_div N (COMPLEX (FLONUM d) SEXP_ZERO) b }
     | (_, NUM_CPX) \<Rightarrow> sexp_complex_div N (COMPLEX a SEXP_ZERO) b)"

definition sexp_to_inexact :: "'f flo_ops \<Rightarrow> 'f sexp \<Rightarrow> 'f sexp" where
  "sexp_to_inexact F a =
    (if sexp_fixnump a then FLONUM (sexp_fixnum_to_double F a)
     else if sexp_bignump a then FLONUM (sexp_bignum_to_double F (bignum_object a))
     else a)"

definition integral_flonum :: "'f flo_ops \<Rightarrow> 'f sexp \<Rightarrow> 'f sexp option" where
  "integral_flonum F a =
    map_option (\<lambda>b. sexp_bignum_normalize (BIGNUM b)) (sexp_double_to_bignum F (sexp_flonum_value a))"

definition integralp :: "'f flo_ops \<Rightarrow> 'f sexp \<Rightarrow> bool" where
  "integralp F a \<longleftrightarrow> f_eq F (sexp_flonum_value a) (f_trunc F (sexp_flonum_value a))"

definition sexp_quotient :: "'f flo_ops \<Rightarrow> 'f arith \<Rightarrow> 'f sexp \<Rightarrow> 'f sexp \<Rightarrow> 'f sexp option" where
  "sexp_quotient F N a b =
    (if b = SEXP_ONE then Some a
     else
       (let big = bignum_object;
            bad_a = Some (sexp_type_exception SEXP_FIXNUM a); bad_b = Some (sexp_type_exception SEXP_FIXNUM b);
            flo_a = (if \<not> integralp F a then bad_a
                     else do { tmp \<leftarrow> integral_flonum F a; tmp \<leftarrow> r_quotient N tmp b; Some (sexp_to_inexact F tmp) });
            flo_b = (if \<not> integralp F b then bad_b
                     else do { tmp \<leftarrow> integral_flonum F b; tmp \<leftarrow> r_quotient N a tmp; Some (sexp_to_inexact F tmp) })
        in case (sexp_number_type a, sexp_number_type b) of
          (NUM_NOT, NUM_NOT) \<Rightarrow> bad_a | (NUM_NOT, NUM_FIX) \<Rightarrow> bad_a
        | (NUM_NOT, NUM_FLO) \<Rightarrow> bad_a | (NUM_NOT, NUM_BIG) \<Rightarrow> bad_a
        | (NUM_FIX, NUM_NOT) \<Rightarrow> bad_b | (NUM_FLO, NUM_NOT) \<Rightarrow> bad_b | (NUM_BIG, NUM_NOT) \<Rightarrow> bad_b
        | (NUM_FLO, NUM_FIX) \<Rightarrow> flo_a | (NUM_FLO, NUM_FLO) \<Rightarrow> flo_a
        | (NUM_FLO, NUM_BIG) \<Rightarrow> flo_a | (NUM_FLO, NUM_RAT) \<Rightarrow> flo_a
        | (NUM_RAT, NUM_FIX) \<Rightarrow> bad_a | (NUM_RAT, NUM_BIG) \<Rightarrow> bad_a | (NUM_RAT, NUM_RAT) \<Rightarrow> bad_a
        | (NUM_FLO, NUM_CPX) \<Rightarrow> bad_a | (NUM_CPX, NUM_FIX) \<Rightarrow> bad_a | (NUM_CPX, NUM_FLO) \<Rightarrow> bad_a
        | (NUM_CPX, NUM_BIG) \<Rightarrow> bad_a | (NUM_CPX, NUM_CPX) \<Rightarrow> bad_a | (NUM_CPX, NUM_RAT) \<Rightarrow> bad_a
        | (NUM_FIX, NUM_FLO) \<Rightarrow> flo_b | (NUM_BIG, NUM_FLO) \<Rightarrow> flo_b | (NUM_RAT, NUM_FLO) \<Rightarrow> flo_b
        | (NUM_FIX, NUM_RAT) \<Rightarrow> bad_b | (NUM_BIG, NUM_RAT) \<Rightarrow> bad_b
        | (NUM_FIX, NUM_CPX) \<Rightarrow> bad_b | (NUM_BIG, NUM_CPX) \<Rightarrow> bad_b
        | (NUM_FIX, NUM_FIX) \<Rightarrow>
            (if unbox_fixnum b = 0 then None
             else (let r = sexp_fx_div (imm_word a) (imm_word b)
                   in if sint (imm_word a) < 0 \<and> sint (imm_word b) < 0 \<and> sint r < 0
                      then r_quotient N (BIGNUM (sexp_fixnum_to_bignum (imm_word a))) b
                      else Some (IMM r)))
        | (NUM_FIX, NUM_BIG) \<Rightarrow> Some SEXP_ZERO
        | (NUM_BIG, NUM_FIX) \<Rightarrow>
            map_option sexp_bignum_normalize (sexp_bignum_quotient N (big a) (sexp_fixnum_to_bignum (imm_word b)))
        | (NUM_BIG, NUM_BIG) \<Rightarrow> map_option sexp_bignum_normalize (sexp_bignum_quotient N (big a) (big b))
        | _ \<Rightarrow> Some SEXP_VOID))"

definition sexp_remainder :: "'f flo_ops \<Rightarrow> 'f arith \<Rightarrow> 'f sexp \<Rightarrow> 'f sexp \<Rightarrow> 'f sexp option" where
  "sexp_remainder F N a b =
    (if b = SEXP_ONE then Some SEXP_ZERO
     else
       (let big = bignum_object; inf = (\<lambda>x. f_isinf F (sexp_flonum_value x));
            bad_a = Some (sexp_type_exception SEXP_FIXNUM a); bad_b = Some (sexp_type_exception SEXP_FIXNUM b);
            flo_a = (if inf a \<or> \<not> integralp F a then bad_a
                     else if sexp_number_type b = NUM_FLO \<and> inf b then bad_b
                     else do { tmp \<leftarrow> integral_flonum F a; tmp \<leftarrow> r_remainder N tmp b; Some (sexp_to_inexact F tmp) });
            flo_b = (if inf b \<or> \<not> integralp F b then bad_b
                     else do { tmp \<leftarrow> integral_flonum F b; tmp \<leftarrow> r_remainder N a tmp; Some (sexp_to_inexact F tmp) })
        in case (sexp_number_type a, sexp_number_type b) of
          (NUM_NOT, NUM_NOT) \<Rightarrow> bad_a | (NUM_NOT, NUM_FIX) \<Rightarrow> bad_a
        | (NUM_NOT, NUM_FLO) \<Rightarrow> bad_a | (NUM_NOT, NUM_BIG) \<Rightarrow> bad_a
        | (NUM_FIX, NUM_NOT) \<Rightarrow> bad_b | (NUM_FLO, NUM_NOT) \<Rightarrow> bad_b | (NUM_BIG, NUM_NOT) \<Rightarrow> bad_b
        | (NUM_FLO, NUM_FIX) \<Rightarrow> flo_a | (NUM_FLO, NUM_FLO) \<Rightarrow> flo_a
        | (NUM_FLO, NUM_BIG) \<Rightarrow> flo_a | (NUM_FLO, NUM_RAT) \<Rightarrow> flo_a
        | (NUM_RAT, NUM_FIX) \<Rightarrow> bad_a | (NUM_RAT, NUM_BIG) \<Rightarrow> bad_a | (NUM_RAT, NUM_RAT) \<Rightarrow> bad_a
        | (NUM_FLO, NUM_CPX) \<Rightarrow> bad_a | (NUM_CPX, NUM_FIX) \<Rightarrow> bad_a | (NUM_CPX, NUM_FLO) \<Rightarrow> bad_a
        | (NUM_CPX, NUM_BIG) \<Rightarrow> bad_a | (NUM_CPX, NUM_CPX) \<Rightarrow> bad_a | (NUM_CPX, NUM_RAT) \<Rightarrow> bad_a
        | (NUM_FIX, NUM_FLO) \<Rightarrow> flo_b | (NUM_BIG, NUM_FLO) \<Rightarrow> flo_b | (NUM_RAT, NUM_FLO) \<Rightarrow> flo_b
        | (NUM_FIX, NUM_RAT) \<Rightarrow> bad_b | (NUM_BIG, NUM_RAT) \<Rightarrow> bad_b
        | (NUM_FIX, NUM_CPX) \<Rightarrow> bad_b | (NUM_BIG, NUM_CPX) \<Rightarrow> bad_b
        | (NUM_FIX, NUM_FIX) \<Rightarrow>
            (if unbox_fixnum b = 0 then None else Some (IMM (sexp_fx_rem (imm_word a) (imm_word b))))
        | (NUM_FIX, NUM_BIG) \<Rightarrow> Some a
        | (NUM_BIG, NUM_FIX) \<Rightarrow> Some (sexp_bignum_fxrem (big a) (unbox_fixnum b))
        | (NUM_BIG, NUM_BIG) \<Rightarrow> map_option sexp_bignum_normalize (sexp_bignum_remainder N (big a) (big b))
        | _ \<Rightarrow> Some SEXP_VOID))"

definition sexp_compare :: "'f flo_ops \<Rightarrow> 'f arith \<Rightarrow> 'f sexp \<Rightarrow> 'f sexp \<Rightarrow> 'f sexp option" where
  "sexp_compare F N a b =
    (let flo = sexp_flonum_value; big = bignum_object;
         nan = (\<lambda>x. Some (sexp_xtype_exception ''can't compare NaN'' x));
         left_inf = (\<lambda>f. Some (if f_lt F (f_of_int F 0) f then SEXP_ONE else SEXP_NEG_ONE));
         right_inf = (\<lambda>f. Some (if f_lt F (f_of_int F 0) f then SEXP_NEG_ONE else SEXP_ONE))
     in if num_rank (sexp_number_type a) > num_rank (sexp_number_type b)
        then do { r \<leftarrow> r_compare N b a; Some (if sexp_exceptionp r then r else sexp_negate F r) }
        else case (sexp_number_type a, sexp_number_type b) of
          (NUM_NOT, NUM_NOT) \<Rightarrow> Some (sexp_type_exception SEXP_NUMBER a)
        | (NUM_NOT, NUM_FIX) \<Rightarrow> Some (sexp_type_exception SEXP_NUMBER a)
        | (NUM_NOT, NUM_FLO) \<Rightarrow> Some (sexp_type_exception SEXP_NUMBER a)
        | (NUM_NOT, NUM_BIG) \<Rightarrow> Some (sexp_type_exception SEXP_NUMBER a)
        | (NUM_CPX, NUM_CPX) \<Rightarrow> Some (sexp_type_exception SEXP_NUMBER a)
        | (NUM_FIX, NUM_CPX) \<Rightarrow> Some (sexp_type_exception SEXP_NUMBER a)
        | (NUM_FLO, NUM_CPX) \<Rightarrow> Some (sexp_type_exception SEXP_NUMBER a)
        | (NUM_BIG, NUM_CPX) \<Rightarrow> Some (sexp_type_exception SEXP_NUMBER a)
        | (NUM_RAT, NUM_CPX) \<Rightarrow> Some (sexp_type_exception SEXP_NUMBER a)
        | (NUM_FIX, NUM_FIX) \<Rightarrow> Some (make_fixnum (unbox_fixnum a - unbox_fixnum b))
        | (NUM_FIX, NUM_FLO) \<Rightarrow>
            (if f_isinf F (flo b) then right_inf (flo b)
             else if f_isnan F (flo b) then nan b
             else do { tmp \<leftarrow> r_inexact_to_exact N b; r_compare N a tmp })
        | (NUM_FIX, NUM_BIG) \<Rightarrow>
            (if sexp_bignum_hi (big b) > 1 \<or> sexp_bignum_data (big b) ! 0 > SEXP_MAX_FIXNUM
             then Some (make_fixnum (if sexp_bignum_sign (big b) < 0 then 1 else - 1))
             else Some (make_fixnum (unbox_fixnum a - sexp_bignum_data (big b) ! 0)))
        | (NUM_FLO, NUM_FLO) \<Rightarrow>
            (if f_isnan F (flo a) then nan a
             else if f_isnan F (flo b) then nan b
             else Some (make_fixnum (if f_lt F (flo a) (flo b) then - 1 else if f_eq F (flo a) (flo b) then 0 else 1)))
        | (NUM_FLO, NUM_BIG) \<Rightarrow>
            (if f_isinf F (flo a) then left_inf (flo a)
             else if f_isnan F (flo a) then nan a
             else do { tmp \<leftarrow> sexp_double_to_bignum F (flo a);
                       Some (make_fixnum (word_of_int (sexp_bignum_compare tmp (big b)))) })
        | (NUM_BIG, NUM_BIG) \<Rightarrow> Some (make_fixnum (word_of_int (sexp_bignum_compare (big a) (big b))))
        | (NUM_FLO, NUM_RAT) \<Rightarrow>
            (if f_isinf F (flo a) then left_inf (flo a)
             else if f_isnan F (flo a) then nan a
             else do { tmp \<leftarrow> r_inexact_to_exact N a; r_compare N tmp b })
        | (NUM_FIX, NUM_RAT) \<Rightarrow> sexp_ratio_compare N (RATIO a SEXP_ONE) b
        | (NUM_BIG, NUM_RAT) \<Rightarrow> sexp_ratio_compare N (RATIO a SEXP_ONE) b
        | (NUM_RAT, NUM_RAT) \<Rightarrow> sexp_ratio_compare N a b
        | _ \<Rightarrow> Some (sexp_xtype_exception ''unknown comparison'' a))"

definition sexp_inexact_to_exact :: "'f flo_ops \<Rightarrow> 'f arith \<Rightarrow> 'f sexp \<Rightarrow> 'f sexp option" where
  "sexp_inexact_to_exact F N z =
    (if sexp_exactp z then Some z
     else if sexp_flonump z then
       (let f = sexp_flonum_value z
        in if f_isinf F f \<or> f_isnan F f then Some (sexp_xtype_exception ''exact: not a finite number'' z)
           else if \<not> f_eq F f (f_trunc F f) then sexp_double_to_ratio_2 F N f
           else if f_lt F (f_of_int F (sint SEXP_MAX_FIXNUM)) f \<or> f_lt F f (f_of_int F (sint SEXP_MIN_FIXNUM))
           then map_option BIGNUM (sexp_double_to_bignum F f)
           else Some (make_fixnum (word_of_int (f_to_int F f))))
     else if sexp_complexp z then do {
       real \<leftarrow> r_inexact_to_exact N (sexp_complex_real z);
       imag \<leftarrow> r_inexact_to_exact N (sexp_complex_imag z);
       Some (if sexp_exceptionp real then real
             else if sexp_exceptionp imag then imag
             else if imag = SEXP_ZERO then real
             else COMPLEX real imag)
     }
     else Some (sexp_type_exception SEXP_FLONUM z))"

fun sexp_exact_to_inexact :: "'f flo_ops \<Rightarrow> 'f arith \<Rightarrow> 'f sexp \<Rightarrow> 'f sexp option" where
  "sexp_exact_to_inexact F N (COMPLEX r i) = do {
     real \<leftarrow> sexp_exact_to_inexact F N r;
     imag \<leftarrow> sexp_exact_to_inexact F N i;
     Some (COMPLEX real imag)
   }"
| "sexp_exact_to_inexact F N i =
    (if sexp_fixnump i then Some (FLONUM (sexp_fixnum_to_double F i))
     else if sexp_flonump i then Some i
     else if sexp_bignump i then Some (FLONUM (sexp_bignum_to_double F (bignum_object i)))
     else if sexp_ratiop i then map_option FLONUM (sexp_ratio_to_double F N i)
     else Some (sexp_type_exception SEXP_FIXNUM i))"

subsection \<open>Tying the knot\<close>

fun arith :: "'f flo_ops \<Rightarrow> nat \<Rightarrow> 'f arith" where
  "arith F 0 =
    (let stop = (\<lambda>a b. None)
     in \<lparr>r_add = stop, r_sub = stop, r_mul = stop, r_div = stop, r_quotient = stop, r_remainder = stop,
         r_compare = stop, r_inexact_to_exact = (\<lambda>a. None)\<rparr>)"
| "arith F (Suc n) =
    (let N = arith F n
     in \<lparr>r_add = sexp_add F N, r_sub = sexp_sub F N, r_mul = sexp_mul F N, r_div = sexp_div F N,
         r_quotient = sexp_quotient F N, r_remainder = sexp_remainder F N, r_compare = sexp_compare F N,
         r_inexact_to_exact = sexp_inexact_to_exact F N\<rparr>)"

declare arith.simps [simp del]

fun generic_expt_loop :: "'f arith \<Rightarrow> nat \<Rightarrow> 'f sexp \<Rightarrow> 'f sexp \<Rightarrow> 'f sexp option" where
  "generic_expt_loop N e res tmp =
    (if e = 0 then Some res
     else do {
       res \<leftarrow> (if odd e then r_mul N res tmp else Some res);
       tmp \<leftarrow> r_mul N tmp tmp;
       generic_expt_loop N (e div 2) res tmp
     })"

declare generic_expt_loop.simps [simp del]

definition sexp_generic_expt :: "'f arith \<Rightarrow> 'f sexp \<Rightarrow> u64 \<Rightarrow> 'f sexp option" where
  "sexp_generic_expt N x e = (if sint e > 0 then generic_expt_loop N (nat (sint e)) SEXP_ONE x else Some SEXP_ONE)"

end
