(* ===== verification/Division.thy ===== *)
theory Division
  imports Numbers
begin

text \<open>
  Correctness and termination of \<open>sexp_bignum_quot_rem\<close>.  Each round of the loop guesses a multiple
  \<open>y\<close> of the divisor from the leading digits; the guess satisfies \<open>0 < y < 2 * a1\<close>, so the
  absolute remainder gets strictly smaller although it may change its sign.
\<close>

subsection \<open>Exact integers\<close>

fun exact_int :: "'f sexp \<Rightarrow> bool" where
  "exact_int (IMM w) = sexp_fixnump_w w"
| "exact_int (BIGNUM b) = bignum_ok b"
| "exact_int _ = False"

fun int_val :: "'f sexp \<Rightarrow> int" where
  "int_val (IMM w) = fixnum_value w"
| "int_val (BIGNUM b) = bn_int b"
| "int_val _ = 0"

definition norm_int :: "'f sexp \<Rightarrow> bool" where
  "norm_int x \<longleftrightarrow> exact_int x \<and> (sexp_bignump x \<longrightarrow> \<not> fits_fixnum (int_val x))"

definition fixnum_obj :: "int \<Rightarrow> 'f sexp" where
  "fixnum_obj k = IMM (fixnum_word k)"

lemma make_fixnum_obj: "make_fixnum w = fixnum_obj (sint w)"
  by (simp add: make_fixnum_def fixnum_obj_def sexp_make_fixnum_word)

lemma fixnum_obj_simps [simp]:
  "exact_int (fixnum_obj k)" "sexp_fixnump (fixnum_obj k)" "\<not> sexp_bignump (fixnum_obj k)"
  "\<not> sexp_flonump (fixnum_obj k)" "\<not> sexp_ratiop (fixnum_obj k)" "\<not> sexp_exceptionp (fixnum_obj k)"
  "norm_int (fixnum_obj k)"
  "imm_word (fixnum_obj k) = fixnum_word k" "fixnum_obj k \<noteq> BIGNUM b" "BIGNUM b \<noteq> fixnum_obj k"
  "fixnum_obj k \<noteq> RATIO m n" "RATIO m n \<noteq> fixnum_obj k"
  by (simp_all add: fixnum_obj_def norm_int_def)

lemma int_val_fixnum_obj [simp]: "fits_fixnum k \<Longrightarrow> int_val (fixnum_obj k) = k"
  by (simp add: fixnum_obj_def)

lemma fits_small [simp]: "fits_fixnum 0" "fits_fixnum 1" "fits_fixnum (- 1)" "fits_fixnum 2"
  by (simp_all add: fits_fixnum_def)

lemma const_objs:
  "SEXP_ZERO = fixnum_obj 0" "SEXP_ONE = fixnum_obj 1" "SEXP_NEG_ONE = fixnum_obj (- 1)" "SEXP_TWO = fixnum_obj 2"
  by (simp_all add: SEXP_ZERO_def SEXP_ONE_def SEXP_NEG_ONE_def SEXP_TWO_def make_fixnum_obj)

lemma fixnum_obj_inject: "fits_fixnum m \<Longrightarrow> fits_fixnum n \<Longrightarrow> fixnum_obj m = fixnum_obj n \<longleftrightarrow> m = n"
  by (simp add: fixnum_obj_def fixnum_word_inject)

lemma exact_fixnum: "exact_int x \<Longrightarrow> sexp_fixnump x \<Longrightarrow> x = fixnum_obj (int_val x) \<and> fits_fixnum (int_val x)"
  by (cases x) (simp_all add: fixnum_obj_def fixnum_word_value fits_fixnum_value)

lemma exact_int_cases:
  assumes "exact_int x"
  obtains (fx) k where "x = fixnum_obj k" "fits_fixnum k" | (bg) b where "x = BIGNUM b" "bignum_ok b"
  using assms exact_fixnum [of x] by (cases x) auto

lemma norm_int_eq: "norm_int x \<Longrightarrow> fits_fixnum k \<Longrightarrow> x = fixnum_obj k \<longleftrightarrow> int_val x = k"
  by (auto simp: norm_int_def fixnum_obj_inject elim!: exact_int_cases)

lemma norm_int_fixnump: "norm_int x \<Longrightarrow> sexp_fixnump x \<longleftrightarrow> fits_fixnum (int_val x)"
  by (auto simp: norm_int_def elim!: exact_int_cases)

lemma bn_int_hi_1: "bignum_ok b \<Longrightarrow> sexp_bignum_hi b = 1 \<Longrightarrow>
  bn_int b = sexp_bignum_sign b * uint (sexp_bignum_data b ! 0)"
  using bn_nat_hi_1 [of b] by (simp add: bn_int_def bignum_ok_def)

lemma normalize_val:
  assumes "bignum_ok b"
  shows "norm_int (sexp_bignum_normalize (BIGNUM b :: 'f sexp))"
    and "int_val (sexp_bignum_normalize (BIGNUM b :: 'f sexp)) = bn_int b"
proof -
  let ?r = "sexp_bignum_normalize (BIGNUM b :: 'f sexp)" and ?d = "sexp_bignum_data b ! 0"
  have s: "sexp_bignum_sign b \<in> {1, - 1}" using assms by (simp add: bignum_ok_def)
  have "norm_int ?r \<and> int_val ?r = bn_int b"
  proof (cases "sexp_bignum_hi b = 1")
    case False
    then have hi: "1 < sexp_bignum_hi b" using hi_pos [of b] by linarith
    have "2 ^ 64 \<le> bn_nat b" using False hi_eq_1_iff [of b] by simp
    then have "\<not> fits_fixnum (bn_int b)" using s by (auto simp: fits_fixnum_def bn_int_def)
    with hi assms show ?thesis by (simp add: norm_int_def sexp_bignum_normalize.simps)
  next
    case True
    have v: "bn_int b = sexp_bignum_sign b * uint ?d" using assms True by (rule bn_int_hi_1)
    have mx: "SEXP_MAX_FIXNUM < ?d \<longleftrightarrow> 2 ^ 62 \<le> uint ?d" "?d = SEXP_MAX_FIXNUM + 1 \<longleftrightarrow> uint ?d = 2 ^ 62"
      using sint_fixnum_bounds(3)
      by (auto simp: word_less_def word_uint_eq_iff SEXP_MAX_FIXNUM_def)
    have fit: "\<not> (SEXP_MAX_FIXNUM < ?d \<and> \<not> (sexp_bignum_sign b = - 1 \<and> ?d = SEXP_MAX_FIXNUM + 1))
        \<longleftrightarrow> fits_fixnum (bn_int b)"
    proof -
      obtain u where u: "uint ?d = u" "0 \<le> u" using uint_u64_range [of ?d] by blast
      show ?thesis unfolding mx v u(1) using s u(2) by (auto simp: fits_fixnum_def)
    qed
    have w: "?d * word_of_int (sexp_bignum_sign b) = word_of_int (bn_int b)"
      unfolding v by (simp add: mult.commute)
    have sv: "sint (word_of_int (bn_int b) :: u64) = bn_int b" if "fits_fixnum (bn_int b)"
      using that by (intro sint_signed_word) (simp_all add: fits_fixnum_def)
    show ?thesis
      using True fit assms sv by (auto simp: Let_def w make_fixnum_obj norm_int_def sexp_bignum_normalize.simps)
  qed
  then show "norm_int ?r" "int_val ?r = bn_int b" by simp_all
qed

lemma normalize_exact: "bignum_ok b \<Longrightarrow> exact_int (sexp_bignum_normalize (BIGNUM b))"
  using normalize_val(1) unfolding norm_int_def by blast

lemma negate_exact_val:
  assumes "exact_int x" "int_val x \<noteq> - (2 ^ 62) \<or> sexp_bignump x"
  shows "exact_int (sexp_negate_exact x)" "int_val (sexp_negate_exact x) = - int_val x"
proof -
  have "exact_int (sexp_negate_exact x) \<and> int_val (sexp_negate_exact x) = - int_val x"
    using assms(1)
  proof (cases rule: exact_int_cases)
    case (fx k)
    then have "fits_fixnum (- k)" using assms(2) by (auto simp: fits_fixnum_def)
    then show ?thesis using fx by (simp add: fixnum_obj_def fx_ops_word)
  next
    case (bg b)
    then show ?thesis by (auto simp: bignum_ok_def bn_int_def bn_nat_def)
  qed
  then show "exact_int (sexp_negate_exact x)" "int_val (sexp_negate_exact x) = - int_val x" by simp_all
qed

subsection \<open>Leading digits\<close>

lemma native_top_nat:
  "unat (native_add_uint (native_shl (native_from_uint h) 64) l) = unat h * 2 ^ 64 + unat l"
proof -
  have "unat h * 2 ^ 64 + unat l < 2 ^ 128"
    using unat_u64_less [of h] unat_u64_less [of l] by (simp del: unat_u64_less)
  then show ?thesis
    by (simp add: native_defs unat_add_mod unat_shl unat_ucast_u128 mod_simps del: push_bit_eq_mult)
qed

lemma top_digits_nat:
  assumes "2 \<le> n" "n \<le> length xs"
  shows "unat (top_digits xs n) = dval (take n xs) div 2 ^ (64 * (n - 2))"
proof -
  define m where "m = n - 2"
  have n: "n = Suc (Suc m)" using assms(1) by (simp add: m_def)
  have "dval (take n xs) = dval (take m xs) + 2 ^ (64 * m) * (unat (xs ! m) + 2 ^ 64 * unat (xs ! Suc m))"
    using dval_take_Suc [of "Suc m" xs] dval_take_Suc [of m xs] assms(2)
    by (simp add: n algebra_simps power_add)
  then show ?thesis
    using dval_take_less [of m xs] by (simp add: top_digits_def native_top_nat n)
qed

lemma top_digit_nat:
  assumes "1 \<le> n" "n \<le> length xs"
  shows "unat (xs ! (n - 1)) = dval (take n xs) div 2 ^ (64 * (n - 1))"
proof -
  have "n - 1 < length xs" "n = Suc (n - 1)" using assms by linarith+
  then have "dval (take n xs) = dval (take (n - 1) xs) + 2 ^ (64 * (n - 1)) * unat (xs ! (n - 1))"
    using dval_take_Suc [of "n - 1" xs] by simp
  then show ?thesis using dval_take_less [of "n - 1" xs] by simp
qed

lemma small_top_iff: "small_top d \<longleftrightarrow> unat d < 2 ^ 32"
  by (simp add: small_top_def native_defs word_less_nat_alt unat_ucast_u128)

lemma more_digits_nat:
  assumes "unat n < 2 ^ 96"
  shows "unat (more_digits n d) = unat n * 2 ^ 32 + unat d div 2 ^ 32"
proof -
  have "unat d div 2 ^ 32 < 2 ^ 32" by (rule less_mult_imp_div_less) (use unat_u64_less [of d] in simp)
  then have "unat n * 2 ^ 32 + unat d div 2 ^ 32 < 2 ^ 128" using assms by simp
  then show ?thesis
    by (simp add: more_digits_def native_defs unat_add_mod unat_shl unat_ucast_u128 unat_shr mod_simps
        del: push_bit_eq_mult)
qed

text \<open>32 more bits of the next digit read the number with a scale smaller by 32 bits.\<close>

lemma more_bits:
  assumes "k < length xs" "k < n" "n \<le> length xs"
  shows "dval (take n xs) div 2 ^ (64 * Suc k) * 2 ^ 32 + unat (xs ! k) div 2 ^ 32
     = dval (take n xs) div 2 ^ (64 * k + 32)"
proof -
  let ?V = "dval (take n xs)" and ?d = "unat (xs ! k)"
  have "Suc k \<le> length (take n xs)" using assms by simp
  then have "?V = dval (take (Suc k) xs) + 2 ^ (64 * Suc k) * dval (drop (Suc k) (take n xs))"
    using dval_split [of "Suc k" "take n xs"] assms(2) by (simp add: min_def)
  then have V: "?V = dval (take k xs) + 2 ^ (64 * k) * (?d + 2 ^ 64 * dval (drop (Suc k) (take n xs)))"
    using dval_take_Suc [OF assms(1)] by (simp add: algebra_simps power_add)
  let ?H = "dval (drop (Suc k) (take n xs))"
  have k: "?V div 2 ^ (64 * k) = ?d + 2 ^ 64 * ?H"
    unfolding V using dval_take_less [of k xs] by simp
  have "?V div 2 ^ (64 * Suc k) = ?V div 2 ^ (64 * k) div 2 ^ 64"
    by (simp add: power_add div_mult2_eq [symmetric] mult.commute)
  also have "\<dots> = ?H" unfolding k by simp
  finally have 1: "?V div 2 ^ (64 * Suc k) = ?H" .
  have "?V div 2 ^ (64 * k + 32) = ?V div 2 ^ (64 * k) div 2 ^ 32"
    by (simp add: power_add div_mult2_eq)
  also have "\<dots> = (?d + 2 ^ 32 * (2 ^ 32 * ?H)) div 2 ^ 32" unfolding k by simp
  also have "\<dots> = ?d div 2 ^ 32 + 2 ^ 32 * ?H" by (subst div_mult_self2) simp_all
  finally show ?thesis unfolding 1 by simp
qed

subsection \<open>The estimate\<close>

lemma estimate_bounds:
  fixes A b s t e :: nat
  assumes "s = t + e" and d: "d = (A div 2 ^ s) div (b div 2 ^ t)" "0 < d"
  shows "0 < b * (d * 2 ^ e) \<and> b * (d * 2 ^ e) < 2 * A"
proof
  let ?n = "A div 2 ^ s" and ?m = "b div 2 ^ t"
  have m: "0 < ?m" using d by (cases "?m = 0") simp_all
  then have "0 < b" by (cases "b = 0") simp_all
  with d(2) show "0 < b * (d * 2 ^ e)" by simp
  have "b < (?m + 1) * 2 ^ t"
    using dividend_less_div_times [of "2 ^ t" b] by (simp add: algebra_simps)
  then have "b * (d * 2 ^ e) < (?m + 1) * 2 ^ t * (d * 2 ^ e)" using d(2) by simp
  also have "\<dots> = (d * ?m + d) * 2 ^ s" by (simp add: assms(1) power_add algebra_simps)
  also have "\<dots> \<le> (?n + ?n) * 2 ^ s"
  proof (intro mult_le_mono1 add_le_mono)
    show dm: "d * ?m \<le> ?n" unfolding d(1) by (rule div_times_less_eq_dividend)
    have "d * 1 \<le> d * ?m" using m by (intro mult_le_mono2) simp
    with dm show "d \<le> ?n" unfolding mult_1_right by (rule le_trans [rotated])
  qed
  also have "\<dots> = 2 * (?n * 2 ^ s)" by simp
  also have "\<dots> \<le> 2 * A" using div_times_less_eq_dividend [of A "2 ^ s"] by (intro mult_le_mono2)
  finally show "b * (d * 2 ^ e) < 2 * A" .
qed

text \<open>What one evaluation of \<open>quot_guess\<close> returns: the quotient of two leading parts.\<close>

definition guess_ok :: "nat \<Rightarrow> nat \<Rightarrow> nat \<Rightarrow> nat \<Rightarrow> bool" where
  "guess_ok A b d off \<longleftrightarrow> 1 \<le> off \<and> 0 < d \<and>
    (\<exists>s t. s = t + 64 * (off - 1) \<and> d = (A div 2 ^ s) div (b div 2 ^ t))"

lemma guess_ok_bounds:
  "guess_ok A b d off \<Longrightarrow> 0 < b * (d * 2 ^ (64 * (off - 1))) \<and> b * (d * 2 ^ (64 * (off - 1))) < 2 * A"
  unfolding guess_ok_def using estimate_bounds by blast

lemma lead_div:
  assumes "bignum_ok a" "2 \<le> sexp_bignum_hi a"
  shows "unat (top_digits (sexp_bignum_data a) (sexp_bignum_hi a)) = bn_nat a div 2 ^ (64 * (sexp_bignum_hi a - 2))"
    and "unat (sexp_bignum_data a ! (sexp_bignum_hi a - 1)) = bn_nat a div 2 ^ (64 * (sexp_bignum_hi a - 1))"
  using top_digits_nat [OF assms(2), of "sexp_bignum_data a"] top_digit_nat [of "sexp_bignum_hi a" "sexp_bignum_data a"]
    hi_le_length [of a] assms by (simp_all add: bn_nat_take_hi bignum_ok_def)

lemma lead_more:
  assumes "bignum_ok a" "k < sexp_bignum_hi a" "unat n = bn_nat a div 2 ^ (64 * Suc k)" "unat n < 2 ^ 96"
  shows "unat (more_digits n (sexp_bignum_data a ! k)) = bn_nat a div 2 ^ (64 * k + 32)"
proof -
  have l: "sexp_bignum_hi a \<le> sexp_bignum_length a" using assms(1) by (simp add: hi_le_length bignum_ok_def)
  show ?thesis
    using more_bits [of k "sexp_bignum_data a" "sexp_bignum_hi a"] assms l
    by (simp add: more_digits_nat bn_nat_take_hi)
qed

lemma lead_two_small:
  assumes "bignum_ok a" "2 \<le> sexp_bignum_hi a" "small_top (sexp_bignum_data a ! (sexp_bignum_hi a - 1))"
  shows "unat (top_digits (sexp_bignum_data a) (sexp_bignum_hi a)) < 2 ^ 96"
proof -
  let ?h = "sexp_bignum_data a ! (sexp_bignum_hi a - 1)" and ?l = "sexp_bignum_data a ! (sexp_bignum_hi a - 2)"
  have "unat ?h + 1 \<le> 2 ^ 32" using assms(3) by (simp add: small_top_iff)
  then have "(unat ?h + 1) * 2 ^ 64 \<le> 2 ^ 32 * 2 ^ 64" by (rule mult_le_mono1)
  moreover have "unat ?h * 2 ^ 64 + unat ?l < (unat ?h + 1) * 2 ^ 64" by simp
  ultimately show ?thesis by (simp add: top_digits_def native_top_nat del: unat_u64_less)
qed

lemma div_pow_less: "(b::nat) < 2 ^ (k + t) \<Longrightarrow> b div 2 ^ t < 2 ^ k"
  by (rule less_mult_imp_div_less) (simp add: power_add)

lemma div_pow_ge: "2 ^ (k + s) \<le> (A::nat) \<Longrightarrow> 2 ^ k \<le> A div 2 ^ s"
  using div_le_mono [of "2 ^ (k + s)" A "2 ^ s"] by (simp add: power_add)

lemma hi_decomp:
  assumes "2 \<le> sexp_bignum_hi a"
  shows "2 ^ (64 * (sexp_bignum_hi a - 1)) \<le> bn_nat a" "bn_nat a < 2 ^ (64 * sexp_bignum_hi a)"
  using bn_nat_ge_hi [of a] bn_nat_less_hi [of a] assms by simp_all

lemma hi_div_pos:
  assumes "2 \<le> sexp_bignum_hi b" "t \<le> 64 * (sexp_bignum_hi b - 1)"
  shows "0 < bn_nat b div 2 ^ t"
proof -
  have "(2::nat) ^ t \<le> 2 ^ (64 * (sexp_bignum_hi b - 1))" using assms(2) by (intro power_increasing) simp_all
  also have "\<dots> \<le> bn_nat b" using assms(1) by (rule hi_decomp)
  finally show ?thesis by (simp add: div_greater_zero_iff)
qed

definition guess_parts :: "bignum \<Rightarrow> bignum \<Rightarrow> u128 \<times> u128" where
  "guess_parts a b =
    (let A = sexp_bignum_data a; B = sexp_bignum_data b; n = sexp_bignum_hi a; m = sexp_bignum_hi b
     in if n > 2 \<and> m > 2 \<and> small_top (A ! (n - 1)) \<and> small_top (B ! (m - 1))
        then (more_digits (top_digits A n) (A ! (n - 3)), more_digits (top_digits B m) (B ! (m - 3)))
        else (top_digits A n, top_digits B m))"

definition guess_parts_low :: "bignum \<Rightarrow> bignum \<Rightarrow> u128 \<times> u128" where
  "guess_parts_low a b =
    (let A = sexp_bignum_data a; B = sexp_bignum_data b; n = sexp_bignum_hi a; m = sexp_bignum_hi b
     in if small_top (A ! (n - 1)) \<and> small_top (B ! (m - 1))
        then (more_digits (top_digits A n) (A ! (n - 3)), more_digits (native_from_uint (B ! (m - 1))) (B ! (m - 2)))
        else (top_digits A n, native_from_uint (B ! (m - 1))))"

lemma quot_guess_parts:
  "quot_guess a b =
    (let (dn, dd) = guess_parts a b; d = native_div dn dd; (en, ed) = guess_parts_low a b;
         off = sexp_bignum_hi a - sexp_bignum_hi b + 1
     in if d = 0 then (native_div en ed, off - 1) else (d, off))"
  by (simp add: quot_guess_def guess_parts_def guess_parts_low_def Let_def native_eq_def native_from_uint_def
      split: if_splits)

lemma guess_parts_lead:
  assumes ok: "bignum_ok a" "bignum_ok b" and hi: "2 \<le> sexp_bignum_hi b" "sexp_bignum_hi b \<le> sexp_bignum_hi a"
    and g: "guess_parts a b = (dn, dd)"
  obtains s t where "unat dn = bn_nat a div 2 ^ s" "unat dd = bn_nat b div 2 ^ t" "0 < bn_nat b div 2 ^ t"
    "s = t + 64 * (sexp_bignum_hi a - sexp_bignum_hi b)"
proof -
  let ?n = "sexp_bignum_hi a" and ?m = "sexp_bignum_hi b"
  let ?A = "sexp_bignum_data a" and ?B = "sexp_bignum_data b"
  have hia: "2 \<le> ?n" using hi by simp
  note la = lead_div [OF ok(1) hia] and lb = lead_div [OF ok(2) hi(1)]
  note pos = hi_div_pos [OF hi(1)]
  show thesis
  proof (cases "?n > 2 \<and> ?m > 2 \<and> small_top (?A ! (?n - 1)) \<and> small_top (?B ! (?m - 1))")
    case True
    have e: "dn = more_digits (top_digits ?A ?n) (?A ! (?n - 3))" "dd = more_digits (top_digits ?B ?m) (?B ! (?m - 3))"
      using g True by (simp_all add: guess_parts_def Let_def)
    have k: "Suc (?n - 3) = ?n - 2" "Suc (?m - 3) = ?m - 2" "?n - 3 < ?n" "?m - 3 < ?m" using True by linarith+
    have "unat dn = bn_nat a div 2 ^ (64 * (?n - 3) + 32)"
      unfolding e using True k la(1) lead_two_small [OF ok(1) hia]
      by (intro lead_more [OF ok(1)]) simp_all
    moreover have "unat dd = bn_nat b div 2 ^ (64 * (?m - 3) + 32)"
      unfolding e using True k lb(1) lead_two_small [OF ok(2) hi(1)]
      by (intro lead_more [OF ok(2)]) simp_all
    moreover have "64 * (?n - 3) + 32 = 64 * (?m - 3) + 32 + 64 * (?n - ?m)" using True hi by linarith
    moreover have "64 * (?m - 3) + 32 \<le> 64 * (?m - 1)" using True by linarith
    ultimately show thesis by (intro that pos) auto
  next
    case False
    then have "dn = top_digits ?A ?n" "dd = top_digits ?B ?m" using g by (auto simp: guess_parts_def)
    moreover have "64 * (?n - 2) = 64 * (?m - 2) + 64 * (?n - ?m)" using hi by linarith
    moreover have "64 * (?m - 2) \<le> 64 * (?m - 1)" by linarith
    ultimately show thesis using la lb by (intro that pos) auto
  qed
qed

lemma guess_parts_low_lead:
  assumes ok: "bignum_ok a" "bignum_ok b" and hi: "2 \<le> sexp_bignum_hi b" "sexp_bignum_hi b < sexp_bignum_hi a"
    and g: "guess_parts_low a b = (dn, dd)"
  obtains s t where "unat dn = bn_nat a div 2 ^ s" "unat dd = bn_nat b div 2 ^ t" "0 < bn_nat b div 2 ^ t"
    "s = t + 64 * (sexp_bignum_hi a - sexp_bignum_hi b - 1)" "bn_nat b div 2 ^ t \<le> bn_nat a div 2 ^ s"
proof -
  let ?n = "sexp_bignum_hi a" and ?m = "sexp_bignum_hi b"
  let ?A = "sexp_bignum_data a" and ?B = "sexp_bignum_data b"
  have hia: "2 \<le> ?n" using hi by simp
  note la = lead_div [OF ok(1) hia] and lb = lead_div [OF ok(2) hi(1)]
  note pos = hi_div_pos [OF hi(1)]
  have le: "bn_nat b div 2 ^ t \<le> bn_nat a div 2 ^ s" if "64 * ?m = k + t" "64 * (?n - 1) = k + s" for s t k
    using div_pow_less [of "bn_nat b" k t] div_pow_ge [of k s "bn_nat a"] that
      hi_decomp(1) [OF hia] hi_decomp(2) [OF hi(1)] by simp
  show thesis
  proof (cases "small_top (?A ! (?n - 1)) \<and> small_top (?B ! (?m - 1))")
    case True
    have e: "dn = more_digits (top_digits ?A ?n) (?A ! (?n - 3))"
      "dd = more_digits (native_from_uint (?B ! (?m - 1))) (?B ! (?m - 2))"
      using g True by (simp_all add: guess_parts_low_def Let_def)
    have k: "Suc (?n - 3) = ?n - 2" "Suc (?m - 2) = ?m - 1" "?n - 3 < ?n" "?m - 2 < ?m" using hi by linarith+
    have 1: "unat dn = bn_nat a div 2 ^ (64 * (?n - 3) + 32)"
      unfolding e using True k la(1) lead_two_small [OF ok(1) hia]
      by (intro lead_more [OF ok(1)]) simp_all
    have 2: "unat dd = bn_nat b div 2 ^ (64 * (?m - 2) + 32)"
      unfolding e using True k lb(2)
      by (intro lead_more [OF ok(2)]) (simp_all add: native_from_uint_def unat_ucast_u128 small_top_iff)
    have 3: "64 * (?n - 3) + 32 = 64 * (?m - 2) + 32 + 64 * (?n - ?m - 1)" using hi by linarith
    have 4: "64 * (?m - 2) + 32 \<le> 64 * (?m - 1)" using hi by linarith
    have 5: "64 * ?m = 96 + (64 * (?m - 2) + 32)" "64 * (?n - 1) = 96 + (64 * (?n - 3) + 32)"
      using hi by linarith+
    show thesis by (rule that [OF 1 2 pos [OF 4] 3 le [OF 5]])
  next
    case False
    then have "dn = top_digits ?A ?n" "dd = native_from_uint (?B ! (?m - 1))"
      using g by (auto simp: guess_parts_low_def)
    moreover have "64 * (?n - 2) = 64 * (?m - 1) + 64 * (?n - ?m - 1)" using hi by linarith
    moreover have "64 * ?m = 64 + 64 * (?m - 1)" "64 * (?n - 1) = 64 + 64 * (?n - 2)" using hi by linarith+
    ultimately show thesis
      using la lb by (intro that pos le) (auto simp: native_from_uint_def unat_ucast_u128)
  qed
qed

lemma quot_guess_ok:
  assumes ok: "bignum_ok a" "bignum_ok b" and hi: "2 \<le> sexp_bignum_hi b" and le: "bn_nat b \<le> bn_nat a"
    and g: "quot_guess a b = (d, off)"
  shows "guess_ok (bn_nat a) (bn_nat b) (unat d) off \<and> off \<le> sexp_bignum_hi a - sexp_bignum_hi b + 1"
proof -
  let ?n = "sexp_bignum_hi a" and ?m = "sexp_bignum_hi b"
  have mn: "?m \<le> ?n" using bn_nat_hi_less [of a b] le by linarith
  obtain dn dd where p: "guess_parts a b = (dn, dd)" by fastforce
  obtain en ed where q: "guess_parts_low a b = (en, ed)" by fastforce
  obtain s t where st: "unat dn = bn_nat a div 2 ^ s" "unat dd = bn_nat b div 2 ^ t" "0 < bn_nat b div 2 ^ t"
    "s = t + 64 * (?n - ?m)" using guess_parts_lead [OF ok hi mn p] by metis
  show ?thesis
  proof (cases "native_div dn dd = 0")
    case False
    then have "d = native_div dn dd" "off = ?n - ?m + 1" using g by (simp_all add: quot_guess_parts p q)
    then show ?thesis
      using False st unfolding guess_ok_def
      by (auto simp: native_div_def unat_div_distrib unat_eq_zero [symmetric] unat_gt_0 simp del: unat_eq_zero)
  next
    case True
    then have e: "d = native_div en ed" "off = ?n - ?m" using g by (simp_all add: quot_guess_parts p q)
    have "unat dn div unat dd = 0"
      using True by (simp add: native_div_def unat_div_distrib [symmetric])
    then have "bn_nat a div 2 ^ s < bn_nat b div 2 ^ t"
      unfolding st(1,2) using st(3) by (metis div_greater_zero_iff less_irrefl linorder_not_less)
    then have "?m \<noteq> ?n" using st(4) le div_le_mono [OF le, of "2 ^ t"] by auto
    then have "?m < ?n" using mn by simp
    from guess_parts_low_lead [OF ok hi this q] obtain s' t' where
      "unat en = bn_nat a div 2 ^ s'" "unat ed = bn_nat b div 2 ^ t'" "0 < bn_nat b div 2 ^ t'"
      "s' = t' + 64 * (?n - ?m - 1)" "bn_nat b div 2 ^ t' \<le> bn_nat a div 2 ^ s'" by metis
    then show ?thesis
      using e \<open>?m < ?n\<close> unfolding guess_ok_def
      by (auto simp: native_div_def unat_div_distrib div_greater_zero_iff)
  qed
qed

subsection \<open>The loop\<close>

definition clear_digits :: "bignum \<Rightarrow> nat \<Rightarrow> nat \<Rightarrow> bool" where
  "clear_digits x off len \<longleftrightarrow> off < len \<and> set_digits x off 0 0 = sexp_make_bignum len"

lemma set_digits_make:
  assumes "1 \<le> off" "off < len"
  shows "bn_nat (set_digits (sexp_make_bignum len) off h l) = (unat l + 2 ^ 64 * unat h) * 2 ^ (64 * (off - 1))"
    "bignum_ok (set_digits (sexp_make_bignum len) off h l)"
    "sexp_bignum_sign (set_digits (sexp_make_bignum len) off h l) = 1"
    "clear_digits (set_digits (sexp_make_bignum len) off h l) off len"
proof -
  have z: "(replicate len 0 :: u64 list)[off := h] ! (off - 1) = 0" using assms by (simp add: nth_list_update)
  have "dval ((replicate len 0)[off := h, off - 1 := l])
      = 2 ^ (64 * off) * unat h + 2 ^ (64 * (off - 1)) * unat l"
    using assms dval_update_0 [of off "replicate len 0" h] dval_update_0 [of "off - 1" "(replicate len 0)[off := h]" l] z
    by simp
  moreover have "(2::nat) ^ (64 * off) = 2 ^ (64 * (off - 1)) * 2 ^ 64"
    using assms(1) by (cases off) (simp_all add: power_add)
  ultimately show "bn_nat (set_digits (sexp_make_bignum len) off h l) = (unat l + 2 ^ 64 * unat h) * 2 ^ (64 * (off - 1))"
    using assms by (simp add: set_digits_def set_digit_def bn_nat_def algebra_simps)
  show "bignum_ok (set_digits (sexp_make_bignum len) off h l)"
    "sexp_bignum_sign (set_digits (sexp_make_bignum len) off h l) = 1"
    using assms by (auto simp: set_digits_def set_digit_def bignum_ok_def)
  have "(replicate len 0)[off := h, off - 1 := l, off := 0, off - 1 := 0] = (replicate len 0 :: u64 list)"
    using assms by (intro nth_equalityI) (auto simp: nth_list_update)
  then show "clear_digits (set_digits (sexp_make_bignum len) off h l) off len"
    using assms by (simp add: clear_digits_def set_digits_def set_digit_def sexp_make_bignum_def)
qed

lemma split_pair_nat:
  "unat (native_to_uint (native_and d (native_sub (native_shl (native_from_uint 1) 64) (native_from_uint 1))))
     + 2 ^ 64 * unat (native_to_uint (native_shr d 64)) = unat d"
proof -
  have "native_sub (native_shl (native_from_uint 1) 64) (native_from_uint 1) = mask 64"
    by (simp add: native_defs mask_eq_exp_minus_1)
  then have "unat (native_and d (native_sub (native_shl (native_from_uint 1) 64) (native_from_uint 1))) = unat d mod 2 ^ 64"
    by (simp add: native_and_def unat_low_bits flip: take_bit_eq_mask)
  moreover have "unat d div 2 ^ 64 < 2 ^ 64"
    by (rule less_mult_imp_div_less) (use unsigned_less [of d, where 'a = nat] in simp)
  ultimately show ?thesis
    by (simp add: native_to_uint_def native_shr_def unat_ucast_u64 unat_shr)
qed

lemma quot_rem_loop_step:
  assumes "\<not> sexp_bignum_compare_abs a1 b1 < 0" "set_digits x off 0 0 = x0" "quot_guess a1 b1 = (d, off')"
    "dhi = native_to_uint (native_shr d 64)"
    "dlo = native_to_uint (native_and d (native_sub (native_shl (native_from_uint 1) 64) (native_from_uint 1)))"
    "x' = set_digits x0 off' dhi dlo" "y = sexp_bignum_mul None b1 x'"
    "a2 = (if sign < 0 then sexp_bignum_add None a1 y else sexp_bignum_sub None a1 y)"
    "(if sign < 0 then r_sub N q (BIGNUM x') else r_add N q (BIGNUM x')) = Some q2"
  shows "quot_rem_loop N b1 a1 q x off sign =
    (if sexp_bignum_sign a2 \<noteq> sign then quot_rem_loop N b1 (a2\<lparr>sexp_bignum_sign := - sign\<rparr>) q2 x' off' (- sign)
     else quot_rem_loop N b1 a2 q2 x' off' sign)"
  by (subst quot_rem_loop.simps)
    (simp only: Let_def prod.case if_False assms(1-3) bind.simps
      assms(9) [unfolded assms(4-8)] assms(4-8))

lemma quot_rem_unsigned:
  assumes "a = q * b + r" "0 \<le> r" "r < b" "0 \<le> (a::int)"
  shows "q = a div b" "r = a mod b"
  using assms by (auto simp: div_mult_self3 zmod_trivial_iff algebra_simps)

definition finish_quot_rem :: "bignum \<Rightarrow> bignum \<Rightarrow> 'f sexp \<Rightarrow> 'f sexp \<Rightarrow> 'f sexp \<times> 'f sexp" where
  "finish_quot_rem a b q r =
    (negate_if (sexp_bignum_sign a * sexp_bignum_sign b < 0) q, negate_if (sexp_bignum_sign a < 0) r)"

lemma finish_quot_rem_val:
  assumes "bignum_ok a" "bignum_ok b" "exact_int q" "exact_int r" "bn_nat b \<noteq> 0"
    "int_val q = int (bn_nat a div bn_nat b)" "int_val r = int (bn_nat a mod bn_nat b)"
    "finish_quot_rem a b q r = (q', r')"
  shows "exact_int q' \<and> int_val q' = c_div (bn_int a) (bn_int b) \<and> exact_int r' \<and> int_val r' = c_rem (bn_int a) (bn_int b)"
proof -
  have s: "sexp_bignum_sign a \<in> {1, - 1}" "sexp_bignum_sign b \<in> {1, - 1}"
    using assms(1,2) by (simp_all add: bignum_ok_def)
  have dv: "c_div (bn_int a) (bn_int b) = sexp_bignum_sign a * sexp_bignum_sign b * int (bn_nat a div bn_nat b)"
    "c_rem (bn_int a) (bn_int b) = sexp_bignum_sign a * int (bn_nat a mod bn_nat b)"
    using s assms(5) by (auto simp: c_div_def c_rem_def bn_int_def abs_mult zdiv_int zmod_int)
  have nn: "int_val q \<noteq> - (2 ^ 62) \<or> sexp_bignump q" "int_val r \<noteq> - (2 ^ 62) \<or> sexp_bignump r"
  proof -
    have "0 \<le> int_val q" "0 \<le> int_val r" using assms(6,7) by simp_all
    then show "int_val q \<noteq> - (2 ^ 62) \<or> sexp_bignump q" "int_val r \<noteq> - (2 ^ 62) \<or> sexp_bignump r" by auto
  qed
  note neg = negate_exact_val [OF assms(3) nn(1)] negate_exact_val [OF assms(4) nn(2)]
  show ?thesis
    unfolding dv using assms(3,4,6-8) s neg by (auto simp: finish_quot_rem_def negate_if_def)
qed

text \<open>
  What division needs of the arithmetic it calls: adding and subtracting bignums on the quotient
  being accumulated.
\<close>

locale quotient_accumulator =
  fixes N :: "'f arith"
  assumes add_bignum: "exact_int q \<Longrightarrow> bignum_ok x \<Longrightarrow>
      \<exists>r. r_add N q (BIGNUM x) = Some r \<and> norm_int r \<and> int_val r = int_val q + bn_int x"
    and sub_bignum: "exact_int q \<Longrightarrow> bignum_ok x \<Longrightarrow>
      \<exists>r. r_sub N q (BIGNUM x) = Some r \<and> norm_int r \<and> int_val r = int_val q - bn_int x"
    and sub_one: "norm_int q \<Longrightarrow> 0 < int_val q \<Longrightarrow>
      \<exists>r. r_sub N q SEXP_ONE = Some r \<and> norm_int r \<and> int_val r = int_val q - 1"
begin

lemma next_remainder:
  assumes ok: "bignum_ok a1" "bignum_ok y" "sexp_bignum_sign y = 1" "sexp_bignum_sign a1 = sign"
    and y: "0 < bn_nat y" "bn_nat y < 2 * bn_nat a1"
    and e: "a2 = (if sign < 0 then sexp_bignum_add None a1 y else sexp_bignum_sub None a1 y)"
  shows "bn_nat a2 < bn_nat a1" "bn_int a2 = bn_int a1 - sign * int (bn_nat y)" "bignum_ok a2"
    "sexp_bignum_sign a2 \<noteq> sign \<Longrightarrow> a2\<lparr>sexp_bignum_sign := - sign\<rparr> = a2"
proof -
  have s: "sign \<in> {1, - 1}" using ok by (auto simp: bignum_ok_def)
  show ok2: "bignum_ok a2" using e ok bignum_add_val bignum_sub_val by simp
  show v: "bn_int a2 = bn_int a1 - sign * int (bn_nat y)"
    using s ok bignum_add_val [OF ok(1,2), of None] bignum_sub_val [OF ok(1,2)] bn_int_eq_nat [OF ok(3)]
    by (auto simp: e)
  have "int (bn_nat a2) = \<bar>bn_int a1 - sign * int (bn_nat y)\<bar>" using abs_bn_int [OF ok2] v by simp
  also have "\<dots> = \<bar>int (bn_nat a1) - int (bn_nat y)\<bar>" using s ok(4) by (auto simp: bn_int_def)
  finally show "bn_nat a2 < bn_nat a1" using y by linarith
  assume "sexp_bignum_sign a2 \<noteq> sign"
  then have "sexp_bignum_sign a2 = - sign" using s ok2 by (auto simp: bignum_ok_def)
  then show "a2\<lparr>sexp_bignum_sign := - sign\<rparr> = a2" by (simp add: bignum.equality)
qed

lemma quot_rem_loop_correct:
  assumes "bignum_ok a1" "sexp_bignum_sign a1 = sign" "bignum_ok b1" "sexp_bignum_sign b1 = 1"
    "2 \<le> sexp_bignum_hi b1" "norm_int q" "clear_digits x off len" "sexp_bignum_hi a1 \<le> len"
  shows "\<exists>a' q' sign'. quot_rem_loop N b1 a1 q x off sign = Some (a', q', sign')
    \<and> bignum_ok a' \<and> sexp_bignum_sign a' = sign' \<and> norm_int q' \<and> bn_nat a' < bn_nat b1
    \<and> int_val q' * bn_int b1 + bn_int a' = int_val q * bn_int b1 + bn_int a1"
  using assms(1,2,6-8)
proof (induction "bn_nat a1" arbitrary: a1 q x off sign rule: less_induct)
  case less
  note ok = less.prems
  show ?case
  proof (cases "sexp_bignum_compare_abs a1 b1 < 0")
    case True
    then show ?thesis
      using ok assms(3) by (subst quot_rem_loop.simps) (simp add: compare_abs_neg)
  next
    case False
    then have le: "bn_nat b1 \<le> bn_nat a1" using ok assms(3) by (simp add: compare_abs_neg)
    obtain d off' where g: "quot_guess a1 b1 = (d, off')" by fastforce
    note gk = quot_guess_ok [OF ok(1) assms(3,5) le g]
    have off1: "1 \<le> off'" using gk by (simp add: guess_ok_def)
    have "sexp_bignum_hi b1 \<le> sexp_bignum_hi a1" using bn_nat_hi_less [of a1 b1] le by linarith
    then have offl: "off' < len" using gk ok(5) assms(5) by linarith
    define dhi where "dhi = native_to_uint (native_shr d 64)"
    define dlo where "dlo = native_to_uint (native_and d (native_sub (native_shl (native_from_uint 1) 64) (native_from_uint 1)))"
    define x' where "x' = set_digits (sexp_make_bignum len) off' dhi dlo"
    note x' = set_digits_make [OF off1 offl, of dhi dlo, folded x'_def]
    have xv: "bn_nat x' = unat d * 2 ^ (64 * (off' - 1))"
      using x'(1) split_pair_nat [of d] by (simp add: dhi_def dlo_def)
    define y where "y = sexp_bignum_mul None b1 x'"
    have y: "bignum_ok y" "sexp_bignum_sign y = 1" "bn_nat y = bn_nat b1 * bn_nat x'" "bn_int y = bn_int b1 * bn_int x'"
      using bignum_mul_val [OF assms(3) x'(2)] x'(3) assms(4) by (simp_all add: y_def)
    have yb: "0 < bn_nat y" "bn_nat y < 2 * bn_nat a1"
      using guess_ok_bounds [of "bn_nat a1" "bn_nat b1" "unat d" off'] gk by (simp_all add: y xv)
    define a2 where "a2 = (if sign < 0 then sexp_bignum_add None a1 y else sexp_bignum_sub None a1 y)"
    note a2 = next_remainder [OF ok(1) y(1,2) ok(2) yb a2_def]
    have s: "sign \<in> {1, - 1}" using ok by (auto simp: bignum_ok_def)
    obtain q2 where q2: "(if sign < 0 then r_sub N q (BIGNUM x') else r_add N q (BIGNUM x')) = Some q2"
      "norm_int q2" "int_val q2 = int_val q + sign * bn_int x'"
      using s add_bignum [of q x'] sub_bignum [of q x'] ok(3) x'(2) by (auto simp: norm_int_def)
    have hi2: "sexp_bignum_hi a2 \<le> len" using bn_nat_hi_less [of a1 a2] a2(1) ok(5) by linarith
    have inv: "int_val q2 * bn_int b1 + bn_int a2 = int_val q * bn_int b1 + bn_int a1"
      using a2(2) q2(3) y(4) bn_int_eq_nat [OF y(2)] by (simp add: algebra_simps)
    define sign2 where "sign2 = sexp_bignum_sign a2"
    have "set_digits x off 0 0 = sexp_make_bignum len" using ok(4) by (simp add: clear_digits_def)
    note step = quot_rem_loop_step [OF False this g dhi_def dlo_def x'_def y_def a2_def q2(1)]
    have "quot_rem_loop N b1 a1 q x off sign = quot_rem_loop N b1 a2 q2 x' off' sign2"
      using step a2(3,4) s by (cases "sexp_bignum_sign a2 = sign") (auto simp: sign2_def bignum_ok_def)
    with less.hyps [OF a2(1) a2(3) sign2_def [symmetric] q2(2) x'(4) hi2] inv show ?thesis by simp
  qed
qed

lemma quot_rem_digit:
  assumes ok: "bignum_ok a" "bignum_ok b" and b: "sexp_bignum_hi b = 1" "bn_nat b \<noteq> 0"
  shows "\<exists>q r. sexp_bignum_quot_rem N a b = Some (finish_quot_rem a b q r)
    \<and> exact_int q \<and> exact_int r \<and> int_val q = int (bn_nat a div bn_nat b) \<and> int_val r = int (bn_nat a mod bn_nat b)"
proof -
  let ?d = "sexp_bignum_data b ! 0" and ?a = "a\<lparr>sexp_bignum_sign := 1\<rparr>"
  have d: "bn_nat b = unat ?d" using ok b by (intro bn_nat_hi_1) (simp_all add: bignum_ok_def)
  then have d0: "?d \<noteq> 0" using b(2) by auto
  obtain a1 r where a1: "sexp_bignum_fxdiv ?a ?d 0 = (a1, r)" by fastforce
  have oka: "bignum_ok ?a" and na: "bn_nat ?a = bn_nat a" using ok by (auto simp: bignum_ok_def bn_nat_def)
  note v = fxdiv_val [OF oka d0 a1, unfolded na]
  define b1 where "b1 = set_digit (sexp_make_bignum 1) 0 r"
  have b1: "bignum_ok b1" "bn_int b1 = int (unat r)"
    by (auto simp: b1_def set_digit_def bignum_ok_def bn_int_def bn_nat_def)
  have "sexp_bignum_quot_rem N a b
      = Some (finish_quot_rem a b (BIGNUM a1) (sexp_bignum_normalize (BIGNUM b1 :: 'f sexp)))"
    using b d0 by (simp add: sexp_bignum_quot_rem_def copy_same a1 Let_def finish_quot_rem_def b1_def)
  moreover have "int_val (BIGNUM a1) = int (bn_nat a div bn_nat b)"
    using v by (simp add: bn_int_eq_nat d)
  moreover have "int_val (sexp_bignum_normalize (BIGNUM b1 :: 'f sexp)) = int (bn_nat a mod bn_nat b)"
    using v b1 by (simp add: normalize_val d uint_nat)
  moreover have "exact_int (sexp_bignum_normalize (BIGNUM b1 :: 'f sexp))"
    by (rule normalize_exact [OF b1(1)])
  ultimately show ?thesis
    using v(3) by (intro exI [of _ "BIGNUM a1"] exI [of _ "sexp_bignum_normalize (BIGNUM b1)"]) simp
qed

lemma quot_rem_general:
  assumes ok: "bignum_ok a" "bignum_ok b" and b: "sexp_bignum_hi b \<noteq> 1"
  shows "\<exists>q r. sexp_bignum_quot_rem N a b = Some (finish_quot_rem a b q r)
    \<and> exact_int q \<and> exact_int r \<and> int_val q = int (bn_nat a div bn_nat b) \<and> int_val r = int (bn_nat a mod bn_nat b)"
proof -
  let ?a = "a\<lparr>sexp_bignum_sign := 1\<rparr>" and ?b = "b\<lparr>sexp_bignum_sign := 1\<rparr>"
  have oks: "bignum_ok ?a" "bignum_ok ?b" and nt: "bn_nat ?a = bn_nat a" "bn_nat ?b = bn_nat b"
    and hs: "sexp_bignum_hi ?a = sexp_bignum_hi a" "sexp_bignum_hi ?b = sexp_bignum_hi b"
    using ok by (auto simp: bignum_ok_def bn_nat_def sexp_bignum_hi_def)
  have hb: "2 \<le> sexp_bignum_hi ?b" using b hi_pos [of b] unfolding hs by linarith
  have la: "sexp_bignum_hi ?a \<le> sexp_bignum_length a" "0 < sexp_bignum_length a"
    using ok(1) hi_le_length [of a] hs by (auto simp: bignum_ok_def)
  have cl: "clear_digits (sexp_make_bignum (sexp_bignum_length a)) 0 (sexp_bignum_length a)"
    using la by (simp add: clear_digits_def set_digits_def set_digit_def sexp_make_bignum_def list_update_same_conv)
  obtain a1 q sign where lp: "quot_rem_loop N ?b ?a SEXP_ZERO (sexp_make_bignum (sexp_bignum_length a)) 0 1
      = Some (a1, q, sign)"
    and a1: "bignum_ok a1" "sexp_bignum_sign a1 = sign" "norm_int q" "bn_nat a1 < bn_nat b"
    and inv: "int_val q * int (bn_nat b) + bn_int a1 = int (bn_nat a)"
    using quot_rem_loop_correct [OF oks(1) _ oks(2) _ hb _ cl la(1), of 1 SEXP_ZERO]
    by (auto simp: const_objs nt bn_int_eq_nat)
  have s: "sign \<in> {1, - 1}" using a1 by (auto simp: bignum_ok_def)
  define r where "r = (sexp_bignum_normalize (BIGNUM a1) :: 'f sexp)"
  have r: "norm_int r" "int_val r = bn_int a1" using normalize_val [OF a1(1)] by (simp_all add: r_def)
  have r0: "r = SEXP_ZERO \<longleftrightarrow> bn_int a1 = 0" using norm_int_eq [OF r(1)] r(2) by (simp add: const_objs)
  have ab: "\<bar>bn_int a1\<bar> < int (bn_nat b)" using a1 by (simp add: abs_bn_int)
  have sel: "\<exists>q' r'. (if sign < 0 \<and> r \<noteq> SEXP_ZERO
       then do { q \<leftarrow> r_sub N q SEXP_ONE; a1 \<leftarrow> r_add N r (BIGNUM ?b); Some (q, a1) }
       else Some (q, r)) = Some (q', r') \<and> exact_int q' \<and> exact_int r'
     \<and> int_val q' * int (bn_nat b) + int_val r' = int (bn_nat a) \<and> 0 \<le> int_val r' \<and> int_val r' < int (bn_nat b)"
  proof (cases "sign < 0 \<and> r \<noteq> SEXP_ZERO")
    case True
    then have neg: "bn_int a1 < 0"
    proof -
      have "sign = - 1" "bn_int a1 \<noteq> 0" using True r0 s by auto
      then show ?thesis using a1(2) by (simp add: bn_int_def)
    qed
    then have "0 < int_val q * int (bn_nat b)" using inv by linarith
    then have "0 < int_val q" by (simp add: zero_less_mult_iff)
    from sub_one [OF a1(3) this] obtain q' where q': "r_sub N q SEXP_ONE = Some q'" "norm_int q'"
      "int_val q' = int_val q - 1" by auto
    from add_bignum [of r ?b] r oks(2) obtain r' where r': "r_add N r (BIGNUM ?b) = Some r'" "norm_int r'"
      "int_val r' = bn_int a1 + int (bn_nat b)" by (auto simp: norm_int_def nt bn_int_eq_nat)
    have "int_val q' * int (bn_nat b) + int_val r' = int (bn_nat a)"
      unfolding q'(3) r'(3) left_diff_distrib using inv by simp
    moreover have "0 \<le> int_val r'" "int_val r' < int (bn_nat b)" unfolding r'(3) using neg ab by linarith+
    ultimately show ?thesis using q'(1,2) r'(1,2) True by (auto simp: norm_int_def)
  next
    case False
    then have "0 \<le> bn_int a1" using r0 a1(2) s by (auto simp: bn_int_def)
    then show ?thesis using False a1(3) r inv ab by (auto simp: norm_int_def)
  qed
  then obtain q' r' where sel: "(if sign < 0 \<and> r \<noteq> SEXP_ZERO
       then do { q \<leftarrow> r_sub N q SEXP_ONE; a1 \<leftarrow> r_add N r (BIGNUM ?b); Some (q, a1) }
       else Some (q, r)) = Some (q', r')" and e: "exact_int q'" "exact_int r'"
     and eq: "int_val q' * int (bn_nat b) + int_val r' = int (bn_nat a)" "0 \<le> int_val r'" "int_val r' < int (bn_nat b)"
    by blast
  have "sexp_bignum_quot_rem N a b = Some (finish_quot_rem a b q' r')"
    using b lp sel
    by (auto simp: sexp_bignum_quot_rem_def copy_same Let_def finish_quot_rem_def bind_eq_Some_conv
        simp flip: r_def split: if_splits)
  moreover have "int_val q' = int (bn_nat a div bn_nat b)" "int_val r' = int (bn_nat a mod bn_nat b)"
    using quot_rem_unsigned [OF eq(1) [symmetric] eq(2,3)] by (simp_all add: zdiv_int zmod_int)
  ultimately show ?thesis using e by blast
qed

lemma quot_rem_correct:
  assumes "bignum_ok a" "bignum_ok b" "bn_int b \<noteq> 0"
  shows "\<exists>q r. sexp_bignum_quot_rem N a b = Some (q, r) \<and> exact_int q \<and> exact_int r
    \<and> int_val q = c_div (bn_int a) (bn_int b) \<and> int_val r = c_rem (bn_int a) (bn_int b)"
proof -
  have nz: "bn_nat b \<noteq> 0" using assms(3) by (auto simp: bn_int_def)
  obtain q r where "sexp_bignum_quot_rem N a b = Some (finish_quot_rem a b q r)"
    "exact_int q" "exact_int r" "int_val q = int (bn_nat a div bn_nat b)" "int_val r = int (bn_nat a mod bn_nat b)"
    using quot_rem_digit [OF assms(1,2) _ nz] quot_rem_general [OF assms(1,2)] by blast
  with finish_quot_rem_val [OF assms(1,2) _ _ nz] show ?thesis by (metis surj_pair)
qed

end

end
