(* ===== verification/Exact.thy ===== *)
theory Exact
  imports Tower Division
begin

text \<open>
  Exact integer arithmetic through the generic entry points.  The entry points of a call depth of
  three or more compute exact results on fixnums and bignums, in normal form; the exceptions
  (differences that overflow a fixnum, and the least fixnum divided by its negation) are proved
  as they are in the code.
\<close>

subsection \<open>Number types of integers\<close>

lemma number_type_simps [simp]:
  "sexp_number_type (fixnum_obj k) = NUM_FIX" "sexp_number_type (BIGNUM b) = NUM_BIG"
  "sexp_number_type (RATIO n d) = NUM_RAT" "sexp_number_type (FLONUM f) = NUM_FLO"
  "sexp_number_type (COMPLEX x y) = NUM_CPX"
  by (simp_all add: sexp_number_type_def fixnum_obj_def sexp_number_types_def)

lemma sorted_operands_simps [simp]:
  "sorted_operands (fixnum_obj k) (fixnum_obj l) = (fixnum_obj k, fixnum_obj l)"
  "sorted_operands (fixnum_obj k) (BIGNUM b) = (fixnum_obj k, BIGNUM b)"
  "sorted_operands (BIGNUM b) (fixnum_obj k) = (fixnum_obj k, BIGNUM b)"
  "sorted_operands (BIGNUM b) (BIGNUM c) = (BIGNUM b, BIGNUM c)"
  "sorted_operands (fixnum_obj k) (RATIO n d) = (fixnum_obj k, RATIO n d)"
  "sorted_operands (RATIO n d) (fixnum_obj k) = (fixnum_obj k, RATIO n d)"
  "sorted_operands (BIGNUM b) (RATIO n d) = (BIGNUM b, RATIO n d)"
  "sorted_operands (RATIO n d) (BIGNUM b) = (BIGNUM b, RATIO n d)"
  "sorted_operands (RATIO n d) (RATIO n' d') = (RATIO n d, RATIO n' d')"
  by (simp_all add: sorted_operands_def)

lemma unbox_fixnum_obj: "fits_fixnum k \<Longrightarrow> unbox_fixnum (fixnum_obj k) = word_of_int k"
  by (simp add: unbox_fixnum_def word_unbox)

lemma sint_fits: "fits_fixnum k \<Longrightarrow> sint (word_of_int k :: u64) = k"
  by (intro sint_signed_word) (simp_all add: fits_fixnum_def)

lemma sint_twice_fits: "- (2 ^ 63) \<le> k \<Longrightarrow> k < 2 ^ 63 \<Longrightarrow> sint (word_of_int k :: u64) = k"
  by (rule sint_signed_word)

lemma fixnum_obj_sint: "fixnum_obj (sint (w :: u64)) = make_fixnum w"
  by (simp add: make_fixnum_obj)

lemma arith_simps:
  "r_add (arith F (Suc n)) = sexp_add F (arith F n)" "r_sub (arith F (Suc n)) = sexp_sub F (arith F n)"
  "r_mul (arith F (Suc n)) = sexp_mul F (arith F n)" "r_div (arith F (Suc n)) = sexp_div F (arith F n)"
  "r_quotient (arith F (Suc n)) = sexp_quotient F (arith F n)"
  "r_remainder (arith F (Suc n)) = sexp_remainder F (arith F n)"
  "r_compare (arith F (Suc n)) = sexp_compare F (arith F n)"
  by (simp_all add: Let_def arith.simps)

definition returns_int :: "'f sexp option \<Rightarrow> int \<Rightarrow> bool" where
  "returns_int x k \<longleftrightarrow> (\<exists>r. x = Some r \<and> norm_int r \<and> int_val r = k)"

lemma returns_normalized: "bignum_ok b \<Longrightarrow> bn_int b = k \<Longrightarrow> returns_int (Some (sexp_bignum_normalize (BIGNUM b))) k"
  by (simp add: returns_int_def normalize_val)

lemma returns_fixnum: "fits_fixnum k \<Longrightarrow> returns_int (Some (fixnum_obj k)) k"
  by (simp add: returns_int_def)

subsection \<open>Addition, subtraction, multiplication\<close>

lemma add_with_bignum:
  assumes "exact_int a" "bignum_ok b"
  shows "returns_int (sexp_add F N a (BIGNUM b)) (int_val a + bn_int b)"
    and "returns_int (sexp_add F N (BIGNUM b) a) (bn_int b + int_val a)"
proof -
  show "returns_int (sexp_add F N a (BIGNUM b)) (int_val a + bn_int b)"
    using assms(1)
  proof (cases rule: exact_int_cases)
    case (fx k)
    then show ?thesis
      using add_fixnum_val [OF assms(2), of "fixnum_word k"]
      by (simp add: sexp_add_def returns_normalized)
  next
    case (bg c)
    then show ?thesis
      using bignum_add_val [OF assms(2) bg(2), of None] by (simp add: sexp_add_def returns_normalized)
  qed
  show "returns_int (sexp_add F N (BIGNUM b) a) (bn_int b + int_val a)"
    using assms(1)
  proof (cases rule: exact_int_cases)
    case (fx k)
    then show ?thesis
      using add_fixnum_val [OF assms(2), of "fixnum_word k"]
      by (simp add: sexp_add_def returns_normalized)
  next
    case (bg c)
    then show ?thesis
      using bignum_add_val [OF bg(2) assms(2), of None] by (simp add: sexp_add_def returns_normalized)
  qed
qed

lemma add_int:
  assumes "exact_int a" "exact_int b"
  shows "returns_int (sexp_add F (arith F (Suc n)) a b) (int_val a + int_val b)"
  using assms(1)
proof (cases rule: exact_int_cases)
  case a: (fx k)
  show ?thesis using assms(2)
  proof (cases rule: exact_int_cases)
    case b: (fx l)
    have s: "sint (word_of_int k + word_of_int l :: u64) = k + l"
      using a b sint_signed_word [of "k + l"] by (simp add: fits_fixnum_def)
    show ?thesis
    proof (cases "fits_fixnum (k + l)")
      case True
      then show ?thesis
        using a b s by (auto simp: sexp_add_def unbox_fixnum_obj sint_fixnum_bounds make_fixnum_obj
            returns_fixnum Let_def fits_fixnum_def)
    next
      case False
      have "returns_int (sexp_add F (arith F n) (BIGNUM (sexp_fixnum_to_bignum (fixnum_word k))) b) (k + l)"
        using add_with_bignum(2) [OF assms(2), of "sexp_fixnum_to_bignum (fixnum_word k)"] a b
        by (simp add: fixnum_to_bignum_val)
      with False show ?thesis
        using a b s by (auto simp: sexp_add_def unbox_fixnum_obj sint_fixnum_bounds arith_simps
            Let_def fits_fixnum_def)
    qed
  next
    case (bg c)
    then show ?thesis using add_with_bignum(1) [OF assms(1)] by simp
  qed
next
  case (bg c)
  then show ?thesis using add_with_bignum(2) [OF assms(2)] by simp
qed

lemma sub_int:
  assumes "exact_int a" "exact_int b"
    "sexp_fixnump a \<Longrightarrow> sexp_fixnump b \<Longrightarrow> fits_fixnum (int_val a - int_val b)"
  shows "returns_int (sexp_sub F N a b) (int_val a - int_val b)"
  using assms(1)
proof (cases rule: exact_int_cases)
  case a: (fx k)
  show ?thesis using assms(2)
  proof (cases rule: exact_int_cases)
    case b: (fx l)
    then show ?thesis
      using a assms(3) by (simp add: sexp_sub_def fx_ops_word returns_fixnum flip: fixnum_obj_def)
  next
    case b: (bg c)
    let ?d = "sexp_bignum_sub None c (sexp_fixnum_to_bignum (fixnum_word k))"
    have "bignum_ok ?d" "bn_int ?d = bn_int c - k"
      using bignum_sub_val [OF b(2) fixnum_to_bignum_val(2)] a by (simp_all add: fixnum_to_bignum_val)
    then have "bignum_ok (?d\<lparr>sexp_bignum_sign := - sexp_bignum_sign ?d\<rparr>)"
      "bn_int (?d\<lparr>sexp_bignum_sign := - sexp_bignum_sign ?d\<rparr>) = k - bn_int c"
      by (auto simp: bignum_ok_def bn_int_def bn_nat_def)
    then show ?thesis using a b by (simp add: sexp_sub_def returns_normalized Let_def)
  qed
next
  case a: (bg c)
  show ?thesis using assms(2)
  proof (cases rule: exact_int_cases)
    case b: (fx l)
    then show ?thesis
      using a bignum_sub_val [OF a(2) fixnum_to_bignum_val(2), of "fixnum_word l"]
      by (simp add: sexp_sub_def returns_normalized fixnum_to_bignum_val)
  next
    case b: (bg d)
    then show ?thesis
      using a bignum_sub_val [OF a(2) b(2)] by (simp add: sexp_sub_def returns_normalized)
  qed
qed

interpretation division: quotient_accumulator "arith F (Suc n)" for F :: "'f flo_ops" and n
proof
  fix q :: "'f sexp" and x :: bignum
  assume q: "exact_int q" and x: "bignum_ok x"
  show "\<exists>r. r_add (arith F (Suc n)) q (BIGNUM x) = Some r \<and> norm_int r \<and> int_val r = int_val q + bn_int x"
    using add_with_bignum(1) [OF q x, of F "arith F n"] by (simp add: arith_simps returns_int_def)
  show "\<exists>r. r_sub (arith F (Suc n)) q (BIGNUM x) = Some r \<and> norm_int r \<and> int_val r = int_val q - bn_int x"
    using sub_int [of q "BIGNUM x" F "arith F n"] q x by (simp add: arith_simps returns_int_def)
next
  fix q :: "'f sexp"
  assume q: "norm_int q" and pos: "0 < int_val q"
  have "fits_fixnum (int_val q - 1)" if "sexp_fixnump q"
    using that q pos norm_int_fixnump [OF q] by (simp add: fits_fixnum_def)
  then have "returns_int (sexp_sub F (arith F n) q SEXP_ONE) (int_val q - 1)"
    using sub_int [of q SEXP_ONE F "arith F n"] q by (simp add: const_objs norm_int_def)
  then show "\<exists>r. r_sub (arith F (Suc n)) q SEXP_ONE = Some r \<and> norm_int r \<and> int_val r = int_val q - 1"
    by (simp add: arith_simps returns_int_def)
qed

lemma sint_signed_word128: "- (2 ^ 127) \<le> n \<Longrightarrow> n < 2 ^ 127 \<Longrightarrow> sint (word_of_int n :: u128) = n"
  by (simp add: signed_of_int signed_take_bit_int_eq_self)

lemma fixnum_product:
  assumes "fits_fixnum k" "fits_fixnum l"
    and p: "p = native_mul_sint (native_from_sint (word_of_int k)) (word_of_int l)"
  shows "native_lsint_is_fixnum p \<longleftrightarrow> fits_fixnum (k * l)" and "native_to_uint p = word_of_int (k * l)"
proof -
  have "\<bar>k\<bar> \<le> 2 ^ 62" "\<bar>l\<bar> \<le> 2 ^ 62" using assms by (auto simp: fits_fixnum_def abs_le_iff)
  then have "\<bar>k\<bar> * \<bar>l\<bar> \<le> 2 ^ 62 * 2 ^ 62" by (intro mult_mono) simp_all
  then have "\<bar>k * l\<bar> \<le> 2 ^ 124" by (simp add: abs_mult)
  then have "- (2 ^ 127) \<le> k * l" "k * l < 2 ^ 127" by (simp_all add: abs_le_iff)
  then have s: "sint (word_of_int (k * l) :: u128) = k * l" by (rule sint_signed_word128)
  have pw: "p = word_of_int (k * l)"
    using assms by (simp add: p native_defs scast_eq sint_fits)
  show "native_lsint_is_fixnum p \<longleftrightarrow> fits_fixnum (k * l)"
    unfolding pw native_lsint_is_fixnum_def s sint_fixnum_bounds fits_fixnum_def by linarith
  show "native_to_uint p = word_of_int (k * l)"
    unfolding pw native_to_uint_def by (rule bit_word_eqI) (simp add: bit_unsigned_iff bit_word_of_int_iff del: of_int_mult)
qed

lemma mul_with_bignum:
  assumes "exact_int a" "bignum_ok b"
  shows "returns_int (sexp_mul F N a (BIGNUM b)) (int_val a * bn_int b)"
    and "returns_int (sexp_mul F N (BIGNUM b) a) (bn_int b * int_val a)"
proof -
  have digit: "returns_int (Some (sexp_bignum_normalize (BIGNUM
      ((sexp_bignum_fxmul None b (sexp_unbox_fx_abs (fixnum_word k)) 0)
        \<lparr>sexp_bignum_sign := sexp_fx_sign (fixnum_word k) * sexp_bignum_sign b\<rparr>)))) (k * bn_int b)"
    if k: "fits_fixnum k" for k
  proof (rule returns_normalized)
    let ?m = "sexp_bignum_fxmul None b (sexp_unbox_fx_abs (fixnum_word k)) 0"
    have b: "sexp_bignum_data b \<noteq> []" "sexp_bignum_sign b \<in> {1, - 1}" using assms(2) by (simp_all add: bignum_ok_def)
    note m = fxmul_val [OF b(1), of None "sexp_unbox_fx_abs (fixnum_word k)", simplified]
    have sg: "sexp_fx_sign (fixnum_word k) = (if k < 0 then - 1 else 1)" using k by (simp add: sexp_fx_sign_value)
    show "bignum_ok (?m\<lparr>sexp_bignum_sign := sexp_fx_sign (fixnum_word k) * sexp_bignum_sign b\<rparr>)"
      using b m sg by (auto simp: bignum_ok_def)
    have "int (bn_nat ?m) = int (bn_nat b) * \<bar>k\<bar>"
      using m(1) sexp_unbox_fx_abs_value [of "fixnum_word k"] k by simp
    then show "bn_int (?m\<lparr>sexp_bignum_sign := sexp_fx_sign (fixnum_word k) * sexp_bignum_sign b\<rparr>) = k * bn_int b"
      using sg by (simp add: bn_int_def bn_nat_def)
  qed
  have "returns_int (sexp_mul F N a (BIGNUM b)) (int_val a * bn_int b)
    \<and> returns_int (sexp_mul F N (BIGNUM b) a) (bn_int b * int_val a)"
    using assms(1)
  proof (cases rule: exact_int_cases)
    case (fx k)
    then show ?thesis
      using digit [OF fx(2)] by (simp add: sexp_mul_def Let_def mult.commute)
  next
    case (bg c)
    then show ?thesis
      using bignum_mul_val [OF bg(2) assms(2)] bignum_mul_val [OF assms(2) bg(2)]
      by (simp add: sexp_mul_def returns_normalized)
  qed
  then show "returns_int (sexp_mul F N a (BIGNUM b)) (int_val a * bn_int b)"
    and "returns_int (sexp_mul F N (BIGNUM b) a) (bn_int b * int_val a)" by simp_all
qed

lemma mul_int:
  assumes "exact_int a" "exact_int b"
  shows "returns_int (sexp_mul F (arith F (Suc n)) a b) (int_val a * int_val b)"
  using assms(1)
proof (cases rule: exact_int_cases)
  case a: (fx k)
  show ?thesis using assms(2)
  proof (cases rule: exact_int_cases)
    case b: (fx l)
    let ?p = "native_mul_sint (native_from_sint (word_of_int k)) (word_of_int l)"
    note p = fixnum_product [OF a(2) b(2) refl]
    show ?thesis
    proof (cases "fits_fixnum (k * l)")
      case True
      then show ?thesis
        using a b p sint_fits [OF True]
        by (simp add: sexp_mul_def unbox_fixnum_obj make_fixnum_obj returns_fixnum Let_def)
    next
      case False
      have "returns_int (sexp_mul F (arith F n) (BIGNUM (sexp_fixnum_to_bignum (fixnum_word k))) b) (k * l)"
        using mul_with_bignum(2) [OF assms(2), of "sexp_fixnum_to_bignum (fixnum_word k)"] a b
        by (simp add: fixnum_to_bignum_val)
      with False show ?thesis
        using a b p by (simp add: sexp_mul_def unbox_fixnum_obj arith_simps Let_def)
    qed
  next
    case (bg c)
    then show ?thesis using mul_with_bignum(1) [OF assms(1)] by simp
  qed
next
  case (bg c)
  then show ?thesis using mul_with_bignum(2) [OF assms(2)] by simp
qed

subsection \<open>Quotient and remainder\<close>

lemma normalize_exact_int:
  assumes "exact_int x"
  shows "norm_int (sexp_bignum_normalize x)" "int_val (sexp_bignum_normalize x) = int_val x"
  using assms by (auto elim!: exact_int_cases simp: normalize_val) (simp_all add: fixnum_obj_def norm_int_def)

lemma bignum_quotient_val:
  assumes "bignum_ok a" "bignum_ok b" "bn_int b \<noteq> 0"
  shows "returns_int (map_option sexp_bignum_normalize (sexp_bignum_quotient (arith F (Suc n)) a b))
      (c_div (bn_int a) (bn_int b))"
    and "returns_int (map_option sexp_bignum_normalize (sexp_bignum_remainder (arith F (Suc n)) a b))
      (c_rem (bn_int a) (bn_int b))"
  using division.quot_rem_correct [OF assms, of F n]
  by (auto simp: returns_int_def sexp_bignum_quotient_def sexp_bignum_remainder_def normalize_exact_int)

lemma c_div_1: "c_div a 1 = a" and c_rem_1: "c_rem a 1 = 0"
  by (simp_all add: c_div_def c_rem_def sgn_mult_abs)

lemma c_div_small: "\<bar>a\<bar> < \<bar>b\<bar> \<Longrightarrow> c_div a b = 0" and c_rem_small: "\<bar>a\<bar> < \<bar>b\<bar> \<Longrightarrow> c_rem a b = a"
  by (simp_all add: c_div_def c_rem_def div_pos_pos_trivial mod_pos_pos_trivial sgn_mult_abs)

text \<open>The pair on which \<open>sexp_quotient\<close> and \<open>sexp_remainder\<close> take the shortcut wrongly.\<close>

definition min_by_negation :: "int \<Rightarrow> int \<Rightarrow> bool" where
  "min_by_negation a b \<longleftrightarrow> a = - (2 ^ 62) \<and> b = 2 ^ 62"

lemma fixnum_vs_bignum:
  assumes "fits_fixnum k" "\<not> fits_fixnum l" "\<not> min_by_negation k l"
  shows "\<bar>k\<bar> < \<bar>l\<bar>"
  using assms by (auto simp: fits_fixnum_def min_by_negation_def abs_if)

lemma c_div_fits:
  assumes "fits_fixnum k" "fits_fixnum l" "l \<noteq> 0"
  shows "fits_fixnum (c_div k l) \<or> k = - (2 ^ 62) \<and> l = - 1"
proof (cases "l = - 1 \<or> l = 1")
  case True
  then show ?thesis using assms by (auto simp: c_div_1 c_div_def fits_fixnum_def sgn_if)
next
  case False
  then have "2 \<le> \<bar>l\<bar>" using assms by linarith
  have "\<bar>k\<bar> div \<bar>l\<bar> \<le> \<bar>k\<bar> div 2" using \<open>2 \<le> \<bar>l\<bar>\<close> by (intro zdiv_mono2) simp_all
  moreover have "\<bar>c_div k l\<bar> = \<bar>k\<bar> div \<bar>l\<bar> \<or> c_div k l = 0"
    using assms(3) by (auto simp: c_div_def abs_mult abs_sgn_eq pos_imp_zdiv_nonneg_iff)
  ultimately have "\<bar>c_div k l\<bar> \<le> \<bar>k\<bar> div 2" by auto
  then show ?thesis using assms(1) by (auto simp: fits_fixnum_def)
qed

lemma c_rem_fits: "fits_fixnum k \<Longrightarrow> fits_fixnum l \<Longrightarrow> l \<noteq> 0 \<Longrightarrow> fits_fixnum (c_rem k l)"
  using c_rem_bound [of l k] by (auto simp: fits_fixnum_def)

lemma quotient_big:
  assumes "bignum_ok a" "exact_int b" "int_val b \<noteq> 0" "b \<noteq> SEXP_ONE"
  shows "returns_int (sexp_quotient F (arith F (Suc n)) (BIGNUM a) b) (c_div (bn_int a) (int_val b))"
  using assms(2)
proof (cases rule: exact_int_cases)
  case (fx l)
  then show ?thesis
    using assms bignum_quotient_val(1) [OF assms(1) fixnum_to_bignum_val(2), of "fixnum_word l" F n]
    by (simp add: sexp_quotient_def fixnum_to_bignum_val)
next
  case (bg c)
  then show ?thesis
    using assms bignum_quotient_val(1) [OF assms(1) bg(2)] by (simp add: sexp_quotient_def)
qed

lemma unbox_zero_iff: "fits_fixnum l \<Longrightarrow> unbox_fixnum (fixnum_obj l) = 0 \<longleftrightarrow> l = 0"
proof -
  assume l: "fits_fixnum l"
  then have "sint (unbox_fixnum (fixnum_obj l)) = l" by (simp add: unbox_fixnum_obj sint_fits)
  then show ?thesis using l by (auto simp: unbox_fixnum_obj)
qed

lemma quotient_fix_fix:
  assumes "fits_fixnum k" "fits_fixnum l" "l \<noteq> 0" "fixnum_obj l \<noteq> (SEXP_ONE :: 'f sexp)"
  shows "sexp_quotient F N (fixnum_obj k) (fixnum_obj l :: 'f sexp) =
    (if k < 0 \<and> l < 0 \<and> sint (fixnum_word (c_div k l)) < 0
     then r_quotient N (BIGNUM (sexp_fixnum_to_bignum (fixnum_word k))) (fixnum_obj l)
     else Some (fixnum_obj (c_div k l)))"
proof -
  have "sexp_fx_div (fixnum_word k) (fixnum_word l) = fixnum_word (c_div k l)" using assms by (simp add: fx_ops_word)
  moreover have "sint (fixnum_word k) < 0 \<longleftrightarrow> k < 0" "sint (fixnum_word l) < 0 \<longleftrightarrow> l < 0"
    using assms by (simp_all add: sint_neg_fixnum)
  ultimately show ?thesis
    using assms by (simp add: sexp_quotient_def unbox_zero_iff Let_def) (simp add: fixnum_obj_def)
qed

lemma quotient_not_one:
  assumes "exact_int a" "norm_int b" "int_val b \<noteq> 0" and b1: "b \<noteq> SEXP_ONE"
    and "sexp_fixnump a \<Longrightarrow> \<not> min_by_negation (int_val a) (int_val b)"
  shows "returns_int (sexp_quotient F (arith F (Suc (Suc n))) a b) (c_div (int_val a) (int_val b))"
proof -
  have ex: "exact_int a" "exact_int b" using assms by (simp_all add: norm_int_def)
  show ?thesis using ex(1)
  proof (cases rule: exact_int_cases)
    case a: (fx k)
    show ?thesis using ex(2)
    proof (cases rule: exact_int_cases)
      case b: (fx l)
      have "l \<noteq> 0" using b assms(3) by simp
      note q = quotient_fix_fix [OF a(2) b(2) this b1 [unfolded b(1)], of F "arith F (Suc (Suc n))", folded a(1) b(1)]
      show ?thesis
      proof (cases "k = - (2 ^ 62) \<and> l = - 1")
        case True
        then have "c_div k l = 2 ^ 62" by (simp add: c_div_def)
        then have "sint (fixnum_word (c_div k l)) < 0" by (simp add: fixnum_word_alt)
        moreover have "returns_int (sexp_quotient F (arith F (Suc n)) (BIGNUM (sexp_fixnum_to_bignum (fixnum_word k))) b)
            (c_div k l)"
          using quotient_big [OF fixnum_to_bignum_val(2) ex(2) assms(3) b1, of F n "fixnum_word k"] a b
          by (simp add: fixnum_to_bignum_val)
        ultimately show ?thesis
          using True a b unfolding q by (simp add: arith_simps)
      next
        case False
        then have f: "fits_fixnum (c_div k l)" using c_div_fits a b assms(3) by auto
        have "\<not> (k < 0 \<and> l < 0 \<and> c_div k l < 0)"
          using neg_imp_zdiv_nonneg_iff [of l k] by (auto simp: c_div_def)
        then have "\<not> (k < 0 \<and> l < 0 \<and> sint (fixnum_word (c_div k l)) < 0)"
          using f by (simp add: sint_neg_fixnum)
        then show ?thesis using a b f unfolding q by (auto simp: returns_fixnum)
      qed
    next
      case b: (bg c)
      then have "\<bar>k\<bar> < \<bar>bn_int c\<bar>" using a assms(2,4,5) by (intro fixnum_vs_bignum) (simp_all add: norm_int_def)
      then show ?thesis
        using a b by (simp add: sexp_quotient_def const_objs c_div_small returns_fixnum)
    qed
  next
    case (bg c)
    then show ?thesis using quotient_big [OF bg(2) ex(2) assms(3) b1] by simp
  qed
qed


lemma quotient_one: "sexp_quotient F N a SEXP_ONE = Some a"
  by (simp add: sexp_quotient_def)

lemma quotient_exact:
  assumes "exact_int a" "norm_int b" "int_val b \<noteq> 0"
    and "sexp_fixnump a \<Longrightarrow> \<not> min_by_negation (int_val a) (int_val b)"
  obtains r where "sexp_quotient F (arith F (Suc (Suc n))) a b = Some r" "exact_int r"
    "int_val r = c_div (int_val a) (int_val b)" "norm_int a \<Longrightarrow> norm_int r"
proof (cases "b = SEXP_ONE")
  case True
  then have "int_val b = 1" by (simp add: const_objs)
  with True show thesis using that [of a] assms(1) by (simp add: quotient_one c_div_1)
next
  case False
  from quotient_not_one [OF assms(1-3) this assms(4), of F n] show thesis
    using that unfolding returns_int_def norm_int_def by blast
qed

lemma quotient_int:
  assumes "norm_int a" "norm_int b" "int_val b \<noteq> 0" "\<not> min_by_negation (int_val a) (int_val b)"
  shows "returns_int (sexp_quotient F (arith F (Suc (Suc n))) a b) (c_div (int_val a) (int_val b))"
proof -
  have "exact_int a" using assms(1) by (simp add: norm_int_def)
  from quotient_exact [OF this assms(2,3), of F n] assms(1,4) show ?thesis unfolding returns_int_def by metis
qed

subsubsection \<open>Remainder by a fixnum\<close>

lemma nat_and_pred_pow2: "0 < n \<Longrightarrow> n AND (n - 1) = 0 \<Longrightarrow> \<exists>k. n = 2 ^ k" for n :: nat
proof (induction n rule: nat_bit_induct)
  case (even m)
  have e: "2 * m - 1 = 2 * (m - 1) + 1" using even by linarith
  have "2 * m AND (2 * (m - 1) + 1) = 2 * (m AND (m - 1))"
    by (subst and_rec) simp
  then have "m AND (m - 1) = 0" using even.prems(2) unfolding e by simp
  with even obtain k where "m = 2 ^ k" by blast
  then have "2 * m = 2 ^ Suc k" by simp
  then show ?case by blast
next
  case (odd m)
  have "Suc (2 * m) AND 2 * m = 2 * m" by (subst and_rec) simp
  then have "m = 0" using odd.prems(2) by simp
  then show ?case by (intro exI [of _ 0]) simp
qed simp

lemma and_pred_mod:
  assumes "b \<noteq> 0" "b AND (b - 1) = (0 :: u64)"
  shows "unat (d AND (b - 1)) = unat d mod unat b" and "unat b dvd 2 ^ 64"
proof -
  have u: "unat (b - 1) = unat b - 1" using assms(1) by (simp add: unat_sub word_le_nat_alt Suc_le_eq unat_gt_0)
  have "unat b AND (unat b - 1) = 0" using assms(2) by (metis u unsigned_and_eq unsigned_0)
  moreover have "0 < unat b" using assms(1) by (simp add: unat_gt_0)
  ultimately obtain k where k: "unat b = 2 ^ k" using nat_and_pred_pow2 by blast
  have "unat (d AND (b - 1)) = unat d AND mask k" by (simp add: unsigned_and_eq u k mask_eq_exp_minus_1)
  also have "\<dots> = unat d mod 2 ^ k" by (simp add: take_bit_eq_mod flip: take_bit_eq_mask)
  finally show "unat (d AND (b - 1)) = unat d mod unat b" by (simp add: k)
  have "(2::nat) ^ k < 2 ^ 64" using unat_u64_bound [of b] by (simp add: k)
  then have "k < 64" by (rule power_less_imp_less_exp [rotated]) simp
  then show "unat b dvd 2 ^ 64" unfolding k by (intro le_imp_power_dvd) simp
qed

lemma fxrem_loop_val: "b \<noteq> 0 \<Longrightarrow> unat (fxrem_loop b ds) = dval ds mod unat b"
proof (induction ds)
  case (Cons d ds)
  let ?r = "fxrem_loop b ds"
  have b: "0 < unat b" using Cons.prems by (simp add: unat_gt_0)
  have r: "unat ?r = dval ds mod unat b" "unat ?r < unat b" using Cons b by simp_all
  then have r64: "unat ?r < 2 ^ 64" using unat_u64_bound [of b] by linarith
  define s where "s = native_to_uint ?r"
  have s: "native_from_uint s = ?r" "unat s = unat ?r"
    using r64 by (simp_all add: s_def native_defs unat_ucast_u64 word_unat_eq_iff unat_ucast_u128)
  let ?n = "native_add (native_shl (native_from_uint s) 64) (native_from_uint d)"
  let ?q = "native_to_uint (native_div_uint ?n b)"
  have sb: "unat s < unat b" using s r by simp
  have "unat (fxrem_loop b (d # ds)) = (unat s * 2 ^ 64 + unat d) mod unat b"
    using native.div_step(2) [OF refl sb refl, of d] s(1) by (simp add: Let_def)
  also have "\<dots> = dval (d # ds) mod unat b"
    unfolding s(2) r(1) dval.simps add.commute [of "unat d"] mult.commute [of _ "dval ds"]
    by (metis mod_add_left_eq mod_mult_left_eq)
  finally show ?case .
qed (simp add: native_from_uint_def)

lemma fxrem_val:
  assumes "bignum_ok a" "fits_fixnum l" "l \<noteq> 0"
  shows "sexp_bignum_fxrem a (word_of_int l) = fixnum_obj (c_rem (bn_int a) l)"
proof -
  let ?b = "word_of_int l :: u64" and ?s = "sexp_bignum_sign a"
  have s: "?s \<in> {1, - 1}" and ne: "sexp_bignum_data a \<noteq> []" using assms(1) by (simp_all add: bignum_ok_def)
  have sb: "sint ?b = l" using assms(2) by (rule sint_fits)
  have val: "make_fixnum (word_of_int ?s * w) = fixnum_obj (c_rem (bn_int a) l)"
    if "uint w = int (bn_nat a) mod \<bar>l\<bar>" for w
  proof -
    have "w = word_of_int (int (bn_nat a) mod \<bar>l\<bar>)" using that by (metis word_of_int_uint)
    then have "word_of_int ?s * w = word_of_int (?s * (int (bn_nat a) mod \<bar>l\<bar>))" by (simp only: of_int_mult)
    moreover have "?s * (int (bn_nat a) mod \<bar>l\<bar>) = c_rem (bn_int a) l"
      using s by (auto simp: c_rem_def bn_int_def abs_mult)
    moreover have "fits_fixnum (c_rem (bn_int a) l)"
      using c_rem_bound [OF assms(3), of "bn_int a"] assms(2) by (auto simp: fits_fixnum_def)
    ultimately show ?thesis by (simp only: make_fixnum_obj sint_fits)
  qed
  show ?thesis
  proof (cases "0 < sint ?b \<and> ?b AND (?b - 1) = 0")
    case True
    then have l: "0 < l" "uint ?b = l" using sb uint_word_nonneg [of l] assms(2) by (auto simp: fits_fixnum_def)
    then have b0: "?b \<noteq> 0" by auto
    obtain d ds where d: "sexp_bignum_data a = d # ds" using ne by (cases "sexp_bignum_data a") auto
    note m = and_pred_mod [OF b0 conjunct2 [OF True]]
    obtain c where c: "2 ^ 64 = unat ?b * c" using m(2) by (rule dvdE)
    have "bn_nat a = unat d + unat ?b * (c * dval ds)"
      unfolding bn_nat_def d dval.simps c by (simp only: mult.assoc)
    then have "bn_nat a mod unat ?b = unat d mod unat ?b" by (simp only: mod_mult_self2)
    then have "unat (d AND (?b - 1)) = bn_nat a mod unat ?b" by (simp only: m(1))
    then have "uint (d AND (?b - 1)) = int (bn_nat a) mod uint ?b" by (simp only: uint_nat zmod_int)
    then have "uint (d AND (?b - 1)) = int (bn_nat a) mod \<bar>l\<bar>" using l by simp
    then show ?thesis using True d val by (simp add: sexp_bignum_fxrem_def)
  next
    case False
    define b0 where "b0 = (if 0 \<le> sint ?b then ?b else - ?b)"
    have b0: "uint b0 = \<bar>l\<bar>"
      using uint_word_nonneg [of l] uint_word_nonneg [of "- l"] assms(2)
      by (auto simp: b0_def sb fits_fixnum_def)
    then have nz: "b0 \<noteq> 0" using assms(3) by auto
    have "unat (fxrem_loop b0 (take (sexp_bignum_hi a) (sexp_bignum_data a))) = bn_nat a mod unat b0"
      using fxrem_loop_val [OF nz] by (simp add: bn_nat_take_hi)
    moreover have "bn_nat a mod unat b0 < 2 ^ 64"
    proof (rule less_trans [OF mod_less_divisor unat_u64_bound])
      show "0 < unat b0" using nz by (simp add: unat_gt_0)
    qed
    ultimately have "unat (native_to_uint (fxrem_loop b0 (take (sexp_bignum_hi a) (sexp_bignum_data a)))) = bn_nat a mod unat b0"
      by (simp add: native_to_uint_def unat_ucast_u64)
    then have "uint (native_to_uint (fxrem_loop b0 (take (sexp_bignum_hi a) (sexp_bignum_data a)))) = int (bn_nat a) mod \<bar>l\<bar>"
      unfolding b0 [symmetric] by (simp only: uint_nat zmod_int)
    from val [OF this] False nz show ?thesis
      unfolding sexp_bignum_fxrem_def Let_def b0_def [symmetric] by auto
  qed
qed

lemma remainder_int:
  assumes "exact_int a" "norm_int b" "int_val b \<noteq> 0"
    and "sexp_fixnump a \<Longrightarrow> \<not> min_by_negation (int_val a) (int_val b)"
  shows "returns_int (sexp_remainder F (arith F (Suc n)) a b) (c_rem (int_val a) (int_val b))"
proof (cases "b = SEXP_ONE")
  case True
  then show ?thesis
    by (simp add: sexp_remainder_def returns_fixnum const_objs c_rem_1)
next
  case b1: False
  have ex: "exact_int a" "exact_int b" using assms by (simp_all add: norm_int_def)
  show ?thesis using ex(1)
  proof (cases rule: exact_int_cases)
    case a: (fx k)
    show ?thesis using ex(2)
    proof (cases rule: exact_int_cases)
      case b: (fx l)
      then have "l \<noteq> 0" using assms(3) by simp
      with a b b1 show ?thesis
        by (simp add: sexp_remainder_def unbox_zero_iff fx_ops_word c_rem_fits returns_fixnum Let_def flip: fixnum_obj_def)
    next
      case b: (bg c)
      then have "\<bar>k\<bar> < \<bar>bn_int c\<bar>" using a assms(2,4) by (intro fixnum_vs_bignum) (simp_all add: norm_int_def)
      then show ?thesis
        using a b by (simp add: sexp_remainder_def const_objs c_rem_small returns_fixnum)
    qed
  next
    case a: (bg c)
    show ?thesis using ex(2)
    proof (cases rule: exact_int_cases)
      case b: (fx l)
      then have "fits_fixnum (c_rem (bn_int c) l)"
        using c_rem_bound [of l "bn_int c"] assms(3) by (auto simp: fits_fixnum_def)
      with a b b1 assms(3) show ?thesis
        by (simp add: sexp_remainder_def unbox_fixnum_obj fxrem_val returns_fixnum)
    next
      case b: (bg d)
      then show ?thesis
        using a assms bignum_quotient_val(2) [OF a(2) b(2)] by (simp add: sexp_remainder_def const_objs)
    qed
  qed
qed

subsection \<open>Comparison\<close>

lemma compare_big_val:
  assumes "bignum_ok a" "bignum_ok b" "bn_int a \<noteq> 0" "bn_int b \<noteq> 0"
  shows "sgn (sexp_bignum_compare a b) = sgn (bn_int a - bn_int b)"
proof -
  have s: "sexp_bignum_sign a = sgn (bn_int a)" "sexp_bignum_sign b = sgn (bn_int b)"
    using assms by (simp_all add: bn_int_sign)
  have n: "\<bar>bn_int a\<bar> = int (bn_nat a)" "\<bar>bn_int b\<bar> = int (bn_nat b)" using assms by (simp_all add: abs_bn_int)
  show ?thesis
    using compare_abs_sgn [OF assms(1,2)] assms(3,4) n
    by (auto simp: sexp_bignum_compare_def s sgn_if split: if_splits)
qed

lemma compare_abs_range:
  assumes "int (sexp_bignum_hi a) < 2 ^ 61" "int (sexp_bignum_hi b) < 2 ^ 61"
  shows "fits_fixnum (sexp_bignum_compare_abs a b)"
proof -
  have "\<bar>compare_loop xs ys n\<bar> \<le> 1" for xs ys n by (induction n) simp_all
  then have "\<bar>compare_loop (sexp_bignum_data a) (sexp_bignum_data b) (sexp_bignum_hi a)\<bar> \<le> 1" .
  then show ?thesis
    using assms hi_pos [of a] hi_pos [of b]
    by (auto simp: sexp_bignum_compare_abs_def fits_fixnum_def Let_def abs_le_iff)
qed

lemma compare_range:
  assumes "bignum_ok a" "int (sexp_bignum_hi a) < 2 ^ 61" "int (sexp_bignum_hi b) < 2 ^ 61"
  shows "fits_fixnum (sexp_bignum_compare a b)"
proof -
  have "fits_fixnum (- sexp_bignum_compare_abs a b)"
  proof -
    have "\<bar>compare_loop xs ys n\<bar> \<le> 1" for xs ys n by (induction n) simp_all
    then have "\<bar>compare_loop (sexp_bignum_data a) (sexp_bignum_data b) (sexp_bignum_hi a)\<bar> \<le> 1" .
    then show ?thesis
      using assms by (auto simp: sexp_bignum_compare_abs_def fits_fixnum_def Let_def abs_le_iff)
  qed
  then show ?thesis
    using compare_abs_range [OF assms(2,3)] assms(1)
    by (auto simp: sexp_bignum_compare_def bignum_ok_def Let_def)
qed

text \<open>The size that the heap of a 64-bit address space imposes on a bignum.\<close>

definition addressable :: "'f sexp \<Rightarrow> bool" where
  "addressable x \<longleftrightarrow> (sexp_bignump x \<longrightarrow> int (sexp_bignum_hi (bignum_object x)) < 2 ^ 61)"

text \<open>\<open>returns_sign x k\<close>: the call returns a fixnum with the sign of \<open>k\<close>.\<close>

definition returns_sign :: "'f sexp option \<Rightarrow> int \<Rightarrow> bool" where
  "returns_sign x k \<longleftrightarrow> (\<exists>m. x = Some (fixnum_obj m) \<and> fits_fixnum m \<and> sgn m = sgn k)"

lemma returns_signI: "x = Some (fixnum_obj m) \<Longrightarrow> fits_fixnum m \<Longrightarrow> sgn m = sgn k \<Longrightarrow> returns_sign x k"
  by (auto simp: returns_sign_def)

lemma compare_fix_big:
  assumes "fits_fixnum k" "bignum_ok c" "\<not> fits_fixnum (bn_int c)"
  shows "sexp_compare F N (fixnum_obj k) (BIGNUM c) = Some (fixnum_obj (if bn_int c < 0 then 1 else - 1))"
    and "bn_int c < 0 \<Longrightarrow> bn_int c < k" and "\<not> bn_int c < 0 \<Longrightarrow> k < bn_int c"
proof -
  have "sexp_bignum_hi c > 1 \<or> sexp_bignum_data c ! 0 > SEXP_MAX_FIXNUM"
  proof (rule ccontr)
    assume "\<not> ?thesis"
    then have n: "\<not> 1 < sexp_bignum_hi c" "\<not> SEXP_MAX_FIXNUM < sexp_bignum_data c ! 0" by auto
    have h: "sexp_bignum_hi c = 1" "uint (sexp_bignum_data c ! 0) \<le> 2 ^ 62 - 1"
      using n hi_pos [of c] sint_fixnum_bounds(3) unfolding word_less_def by linarith+
    obtain u where u: "uint (sexp_bignum_data c ! 0) = u" "0 \<le> u" using uint_u64_range by blast
    have "bn_int c = sexp_bignum_sign c * u" using bn_int_hi_1 [OF assms(2) h(1)] unfolding u(1) .
    then show False
      using assms(2,3) h(2) u(2) unfolding u(1) by (auto simp: bignum_ok_def fits_fixnum_def)
  qed
  moreover have "sexp_bignum_sign c < 0 \<longleftrightarrow> bn_int c < 0"
    using assms(2,3) bn_int_sign [of c] by (auto simp: fits_fixnum_def sgn_if split: if_splits)
  ultimately show "sexp_compare F N (fixnum_obj k) (BIGNUM c) = Some (fixnum_obj (if bn_int c < 0 then 1 else - 1))"
    by (simp add: sexp_compare_def make_fixnum_obj)
  show "bn_int c < 0 \<Longrightarrow> bn_int c < k" and "\<not> bn_int c < 0 \<Longrightarrow> k < bn_int c"
    using assms by (auto simp: fits_fixnum_def)
qed

lemma compare_int:
  assumes "norm_int a" "norm_int b" "addressable a" "addressable b"
    "sexp_fixnump a \<Longrightarrow> sexp_fixnump b \<Longrightarrow> fits_fixnum (int_val a - int_val b)"
  shows "returns_sign (sexp_compare F (arith F (Suc n)) a b) (int_val a - int_val b)"
proof -
  have ex: "exact_int a" "exact_int b" using assms by (simp_all add: norm_int_def)
  show ?thesis using ex(1)
  proof (cases rule: exact_int_cases)
    case a: (fx k)
    show ?thesis using ex(2)
    proof (cases rule: exact_int_cases)
      case b: (fx l)
      then have "fits_fixnum (k - l)" using a assms(5) by simp
      then show ?thesis
        using a b sint_fits [of "k - l"]
        by (simp add: sexp_compare_def unbox_fixnum_obj make_fixnum_obj returns_sign_def exI [of _ "k - l"])
    next
      case b: (bg c)
      then have nf: "\<not> fits_fixnum (bn_int c)" using assms(2) by (simp add: norm_int_def)
      note c = compare_fix_big [OF a(2) b(2) nf]
      show ?thesis
        unfolding a b by (rule returns_signI [OF c(1)]) (use c(2,3) a in \<open>auto simp: sgn_if\<close>)
    qed
  next
    case a: (bg c)
    show ?thesis using ex(2)
    proof (cases rule: exact_int_cases)
      case b: (fx l)
      have "sexp_compare F (arith F (Suc n)) a b = Some (sexp_negate F (fixnum_obj (if bn_int c < 0 then 1 else - 1)))"
        using a b compare_fix_big(1) [OF b(2) a(2), of F "arith F n"] assms(1)
        by (simp add: sexp_compare_def [of F "arith F (Suc n)"] arith_simps norm_int_def)
      moreover have "sexp_negate F (fixnum_obj m) = fixnum_obj (- m)" if "fits_fixnum m" for m
        using that by (simp add: sexp_negate_def) (simp add: fixnum_obj_def fx_ops_word)
      ultimately have e: "sexp_compare F (arith F (Suc n)) a b = Some (fixnum_obj (if bn_int c < 0 then - 1 else 1))"
        by simp
      have nf: "\<not> fits_fixnum (bn_int c)" using a assms(1) by (simp add: norm_int_def)
      show ?thesis
        by (rule returns_signI [OF e]) (use compare_fix_big(2,3) [OF b(2) a(2) nf] a b in \<open>auto simp: sgn_if\<close>)
    next
      case b: (bg d)
      have "bn_int c \<noteq> 0" "bn_int d \<noteq> 0" using a b assms(1,2) by (auto simp: norm_int_def)
      note v = compare_big_val [OF a(2) b(2) this]
      have "fits_fixnum (sexp_bignum_compare c d)"
        using a b assms(3,4) by (intro compare_range) (simp_all add: addressable_def)
      then show ?thesis
        using a b v by (simp add: sexp_compare_def returns_sign_def make_fixnum_obj sint_fits exI [of _ "sexp_bignum_compare c d"])
    qed
  qed
qed

text \<open>
  Two fixnums whose difference is no fixnum: the difference is exact in a word, and boxing it drops
  the highest bit, so it comes out with the opposite sign.
\<close>

lemma fixnum_obj_wraps: "fixnum_obj (k + 2 ^ 63) = fixnum_obj k" "fixnum_obj (k - 2 ^ 63) = fixnum_obj k"
  by (simp_all add: fixnum_obj_def fixnum_word_alt word_of_int_eq_iff take_bit_eq_mod)

lemma compare_fix_fix_wraps:
  assumes "fits_fixnum k" "fits_fixnum l" "\<not> fits_fixnum (k - l)"
  shows "returns_sign (sexp_compare F N (fixnum_obj k) (fixnum_obj l)) (l - k)"
proof -
  have d: "- (2 ^ 63) < k - l" "k - l < 2 ^ 63" "2 ^ 62 \<le> k - l \<or> k - l < - (2 ^ 62)"
    using assms by (auto simp: fits_fixnum_def)
  have "sint (word_of_int (k - l) :: u64) = k - l" using d by (intro sint_signed_word) simp_all
  then have e: "sexp_compare F N (fixnum_obj k) (fixnum_obj l) = Some (fixnum_obj (k - l))"
    using assms by (simp add: sexp_compare_def unbox_fixnum_obj make_fixnum_obj)
  let ?m = "if k < l then k - l + 2 ^ 63 else k - l - 2 ^ 63"
  have m: "fits_fixnum ?m" "sgn ?m = sgn (l - k)" using d by (auto simp: fits_fixnum_def sgn_if)
  have "sexp_compare F N (fixnum_obj k) (fixnum_obj l) = Some (fixnum_obj ?m)"
    unfolding e by (simp add: fixnum_obj_wraps [simplified])
  then show ?thesis using m by (rule returns_signI)
qed

subsection \<open>Properties of the integer operations\<close>

lemma ge_2_Suc: "2 \<le> n \<Longrightarrow> \<exists>m. n = Suc (Suc m)"
  by (intro exI [of _ "n - 2"]) simp

lemma ge_3_Suc: "3 \<le> n \<Longrightarrow> \<exists>m. n = Suc (Suc (Suc m))"
  by (intro exI [of _ "n - 3"]) simp

text \<open>
  C13.  Addition and multiplication of exact integers through the generic entry points are exact for
  every mix of fixnums and bignums: a fixnum overflow is caught and promoted, and the result is
  normalised (a bignum is returned only for a value outside the fixnum range).
\<close>

theorem integer_add_mul_exact:
  assumes "exact_int a" and "exact_int b" and "2 \<le> n"
  shows "returns_int (r_add (arith F n) a b) (int_val a + int_val b)
    \<and> returns_int (r_mul (arith F n) a b) (int_val a * int_val b)"
proof -
  obtain m where "n = Suc (Suc m)" using ge_2_Suc [OF assms(3)] by blast
  then show ?thesis using add_int [OF assms(1,2)] mul_int [OF assms(1,2)] by (simp add: arith_simps)
qed

theorem integer_add_mul_exact_witness:
  "\<forall>F :: bool flo_ops. returns_int (r_add (arith F 2) (fixnum_obj (2 ^ 62 - 1)) (fixnum_obj 1)) (2 ^ 62)
    \<and> returns_int (r_mul (arith F 2) (fixnum_obj (2 ^ 62 - 1)) (fixnum_obj 1)) (2 ^ 62 - 1)"
proof
  fix F :: "bool flo_ops"
  have "fits_fixnum (2 ^ 62 - 1)" by (simp add: fits_fixnum_def)
  then show "returns_int (r_add (arith F 2) (fixnum_obj (2 ^ 62 - 1)) (fixnum_obj 1)) (2 ^ 62)
    \<and> returns_int (r_mul (arith F 2) (fixnum_obj (2 ^ 62 - 1)) (fixnum_obj 1)) (2 ^ 62 - 1)"
    using integer_add_mul_exact [of "fixnum_obj (2 ^ 62 - 1) :: bool sexp" "fixnum_obj 1" 2 F] by simp
qed

text \<open>
  C23.  Subtraction of exact integers is exact, except that two fixnums must not differ by more than
  the fixnum range: \<open>sexp_sub\<close> leaves that case to its caller, the virtual machine.
\<close>

theorem integer_sub_exact:
  assumes "exact_int a" and "exact_int b" and "1 \<le> n"
    and "\<not> fits_fixnum (int_val a - int_val b) \<Longrightarrow> \<not> (sexp_fixnump a \<and> sexp_fixnump b)"
  shows "returns_int (r_sub (arith F n) a b) (int_val a - int_val b)"
proof -
  obtain m where "n = Suc m" using assms(3) by (cases n) simp_all
  then show ?thesis using sub_int [OF assms(1,2), of F "arith F m"] assms(4) by (auto simp: arith_simps)
qed

theorem integer_sub_exact_witness:
  "\<forall>F :: bool flo_ops. returns_int (r_sub (arith F 1) (fixnum_obj (- 5)) (BIGNUM (sexp_make_bignum 2))) (- 5)"
proof
  fix F :: "bool flo_ops"
  have "fits_fixnum (- 5)" by (simp add: fits_fixnum_def)
  then show "returns_int (r_sub (arith F 1) (fixnum_obj (- 5)) (BIGNUM (sexp_make_bignum 2))) (- 5)"
    using integer_sub_exact [of "fixnum_obj (- 5) :: bool sexp" "BIGNUM (sexp_make_bignum 2)" 1 F]
    by (simp add: sexp_make_bignum_def bignum_ok_def bn_int_def bn_nat_def)
qed

text \<open>
  C7.  Bignum division by estimating and correcting terminates and returns the truncated quotient
  and the remainder with the sign of the dividend, for every pair of bignums with a non-zero divisor.
\<close>

theorem bignum_quot_rem_exact:
  assumes "bignum_ok a" and "bignum_ok b" and "bn_int b \<noteq> 0" and "1 \<le> n"
  shows "\<exists>q r. sexp_bignum_quot_rem (arith F n) a b = Some (q, r) \<and> exact_int q \<and> exact_int r
    \<and> int_val q = c_div (bn_int a) (bn_int b) \<and> int_val r = c_rem (bn_int a) (bn_int b)"
proof -
  obtain m where "n = Suc m" using assms(4) by (cases n) simp_all
  then show ?thesis using division.quot_rem_correct [OF assms(1-3), of F m] by simp
qed

theorem bignum_quot_rem_exact_witness:
  "\<forall>F :: bool flo_ops. \<exists>q r. sexp_bignum_quot_rem (arith F 1)
      \<lparr>sexp_bignum_sign = - 1, sexp_bignum_data = [7, 0, 1]\<rparr> \<lparr>sexp_bignum_sign = 1, sexp_bignum_data = [0, 1]\<rparr> = Some (q, r)
    \<and> int_val q = - (2 ^ 64) \<and> int_val r = - 7"
proof
  fix F :: "bool flo_ops"
  let ?a = "\<lparr>sexp_bignum_sign = - 1, sexp_bignum_data = [7, 0, 1]\<rparr>" and ?b = "\<lparr>sexp_bignum_sign = 1, sexp_bignum_data = [0, 1]\<rparr>"
  have v: "bn_int ?a = - (2 ^ 128 + 7)" "bn_int ?b = 2 ^ 64" "bignum_ok ?a" "bignum_ok ?b"
    by (simp_all add: bn_int_def bn_nat_def bignum_ok_def)
  have d: "c_div (- (2 ^ 128 + 7)) (2 ^ 64) = - (2 ^ 64)" "c_rem (- (2 ^ 128 + 7)) (2 ^ 64) = - 7"
    by (simp_all add: c_div_def c_rem_def)
  show "\<exists>q r. sexp_bignum_quot_rem (arith F 1) ?a ?b = Some (q, r) \<and> int_val q = - (2 ^ 64) \<and> int_val r = - 7"
    using bignum_quot_rem_exact [OF v(3,4), of 1 F] unfolding v(1,2) d by auto
qed

text \<open>
  C10.  Quotient and remainder of normalised exact integers are those of C (truncating), through the
  generic entry points, for every divisor but zero and every operand pair but \<open>- 2 ^ 62\<close> by
  \<open>2 ^ 62\<close>.
\<close>

theorem integer_division_exact:
  assumes "norm_int a" and "norm_int b" and "int_val b \<noteq> 0" and "3 \<le> n"
    and "\<not> min_by_negation (int_val a) (int_val b)"
  shows "returns_int (r_quotient (arith F n) a b) (c_div (int_val a) (int_val b))
    \<and> returns_int (r_remainder (arith F n) a b) (c_rem (int_val a) (int_val b))"
proof -
  obtain m where n: "n = Suc (Suc (Suc m))" using ge_3_Suc [OF assms(4)] by blast
  have "exact_int a" using assms(1) by (simp add: norm_int_def)
  from quotient_int [OF assms(1-3,5), of F m] remainder_int [OF this assms(2,3), of F "Suc m"] assms(5)
  show ?thesis by (simp add: n arith_simps)
qed

theorem integer_division_exact_witness:
  "\<forall>F :: bool flo_ops. returns_int (r_quotient (arith F 3) (fixnum_obj (- (2 ^ 62))) (fixnum_obj (- 1))) (2 ^ 62)
    \<and> returns_int (r_remainder (arith F 3) (fixnum_obj (- (2 ^ 62))) (fixnum_obj (- 1))) 0"
proof
  fix F :: "bool flo_ops"
  have f: "fits_fixnum (- (2 ^ 62))" by (simp add: fits_fixnum_def)
  have d: "c_div (- (2 ^ 62)) (- 1) = 2 ^ 62" "c_rem (- (2 ^ 62)) (- 1) = 0" by (simp_all add: c_div_def c_rem_def)
  show "returns_int (r_quotient (arith F 3) (fixnum_obj (- (2 ^ 62))) (fixnum_obj (- 1))) (2 ^ 62)
    \<and> returns_int (r_remainder (arith F 3) (fixnum_obj (- (2 ^ 62))) (fixnum_obj (- 1))) 0"
    using integer_division_exact [of "fixnum_obj (- (2 ^ 62)) :: bool sexp" "fixnum_obj (- 1)" 3 F]
    unfolding int_val_fixnum_obj [OF f] int_val_fixnum_obj [OF fits_small(3)] d by (simp add: min_by_negation_def)
qed

text \<open>
  The one pair on which the shortcut for a fixnum over a bignum is wrong: the quotient of
  \<open>- 2 ^ 62\<close> by \<open>2 ^ 62\<close> is returned as zero instead of \<open>- 1\<close>, and the remainder as the dividend
  instead of zero.
\<close>

lemma quotient_min_fixnum_wrong:
  "r_quotient (arith F (Suc n)) (fixnum_obj (- (2 ^ 62))) (BIGNUM \<lparr>sexp_bignum_sign = 1, sexp_bignum_data = [2 ^ 62]\<rparr>)
    = Some SEXP_ZERO
   \<and> r_remainder (arith F (Suc n)) (fixnum_obj (- (2 ^ 62))) (BIGNUM \<lparr>sexp_bignum_sign = 1, sexp_bignum_data = [2 ^ 62]\<rparr>)
    = Some (fixnum_obj (- (2 ^ 62)))"
  by (simp add: arith_simps sexp_quotient_def sexp_remainder_def const_objs)



text \<open>
  The comparison of two fixnums whose difference leaves the fixnum range wraps around: the
  greatest fixnum compares below \<open>- 1\<close>.
\<close>

lemma compare_wraps:
  fixes F :: "'f flo_ops"
  shows "r_compare (arith F (Suc n)) (fixnum_obj (2 ^ 62 - 1)) (fixnum_obj (- 1)) = Some (fixnum_obj (- (2 ^ 62)))"
proof -
  have u: "unbox_fixnum (fixnum_obj 4611686018427387903 :: 'f sexp) = 4611686018427387903"
    "unbox_fixnum (fixnum_obj (- 1) :: 'f sexp) = - 1"
    by (simp_all add: unbox_fixnum_obj fits_fixnum_def)
  have "sexp_compare F (arith F n) (fixnum_obj (2 ^ 62 - 1)) (fixnum_obj (- 1)) = Some (make_fixnum 4611686018427387904)"
    by (simp add: sexp_compare_def u)
  also have "\<dots> = Some (fixnum_obj (- (2 ^ 62)))"
    by (simp add: make_fixnum_def fixnum_obj_def sexp_make_fixnum_def fixnum_word_def)
  finally show ?thesis by (simp add: arith_simps)
qed

text \<open>
  C28.  Exponentiation of a bignum by squaring returns the exact power, normalised, for every
  non-negative fixnum exponent.
\<close>

theorem bignum_expt_exact:
  fixes N :: "'f arith"
  assumes "bignum_ok a" and "fits_fixnum e" and "0 \<le> e"
  shows "returns_int (sexp_bignum_expt N a (fixnum_obj e)) (bn_int a ^ nat e)"
proof -
  let ?acc = "sexp_copy_bignum None a 0"
  have acc: "bignum_ok ?acc" "bn_int ?acc = bn_int a"
    using assms(1) by (simp_all add: sexp_copy_bignum_def bignum_ok_def bn_int_def bn_nat_def)
  have one: "bignum_ok (sexp_fixnum_to_bignum (sexp_make_fixnum 1))" "bn_int (sexp_fixnum_to_bignum (sexp_make_fixnum 1)) = 1"
    using fixnum_to_bignum_val [of "fixnum_word 1"] by (simp_all add: sexp_make_fixnum_word)
  have "sint (unbox_fixnum (fixnum_obj e :: 'f sexp)) = e" using assms by (simp add: unbox_fixnum_obj sint_fits)
  with assms(3) show ?thesis
    using expt_loop_val [OF acc(1) one(1), of "nat e"] acc one
    by (simp add: sexp_bignum_expt_def Let_def returns_normalized)
qed

theorem bignum_expt_exact_witness:
  "\<forall>N :: bool arith. returns_int (sexp_bignum_expt N \<lparr>sexp_bignum_sign = - 1, sexp_bignum_data = [10]\<rparr> (fixnum_obj 3)) (- 1000)"
proof
  fix N :: "bool arith"
  show "returns_int (sexp_bignum_expt N \<lparr>sexp_bignum_sign = - 1, sexp_bignum_data = [10]\<rparr> (fixnum_obj 3)) (- 1000)"
    using bignum_expt_exact [of "\<lparr>sexp_bignum_sign = - 1, sexp_bignum_data = [10]\<rparr>" 3 N]
    by (simp add: bignum_ok_def bn_int_def bn_nat_def fits_fixnum_def)
qed

subsection \<open>Integers from double-width words\<close>

lemma s128_of_halves: "s128_of \<lparr>lsint_hi = native_to_sint_hi x, lsint_lo = native_to_uint x\<rparr> = x"
  by (rule bit_word_eqI)
    (auto simp add: native_defs bit_unsigned_iff bit_signed_drop_bit_iff s128_of_def bit_u128_of luint_from_lsint_def)

lemma sint_halves: "sint x = sint (native_to_sint_hi x) * 2 ^ 64 + uint (native_to_uint x)"
  using sint_s128_of [of "\<lparr>lsint_hi = native_to_sint_hi x, lsint_lo = native_to_uint x\<rparr>"] by (simp add: s128_of_halves)

lemma uint_neg_word: "uint (- w) = 2 ^ 64 - uint w" if "w \<noteq> 0" for w :: u64
proof -
  have "uint w \<noteq> 0" using that by (simp add: word_uint_eq_iff)
  then have "0 < uint w" "uint w < 2 ^ 64" using uint_u64_range [of w] by linarith+
  then show ?thesis by (simp add: uint_word_ariths zmod_zminus1_eq_if)
qed

lemma uint_neg_of_negative: "uint (- w) = - sint w" if "sint w < 0" for w :: u64
proof -
  have "w \<noteq> 0" using that by auto
  then show ?thesis using uint_neg_word [of w] that by (auto simp: sint_u64 split: if_splits)
qed

lemma uint_of_nonnegative: "uint w = sint w" if "\<not> sint w < 0" for w :: u64
  using that uint_u64_range [of w] by (auto simp: sint_u64 split: if_splits)

lemma uint_not_of_negative: "uint (NOT w) = - sint w - 1" if "sint w < 0" for w :: u64
proof -
  have "NOT w = - w - 1" by (simp add: not_eq_complement)
  then have "uint (NOT w) = uint (- w) - 1"
    using uint_neg_of_negative [OF that] that uint_u64_range [of "- w"]
    by (simp add: uint_sub_if')
  then show ?thesis using uint_neg_of_negative [OF that] by simp
qed

lemma one_digit_val: "bn_int \<lparr>sexp_bignum_sign = s, sexp_bignum_data = [d]\<rparr> = s * uint d"
  and two_digit_val: "bn_int \<lparr>sexp_bignum_sign = s, sexp_bignum_data = [d, e]\<rparr> = s * (uint d + 2 ^ 64 * uint e)"
  by (simp_all add: bn_int_def bn_nat_def)

text \<open>
  C33.  \<open>sexp_make_integer_from_lsint\<close> returns the integer of every 128-bit value, except for the
  negative multiples of \<open>2 ^ 64\<close>, where the carry into the high digit is lost.
\<close>

theorem make_integer_from_lsint_val:
  assumes "\<not> (sint x < 0 \<and> 2 ^ 64 dvd sint x)"
  shows "exact_int (sexp_make_integer_from_lsint x :: 'f sexp)
    \<and> int_val (sexp_make_integer_from_lsint x :: 'f sexp) = sint x"
proof -
  let ?lo = "native_to_uint x" and ?hi = "native_to_sint_hi x"
  have h: "sint x = sint ?hi * 2 ^ 64 + uint ?lo" by (rule sint_halves)
  show ?thesis
  proof (cases "native_lsint_is_fixnum x")
    case True
    then have "fits_fixnum (sint x)" by (simp add: native_lsint_is_fixnum_def sint_fixnum_bounds fits_fixnum_def)
    moreover have "?lo = word_of_int (sint x)"
      by (rule bit_word_eqI) (simp add: native_to_uint_def bit_unsigned_iff bit_signed_iff)
    ultimately have "sint ?lo = sint x" "fits_fixnum (sint x)" by (simp_all only: sint_fits)
    with True show ?thesis by (simp add: sexp_make_integer_from_lsint_def make_fixnum_obj)
  next
    case nofix: False
    show ?thesis
    proof (cases "native_fits_sint x")
      case True
      then have "sint x = sint ?lo" by (metis native_fits_sint_def native_to_uint_def sint_scast_u128)
      then show ?thesis
        using nofix True uint_neg_of_negative [of ?lo] uint_u64_range [of ?lo]
        by (auto simp: sexp_make_integer_from_lsint_def native_lt_0_def one_digit_val bignum_ok_def sint_u64 split: if_splits)
    next
      case False
      obtain u v where uv: "uint ?lo = u" "sint ?hi = v" "0 \<le> u" "u < 2 ^ 64" using uint_u64_range by blast
      have "sint ?hi < 0 \<longleftrightarrow> sint x < 0" using uv(3,4) unfolding h uv(1,2) by (cases "v < 0") simp_all
      moreover have "?lo \<noteq> 0" if "sint x < 0"
        using assms that h by (metis dvd_triv_right unsigned_0 add.right_neutral)
      ultimately show ?thesis
        using nofix False h uint_neg_word [of ?lo] uint_not_of_negative [of ?hi] uint_of_nonnegative [of ?hi]
        by (cases "sint x < 0")
          (simp_all add: sexp_make_integer_from_lsint_def native_lt_0_def two_digit_val bignum_ok_def)
    qed
  qed
qed

theorem make_integer_from_lsint_val_witness:
  "int_val (sexp_make_integer_from_lsint (- 18446744073709551617) :: bool sexp) = - (2 ^ 64) - 1"
  using make_integer_from_lsint_val [of "- 18446744073709551617", where 'f = bool] by simp

text \<open>
  The exception is real: \<open>- 2 ^ 64\<close> is converted to zero.
\<close>

lemma make_integer_from_lsint_wrong:
  "sint (- 18446744073709551616 :: u128) = - (2 ^ 64)
    \<and> int_val (sexp_make_integer_from_lsint (- 18446744073709551616) :: 'f sexp) = 0"
proof -
  let ?x = "- 18446744073709551616 :: u128"
  have s: "sint ?x = - (2 ^ 64)" by simp
  have p: "native_to_uint ?x = 0" "native_to_sint_hi ?x = - 1"
    by (simp_all add: native_to_uint_def native_to_sint_hi_def)
      (rule bit_word_eqI, simp add: bit_unsigned_iff)
  have c: "\<not> native_lsint_is_fixnum ?x" "native_lt_0 ?x"
    using s by (simp_all add: native_lsint_is_fixnum_def sint_fixnum_bounds native_lt_0_def)
  have f: "\<not> native_fits_sint ?x" by (simp add: native_fits_sint_def)
  show ?thesis using s c f p by (simp add: sexp_make_integer_from_lsint_def two_digit_val one_digit_val)
qed

end
