(* ===== verification/Ratios.thy ===== *)
theory Ratios
  imports Complex_Main Exact
begin

text \<open>
  Exact rational arithmetic: \<open>sexp_ratio_normalize\<close> and the ratio operations compute the exact
  rational in lowest terms, as long as the denominators stay away from \<open>2 ^ 62\<close>, whose negation
  is the least fixnum and is not negated correctly.
\<close>

subsection \<open>Rationals as values\<close>

fun rat_val :: "'f sexp \<Rightarrow> rat" where
  "rat_val (RATIO n d) = of_int (int_val n) / of_int (int_val d)"
| "rat_val x = of_int (int_val x)"

fun norm_rat :: "'f sexp \<Rightarrow> bool" where
  "norm_rat (RATIO n d) \<longleftrightarrow>
    norm_int n \<and> norm_int d \<and> 1 < int_val d \<and> coprime (int_val n) (int_val d)"
| "norm_rat x \<longleftrightarrow> norm_int x"

definition returns_rat :: "'f sexp option \<Rightarrow> rat \<Rightarrow> bool" where
  "returns_rat x q \<longleftrightarrow> (\<exists>r. x = Some r \<and> norm_rat r \<and> rat_val r = q)"

text \<open>The denominators on which the normaliser is right.\<close>

definition good_denominator :: "int \<Rightarrow> int \<Rightarrow> bool" where
  "good_denominator n d \<longleftrightarrow> d \<noteq> 0 \<and> d \<noteq> - (2 ^ 62) \<and> \<bar>d\<bar> \<noteq> 2 ^ 62 * gcd n d"

lemma norm_int_rat: "norm_int x \<Longrightarrow> norm_rat x \<and> rat_val x = of_int (int_val x)"
  by (cases x) (simp_all add: norm_int_def)

lemma positive_denominator_val:
  fixes num :: "'f sexp"
  assumes "exact_int num" "exact_int den" "int_val den \<noteq> 0" "int_val den \<noteq> - (2 ^ 62)"
    "positive_denominator F num den = (num', den')"
  shows "exact_int num'" "exact_int den'" "int_val den' = \<bar>int_val den\<bar>"
    "int_val num' = sgn (int_val den) * int_val num" "norm_int den \<Longrightarrow> norm_int den'"
    "sexp_fixnump num' \<Longrightarrow> norm_int num'"
proof -
  have nd: "sexp_exact_negativep den \<longleftrightarrow> int_val den < 0"
    using assms(2,3)
  proof (cases rule: exact_int_cases)
    case (fx k)
    then show ?thesis by (simp add: sexp_exact_negativep_def unbox_fixnum_obj sint_fits)
  next
    case (bg b)
    then show ?thesis using assms(3) bn_int_sign [of b] by (simp add: sexp_exact_negativep_def sgn_if)
  qed
  have pm: "exact_int (promote_min_fixnum num)" "int_val (promote_min_fixnum num) = int_val num"
    "int_val (promote_min_fixnum num) \<noteq> - (2 ^ 62) \<or> sexp_bignump (promote_min_fixnum num)"
    using assms(1) exact_fixnum [of num] norm_int_eq [of num "- (2 ^ 62)"]
    by (auto simp: promote_min_fixnum_def fixnum_to_bignum_val make_fixnum_obj sint_fixnum_bounds fits_fixnum_def
        elim!: exact_int_cases)
  have ng: "sexp_negate F x = sexp_negate_exact x" if "exact_int x" for x :: "'f sexp"
    using that by (auto simp: sexp_negate_def elim!: exact_int_cases)
  note n1 = negate_exact_val [OF pm(1,3)] and n2 = negate_exact_val [OF assms(2) disjI1 [OF assms(4)]]
  show e: "exact_int num'" "exact_int den'" "int_val den' = \<bar>int_val den\<bar>" "int_val num' = sgn (int_val den) * int_val num"
    using assms n1 n2 nd pm ng by (auto simp: positive_denominator_def split: if_splits)
  show "sexp_fixnump num' \<Longrightarrow> norm_int num'" using e(1) by (auto simp: norm_int_def elim!: exact_int_cases)
  show "norm_int den'" if "norm_int den"
  proof (cases "sexp_bignump den'")
    case True
    then have "sexp_bignump den"
      using assms(2,5) ng by (auto simp: positive_denominator_def split: if_splits elim!: exact_int_cases) (simp add: fixnum_obj_def)
    then have "\<not> fits_fixnum (int_val den)" using that by (simp add: norm_int_def)
    then show ?thesis using e assms(4) by (auto simp: norm_int_def fits_fixnum_def)
  qed (use e in \<open>simp add: norm_int_def\<close>)
qed

lemma c_div_dvd:
  assumes "g \<noteq> 0" "g dvd x"
  shows "c_div x g = x div g"
proof -
  have "c_rem x g = 0" using assms(2) by (simp add: c_rem_def)
  then have "x = c_div x g * g" using c_div_rem [of x g] by simp
  then show ?thesis using assms(1) by (metis nonzero_mult_div_cancel_right)
qed

text \<open>Dividing by a signed greatest common divisor and making the denominator positive reduces a fraction.\<close>

lemma reduce_fraction:
  fixes n d g :: int
  assumes "d \<noteq> 0" "\<bar>g\<bar> = gcd n d" and x: "x = sgn d * n div g" and y: "y = \<bar>d\<bar> div g"
  shows "\<bar>y\<bar> = \<bar>d\<bar> div gcd n d" "y \<noteq> 0" "coprime (sgn y * x) \<bar>y\<bar>"
    "(of_int (sgn y * x) :: rat) / of_int \<bar>y\<bar> = of_int n / of_int d"
proof -
  have g0: "g \<noteq> 0" using assms(1,2) by auto
  have gd: "g dvd n" "g dvd d" using assms(2) by (metis abs_dvd_iff gcd_dvd1, metis abs_dvd_iff gcd_dvd2)
  obtain a b where ab: "n = g * a" "d = g * b" using gd by (auto elim!: dvdE)
  have b0: "b \<noteq> 0" using assms(1) ab by auto
  have "gcd n d = \<bar>g\<bar> * gcd a b" unfolding ab by (rule gcd_mult_distrib_int [symmetric])
  then have co: "coprime a b" using assms(1,2) g0 by (simp add: coprime_iff_gcd_eq_1)
  have y': "y = sgn g * \<bar>b\<bar>"
  proof -
    have "\<bar>d\<bar> = g * (sgn g * \<bar>b\<bar>)" unfolding ab abs_mult by (simp add: abs_sgn mult.assoc)
    then show ?thesis using y g0 by simp
  qed
  have x': "x = sgn d * a"
  proof -
    have "sgn d * n = g * (sgn d * a)" unfolding ab(1) by (simp add: ac_simps)
    then have "x = g * (sgn d * a) div g" using x by (simp only:)
    then show ?thesis using g0 by simp
  qed
  have sy: "sgn y = sgn g" using b0 g0 unfolding y' by (simp add: sgn_mult)
  have ab_y: "\<bar>y\<bar> = \<bar>b\<bar>" using g0 unfolding y' by (simp add: abs_mult abs_sgn_eq)
  show "y \<noteq> 0" using b0 g0 unfolding y' by (simp add: sgn_eq_0_iff)
  show "\<bar>y\<bar> = \<bar>d\<bar> div gcd n d" unfolding ab_y assms(2) [symmetric] using g0 by (simp add: ab(2) abs_mult)
  have sx: "sgn y * x = sgn b * a" unfolding sy x' ab(2) using g0 by (simp add: sgn_mult flip: mult.assoc)
  show "coprime (sgn y * x) \<bar>y\<bar>"
    unfolding sx ab_y using co b0 by (simp add: coprime_mult_left_iff sgn_if)
  have "(of_int (sgn b * a) :: rat) / of_int \<bar>b\<bar> = of_int a / of_int b"
    using b0 by (auto simp: sgn_if)
  then show "(of_int (sgn y * x) :: rat) / of_int \<bar>y\<bar> = of_int n / of_int d"
    unfolding sx ab_y ab using g0 by simp
qed

lemma returns_reduced:
  assumes "exact_int x" "exact_int y" "0 < int_val y" "coprime (int_val x) (int_val y)"
    "of_int (int_val x) / of_int (int_val y) = (q :: rat)"
  shows "returns_rat (Some (if sexp_bignum_normalize y = SEXP_ONE then sexp_bignum_normalize x
      else RATIO (sexp_bignum_normalize x) (sexp_bignum_normalize y))) q"
proof -
  note x = normalize_exact_int [OF assms(1)] and y = normalize_exact_int [OF assms(2)]
  have "sexp_bignum_normalize y = SEXP_ONE \<longleftrightarrow> int_val y = 1"
    using norm_int_eq [OF y(1), of 1] y(2) by (simp add: const_objs)
  then show ?thesis
    using x y assms(3-5) norm_int_rat [OF x(1)] by (auto simp: returns_rat_def)
qed

lemma positive_denominator_zero:
  fixes num :: "'f sexp"
  assumes "norm_int num" "int_val num = 0" and p: "positive_denominator F num den = (num', den')"
  shows "num' = SEXP_ZERO"
proof -
  have "num = fixnum_obj 0" using norm_int_eq [of num 0] assms(1,2) by simp
  moreover have "promote_min_fixnum (fixnum_obj 0) = (fixnum_obj 0 :: 'f sexp)"
    by (simp add: promote_min_fixnum_def make_fixnum_obj sint_fixnum_bounds fixnum_obj_inject fits_fixnum_def)
  moreover have "sexp_negate F (fixnum_obj 0) = fixnum_obj 0"
    by (simp add: sexp_negate_def) (simp add: fixnum_obj_def fx_ops_word(6) [of 0 0, simplified])
  ultimately show ?thesis using p by (auto simp: positive_denominator_def const_objs split: if_splits)
qed

lemma c_div_floor:
  assumes "1 < d" "coprime n d"
  shows "n div d = (if n < 0 then c_div n d - 1 else c_div n d)"
    and "n \<noteq> 0"
proof -
  have nd: "n mod d \<noteq> 0" using assms by (auto simp: coprime_iff_gcd_eq_1 dvd_eq_mod_eq_0 [symmetric] gcd_proj2_if_dvd_int)
  then show "n \<noteq> 0" by auto
  show "n div d = (if n < 0 then c_div n d - 1 else c_div n d)"
  proof (cases "n < 0")
    case True
    then have "c_div n d = - ((- n) div d)" using assms(1) by (simp add: c_div_def)
    then show ?thesis using True nd assms(1) by (simp add: zdiv_zminus1_eq_if)
  next
    case False
    then show ?thesis using assms(1) by (cases "n = 0") (simp_all add: c_div_def)
  qed
qed

lemma exact_sign_tests:
  assumes "exact_int x" "int_val x \<noteq> 0"
  shows "sexp_exact_negativep x \<longleftrightarrow> int_val x < 0" "sexp_exact_positivep x \<longleftrightarrow> 0 < int_val x"
  using assms bn_int_sign
  by (auto simp: sexp_exact_negativep_def sexp_exact_positivep_def unbox_fixnum_obj sint_fits sgn_if
      elim!: exact_int_cases split: if_splits)

subsection \<open>The interface of integer arithmetic\<close>

lemma normalize_fixnum: "sexp_bignum_normalize (fixnum_obj k) = fixnum_obj k"
  by (simp add: fixnum_obj_def)

locale integer_arith = quotient_accumulator N for N :: "'f arith" +
  assumes add_exact: "exact_int a \<Longrightarrow> exact_int b \<Longrightarrow> returns_int (r_add N a b) (int_val a + int_val b)"
    and mul_exact: "exact_int a \<Longrightarrow> exact_int b \<Longrightarrow> returns_int (r_mul N a b) (int_val a * int_val b)"
    and quot_exact: "exact_int a \<Longrightarrow> norm_int b \<Longrightarrow> int_val b \<noteq> 0 \<Longrightarrow>
      (sexp_fixnump a \<Longrightarrow> \<not> min_by_negation (int_val a) (int_val b)) \<Longrightarrow>
      \<exists>r. r_quotient N a b = Some r \<and> exact_int r \<and> int_val r = c_div (int_val a) (int_val b) \<and> (norm_int a \<longrightarrow> norm_int r)"
    and rem_exact: "exact_int a \<Longrightarrow> norm_int b \<Longrightarrow> int_val b \<noteq> 0 \<Longrightarrow>
      (sexp_fixnump a \<Longrightarrow> \<not> min_by_negation (int_val a) (int_val b)) \<Longrightarrow>
      returns_int (r_remainder N a b) (c_rem (int_val a) (int_val b))"
    and rem_min: "sexp_fixnump a \<Longrightarrow> exact_int a \<Longrightarrow> norm_int b \<Longrightarrow> min_by_negation (int_val a) (int_val b) \<Longrightarrow>
      r_remainder N a b = Some a"
begin

lemma gcd_loop_zero: "gcd_loop rmd num SEXP_ZERO = Some (Inr num)"
  by (subst gcd_loop.simps) simp

lemma gcd_loop_step:
  assumes "norm_int den" "int_val den \<noteq> 0" "rmd num den = Some r" "exact_int r"
  shows "gcd_loop rmd num den = gcd_loop rmd den r"
proof -
  have "den \<noteq> SEXP_ZERO" using assms(1,2) norm_int_eq [of den 0] by (auto simp: const_objs)
  moreover have "\<not> sexp_exceptionp r" using assms(4) by (cases r) simp_all
  ultimately show ?thesis using assms(3) by (subst gcd_loop.simps) simp
qed

lemma norm_int_zero: "norm_int r \<Longrightarrow> int_val r = 0 \<Longrightarrow> r = SEXP_ZERO"
  using norm_int_eq [of r 0] by (simp add: const_objs)

lemma gcd_c_rem: "gcd b (c_rem a b) = gcd a b"
  by (metis c_div_rem gcd.commute gcd_add_mult mult.commute add.commute)

lemma gcd_loop_correct:
  assumes "exact_int num" "norm_int den" "int_val den \<noteq> 0"
  shows "\<exists>g. gcd_loop (r_remainder N) num den = Some (Inr g) \<and> norm_int g
    \<and> \<bar>int_val g\<bar> = gcd (int_val num) (int_val den)"
  using assms
proof (induction "nat \<bar>int_val den\<bar>" arbitrary: num den rule: less_induct)
  case less
  show ?case
  proof (cases "sexp_fixnump num \<and> min_by_negation (int_val num) (int_val den)")
    case True
    then have v: "int_val num = - (2 ^ 62)" "int_val den = 2 ^ 62" by (simp_all add: min_by_negation_def)
    have nn: "norm_int num" using True less.prems(1) by (cases num) (simp_all add: norm_int_def)
    have 1: "gcd_loop (r_remainder N) num den = gcd_loop (r_remainder N) den num"
      using rem_min [of num den] True less.prems by (intro gcd_loop_step) (auto simp: norm_int_def)
    have "returns_int (r_remainder N den num) (c_rem (int_val den) (int_val num))"
      using less.prems nn v by (intro rem_exact) (auto simp: norm_int_def min_by_negation_def)
    then obtain r where r: "r_remainder N den num = Some r" "norm_int r" "int_val r = c_rem (2 ^ 62) (- (2 ^ 62))"
      unfolding returns_int_def v by blast
    then have "int_val r = 0" by (simp add: c_rem_def)
    then have "r = SEXP_ZERO" using r(2) by (rule norm_int_zero [rotated])
    then have "gcd_loop (r_remainder N) den num = Some (Inr num)"
      using gcd_loop_step [of num "r_remainder N" den r] nn v r by (simp add: gcd_loop_zero norm_int_def)
    then show ?thesis using 1 nn v by simp
  next
    case False
    then have "returns_int (r_remainder N num den) (c_rem (int_val num) (int_val den))"
      using less.prems by (intro rem_exact) auto
    then obtain r where r: "r_remainder N num den = Some r" "norm_int r" "int_val r = c_rem (int_val num) (int_val den)"
      unfolding returns_int_def by blast
    have st: "gcd_loop (r_remainder N) num den = gcd_loop (r_remainder N) den r"
      using r less.prems by (intro gcd_loop_step) (simp_all add: norm_int_def)
    show ?thesis
    proof (cases "int_val r = 0")
      case True
      then have "int_val den dvd int_val num" using r(3) c_div_rem [of "int_val num" "int_val den"] by (metis add.right_neutral dvd_triv_right)
      then show ?thesis
        using st norm_int_zero [OF r(2) True] less.prems by (simp add: gcd_loop_zero gcd_proj2_if_dvd_int)
    next
      case nz: False
      have "\<bar>int_val r\<bar> < \<bar>int_val den\<bar>" using c_rem_bound less.prems(3) r(3) by simp
      then have "nat \<bar>int_val r\<bar> < nat \<bar>int_val den\<bar>" by simp
      moreover have "exact_int den" using less.prems(2) by (simp add: norm_int_def)
      ultimately show ?thesis using less.hyps [of r den] r(2) nz unfolding st r(3) gcd_c_rem by blast
    qed
  qed
qed

lemma gcd_loop_min:
  assumes num: "num = fixnum_obj (- (2 ^ 62))" and den: "norm_int den" "0 < int_val den"
    and g: "gcd_loop (r_remainder N) num den = Some (Inr g)"
  shows "int_val g \<noteq> 2 ^ 62"
proof
  assume g62: "int_val g = 2 ^ 62"
  have n: "norm_int num" "int_val num = - (2 ^ 62)" "exact_int num" "sexp_fixnump num"
    using num by (simp_all add: fits_fixnum_def)
  have "\<bar>int_val g\<bar> = gcd (int_val num) (int_val den)"
    using gcd_loop_correct [OF n(3) den(1)] den(2) g by auto
  then have dv: "2 ^ 62 dvd int_val den" using g62 by (metis abs_numeral abs_power2 gcd_dvd2 abs_of_pos zero_less_numeral zero_less_power)
  then have ge: "2 ^ 62 \<le> int_val den" using den(2) by (rule zdvd_imp_le)
  have ne: "r_remainder N num den = Some num"
  proof (cases "min_by_negation (int_val num) (int_val den)")
    case True
    then show ?thesis using rem_min n den by simp
  next
    case False
    then have "\<bar>int_val num\<bar> < \<bar>int_val den\<bar>" using ge n(2) by (simp add: min_by_negation_def)
    then have "c_rem (int_val num) (int_val den) = int_val num" by (rule c_rem_small)
    with rem_exact [OF n(3) den(1)] den(2) False obtain r where
      "r_remainder N num den = Some r" "norm_int r" "int_val r = int_val num"
      unfolding returns_int_def by auto
    then show ?thesis using norm_int_eq [of r "- (2 ^ 62)"] n num by (simp add: fits_fixnum_def)
  qed
  have "c_rem (int_val den) (int_val num) = 0" using dv n(2) by (simp add: c_rem_def)
  moreover have "returns_int (r_remainder N den num) (c_rem (int_val den) (int_val num))"
    using den n by (intro rem_exact) (auto simp: norm_int_def min_by_negation_def)
  ultimately obtain z where z: "r_remainder N den num = Some z" "norm_int z" "int_val z = 0"
    unfolding returns_int_def by auto
  have "gcd_loop (r_remainder N) num den = gcd_loop (r_remainder N) den num"
    using den ne n by (intro gcd_loop_step) auto
  also have "\<dots> = gcd_loop (r_remainder N) num SEXP_ZERO"
    using gcd_loop_step [of num "r_remainder N" den z] z n norm_int_zero [OF z(2,3)] by (auto simp: norm_int_def)
  finally show False using g n g62 by (simp add: gcd_loop_zero)
qed

lemma ratio_normalize_correct:
  assumes "norm_int num" "norm_int den" "good_denominator (int_val num) (int_val den)"
  shows "returns_rat (sexp_ratio_normalize F N (RATIO num den)) (of_int (int_val num) / of_int (int_val den))"
proof -
  let ?n = "int_val num" and ?d = "int_val den"
  have d: "?d \<noteq> 0" "?d \<noteq> - (2 ^ 62)" "\<bar>?d\<bar> \<noteq> 2 ^ 62 * gcd ?n ?d" using assms(3) by (simp_all add: good_denominator_def)
  obtain rnum rden where p: "positive_denominator F num den = (rnum, rden)" by fastforce
  have ex: "exact_int num" "exact_int den" using assms(1,2) by (simp_all add: norm_int_def)
  note v = positive_denominator_val [OF ex d(1,2) p]
  have vd: "norm_int rden" "int_val rden \<noteq> 0" using v(5) [OF assms(2)] v(3) d(1) by simp_all
  have rd0: "rden \<noteq> SEXP_ZERO" using norm_int_eq [OF vd(1), of 0] vd(2) by (simp add: const_objs)
  show ?thesis
  proof (cases "?n = 0")
    case True
    have "rnum = SEXP_ZERO" using assms(1) True p by (rule positive_denominator_zero)
    then show ?thesis
      using p rd0 True by (simp add: sexp_ratio_normalize_def returns_rat_def const_objs norm_int_rat)
  next
    case False
    have rn0: "rnum \<noteq> SEXP_ZERO" using v(4) False d(1) by (auto simp: const_objs sgn_eq_0_iff)
    obtain g where g: "gcd_loop (r_remainder N) rnum rden = Some (Inr g)" "norm_int g"
      "\<bar>int_val g\<bar> = gcd (int_val rnum) (int_val rden)"
      using gcd_loop_correct [OF v(1) vd] by blast
    have G: "\<bar>int_val g\<bar> = gcd ?n ?d" unfolding g(3) v(3,4) using d(1) by (simp add: sgn_if)
    have g0: "int_val g \<noteq> 0" using G d(1) by auto
    have gdv: "int_val g dvd ?n" "int_val g dvd ?d" using G by (metis abs_dvd_iff gcd_dvd1, metis abs_dvd_iff gcd_dvd2)
    have "0 \<le> int_val rden" using v(3) by simp
    then have "\<not> min_by_negation (int_val rden) (int_val g)" by (auto simp: min_by_negation_def)
    then obtain y where y: "r_quotient N rden g = Some y" "exact_int y" "int_val y = \<bar>?d\<bar> div int_val g"
      using quot_exact [OF v(2) g(2) g0] v(3) gdv c_div_dvd [OF g0, of "\<bar>?d\<bar>"] by auto
    have "\<not> min_by_negation (int_val rnum) (int_val g)" if "sexp_fixnump rnum"
    proof
      assume m: "min_by_negation (int_val rnum) (int_val g)"
      then have "rnum = fixnum_obj (- (2 ^ 62))" using exact_fixnum [OF v(1) that] by (simp add: min_by_negation_def)
      from gcd_loop_min [OF this vd(1) _ g(1)] show False using m v(3) d(1) by (simp add: min_by_negation_def)
    qed
    then obtain x where x: "r_quotient N rnum g = Some x" "exact_int x" "int_val x = sgn ?d * ?n div int_val g"
      using quot_exact [OF v(1) g(2) g0] v(4) gdv c_div_dvd [OF g0, of "sgn ?d * ?n"] by auto
    note red = reduce_fraction [OF d(1) G x(3) y(3)]
    have ym: "int_val y \<noteq> - (2 ^ 62)"
    proof
      assume "int_val y = - (2 ^ 62)"
      then have "\<bar>?d\<bar> div gcd ?n ?d = 2 ^ 62" using red(1) by simp
      moreover have "gcd ?n ?d dvd \<bar>?d\<bar>" by simp
      ultimately show False using d(3) by (metis dvd_div_mult_self)
    qed
    obtain x' y' where q: "positive_denominator F x y = (x', y')" by fastforce
    note w = positive_denominator_val [OF x(2) y(2) red(2) ym q]
    have "sexp_ratio_normalize F N (RATIO num den) = Some (if sexp_bignum_normalize y' = SEXP_ONE then sexp_bignum_normalize x'
      else RATIO (sexp_bignum_normalize x') (sexp_bignum_normalize y'))"
      using p rd0 rn0 g(1) x(1) y(1) q by (simp add: sexp_ratio_normalize_def)
    then show ?thesis
      using returns_reduced [OF w(1,2)] w(3,4) red by simp
  qed
qed

lemma ratio_ops_correct:
  assumes "norm_int n1" "norm_int d1" "norm_int n2" "norm_int d2" "int_val d1 \<noteq> 0" "int_val d2 \<noteq> 0"
  shows "good_denominator (int_val n1 * int_val d2 + int_val n2 * int_val d1) (int_val d1 * int_val d2) \<Longrightarrow>
      returns_rat (sexp_ratio_add F N (RATIO n1 d1) (RATIO n2 d2)) (rat_val (RATIO n1 d1) + rat_val (RATIO n2 d2))"
    and "good_denominator (int_val n1 * int_val n2) (int_val d1 * int_val d2) \<Longrightarrow>
      returns_rat (sexp_ratio_mul F N (RATIO n1 d1) (RATIO n2 d2)) (rat_val (RATIO n1 d1) * rat_val (RATIO n2 d2))"
    and "int_val n2 \<noteq> 0 \<Longrightarrow> good_denominator (int_val n1 * int_val d2) (int_val d1 * int_val n2) \<Longrightarrow>
      returns_rat (sexp_ratio_div F N (RATIO n1 d1) (RATIO n2 d2)) (rat_val (RATIO n1 d1) / rat_val (RATIO n2 d2))"
proof -
  have ex: "exact_int n1" "exact_int d1" "exact_int n2" "exact_int d2" using assms by (simp_all add: norm_int_def)
  note m = mul_exact [unfolded returns_int_def]
  obtain x where x: "r_mul N n1 d2 = Some x" "norm_int x" "int_val x = int_val n1 * int_val d2"
    using m [OF ex(1,4)] by blast
  obtain y where y: "r_mul N n2 d1 = Some y" "norm_int y" "int_val y = int_val n2 * int_val d1"
    using m [OF ex(3,2)] by blast
  obtain z where z: "r_mul N d1 d2 = Some z" "norm_int z" "int_val z = int_val d1 * int_val d2"
    using m [OF ex(2,4)] by blast
  obtain p where p: "r_mul N n1 n2 = Some p" "norm_int p" "int_val p = int_val n1 * int_val n2"
    using m [OF ex(1,3)] by blast
  obtain q where q: "r_mul N d1 n2 = Some q" "norm_int q" "int_val q = int_val d1 * int_val n2"
    using m [OF ex(2,3)] by blast
  obtain s where s: "r_add N x y = Some s" "norm_int s" "int_val s = int_val n1 * int_val d2 + int_val n2 * int_val d1"
    using add_exact [of x y] x y unfolding returns_int_def norm_int_def by auto
  show "returns_rat (sexp_ratio_add F N (RATIO n1 d1) (RATIO n2 d2)) (rat_val (RATIO n1 d1) + rat_val (RATIO n2 d2))"
    if "good_denominator (int_val n1 * int_val d2 + int_val n2 * int_val d1) (int_val d1 * int_val d2)"
    using ratio_normalize_correct [OF s(2) z(2), of F] that assms(5,6) x y z s
    by (simp add: sexp_ratio_add_def add_frac_eq)
  show "returns_rat (sexp_ratio_mul F N (RATIO n1 d1) (RATIO n2 d2)) (rat_val (RATIO n1 d1) * rat_val (RATIO n2 d2))"
    if "good_denominator (int_val n1 * int_val n2) (int_val d1 * int_val d2)"
    using ratio_normalize_correct [OF p(2) z(2), of F] that p z by (simp add: sexp_ratio_mul_def)
  show "returns_rat (sexp_ratio_div F N (RATIO n1 d1) (RATIO n2 d2)) (rat_val (RATIO n1 d1) / rat_val (RATIO n2 d2))"
    if "int_val n2 \<noteq> 0" "good_denominator (int_val n1 * int_val d2) (int_val d1 * int_val n2)"
    using ratio_normalize_correct [OF x(2) q(2), of F] that x q by (simp add: sexp_ratio_div_def)
qed

lemma ratio_quotient:
  assumes "norm_rat (RATIO n d)"
  shows "returns_int (r_quotient N n d) (c_div (int_val n) (int_val d))"
proof -
  have nd: "norm_int n" "norm_int d" "1 < int_val d" "coprime (int_val n) (int_val d)" using assms by simp_all
  have "\<not> min_by_negation (int_val n) (int_val d)" using nd(3,4) by (auto simp: min_by_negation_def)
  then show ?thesis
    using quot_exact [of n d] nd unfolding returns_int_def norm_int_def by auto
qed

lemma ratio_rounding_correct:
  assumes "norm_rat (RATIO n d)"
  shows "returns_int (sexp_ratio_trunc N (RATIO n d)) (c_div (int_val n) (int_val d))"
    and "returns_int (sexp_ratio_floor N (RATIO n d)) \<lfloor>rat_val (RATIO n d)\<rfloor>"
    and "returns_int (sexp_ratio_ceiling N (RATIO n d)) \<lceil>rat_val (RATIO n d)\<rceil>"
proof -
  let ?n = "int_val n" and ?d = "int_val d"
  have nd: "exact_int n" "1 < ?d" "coprime ?n ?d" using assms by (simp_all add: norm_int_def)
  note fl = c_div_floor [OF nd(2,3)] and sg = exact_sign_tests [OF nd(1) c_div_floor(2) [OF nd(2,3)]]
  obtain q where q: "r_quotient N n d = Some q" "norm_int q" "int_val q = c_div ?n ?d"
    using ratio_quotient [OF assms] unfolding returns_int_def by blast
  have qe: "exact_int q" using q(2) by (simp add: norm_int_def)
  show "returns_int (sexp_ratio_trunc N (RATIO n d)) (c_div ?n ?d)"
    using q by (simp add: sexp_ratio_trunc_def returns_int_def)
  have f: "\<lfloor>rat_val (RATIO n d)\<rfloor> = ?n div ?d" by (simp add: floor_divide_of_int_eq)
  show "returns_int (sexp_ratio_floor N (RATIO n d)) \<lfloor>rat_val (RATIO n d)\<rfloor>"
    unfolding f fl(1) using q add_exact [OF qe, of SEXP_NEG_ONE] sg
    by (auto simp: sexp_ratio_floor_def const_objs returns_int_def)
  have c: "\<lceil>rat_val (RATIO n d)\<rceil> = ?n div ?d + 1"
  proof -
    have "\<not> ?d dvd ?n" using nd by (auto simp: coprime_iff_gcd_eq_1 gcd_proj2_if_dvd_int)
    then show ?thesis using nd(2) by (simp add: ceiling_divide_eq_div zdiv_zminus1_eq_if dvd_eq_mod_eq_0)
  qed
  show "returns_int (sexp_ratio_ceiling N (RATIO n d)) \<lceil>rat_val (RATIO n d)\<rceil>"
    unfolding c fl(1) using q add_exact [OF qe, of SEXP_ONE] sg fl(2)
    by (auto simp: sexp_ratio_ceiling_def const_objs returns_int_def)
qed

text \<open>The least fixnum as a denominator: it is its own negation.\<close>

lemma normalize_min_denominator:
  assumes m: "m = - (2 ^ 62)"
  shows "\<exists>r. sexp_ratio_normalize F N (RATIO (fixnum_obj 1) (fixnum_obj m)) = Some r \<and> rat_val r = 1 / 2 ^ 62"
proof -
  let ?one = "fixnum_obj 1 :: 'f sexp" and ?neg = "fixnum_obj (- 1) :: 'f sexp" and ?min = "fixnum_obj m :: 'f sexp"
  have fm: "fits_fixnum m" by (simp add: m fits_fixnum_def)
  have sm: "sint (unbox_fixnum ?min) < 0" using fm by (simp add: unbox_fixnum_obj sint_fits) (simp add: m)
  have "fixnum_word (- m) = fixnum_word m" by (simp add: m fixnum_word_def sexp_make_fixnum_def)
  then have nm: "sexp_negate F ?min = ?min"
    using fx_ops_word(6) [OF fm fm] by (simp add: sexp_negate_def fixnum_obj_def)
  have n1: "sexp_negate F ?one = ?neg"
    using fx_ops_word(6) [OF fits_small(2,2)] by (simp add: sexp_negate_def fixnum_obj_def)
  have "?one \<noteq> make_fixnum SEXP_MIN_FIXNUM"
    unfolding make_fixnum_obj sint_fixnum_bounds using fixnum_obj_inject [OF fits_small(2) fm] m by simp
  then have pd: "positive_denominator F ?one ?min = (?neg, ?min)"
    using sm nm n1 by (simp add: positive_denominator_def promote_min_fixnum_def sexp_exact_negativep_def)
  have m1: "m \<noteq> 0" by (simp add: m)
  have mz: "?min \<noteq> SEXP_ZERO" "?neg \<noteq> SEXP_ZERO"
    using m1 fm by (simp_all add: const_objs fixnum_obj_inject)
  have c: "c_rem (- 1) m = - 1" "c_rem m (- 1) = 0" "c_div m (- 1) = 2 ^ 62" "c_div (- 1) (- 1) = 1"
    by (simp_all add: m c_rem_def c_div_def)
  have m0: "m \<noteq> 0" "\<not> min_by_negation (- 1) m" "\<not> min_by_negation m (- 1)" "\<not> min_by_negation (- 1) (- 1)"
    by (simp_all add: m min_by_negation_def)
  have r1: "r_remainder N ?neg ?min = Some ?neg"
    using rem_exact [of ?neg ?min] norm_int_eq [of _ "- 1"] c m0 fm by (auto simp: returns_int_def)
  have r2: "r_remainder N ?min ?neg = Some SEXP_ZERO"
    using rem_exact [of ?min ?neg] norm_int_eq [of _ 0] c m0 fm by (auto simp: returns_int_def const_objs)
  have g: "gcd_loop (r_remainder N) ?neg ?min = Some (Inr ?neg)"
    using r1 r2 mz by (simp add: gcd_loop.simps const_objs)
  obtain q where q: "r_quotient N ?min ?neg = Some q" "norm_int q" "int_val q = 2 ^ 62"
    using quot_exact [of ?min ?neg] c m0 fm by auto
  have o: "r_quotient N ?neg ?neg = Some ?one"
    using quot_exact [of ?neg ?neg] norm_int_eq [of _ 1] c m0 by auto
  have qe: "exact_int q" using q(2) by (simp add: norm_int_def)
  have pd2: "positive_denominator F ?one q = (?one, q)"
    using exact_sign_tests [OF qe] q(3) by (simp add: positive_denominator_def)
  have nz: "sexp_bignum_normalize q \<noteq> SEXP_ONE" "int_val (sexp_bignum_normalize q) = 2 ^ 62"
    using normalize_exact_int [OF qe] q(3) by (auto simp: const_objs)
  have "sexp_ratio_normalize F N (RATIO ?one ?min) = Some (RATIO ?one (sexp_bignum_normalize q))"
    using pd g q o pd2 mz nz by (simp add: sexp_ratio_normalize_def normalize_fixnum)
  then show ?thesis using nz(2) by simp
qed

end

interpretation tower: integer_arith "arith F (Suc (Suc (Suc n)))" for F :: "'f flo_ops" and n
proof
  fix a b :: "'f sexp"
  show "returns_int (r_add (arith F (Suc (Suc (Suc n)))) a b) (int_val a + int_val b)" if "exact_int a" "exact_int b"
    using add_int [OF that] by (simp add: arith_simps)
  show "returns_int (r_mul (arith F (Suc (Suc (Suc n)))) a b) (int_val a * int_val b)" if "exact_int a" "exact_int b"
    using mul_int [OF that] by (simp add: arith_simps)
  show "\<exists>r. r_quotient (arith F (Suc (Suc (Suc n)))) a b = Some r \<and> exact_int r
      \<and> int_val r = c_div (int_val a) (int_val b) \<and> (norm_int a \<longrightarrow> norm_int r)"
    if "exact_int a" "norm_int b" "int_val b \<noteq> 0" "sexp_fixnump a \<Longrightarrow> \<not> min_by_negation (int_val a) (int_val b)"
    using quotient_exact [OF that] by (metis arith_simps(5))
  show "returns_int (r_remainder (arith F (Suc (Suc (Suc n)))) a b) (c_rem (int_val a) (int_val b))"
    if "exact_int a" "norm_int b" "int_val b \<noteq> 0" "sexp_fixnump a \<Longrightarrow> \<not> min_by_negation (int_val a) (int_val b)"
    using remainder_int [OF that] by (simp add: arith_simps)
  show "r_remainder (arith F (Suc (Suc (Suc n)))) a b = Some a"
    if "sexp_fixnump a" "exact_int a" "norm_int b" "min_by_negation (int_val a) (int_val b)"
    using exact_fixnum [OF that(2,1)] that(3,4)
    by (auto simp: arith_simps sexp_remainder_def norm_int_def min_by_negation_def fits_fixnum_def const_objs
        elim!: exact_int_cases)
qed

subsection \<open>Rational arithmetic through the entry points\<close>

fun int_num :: "'f sexp \<Rightarrow> int" where
  "int_num (RATIO n d) = int_val n" | "int_num x = int_val x"

fun int_den :: "'f sexp \<Rightarrow> int" where
  "int_den (RATIO n d) = int_val d" | "int_den x = 1"

lemma rat_val_frac: "norm_rat x \<Longrightarrow> rat_val x = of_int (int_num x) / of_int (int_den x)" "norm_rat x \<Longrightarrow> 0 < int_den x"
  by (cases x; simp)+

lemma quotient_of_frac: "0 < d \<Longrightarrow> snd (quotient_of (of_int n / of_int d)) = d div gcd n d"
  by (simp add: quotient_of_Fract Rat.normalize_def Let_def flip: Fract_of_int_quotient)

lemma good_denominatorI:
  assumes "0 < d" "snd (quotient_of (of_int n / of_int d)) \<noteq> 2 ^ 62"
  shows "good_denominator n d"
proof -
  have "d \<noteq> 2 ^ 62 * gcd n d"
  proof
    assume d: "d = 2 ^ 62 * gcd n d"
    have "gcd n d \<noteq> 0" using assms(1) by simp
    then have "d div gcd n d = 2 ^ 62" by (subst d) (rule nonzero_mult_div_cancel_right)
    then show False using assms by (simp add: quotient_of_frac)
  qed
  then show ?thesis using assms(1) by (simp add: good_denominator_def)
qed

text \<open>The ratio operations see an integer operand as a ratio over one.\<close>

definition as_ratio :: "'f sexp \<Rightarrow> 'f sexp" where
  "as_ratio x = (if sexp_ratiop x then x else RATIO x SEXP_ONE)"

lemma as_ratio_parts:
  assumes "norm_rat x"
  obtains n d where "as_ratio x = RATIO n d" "norm_int n" "norm_int d" "int_val n = int_num x" "int_val d = int_den x"
    "0 < int_val d" "rat_val (RATIO n d) = rat_val x"
proof (cases "sexp_ratiop x")
  case True
  then obtain n d where "x = RATIO n d" by (cases x) auto
  with assms that show thesis by (simp add: as_ratio_def)
next
  case False
  then have e: "as_ratio x = RATIO x SEXP_ONE" by (simp add: as_ratio_def)
  have "norm_int x" "int_num x = int_val x" "int_den x = 1" "rat_val x = of_int (int_val x)"
    using assms False by (cases x; simp)+
  then show thesis using that [OF e] by (simp add: const_objs)
qed

lemma norm_rat_int: "norm_rat x \<Longrightarrow> \<not> sexp_ratiop x \<Longrightarrow> norm_int x \<and> rat_val x = of_int (int_val x)"
  by (cases x) simp_all

lemma add_as_ratio:
  assumes "norm_rat a" "norm_rat b" "sexp_ratiop a \<or> sexp_ratiop b"
  shows "sexp_add F N a b = sexp_ratio_add F N (as_ratio a) (as_ratio b)
      \<or> sexp_add F N a b = sexp_ratio_add F N (as_ratio b) (as_ratio a)"
    and "sexp_mul F N a b = sexp_ratio_mul F N (as_ratio a) (as_ratio b)
      \<or> sexp_mul F N a b = sexp_ratio_mul F N (as_ratio b) (as_ratio a)"
    and "sexp_div F N a b = sexp_ratio_div F N (as_ratio a) (as_ratio b)"
proof -
  have split: "(\<exists>k. x = fixnum_obj k) \<or> (\<exists>c. x = BIGNUM c) \<or> (\<exists>n d. x = RATIO n d)"
    if "norm_rat x" for x :: "'a sexp"
    using that by (cases x) (auto simp: norm_int_def fixnum_obj_def fixnum_word_value intro: exI [of _ "fixnum_value _"] dest: fixnum_word_value [symmetric])
  show "sexp_add F N a b = sexp_ratio_add F N (as_ratio a) (as_ratio b)
      \<or> sexp_add F N a b = sexp_ratio_add F N (as_ratio b) (as_ratio a)"
    using split [OF assms(1)] split [OF assms(2)] assms(3) by (auto simp: sexp_add_def as_ratio_def)
  show "sexp_mul F N a b = sexp_ratio_mul F N (as_ratio a) (as_ratio b)
      \<or> sexp_mul F N a b = sexp_ratio_mul F N (as_ratio b) (as_ratio a)"
    using split [OF assms(1)] split [OF assms(2)] assms(3) by (auto simp: sexp_mul_def as_ratio_def)
  show "sexp_div F N a b = sexp_ratio_div F N (as_ratio a) (as_ratio b)"
    using split [OF assms(1)] split [OF assms(2)] assms(3) by (auto simp: sexp_div_def as_ratio_def)
qed

lemma div_integers: "norm_int a \<Longrightarrow> norm_int b \<Longrightarrow> sexp_div F N a b = sexp_ratio_normalize F N (RATIO a b)"
  by (auto simp: norm_int_def sexp_div_def elim!: exact_int_cases)

lemma rational_step:
  assumes a: "norm_rat a" and b: "norm_rat b"
  shows "snd (quotient_of (rat_val a + rat_val b)) \<noteq> 2 ^ 62 \<Longrightarrow>
      returns_rat (sexp_ratio_add F (arith F (Suc (Suc (Suc n)))) (as_ratio a) (as_ratio b)) (rat_val a + rat_val b)"
    and "snd (quotient_of (rat_val a * rat_val b)) \<noteq> 2 ^ 62 \<Longrightarrow>
      returns_rat (sexp_ratio_mul F (arith F (Suc (Suc (Suc n)))) (as_ratio a) (as_ratio b)) (rat_val a * rat_val b)"
    and "rat_val b \<noteq> 0 \<Longrightarrow> good_denominator (int_num a * int_den b) (int_den a * int_num b) \<Longrightarrow>
      returns_rat (sexp_ratio_div F (arith F (Suc (Suc (Suc n)))) (as_ratio a) (as_ratio b)) (rat_val a / rat_val b)"
proof -
  obtain n1 d1 where 1: "as_ratio a = RATIO n1 d1" "norm_int n1" "norm_int d1" "int_val n1 = int_num a"
    "int_val d1 = int_den a" "0 < int_val d1" "rat_val (RATIO n1 d1) = rat_val a" using as_ratio_parts [OF a] .
  obtain n2 d2 where 2: "as_ratio b = RATIO n2 d2" "norm_int n2" "norm_int d2" "int_val n2 = int_num b"
    "int_val d2 = int_den b" "0 < int_val d2" "rat_val (RATIO n2 d2) = rat_val b" using as_ratio_parts [OF b] .
  have nz: "int_val d1 \<noteq> 0" "int_val d2 \<noteq> 0" using 1 2 by simp_all
  note ops = tower.ratio_ops_correct [OF 1(2,3) 2(2,3) nz, of F F n, unfolded 1(7) 2(7), folded 1(1) 2(1)]
  have pos: "0 < int_val d1 * int_val d2" using 1 2 by simp
  have sum: "rat_val a + rat_val b = of_int (int_val n1 * int_val d2 + int_val n2 * int_val d1) / of_int (int_val d1 * int_val d2)"
    unfolding 1(7) [symmetric] 2(7) [symmetric] using nz by (simp add: add_frac_eq)
  have prod: "rat_val a * rat_val b = of_int (int_val n1 * int_val n2) / of_int (int_val d1 * int_val d2)"
    unfolding 1(7) [symmetric] 2(7) [symmetric] by simp
  show "returns_rat (sexp_ratio_add F (arith F (Suc (Suc (Suc n)))) (as_ratio a) (as_ratio b)) (rat_val a + rat_val b)"
    if "snd (quotient_of (rat_val a + rat_val b)) \<noteq> 2 ^ 62"
    using ops(1) good_denominatorI [OF pos] that unfolding sum by blast
  show "returns_rat (sexp_ratio_mul F (arith F (Suc (Suc (Suc n)))) (as_ratio a) (as_ratio b)) (rat_val a * rat_val b)"
    if "snd (quotient_of (rat_val a * rat_val b)) \<noteq> 2 ^ 62"
    using ops(2) good_denominatorI [OF pos] that unfolding prod by blast
  show "returns_rat (sexp_ratio_div F (arith F (Suc (Suc (Suc n)))) (as_ratio a) (as_ratio b)) (rat_val a / rat_val b)"
    if "rat_val b \<noteq> 0" "good_denominator (int_num a * int_den b) (int_den a * int_num b)"
  proof -
    have "int_val n2 \<noteq> 0" using that(1) 2(7) by auto
    then show ?thesis using ops(3) that(2) 1 2 by simp
  qed
qed

lemma returns_int_rat: "returns_int x k \<Longrightarrow> returns_rat x (of_int k)"
  by (auto simp: returns_int_def returns_rat_def dest: norm_int_rat)

lemma ge_4_Suc: "4 \<le> n \<Longrightarrow> \<exists>m. n = Suc (Suc (Suc (Suc m)))"
  by (intro exI [of _ "n - 4"]) simp

text \<open>
  C5.  Addition and multiplication of exact numbers (fixnums, bignums and ratios in lowest terms)
  through the generic entry points return, in normal form, the exact sum and product, if neither the sum
  nor the product has the denominator \<open>2 ^ 62\<close> in lowest terms.  For such a result the
  normaliser may negate the least fixnum, which leaves it unchanged, and return the wrong sign.
\<close>

theorem rational_add_mul_exact:
  assumes "norm_rat a" and "norm_rat b" and "4 \<le> n"
    and "snd (quotient_of (rat_val a + rat_val b)) \<noteq> 2 ^ 62"
    and "snd (quotient_of (rat_val a * rat_val b)) \<noteq> 2 ^ 62"
  shows "returns_rat (r_add (arith F n) a b) (rat_val a + rat_val b)
    \<and> returns_rat (r_mul (arith F n) a b) (rat_val a * rat_val b)"
proof -
  obtain m where n: "n = Suc (Suc (Suc (Suc m)))" using ge_4_Suc [OF assms(3)] by blast
  show ?thesis
  proof (cases "sexp_ratiop a \<or> sexp_ratiop b")
    case True
    have c: "rat_val b + rat_val a = rat_val a + rat_val b" "rat_val b * rat_val a = rat_val a * rat_val b"
      by (simp_all add: ac_simps)
    note s1 = rational_step [OF assms(1,2), of F m] and s2 = rational_step [OF assms(2,1), of F m, unfolded c]
    show ?thesis
      using s1(1,2) s2(1,2) assms(4,5) add_as_ratio(1,2) [OF assms(1,2) True, of F "arith F (Suc (Suc (Suc m)))"]
      unfolding n arith_simps by metis
  next
    case False
    then have "exact_int a" "exact_int b" "rat_val a = of_int (int_val a)" "rat_val b = of_int (int_val b)"
      using norm_rat_int [OF assms(1)] norm_rat_int [OF assms(2)] by (simp_all add: norm_int_def)
    then show ?thesis
      using returns_int_rat [OF tower.add_exact, of a b F "Suc m"] returns_int_rat [OF tower.mul_exact, of a b F "Suc m"]
      by (simp add: n)
  qed
qed

theorem rational_add_mul_exact_witness:
  "\<forall>F :: bool flo_ops. returns_rat (r_add (arith F 4) (RATIO (fixnum_obj 1) (fixnum_obj 6)) (RATIO (fixnum_obj 1) (fixnum_obj 3))) (1 / 2)
    \<and> returns_rat (r_mul (arith F 4) (RATIO (fixnum_obj 1) (fixnum_obj 6)) (RATIO (fixnum_obj 1) (fixnum_obj 3))) (1 / 18)"
proof
  fix F :: "bool flo_ops"
  have fits: "fits_fixnum 3" "fits_fixnum 6" by (simp_all add: fits_fixnum_def)
  let ?a = "RATIO (fixnum_obj 1) (fixnum_obj 6) :: bool sexp" and ?b = "RATIO (fixnum_obj 1) (fixnum_obj 3) :: bool sexp"
  have v: "rat_val ?a + rat_val ?b = of_int 1 / of_int 2" "rat_val ?a * rat_val ?b = of_int 1 / of_int 18"
    by (simp_all add: fits)
  have q: "snd (quotient_of (of_int 1 / of_int 2)) = 2" "snd (quotient_of (of_int 1 / of_int 18)) = 18"
    by (simp_all add: quotient_of_frac del: of_int_1 of_int_numeral)
  show "returns_rat (r_add (arith F 4) ?a ?b) (1 / 2) \<and> returns_rat (r_mul (arith F 4) ?a ?b) (1 / 18)"
    using rational_add_mul_exact [of ?a ?b 4 F] unfolding v q by (simp add: fits)
qed

text \<open>
  C15.  Division of exact numbers returns the exact quotient in lowest terms, for every non-zero
  divisor, if of the cross-multiplied numerator and denominator (those of \<open>a\<close> times the
  inverse of \<open>b\<close>, not reduced) the denominator is not \<open>- (2 ^ 62)\<close> and does not reduce to \<open>2 ^ 62\<close> in magnitude
  (\<open>good_denominator\<close>).  Otherwise the sign can be wrong, as for 1 by \<open>- (2 ^ 62)\<close>.
\<close>

theorem rational_div_exact:
  assumes "norm_rat a" and "norm_rat b" and "rat_val b \<noteq> 0" and "4 \<le> n"
    and "good_denominator (int_num a * int_den b) (int_den a * int_num b)"
  shows "returns_rat (r_div (arith F n) a b) (rat_val a / rat_val b)"
proof -
  obtain m where n: "n = Suc (Suc (Suc (Suc m)))" using ge_4_Suc [OF assms(4)] by blast
  show ?thesis
  proof (cases "sexp_ratiop a \<or> sexp_ratiop b")
    case True
    then show ?thesis
      using rational_step(3) [OF assms(1,2,3,5)] add_as_ratio(3) [OF assms(1,2) True] by (simp add: n arith_simps)
  next
    case False
    then have i: "norm_int a" "norm_int b" "rat_val a = of_int (int_val a)" "rat_val b = of_int (int_val b)"
      using norm_rat_int [OF assms(1)] norm_rat_int [OF assms(2)] by simp_all
    have "int_num a = int_val a" "int_den a = 1" "int_num b = int_val b" "int_den b = 1"
      using False by (cases a; cases b; simp)+
    then have "good_denominator (int_val a) (int_val b)" using assms(5) by simp
    from tower.ratio_normalize_correct [OF i(1,2) this] i show ?thesis
      by (auto simp: n arith_simps div_integers)
  qed
qed

theorem rational_div_exact_witness:
  "\<forall>F :: bool flo_ops. returns_rat (r_div (arith F 4) (fixnum_obj 4) (fixnum_obj (- 6))) (- (2 / 3))"
proof
  fix F :: "bool flo_ops"
  have "even (2305843009213693952 * gcd 4 (6 :: int))" by simp
  then have g: "2305843009213693952 * gcd 4 (6 :: int) \<noteq> 3" by (metis odd_numeral)
  have "fits_fixnum 4" "fits_fixnum (- 6)" by (simp_all add: fits_fixnum_def)
  moreover have "int_num (fixnum_obj k :: bool sexp) = int_val (fixnum_obj k :: bool sexp)"
    "int_den (fixnum_obj k :: bool sexp) = 1" "norm_rat (fixnum_obj k :: bool sexp)"
    "rat_val (fixnum_obj k :: bool sexp) = of_int (int_val (fixnum_obj k :: bool sexp))" for k
    by (simp_all add: fixnum_obj_def norm_int_def)
  ultimately show "returns_rat (r_div (arith F 4) (fixnum_obj 4) (fixnum_obj (- 6))) (- (2 / 3))"
    using rational_div_exact [of "fixnum_obj 4 :: bool sexp" "fixnum_obj (- 6)" 4 F]
    by (simp add: good_denominator_def g)
qed

text \<open>
  C29.  Truncation, floor and ceiling of a ratio in lowest terms are those of the rational.
\<close>

theorem ratio_rounding_exact:
  assumes "norm_rat (RATIO k d)" and "3 \<le> n"
  shows "returns_int (sexp_ratio_trunc (arith F n) (RATIO k d)) (c_div (int_val k) (int_val d))
    \<and> returns_int (sexp_ratio_floor (arith F n) (RATIO k d)) \<lfloor>rat_val (RATIO k d)\<rfloor>
    \<and> returns_int (sexp_ratio_ceiling (arith F n) (RATIO k d)) \<lceil>rat_val (RATIO k d)\<rceil>"
proof -
  obtain m where n: "n = Suc (Suc (Suc m))" using ge_3_Suc [OF assms(2)] by blast
  show ?thesis using tower.ratio_rounding_correct [OF assms(1), of F m] by (simp only: n conj_ac)
qed

theorem ratio_rounding_exact_witness:
  "\<forall>F :: bool flo_ops. returns_int (sexp_ratio_floor (arith F 3) (RATIO (fixnum_obj (- 1)) (fixnum_obj 2))) (- 1)
    \<and> returns_int (sexp_ratio_ceiling (arith F 3) (RATIO (fixnum_obj (- 1)) (fixnum_obj 2))) 0"
proof
  fix F :: "bool flo_ops"
  have r: "\<lfloor>- (1 / 2 :: rat)\<rfloor> = - 1" "\<lceil>- (1 / 2 :: rat)\<rceil> = 0"
    by (rule floor_unique, simp_all) (rule ceiling_unique, simp_all)
  show "returns_int (sexp_ratio_floor (arith F 3) (RATIO (fixnum_obj (- 1)) (fixnum_obj 2))) (- 1)
    \<and> returns_int (sexp_ratio_ceiling (arith F 3) (RATIO (fixnum_obj (- 1)) (fixnum_obj 2))) 0"
    using ratio_rounding_exact [of "fixnum_obj (- 1) :: bool sexp" "fixnum_obj 2" 3 F]
    by (simp add: r)
qed

text \<open>
  The normaliser mishandles the least fixnum: as a denominator it is negated to itself, and the
  quotient of 1 by \<open>- 2 ^ 62\<close> comes out as the positive ratio \<open>1 / 2 ^ 62\<close> with the wrong sign.
\<close>

lemma ratio_min_denominator_wrong:
  fixes F :: "'f flo_ops"
  shows "\<exists>r. r_div (arith F (Suc (Suc (Suc (Suc n))))) (fixnum_obj 1) (fixnum_obj (- (2 ^ 62))) = Some r
    \<and> rat_val r = 1 / 2 ^ 62"
  using tower.normalize_min_denominator [OF refl, of F F n] by (simp only: arith_simps div_integers fixnum_obj_simps)

text \<open>
  The normaliser works on the ratio in place, and its first step negates the objects themselves: when
  integers are divided these are the operands of the division.  \<open>sexp_ratio_normalize_operands\<close> is
  what the objects of the numerator and of the denominator hold after the call (a fixnum is no object, and the
  later steps work on fresh results): a division by a negative integer changes the sign of a bignum the caller still holds.
\<close>

definition sexp_ratio_normalize_operands :: "'f flo_ops \<Rightarrow> 'f sexp \<Rightarrow> 'f sexp \<Rightarrow> 'f sexp \<times> 'f sexp" where
  "sexp_ratio_normalize_operands F num den =
    (case positive_denominator F num den of (num', den') \<Rightarrow>
       (if sexp_bignump num then num' else num, if sexp_bignump den then den' else den))"

lemma division_negates_operands:
  assumes "norm_int num" and "norm_int den" and "int_val den < 0" and "int_val den \<noteq> - (2 ^ 62)"
    and "sexp_ratio_normalize_operands F num den = (num', den')"
  shows "int_val num' = (if sexp_bignump num then - int_val num else int_val num)"
    and "int_val den' = (if sexp_bignump den then - int_val den else int_val den)"
proof -
  obtain n d where p: "positive_denominator F num den = (n, d)" by fastforce
  have ex: "exact_int num" "exact_int den" "int_val den \<noteq> 0" using assms(1-3) by (simp_all add: norm_int_def)
  show "int_val num' = (if sexp_bignump num then - int_val num else int_val num)"
    "int_val den' = (if sexp_bignump den then - int_val den else int_val den)"
    using positive_denominator_val(3,4) [OF ex assms(4) p] assms(3,5) p
    by (auto simp: sexp_ratio_normalize_operands_def)
qed

text \<open>
  \<open>sexp_generic_expt\<close> ignores the sign of the exponent: every non-positive power of a ratio
  is returned as 1.
\<close>

lemma generic_expt_nonpositive:
  assumes "sint e \<le> 0"
  shows "sexp_generic_expt N x e = Some SEXP_ONE"
  using assms by (simp add: sexp_generic_expt_def)

end
