(* ===== verification/Heap.thy ===== *)
theory Heap
  imports Tagging "HOL-Library.Monad_Syntax"
begin

text \<open>
  The memory manager's data, \<^verbatim>\<open>gc.c\<close> and the heap macros of \<^verbatim>\<open>sexp.h\<close>, for the default build: one
  heap list per context, no fixed-size chunks, no conservative marking, no debugging checks.

  Memory is split as the collector sees it.  The objects are a store, a partial map from addresses
  to objects; an object has its type tag, its mark, and the words of its body by byte offset.  A
  context also has its list of \<open>saves\<close>, the values of the C variables registered as roots.  The
  free chunks of a heap segment are the list \<open>free_list\<close> of addresses and sizes in the order of
  the links; the zero-sized chunk at the head of the C list is the start \<open>data\<close> of the segment
  and is not an element of the list.  Reading an address where the store has no object is \<open>None\<close>.
\<close>

subsection \<open>Types and objects\<close>

record sexp_type =
  sexp_type_field_base :: nat
  sexp_type_field_len_base :: nat
  sexp_type_field_len_off :: nat
  sexp_type_field_len_scale :: nat
  sexp_type_size_base :: nat
  sexp_type_size_off :: nat
  sexp_type_size_scale :: nat
  sexp_type_weak_base :: nat
  sexp_type_weak_len_base :: nat
  sexp_type_weak_len_off :: nat
  sexp_type_weak_len_scale :: nat
  sexp_type_weak_len_extra :: nat
  sexp_type_finalize :: bool

record heap_object =
  object_tag :: nat
  sexp_markedp :: bool
  sexp_brokenp :: bool
  object_body :: "nat \<Rightarrow> u64"
  sexp_context_saves :: "u64 list"

type_synonym store = "nat \<rightharpoonup> heap_object"

definition SEXP_CONTEXT :: nat where "SEXP_CONTEXT = 36"

definition sexp_contextp :: "heap_object \<Rightarrow> bool" where
  "sexp_contextp x \<longleftrightarrow> object_tag x = SEXP_CONTEXT"

definition sexp_type_size_of_object :: "sexp_type \<Rightarrow> heap_object \<Rightarrow> u64" where
  "sexp_type_size_of_object t x =
    object_body x (sexp_type_size_off t) * of_nat (sexp_type_size_scale t) + of_nat (sexp_type_size_base t)"

definition sexp_type_num_slots_of_object :: "sexp_type \<Rightarrow> heap_object \<Rightarrow> u64" where
  "sexp_type_num_slots_of_object t x =
    object_body x (sexp_type_field_len_off t) * of_nat (sexp_type_field_len_scale t) + of_nat (sexp_type_field_len_base t)"

definition sexp_type_num_weak_slots_of_object :: "sexp_type \<Rightarrow> heap_object \<Rightarrow> u64" where
  "sexp_type_num_weak_slots_of_object t x =
    object_body x (sexp_type_weak_len_off t) * of_nat (sexp_type_weak_len_scale t) + of_nat (sexp_type_weak_len_base t)"

text \<open>The \<open>i\<close>-th word from the field base.\<close>

definition object_slot :: "sexp_type \<Rightarrow> heap_object \<Rightarrow> nat \<Rightarrow> u64" where
  "object_slot t x i = object_body x (sexp_type_field_base t + 8 * i)"

definition type_of_object :: "sexp_type list \<Rightarrow> heap_object \<Rightarrow> sexp_type option" where
  "type_of_object types x = (if object_tag x < length types then Some (types ! object_tag x) else None)"

subsection \<open>Sizes\<close>

definition sexp_heap_align :: "u64 \<Rightarrow> u64" where
  "sexp_heap_align n = (n + 31) AND (- 32)"

definition SEXP_MINIMUM_OBJECT_SIZE :: nat where
  "SEXP_MINIMUM_OBJECT_SIZE = unat (sexp_heap_align 1)"

definition sexp_allocated_bytes :: "sexp_type list \<Rightarrow> heap_object \<Rightarrow> u64" where
  "sexp_allocated_bytes types x =
    (case type_of_object types x of None \<Rightarrow> sexp_heap_align 1 | Some t \<Rightarrow> sexp_type_size_of_object t x)"

definition block_size :: "sexp_type list \<Rightarrow> heap_object \<Rightarrow> nat" where
  "block_size types x = unat (sexp_heap_align (sexp_allocated_bytes types x))"

subsection \<open>Heap segments\<close>

record sexp_heap =
  heap_size :: nat
  heap_max_size :: nat
  heap_chunk_size :: nat
  heap_data :: nat
  free_list :: "(nat \<times> nat) list"

definition free_chunk :: nat where "free_chunk = 32"

definition sexp_heap_first_block :: "sexp_heap \<Rightarrow> nat" where
  "sexp_heap_first_block h = heap_data h + free_chunk"

definition sexp_heap_end :: "sexp_heap \<Rightarrow> nat" where
  "sexp_heap_end h = heap_data h + heap_size h"

text \<open>
  \<open>malloc\<close> is the system allocator: the address of a block of the given size, or \<open>None\<close>.
  The struct's \<open>data\<close> pointer is its last field, at offset 40.
\<close>

definition sexp_heap_pad_size :: "nat \<Rightarrow> nat" where
  "sexp_heap_pad_size s = 48 + s + 32"

definition sexp_make_heap :: "(nat \<Rightarrow> nat option) \<Rightarrow> nat \<Rightarrow> nat \<Rightarrow> nat \<Rightarrow> sexp_heap option" where
  "sexp_make_heap malloc sz max_size chunk_size = do {
     h \<leftarrow> malloc (sexp_heap_pad_size sz);
     let data = unat (sexp_heap_align (8 + (of_nat h + 40)));
     Some \<lparr>heap_size = sz, heap_max_size = max_size, heap_chunk_size = chunk_size, heap_data = data,
           free_list = [(data + free_chunk, sz - free_chunk)]\<rparr>
   }"

definition sexp_heap_total_size :: "sexp_heap list \<Rightarrow> nat" where
  "sexp_heap_total_size hs = sum_list (map heap_size hs)"

text \<open>The new segment is linked after the last one; the result is the test \<open>h->next != NULL\<close>.\<close>

definition sexp_grow_heap :: "(nat \<Rightarrow> nat option) \<Rightarrow> sexp_heap list \<Rightarrow> nat \<Rightarrow> nat \<Rightarrow> sexp_heap list \<times> bool" where
  "sexp_grow_heap malloc hs sz chunk_size =
    (let h = last hs;
         cur_size = heap_size h;
         new_size = 2 * unat (sexp_heap_align (of_nat (if cur_size > sz then cur_size else sz)))
     in case sexp_make_heap malloc new_size (heap_max_size h) chunk_size of
          Some tmp \<Rightarrow> (hs @ [tmp], True)
        | None \<Rightarrow> (hs, False))"

subsection \<open>First-fit allocation\<close>

text \<open>
  \<open>take_chunk\<close> is the loop over one free list: the first chunk that is large enough is split, or
  taken whole when the rest would be smaller than the smallest object.
\<close>

fun take_chunk :: "nat \<Rightarrow> (nat \<times> nat) list \<Rightarrow> (nat \<times> (nat \<times> nat) list) option" where
  "take_chunk sz [] = None"
| "take_chunk sz ((a, n) # ls) =
    (if n \<ge> sz
     then Some (a, if n \<ge> sz + SEXP_MINIMUM_OBJECT_SIZE then (a + sz, n - sz) # ls else ls)
     else map_option (\<lambda>(res, ls). (res, (a, n) # ls)) (take_chunk sz ls))"

fun sexp_try_alloc :: "sexp_heap list \<Rightarrow> nat \<Rightarrow> (nat \<times> sexp_heap list) option" where
  "sexp_try_alloc [] sz = None"
| "sexp_try_alloc (h # hs) sz =
    (case take_chunk sz (free_list h) of
       Some (res, ls) \<Rightarrow> Some (res, h\<lparr>free_list := ls\<rparr> # hs)
     | None \<Rightarrow> map_option (\<lambda>(res, hs). (res, h # hs)) (sexp_try_alloc hs sz))"

subsection \<open>The layout of a heap segment\<close>

text \<open>A segment is tiled by blocks; the invariant says which.\<close>

datatype block = Free nat | Used nat

fun block_len :: "block \<Rightarrow> nat" where
  "block_len (Free n) = n" | "block_len (Used n) = n"

fun free_blocks :: "nat \<Rightarrow> block list \<Rightarrow> (nat \<times> nat) list" where
  "free_blocks p [] = []"
| "free_blocks p (Free n # bs) = (p, n) # free_blocks (p + n) bs"
| "free_blocks p (Used n # bs) = free_blocks (p + n) bs"

fun used_blocks :: "nat \<Rightarrow> block list \<Rightarrow> (nat \<times> nat) list" where
  "used_blocks p [] = []"
| "used_blocks p (Free n # bs) = used_blocks (p + n) bs"
| "used_blocks p (Used n # bs) = (p, n) # used_blocks (p + n) bs"

abbreviation blocks_len :: "block list \<Rightarrow> nat" where
  "blocks_len bs \<equiv> sum_list (map block_len bs)"

definition good_blocks :: "block list \<Rightarrow> bool" where
  "good_blocks bs \<longleftrightarrow> (\<forall>b \<in> set bs. 0 < block_len b \<and> 32 dvd block_len b)"

lemma good_blocks_simps [simp]:
  "good_blocks []" "good_blocks (b # bs) \<longleftrightarrow> 0 < block_len b \<and> 32 dvd block_len b \<and> good_blocks bs"
  "good_blocks (bs @ cs) \<longleftrightarrow> good_blocks bs \<and> good_blocks cs"
  by (auto simp: good_blocks_def)

lemma free_blocks_append: "free_blocks p (bs @ cs) = free_blocks p bs @ free_blocks (p + blocks_len bs) cs"
  by (induction p bs rule: free_blocks.induct) (simp_all add: add.assoc)

lemma used_blocks_append: "used_blocks p (bs @ cs) = used_blocks p bs @ used_blocks (p + blocks_len bs) cs"
  by (induction p bs rule: used_blocks.induct) (simp_all add: add.assoc)

lemma free_blocks_range: "(a, n) \<in> set (free_blocks p bs) \<Longrightarrow> p \<le> a \<and> a + n \<le> p + blocks_len bs"
  by (induction p bs rule: free_blocks.induct) force+

lemma used_blocks_range: "(a, n) \<in> set (used_blocks p bs) \<Longrightarrow> p \<le> a \<and> a + n \<le> p + blocks_len bs"
  by (induction p bs rule: used_blocks.induct) force+

lemma used_blocks_good:
  "good_blocks bs \<Longrightarrow> (a, n) \<in> set (used_blocks p bs) \<Longrightarrow> 0 < n \<and> 32 dvd n"
  by (induction p bs rule: used_blocks.induct) auto

lemma free_blocks_good:
  "good_blocks bs \<Longrightarrow> (a, n) \<in> set (free_blocks p bs) \<Longrightarrow> 0 < n \<and> 32 dvd n"
  by (induction p bs rule: free_blocks.induct) auto

lemma used_blocks_distinct: "good_blocks bs \<Longrightarrow> distinct (map fst (used_blocks p bs))"
  by (induction p bs rule: used_blocks.induct) (auto dest: used_blocks_range)

lemma used_blocks_aligned:
  "good_blocks bs \<Longrightarrow> 32 dvd p \<Longrightarrow> (a, n) \<in> set (used_blocks p bs) \<Longrightarrow> 32 dvd a"
  by (induction p bs rule: used_blocks.induct) auto

text \<open>Two used blocks of a segment do not overlap.\<close>

lemma used_blocks_disjoint:
  "(a, n) \<in> set (used_blocks p bs) \<Longrightarrow> (b, m) \<in> set (used_blocks p bs) \<Longrightarrow> (a, n) \<noteq> (b, m) \<Longrightarrow>
   a + n \<le> b \<or> b + m \<le> a"
  by (induction p bs rule: used_blocks.induct) (auto dest: used_blocks_range)

text \<open>
  \<open>heap_layout h bs\<close>: the blocks \<open>bs\<close> tile the segment from its first block to its end, and
  the free list holds exactly the free ones.
\<close>

definition heap_layout :: "sexp_heap \<Rightarrow> block list \<Rightarrow> bool" where
  "heap_layout h bs \<longleftrightarrow>
    good_blocks bs \<and> 32 dvd heap_data h \<and> sexp_heap_first_block h + blocks_len bs = sexp_heap_end h
    \<and> free_list h = free_blocks (sexp_heap_first_block h) bs"

lemma heap_bounds_free_list [simp]:
  "sexp_heap_first_block (h\<lparr>free_list := ls\<rparr>) = sexp_heap_first_block h"
  "sexp_heap_end (h\<lparr>free_list := ls\<rparr>) = sexp_heap_end h"
  by (simp_all add: sexp_heap_first_block_def sexp_heap_end_def)

definition heap_used :: "sexp_heap \<Rightarrow> block list \<Rightarrow> (nat \<times> nat) list" where
  "heap_used h bs = used_blocks (sexp_heap_first_block h) bs"

lemma unat_heap_align: "unat (sexp_heap_align n) = (unat n + 31) div 32 * 32" if "unat n + 31 < 2 ^ 64"
proof -
  have m: "(- 32 :: u64) = NOT (mask 5)" by (simp add: mask_eq_exp_minus_1 not_eq_complement)
  have "sexp_heap_align n = push_bit 5 (drop_bit 5 (n + 31))"
    unfolding sexp_heap_align_def m by (rule bit_word_eqI) (auto simp: bit_and_iff bit_not_iff bit_mask_iff bit_push_bit_iff bit_drop_bit_eq)
  moreover have "unat (n + 31) = unat n + 31" using that by (simp add: unat_add_mod)
  ultimately have u: "unat (sexp_heap_align n) = (unat n + 31) div 2 ^ 5 * 2 ^ 5 mod 2 ^ 64" by (simp add: unat_arith_laws del: push_bit_eq_mult)
  moreover have "(unat n + 31) div 32 * 32 < 2 ^ 64" using that by linarith
  ultimately show ?thesis by simp
qed

subsection \<open>Allocation carves a used block out of a free one\<close>

lemma min_object_size: "SEXP_MINIMUM_OBJECT_SIZE = 32"
  by (simp add: SEXP_MINIMUM_OBJECT_SIZE_def sexp_heap_align_def)

definition carve :: "nat \<Rightarrow> nat \<Rightarrow> block list" where
  "carve sz n = (if n = sz then [Used sz] else [Used sz, Free (n - sz)])"

lemma carve_len: "sz \<le> n \<Longrightarrow> blocks_len (carve sz n) = n"
  by (simp add: carve_def)

lemma carve_used: "used_blocks p (carve sz n) = [(p, sz)]"
  by (simp add: carve_def)

lemma dvd_gap: "32 dvd n \<Longrightarrow> 32 dvd m \<Longrightarrow> m \<le> n \<Longrightarrow> n \<noteq> m \<Longrightarrow> m + 32 \<le> (n :: nat)"
  by (elim dvdE) auto

lemma carve_good: "good_blocks [Free n] \<Longrightarrow> 0 < sz \<Longrightarrow> 32 dvd sz \<Longrightarrow> sz \<le> n \<Longrightarrow> good_blocks (carve sz n)"
  using dvd_gap [of n sz] by (auto simp: carve_def dvd_diff_nat)

lemma take_chunk_layout:
  assumes "good_blocks bs" "0 < sz" "32 dvd sz" "take_chunk sz (free_blocks p bs) = Some (a, ls)"
  shows "\<exists>bs1 n bs2. bs = bs1 @ Free n # bs2 \<and> sz \<le> n \<and> a = p + blocks_len bs1
    \<and> ls = free_blocks p (bs1 @ carve sz n @ bs2)"
  using assms
proof (induction p bs arbitrary: a ls rule: free_blocks.induct)
  case (2 p n bs)
  show ?case
  proof (cases "sz \<le> n")
    case True
    have "n \<ge> sz + SEXP_MINIMUM_OBJECT_SIZE \<longleftrightarrow> n \<noteq> sz"
      using dvd_gap [of n sz] 2 True by (auto simp: min_object_size)
    then have "bs = bs" "ls = free_blocks p ([] @ carve sz n @ bs)" "a = p"
      using 2 True by (auto simp: carve_def split: if_splits)
    then show ?thesis using True by (intro exI [of _ "[]"]) auto
  next
    case False
    then obtain ls' where ls: "take_chunk sz (free_blocks (p + n) bs) = Some (a, ls')" "ls = (p, n) # ls'"
      using 2(5) by (auto simp: split_beta)
    from "2.IH" [OF _ 2(3,4) ls(1)] 2(2) obtain bs1 m bs2 where
      "bs = bs1 @ Free m # bs2 \<and> sz \<le> m \<and> a = p + n + blocks_len bs1 \<and> ls' = free_blocks (p + n) (bs1 @ carve sz m @ bs2)"
      by auto
    then show ?thesis using ls(2) by (intro exI [of _ "Free n # bs1"]) auto
  qed
next
  case (3 p n bs)
  then obtain bs1 m bs2 where
    "bs = bs1 @ Free m # bs2 \<and> sz \<le> m \<and> a = p + n + blocks_len bs1 \<and> ls = free_blocks (p + n) (bs1 @ carve sz m @ bs2)"
    by auto
  then show ?case by (intro exI [of _ "Used n # bs1"]) auto
qed simp

lemma take_chunk_None: "take_chunk sz ls = None \<longleftrightarrow> (\<forall>(a, n) \<in> set ls. n < sz)"
  by (induction sz ls rule: take_chunk.induct) auto

text \<open>
  The segment-level contract of allocation: the result is a block that was free, the layout
  is the old one with that block used, and every block in use before is still in use.
\<close>

lemma take_chunk_heap:
  assumes "heap_layout h bs" "0 < sz" "32 dvd sz" "take_chunk sz (free_list h) = Some (a, ls)"
  shows "\<exists>bs'. heap_layout (h\<lparr>free_list := ls\<rparr>) bs' \<and> 32 dvd a
    \<and> set (heap_used (h\<lparr>free_list := ls\<rparr>) bs') = insert (a, sz) (set (heap_used h bs))
    \<and> (\<forall>(b, m) \<in> set (heap_used h bs). a + sz \<le> b \<or> b + m \<le> a)
    \<and> sexp_heap_first_block h \<le> a \<and> a + sz \<le> sexp_heap_end h"
proof -
  let ?p = "sexp_heap_first_block h" and ?h = "h\<lparr>free_list := ls\<rparr>"
  have lay: "good_blocks bs" "32 dvd heap_data h" "?p + blocks_len bs = sexp_heap_end h"
    "free_list h = free_blocks ?p bs" using assms(1) by (simp_all add: heap_layout_def)
  obtain bs1 n bs2 where b: "bs = bs1 @ Free n # bs2" "sz \<le> n" "a = ?p + blocks_len bs1"
    "ls = free_blocks ?p (bs1 @ carve sz n @ bs2)"
    using take_chunk_layout [OF lay(1) assms(2,3), of ?p a ls] assms(4) lay(4) by auto
  let ?bs = "bs1 @ carve sz n @ bs2"
  have g: "good_blocks ?bs" using lay(1) b carve_good [of n sz] assms(2,3) by auto
  have lay': "heap_layout ?h ?bs"
    using lay b g carve_len [OF b(2)] by (simp add: heap_layout_def)
  have u: "heap_used h bs = used_blocks ?p bs1 @ used_blocks (?p + blocks_len bs1 + n) bs2"
    by (simp add: heap_used_def b(1) used_blocks_append add.assoc)
  have u': "heap_used ?h ?bs = used_blocks ?p bs1 @ (a, sz) # used_blocks (?p + blocks_len bs1 + n) bs2"
    by (simp add: heap_used_def used_blocks_append carve_used carve_len [OF b(2)] b(3) add.assoc)
  have mem: "(a, sz) \<in> set (used_blocks ?p ?bs)" using u' by (simp add: heap_used_def)
  have "32 dvd ?p" using lay(2) by (simp add: sexp_heap_first_block_def free_chunk_def)
  then have al: "32 dvd a" using used_blocks_aligned [OF g _ mem] by simp
  have dis: "a + sz \<le> b \<or> b + m \<le> a" if "(b, m) \<in> set (heap_used h bs)" for b m
    using that u b(2,3) used_blocks_range [of b m ?p bs1] used_blocks_range [of b m "?p + blocks_len bs1 + n" bs2] by auto
  have rng: "?p \<le> a" "a + sz \<le> sexp_heap_end h"
    using used_blocks_range [OF mem] lay' by (simp_all add: heap_layout_def)
  show ?thesis using lay' al u u' dis rng by (intro exI [of _ ?bs]) auto
qed

end
