(* ===== verification/Mark.thy ===== *)
theory Mark
  imports Heap
begin

text \<open>
  The marking phase of the collector.  \<open>mark_all\<close> is a sequence of calls of \<open>sexp_mark_one\<close>:
  its body marks an object, calls itself on the saved variables of a context, pushes the slots
  that are still to be visited on the mark stack and continues with the last one.  The stack
  lives in a static array of the context and overflows into \<open>malloc\<close>ed cells.

  The correctness statement is reachability: on a store whose pointers are all valid, marking
  terminates, changes nothing but mark bits, and marks exactly the objects reachable from the root.
\<close>

subsection \<open>The mark stack\<close>

datatype mark_loc = Static nat | Malloced

record mark_entry =
  mark_loc :: mark_loc
  mark_object :: nat
  mark_start :: nat
  mark_end :: nat

definition SEXP_MARK_STACK_COUNT :: nat where "SEXP_MARK_STACK_COUNT = 1024"

fun next_mark_loc :: "mark_entry list \<Rightarrow> mark_loc" where
  "next_mark_loc [] = Static 0"
| "next_mark_loc (old # _) =
    (case mark_loc old of
       Static i \<Rightarrow> if i + 1 < SEXP_MARK_STACK_COUNT then Static (i + 1) else Malloced
     | Malloced \<Rightarrow> Malloced)"

definition sexp_mark_stack_push :: "mark_entry list \<Rightarrow> nat \<Rightarrow> nat \<Rightarrow> nat \<Rightarrow> mark_entry list" where
  "sexp_mark_stack_push st x p q =
    \<lparr>mark_loc = next_mark_loc st, mark_object = x, mark_start = p, mark_end = q\<rparr> # st"

subsection \<open>Marking\<close>

definition heap_pointer :: "u64 \<Rightarrow> bool" where
  "heap_pointer x \<longleftrightarrow> x \<noteq> 0 \<and> sexp_pointerp_w x"

definition slot_done :: "store \<Rightarrow> u64 \<Rightarrow> bool" where
  "slot_done s w \<longleftrightarrow>
    (if heap_pointer w then (case s (unat w) of Some obj \<Rightarrow> sexp_markedp obj | None \<Rightarrow> False) else True)"

fun skip_done :: "(nat \<Rightarrow> bool) \<Rightarrow> nat \<Rightarrow> nat" where
  "skip_done c 0 = 0"
| "skip_done c (Suc q) = (if c (Suc q) then skip_done c q else Suc q)"

fun skip_equal :: "(nat \<Rightarrow> u64) \<Rightarrow> nat \<Rightarrow> nat" where
  "skip_equal v 0 = 0"
| "skip_equal v (Suc q) = (if v (Suc q) = v q then skip_equal v q else Suc q)"

definition last_slot :: "store \<Rightarrow> (nat \<Rightarrow> u64) \<Rightarrow> nat \<Rightarrow> nat" where
  "last_slot s v len = skip_equal v (skip_done (\<lambda>i. slot_done s (v i)) len)"

text \<open>
  The slots of a marked object: the stack with the slots to visit later, and the values to visit
  now, the last slot before the values already waiting.
\<close>

definition mark_slots ::
  "sexp_type list \<Rightarrow> store \<Rightarrow> mark_entry list \<Rightarrow> nat \<Rightarrow> heap_object \<Rightarrow> u64 list \<Rightarrow> (mark_entry list \<times> u64 list) option" where
  "mark_slots types s st x obj xs = do {
     t \<leftarrow> type_of_object types obj;
     let len = sint (sexp_type_num_slots_of_object t obj - 1);
     let q = last_slot s (object_slot t obj) (nat len);
     Some (if len \<ge> 0
           then (if 0 < q then sexp_mark_stack_push st x 0 q else st, object_slot t obj q # xs)
           else (st, xs))
   }"

partial_function (option) mark_all ::
  "sexp_type list \<Rightarrow> store \<Rightarrow> mark_entry list \<Rightarrow> u64 list \<Rightarrow> (store \<times> mark_entry list) option" where
  "mark_all types s st xs =
    (if xs = [] then Some (s, st)
     else if \<not> heap_pointer (hd xs) then mark_all types s st (tl xs)
     else do {
       obj \<leftarrow> s (unat (hd xs));
       (if sexp_markedp obj then mark_all types s st (tl xs)
        else do {
          r \<leftarrow> mark_all types (s(unat (hd xs) \<mapsto> obj\<lparr>sexp_markedp := True\<rparr>)) st
                (if sexp_contextp obj then sexp_context_saves obj else []);
          m \<leftarrow> mark_slots types (fst r) (snd r) (unat (hd xs)) obj (tl xs);
          mark_all types (fst r) (fst m) (snd m)
        })
     })"

definition sexp_mark_one :: "sexp_type list \<Rightarrow> store \<Rightarrow> mark_entry list \<Rightarrow> u64 \<Rightarrow> (store \<times> mark_entry list) option" where
  "sexp_mark_one types s st x = mark_all types s st [x]"

partial_function (option) mark_pending :: "sexp_type list \<Rightarrow> store \<Rightarrow> mark_entry list \<Rightarrow> store option" where
  "mark_pending types s st =
    (if st = [] then Some s
     else do {
       obj \<leftarrow> s (mark_object (hd st));
       t \<leftarrow> type_of_object types obj;
       r \<leftarrow> mark_all types s (tl st) (map (object_slot t obj) [mark_start (hd st)..<mark_end (hd st)]);
       mark_pending types (fst r) (snd r)
     })"

definition sexp_mark_one_start :: "sexp_type list \<Rightarrow> store \<Rightarrow> u64 \<Rightarrow> store option" where
  "sexp_mark_one_start types s x = do {
     (s, st) \<leftarrow> sexp_mark_one types s [] x;
     mark_pending types s st
   }"

definition sexp_mark :: "sexp_type list \<Rightarrow> store \<Rightarrow> u64 \<Rightarrow> store option" where
  "sexp_mark types s x = sexp_mark_one_start types s x"

subsection \<open>Reachability\<close>

definition strong_slots :: "sexp_type list \<Rightarrow> heap_object \<Rightarrow> u64 list" where
  "strong_slots types obj =
    (case type_of_object types obj of
       None \<Rightarrow> []
     | Some t \<Rightarrow> map (object_slot t obj) [0..<nat (sint (sexp_type_num_slots_of_object t obj - 1) + 1)])"

definition children :: "sexp_type list \<Rightarrow> heap_object \<Rightarrow> u64 list" where
  "children types obj = (if sexp_contextp obj then sexp_context_saves obj else []) @ strong_slots types obj"

definition targets :: "u64 list \<Rightarrow> nat set" where
  "targets ws = unat ` (set ws \<inter> Collect heap_pointer)"

definition edges :: "sexp_type list \<Rightarrow> store \<Rightarrow> (nat \<times> nat) set" where
  "edges types s = {(a, b). \<exists>obj. s a = Some obj \<and> b \<in> targets (children types obj)}"

definition reachable :: "sexp_type list \<Rightarrow> store \<Rightarrow> u64 list \<Rightarrow> nat set" where
  "reachable types s ws = (edges types s)\<^sup>* `` targets ws"

definition marked :: "store \<Rightarrow> nat set" where
  "marked s = {a. \<exists>obj. s a = Some obj \<and> sexp_markedp obj}"

definition wf_store :: "sexp_type list \<Rightarrow> store \<Rightarrow> bool" where
  "wf_store types s \<longleftrightarrow> finite (dom s)
    \<and> (\<forall>obj \<in> ran s. object_tag obj < length types \<and> targets (children types obj) \<subseteq> dom s)"

text \<open>The store with a given set of marks; marking only moves between such stores.\<close>

definition with_marks :: "store \<Rightarrow> nat set \<Rightarrow> store" where
  "with_marks s M a = map_option (\<lambda>obj. obj\<lparr>sexp_markedp := a \<in> M\<rparr>) (s a)"

lemma with_marks_self: "with_marks s (marked s) = s"
proof
  fix a show "with_marks s (marked s) a = s a" by (cases "s a") (auto simp: with_marks_def marked_def)
qed

lemma marked_with_marks: "marked (with_marks s M) = M \<inter> dom s"
  by (auto simp: marked_def with_marks_def)

lemma dom_with_marks [simp]: "dom (with_marks s M) = dom s"
  by (auto simp: with_marks_def)

lemma with_marks_insert:
  "s a = Some obj \<Longrightarrow> (with_marks s M)(a \<mapsto> obj\<lparr>sexp_markedp := True\<rparr>) = with_marks s (insert a M)"
  by (rule ext) (auto simp: with_marks_def map_option_case split: option.split)

lemma mark_field_simps [simp]:
  "type_of_object types (obj\<lparr>sexp_markedp := m\<rparr>) = type_of_object types obj"
  "object_slot t (obj\<lparr>sexp_markedp := m\<rparr>) = object_slot t obj"
  "sexp_type_num_slots_of_object t (obj\<lparr>sexp_markedp := m\<rparr>) = sexp_type_num_slots_of_object t obj"
  "sexp_contextp (obj\<lparr>sexp_markedp := m\<rparr>) = sexp_contextp obj"
  by (simp_all add: type_of_object_def object_slot_def [abs_def] sexp_type_num_slots_of_object_def sexp_contextp_def)

lemma mark_slots_mark [simp]: "mark_slots types s st a (obj\<lparr>sexp_markedp := m\<rparr>) xs = mark_slots types s st a obj xs"
  by (simp add: mark_slots_def Let_def cong: if_cong)

lemma targets_simps [simp]:
  "targets [] = {}" "targets (x # xs) = (if heap_pointer x then insert (unat x) (targets xs) else targets xs)"
  "targets (xs @ ys) = targets xs \<union> targets ys"
  by (auto simp: targets_def)

lemma children_mark [simp]: "children types (obj\<lparr>sexp_markedp := m\<rparr>) = children types obj"
  by (auto simp: children_def strong_slots_def split: option.split)

lemma edges_with_marks [simp]: "edges types (with_marks s M) = edges types s"
  by (auto simp: edges_def with_marks_def)

subsection \<open>The slots left to visit\<close>

lemma skip_done_le: "skip_done c n \<le> n"
  by (induction n) simp_all

lemma skip_done_rest: "skip_done c n < i \<Longrightarrow> i \<le> n \<Longrightarrow> c i"
  by (induction n) (auto simp: le_Suc_eq split: if_splits)

lemma skip_equal_le: "skip_equal v n \<le> n"
  by (induction n) simp_all

lemma skip_equal_rest: "skip_equal v n \<le> i \<Longrightarrow> i \<le> n \<Longrightarrow> v i = v (skip_equal v n)"
proof (induction n arbitrary: i)
  case (Suc n)
  show ?case
  proof (cases "v (Suc n) = v n")
    case True
    have "v n = v (skip_equal v n)" using Suc.IH [OF skip_equal_le order_refl] .
    moreover have "v i = v (skip_equal v n)" if "i \<noteq> Suc n" using Suc.IH [of i] Suc.prems that True by auto
    ultimately show ?thesis using True by (cases "i = Suc n") simp_all
  next
    case False
    then have "skip_equal v (Suc n) = Suc n" by simp
    then show ?thesis using Suc.prems by (metis le_antisym)
  qed
qed simp

lemma last_slot_le: "last_slot s v n \<le> n"
  unfolding last_slot_def by (rule order_trans [OF skip_equal_le skip_done_le])

lemma last_slot_rest:
  assumes "i \<le> n"
  shows "i < last_slot s v n \<or> v i = v (last_slot s v n) \<or> slot_done s (v i)"
proof -
  let ?m = "skip_done (\<lambda>i. slot_done s (v i)) n"
  consider "i < skip_equal v ?m" | "skip_equal v ?m \<le> i" "i \<le> ?m" | "?m < i" by linarith
  then show ?thesis
  proof cases
    case 3
    then show ?thesis using skip_done_rest [OF 3 assms] by simp
  qed (auto simp: last_slot_def dest: skip_equal_rest)
qed

definition pending :: "sexp_type list \<Rightarrow> store \<Rightarrow> mark_entry list \<Rightarrow> nat set" where
  "pending types s st =
    (\<Union>e \<in> set st. case s (mark_object e) of None \<Rightarrow> {}
       | Some obj \<Rightarrow> (case type_of_object types obj of None \<Rightarrow> {}
           | Some t \<Rightarrow> targets (map (object_slot t obj) [mark_start e..<mark_end e])))"

lemma pending_simps [simp]:
  "pending types s [] = {}" "pending types s (st @ st') = pending types s st \<union> pending types s st'"
  by (auto simp: pending_def)

lemma slot_done_targets: "slot_done (with_marks s M) w \<longleftrightarrow> targets [w] \<subseteq> M \<inter> dom s"
  by (auto simp: slot_done_def with_marks_def split: option.splits)

lemma strong_slots_split:
  assumes "type_of_object types obj = Some t" "len = sint (sexp_type_num_slots_of_object t obj - 1)"
  shows "len < 0 \<Longrightarrow> strong_slots types obj = []"
    and "0 \<le> len \<Longrightarrow> targets (strong_slots types obj) \<subseteq>
      targets (map (object_slot t obj) [0..<last_slot (with_marks s M) (object_slot t obj) (nat len)])
      \<union> targets [object_slot t obj (last_slot (with_marks s M) (object_slot t obj) (nat len))] \<union> M"
proof -
  show "len < 0 \<Longrightarrow> strong_slots types obj = []" using assms by (simp add: strong_slots_def)
  assume len: "0 \<le> len"
  let ?v = "object_slot t obj" and ?q = "last_slot (with_marks s M) (object_slot t obj) (nat len)"
  have "b \<in> targets (map ?v [0..<?q]) \<union> targets [?v ?q] \<union> M"
    if "b \<in> targets (strong_slots types obj)" for b
  proof -
    have "nat (len + 1) = Suc (nat len)" using len by simp
    then have "b \<in> targets (map ?v [0..<Suc (nat len)])" using that assms by (simp add: strong_slots_def del: upt_Suc)
    then obtain i where i: "i \<le> nat len" "heap_pointer (?v i)" "b = unat (?v i)"
      by (auto simp: targets_def less_Suc_eq_le simp del: upt_Suc)
    from last_slot_rest [OF i(1), of "with_marks s M" ?v] i(2,3) show ?thesis
      by (auto simp: targets_def slot_done_targets)
  qed
  then show "targets (strong_slots types obj) \<subseteq> targets (map ?v [0..<?q]) \<union> targets [?v ?q] \<union> M" by blast
qed

subsection \<open>Marking is exact\<close>

text \<open>
  What one sequence of calls achieves from the marks \<open>M\<close>: new marks \<open>M'\<close> for reachable objects
  only, the given values are marked, and every edge that leaves a new mark ends in a mark or in a
  slot that waits on the stack.
\<close>

definition marks_from :: "sexp_type list \<Rightarrow> store \<Rightarrow> nat set \<Rightarrow> u64 list \<Rightarrow> nat set \<Rightarrow> mark_entry list \<Rightarrow> bool" where
  "marks_from types s M xs M' new \<longleftrightarrow>
    M \<subseteq> M' \<and> M' \<subseteq> dom s \<and> M' \<subseteq> M \<union> reachable types s xs \<and> targets xs \<subseteq> M'
    \<and> (M' = M \<longrightarrow> new = [])
    \<and> mark_object ` set new \<subseteq> M'
    \<and> pending types s new \<subseteq> edges types s `` (M' - M)
    \<and> edges types s `` (M' - M) \<subseteq> M' \<union> pending types s new"

lemma reachable_simps [simp]:
  "reachable types s [] = {}"
  "reachable types s (x # xs) = (if heap_pointer x then (edges types s)\<^sup>* `` {unat x} \<union> reachable types s xs else reachable types s xs)"
  by (auto simp: reachable_def)

lemma reachable_mono: "targets xs \<subseteq> targets ys \<Longrightarrow> reachable types s xs \<subseteq> reachable types s ys"
  by (auto simp: reachable_def)

lemma reachable_step:
  "s a = Some obj \<Longrightarrow> targets xs \<subseteq> targets (children types obj) \<Longrightarrow>
   reachable types s xs \<subseteq> (edges types s)\<^sup>* `` {a}"
  unfolding reachable_def edges_def by (auto intro: converse_rtrancl_into_rtrancl)

lemma wf_store_targets:
  "wf_store types s \<Longrightarrow> s a = Some obj \<Longrightarrow> targets (children types obj) \<subseteq> dom s"
  "wf_store types s \<Longrightarrow> s a = Some obj \<Longrightarrow> \<exists>t. type_of_object types obj = Some t"
  unfolding wf_store_def type_of_object_def by (metis ranI, metis ranI)

text \<open>The slots of one object, after its saves have been marked.\<close>

lemma mark_slots_spec:
  assumes "s a = Some obj" "type_of_object types obj = Some t"
  obtains e xs' where
    "mark_slots types (with_marks s M) st a obj xs = Some (e @ st, xs' @ xs)"
    "targets xs' \<subseteq> targets (strong_slots types obj)"
    "mark_object ` set e \<subseteq> {a}"
    "pending types s e \<subseteq> targets (strong_slots types obj)"
    "targets (strong_slots types obj) \<subseteq> pending types s e \<union> targets xs' \<union> M"
proof -
  define len where "len = sint (sexp_type_num_slots_of_object t obj - 1)"
  let ?v = "object_slot t obj"
  define q where "q = last_slot (with_marks s M) ?v (nat len)"
  note split = strong_slots_split [OF assms(2) len_def]
  show ?thesis
  proof (cases "len < 0")
    case True
    then show ?thesis
      using split(1) assms(2) by (intro that [of "[]" "[]"]) (simp_all add: mark_slots_def len_def)
  next
    case False
    have ql: "q \<le> nat len" unfolding q_def by (rule last_slot_le)
    have sl: "strong_slots types obj = map ?v [0..<Suc (nat len)]"
    proof -
      have "nat (len + 1) = Suc (nat len)" using False by simp
      then show ?thesis using assms(2) by (simp add: strong_slots_def len_def del: upt_Suc)
    qed
    let ?e = "if 0 < q then [\<lparr>mark_loc = next_mark_loc st, mark_object = a, mark_start = 0, mark_end = q\<rparr>] else []"
    have pe: "pending types s ?e = targets (map ?v [0..<q])"
      using assms by (auto simp: pending_def)
    have sub: "targets (map ?v [0..<q]) \<subseteq> targets (strong_slots types obj)" "targets [?v q] \<subseteq> targets (strong_slots types obj)"
      using ql by (auto simp: sl targets_def simp del: upt_Suc)
    show ?thesis
    proof (rule that [of ?e "[?v q]"])
      show "mark_slots types (with_marks s M) st a obj xs = Some (?e @ st, [?v q] @ xs)"
        using False assms(2) by (simp add: mark_slots_def len_def q_def sexp_mark_stack_push_def Let_def)
      show "targets (strong_slots types obj) \<subseteq> pending types s ?e \<union> targets [?v q] \<union> M"
        unfolding pe using split(2) [of s M] False by (simp add: q_def)
    qed (use sub pe in auto)
  qed
qed

lemma edges_from: "s a = Some obj \<Longrightarrow> edges types s `` {a} = targets (children types obj)"
  by (auto simp: edges_def)

lemma marks_from_visit:
  assumes obj: "s a = Some obj" and a: "a \<notin> M" "heap_pointer x" "a = unat x"
    and sv: "sv = (if sexp_contextp obj then sexp_context_saves obj else [])"
    and 1: "marks_from types s (insert a M) sv M2 new1"
    and e: "targets xs' \<subseteq> targets (strong_slots types obj)" "mark_object ` set e \<subseteq> {a}"
      "pending types s e \<subseteq> targets (strong_slots types obj)"
      "targets (strong_slots types obj) \<subseteq> pending types s e \<union> targets xs' \<union> M2"
    and 3: "marks_from types s M2 (xs' @ xs) M3 new3"
  shows "marks_from types s M (x # xs) M3 (new3 @ e @ new1)"
proof -
  have ch: "edges types s `` {a} = targets sv \<union> targets (strong_slots types obj)"
    unfolding edges_from [of s a obj, OF obj] sv by (simp add: children_def)
  have m: "insert a M \<subseteq> M2" "M2 \<subseteq> M3" "targets sv \<subseteq> M2" "targets (xs' @ xs) \<subseteq> M3" "M3 \<subseteq> dom s"
    "M2 \<subseteq> insert a M \<union> reachable types s sv" "M3 \<subseteq> M2 \<union> reachable types s (xs' @ xs)"
    using 1 3 by (auto simp: marks_from_def)
  have r: "reachable types s sv \<subseteq> (edges types s)\<^sup>* `` {a}" "reachable types s (xs' @ xs) \<subseteq> (edges types s)\<^sup>* `` {a} \<union> reachable types s xs"
  proof -
    have "targets sv \<subseteq> targets (children types obj)" "targets xs' \<subseteq> targets (children types obj)"
      using ch e(1) unfolding edges_from [of s a obj, OF obj] by auto
    from this [THEN reachable_step [of s a obj, OF obj]]
    show "reachable types s sv \<subseteq> (edges types s)\<^sup>* `` {a}"
      and "reachable types s (xs' @ xs) \<subseteq> (edges types s)\<^sup>* `` {a} \<union> reachable types s xs"
      by (auto simp: reachable_def Image_Un)
  qed
  have p: "pending types s new1 \<subseteq> edges types s `` (M2 - insert a M)" "pending types s new3 \<subseteq> edges types s `` (M3 - M2)"
    "edges types s `` (M2 - insert a M) \<subseteq> M2 \<union> pending types s new1" "edges types s `` (M3 - M2) \<subseteq> M3 \<union> pending types s new3"
    "mark_object ` set new1 \<subseteq> M2" "mark_object ` set new3 \<subseteq> M3"
    using 1 3 by (auto simp: marks_from_def)
  have parts: "M3 - M = {a} \<union> (M2 - insert a M) \<union> (M3 - M2)" using m a by auto
  have E: "edges types s `` (M3 - M) = (targets sv \<union> targets (strong_slots types obj))
      \<union> edges types s `` (M2 - insert a M) \<union> edges types s `` (M3 - M2)"
    unfolding parts Image_Un ch ..
  have c1: "M \<subseteq> M3" "M3 \<subseteq> dom s" "targets (x # xs) \<subseteq> M3" "M3 \<noteq> M"
    using m a by auto
  have c5: "mark_object ` set (new3 @ e @ new1) \<subseteq> M3"
  proof -
    have "{a} \<subseteq> M3" using m(1,2) by auto
    with e(2) have x1: "mark_object ` set e \<subseteq> M3" by (rule order_trans)
    have x2: "mark_object ` set new1 \<subseteq> M3" using p(5) m(2) by (rule order_trans)
    show ?thesis by (simp only: set_append image_Un Un_subset_iff x1 x2 p(6) simp_thms)
  qed
  have c2: "M3 \<subseteq> M \<union> reachable types s (x # xs)" using m(6,7) r a by auto
  have c3: "pending types s (new3 @ e @ new1) \<subseteq> edges types s `` (M3 - M)"
    unfolding E using p(1,2) e(3) by auto
  have c4: "edges types s `` (M3 - M) \<subseteq> M3 \<union> pending types s (new3 @ e @ new1)"
    unfolding E using p(3,4) e(4) m(2,3,4) by auto
  show ?thesis unfolding marks_from_def using c1 c2 c3 c4 c5 by simp
qed

lemma mark_all_unfold:
  "mark_all types s st [] = Some (s, st)"
  "\<not> heap_pointer x \<Longrightarrow> mark_all types s st (x # xs) = mark_all types s st xs"
  "heap_pointer x \<Longrightarrow> s (unat x) = Some obj \<Longrightarrow> sexp_markedp obj \<Longrightarrow> mark_all types s st (x # xs) = mark_all types s st xs"
  by (subst mark_all.simps, simp)+

lemma mark_all_visit:
  "heap_pointer x \<Longrightarrow> s (unat x) = Some obj \<Longrightarrow> \<not> sexp_markedp obj \<Longrightarrow>
   mark_all types (s(unat x \<mapsto> obj\<lparr>sexp_markedp := True\<rparr>)) st
     (if sexp_contextp obj then sexp_context_saves obj else []) = Some (s2, st2) \<Longrightarrow>
   mark_slots types s2 st2 (unat x) obj xs = Some (st3, xs3) \<Longrightarrow>
   mark_all types s st (x # xs) = mark_all types s2 st3 xs3"
  by (subst mark_all.simps) simp

lemma mark_all_spec:
  assumes wf: "wf_store types s" and "M \<subseteq> dom s" "targets xs \<subseteq> dom s"
  shows "\<exists>M' new. mark_all types (with_marks s M) st xs = Some (with_marks s M', new @ st)
    \<and> marks_from types s M xs M' new"
  using assms(2,3)
proof (induction "card (dom s - M)" arbitrary: M st xs rule: less_induct)
  case less
  note outer = less.hyps
  have fin: "finite (dom s)" using wf by (simp add: wf_store_def)
  show ?case using less.prems
  proof (induction xs)
    case Nil
    then show ?case by (intro exI [of _ M] exI [of _ "[]"]) (simp add: mark_all_unfold marks_from_def)
  next
    case (Cons x xs)
    have IH: "\<exists>M' new. mark_all types (with_marks s M) st xs = Some (with_marks s M', new @ st) \<and> marks_from types s M xs M' new"
      using Cons by (auto split: if_splits)
    show ?case
    proof (cases "heap_pointer x \<and> unat x \<notin> M")
      case False
      have "mark_all types (with_marks s M) st (x # xs) = mark_all types (with_marks s M) st xs"
        using False Cons.prems mark_all_unfold(2,3)
        by (cases "heap_pointer x") (auto simp: with_marks_def)
      moreover have "marks_from types s M xs M' new \<Longrightarrow> marks_from types s M (x # xs) M' new" for M' new
        using False by (auto simp: marks_from_def)
      ultimately show ?thesis using IH by auto
    next
      case True
      define a where "a = unat x"
      obtain obj where obj: "s a = Some obj" using True Cons.prems(2) by (auto simp: a_def)
      obtain t where t: "type_of_object types obj = Some t" using wf_store_targets(2) [OF wf obj] by blast
      have adom: "a \<in> dom s" "a \<notin> M" using obj True by (auto simp: a_def)
      let ?sv = "if sexp_contextp obj then sexp_context_saves obj else []"
      have "card (dom s - insert a M) < card (dom s - M)"
        using fin adom by (intro psubset_card_mono) auto
      moreover have "targets ?sv \<subseteq> dom s" using wf_store_targets(1) [OF wf obj] by (auto simp: children_def)
      ultimately obtain M2 new1 where
        1: "mark_all types (with_marks s (insert a M)) st ?sv = Some (with_marks s M2, new1 @ st)"
          "marks_from types s (insert a M) ?sv M2 new1"
        using outer [of "insert a M" ?sv st] adom Cons.prems(1) by auto
      obtain e xs' where e: "mark_slots types (with_marks s M2) (new1 @ st) a obj xs = Some (e @ new1 @ st, xs' @ xs)"
        "targets xs' \<subseteq> targets (strong_slots types obj)" "mark_object ` set e \<subseteq> {a}"
        "pending types s e \<subseteq> targets (strong_slots types obj)"
        "targets (strong_slots types obj) \<subseteq> pending types s e \<union> targets xs' \<union> M2"
        using mark_slots_spec [of s a obj, OF obj t] by blast
      have m2: "insert a M \<subseteq> M2" "M2 \<subseteq> dom s" using 1(2) by (auto simp: marks_from_def)
      have "card (dom s - M2) < card (dom s - M)"
        using fin adom m2 by (intro psubset_card_mono) auto
      moreover have "targets (xs' @ xs) \<subseteq> dom s"
        using e(2) wf_store_targets(1) [OF wf obj] Cons.prems(2) by (auto simp: children_def split: if_splits)
      ultimately obtain M3 new3 where
        3: "mark_all types (with_marks s M2) (e @ new1 @ st) (xs' @ xs) = Some (with_marks s M3, new3 @ e @ new1 @ st)"
          "marks_from types s M2 (xs' @ xs) M3 new3"
        using outer [of M2 "xs' @ xs" "e @ new1 @ st"] m2(2) by auto
      have "mark_all types (with_marks s M) st (x # xs) = mark_all types (with_marks s M2) (e @ new1 @ st) (xs' @ xs)"
      proof (rule mark_all_visit)
        show "with_marks s M (unat x) = Some (obj\<lparr>sexp_markedp := False\<rparr>)"
          using obj adom by (simp add: with_marks_def a_def)
        show "mark_all types ((with_marks s M)(unat x \<mapsto> obj\<lparr>sexp_markedp := False\<rparr>\<lparr>sexp_markedp := True\<rparr>)) st
          (if sexp_contextp (obj\<lparr>sexp_markedp := False\<rparr>) then sexp_context_saves (obj\<lparr>sexp_markedp := False\<rparr>) else [])
          = Some (with_marks s M2, new1 @ st)"
          using 1(1) with_marks_insert [of s a obj, OF obj] by (simp add: a_def cong: if_cong split del: if_split)
        show "mark_slots types (with_marks s M2) (new1 @ st) (unat x) (obj\<lparr>sexp_markedp := False\<rparr>) xs = Some (e @ new1 @ st, xs' @ xs)"
          using e(1) by (simp add: a_def)
      qed (use True in simp_all)
      moreover have "marks_from types s M (x # xs) M3 (new3 @ e @ new1)"
        using marks_from_visit [of s a obj, OF obj adom(2) _ a_def refl 1(2) e(2-5) 3(2)] True by simp
      ultimately show ?thesis using 3(1) by auto
    qed
  qed
qed

text \<open>
  Emptying the stack closes the marks: the entries name marked objects, and whatever an edge out of
  the marks misses is waiting in them.
\<close>

lemma mark_pending_spec:
  assumes wf: "wf_store types s" and "M \<subseteq> dom s" "mark_object ` set st \<subseteq> M"
    "pending types s st \<subseteq> R" "edges types s `` M \<subseteq> M \<union> pending types s st"
    and R: "R \<subseteq> dom s" "edges types s `` R \<subseteq> R" "M \<subseteq> R"
  shows "\<exists>M'. mark_pending types (with_marks s M) st = Some (with_marks s M')
    \<and> M \<subseteq> M' \<and> M' \<subseteq> R \<and> edges types s `` M' \<subseteq> M'"
  using assms(2-5) R(3)
proof (induction "(card (dom s - M), length st)" arbitrary: M st
      rule: wf_induct_rule [OF wf_lex_prod [OF wf_less_than wf_less_than]])
  case less: 1
  have fin: "finite (dom s)" using wf by (simp add: wf_store_def)
  show ?case
  proof (cases st)
    case Nil
    then have "mark_pending types (with_marks s M) st = Some (with_marks s M)" by (subst mark_pending.simps) simp
    then show ?thesis using less.prems Nil by auto
  next
    case (Cons e rest)
    obtain obj where obj: "s (mark_object e) = Some obj" using less.prems(1,2) Cons by auto
    obtain t where t: "type_of_object types obj = Some t" using wf_store_targets(2) [OF wf obj] by blast
    let ?xs = "map (object_slot t obj) [mark_start e..<mark_end e]"
    have pe: "pending types s st = targets ?xs \<union> pending types s rest"
      using obj t Cons by (simp add: pending_def)
    have "targets ?xs \<subseteq> dom s" using pe less.prems(3) R(1) by auto
    then obtain M' new where
      1: "mark_all types (with_marks s M) rest ?xs = Some (with_marks s M', new @ rest)" "marks_from types s M ?xs M' new"
      using mark_all_spec [OF wf less.prems(1)] by blast
    have m: "M \<subseteq> M'" "M' \<subseteq> dom s" "M' \<subseteq> M \<union> reachable types s ?xs" "targets ?xs \<subseteq> M'" "M' = M \<Longrightarrow> new = []"
      "mark_object ` set new \<subseteq> M'" "pending types s new \<subseteq> edges types s `` (M' - M)"
      "edges types s `` (M' - M) \<subseteq> M' \<union> pending types s new"
      using 1(2) by (auto simp: marks_from_def)
    have "reachable types s ?xs \<subseteq> R"
      using pe less.prems(3) Image_closed_trancl [OF R(2)] unfolding reachable_def by auto
    then have M'R: "M' \<subseteq> R" using m(3) less.prems(5) by auto
    have step: "mark_pending types (with_marks s M) st = mark_pending types (with_marks s M') (new @ rest)"
      using obj t 1(1) Cons by (subst mark_pending.simps) (simp add: with_marks_def)
    have dec: "((card (dom s - M'), length (new @ rest)), card (dom s - M), length st) \<in> less_than <*lex*> less_than"
    proof (cases "M' = M")
      case True
      then show ?thesis using m(5) Cons by simp
    next
      case False
      then have "card (dom s - M') < card (dom s - M)" using fin m(1,2) by (intro psubset_card_mono) auto
      then show ?thesis by simp
    qed
    have "edges types s `` M' \<subseteq> M' \<union> pending types s (new @ rest)"
    proof -
      have "edges types s `` M' = edges types s `` M \<union> edges types s `` (M' - M)" using m(1) by blast
      then show ?thesis using less.prems(4) m(1,4,8) pe by auto
    qed
    moreover have "pending types s (new @ rest) \<subseteq> R"
      using m(7) M'R R(2) less.prems(3) pe by auto
    moreover have "mark_object ` set (new @ rest) \<subseteq> M'"
    proof -
      have "mark_object ` set rest \<subseteq> M" using less.prems(2) Cons by simp
      then have "mark_object ` set rest \<subseteq> M'" using m(1) by (rule order_trans)
      then show ?thesis by (simp only: set_append image_Un Un_subset_iff m(6) simp_thms)
    qed
    ultimately obtain M'' where "mark_pending types (with_marks s M') (new @ rest) = Some (with_marks s M'')"
      "M' \<subseteq> M''" "M'' \<subseteq> R" "edges types s `` M'' \<subseteq> M''"
      using less.hyps [OF dec m(2)] M'R by blast
    then show ?thesis using step m(1) by (intro exI [of _ M'']) auto
  qed
qed

lemma reachable_closed: "edges types s `` reachable types s xs \<subseteq> reachable types s xs"
  unfolding reachable_def by (auto intro: rtrancl_into_rtrancl)

lemma reachable_dom: "wf_store types s \<Longrightarrow> targets xs \<subseteq> dom s \<Longrightarrow> reachable types s xs \<subseteq> dom s"
proof -
  assume wf: "wf_store types s" and xs: "targets xs \<subseteq> dom s"
  have "edges types s `` dom s \<subseteq> dom s" using wf_store_targets(1) [OF wf] by (auto simp: edges_def)
  then show ?thesis unfolding reachable_def using xs by (metis Image_closed_trancl Image_mono order_refl)
qed

lemma reachable_least: "targets xs \<subseteq> M \<Longrightarrow> edges types s `` M \<subseteq> M \<Longrightarrow> reachable types s xs \<subseteq> M"
  unfolding reachable_def by (metis Image_closed_trancl Image_mono order_refl)

lemma mark_reachable:
  assumes "wf_store types s" and "marked s = {}" and "heap_pointer x \<Longrightarrow> unat x \<in> dom s"
  shows "sexp_mark types s x = Some (with_marks s (reachable types s [x]))"
proof -
  let ?R = "reachable types s [x]"
  have x: "targets [x] \<subseteq> dom s" using assms(3) by simp
  have s0: "with_marks s {} = s" using with_marks_self [of s] assms(2) by simp
  obtain M new where 1: "mark_all types s [] [x] = Some (with_marks s M, new)" "marks_from types s {} [x] M new"
    using mark_all_spec [OF assms(1) empty_subsetI x, of "[]"] s0 by auto
  have m: "M \<subseteq> dom s" "M \<subseteq> ?R" "targets [x] \<subseteq> M" "mark_object ` set new \<subseteq> M"
    "pending types s new \<subseteq> edges types s `` M" "edges types s `` M \<subseteq> M \<union> pending types s new"
    using 1(2) by (simp_all add: marks_from_def)
  have "pending types s new \<subseteq> ?R" using m(2,5) reachable_closed [of types s "[x]"] by blast
  then obtain M' where "mark_pending types (with_marks s M) new = Some (with_marks s M')"
    "M \<subseteq> M'" "M' \<subseteq> ?R" "edges types s `` M' \<subseteq> M'"
    using mark_pending_spec [OF assms(1) m(1,4) _ m(6) reachable_dom [OF assms(1) x] reachable_closed m(2)] by blast
  moreover have "?R \<subseteq> M'" using calculation(2,4) m(3) by (intro reachable_least) auto
  ultimately have "mark_pending types (with_marks s M) new = Some (with_marks s ?R)" by auto
  then show ?thesis using 1(1) by (simp add: sexp_mark_def sexp_mark_one_start_def sexp_mark_one_def)
qed

text \<open>
  C8.  Marking terminates and is exact: started on a store without marks whose pointers are all
  valid, \<open>sexp_mark\<close> returns the same store with exactly the objects marked that are reachable from
  the root through strong slots and through the saved variables of contexts.
\<close>

theorem mark_exact:
  assumes "wf_store types s" and "marked s = {}" and "heap_pointer x \<Longrightarrow> unat x \<in> dom s"
  shows "sexp_mark types s x = Some (with_marks s (reachable types s [x]))"
  using assms by (rule mark_reachable)

text \<open>A pair at 64 that refers to itself and to the pair at 128; the pair at 192 is garbage.\<close>

definition pair_type :: sexp_type where
  "pair_type = \<lparr>sexp_type_field_base = 8, sexp_type_field_len_base = 3, sexp_type_field_len_off = 0,
    sexp_type_field_len_scale = 0, sexp_type_size_base = 32, sexp_type_size_off = 0, sexp_type_size_scale = 0,
    sexp_type_weak_base = 0, sexp_type_weak_len_base = 0, sexp_type_weak_len_off = 0, sexp_type_weak_len_scale = 0,
    sexp_type_weak_len_extra = 0, sexp_type_finalize = False\<rparr>"

definition pair_object :: "u64 \<Rightarrow> u64 \<Rightarrow> heap_object" where
  "pair_object a d = \<lparr>object_tag = 0, sexp_markedp = False, sexp_brokenp = False,
    object_body = (\<lambda>off. if off = 8 then a else if off = 16 then d else 0), sexp_context_saves = []\<rparr>"

definition pair_store :: store where
  "pair_store = [64 \<mapsto> pair_object 64 128, 128 \<mapsto> pair_object 1 62, 192 \<mapsto> pair_object 64 192]"

lemma pair_slots: "children [pair_type] (pair_object a d) = [a, d, 0]"
  by (simp add: children_def strong_slots_def type_of_object_def pair_object_def pair_type_def sexp_contextp_def
      SEXP_CONTEXT_def sexp_type_num_slots_of_object_def object_slot_def upt_rec)

lemma pair_store_wf: "wf_store [pair_type] pair_store" and pair_store_marked: "marked pair_store = {}"
proof -
  have "heap_pointer 64" "heap_pointer 128" "heap_pointer 192" "\<not> heap_pointer 1" "\<not> heap_pointer 62" "\<not> heap_pointer 0"
    by (simp_all add: heap_pointer_def sexp_pointerp_w_def)
  then show "wf_store [pair_type] pair_store"
    by (auto simp: wf_store_def pair_store_def pair_slots ran_def) (auto simp: pair_object_def split: if_splits)
  show "marked pair_store = {}" by (auto simp: marked_def pair_store_def pair_object_def split: if_splits)
qed

theorem mark_exact_witness:
  "sexp_mark [pair_type] pair_store 64 = Some (with_marks pair_store (reachable [pair_type] pair_store [64]))"
  using mark_exact [OF pair_store_wf pair_store_marked, of 64] by (simp add: pair_store_def)

declare reachable_simps(2) [simp del]

end
