(* ===== verification/Collect.thy ===== *)
theory Collect
  imports Mark
begin

text \<open>
  The rest of the collector: weak references, finalizers, the sweep, \<open>sexp_gc\<close> and \<open>sexp_alloc\<close>.
  Each phase walks every heap segment from its first block to its end, stepping over the chunks of
  the free list and over the objects by their sizes.  In the zipper of the sweep, \<open>left\<close> holds the
  chunks before the current position in reverse, so that its head is the \<open>q\<close> of the code and the
  empty list is the head of the free list; the head of \<open>right\<close> is \<open>r\<close>.  The C finalizers are the
  parameter \<open>fin\<close>: the object as the finalizer leaves it.
\<close>

subsection \<open>Walking a segment\<close>

fun advance :: "nat \<Rightarrow> (nat \<times> nat) list \<Rightarrow> (nat \<times> nat) list \<Rightarrow> (nat \<times> nat) list \<times> (nat \<times> nat) list" where
  "advance p left [] = (left, [])"
| "advance p left ((a, n) # right) = (if a < p then advance p ((a, n) # left) right else (left, (a, n) # right))"

text \<open>The test for a free block at \<open>p\<close>.\<close>

definition free_at :: "nat \<Rightarrow> (nat \<times> nat) list \<Rightarrow> bool" where
  "free_at p right \<longleftrightarrow> right \<noteq> [] \<and> fst (hd right) = p"

subsection \<open>Weak references\<close>

definition SEXP_FALSE_word :: u64 where "SEXP_FALSE_word = 62"

definition reset_slot ::
  "store \<Rightarrow> nat \<Rightarrow> nat \<Rightarrow> (nat \<Rightarrow> u64) \<times> bool \<times> bool \<Rightarrow> (nat \<Rightarrow> u64) \<times> bool \<times> bool" where
  "reset_slot s base i = (\<lambda>(body, broken, all_reset).
    if heap_pointer (body (base + 8 * i)) \<and> \<not> slot_done s (body (base + 8 * i))
    then (body(base + 8 * i := SEXP_FALSE_word), True, all_reset)
    else (body, broken, False))"

definition clear_slots :: "nat \<Rightarrow> nat list \<Rightarrow> (nat \<Rightarrow> u64) \<Rightarrow> nat \<Rightarrow> u64" where
  "clear_slots base is body = fold (\<lambda>i body. body(base + 8 * i := SEXP_FALSE_word)) is body"

definition reset_weak_object :: "sexp_type list \<Rightarrow> store \<Rightarrow> heap_object \<Rightarrow> heap_object \<times> nat" where
  "reset_weak_object types s obj =
    (case type_of_object types obj of
       None \<Rightarrow> (obj, 0)
     | Some t \<Rightarrow>
         if sexp_markedp obj \<and> sexp_type_weak_base t > 0
         then (let base = sexp_type_weak_base t;
                   len = unat (sexp_type_num_weak_slots_of_object t obj);
                   (body, broken, all_reset) = fold (reset_slot s base) [0..<len] (object_body obj, sexp_brokenp obj, True)
               in if all_reset
                  then (obj\<lparr>object_body := clear_slots base [len..<len + sexp_type_weak_len_extra t] body,
                            sexp_brokenp := broken\<rparr>, 1)
                  else (obj\<lparr>object_body := body, sexp_brokenp := broken\<rparr>, 0))
         else (obj, 0))"

partial_function (option) weak_loop ::
  "sexp_type list \<Rightarrow> nat \<Rightarrow> store \<Rightarrow> nat \<Rightarrow> (nat \<times> nat) list \<Rightarrow> nat \<Rightarrow> (store \<times> nat) option" where
  "weak_loop types e s p right broke =
    (if p < e
     then if free_at p (snd (advance p [] right))
       then weak_loop types e s (p + snd (hd (snd (advance p [] right)))) (snd (advance p [] right)) broke
       else do {
         obj \<leftarrow> s p;
         weak_loop types e (s(p \<mapsto> fst (reset_weak_object types s obj)))
           (p + block_size types (fst (reset_weak_object types s obj)))
           (snd (advance p [] right)) (broke + snd (reset_weak_object types s obj))
       }
     else Some (s, broke))"

fun weak_heaps :: "sexp_type list \<Rightarrow> sexp_heap list \<Rightarrow> store \<Rightarrow> nat \<Rightarrow> (store \<times> nat) option" where
  "weak_heaps types [] s broke = Some (s, broke)"
| "weak_heaps types (h # hs) s broke = do {
     (s, broke) \<leftarrow> weak_loop types (sexp_heap_end h) s (sexp_heap_first_block h) (free_list h) broke;
     weak_heaps types hs s broke
   }"

definition sexp_reset_weak_references :: "sexp_type list \<Rightarrow> bool \<Rightarrow> sexp_heap list \<Rightarrow> store \<Rightarrow> (store \<times> nat) option" where
  "sexp_reset_weak_references types weak_objects_present hs s =
    (if \<not> weak_objects_present then Some (s, 0) else weak_heaps types hs s 0)"

subsection \<open>Finalizers\<close>

definition SEXP_DL :: nat where "SEXP_DL = 26"

text \<open>
  What a pass does with one object: whether its finalizer is called, whether it is counted, and
  whether it is a dynamic library left for the second pass.
\<close>

definition runs_finalizer :: "sexp_type list \<Rightarrow> nat \<Rightarrow> heap_object \<Rightarrow> bool" where
  "runs_finalizer types pass obj \<longleftrightarrow>
    \<not> sexp_markedp obj \<and> object_tag obj < length types \<and> sexp_type_finalize (types ! object_tag obj)
    \<and> \<not> (object_tag obj = SEXP_DL \<and> pass = 0)"

definition defers_dl :: "sexp_type list \<Rightarrow> nat \<Rightarrow> heap_object \<Rightarrow> bool" where
  "defers_dl types pass obj \<longleftrightarrow>
    \<not> sexp_markedp obj \<and> object_tag obj < length types \<and> sexp_type_finalize (types ! object_tag obj)
    \<and> object_tag obj = SEXP_DL \<and> pass = 0"

record finalize_state =
  fin_store :: store
  fin_called :: "nat list"
  fin_count :: nat
  fin_free_dls :: bool
  fin_aborted :: bool

definition finalize_object :: "sexp_type list \<Rightarrow> (nat \<Rightarrow> heap_object \<Rightarrow> heap_object) \<Rightarrow> nat \<Rightarrow> nat \<Rightarrow> heap_object \<Rightarrow> finalize_state \<Rightarrow> finalize_state" where
  "finalize_object types fin pass p obj st =
    (if runs_finalizer types pass obj
     then st\<lparr>fin_store := (fin_store st)(p \<mapsto> fin p obj), fin_called := fin_called st @ [p], fin_count := fin_count st + 1\<rparr>
     else if defers_dl types pass obj
     then st\<lparr>fin_count := fin_count st + 1, fin_free_dls := True\<rparr>
     else st)"

partial_function (option) finalize_loop ::
  "sexp_type list \<Rightarrow> (nat \<Rightarrow> heap_object \<Rightarrow> heap_object) \<Rightarrow> nat \<Rightarrow> nat \<Rightarrow> finalize_state \<Rightarrow> nat \<Rightarrow> (nat \<times> nat) list \<Rightarrow> finalize_state option" where
  "finalize_loop types fin pass e st p right =
    (if p < e
     then if free_at p (snd (advance p [] right))
       then finalize_loop types fin pass e st (p + snd (hd (snd (advance p [] right)))) (snd (advance p [] right))
       else do {
         obj \<leftarrow> fin_store st p;
         (if block_size types obj = 0 then Some (st\<lparr>fin_aborted := True\<rparr>)
          else finalize_loop types fin pass e (finalize_object types fin pass p obj st)
                 (p + block_size types obj) (snd (advance p [] right)))
       }
     else Some st)"

fun finalize_heaps ::
  "sexp_type list \<Rightarrow> (nat \<Rightarrow> heap_object \<Rightarrow> heap_object) \<Rightarrow> nat \<Rightarrow> sexp_heap list \<Rightarrow> finalize_state \<Rightarrow> finalize_state option" where
  "finalize_heaps types fin pass [] st = Some st"
| "finalize_heaps types fin pass (h # hs) st = do {
     st \<leftarrow> finalize_loop types fin pass (sexp_heap_end h) st (sexp_heap_first_block h) (free_list h);
     (if fin_aborted st then Some st else finalize_heaps types fin pass hs st)
   }"

text \<open>
  The second pass, taken by \<open>goto loop\<close> when a dynamic library was found, starts with the heap
  pointer that the first pass left behind: the null pointer at the end of the list.
\<close>

definition sexp_finalize ::
  "sexp_type list \<Rightarrow> (nat \<Rightarrow> heap_object \<Rightarrow> heap_object) \<Rightarrow> sexp_heap list \<Rightarrow> store \<Rightarrow> finalize_state option" where
  "sexp_finalize types fin hs s = do {
     st \<leftarrow> finalize_heaps types fin 0 hs \<lparr>fin_store = s, fin_called = [], fin_count = 0, fin_free_dls = False, fin_aborted = False\<rparr>;
     (if \<not> fin_aborted st \<and> fin_free_dls st then finalize_heaps types fin 1 [] st else Some st)
   }"

subsection \<open>Sweeping\<close>

text \<open>The head of the C free list has size zero and is never merged.\<close>

definition adjacent :: "(nat \<times> nat) list \<Rightarrow> nat \<Rightarrow> bool" where
  "adjacent left p \<longleftrightarrow> left \<noteq> [] \<and> fst (hd left) + snd (hd left) = p"

definition merges_right :: "nat \<Rightarrow> (nat \<times> nat) list \<Rightarrow> bool" where
  "merges_right p right \<longleftrightarrow> right \<noteq> [] \<and> snd (hd right) \<noteq> 0 \<and> p = fst (hd right)"

text \<open>Free the block of the given size at \<open>p\<close>: the new lists, the next position, the chunk's size.\<close>

definition free_block ::
  "nat \<Rightarrow> nat \<Rightarrow> (nat \<times> nat) list \<Rightarrow> (nat \<times> nat) list \<Rightarrow> (nat \<times> nat) list \<times> (nat \<times> nat) list \<times> nat \<times> nat" where
  "free_block p sz left right =
    (if adjacent left p
     then let q = hd left
          in if merges_right (p + sz) right
             then (let freed = snd q + sz + snd (hd right)
                   in ((fst q, freed) # tl left, tl right, p + sz + snd (hd right), freed))
             else ((fst q, snd q + sz) # tl left, right, p + sz, snd q + sz)
     else if merges_right (p + sz) right
          then (let freed = sz + snd (hd right) in (left, (p, freed) # tl right, p + freed, freed))
          else (left, (p, sz) # right, p + sz, sz))"

record sweep_state =
  sw_store :: store
  sw_left :: "(nat \<times> nat) list"
  sw_right :: "(nat \<times> nat) list"
  sw_pos :: nat
  sw_max :: nat
  sw_sum :: nat

definition sweep_object :: "sexp_type list \<Rightarrow> heap_object \<Rightarrow> sweep_state \<Rightarrow> sweep_state" where
  "sweep_object types obj st =
    (let p = sw_pos st; sz = block_size types obj
     in if sexp_markedp obj
        then st\<lparr>sw_store := (sw_store st)(p \<mapsto> obj\<lparr>sexp_markedp := False\<rparr>), sw_pos := p + sz\<rparr>
        else (let (left, right, pos, freed) = free_block p sz (sw_left st) (sw_right st)
              in \<lparr>sw_store = (sw_store st)(p := None), sw_left = left, sw_right = right, sw_pos = pos,
                  sw_max = (if freed > sw_max st then freed else sw_max st), sw_sum = sw_sum st + sz\<rparr>))"

definition find_links :: "sweep_state \<Rightarrow> sweep_state" where
  "find_links st =
    (let (left, right) = advance (sw_pos st) (sw_left st) (sw_right st)
     in st\<lparr>sw_left := left, sw_right := right\<rparr>)"

partial_function (option) sweep_loop :: "sexp_type list \<Rightarrow> nat \<Rightarrow> sweep_state \<Rightarrow> sweep_state option" where
  "sweep_loop types e st =
    (if sw_pos st < e
     then if free_at (sw_pos st) (sw_right (find_links st))
       then sweep_loop types e ((find_links st)\<lparr>sw_pos := sw_pos st + snd (hd (sw_right (find_links st)))\<rparr>)
       else do {
         obj \<leftarrow> sw_store st (sw_pos st);
         sweep_loop types e (sweep_object types obj (find_links st))
       }
     else Some st)"

fun sweep_heaps ::
  "sexp_type list \<Rightarrow> sexp_heap list \<Rightarrow> store \<Rightarrow> nat \<Rightarrow> nat \<Rightarrow> (sexp_heap list \<times> store \<times> nat \<times> nat) option" where
  "sweep_heaps types [] s max_freed sum_freed = Some ([], s, max_freed, sum_freed)"
| "sweep_heaps types (h # hs) s max_freed sum_freed = do {
     st \<leftarrow> sweep_loop types (sexp_heap_end h)
            \<lparr>sw_store = s, sw_left = [], sw_right = free_list h, sw_pos = sexp_heap_first_block h,
             sw_max = max_freed, sw_sum = sum_freed\<rparr>;
     (hs, s, max_freed, sum_freed) \<leftarrow> sweep_heaps types hs (sw_store st) (sw_max st) (sw_sum st);
     Some (h\<lparr>free_list := rev (sw_left st) @ sw_right st\<rparr> # hs, s, max_freed, sum_freed)
   }"

definition sexp_sweep :: "sexp_type list \<Rightarrow> sexp_heap list \<Rightarrow> store \<Rightarrow> (sexp_heap list \<times> store \<times> nat \<times> nat) option" where
  "sexp_sweep types hs s = sweep_heaps types hs s 0 0"

subsection \<open>Collection and allocation\<close>

record memory =
  mem_store :: store
  mem_heaps :: "sexp_heap list"
  mem_gc_count :: nat

definition sexp_gc ::
  "sexp_type list \<Rightarrow> (nat \<Rightarrow> heap_object \<Rightarrow> heap_object) \<Rightarrow> bool \<Rightarrow> u64 \<Rightarrow> memory \<Rightarrow> (memory \<times> nat \<times> nat) option" where
  "sexp_gc types fin weak_objects_present ctx m = do {
     s \<leftarrow> sexp_mark types (mem_store m) ctx;
     (s, broke) \<leftarrow> sexp_reset_weak_references types weak_objects_present (mem_heaps m) s;
     st \<leftarrow> sexp_finalize types fin (mem_heaps m) s;
     (hs, s, max_freed, sum_freed) \<leftarrow> sexp_sweep types (mem_heaps m) (fin_store st);
     Some (\<lparr>mem_store = s, mem_heaps = hs, mem_gc_count = mem_gc_count m + 1\<rparr>, max_freed, sum_freed)
   }"

text \<open>
  Allocation: the address of the new block, or \<open>None\<close> for the out-of-memory exception object.
  The ratio test \<open>(total_size - sum_freed) > total_size * 0.75\<close> is written over integers.
\<close>

definition sexp_alloc ::
  "sexp_type list \<Rightarrow> (nat \<Rightarrow> heap_object \<Rightarrow> heap_object) \<Rightarrow> (nat \<Rightarrow> nat option) \<Rightarrow> bool \<Rightarrow> u64 \<Rightarrow> memory \<Rightarrow> u64
   \<Rightarrow> (nat option \<times> memory) option" where
  "sexp_alloc types fin malloc weak_objects_present ctx m size0 =
    (let sz = unat (sexp_heap_align size0)
     in case sexp_try_alloc (mem_heaps m) sz of
          Some (res, hs) \<Rightarrow> Some (Some res, m\<lparr>mem_heaps := hs\<rparr>)
        | None \<Rightarrow> do {
            (m, max_freed, sum_freed) \<leftarrow> sexp_gc types fin weak_objects_present ctx m;
            let total_size = sexp_heap_total_size (mem_heaps m);
            let max_size = heap_max_size (hd (mem_heaps m));
            let m = (if (max_freed < sz \<or> (total_size > sum_freed \<and> 4 * (total_size - sum_freed) > 3 * total_size))
                        \<and> (max_size = 0 \<or> total_size < max_size)
                     then m\<lparr>mem_heaps := fst (sexp_grow_heap malloc (mem_heaps m) sz 0)\<rparr> else m);
            (case sexp_try_alloc (mem_heaps m) sz of
               Some (res, hs) \<Rightarrow> Some (Some res, m\<lparr>mem_heaps := hs\<rparr>)
             | None \<Rightarrow> Some (None, m))
          })"

end
