(* ===== verification/Sweep.thy ===== *)
theory Sweep
  imports Collect
begin

text \<open>
  Correctness of the sweep and of \<open>sexp_gc\<close>.  The blocks of a segment behind the current position
  (\<open>ds\<close>) and in front of it (\<open>bs\<close>) are the invariant of the loop: freeing a block turns it, and
  the free neighbours it is merged with, into one free block.
\<close>

subsection \<open>Steps of the walk\<close>

lemma advance_split:
  assumes "\<forall>(a, n) \<in> set mid. a < p" "right = [] \<or> p \<le> fst (hd right)"
  shows "advance p left (mid @ right) = (rev mid @ left, right)"
  using assms
proof (induction mid arbitrary: left)
  case Nil
  then show ?case by (cases right) auto
qed auto

lemma free_blocks_before:
  "good_blocks ds \<Longrightarrow> (a, n) \<in> set (free_blocks p0 ds) \<Longrightarrow> a < p0 + blocks_len ds"
  using free_blocks_range [of a n p0 ds] free_blocks_good [of ds a n p0] by auto

lemma free_blocks_hd: "free_blocks p bs = [] \<or> p \<le> fst (hd (free_blocks p bs))"
  using free_blocks_range [of "fst (hd (free_blocks p bs))" "snd (hd (free_blocks p bs))" p bs]
  by (cases "free_blocks p bs") auto

lemma free_at_blocks:
  assumes "good_blocks bs"
  shows "free_at p (free_blocks p bs) \<longleftrightarrow> (\<exists>n cs. bs = Free n # cs)"
proof (cases bs)
  case (Cons b cs)
  then show ?thesis
    using free_blocks_hd [of "p + block_len b" cs] assms by (cases b) (auto simp: free_at_def)
qed (simp add: free_at_def)

definition fits :: "nat \<Rightarrow> (nat \<times> nat) list \<Rightarrow> bool" where
  "fits m fs \<longleftrightarrow> (\<exists>(a, n) \<in> set fs. m \<le> n)"

lemma fits_simps [simp]:
  "\<not> fits m []" "fits m ((a, n) # fs) \<longleftrightarrow> m \<le> n \<or> fits m fs" "fits m (fs @ gs) \<longleftrightarrow> fits m fs \<or> fits m gs"
  by (auto simp: fits_def)

lemma adjacent_last:
  assumes "good_blocks ds" "rev left = free_blocks p0 ds" "adjacent left (p0 + blocks_len ds)"
  obtains ds1 n where "ds = ds1 @ [Free n]" "hd left = (p0 + blocks_len ds1, n)" "rev (tl left) = free_blocks p0 ds1"
proof (cases ds rule: rev_cases)
  case Nil
  then show ?thesis using assms by (simp add: adjacent_def)
next
  case (snoc ds1 b)
  show ?thesis
  proof (cases b)
    case (Free n)
    then have "rev left = free_blocks p0 ds1 @ [(p0 + blocks_len ds1, n)]"
      using assms(2) snoc by (simp add: free_blocks_append)
    then have "left = (p0 + blocks_len ds1, n) # rev (free_blocks p0 ds1)" by (metis rev.simps(2) rev_rev_ident rev_append append_Cons append_Nil rev_singleton_conv)
    then show ?thesis using snoc Free that by simp
  next
    case (Used n)
    then have l: "rev left = free_blocks p0 ds1" using assms(2) snoc by (simp add: free_blocks_append)
    have ne: "left \<noteq> []" using assms(3) by (simp add: adjacent_def)
    then have "hd left \<in> set (free_blocks p0 ds1)" using l by (metis hd_in_set set_rev)
    then have "fst (hd left) + snd (hd left) \<le> p0 + blocks_len ds1"
      using free_blocks_range [of "fst (hd left)" "snd (hd left)" p0 ds1] by simp
    then show ?thesis using assms(1,3) snoc Used by (simp add: adjacent_def)
  qed
qed

lemma merges_right_blocks:
  assumes "good_blocks bs"
  shows "merges_right p (free_blocks p bs) \<longleftrightarrow> (\<exists>n cs. bs = Free n # cs)"
proof -
  have "merges_right p (free_blocks p bs) \<longleftrightarrow> free_at p (free_blocks p bs)"
    using free_blocks_good [OF assms, of "fst (hd (free_blocks p bs))" "snd (hd (free_blocks p bs))" p]
    by (cases "free_blocks p bs") (auto simp: merges_right_def free_at_def)
  then show ?thesis using free_at_blocks [OF assms] by simp
qed

text \<open>One freed block, merged with its free neighbours.\<close>

lemma free_block_spec:
  assumes ds: "good_blocks ds" and bs: "good_blocks bs" and sz: "0 < sz" "32 dvd sz"
    and left: "rev left = free_blocks p0 ds" and p: "p = p0 + blocks_len ds"
  shows "\<exists>left2 right2 ds2 mid2 bs2 k.
    free_block p sz left (free_blocks (p + sz) bs) = (left2, right2, p0 + blocks_len ds2, k)
    \<and> good_blocks ds2 \<and> good_blocks bs2 \<and> length bs2 \<le> length bs
    \<and> blocks_len ds2 + blocks_len bs2 = blocks_len ds + sz + blocks_len bs
    \<and> rev left2 @ mid2 = free_blocks p0 ds2 \<and> right2 = mid2 @ free_blocks (p0 + blocks_len ds2) bs2
    \<and> used_blocks p0 ds2 = used_blocks p0 ds
    \<and> used_blocks (p0 + blocks_len ds2) bs2 = used_blocks (p + sz) bs
    \<and> fits k (free_blocks p0 ds2) \<and> (\<forall>m. fits m (free_blocks p0 ds) \<longrightarrow> fits m (free_blocks p0 ds2))"
proof -
  have mr: "merges_right (p + sz) (free_blocks (p + sz) bs) \<longleftrightarrow> (\<exists>n cs. bs = Free n # cs)"
    by (rule merges_right_blocks [OF bs])
  have f2: "fits (i + j) [(a, i + j)]" for i j a by simp
  show ?thesis
  proof (cases "adjacent left p")
    case adj: True
    obtain ds1 q where q: "ds = ds1 @ [Free q]" "hd left = (p0 + blocks_len ds1, q)" "rev (tl left) = free_blocks p0 ds1"
      using adjacent_last [OF ds left] adj p by blast
    show ?thesis
    proof (cases "\<exists>n cs. bs = Free n # cs")
      case True
      then obtain n cs where b: "bs = Free n # cs" by blast
      show ?thesis
        by (rule exI [of _ "(p0 + blocks_len ds1, q + sz + n) # tl left"], rule exI [of _ "free_blocks (p + sz + n) cs"],
            rule exI [of _ "ds1 @ [Free (q + sz + n)]"], rule exI [of _ "[]"], rule exI [of _ cs], rule exI [of _ "q + sz + n"])
          (use adj mr ds bs sz q b p in \<open>auto simp: free_block_def Let_def free_blocks_append used_blocks_append algebra_simps\<close>)
    next
      case False
      then have "\<not> merges_right (p + sz) (free_blocks (p + sz) bs)" using mr by simp
      then show ?thesis
        by (intro exI [of _ "(p0 + blocks_len ds1, q + sz) # tl left"] exI [of _ "free_blocks (p + sz) bs"]
            exI [of _ "ds1 @ [Free (q + sz)]"] exI [of _ "[]"] exI [of _ bs] exI [of _ "q + sz"])
          (use adj ds bs sz q p in \<open>auto simp: free_block_def Let_def free_blocks_append used_blocks_append algebra_simps\<close>)
    qed
  next
    case adj: False
    show ?thesis
    proof (cases "\<exists>n cs. bs = Free n # cs")
      case True
      then obtain n cs where b: "bs = Free n # cs" by blast
      show ?thesis
        by (rule exI [of _ left], rule exI [of _ "(p, sz + n) # free_blocks (p + sz + n) cs"],
            rule exI [of _ "ds @ [Free (sz + n)]"], rule exI [of _ "[(p, sz + n)]"], rule exI [of _ cs], rule exI [of _ "sz + n"])
          (use adj mr ds bs sz left b p in \<open>auto simp: free_block_def Let_def free_blocks_append used_blocks_append algebra_simps\<close>)
    next
      case False
      then have "\<not> merges_right (p + sz) (free_blocks (p + sz) bs)" using mr by simp
      then show ?thesis
        by (intro exI [of _ left] exI [of _ "(p, sz) # free_blocks (p + sz) bs"]
            exI [of _ "ds @ [Free sz]"] exI [of _ "[(p, sz)]"] exI [of _ bs] exI [of _ sz])
          (use adj ds bs sz left p in \<open>auto simp: free_block_def Let_def free_blocks_append used_blocks_append algebra_simps\<close>)
    qed
  qed
qed

subsection \<open>The sweep of a segment\<close>

text \<open>What the sweep does to the objects at the addresses \<open>A\<close>.\<close>

definition swept :: "store \<Rightarrow> nat set \<Rightarrow> store" where
  "swept s A a =
    (if a \<in> A
     then (case s a of None \<Rightarrow> None | Some obj \<Rightarrow> if sexp_markedp obj then Some (obj\<lparr>sexp_markedp := False\<rparr>) else None)
     else s a)"

lemma swept_simps [simp]: "swept s {} = s" "a \<notin> A \<Longrightarrow> swept (s(a := x)) A = (swept s A)(a := x)"
  by (auto simp: swept_def)

lemma swept_insert:
  "s a = Some obj \<Longrightarrow> a \<notin> A \<Longrightarrow>
   swept s (insert a A) = (swept s A)(a := if sexp_markedp obj then Some (obj\<lparr>sexp_markedp := False\<rparr>) else None)"
  by (auto simp: swept_def)

definition objects_fill :: "sexp_type list \<Rightarrow> store \<Rightarrow> (nat \<times> nat) list \<Rightarrow> bool" where
  "objects_fill types s us \<longleftrightarrow> (\<forall>(a, n) \<in> set us. \<exists>obj. s a = Some obj \<and> block_size types obj = n)"

definition kept :: "store \<Rightarrow> (nat \<times> nat) list \<Rightarrow> (nat \<times> nat) list" where
  "kept s us = filter (\<lambda>(a, n). a \<in> marked s) us"

definition freed_bytes :: "store \<Rightarrow> (nat \<times> nat) list \<Rightarrow> nat" where
  "freed_bytes s us = sum_list (map snd (filter (\<lambda>(a, n). a \<notin> marked s) us))"

lemma marked_update: "b \<noteq> a \<Longrightarrow> b \<in> marked (s(a := x)) \<longleftrightarrow> b \<in> marked s"
  by (auto simp: marked_def)

lemma later_blocks: "(a, n) \<in> set (used_blocks p bs) \<Longrightarrow> q < p \<Longrightarrow> a \<noteq> q"
  using used_blocks_range [of a n p bs] by auto

lemma later_notin: "0 < n \<Longrightarrow> p \<notin> fst ` set (used_blocks (p + n) bs)"
  using later_blocks [of p _ "p + n" bs p] by auto

lemma objects_fill_cong:
  assumes "\<And>a. a \<in> fst ` set us \<Longrightarrow> s a = s' a"
  shows "objects_fill types s us \<longleftrightarrow> objects_fill types s' us"
  unfolding objects_fill_def by (intro ball_cong) (use assms in force)+

lemma objects_fill_update: "q < p \<Longrightarrow> objects_fill types (s(q := x)) (used_blocks p bs) \<longleftrightarrow> objects_fill types s (used_blocks p bs)"
  unfolding objects_fill_def by (intro ball_cong) (auto dest: later_blocks)

lemma kept_update: "q < p \<Longrightarrow> kept (s(q := x)) (used_blocks p bs) = kept s (used_blocks p bs)"
  unfolding kept_def by (rule filter_cong) (auto simp: marked_update dest: later_blocks)

lemma freed_update: "q < p \<Longrightarrow> freed_bytes (s(q := x)) (used_blocks p bs) = freed_bytes s (used_blocks p bs)"
proof -
  assume q: "q < p"
  have "filter (\<lambda>(a, n). a \<notin> marked (s(q := x))) (used_blocks p bs) = filter (\<lambda>(a, n). a \<notin> marked s) (used_blocks p bs)"
    using q by (intro filter_cong) (auto simp: marked_update dest: later_blocks)
  then show ?thesis by (simp add: freed_bytes_def)
qed

lemma sweep_loop_spec:
  assumes "good_blocks ds" "good_blocks bs" "sw_pos st = p0 + blocks_len ds" "e = p0 + blocks_len ds + blocks_len bs"
    "rev (sw_left st) @ mid = free_blocks p0 ds" "sw_right st = mid @ free_blocks (sw_pos st) bs"
    "objects_fill types (sw_store st) (used_blocks (sw_pos st) bs)"
    "sw_max st = m0 \<or> fits (sw_max st) (free_blocks p0 ds)"
  shows "\<exists>st' ds'. sweep_loop types e st = Some st' \<and> good_blocks ds' \<and> blocks_len ds' = blocks_len ds + blocks_len bs
    \<and> rev (sw_left st') @ sw_right st' = free_blocks p0 ds'
    \<and> used_blocks p0 ds' = used_blocks p0 ds @ kept (sw_store st) (used_blocks (sw_pos st) bs)
    \<and> sw_store st' = swept (sw_store st) (fst ` set (used_blocks (sw_pos st) bs))
    \<and> sw_sum st' = sw_sum st + freed_bytes (sw_store st) (used_blocks (sw_pos st) bs)
    \<and> (sw_max st' = m0 \<or> fits (sw_max st') (free_blocks p0 ds'))"
  using assms
proof (induction "length bs" arbitrary: ds bs st mid rule: less_induct)
  case less
  let ?p = "sw_pos st"
  have mid: "\<forall>(a, n) \<in> set mid. a < ?p"
  proof -
    have "set mid \<subseteq> set (free_blocks p0 ds)" using less.prems(5) by (metis Un_upper2 set_append)
    then show ?thesis using free_blocks_before [OF less.prems(1)] less.prems(3) by auto
  qed
  have adv: "find_links st = st\<lparr>sw_left := rev mid @ sw_left st, sw_right := free_blocks ?p bs\<rparr>"
    using advance_split [OF mid free_blocks_hd] less.prems(6) by (simp add: find_links_def)
  have left: "rev (rev mid @ sw_left st) = free_blocks p0 ds" using less.prems(5) by simp
  show ?case
  proof (cases bs)
    case Nil
    have "sweep_loop types e st = Some st" using less.prems(3,4) Nil by (subst sweep_loop.simps) simp
    moreover have "rev (sw_left st) @ sw_right st = free_blocks p0 ds" using less.prems(5,6) Nil by simp
    ultimately show ?thesis using less.prems(1,8) Nil
      by (intro exI [of _ st] exI [of _ ds]) (auto simp: kept_def freed_bytes_def)
  next
    case (Cons b cs)
    have lt: "?p < e" using less.prems(2,3,4) Cons by simp
    show ?thesis
    proof (cases b)
      case (Free n)
      let ?st = "(find_links st)\<lparr>sw_pos := ?p + n\<rparr>"
      have "sweep_loop types e st = sweep_loop types e ?st"
        using lt Cons Free adv by (subst sweep_loop.simps) (simp add: free_at_def)
      moreover have "\<exists>st' ds'. sweep_loop types e ?st = Some st' \<and> good_blocks ds' \<and> blocks_len ds' = blocks_len (ds @ [Free n]) + blocks_len cs
        \<and> rev (sw_left st') @ sw_right st' = free_blocks p0 ds'
        \<and> used_blocks p0 ds' = used_blocks p0 (ds @ [Free n]) @ kept (sw_store ?st) (used_blocks (sw_pos ?st) cs)
        \<and> sw_store st' = swept (sw_store ?st) (fst ` set (used_blocks (sw_pos ?st) cs))
        \<and> sw_sum st' = sw_sum ?st + freed_bytes (sw_store ?st) (used_blocks (sw_pos ?st) cs)
        \<and> (sw_max st' = m0 \<or> fits (sw_max st') (free_blocks p0 ds'))"
        by (rule less.hyps [where mid = "[(?p, n)]"])
          (use less.prems Cons Free adv in \<open>auto simp: free_blocks_append\<close>)
      ultimately show ?thesis using Cons Free adv by (auto simp: used_blocks_append add.assoc)
    next
      case (Used n)
      obtain obj where obj: "sw_store st ?p = Some obj" "block_size types obj = n"
        using less.prems(7) Cons Used by (auto simp: objects_fill_def)
      have n: "0 < n" "32 dvd n" and cs: "good_blocks cs" using less.prems(2) Cons Used by auto
      have nfree: "\<not> free_at ?p (free_blocks ?p bs)" using free_at_blocks [OF less.prems(2)] Cons Used by simp
      have fr: "free_blocks ?p bs = free_blocks (?p + n) cs" "used_blocks ?p bs = (?p, n) # used_blocks (?p + n) cs"
        using Cons Used by simp_all
      have step: "sweep_loop types e st = sweep_loop types e (sweep_object types obj (find_links st))"
        using lt nfree adv obj by (subst sweep_loop.simps) simp
      have notin: "?p \<notin> fst ` set (used_blocks (?p + n) cs)" by (rule later_notin [OF n(1)])
      have lt2: "?p < ?p + n" using n by simp
      have fill: "objects_fill types (sw_store st) (used_blocks (?p + n) cs)"
        using less.prems(7) fr by (simp add: objects_fill_def)
      show ?thesis
      proof (cases "sexp_markedp obj")
        case True
        let ?st = "(find_links st)\<lparr>sw_store := (sw_store st)(?p \<mapsto> obj\<lparr>sexp_markedp := False\<rparr>), sw_pos := ?p + n\<rparr>"
        have so: "sweep_object types obj (find_links st) = ?st" using True obj adv by (simp add: sweep_object_def Let_def)
        have "\<exists>st' ds'. sweep_loop types e ?st = Some st' \<and> good_blocks ds' \<and> blocks_len ds' = blocks_len (ds @ [Used n]) + blocks_len cs
          \<and> rev (sw_left st') @ sw_right st' = free_blocks p0 ds'
          \<and> used_blocks p0 ds' = used_blocks p0 (ds @ [Used n]) @ kept (sw_store ?st) (used_blocks (sw_pos ?st) cs)
          \<and> sw_store st' = swept (sw_store ?st) (fst ` set (used_blocks (sw_pos ?st) cs))
          \<and> sw_sum st' = sw_sum ?st + freed_bytes (sw_store ?st) (used_blocks (sw_pos ?st) cs)
          \<and> (sw_max st' = m0 \<or> fits (sw_max st') (free_blocks p0 ds'))"
          by (rule less.hyps [where mid = "[]"])
            (use less.prems Cons Used adv left n fill lt2 in \<open>auto simp: free_blocks_append objects_fill_update\<close>)
        then obtain st' ds' where r: "sweep_loop types e ?st = Some st'" "good_blocks ds'"
          "blocks_len ds' = blocks_len (ds @ [Used n]) + blocks_len cs" "rev (sw_left st') @ sw_right st' = free_blocks p0 ds'"
          "used_blocks p0 ds' = used_blocks p0 (ds @ [Used n]) @ kept (sw_store ?st) (used_blocks (?p + n) cs)"
          "sw_store st' = swept (sw_store ?st) (fst ` set (used_blocks (?p + n) cs))"
          "sw_sum st' = sw_sum ?st + freed_bytes (sw_store ?st) (used_blocks (?p + n) cs)"
          "sw_max st' = m0 \<or> fits (sw_max st') (free_blocks p0 ds')" by auto
        have inm: "?p \<in> marked (sw_store st)" using obj True by (simp add: marked_def)
        have k: "kept (sw_store st) (used_blocks ?p bs) = (?p, n) # kept (sw_store ?st) (used_blocks (?p + n) cs)"
          "freed_bytes (sw_store st) (used_blocks ?p bs) = freed_bytes (sw_store ?st) (used_blocks (?p + n) cs)"
          using inm lt2 by (simp_all add: fr kept_update freed_update) (simp_all add: kept_def freed_bytes_def)
        have sw: "swept (sw_store st) (fst ` set (used_blocks ?p bs)) = swept (sw_store ?st) (fst ` set (used_blocks (?p + n) cs))"
          unfolding fr list.set image_insert fst_conv swept_insert [of "sw_store st" ?p obj, OF obj(1) notin] using True notin by simp
        show ?thesis
          unfolding step so k sw using r Cons Used less.prems(3) adv
          by (intro exI [of _ st'] exI [of _ ds']) (simp add: used_blocks_append)
      next
        case False
        obtain left2 right2 ds2 mid2 bs2 k where
          fb: "free_block ?p n (rev mid @ sw_left st) (free_blocks (?p + n) cs) = (left2, right2, p0 + blocks_len ds2, k)"
          and d2: "good_blocks ds2" "good_blocks bs2" "length bs2 \<le> length cs"
            "blocks_len ds2 + blocks_len bs2 = blocks_len ds + n + blocks_len cs"
            "rev left2 @ mid2 = free_blocks p0 ds2" "right2 = mid2 @ free_blocks (p0 + blocks_len ds2) bs2"
            "used_blocks p0 ds2 = used_blocks p0 ds" "used_blocks (p0 + blocks_len ds2) bs2 = used_blocks (?p + n) cs"
            "fits k (free_blocks p0 ds2)" "\<forall>m. fits m (free_blocks p0 ds) \<longrightarrow> fits m (free_blocks p0 ds2)"
          using free_block_spec [OF less.prems(1) cs n left less.prems(3)] by blast
        let ?st = "\<lparr>sw_store = (sw_store st)(?p := None), sw_left = left2, sw_right = right2, sw_pos = p0 + blocks_len ds2,
          sw_max = (if k > sw_max st then k else sw_max st), sw_sum = sw_sum st + n\<rparr>"
        have so: "sweep_object types obj (find_links st) = ?st"
          using False obj adv fb fr by (simp add: sweep_object_def Let_def)
        have "\<exists>st' ds'. sweep_loop types e ?st = Some st' \<and> good_blocks ds' \<and> blocks_len ds' = blocks_len ds2 + blocks_len bs2
          \<and> rev (sw_left st') @ sw_right st' = free_blocks p0 ds'
          \<and> used_blocks p0 ds' = used_blocks p0 ds2 @ kept (sw_store ?st) (used_blocks (sw_pos ?st) bs2)
          \<and> sw_store st' = swept (sw_store ?st) (fst ` set (used_blocks (sw_pos ?st) bs2))
          \<and> sw_sum st' = sw_sum ?st + freed_bytes (sw_store ?st) (used_blocks (sw_pos ?st) bs2)
          \<and> (sw_max st' = m0 \<or> fits (sw_max st') (free_blocks p0 ds'))"
        proof (rule less.hyps [where mid = mid2])
          show "e = p0 + blocks_len ds2 + blocks_len bs2" using less.prems(4) Cons Used d2(4) by simp
          show "sw_max ?st = m0 \<or> fits (sw_max ?st) (free_blocks p0 ds2)" using less.prems(8) d2(9,10) by auto
          show "objects_fill types (sw_store ?st) (used_blocks (sw_pos ?st) bs2)"
            using fill lt2 d2(8) by (simp add: objects_fill_update)
        qed (use d2 Cons in auto)
        then obtain st' ds' where r: "sweep_loop types e ?st = Some st'" "good_blocks ds'"
          "blocks_len ds' = blocks_len ds2 + blocks_len bs2" "rev (sw_left st') @ sw_right st' = free_blocks p0 ds'"
          "used_blocks p0 ds' = used_blocks p0 ds2 @ kept (sw_store ?st) (used_blocks (sw_pos ?st) bs2)"
          "sw_store st' = swept (sw_store ?st) (fst ` set (used_blocks (sw_pos ?st) bs2))"
          "sw_sum st' = sw_sum ?st + freed_bytes (sw_store ?st) (used_blocks (sw_pos ?st) bs2)"
          "sw_max st' = m0 \<or> fits (sw_max st') (free_blocks p0 ds')" by auto
        have inm: "?p \<notin> marked (sw_store st)" using obj False by (simp add: marked_def)
        have k: "kept (sw_store st) (used_blocks ?p bs) = kept (sw_store ?st) (used_blocks (?p + n) cs)"
          "freed_bytes (sw_store st) (used_blocks ?p bs) = n + freed_bytes (sw_store ?st) (used_blocks (?p + n) cs)"
          using inm lt2 by (simp_all add: fr kept_update freed_update) (simp_all add: kept_def freed_bytes_def)
        have sw: "swept (sw_store st) (fst ` set (used_blocks ?p bs)) = swept (sw_store ?st) (fst ` set (used_blocks (?p + n) cs))"
          unfolding fr list.set image_insert fst_conv swept_insert [of "sw_store st" ?p obj, OF obj(1) notin] using False notin by simp
        show ?thesis
          unfolding step so k sw using r Cons Used d2(4,7,8)
          by (intro exI [of _ st'] exI [of _ ds']) simp
      qed
    qed
  qed
qed

subsection \<open>All segments\<close>

definition used_list :: "sexp_heap list \<Rightarrow> block list list \<Rightarrow> (nat \<times> nat) list" where
  "used_list hs bss = concat (map2 heap_used hs bss)"

lemma used_list_simps [simp]: "used_list [] bss = []" "used_list (h # hs) (bs # bss) = heap_used h bs @ used_list hs bss"
  by (simp_all add: used_list_def)

definition same_segment :: "sexp_heap \<Rightarrow> sexp_heap \<Rightarrow> bool" where
  "same_segment h h' \<longleftrightarrow> h' = h\<lparr>free_list := free_list h'\<rparr>"

lemma same_segment_update [simp]: "same_segment h (h\<lparr>free_list := ls\<rparr>)" "same_segment h h"
  by (simp_all add: same_segment_def)

lemma same_segment_simps:
  assumes "same_segment h h'"
  shows "sexp_heap_first_block h' = sexp_heap_first_block h" "sexp_heap_end h' = sexp_heap_end h"
    "heap_data h' = heap_data h" "heap_size h' = heap_size h" "heap_max_size h' = heap_max_size h"
proof -
  have e: "h' = h\<lparr>free_list := free_list h'\<rparr>" using assms by (simp add: same_segment_def)
  show "sexp_heap_first_block h' = sexp_heap_first_block h" "sexp_heap_end h' = sexp_heap_end h"
    "heap_data h' = heap_data h" "heap_size h' = heap_size h" "heap_max_size h' = heap_max_size h"
    by (subst e, simp)+
qed

lemma sweep_segment:
  assumes "heap_layout h bs" "objects_fill types s (heap_used h bs)"
  obtains st bs' where
    "sweep_loop types (sexp_heap_end h)
      \<lparr>sw_store = s, sw_left = [], sw_right = free_list h, sw_pos = sexp_heap_first_block h, sw_max = m, sw_sum = k\<rparr> = Some st"
    "heap_layout (h\<lparr>free_list := rev (sw_left st) @ sw_right st\<rparr>) bs'"
    "heap_used (h\<lparr>free_list := rev (sw_left st) @ sw_right st\<rparr>) bs' = kept s (heap_used h bs)"
    "sw_store st = swept s (fst ` set (heap_used h bs))" "sw_sum st = k + freed_bytes s (heap_used h bs)"
    "sw_max st = m \<or> fits (sw_max st) (rev (sw_left st) @ sw_right st)"
proof -
  let ?p = "sexp_heap_first_block h"
  let ?st = "\<lparr>sw_store = s, sw_left = [], sw_right = free_list h, sw_pos = ?p, sw_max = m, sw_sum = k\<rparr>"
  have lay: "good_blocks bs" "32 dvd heap_data h" "?p + blocks_len bs = sexp_heap_end h" "free_list h = free_blocks ?p bs"
    using assms(1) by (simp_all add: heap_layout_def)
  have "\<exists>st' ds'. sweep_loop types (sexp_heap_end h) ?st = Some st' \<and> good_blocks ds' \<and> blocks_len ds' = blocks_len [] + blocks_len bs
    \<and> rev (sw_left st') @ sw_right st' = free_blocks ?p ds'
    \<and> used_blocks ?p ds' = used_blocks ?p [] @ kept (sw_store ?st) (used_blocks (sw_pos ?st) bs)
    \<and> sw_store st' = swept (sw_store ?st) (fst ` set (used_blocks (sw_pos ?st) bs))
    \<and> sw_sum st' = sw_sum ?st + freed_bytes (sw_store ?st) (used_blocks (sw_pos ?st) bs)
    \<and> (sw_max st' = m \<or> fits (sw_max st') (free_blocks ?p ds'))"
    by (rule sweep_loop_spec [where mid = "[]"]) (use lay assms(2) in \<open>simp_all add: heap_used_def\<close>)
  then obtain st ds where r: "sweep_loop types (sexp_heap_end h) ?st = Some st" "good_blocks ds" "blocks_len ds = blocks_len bs"
    "rev (sw_left st) @ sw_right st = free_blocks ?p ds" "used_blocks ?p ds = kept s (used_blocks ?p bs)"
    "sw_store st = swept s (fst ` set (used_blocks ?p bs))" "sw_sum st = k + freed_bytes s (used_blocks ?p bs)"
    "sw_max st = m \<or> fits (sw_max st) (free_blocks ?p ds)" by auto
  show ?thesis
    by (rule that [OF r(1), of ds]) (use r lay in \<open>simp_all add: heap_layout_def heap_used_def\<close>)
qed

lemma marked_swept_other: "a \<notin> A \<Longrightarrow> a \<in> marked (swept s A) \<longleftrightarrow> a \<in> marked s"
  by (simp add: marked_def swept_def)

lemma disjoint_swept:
  assumes "fst ` set us \<inter> A = {}"
  shows "objects_fill types (swept s A) us \<longleftrightarrow> objects_fill types s us" "kept (swept s A) us = kept s us"
    "freed_bytes (swept s A) us = freed_bytes s us"
proof -
  have nA: "a \<notin> A" if "(a, n) \<in> set us" for a n using assms that by (auto simp: image_iff disjoint_iff)
  then have "swept s A a = s a" if "(a, n) \<in> set us" for a n using that by (simp add: swept_def)
  then show "objects_fill types (swept s A) us \<longleftrightarrow> objects_fill types s us"
    unfolding objects_fill_def by (intro ball_cong) auto
  show "kept (swept s A) us = kept s us"
    unfolding kept_def by (rule filter_cong) (auto simp: marked_swept_other dest: nA)
  have "filter (\<lambda>(a, n). a \<notin> marked (swept s A)) us = filter (\<lambda>(a, n). a \<notin> marked s) us"
    by (rule filter_cong) (auto simp: marked_swept_other dest: nA)
  then show "freed_bytes (swept s A) us = freed_bytes s us" by (simp add: freed_bytes_def)
qed

lemma swept_union: "A \<inter> B = {} \<Longrightarrow> swept (swept s A) B = swept s (A \<union> B)"
  by (rule ext) (auto simp: swept_def)

lemma sweep_heaps_spec:
  assumes "list_all2 heap_layout hs bss" "distinct (map fst (used_list hs bss))" "objects_fill types s (used_list hs bss)"
  shows "\<exists>hs' bss' mx. sweep_heaps types hs s m k = Some (hs', swept s (fst ` set (used_list hs bss)), mx, k + freed_bytes s (used_list hs bss))
    \<and> list_all2 heap_layout hs' bss' \<and> list_all2 same_segment hs hs' \<and> used_list hs' bss' = kept s (used_list hs bss)
    \<and> (mx = m \<or> (\<exists>h \<in> set hs'. fits mx (free_list h)))"
  using assms
proof (induction hs bss arbitrary: s m k rule: list_all2_induct)
  case Nil
  then show ?case by (simp add: kept_def freed_bytes_def)
next
  case (Cons h hs bs bss)
  have dis: "distinct (map fst (used_list hs bss))" "fst ` set (used_list hs bss) \<inter> fst ` set (heap_used h bs) = {}"
    using Cons.prems(1) by auto
  have fill: "objects_fill types s (heap_used h bs)" "objects_fill types s (used_list hs bss)"
    using Cons.prems(2) by (auto simp: objects_fill_def)
  obtain st bs' where st: "sweep_loop types (sexp_heap_end h)
      \<lparr>sw_store = s, sw_left = [], sw_right = free_list h, sw_pos = sexp_heap_first_block h, sw_max = m, sw_sum = k\<rparr> = Some st"
    "heap_layout (h\<lparr>free_list := rev (sw_left st) @ sw_right st\<rparr>) bs'"
    "heap_used (h\<lparr>free_list := rev (sw_left st) @ sw_right st\<rparr>) bs' = kept s (heap_used h bs)"
    "sw_store st = swept s (fst ` set (heap_used h bs))" "sw_sum st = k + freed_bytes s (heap_used h bs)"
    "sw_max st = m \<or> fits (sw_max st) (rev (sw_left st) @ sw_right st)"
    using sweep_segment [OF Cons.hyps(1) fill(1)] by blast
  note d = disjoint_swept [OF dis(2)]
  have fill': "objects_fill types (sw_store st) (used_list hs bss)" unfolding st(4) d(1) by (rule fill(2))
  obtain hs' bss' mx where rest: "sweep_heaps types hs (sw_store st) (sw_max st) (sw_sum st) =
      Some (hs', swept (sw_store st) (fst ` set (used_list hs bss)), mx, sw_sum st + freed_bytes (sw_store st) (used_list hs bss))"
    "list_all2 heap_layout hs' bss'" "list_all2 same_segment hs hs'" "used_list hs' bss' = kept (sw_store st) (used_list hs bss)"
    "mx = sw_max st \<or> (\<exists>h \<in> set hs'. fits mx (free_list h))"
    using Cons.IH [OF dis(1) fill', of "sw_max st" "sw_sum st"] by blast
  have sw: "swept (sw_store st) (fst ` set (used_list hs bss)) = swept s (fst ` set (used_list (h # hs) (bs # bss)))"
    unfolding st(4) using dis(2) by (subst swept_union) (auto simp: image_Un Un_commute)
  have kf: "kept s (used_list (h # hs) (bs # bss)) = kept s (heap_used h bs) @ kept s (used_list hs bss)"
    "freed_bytes s (used_list (h # hs) (bs # bss)) = freed_bytes s (heap_used h bs) + freed_bytes s (used_list hs bss)"
    by (simp_all add: kept_def freed_bytes_def)
  show ?case
    by (rule exI [of _ "h\<lparr>free_list := rev (sw_left st) @ sw_right st\<rparr> # hs'"], rule exI [of _ "bs' # bss'"], rule exI [of _ mx])
      (use st rest sw kf d in auto)
qed

end
