(* ===== verification/Gc.thy ===== *)
theory Gc
  imports Sweep
begin

text \<open>
  Weak references, finalizers, and the correctness of a whole collection: the memory invariant is
  kept, exactly the objects reachable from the context survive, with unchanged strong slots, and no
  weak slot of a survivor refers to a freed object.
\<close>

subsection \<open>Resetting the weak slots of an object\<close>

definition dead_slot :: "store \<Rightarrow> u64 \<Rightarrow> bool" where
  "dead_slot s w \<longleftrightarrow> heap_pointer w \<and> \<not> slot_done s w"

lemma reset_slots_body:
  "fst (fold (reset_slot s base) is (body, br, al)) off =
    (if (\<exists>i \<in> set is. off = base + 8 * i) \<and> dead_slot s (body off) then SEXP_FALSE_word else body off)"
proof (induction "is" arbitrary: body br al)
  case (Cons i "is")
  have nd: "\<not> dead_slot s SEXP_FALSE_word" by (simp add: dead_slot_def heap_pointer_def SEXP_FALSE_word_def sexp_pointerp_w_def)
  show ?case
  proof (cases "dead_slot s (body (base + 8 * i))")
    case True
    then have "reset_slot s base i (body, br, al) = (body(base + 8 * i := SEXP_FALSE_word), True, al)"
      by (simp add: reset_slot_def dead_slot_def)
    then show ?thesis using nd True by (auto simp: Cons.IH)
  next
    case False
    then have "reset_slot s base i (body, br, al) = (body, br, False)"
      by (auto simp: reset_slot_def dead_slot_def)
    then show ?thesis using False by (auto simp: Cons.IH)
  qed
qed simp

lemma clear_slots_body:
  "clear_slots base is body off = (if \<exists>i \<in> set is. off = base + 8 * i then SEXP_FALSE_word else body off)"
  by (induction "is" arbitrary: body) (auto simp: clear_slots_def)

definition weak_region :: "sexp_type \<Rightarrow> heap_object \<Rightarrow> nat set" where
  "weak_region t obj =
    (\<lambda>i. sexp_type_weak_base t + 8 * i) ` {..<unat (sexp_type_num_weak_slots_of_object t obj) + sexp_type_weak_len_extra t}"

text \<open>
  The weak slots of a type are apart from its strong slots and its length words, as the layout
  comment of \<open>struct sexp_struct\<close> demands.
\<close>

definition weak_apart :: "sexp_type list \<Rightarrow> heap_object \<Rightarrow> bool" where
  "weak_apart types obj \<longleftrightarrow>
    (\<forall>t. type_of_object types obj = Some t \<longrightarrow> sexp_type_weak_base t > 0 \<longrightarrow>
      (sexp_type_size_scale t \<noteq> 0 \<longrightarrow> sexp_type_size_off t \<notin> weak_region t obj)
      \<and> (sexp_type_field_len_scale t \<noteq> 0 \<longrightarrow> sexp_type_field_len_off t \<notin> weak_region t obj)
      \<and> (sexp_type_weak_len_scale t \<noteq> 0 \<longrightarrow> sexp_type_weak_len_off t \<notin> weak_region t obj)
      \<and> (\<forall>i. int i \<le> sint (sexp_type_num_slots_of_object t obj - 1) \<longrightarrow> sexp_type_field_base t + 8 * i \<notin> weak_region t obj))"

abbreviation reset_object :: "sexp_type list \<Rightarrow> store \<Rightarrow> heap_object \<Rightarrow> heap_object" where
  "reset_object types s obj \<equiv> fst (reset_weak_object types s obj)"

lemma reset_object_fields [simp]:
  "object_tag (reset_object types s obj) = object_tag obj"
  "sexp_markedp (reset_object types s obj) = sexp_markedp obj"
  "sexp_context_saves (reset_object types s obj) = sexp_context_saves obj"
  by (simp_all add: reset_weak_object_def Let_def split: option.split prod.split)

lemma reset_object_outside:
  assumes "type_of_object types obj = Some t" "off \<notin> weak_region t obj"
  shows "object_body (reset_object types s obj) off = object_body obj off"
proof -
  let ?base = "sexp_type_weak_base t" and ?len = "unat (sexp_type_num_weak_slots_of_object t obj)"
  obtain b br al where f: "fold (reset_slot s ?base) [0..<?len] (object_body obj, sexp_brokenp obj, True) = (b, br, al)"
    by (metis prod_cases3)
  have out: "\<not> (\<exists>i \<in> set [0..<?len]. off = ?base + 8 * i)" "\<not> (\<exists>i \<in> set [?len..<?len + sexp_type_weak_len_extra t]. off = ?base + 8 * i)"
    using assms(2) by (auto simp: weak_region_def)
  have "b off = object_body obj off"
    using reset_slots_body [of s ?base "[0..<?len]" "object_body obj" "sexp_brokenp obj" True off] out(1) f by simp
  then show ?thesis
    using assms(1) f out(2) by (simp add: reset_weak_object_def Let_def clear_slots_body)
qed

lemma reset_object_layout:
  assumes "weak_apart types obj"
  shows "type_of_object types (reset_object types s obj) = type_of_object types obj"
    and "block_size types (reset_object types s obj) = block_size types obj"
    and "strong_slots types (reset_object types s obj) = strong_slots types obj"
    and "children types (reset_object types s obj) = children types obj"
    and "weak_apart types (reset_object types s obj)"
proof -
  show ty: "type_of_object types (reset_object types s obj) = type_of_object types obj" by (simp add: type_of_object_def)
  have none: "reset_object types s obj = obj" if "\<forall>t. type_of_object types obj = Some t \<longrightarrow> sexp_type_weak_base t = 0"
    using that by (auto simp: reset_weak_object_def split: option.split)
  have main: "block_size types (reset_object types s obj) = block_size types obj
    \<and> strong_slots types (reset_object types s obj) = strong_slots types obj
    \<and> weak_apart types (reset_object types s obj)"
  proof (cases "\<exists>t. type_of_object types obj = Some t \<and> 0 < sexp_type_weak_base t")
    case True
    then obtain t where t: "type_of_object types obj = Some t" "0 < sexp_type_weak_base t" by blast
    note out = reset_object_outside [OF t(1), of _ s] and w = assms [unfolded weak_apart_def, rule_format, OF t]
    have "sexp_type_size_of_object t (reset_object types s obj) = sexp_type_size_of_object t obj"
      using out w by (cases "sexp_type_size_scale t = 0") (simp_all add: sexp_type_size_of_object_def)
    moreover have ns: "sexp_type_num_slots_of_object t (reset_object types s obj) = sexp_type_num_slots_of_object t obj"
      using out w by (cases "sexp_type_field_len_scale t = 0") (simp_all add: sexp_type_num_slots_of_object_def)
    moreover have "object_slot t (reset_object types s obj) i = object_slot t obj i"
      if "int i \<le> sint (sexp_type_num_slots_of_object t obj - 1)" for i
      using out w that by (simp add: object_slot_def)
    moreover have "sexp_type_num_weak_slots_of_object t (reset_object types s obj) = sexp_type_num_weak_slots_of_object t obj"
      using out w by (cases "sexp_type_weak_len_scale t = 0") (simp_all add: sexp_type_num_weak_slots_of_object_def)
    ultimately show ?thesis
      using t ty w by (auto simp: block_size_def sexp_allocated_bytes_def strong_slots_def weak_apart_def weak_region_def)
  qed (use none assms in auto)
  then show "block_size types (reset_object types s obj) = block_size types obj"
    and "strong_slots types (reset_object types s obj) = strong_slots types obj"
    and "weak_apart types (reset_object types s obj)" by simp_all
  then show "children types (reset_object types s obj) = children types obj"
    by (simp add: children_def sexp_contextp_def)
qed

lemma reset_object_cong:
  assumes "slot_done s = slot_done s'"
  shows "reset_weak_object types s obj = reset_weak_object types s' obj"
proof -
  have "reset_slot s = reset_slot s'" using assms by (simp add: reset_slot_def [abs_def] fun_eq_iff)
  then show ?thesis unfolding reset_weak_object_def by metis
qed

text \<open>After the reset no weak slot holds a pointer to an unmarked object.\<close>

lemma reset_object_weak:
  assumes "type_of_object types obj = Some t" "sexp_markedp obj" "0 < sexp_type_weak_base t"
    "i < unat (sexp_type_num_weak_slots_of_object t obj)"
  shows "\<not> dead_slot s (object_body (reset_object types s obj) (sexp_type_weak_base t + 8 * i))"
proof -
  let ?base = "sexp_type_weak_base t" and ?len = "unat (sexp_type_num_weak_slots_of_object t obj)"
  obtain b br al where f: "fold (reset_slot s ?base) [0..<?len] (object_body obj, sexp_brokenp obj, True) = (b, br, al)"
    by (metis prod_cases3)
  have nd: "\<not> dead_slot s SEXP_FALSE_word" by (simp add: dead_slot_def heap_pointer_def SEXP_FALSE_word_def sexp_pointerp_w_def)
  have "\<not> dead_slot s (b (?base + 8 * i))"
    using reset_slots_body [of s ?base "[0..<?len]" "object_body obj" "sexp_brokenp obj" True "?base + 8 * i"] assms(4) f nd
    by (auto split: if_splits)
  then show ?thesis using assms f nd by (simp add: reset_weak_object_def Let_def clear_slots_body)
qed

subsection \<open>The walks over the objects\<close>

lemma walk_step:
  assumes "good_blocks bs" "\<forall>(a, n) \<in> set mid. a < p"
  shows "snd (advance p [] (mid @ free_blocks p bs)) = free_blocks p bs"
  using advance_split [OF assms(2) free_blocks_hd] by simp

definition reset_all :: "sexp_type list \<Rightarrow> store \<Rightarrow> nat set \<Rightarrow> store" where
  "reset_all types s A a = (if a \<in> A then map_option (reset_object types s) (s a) else s a)"

lemma slot_done_reset:
  assumes "s a = Some obj"
  shows "slot_done (s(a \<mapsto> reset_object types s0 obj)) = slot_done s"
  using assms by (auto simp: slot_done_def fun_eq_iff split: option.split)

lemma weak_loop_spec:
  assumes "good_blocks bs" "e = p + blocks_len bs" "\<forall>(a, n) \<in> set mid. a < p"
    "objects_fill types s (used_blocks p bs)" "\<forall>(a, n) \<in> set (used_blocks p bs). \<forall>obj. s a = Some obj \<longrightarrow> weak_apart types obj"
  shows "\<exists>k. weak_loop types e s p (mid @ free_blocks p bs) broke = Some (reset_all types s (fst ` set (used_blocks p bs)), k)"
  using assms
proof (induction bs arbitrary: p mid s broke)
  case Nil
  then show ?case by (subst weak_loop.simps) (simp add: reset_all_def [abs_def])
next
  case (Cons b bs)
  have lt: "p < e" using Cons.prems(1,2) by simp
  note adv = walk_step [OF Cons.prems(1,3)]
  show ?case
  proof (cases b)
    case (Free n)
    have "weak_loop types e s p (mid @ free_blocks p (b # bs)) broke = weak_loop types e s (p + n) ([(p, n)] @ free_blocks (p + n) bs) broke"
      using lt adv Free by (subst weak_loop.simps) (simp add: free_at_def)
    then show ?thesis
      using Cons.IH [of "p + n" "[(p, n)]" s broke] Cons.prems Free by auto
  next
    case (Used n)
    obtain obj where obj: "s p = Some obj" "block_size types obj = n" "weak_apart types obj"
      using Cons.prems(4,5) Used by (auto simp: objects_fill_def)
    have n: "0 < n" using Cons.prems(1) Used by simp
    let ?s = "s(p \<mapsto> reset_object types s obj)"
    have nf: "\<not> free_at p (free_blocks (p + n) bs)"
      using free_at_blocks [OF Cons.prems(1), of p] Used by simp
    have step: "weak_loop types e s p (mid @ free_blocks p (b # bs)) broke =
        weak_loop types e ?s (p + n) ([] @ free_blocks (p + n) bs) (broke + snd (reset_weak_object types s obj))"
      using lt adv Used nf obj reset_object_layout(2) [OF obj(3), of s] by (subst weak_loop.simps) simp
    have later: "a \<noteq> p" if "(a, m) \<in> set (used_blocks (p + n) bs)" for a m using later_blocks [OF that] n by simp
    have "objects_fill types ?s (used_blocks (p + n) bs)"
      using Cons.prems(4) Used n by (simp add: objects_fill_update) (simp add: objects_fill_def)
    then obtain k where k: "weak_loop types e ?s (p + n) ([] @ free_blocks (p + n) bs) (broke + snd (reset_weak_object types s obj)) =
        Some (reset_all types ?s (fst ` set (used_blocks (p + n) bs)), k)"
      using Cons.IH [of "p + n" "[]" ?s] Cons.prems Used later by fastforce
    have notin: "p \<notin> fst ` set (used_blocks (p + n) bs)" by (rule later_notin [OF n])
    have "reset_all types ?s (fst ` set (used_blocks (p + n) bs)) = reset_all types s (insert p (fst ` set (used_blocks (p + n) bs)))"
      using obj(1) notin reset_object_cong [OF slot_done_reset [of s p obj, OF obj(1)]]
      by (auto simp: reset_all_def fun_eq_iff)
    then show ?thesis using step k Used by simp
  qed
qed

lemma slot_done_reset_all: "slot_done (reset_all types s A) = slot_done s"
  by (auto simp: slot_done_def reset_all_def fun_eq_iff split: option.split)

lemma reset_all_union: "A \<inter> B = {} \<Longrightarrow> reset_all types (reset_all types s A) B = reset_all types s (A \<union> B)"
  using reset_object_cong [OF slot_done_reset_all [of types s A]] by (auto simp: reset_all_def fun_eq_iff)

lemma weak_heaps_spec:
  assumes "list_all2 heap_layout hs bss" "distinct (map fst (used_list hs bss))" "objects_fill types s (used_list hs bss)"
    "\<forall>(a, n) \<in> set (used_list hs bss). \<forall>obj. s a = Some obj \<longrightarrow> weak_apart types obj"
  shows "\<exists>k. weak_heaps types hs s broke = Some (reset_all types s (fst ` set (used_list hs bss)), k)"
  using assms
proof (induction hs bss arbitrary: s broke rule: list_all2_induct)
  case Nil
  then show ?case by (simp add: reset_all_def [abs_def])
next
  case (Cons h hs bs bss)
  let ?A = "fst ` set (heap_used h bs)" and ?us = "used_list hs bss"
  have lay: "good_blocks bs" "sexp_heap_end h = sexp_heap_first_block h + blocks_len bs" "free_list h = free_blocks (sexp_heap_first_block h) bs"
    using Cons.hyps(1) by (simp_all add: heap_layout_def)
  have 1: "objects_fill types s (heap_used h bs)" "\<forall>(a, n) \<in> set (heap_used h bs). \<forall>obj. s a = Some obj \<longrightarrow> weak_apart types obj"
    using Cons.prems(2,3) by (auto simp: objects_fill_def)
  obtain k where k: "weak_loop types (sexp_heap_end h) s (sexp_heap_first_block h) (free_list h) broke = Some (reset_all types s ?A, k)"
    using weak_loop_spec [OF lay(1,2), of "[]" types s broke] 1 lay(3) by (auto simp: heap_used_def)
  have dis: "distinct (map fst ?us)" "?A \<inter> fst ` set ?us = {}" using Cons.prems(1) by auto
  have same: "reset_all types s ?A a = s a" if "a \<in> fst ` set ?us" for a
    using dis(2) that by (auto simp: reset_all_def)
  have "objects_fill types s ?us" using Cons.prems(2) by (auto simp: objects_fill_def)
  then have "objects_fill types (reset_all types s ?A) ?us" using objects_fill_cong [of ?us "reset_all types s ?A" s types, OF same] by blast
  moreover have "\<forall>(a, n) \<in> set ?us. \<forall>obj. reset_all types s ?A a = Some obj \<longrightarrow> weak_apart types obj"
  proof (intro ballI, clarify)
    fix a n obj
    assume "(a, n) \<in> set ?us" "reset_all types s ?A a = Some obj"
    then have "(a, n) \<in> set (used_list (h # hs) (bs # bss))" "s a = Some obj" using same [of a] by force+
    then show "weak_apart types obj" using Cons.prems(3) by blast
  qed
  ultimately obtain k' where "weak_heaps types hs (reset_all types s ?A) k = Some (reset_all types (reset_all types s ?A) (fst ` set ?us), k')"
    using Cons.IH [OF dis(1)] by blast
  then show ?case using k reset_all_union [OF dis(2)] by (simp add: image_Un)
qed

subsection \<open>Finalizers\<close>

definition finalize_all :: "sexp_type list \<Rightarrow> (nat \<Rightarrow> heap_object \<Rightarrow> heap_object) \<Rightarrow> nat \<Rightarrow> store \<Rightarrow> nat set \<Rightarrow> store" where
  "finalize_all types fin pass s A a =
    (if a \<in> A then map_option (\<lambda>obj. if runs_finalizer types pass obj then fin a obj else obj) (s a) else s a)"

definition finalized :: "sexp_type list \<Rightarrow> nat \<Rightarrow> store \<Rightarrow> nat list \<Rightarrow> nat list" where
  "finalized types pass s as = filter (\<lambda>a. case s a of None \<Rightarrow> False | Some obj \<Rightarrow> runs_finalizer types pass obj) as"

lemma finalize_object_effect:
  "fin_store (finalize_object types fin pass p obj st) = (fin_store st)(p := if runs_finalizer types pass obj then Some (fin p obj) else fin_store st p)"
  "fin_called (finalize_object types fin pass p obj st) = fin_called st @ (if runs_finalizer types pass obj then [p] else [])"
  "fin_aborted (finalize_object types fin pass p obj st) = fin_aborted st"
  by (simp_all add: finalize_object_def)

lemma finalize_loop_spec:
  assumes "good_blocks bs" "e = p + blocks_len bs" "\<forall>(a, n) \<in> set mid. a < p"
    "objects_fill types (fin_store st) (used_blocks p bs)" "\<not> fin_aborted st"
  shows "\<exists>st'. finalize_loop types fin pass e st p (mid @ free_blocks p bs) = Some st'
    \<and> fin_store st' = finalize_all types fin pass (fin_store st) (fst ` set (used_blocks p bs))
    \<and> fin_called st' = fin_called st @ finalized types pass (fin_store st) (map fst (used_blocks p bs))
    \<and> \<not> fin_aborted st'"
  using assms
proof (induction bs arbitrary: p mid st)
  case Nil
  then show ?case by (subst finalize_loop.simps) (simp add: finalize_all_def [abs_def] finalized_def)
next
  case (Cons b bs)
  have lt: "p < e" using Cons.prems(1,2) by simp
  note adv = walk_step [OF Cons.prems(1,3)]
  show ?case
  proof (cases b)
    case (Free n)
    have "finalize_loop types fin pass e st p (mid @ free_blocks p (b # bs)) =
        finalize_loop types fin pass e st (p + n) ([(p, n)] @ free_blocks (p + n) bs)"
      using lt adv Free by (subst finalize_loop.simps) (simp add: free_at_def)
    then show ?thesis using Cons.IH [of "p + n" "[(p, n)]" st] Cons.prems Free by auto
  next
    case (Used n)
    obtain obj where obj: "fin_store st p = Some obj" "block_size types obj = n"
      using Cons.prems(4) Used by (auto simp: objects_fill_def)
    have n: "0 < n" using Cons.prems(1) Used by simp
    let ?st = "finalize_object types fin pass p obj st" and ?us = "used_blocks (p + n) bs"
    have nf: "\<not> free_at p (free_blocks (p + n) bs)" using free_at_blocks [OF Cons.prems(1), of p] Used by simp
    have step: "finalize_loop types fin pass e st p (mid @ free_blocks p (b # bs)) =
        finalize_loop types fin pass e ?st (p + n) ([] @ free_blocks (p + n) bs)"
      using lt adv Used nf obj n by (subst finalize_loop.simps) simp
    have "objects_fill types (fin_store ?st) ?us"
      using Cons.prems(4) Used n by (simp add: finalize_object_effect objects_fill_update) (simp add: objects_fill_def)
    then obtain st' where st': "finalize_loop types fin pass e ?st (p + n) ([] @ free_blocks (p + n) bs) = Some st'"
      "fin_store st' = finalize_all types fin pass (fin_store ?st) (fst ` set ?us)"
      "fin_called st' = fin_called ?st @ finalized types pass (fin_store ?st) (map fst ?us)" "\<not> fin_aborted st'"
      using Cons.IH [of "p + n" "[]" ?st] Cons.prems Used by (auto simp: finalize_object_effect(3))
    have notin: "p \<notin> fst ` set ?us" by (rule later_notin [OF n])
    have "finalize_all types fin pass (fin_store ?st) (fst ` set ?us) = finalize_all types fin pass (fin_store st) (insert p (fst ` set ?us))"
      using obj(1) notin by (auto simp: finalize_all_def fun_eq_iff finalize_object_effect)
    moreover have "finalized types pass (fin_store ?st) (map fst ?us) = finalized types pass (fin_store st) (map fst ?us)"
      unfolding finalized_def by (rule filter_cong) (use notin in \<open>auto simp: finalize_object_effect\<close>)
    ultimately show ?thesis
      using step st' Used obj(1) by (simp add: finalize_object_effect finalized_def)
  qed
qed

lemma finalize_heaps_spec:
  assumes "list_all2 heap_layout hs bss" "distinct (map fst (used_list hs bss))" "objects_fill types (fin_store st) (used_list hs bss)"
    "\<not> fin_aborted st"
  shows "\<exists>st'. finalize_heaps types fin pass hs st = Some st'
    \<and> fin_store st' = finalize_all types fin pass (fin_store st) (fst ` set (used_list hs bss))
    \<and> fin_called st' = fin_called st @ finalized types pass (fin_store st) (map fst (used_list hs bss)) \<and> \<not> fin_aborted st'"
  using assms
proof (induction hs bss arbitrary: st rule: list_all2_induct)
  case Nil
  then show ?case by (simp add: finalize_all_def [abs_def] finalized_def)
next
  case (Cons h hs bs bss)
  let ?A = "fst ` set (heap_used h bs)" and ?us = "used_list hs bss" and ?s = "fin_store st"
  have lay: "good_blocks bs" "sexp_heap_end h = sexp_heap_first_block h + blocks_len bs" "free_list h = free_blocks (sexp_heap_first_block h) bs"
    using Cons.hyps(1) by (simp_all add: heap_layout_def)
  have "objects_fill types ?s (heap_used h bs)" using Cons.prems(2) by (auto simp: objects_fill_def)
  then obtain st1 where 1: "finalize_loop types fin pass (sexp_heap_end h) st (sexp_heap_first_block h) (free_list h) = Some st1"
    "fin_store st1 = finalize_all types fin pass ?s ?A"
    "fin_called st1 = fin_called st @ finalized types pass ?s (map fst (heap_used h bs))" "\<not> fin_aborted st1"
    using finalize_loop_spec [OF lay(1,2), of "[]" types st fin pass] lay(3) Cons.prems(3) by (auto simp: heap_used_def)
  have dis: "distinct (map fst ?us)" "?A \<inter> fst ` set ?us = {}" using Cons.prems(1) by auto
  have same: "fin_store st1 a = ?s a" if "a \<in> fst ` set ?us" for a
    using dis(2) that 1(2) by (auto simp: finalize_all_def)
  have "objects_fill types ?s ?us" using Cons.prems(2) by (auto simp: objects_fill_def)
  then have "objects_fill types (fin_store st1) ?us" using objects_fill_cong [of ?us "fin_store st1" ?s types, OF same] by blast
  then obtain st2 where 2: "finalize_heaps types fin pass hs st1 = Some st2"
    "fin_store st2 = finalize_all types fin pass (fin_store st1) (fst ` set ?us)"
    "fin_called st2 = fin_called st1 @ finalized types pass (fin_store st1) (map fst ?us)" "\<not> fin_aborted st2"
    using Cons.IH [OF dis(1)] 1(4) by blast
  have "finalize_all types fin pass (fin_store st1) (fst ` set ?us) = finalize_all types fin pass ?s (?A \<union> fst ` set ?us)"
    using dis(2) unfolding 1(2) by (auto simp: finalize_all_def fun_eq_iff)
  moreover have "finalized types pass (fin_store st1) (map fst ?us) = finalized types pass ?s (map fst ?us)"
    unfolding finalized_def by (rule filter_cong) (use same in auto)
  ultimately show ?case using 1 2 by (simp add: image_Un finalized_def)
qed

subsection \<open>The memory invariant\<close>

definition segments_apart :: "sexp_heap list \<Rightarrow> bool" where
  "segments_apart hs \<longleftrightarrow> sorted_wrt (\<lambda>h h'. sexp_heap_end h \<le> heap_data h' \<or> sexp_heap_end h' \<le> heap_data h) hs"

definition heaps_hold :: "sexp_type list \<Rightarrow> store \<Rightarrow> sexp_heap list \<Rightarrow> bool" where
  "heaps_hold types s hs \<longleftrightarrow>
    (\<exists>bss. list_all2 heap_layout hs bss \<and> objects_fill types s (used_list hs bss) \<and> dom s = fst ` set (used_list hs bss))"

definition memory_ok :: "sexp_type list \<Rightarrow> memory \<Rightarrow> bool" where
  "memory_ok types m \<longleftrightarrow>
    mem_heaps m \<noteq> [] \<and> segments_apart (mem_heaps m) \<and> wf_store types (mem_store m) \<and> marked (mem_store m) = {}
    \<and> (\<forall>obj \<in> ran (mem_store m). weak_apart types obj) \<and> heaps_hold types (mem_store m) (mem_heaps m)"

lemma heap_used_range:
  assumes "heap_layout h bs" "(a, n) \<in> set (heap_used h bs)"
  shows "sexp_heap_first_block h \<le> a \<and> a + n \<le> sexp_heap_end h \<and> heap_data h \<le> a \<and> 0 < n"
  using assms used_blocks_range [of a n "sexp_heap_first_block h" bs] used_blocks_good [of bs a n]
  by (auto simp: heap_layout_def heap_used_def sexp_heap_first_block_def)

lemma used_list_range:
  "list_all2 heap_layout hs bss \<Longrightarrow> (a, n) \<in> set (used_list hs bss) \<Longrightarrow>
   \<exists>h \<in> set hs. heap_data h \<le> a \<and> a + n \<le> sexp_heap_end h \<and> 0 < n"
  by (induction hs bss rule: list_all2_induct) (auto dest: heap_used_range)

lemma used_list_distinct:
  "list_all2 heap_layout hs bss \<Longrightarrow> segments_apart hs \<Longrightarrow> distinct (map fst (used_list hs bss))"
proof (induction hs bss rule: list_all2_induct)
  case (Cons h hs bs bss)
  have "distinct (map fst (heap_used h bs))"
    using Cons.hyps(1) used_blocks_distinct by (simp add: heap_layout_def heap_used_def)
  moreover have "distinct (map fst (used_list hs bss))" using Cons by (simp add: segments_apart_def)
  moreover have ne: "a \<noteq> b" if "(a, n) \<in> set (heap_used h bs)" "(b, k) \<in> set (used_list hs bss)" for a b n k
    using heap_used_range [OF Cons.hyps(1) that(1)] used_list_range [OF Cons.hyps(2) that(2)] Cons.prems
    by (fastforce simp: segments_apart_def)
  have "fst ` set (heap_used h bs) \<inter> fst ` set (used_list hs bss) = {}"
    unfolding disjoint_iff using ne by (metis imageE prod.collapse)
  ultimately show ?case by simp
qed simp

lemma used_list_disjoint:
  "list_all2 heap_layout hs bss \<Longrightarrow> segments_apart hs \<Longrightarrow> (a, n) \<in> set (used_list hs bss) \<Longrightarrow> (b, k) \<in> set (used_list hs bss) \<Longrightarrow>
   a \<noteq> b \<Longrightarrow> a + n \<le> b \<or> b + k \<le> a"
proof (induction hs bss rule: list_all2_induct)
  case (Cons h hs bs bss)
  have cross: "c + i \<le> d \<or> d + j \<le> c" if "(c, i) \<in> set (heap_used h bs)" "(d, j) \<in> set (used_list hs bss)" for c d i j
    using heap_used_range [OF Cons.hyps(1) that(1)] used_list_range [OF Cons.hyps(2) that(2)] Cons.prems(1)
    by (fastforce simp: segments_apart_def)
  have "a + n \<le> b \<or> b + k \<le> a" if "(a, n) \<in> set (heap_used h bs)" "(b, k) \<in> set (heap_used h bs)"
    using used_blocks_disjoint that Cons.prems(4) unfolding heap_used_def by blast
  then show ?case using Cons cross [of a n b k] cross [of b k a n] by (auto simp: segments_apart_def)
qed simp

lemma list_all2_member: "list_all2 P xs ys \<Longrightarrow> y \<in> set ys \<Longrightarrow> \<exists>x \<in> set xs. P x y"
  by (induction rule: list_all2_induct) auto

lemma segments_apart_same: "list_all2 same_segment hs hs' \<Longrightarrow> segments_apart hs \<Longrightarrow> segments_apart hs'"
proof (induction rule: list_all2_induct)
  case (Cons h hs h' hs')
  have "sexp_heap_end h' \<le> heap_data g' \<or> sexp_heap_end g' \<le> heap_data h'" if mem: "g' \<in> set hs'" for g'
  proof -
    obtain g where "g \<in> set hs" "same_segment g g'" using list_all2_member [OF Cons.hyps(2) mem] by blast
    then show ?thesis using Cons.prems Cons.hyps(1) by (auto simp: segments_apart_def same_segment_simps)
  qed
  then show ?case using Cons by (simp add: segments_apart_def)
qed (simp add: segments_apart_def)

subsection \<open>A whole collection\<close>

lemma block_size_mark [simp]: "block_size types (obj\<lparr>sexp_markedp := b\<rparr>) = block_size types obj"
  by (simp add: block_size_def sexp_allocated_bytes_def sexp_type_size_of_object_def split: option.split)

lemma weak_apart_mark [simp]: "weak_apart types (obj\<lparr>sexp_markedp := b\<rparr>) = weak_apart types obj"
  by (simp add: weak_apart_def weak_region_def sexp_type_num_weak_slots_of_object_def)

text \<open>What the code relies on of a finalizer: it leaves the object's size and mark alone.\<close>

definition finalizer_ok :: "sexp_type list \<Rightarrow> (nat \<Rightarrow> heap_object \<Rightarrow> heap_object) \<Rightarrow> bool" where
  "finalizer_ok types fin \<longleftrightarrow>
    (\<forall>a obj. sexp_markedp (fin a obj) = sexp_markedp obj \<and> block_size types (fin a obj) = block_size types obj)"

text \<open>A survivor as the collection leaves it.\<close>

definition survivor :: "sexp_type list \<Rightarrow> bool \<Rightarrow> store \<Rightarrow> heap_object \<Rightarrow> heap_object" where
  "survivor types weak s obj =
    (if weak then reset_object types s (obj\<lparr>sexp_markedp := True\<rparr>) else obj)\<lparr>sexp_markedp := False\<rparr>"

lemma survivor_children:
  "weak_apart types obj \<Longrightarrow> children types (survivor types weak s obj) = children types obj"
  "weak_apart types obj \<Longrightarrow> block_size types (survivor types weak s obj) = block_size types obj"
  "weak_apart types obj \<Longrightarrow> weak_apart types (survivor types weak s obj)"
  "object_tag (survivor types weak s obj) = object_tag obj"
  using reset_object_layout [of types "obj\<lparr>sexp_markedp := True\<rparr>" s] by (simp_all add: survivor_def)

text \<open>The store just before the sweep, and what the sweep makes of it.\<close>

definition before_sweep :: "sexp_type list \<Rightarrow> (nat \<Rightarrow> heap_object \<Rightarrow> heap_object) \<Rightarrow> bool \<Rightarrow> store \<Rightarrow> nat set \<Rightarrow> store" where
  "before_sweep types fin weak s R =
    finalize_all types fin 0 (if weak then reset_all types (with_marks s R) (dom s) else with_marks s R) (dom s)"

lemma before_sweep_at:
  assumes "s a = Some obj"
  shows "a \<in> R \<Longrightarrow> before_sweep types fin weak s R a =
      Some (if weak then reset_object types (with_marks s R) (obj\<lparr>sexp_markedp := True\<rparr>) else obj\<lparr>sexp_markedp := True\<rparr>)"
    and "a \<notin> R \<Longrightarrow> finalizer_ok types fin \<Longrightarrow> weak_apart types obj \<Longrightarrow>
      \<exists>obj'. before_sweep types fin weak s R a = Some obj' \<and> \<not> sexp_markedp obj' \<and> block_size types obj' = block_size types obj"
  using assms reset_object_layout(2) [of types "obj\<lparr>sexp_markedp := False\<rparr>" "with_marks s R"]
  by (auto simp: before_sweep_def finalize_all_def reset_all_def with_marks_def runs_finalizer_def finalizer_ok_def)

lemma before_sweep_dom: "before_sweep types fin weak s R a = None \<longleftrightarrow> s a = None"
  by (auto simp: before_sweep_def finalize_all_def reset_all_def with_marks_def)

lemma swept_survivors:
  assumes "finalizer_ok types fin" "\<forall>obj \<in> ran s. weak_apart types obj" "R \<subseteq> dom s"
  shows "swept (before_sweep types fin weak s R) (dom s) a =
      (if a \<in> R then map_option (survivor types weak (with_marks s R)) (s a) else None)"
    and "marked (before_sweep types fin weak s R) = R"
proof -
  have wa: "s a = Some obj \<Longrightarrow> weak_apart types obj" for a obj using assms(2) by (auto intro: ranI)
  show "swept (before_sweep types fin weak s R) (dom s) a =
      (if a \<in> R then map_option (survivor types weak (with_marks s R)) (s a) else None)"
  proof (cases "s a")
    case None
    then show ?thesis using before_sweep_dom [of types fin weak s R a] by (simp add: swept_def)
  next
    case (Some obj)
    then show ?thesis
      using before_sweep_at(1) [of s a obj, OF Some, of R types fin weak] before_sweep_at(2) [of s a obj, OF Some _ assms(1) wa [OF Some], of R weak]
      by (cases "a \<in> R") (auto simp: swept_def survivor_def domI)
  qed
  have "a \<in> marked (before_sweep types fin weak s R) \<longleftrightarrow> a \<in> R" for a
  proof (cases "s a")
    case None
    then show ?thesis using before_sweep_dom [of types fin weak s R a] assms(3) by (auto simp: marked_def)
  next
    case (Some obj)
    then show ?thesis
      using before_sweep_at(1) [of s a obj, OF Some, of R types fin weak] before_sweep_at(2) [of s a obj, OF Some _ assms(1) wa [OF Some], of R weak]
      by (cases "a \<in> R") (auto simp: marked_def)
  qed
  then show "marked (before_sweep types fin weak s R) = R" by blast
qed

lemma objects_fill_map:
  assumes "objects_fill types s us"
    "\<And>a obj. a \<in> fst ` set us \<Longrightarrow> s a = Some obj \<Longrightarrow> \<exists>obj'. s' a = Some obj' \<and> block_size types obj' = block_size types obj"
  shows "objects_fill types s' us"
  unfolding objects_fill_def
proof (intro ballI, clarify)
  fix a n assume m: "(a, n) \<in> set us"
  then obtain obj where obj: "s a = Some obj" "block_size types obj = n" using assms(1) by (auto simp: objects_fill_def)
  have "a \<in> fst ` set us" using m by force
  then show "\<exists>obj'. s' a = Some obj' \<and> block_size types obj' = n" using assms(2) [OF _ obj(1)] obj(2) by simp
qed

lemma reset_phase:
  assumes "list_all2 heap_layout hs bss" "distinct (map fst (used_list hs bss))" "objects_fill types s (used_list hs bss)"
    "dom s = fst ` set (used_list hs bss)" "\<forall>obj \<in> ran s. weak_apart types obj"
  shows "\<exists>k. sexp_reset_weak_references types weak hs (with_marks s R) =
      Some (if weak then reset_all types (with_marks s R) (dom s) else with_marks s R, k)"
proof -
  have "objects_fill types (with_marks s R) (used_list hs bss)"
    by (rule objects_fill_map [OF assms(3)]) (simp add: with_marks_def)
  moreover have "\<forall>(a, n) \<in> set (used_list hs bss). \<forall>obj. with_marks s R a = Some obj \<longrightarrow> weak_apart types obj"
    using assms(5) by (auto simp: with_marks_def intro: ranI)
  ultimately show ?thesis
    using weak_heaps_spec [OF assms(1,2), of types "with_marks s R" 0] assms(4) by (simp add: sexp_reset_weak_references_def)
qed

lemma finalize_phase:
  assumes "list_all2 heap_layout hs bss" "distinct (map fst (used_list hs bss))" "objects_fill types s (used_list hs bss)"
  shows "\<exists>st. sexp_finalize types fin hs s = Some st \<and> fin_store st = finalize_all types fin 0 s (fst ` set (used_list hs bss))
    \<and> fin_called st = finalized types 0 s (map fst (used_list hs bss))"
  using finalize_heaps_spec [OF assms(1,2), of types "\<lparr>fin_store = s, fin_called = [], fin_count = 0, fin_free_dls = False, fin_aborted = False\<rparr>" fin 0] assms(3)
  by (auto simp: sexp_finalize_def)

lemma memory_layout:
  assumes "memory_ok types m"
  obtains bss where "list_all2 heap_layout (mem_heaps m) bss" "objects_fill types (mem_store m) (used_list (mem_heaps m) bss)"
    "dom (mem_store m) = fst ` set (used_list (mem_heaps m) bss)" "distinct (map fst (used_list (mem_heaps m) bss))"
  using assms used_list_distinct unfolding memory_ok_def heaps_hold_def by blast

lemma gc_spec:
  assumes ok: "memory_ok types m" and root: "heap_pointer ctx \<Longrightarrow> unat ctx \<in> dom (mem_store m)" and fin: "finalizer_ok types fin"
    and R: "R = reachable types (mem_store m) [ctx]"
  obtains m' mx fr where "sexp_gc types fin weak ctx m = Some (m', mx, fr)" "memory_ok types m'"
    "mem_store m' = (\<lambda>a. if a \<in> R then map_option (survivor types weak (with_marks (mem_store m) R)) (mem_store m a) else None)"
    "list_all2 same_segment (mem_heaps m) (mem_heaps m')" "mx = 0 \<or> (\<exists>h \<in> set (mem_heaps m'). fits mx (free_list h))"
proof -
  let ?s = "mem_store m" and ?hs = "mem_heaps m"
  have wf: "wf_store types ?s" "marked ?s = {}" "\<forall>obj \<in> ran ?s. weak_apart types obj" using ok by (simp_all add: memory_ok_def)
  have wa: "?s a = Some obj \<Longrightarrow> weak_apart types obj" for a obj using wf(3) by (auto intro: ranI)
  have Rdom: "R \<subseteq> dom ?s" unfolding R by (rule reachable_dom [OF wf(1)]) (use root in simp)
  obtain bss where lay: "list_all2 heap_layout ?hs bss" "objects_fill types ?s (used_list ?hs bss)"
    "dom ?s = fst ` set (used_list ?hs bss)" "distinct (map fst (used_list ?hs bss))" using memory_layout [OF ok] .
  let ?us = "used_list ?hs bss" and ?s3 = "before_sweep types fin weak ?s R"
  have mark: "sexp_mark types ?s ctx = Some (with_marks ?s R)" unfolding R by (rule mark_reachable [OF wf(1,2) root])
  obtain k where weak: "sexp_reset_weak_references types weak ?hs (with_marks ?s R) =
      Some (if weak then reset_all types (with_marks ?s R) (dom ?s) else with_marks ?s R, k)"
    using reset_phase [OF lay(1,4,2,3) wf(3)] by blast
  have fill2: "objects_fill types (if weak then reset_all types (with_marks ?s R) (dom ?s) else with_marks ?s R) ?us"
    by (rule objects_fill_map [OF lay(2)])
      (use reset_object_layout(2) wa in \<open>auto simp: reset_all_def with_marks_def\<close>)
  obtain st where st: "sexp_finalize types fin ?hs (if weak then reset_all types (with_marks ?s R) (dom ?s) else with_marks ?s R) = Some st"
    "fin_store st = ?s3"
    using finalize_phase [OF lay(1,4) fill2, of fin] lay(3) by (auto simp: before_sweep_def)
  have fill3: "objects_fill types ?s3 ?us"
  proof (rule objects_fill_map [OF lay(2)])
    fix a obj assume a: "?s a = Some obj"
    show "\<exists>obj'. ?s3 a = Some obj' \<and> block_size types obj' = block_size types obj"
      using before_sweep_at(1) [of ?s a obj, OF a, of R types fin weak] before_sweep_at(2) [of ?s a obj, OF a _ fin wa [OF a], of R weak]
        reset_object_layout(2) [of types "obj\<lparr>sexp_markedp := True\<rparr>" "with_marks ?s R"] wa [OF a]
      by (cases "a \<in> R") auto
  qed
  note sv = swept_survivors [OF fin wf(3) Rdom, of weak]
  obtain hs' bss' mx where sw: "sexp_sweep types ?hs ?s3 = Some (hs', swept ?s3 (dom ?s), mx, freed_bytes ?s3 ?us)"
    "list_all2 heap_layout hs' bss'" "list_all2 same_segment ?hs hs'" "used_list hs' bss' = kept ?s3 ?us"
    "mx = 0 \<or> (\<exists>h \<in> set hs'. fits mx (free_list h))"
    using sweep_heaps_spec [OF lay(1,4) fill3, of 0 0] lay(3) by (auto simp: sexp_sweep_def)
  let ?s' = "\<lambda>a. if a \<in> R then map_option (survivor types weak (with_marks ?s R)) (?s a) else None"
  have s': "swept ?s3 (dom ?s) = ?s'" using sv(1) by (intro ext) simp
  have domk: "fst ` set (kept ?s3 ?us) = R" using sv(2) Rdom lay(3) by (force simp: kept_def)
  have dom': "dom ?s' = R" using Rdom by (auto split: if_splits)
  let ?m = "\<lparr>mem_store = ?s', mem_heaps = hs', mem_gc_count = mem_gc_count m + 1\<rparr>"
  have "memory_ok types ?m"
  proof -
    have "objects_fill types ?s' (used_list hs' bss')"
    proof (rule objects_fill_map [of types ?s])
      show "objects_fill types ?s (used_list hs' bss')" using lay(2) sw(4) by (auto simp: objects_fill_def kept_def)
      show "\<exists>obj'. ?s' a = Some obj' \<and> block_size types obj' = block_size types obj"
        if "a \<in> fst ` set (used_list hs' bss')" "?s a = Some obj" for a obj
        using that domk sw(4) survivor_children(2) [OF wa [OF that(2)]] by auto
    qed
    moreover have "wf_store types ?s'"
    proof -
      have "finite R" using wf(1) Rdom finite_subset by (auto simp: wf_store_def)
      moreover have "object_tag obj < length types \<and> targets (children types obj) \<subseteq> R" if "obj \<in> ran ?s'" for obj
      proof -
        obtain a o' where a: "a \<in> R" "?s a = Some o'" "obj = survivor types weak (with_marks ?s R) o'"
          using \<open>obj \<in> ran ?s'\<close> by (auto simp: ran_def split: if_splits)
        have "o' \<in> ran ?s" using a(2) by (rule ranI)
        moreover have "targets (children types o') \<subseteq> R"
          using reachable_closed [of types ?s "[ctx]"] a(1,2) unfolding R edges_def by blast
        ultimately show ?thesis using wf(1) a(3) survivor_children(1) [OF wa [OF a(2)]] survivor_children(4) by (simp add: wf_store_def)
      qed
      ultimately show ?thesis unfolding wf_store_def dom' by blast
    qed
    moreover have "marked ?s' = {}" by (auto simp: marked_def survivor_def split: if_splits)
    moreover have "\<forall>obj \<in> ran ?s'. weak_apart types obj"
      using survivor_children(3) wa by (auto simp: ran_def split: if_splits)
    moreover have "hs' \<noteq> []" using ok sw(3) by (auto simp: memory_ok_def)
    moreover have "segments_apart hs'" using segments_apart_same [OF sw(3)] ok by (simp add: memory_ok_def)
    moreover have "heaps_hold types ?s' hs'"
      unfolding heaps_hold_def
      by (rule exI [of _ bss']) (use calculation(1) sw(2,4) dom' domk in simp)
    ultimately show ?thesis unfolding memory_ok_def by simp
  qed
  moreover have "sexp_gc types fin weak ctx m = Some (?m, mx, freed_bytes ?s3 ?us)"
    using mark weak st sw(1) s' by (simp add: sexp_gc_def)
  ultimately show ?thesis using that [of ?m mx] sw(3,5) by simp
qed

text \<open>
  C3.  A collection is safe and complete: from a memory that satisfies the invariant it returns a
  memory that satisfies it again, whose objects are exactly those reachable from the context, with
  their tags, roots and strong slots unchanged.
\<close>

theorem gc_exact:
  assumes "memory_ok types m" and "heap_pointer ctx \<Longrightarrow> unat ctx \<in> dom (mem_store m)" and "finalizer_ok types fin"
  shows "\<exists>m' max_freed sum_freed. sexp_gc types fin weak ctx m = Some (m', max_freed, sum_freed) \<and> memory_ok types m'
    \<and> dom (mem_store m') = reachable types (mem_store m) [ctx]
    \<and> (\<forall>a obj'. mem_store m' a = Some obj' \<longrightarrow>
        (\<exists>obj. mem_store m a = Some obj \<and> object_tag obj' = object_tag obj \<and> children types obj' = children types obj))"
proof -
  let ?R = "reachable types (mem_store m) [ctx]"
  obtain m' mx fr where g: "sexp_gc types fin weak ctx m = Some (m', mx, fr)" "memory_ok types m'"
    "mem_store m' = (\<lambda>a. if a \<in> ?R then map_option (survivor types weak (with_marks (mem_store m) ?R)) (mem_store m a) else None)"
    using gc_spec [OF assms refl, of weak] by blast
  have wf: "wf_store types (mem_store m)" "\<forall>obj \<in> ran (mem_store m). weak_apart types obj"
    using assms(1) by (simp_all add: memory_ok_def)
  have "?R \<subseteq> dom (mem_store m)" by (rule reachable_dom [OF wf(1)]) (use assms(2) in simp)
  then have "dom (mem_store m') = ?R" unfolding g(3) by (auto split: if_splits)
  moreover have "\<exists>obj. mem_store m a = Some obj \<and> object_tag obj' = object_tag obj \<and> children types obj' = children types obj"
    if new: "mem_store m' a = Some obj'" for a obj'
  proof -
    obtain o0 where o0: "mem_store m a = Some o0" "obj' = survivor types weak (with_marks (mem_store m) ?R) o0"
      using new unfolding g(3) by (auto split: if_splits)
    have "weak_apart types o0" using wf(2) ranI [of "mem_store m" a o0, OF o0(1)] by blast
    then show ?thesis using o0 survivor_children(1,4) by blast
  qed
  ultimately show ?thesis using g(1,2) by auto
qed

lemma pair_weak_apart: "weak_apart [pair_type] (pair_object a d)"
  by (simp add: weak_apart_def type_of_object_def pair_object_def pair_type_def)

lemma pair_block: "block_size [pair_type] (pair_object a d) = 32"
  by (simp add: block_size_def sexp_allocated_bytes_def type_of_object_def pair_object_def pair_type_def
      sexp_type_size_of_object_def sexp_heap_align_def)

text \<open>One segment from 0 to 224 with its chunk header, a free block, three pairs and a free block.\<close>

definition pair_memory :: memory where
  "pair_memory = \<lparr>mem_store = pair_store,
    mem_heaps = [\<lparr>heap_size = 256, heap_max_size = 0, heap_chunk_size = 0, heap_data = 0, free_list = [(32, 32), (96, 32), (160, 32), (224, 32)]\<rparr>],
    mem_gc_count = 0\<rparr>"

lemma pair_memory_ok: "memory_ok [pair_type] pair_memory"
proof -
  let ?h = "\<lparr>heap_size = 256, heap_max_size = 0, heap_chunk_size = 0, heap_data = 0, free_list = [(32, 32), (96, 32), (160, 32), (224, 32)]\<rparr>"
  let ?bs = "[Free 32, Used 32, Free 32, Used 32, Free 32, Used 32, Free 32]"
  have lay: "heap_layout ?h ?bs"
    by (simp add: heap_layout_def sexp_heap_first_block_def sexp_heap_end_def free_chunk_def)
  have us: "used_list [?h] [?bs] = [(64, 32), (128, 32), (192, 32)]"
    by (simp add: heap_used_def sexp_heap_first_block_def free_chunk_def)
  have "heaps_hold [pair_type] pair_store [?h]"
    unfolding heaps_hold_def
    by (rule exI [of _ "[?bs]"]) (use lay us in \<open>auto simp: objects_fill_def pair_store_def pair_block\<close>)
  moreover have "\<forall>obj \<in> ran pair_store. weak_apart [pair_type] obj"
    by (auto simp: ran_def pair_store_def pair_weak_apart)
  ultimately show ?thesis
    using pair_store_wf pair_store_marked by (simp add: memory_ok_def pair_memory_def segments_apart_def)
qed

lemma pair_root: "heap_pointer 64 \<Longrightarrow> unat (64 :: u64) \<in> dom (mem_store pair_memory)"
  by (simp add: pair_memory_def pair_store_def)

lemma id_finalizer: "finalizer_ok types (\<lambda>_ obj. obj)"
  by (simp add: finalizer_ok_def)

theorem gc_exact_witness:
  "\<exists>m' max_freed sum_freed. sexp_gc [pair_type] (\<lambda>_ obj. obj) True 64 pair_memory = Some (m', max_freed, sum_freed)
    \<and> dom (mem_store m') = reachable [pair_type] pair_store [64]"
  using gc_exact [OF pair_memory_ok pair_root id_finalizer, of True] by (auto simp: pair_memory_def)

text \<open>
  C26.  Weak references do not dangle: after a collection that resets weak references, every weak
  slot of a surviving object is an immediate or refers to a surviving object.
\<close>

theorem weak_slots_valid:
  assumes "memory_ok types m" and "heap_pointer ctx \<Longrightarrow> unat ctx \<in> dom (mem_store m)" and "finalizer_ok types fin"
    and "sexp_gc types fin True ctx m = Some (m', max_freed, sum_freed)"
    and "mem_store m' a = Some obj" and "type_of_object types obj = Some t" and "0 < sexp_type_weak_base t"
    and "i < unat (sexp_type_num_weak_slots_of_object t obj)"
    and "heap_pointer (object_body obj (sexp_type_weak_base t + 8 * i))"
  shows "unat (object_body obj (sexp_type_weak_base t + 8 * i)) \<in> dom (mem_store m')"
proof -
  let ?s = "mem_store m" and ?R = "reachable types (mem_store m) [ctx]"
  have st: "mem_store m' = (\<lambda>a. if a \<in> ?R then map_option (survivor types True (with_marks ?s ?R)) (?s a) else None)"
    using gc_spec [OF assms(1-3) refl, of True] assms(4) by (metis (no_types, lifting) option.inject prod.inject)
  obtain o0 where o0: "a \<in> ?R" "?s a = Some o0" "obj = survivor types True (with_marks ?s ?R) o0"
    using assms(5) unfolding st by (auto split: if_splits)
  let ?o1 = "o0\<lparr>sexp_markedp := True\<rparr>"
  have wa: "weak_apart types o0" using assms(1) o0(2) by (auto simp: memory_ok_def intro: ranI)
  have t: "type_of_object types ?o1 = Some t" using assms(6) unfolding o0(3) type_of_object_def survivor_children(4) by (simp split: if_splits)
  have "sexp_type_num_weak_slots_of_object t obj = sexp_type_num_weak_slots_of_object t ?o1"
    using reset_object_outside [OF t, of _ "with_marks ?s ?R"] wa t assms(7) o0(3)
    by (cases "sexp_type_weak_len_scale t = 0")
      (auto simp: weak_apart_def survivor_def sexp_type_num_weak_slots_of_object_def weak_region_def)
  then have "\<not> dead_slot (with_marks ?s ?R) (object_body obj (sexp_type_weak_base t + 8 * i))"
    using reset_object_weak [OF t _ assms(7), of i "with_marks ?s ?R"] assms(8) o0(3) by (simp add: survivor_def)
  then have "unat (object_body obj (sexp_type_weak_base t + 8 * i)) \<in> ?R \<inter> dom ?s"
    using assms(9) by (auto simp: dead_slot_def slot_done_targets)
  then show ?thesis unfolding st by (auto split: if_splits)
qed

text \<open>
  C37.  Ephemerons: when the key of an ephemeron survives a collection and its value is only
  reachable through the ephemeron, the value is freed while the ephemeron still refers to it.
\<close>

definition ephemeron_type :: sexp_type where
  "ephemeron_type = \<lparr>sexp_type_field_base = 8, sexp_type_field_len_base = 0, sexp_type_field_len_off = 0,
    sexp_type_field_len_scale = 0, sexp_type_size_base = 24, sexp_type_size_off = 0, sexp_type_size_scale = 0,
    sexp_type_weak_base = 8, sexp_type_weak_len_base = 1, sexp_type_weak_len_off = 0, sexp_type_weak_len_scale = 0,
    sexp_type_weak_len_extra = 1, sexp_type_finalize = False\<rparr>"

theorem ephemeron_value_dangles:
  assumes "memory_ok types m" and "heap_pointer ctx \<Longrightarrow> unat ctx \<in> dom (mem_store m)" and "finalizer_ok types fin"
    and "mem_store m a = Some obj" and "type_of_object types obj = Some ephemeron_type"
    and "a \<in> reachable types (mem_store m) [ctx]"
    and "heap_pointer (object_body obj 8)" and "unat (object_body obj 8) \<in> reachable types (mem_store m) [ctx]"
    and "unat (object_body obj 16) \<notin> reachable types (mem_store m) [ctx]"
  shows "\<exists>m' max_freed sum_freed obj'. sexp_gc types fin True ctx m = Some (m', max_freed, sum_freed)
    \<and> mem_store m' a = Some obj' \<and> object_body obj' 16 = object_body obj 16
    \<and> mem_store m' (unat (object_body obj 16)) = None"
proof -
  let ?s = "mem_store m" and ?R = "reachable types (mem_store m) [ctx]"
  obtain m' mx fr where g: "sexp_gc types fin True ctx m = Some (m', mx, fr)"
    "mem_store m' = (\<lambda>a. if a \<in> ?R then map_option (survivor types True (with_marks ?s ?R)) (?s a) else None)"
    using gc_spec [OF assms(1-3) refl, of True] by blast
  have "?R \<subseteq> dom ?s" using assms(1,2) by (intro reachable_dom) (simp_all add: memory_ok_def)
  then have "slot_done (with_marks ?s ?R) (object_body obj 8)" using assms(7,8) by (auto simp: slot_done_targets)
  then have f: "fold (reset_slot (with_marks ?s ?R) 8) [0] (object_body obj, br, True) = (object_body obj, br, False)" for br
    by (simp add: reset_slot_def)
  have t: "sexp_type_weak_base ephemeron_type = 8" "sexp_type_num_weak_slots_of_object ephemeron_type o1 = 1" for o1
    by (simp_all add: ephemeron_type_def sexp_type_num_weak_slots_of_object_def)
  have "object_body (survivor types True (with_marks ?s ?R) obj) 16 = object_body obj 16"
    using assms(5) f by (simp add: survivor_def reset_weak_object_def Let_def t)
  then show ?thesis using g assms(4,6,9) by simp
qed

text \<open>
  A memory with an ephemeron: the root pair at 64 holds the ephemeron at 128 and its key, the pair
  at 192; the value, the pair at 256, is reachable through the ephemeron only.
\<close>

definition ephemeron_object :: "u64 \<Rightarrow> u64 \<Rightarrow> heap_object" where
  "ephemeron_object k v = (pair_object k v)\<lparr>object_tag := 1\<rparr>"

definition ephemeron_store :: store where
  "ephemeron_store = [64 \<mapsto> pair_object 128 192, 128 \<mapsto> ephemeron_object 192 256, 192 \<mapsto> pair_object 1 1, 256 \<mapsto> pair_object 1 1]"

definition ephemeron_memory :: memory where
  "ephemeron_memory = \<lparr>mem_store = ephemeron_store,
    mem_heaps = [\<lparr>heap_size = 288, heap_max_size = 0, heap_chunk_size = 0, heap_data = 0,
      free_list = [(32, 32), (96, 32), (160, 32), (224, 32)]\<rparr>], mem_gc_count = 0\<rparr>"

abbreviation "ephemeron_types \<equiv> [pair_type, ephemeron_type]"

lemma ephemeron_slots:
  "children ephemeron_types (pair_object a d) = [a, d, 0]" "children ephemeron_types (ephemeron_object k v) = []"
  by (simp_all add: children_def strong_slots_def type_of_object_def pair_object_def ephemeron_object_def pair_type_def ephemeron_type_def
      sexp_contextp_def SEXP_CONTEXT_def sexp_type_num_slots_of_object_def object_slot_def upt_rec)

lemma example_pointers [simp]:
  "heap_pointer 64" "heap_pointer 128" "heap_pointer 192" "heap_pointer 256" "\<not> heap_pointer 1" "\<not> heap_pointer 0"
  by (simp_all add: heap_pointer_def sexp_pointerp_w_def)

lemma ephemeron_memory_ok: "memory_ok ephemeron_types ephemeron_memory"
proof -
  let ?h = "\<lparr>heap_size = 288, heap_max_size = 0, heap_chunk_size = 0, heap_data = 0,
      free_list = [(32, 32), (96, 32), (160, 32), (224, 32)]\<rparr>"
  let ?bs = "[Free 32, Used 32, Free 32, Used 32, Free 32, Used 32, Free 32, Used 32]"
  have h: "mem_heaps ephemeron_memory = [?h]" by (simp add: ephemeron_memory_def)
  have lay: "heap_layout ?h ?bs"
    by (simp add: heap_layout_def sexp_heap_first_block_def sexp_heap_end_def free_chunk_def ephemeron_memory_def)
  have us: "used_list [?h] [?bs] = [(64, 32), (128, 32), (192, 32), (256, 32)]"
    by (simp add: heap_used_def sexp_heap_first_block_def free_chunk_def ephemeron_memory_def)
  have sz: "block_size ephemeron_types (pair_object a d) = 32" "block_size ephemeron_types (ephemeron_object a d) = 32" for a d
    by (simp_all add: block_size_def sexp_allocated_bytes_def type_of_object_def pair_object_def ephemeron_object_def pair_type_def
        ephemeron_type_def sexp_type_size_of_object_def sexp_heap_align_def)
  have wa: "weak_apart ephemeron_types (pair_object a d)" "weak_apart ephemeron_types (ephemeron_object a d)" for a d
    by (auto simp: weak_apart_def type_of_object_def pair_object_def ephemeron_object_def pair_type_def ephemeron_type_def
        sexp_type_num_slots_of_object_def)
  have tags: "object_tag (pair_object a d) = 0" "object_tag (ephemeron_object a d) = 1" "\<not> sexp_markedp (pair_object a d)"
    "\<not> sexp_markedp (ephemeron_object a d)" for a d by (simp_all add: pair_object_def ephemeron_object_def)
  have s: "mem_store ephemeron_memory = ephemeron_store" by (simp add: ephemeron_memory_def)
  have hold: "heaps_hold ephemeron_types ephemeron_store [?h]"
    unfolding heaps_hold_def by (rule exI [of _ "[?bs]"]) (use lay us in \<open>auto simp: objects_fill_def ephemeron_store_def sz\<close>)
  have rn: "ran ephemeron_store = {pair_object 128 192, ephemeron_object 192 256, pair_object 1 1}"
    by (auto simp: ephemeron_store_def ran_map_upd)
  have "finite (dom ephemeron_store)" by (simp add: ephemeron_store_def)
  moreover have "{128, 192} \<subseteq> dom ephemeron_store" by (simp add: ephemeron_store_def)
  ultimately have "wf_store ephemeron_types ephemeron_store" by (simp add: wf_store_def rn ephemeron_slots tags)
  moreover have "marked ephemeron_store = {}" 
    using tags by (auto simp: marked_def ephemeron_store_def split: if_splits)
  ultimately show ?thesis using hold wa by (simp add: memory_ok_def s h rn segments_apart_def)
qed

lemma ephemeron_reachable: "reachable ephemeron_types ephemeron_store [64] = {64, 128, 192}"
proof
  have e: "edges ephemeron_types ephemeron_store `` {64, 128, 192} \<subseteq> {64, 128, 192}"
    by (auto simp: edges_def ephemeron_store_def ephemeron_slots split: if_splits)
  show "reachable ephemeron_types ephemeron_store [64] \<subseteq> {64, 128, 192}"
    by (rule reachable_least [OF _ e]) simp
  have "(64, 128) \<in> edges ephemeron_types ephemeron_store" "(64, 192) \<in> edges ephemeron_types ephemeron_store"
    by (simp_all add: edges_def ephemeron_store_def ephemeron_slots)
  then show "{64, 128, 192} \<subseteq> reachable ephemeron_types ephemeron_store [64]" by (auto simp: reachable_def)
qed

lemma ephemeron_facts:
  "heap_pointer 64 \<Longrightarrow> unat (64 :: u64) \<in> dom (mem_store ephemeron_memory)"
  "mem_store ephemeron_memory 128 = Some (ephemeron_object 192 256)"
  "type_of_object ephemeron_types (ephemeron_object 192 256) = Some ephemeron_type"
  "object_body (ephemeron_object k v) 8 = k" "object_body (ephemeron_object k v) 16 = v"
  "mem_store ephemeron_memory = ephemeron_store"
  by (simp_all add: ephemeron_memory_def ephemeron_store_def type_of_object_def ephemeron_object_def pair_object_def)

theorem ephemeron_value_dangles_witness:
  "\<exists>m' max_freed sum_freed obj'. sexp_gc ephemeron_types (\<lambda>_ obj. obj) True 64 ephemeron_memory = Some (m', max_freed, sum_freed)
    \<and> mem_store m' 128 = Some obj' \<and> object_body obj' 16 = 256 \<and> mem_store m' 256 = None"
  using ephemeron_value_dangles [OF ephemeron_memory_ok ephemeron_facts(1) id_finalizer ephemeron_facts(2,3)]
  by (simp add: ephemeron_facts(4-6) ephemeron_reachable)

theorem weak_slots_valid_witness:
  "\<exists>m' max_freed sum_freed obj'. sexp_gc ephemeron_types (\<lambda>_ obj. obj) True 64 ephemeron_memory = Some (m', max_freed, sum_freed)
    \<and> mem_store m' 128 = Some obj' \<and> object_body obj' 8 = 192 \<and> 192 \<in> dom (mem_store m')"
proof -
  let ?R = "reachable ephemeron_types ephemeron_store [64]" and ?o = "ephemeron_object 192 256"
  obtain m' mx fr where g: "sexp_gc ephemeron_types (\<lambda>_ obj. obj) True 64 ephemeron_memory = Some (m', mx, fr)"
    "mem_store m' = (\<lambda>a. if a \<in> ?R then map_option (survivor ephemeron_types True (with_marks ephemeron_store ?R)) (ephemeron_store a) else None)"
    using gc_spec [OF ephemeron_memory_ok ephemeron_facts(1) id_finalizer refl, of True] unfolding ephemeron_facts(6) by blast
  let ?o' = "survivor ephemeron_types True (with_marks ephemeron_store ?R) ?o"
  have o': "mem_store m' 128 = Some ?o'" using g(2) ephemeron_facts(2,6) by (simp add: ephemeron_reachable)
  have ty: "type_of_object ephemeron_types ?o' = Some ephemeron_type"
    using ephemeron_facts(3) by (simp add: type_of_object_def survivor_children(4) split: if_splits)
  have "slot_done (with_marks ephemeron_store ?R) 192" by (simp add: slot_done_targets ephemeron_reachable) (simp add: ephemeron_store_def)
  then have f: "fold (reset_slot (with_marks ephemeron_store ?R) 8) [0] (object_body ?o, br, True) = (object_body ?o, br, False)" for br
    by (simp add: reset_slot_def ephemeron_facts(4))
  have t: "sexp_type_weak_base ephemeron_type = 8" "sexp_type_num_weak_slots_of_object ephemeron_type o1 = 1" for o1
    by (simp_all add: ephemeron_type_def sexp_type_num_weak_slots_of_object_def)
  have b: "object_body ?o' 8 = 192"
    using ephemeron_facts(3) f by (simp add: survivor_def reset_weak_object_def Let_def t ephemeron_facts(4))
  show ?thesis
    using weak_slots_valid [OF ephemeron_memory_ok ephemeron_facts(1) id_finalizer g(1) o' ty, of 0] g(1) o' b by (simp add: t)
qed

text \<open>
  Dynamic libraries are never finalized: the finalizing phase returns, and no object for which
  it called a finalizer is a dynamic library, because the pass reserved for them walks no heap.
\<close>

lemma finalize_skips_dl:
  assumes "memory_ok types m"
  shows "\<exists>st. sexp_finalize types fin (mem_heaps m) (mem_store m) = Some st
    \<and> (\<forall>a obj. a \<in> set (fin_called st) \<longrightarrow> mem_store m a = Some obj \<longrightarrow> object_tag obj \<noteq> SEXP_DL)"
proof -
  obtain bss where lay: "list_all2 heap_layout (mem_heaps m) bss" "objects_fill types (mem_store m) (used_list (mem_heaps m) bss)"
    "dom (mem_store m) = fst ` set (used_list (mem_heaps m) bss)" "distinct (map fst (used_list (mem_heaps m) bss))"
    using memory_layout [OF assms(1)] .
  then obtain st where "sexp_finalize types fin (mem_heaps m) (mem_store m) = Some st"
    "fin_called st = finalized types 0 (mem_store m) (map fst (used_list (mem_heaps m) bss))"
    using finalize_phase [OF lay(1,4,2), of fin] by blast
  then show ?thesis by (auto simp: finalized_def runs_finalizer_def)
qed

lemma finalize_skips_dl_example:
  "\<exists>st. sexp_finalize [pair_type] (\<lambda>_ obj. obj) (mem_heaps pair_memory) pair_store = Some st"
  using finalize_skips_dl [OF pair_memory_ok, of "\<lambda>_ obj. obj"] by (auto simp: pair_memory_def)

end
