(* ===== verification/Alloc.thy ===== *)
theory Alloc
  imports Gc
begin

text \<open>
  Allocation: \<open>sexp_alloc\<close> with its retry after a collection and after growing the heap.  The
  contract is that the new block overlaps no object, that reachable objects are kept, and that the
  block can be initialised with any object of its size without breaking the memory invariant.
\<close>

subsection \<open>First fit over the segments\<close>

lemma try_alloc_spec:
  assumes "list_all2 heap_layout hs bss" "0 < sz" "32 dvd sz" "sexp_try_alloc hs sz = Some (a, hs')"
  shows "\<exists>bss'. list_all2 heap_layout hs' bss' \<and> list_all2 same_segment hs hs' \<and> 32 dvd a
    \<and> set (used_list hs' bss') = insert (a, sz) (set (used_list hs bss))
    \<and> length (used_list hs' bss') = Suc (length (used_list hs bss))"
  using assms
proof (induction hs bss arbitrary: hs' rule: list_all2_induct)
  case (Cons h hs bs bss)
  have refl: "list_all2 same_segment gs gs" for gs by (rule list.rel_refl) simp
  show ?case
  proof (cases "take_chunk sz (free_list h)")
    case None
    then obtain gs where gs: "sexp_try_alloc hs sz = Some (a, gs)" "hs' = h # gs" using Cons.prems(3) by auto
    then obtain bss' where "list_all2 heap_layout gs bss' \<and> list_all2 same_segment hs gs \<and> 32 dvd a
      \<and> set (used_list gs bss') = insert (a, sz) (set (used_list hs bss)) \<and> length (used_list gs bss') = Suc (length (used_list hs bss))"
      using Cons.IH [OF Cons.prems(1,2) gs(1)] by blast
    then show ?thesis using gs(2) Cons.hyps(1) by (intro exI [of _ "bs # bss'"]) auto
  next
    case (Some r)
    then obtain ls where ls: "take_chunk sz (free_list h) = Some (a, ls)" "hs' = h\<lparr>free_list := ls\<rparr> # hs"
      using Cons.prems(3) by (cases r) auto
    obtain bs' where bs': "heap_layout (h\<lparr>free_list := ls\<rparr>) bs'" "32 dvd a"
      "set (heap_used (h\<lparr>free_list := ls\<rparr>) bs') = insert (a, sz) (set (heap_used h bs))"
      "\<forall>(b, m) \<in> set (heap_used h bs). a + sz \<le> b \<or> b + m \<le> a"
      using take_chunk_heap [OF Cons.hyps(1) Cons.prems(1,2) ls(1)] by blast
    have "(a, sz) \<notin> set (heap_used h bs)" using bs'(4) Cons.prems(1) by auto
    moreover have "distinct (heap_used g cs)" if "heap_layout g cs" for g cs
      using that used_blocks_distinct [of cs] unfolding heap_layout_def heap_used_def by (metis distinct_map)
    ultimately have "length (heap_used (h\<lparr>free_list := ls\<rparr>) bs') = Suc (length (heap_used h bs))"
      using bs'(1,3) Cons.hyps(1) by (metis card_insert_disjoint distinct_card finite_set)
    then show ?thesis
      using bs' ls(2) Cons.hyps(2) refl by (intro exI [of _ "bs' # bss"]) auto
  qed
qed simp

lemma fits_mono: "fits m fs \<Longrightarrow> n \<le> m \<Longrightarrow> fits n fs"
  unfolding fits_def by (metis (no_types, lifting) case_prod_beta order_trans)

lemma try_alloc_None: "sexp_try_alloc hs sz = None \<longleftrightarrow> (\<forall>h \<in> set hs. \<not> fits sz (free_list h))"
proof (induction hs)
  case (Cons h hs)
  have "take_chunk sz (free_list h) = None \<longleftrightarrow> \<not> fits sz (free_list h)"
    unfolding take_chunk_None fits_def by fastforce
  then show ?case using Cons by (auto split: option.split)
qed simp

subsection \<open>The new block\<close>

text \<open>An object that may be stored in a block reserved at \<open>a\<close>.\<close>

definition object_fits :: "sexp_type list \<Rightarrow> store \<Rightarrow> nat \<Rightarrow> nat \<Rightarrow> heap_object \<Rightarrow> bool" where
  "object_fits types s a sz obj \<longleftrightarrow>
    block_size types obj = sz \<and> object_tag obj < length types \<and> \<not> sexp_markedp obj \<and> weak_apart types obj
    \<and> targets (children types obj) \<subseteq> insert a (dom s)"

definition block_reserved :: "sexp_type list \<Rightarrow> memory \<Rightarrow> nat \<Rightarrow> nat \<Rightarrow> bool" where
  "block_reserved types m a sz \<longleftrightarrow>
    a \<notin> dom (mem_store m) \<and> 32 dvd a
    \<and> (\<forall>b obj. mem_store m b = Some obj \<longrightarrow> a + sz \<le> b \<or> b + block_size types obj \<le> a)
    \<and> (\<forall>obj. object_fits types (mem_store m) a sz obj \<longrightarrow> memory_ok types (m\<lparr>mem_store := (mem_store m)(a \<mapsto> obj)\<rparr>))"

lemma wf_store_update:
  assumes "wf_store types s" "object_tag obj < length types" "targets (children types obj) \<subseteq> insert a (dom s)"
  shows "wf_store types (s(a \<mapsto> obj))"
proof -
  have "object_tag o' < length types \<and> targets (children types o') \<subseteq> insert a (dom s)" if "o' \<in> ran (s(a \<mapsto> obj))" for o'
    using that assms by (auto simp: ran_def wf_store_def split: if_splits)
  then show ?thesis using assms(1) by (auto simp: wf_store_def)
qed

lemma try_alloc_reserves:
  assumes ok: "memory_ok types m" and sz: "0 < sz" "32 dvd sz" and alloc: "sexp_try_alloc (mem_heaps m) sz = Some (a, hs')"
  shows "block_reserved types (m\<lparr>mem_heaps := hs'\<rparr>) a sz"
proof -
  let ?s = "mem_store m" and ?hs = "mem_heaps m"
  obtain bss where lay: "list_all2 heap_layout ?hs bss" "objects_fill types ?s (used_list ?hs bss)"
    "dom ?s = fst ` set (used_list ?hs bss)" "distinct (map fst (used_list ?hs bss))" using memory_layout [OF ok] .
  obtain bss' where l': "list_all2 heap_layout hs' bss'" "list_all2 same_segment ?hs hs'" "32 dvd a"
    "set (used_list hs' bss') = insert (a, sz) (set (used_list ?hs bss))"
    "length (used_list hs' bss') = Suc (length (used_list ?hs bss))"
    using try_alloc_spec [OF lay(1) sz alloc] by blast
  have seg: "segments_apart hs'" using segments_apart_same [OF l'(2)] ok by (simp add: memory_ok_def)
  note dist = used_list_distinct [OF l'(1) seg]
  have "(a, sz) \<notin> set (used_list ?hs bss)"
  proof
    assume "(a, sz) \<in> set (used_list ?hs bss)"
    then have "card (set (used_list hs' bss')) = length (used_list ?hs bss)"
      using l'(4) lay(4) by (simp add: insert_absorb distinct_card distinct_map)
    then show False using l'(5) dist by (simp add: distinct_card distinct_map)
  qed
  then have new: "a \<noteq> b" if "(b, k) \<in> set (used_list ?hs bss)" for b k
    using that dist l'(4) unfolding distinct_map inj_on_def by force
  then have adom: "a \<notin> dom ?s" using lay(3) by force
  have dis: "a + sz \<le> b \<or> b + block_size types obj \<le> a" if at: "?s b = Some obj" for b obj
  proof -
    have "b \<in> fst ` set (used_list ?hs bss)" using at lay(3) by auto
    then obtain k where k: "(b, k) \<in> set (used_list ?hs bss)" by force
    then have "block_size types obj = k" using lay(2) at by (auto simp: objects_fill_def)
    then show ?thesis using used_list_disjoint [OF l'(1) seg, of a sz b k] new [OF k] k l'(4) by auto
  qed
  have init: "memory_ok types (m\<lparr>mem_heaps := hs', mem_store := ?s(a \<mapsto> obj)\<rparr>)" if fits: "object_fits types ?s a sz obj" for obj
  proof -
    have "objects_fill types (?s(a \<mapsto> obj)) (used_list hs' bss')"
      unfolding objects_fill_def l'(4)
    proof (rule ballI, clarify)
      fix b k
      assume "(b, k) \<in> insert (a, sz) (set (used_list ?hs bss))"
      then consider "b = a" "k = sz" | "(b, k) \<in> set (used_list ?hs bss)" by blast
      then show "\<exists>o'. (?s(a \<mapsto> obj)) b = Some o' \<and> block_size types o' = k"
      proof cases
        case 1
        then show ?thesis using fits by (simp add: object_fits_def)
      next
        case 2
        then show ?thesis using new [OF 2] lay(2) by (auto simp: objects_fill_def)
      qed
    qed
    moreover have "dom (?s(a \<mapsto> obj)) = fst ` set (used_list hs' bss')" using lay(3) l'(4) by simp
    ultimately have "heaps_hold types (?s(a \<mapsto> obj)) hs'" using l'(1) by (auto simp: heaps_hold_def)
    moreover have "wf_store types (?s(a \<mapsto> obj))"
      using ok fits by (intro wf_store_update) (simp_all add: memory_ok_def object_fits_def)
    moreover have "marked (?s(a \<mapsto> obj)) = {}"
      using ok fits by (auto simp: memory_ok_def object_fits_def marked_def)
    moreover have "\<forall>o' \<in> ran (?s(a \<mapsto> obj)). weak_apart types o'"
      using ok fits by (auto simp: memory_ok_def object_fits_def ran_def split: if_splits)
    moreover have "hs' \<noteq> []" using ok l'(2) by (auto simp: memory_ok_def)
    ultimately show ?thesis using seg by (simp add: memory_ok_def)
  qed
  show ?thesis using adom l'(3) dis init by (auto simp: block_reserved_def)
qed

subsection \<open>Growing the heap\<close>

text \<open>
  What the code relies on of \<open>malloc\<close>: the block lies in the address space and overlaps no
  segment of the heap.
\<close>

definition malloc_ok :: "(nat \<Rightarrow> nat option) \<Rightarrow> sexp_heap list \<Rightarrow> bool" where
  "malloc_ok malloc hs \<longleftrightarrow>
    (\<forall>n h. malloc n = Some h \<longrightarrow> h + n < 2 ^ 64 \<and> (\<forall>g \<in> set hs. h + n \<le> heap_data g \<or> sexp_heap_end g \<le> h))"

lemma make_heap_spec:
  assumes "malloc_ok malloc hs" "64 \<le> n" "32 dvd n" "sexp_make_heap malloc n mx c = Some h"
  shows "heap_layout h [Free (n - 32)]" "\<forall>g \<in> set hs. sexp_heap_end h \<le> heap_data g \<or> sexp_heap_end g \<le> heap_data h"
    "free_list h = [(sexp_heap_first_block h, n - 32)]"
proof -
  obtain a where a: "malloc (sexp_heap_pad_size n) = Some a"
    "h = \<lparr>heap_size = n, heap_max_size = mx, heap_chunk_size = c, heap_data = unat (sexp_heap_align (8 + (of_nat a + 40))),
      free_list = [(unat (sexp_heap_align (8 + (of_nat a + 40))) + free_chunk, n - free_chunk)]\<rparr>"
    using assms(4) by (auto simp: sexp_make_heap_def Let_def split: bind_splits)
  have bound: "a + (48 + n + 32) < 2 ^ 64" "\<forall>g \<in> set hs. a + (48 + n + 32) \<le> heap_data g \<or> sexp_heap_end g \<le> a"
    using assms(1) a(1) by (auto simp: malloc_ok_def sexp_heap_pad_size_def)
  define d where "d = heap_data h"
  have "unat (8 + (of_nat a + 40) :: u64) = a + 48"
  proof -
    have "8 + (of_nat a + 40) = (of_nat (a + 48) :: u64)" by simp
    then show ?thesis using bound(1) by (simp only: unsigned_of_nat take_bit_eq_mod) simp
  qed
  then have d: "d = (a + 79) div 32 * 32" using unat_heap_align [of "8 + (of_nat a + 40)"] bound(1) a(2) by (simp add: d_def)
  have "32 dvd d" "a \<le> d" "d + n \<le> a + (48 + n + 32)" unfolding d by simp_all
  moreover have "sexp_heap_first_block h = d + 32" "sexp_heap_end h = d + n" "free_list h = [(d + 32, n - 32)]"
    using a(2) by (simp_all add: sexp_heap_first_block_def sexp_heap_end_def free_chunk_def d_def)
  ultimately show "heap_layout h [Free (n - 32)]" "\<forall>g \<in> set hs. sexp_heap_end h \<le> heap_data g \<or> sexp_heap_end g \<le> heap_data h"
    "free_list h = [(sexp_heap_first_block h, n - 32)]"
    using bound(2) assms(2,3) d_def by (auto simp: heap_layout_def dvd_diff_nat)
qed

lemma make_heap_None: "sexp_make_heap malloc n mx c = None \<longleftrightarrow> malloc (sexp_heap_pad_size n) = None"
  by (auto simp: sexp_make_heap_def Let_def split: bind_splits)

lemma align_range:
  assumes "0 < n" "n \<le> 2 ^ 57"
  shows "n \<le> unat (sexp_heap_align (of_nat n))" "32 dvd unat (sexp_heap_align (of_nat n))" "32 \<le> unat (sexp_heap_align (of_nat n))"
    "unat (sexp_heap_align (of_nat n)) \<le> 2 ^ 57"
proof -
  have "unat (of_nat n :: u64) = n" using assms(2) by (simp add: unsigned_of_nat take_bit_nat_eq_self)
  then have "unat (sexp_heap_align (of_nat n)) = (n + 31) div 32 * 32" using unat_heap_align [of "of_nat n"] assms(2) by simp
  then show "n \<le> unat (sexp_heap_align (of_nat n))" "32 dvd unat (sexp_heap_align (of_nat n))" "32 \<le> unat (sexp_heap_align (of_nat n))"
    "unat (sexp_heap_align (of_nat n)) \<le> 2 ^ 57"
    using assms by simp_all
qed

definition small_heaps :: "sexp_heap list \<Rightarrow> bool" where
  "small_heaps hs \<longleftrightarrow> (\<forall>h \<in> set hs. heap_size h \<le> 2 ^ 57)"

lemma used_list_snoc:
  "length hs = length bss \<Longrightarrow> used_list (hs @ [h]) (bss @ [bs]) = used_list hs bss @ heap_used h bs"
  by (simp add: used_list_def)

lemma grow_heap_spec:
  assumes ok: "memory_ok types m" and mal: "malloc_ok malloc (mem_heaps m)" and small: "small_heaps (mem_heaps m)"
    and sz: "0 < sz" "sz \<le> 2 ^ 57"
  shows "memory_ok types (m\<lparr>mem_heaps := fst (sexp_grow_heap malloc (mem_heaps m) sz 0)\<rparr>)"
    and "(\<And>n. n < 2 ^ 62 \<Longrightarrow> malloc n \<noteq> None) \<Longrightarrow> \<exists>h \<in> set (fst (sexp_grow_heap malloc (mem_heaps m) sz 0)). fits sz (free_list h)"
proof -
  let ?hs = "mem_heaps m"
  define n where "n = 2 * unat (sexp_heap_align (of_nat (if heap_size (last ?hs) > sz then heap_size (last ?hs) else sz)))"
  have "?hs \<noteq> []" using ok by (simp add: memory_ok_def)
  then have "heap_size (last ?hs) \<le> 2 ^ 57" using small by (simp add: small_heaps_def)
  then have r: "sz \<le> unat (sexp_heap_align (of_nat (if heap_size (last ?hs) > sz then heap_size (last ?hs) else sz)))"
    "64 \<le> n" "32 dvd n" "n \<le> 2 * 2 ^ 57"
    using align_range [of "heap_size (last ?hs)"] align_range [OF sz] sz(1) by (auto simp: n_def)
  then have n: "sz \<le> n - 32" "64 \<le> n" "32 dvd n" "sexp_heap_pad_size n < 2 ^ 62"
    using r(2-) by (simp_all add: n_def sexp_heap_pad_size_def)
  have g: "fst (sexp_grow_heap malloc ?hs sz 0) =
      (case sexp_make_heap malloc n (heap_max_size (last ?hs)) 0 of Some h \<Rightarrow> ?hs @ [h] | None \<Rightarrow> ?hs)"
    by (simp add: sexp_grow_heap_def n_def Let_def split: option.split)
  have "memory_ok types (m\<lparr>mem_heaps := ?hs @ [h]\<rparr>) \<and> fits sz (free_list h)"
    if mk: "sexp_make_heap malloc n (heap_max_size (last ?hs)) 0 = Some h" for h
  proof -
    note h = make_heap_spec [OF mal n(2,3) mk]
    obtain bss where lay: "list_all2 heap_layout ?hs bss" "objects_fill types (mem_store m) (used_list ?hs bss)"
      "dom (mem_store m) = fst ` set (used_list ?hs bss)" by (rule memory_layout [OF ok])
    have "used_list (?hs @ [h]) (bss @ [[Free (n - 32)]]) = used_list ?hs bss"
      using used_list_snoc [OF list_all2_lengthD [OF lay(1)]] by (simp add: heap_used_def)
    then have "heaps_hold types (mem_store m) (?hs @ [h])"
      unfolding heaps_hold_def using lay h(1) by (intro exI [of _ "bss @ [[Free (n - 32)]]"]) (simp add: list_all2_appendI)
    moreover have "segments_apart (?hs @ [h])"
    proof -
      have "segments_apart ?hs" using ok by (simp add: memory_ok_def)
      then show ?thesis unfolding segments_apart_def sorted_wrt_append using h(2) by (simp, blast)
    qed
    moreover have "fits sz (free_list h)" using n(1) unfolding h(3) by simp
    ultimately show ?thesis using ok by (simp add: memory_ok_def)
  qed
  note new = this
  show "memory_ok types (m\<lparr>mem_heaps := fst (sexp_grow_heap malloc ?hs sz 0)\<rparr>)"
    using ok new unfolding g by (simp split: option.split)
  assume "\<And>n. n < 2 ^ 62 \<Longrightarrow> malloc n \<noteq> None"
  then have "sexp_make_heap malloc n (heap_max_size (last ?hs)) 0 \<noteq> None" using n(4) by (simp only: make_heap_None) simp
  then obtain h where h: "sexp_make_heap malloc n (heap_max_size (last ?hs)) 0 = Some h" by blast
  then show "\<exists>h \<in> set (fst (sexp_grow_heap malloc ?hs sz 0)). fits sz (free_list h)"
    using new [OF h] unfolding g by simp
qed

subsection \<open>The contract of allocation\<close>

lemma same_segments_small: "list_all2 same_segment hs hs' \<Longrightarrow> small_heaps hs \<Longrightarrow> small_heaps hs'"
  by (induction rule: list_all2_induct) (auto simp: small_heaps_def same_segment_simps)

lemma same_segments_malloc: "list_all2 same_segment hs hs' \<Longrightarrow> malloc_ok malloc hs \<Longrightarrow> malloc_ok malloc hs'"
proof -
  assume a: "list_all2 same_segment hs hs'" "malloc_ok malloc hs"
  have "h + n \<le> heap_data g' \<or> sexp_heap_end g' \<le> h" if "malloc n = Some h" and mem: "g' \<in> set hs'" for n h g'
  proof -
    obtain g where "g \<in> set hs" "same_segment g g'" using list_all2_member [OF a(1) mem] by blast
    then show ?thesis using a(2) that(1) by (auto simp: malloc_ok_def same_segment_simps)
  qed
  then show ?thesis using a(2) by (simp add: malloc_ok_def)
qed

lemma same_segments_hd: "list_all2 same_segment hs hs' \<Longrightarrow> hs \<noteq> [] \<Longrightarrow> heap_max_size (hd hs') = heap_max_size (hd hs)"
  by (cases hs; cases hs') (auto simp: same_segment_simps)

text \<open>What is kept of the store when an allocation collects.\<close>

definition store_kept :: "sexp_type list \<Rightarrow> u64 \<Rightarrow> store \<Rightarrow> store \<Rightarrow> bool" where
  "store_kept types ctx s s' \<longleftrightarrow>
    (\<forall>a \<in> reachable types s [ctx]. \<exists>obj obj'. s a = Some obj \<and> s' a = Some obj' \<and> object_tag obj' = object_tag obj
      \<and> children types obj' = children types obj)"

lemma store_kept_refl: "wf_store types s \<Longrightarrow> (heap_pointer ctx \<Longrightarrow> unat ctx \<in> dom s) \<Longrightarrow> store_kept types ctx s s"
proof -
  assume wf: "wf_store types s" and root: "heap_pointer ctx \<Longrightarrow> unat ctx \<in> dom s"
  have "reachable types s [ctx] \<subseteq> dom s" by (rule reachable_dom [OF wf]) (use root in simp)
  then show ?thesis by (auto simp: store_kept_def)
qed

lemma gc_step:
  assumes ok: "memory_ok types m" and root: "heap_pointer ctx \<Longrightarrow> unat ctx \<in> dom (mem_store m)" and fin: "finalizer_ok types fin"
  obtains m' mx fr where "sexp_gc types fin weak ctx m = Some (m', mx, fr)" "memory_ok types m'"
    "list_all2 same_segment (mem_heaps m) (mem_heaps m')" "store_kept types ctx (mem_store m) (mem_store m')"
    "mx = 0 \<or> (\<exists>h \<in> set (mem_heaps m'). fits mx (free_list h))"
proof (rule gc_spec [OF ok root fin refl, of weak])
  fix m' mx fr
  let ?R = "reachable types (mem_store m) [ctx]"
  assume g: "sexp_gc types fin weak ctx m = Some (m', mx, fr)" "memory_ok types m'"
    "mem_store m' = (\<lambda>a. if a \<in> ?R then map_option (survivor types weak (with_marks (mem_store m) ?R)) (mem_store m a) else None)"
    "list_all2 same_segment (mem_heaps m) (mem_heaps m')" "mx = 0 \<or> (\<exists>h \<in> set (mem_heaps m'). fits mx (free_list h))"
  have wf: "wf_store types (mem_store m)" "\<forall>obj \<in> ran (mem_store m). weak_apart types obj"
    using ok by (simp_all add: memory_ok_def)
  have Rdom: "?R \<subseteq> dom (mem_store m)" by (rule reachable_dom [OF wf(1)]) (use root in simp)
  have "store_kept types ctx (mem_store m) (mem_store m')"
    unfolding store_kept_def
  proof
    fix a assume a: "a \<in> ?R"
    then obtain obj where obj: "mem_store m a = Some obj" using Rdom by blast
    then have "weak_apart types obj" using wf(2) by (auto intro: ranI)
    then show "\<exists>obj obj'. mem_store m a = Some obj \<and> mem_store m' a = Some obj' \<and> object_tag obj' = object_tag obj
      \<and> children types obj' = children types obj"
      using survivor_children(1,4) a obj g(3) by auto
  qed
  with g show thesis using that by blast
qed (assumption)

lemma alloc_size:
  assumes "0 < unat sz" "unat sz \<le> 2 ^ 57"
  shows "0 < unat (sexp_heap_align sz)" "32 dvd unat (sexp_heap_align sz)" "unat (sexp_heap_align sz) \<le> 2 ^ 57"
proof -
  have "unat (sexp_heap_align sz) = (unat sz + 31) div 32 * 32" using unat_heap_align [of sz] assms by simp
  then show "0 < unat (sexp_heap_align sz)" "32 dvd unat (sexp_heap_align sz)" "unat (sexp_heap_align sz) \<le> 2 ^ 57"
    using assms by simp_all
qed

lemma alloc_spec:
  assumes ok: "memory_ok types m" and root: "heap_pointer ctx \<Longrightarrow> unat ctx \<in> dom (mem_store m)" and fin: "finalizer_ok types fin"
    and mal: "malloc_ok malloc (mem_heaps m)" and small: "small_heaps (mem_heaps m)" and sz: "0 < unat sz" "unat sz \<le> 2 ^ 57"
  obtains res m' where "sexp_alloc types fin malloc weak ctx m sz = Some (res, m')" "store_kept types ctx (mem_store m) (mem_store m')"
    "\<And>a. res = Some a \<Longrightarrow> block_reserved types m' a (unat (sexp_heap_align sz))"
    "res = None \<Longrightarrow> memory_ok types m'"
    "heap_max_size (hd (mem_heaps m)) = 0 \<Longrightarrow> (\<And>n. n < 2 ^ 62 \<Longrightarrow> malloc n \<noteq> None) \<Longrightarrow> res \<noteq> None"
proof -
  let ?n = "unat (sexp_heap_align sz)"
  note n = alloc_size [OF sz]
  show ?thesis
  proof (cases "sexp_try_alloc (mem_heaps m) ?n")
    case (Some r)
    then obtain a hs where r: "sexp_try_alloc (mem_heaps m) ?n = Some (a, hs)" by (cases r) auto
    have "block_reserved types (m\<lparr>mem_heaps := hs\<rparr>) a ?n" by (rule try_alloc_reserves [OF ok n(1,2) r])
    moreover have "store_kept types ctx (mem_store m) (mem_store m)"
      using store_kept_refl root ok by (simp add: memory_ok_def)
    ultimately show ?thesis using r that [of "Some a" "m\<lparr>mem_heaps := hs\<rparr>"] by (simp add: sexp_alloc_def)
  next
    case None
    obtain m1 mx fr where g: "sexp_gc types fin weak ctx m = Some (m1, mx, fr)" "memory_ok types m1"
      "list_all2 same_segment (mem_heaps m) (mem_heaps m1)" "store_kept types ctx (mem_store m) (mem_store m1)"
      "mx = 0 \<or> (\<exists>h \<in> set (mem_heaps m1). fits mx (free_list h))"
      by (rule gc_step [OF ok root fin])
    define grow where "grow = ((mx < ?n \<or> (sexp_heap_total_size (mem_heaps m1) > fr
        \<and> 4 * (sexp_heap_total_size (mem_heaps m1) - fr) > 3 * sexp_heap_total_size (mem_heaps m1)))
      \<and> (heap_max_size (hd (mem_heaps m1)) = 0 \<or> sexp_heap_total_size (mem_heaps m1) < heap_max_size (hd (mem_heaps m1))))"
    define m2 where "m2 = (if grow then m1\<lparr>mem_heaps := fst (sexp_grow_heap malloc (mem_heaps m1) ?n 0)\<rparr> else m1)"
    note gr = grow_heap_spec [OF g(2) same_segments_malloc [OF g(3) mal] same_segments_small [OF g(3) small] n(1,3)]
    have ok2: "memory_ok types m2" using gr(1) g(2) by (simp add: m2_def)
    have s2: "mem_store m2 = mem_store m1" by (simp add: m2_def)
    have res: "sexp_alloc types fin malloc weak ctx m sz =
        (case sexp_try_alloc (mem_heaps m2) ?n of Some (a, hs) \<Rightarrow> Some (Some a, m2\<lparr>mem_heaps := hs\<rparr>) | None \<Rightarrow> Some (None, m2))"
      using None g(1) unfolding m2_def grow_def sexp_alloc_def Let_def by (simp split del: if_split)
    have fits2: "\<exists>h \<in> set (mem_heaps m2). fits ?n (free_list h)"
      if "heap_max_size (hd (mem_heaps m)) = 0" "\<And>n. n < 2 ^ 62 \<Longrightarrow> malloc n \<noteq> None"
    proof (cases grow)
      case True
      then show ?thesis using gr(2) [OF that(2)] by (simp add: m2_def)
    next
      case False
      have "heap_max_size (hd (mem_heaps m1)) = 0" using that(1) same_segments_hd [OF g(3)] ok by (simp add: memory_ok_def)
      then have "?n \<le> mx" using False by (auto simp: grow_def)
      then obtain h where "h \<in> set (mem_heaps m1)" "fits mx (free_list h)" using g(5) n(1) by auto
      then show ?thesis using False fits_mono [OF _ \<open>?n \<le> mx\<close>] by (auto simp: m2_def)
    qed
    show ?thesis
    proof (cases "sexp_try_alloc (mem_heaps m2) ?n")
      case none: None
      then show ?thesis
        using that [of None m2] res g(4) s2 ok2 fits2 try_alloc_None [of "mem_heaps m2" ?n] by auto
    next
      case (Some r)
      then obtain a hs where r: "sexp_try_alloc (mem_heaps m2) ?n = Some (a, hs)" by (cases r) auto
      then show ?thesis
        using that [of "Some a" "m2\<lparr>mem_heaps := hs\<rparr>"] res g(4) s2 try_alloc_reserves [OF ok2 n(1,2) r] by simp
    qed
  qed
qed

text \<open>
  C6.  Allocation is safe: from a memory that satisfies the invariant \<open>sexp_alloc\<close> returns; every
  object reachable from the context is kept with its tag and strong slots; and the address it
  returns, if any, starts a block that overlaps no object and can be initialised with any object of
  that size without breaking the invariant.
\<close>

theorem alloc_safe:
  assumes "memory_ok types m" and "heap_pointer ctx \<Longrightarrow> unat ctx \<in> dom (mem_store m)" and "finalizer_ok types fin"
    and "malloc_ok malloc (mem_heaps m)" and "small_heaps (mem_heaps m)" and "0 < unat sz" and "unat sz \<le> 2 ^ 57"
  shows "\<exists>res m'. sexp_alloc types fin malloc weak ctx m sz = Some (res, m') \<and> store_kept types ctx (mem_store m) (mem_store m')
    \<and> (case res of Some a \<Rightarrow> block_reserved types m' a (unat (sexp_heap_align sz)) | None \<Rightarrow> memory_ok types m')"
  by (rule alloc_spec [OF assms, of weak]) (auto split: option.split)

text \<open>
  C27.  Allocation succeeds when the heap may grow: with no limit on the heap size and a \<open>malloc\<close>
  that does not fail below 2^62 bytes, \<open>sexp_alloc\<close> never returns the out-of-memory exception.
\<close>

theorem alloc_succeeds:
  assumes "memory_ok types m" and "heap_pointer ctx \<Longrightarrow> unat ctx \<in> dom (mem_store m)" and "finalizer_ok types fin"
    and "malloc_ok malloc (mem_heaps m)" and "small_heaps (mem_heaps m)" and "0 < unat sz" and "unat sz \<le> 2 ^ 57"
    and "heap_max_size (hd (mem_heaps m)) = 0" and "\<And>n. n < 2 ^ 62 \<Longrightarrow> malloc n \<noteq> None"
  shows "\<exists>a m'. sexp_alloc types fin malloc weak ctx m sz = Some (Some a, m')"
  by (rule alloc_spec [OF assms(1-7), of weak]) (use assms(8,9) in auto)

text \<open>The heap of the example is full, so that the allocation collects and grows it.\<close>

definition example_malloc :: "nat \<Rightarrow> nat option" where
  "example_malloc n = (if n < 2 ^ 62 then Some (2 ^ 62) else None)"

lemma example_malloc_ok: "malloc_ok example_malloc (mem_heaps pair_memory)" "small_heaps (mem_heaps pair_memory)"
  by (auto simp: malloc_ok_def small_heaps_def example_malloc_def pair_memory_def sexp_heap_end_def split: if_splits)

lemma alloc_request: "0 < unat (100 :: u64)" "unat (100 :: u64) \<le> 2 ^ 57" by simp_all

theorem alloc_safe_witness:
  "\<exists>res m'. sexp_alloc [pair_type] (\<lambda>_ obj. obj) example_malloc True 64 pair_memory 100 = Some (res, m')
    \<and> store_kept [pair_type] 64 (mem_store pair_memory) (mem_store m')
    \<and> (case res of Some a \<Rightarrow> block_reserved [pair_type] m' a (unat (sexp_heap_align 100)) | None \<Rightarrow> memory_ok [pair_type] m')"
  by (rule alloc_safe [OF pair_memory_ok pair_root id_finalizer example_malloc_ok alloc_request])

theorem alloc_succeeds_witness:
  "\<exists>a m'. sexp_alloc [pair_type] (\<lambda>_ obj. obj) example_malloc True 64 pair_memory 100 = Some (Some a, m')"
  by (rule alloc_succeeds [OF pair_memory_ok pair_root id_finalizer example_malloc_ok alloc_request])
    (simp_all add: example_malloc_def pair_memory_def)

end
