(* ===== verification/Bitwise.thy ===== *)
theory Bitwise
  imports Exact
begin

text \<open>
  The bitwise operators of SRFI 151, \<^verbatim>\<open>lib/srfi/151/bit.c\<close>: logical operations, shifts, bit counts
  on fixnums and bignums.  A bignum stores sign and magnitude; the operators work on the digits of
  its two's complement.  Allocation of a bignum always succeeds here.  In \<open>log2i\<close> the last shift
  is by the width of the word, undefined in C; it is 0 here, and no value it could take changes the
  result of a caller.
\<close>

subsection \<open>Two's complement\<close>

text \<open>The loop that adds one to the inverted digits and drops the final carry.\<close>

definition set_twos_complement :: "u64 list \<Rightarrow> u64 list" where
  "set_twos_complement data = fst (fxadd_loop 1 (map NOT data))"

definition sexp_set_twos_complement :: "bignum \<Rightarrow> bignum" where
  "sexp_set_twos_complement a = a\<lparr>sexp_bignum_data := set_twos_complement (sexp_bignum_data a)\<rparr>"

definition twos_complement :: "bignum \<Rightarrow> bignum" where
  "twos_complement x =
    (if sexp_bignum_sign x < 0 then sexp_set_twos_complement (sexp_copy_bignum None x 0) else x)"

fun sexp_twos_complement :: "'f sexp \<Rightarrow> 'f sexp" where
  "sexp_twos_complement (BIGNUM b) = BIGNUM (twos_complement b)"
| "sexp_twos_complement x = x"

definition sexp_fixnum_to_twos_complement :: "'f sexp \<Rightarrow> nat \<Rightarrow> bignum" where
  "sexp_fixnum_to_twos_complement x len =
    (let neg = sint (unbox_fixnum x) < 0;
         res = sexp_make_bignum len;
         res = (if neg then res\<lparr>sexp_bignum_data := take 1 (sexp_bignum_data res) @ replicate (len - 1) (- 1)\<rparr> else res);
         res = res\<lparr>sexp_bignum_data := (sexp_bignum_data res)[0 := NOT (- unbox_fixnum x)]\<rparr>;
         res = sexp_bignum_fxadd res 1;
         res = (if sexp_bignum_length res = len + 1 \<and> sexp_bignum_data res ! len = 1
                then res\<lparr>sexp_bignum_data := (sexp_bignum_data res)[len := - 1]\<rparr> else res)
     in if neg then res\<lparr>sexp_bignum_sign := - 1\<rparr> else res)"

text \<open>Digit \<open>i\<close> of a two's complement number, extended with its sign.\<close>

definition twos_digit :: "bignum \<Rightarrow> nat \<Rightarrow> u64" where
  "twos_digit x i =
    (if i < sexp_bignum_length x then sexp_bignum_data x ! i else if sexp_bignum_sign x < 0 then - 1 else 0)"

abbreviation negative_word :: "u64 \<Rightarrow> bool" where
  "negative_word d \<equiv> sint d < 0"

definition negate_bignum :: "bignum \<Rightarrow> bignum" where
  "negate_bignum b = b\<lparr>sexp_bignum_sign := - sexp_bignum_sign b\<rparr>"

subsection \<open>Logical operations\<close>

definition and_bignums :: "bignum \<Rightarrow> bignum \<Rightarrow> bignum" where
  "and_bignums x2 y2 =
    (let res = (if sexp_bignum_length y2 < sexp_bignum_length x2 then x2 else y2);
         len = sexp_bignum_length res;
         res = res\<lparr>sexp_bignum_data := map (\<lambda>i. twos_digit x2 i AND twos_digit y2 i) [0..<len]\<rparr>
     in if (sexp_bignum_sign x2 < 0 \<or> sexp_bignum_sign y2 < 0) \<and> negative_word (sexp_bignum_data res ! (len - 1))
        then (let res = sexp_set_twos_complement res
              in if sexp_bignum_sign res > 0 then negate_bignum res else res)
        else if sexp_bignum_sign res < 0 then negate_bignum res
        else res)"

definition bit_and_bignum :: "bignum \<Rightarrow> 'f sexp \<Rightarrow> 'f sexp" where
  "bit_and_bignum x y =
    (let x2 = twos_complement x;
         y2 = sexp_twos_complement y;
         y2 = (if sexp_fixnump y2 \<and> sint (unbox_fixnum y2) < 0
               then BIGNUM (sexp_fixnum_to_twos_complement y2 (sexp_bignum_length x2)) else y2)
     in sexp_bignum_normalize
          (if sexp_fixnump y2 then make_fixnum (unbox_fixnum y2 AND sexp_bignum_data x2 ! 0)
           else if sexp_bignump y2 then BIGNUM (and_bignums x2 (bignum_object y2))
           else sexp_type_exception SEXP_FIXNUM y2))"

definition sexp_bit_and :: "'f sexp \<Rightarrow> 'f sexp \<Rightarrow> 'f sexp" where
  "sexp_bit_and x y =
    (if sexp_fixnump x \<and> sexp_fixnump y then IMM (imm_word x AND imm_word y)
     else if sexp_fixnump x \<and> sexp_bignump y then bit_and_bignum (bignum_object y) x
     else if sexp_bignump x then bit_and_bignum (bignum_object x) y
     else sexp_type_exception SEXP_FIXNUM x)"

text \<open>The case of a non-negative fixnum operand: only the lowest digit changes.\<close>

definition change_low_digit :: "(u64 \<Rightarrow> u64) \<Rightarrow> bignum \<Rightarrow> bignum" where
  "change_low_digit f x =
    (let res = twos_complement x;
         res = res\<lparr>sexp_bignum_data := (sexp_bignum_data res)[0 := f (sexp_bignum_data res ! 0)]\<rparr>
     in if sexp_bignum_sign res < 0 then sexp_set_twos_complement res else res)"

definition ior_bignums :: "bignum \<Rightarrow> bignum \<Rightarrow> bignum" where
  "ior_bignums res tmp =
    (let len = sexp_bignum_length res;
         res = twos_complement res;
         res = res\<lparr>sexp_bignum_data := map (\<lambda>i. sexp_bignum_data res ! i OR twos_digit tmp i) [0..<len]\<rparr>
     in if (sexp_bignum_sign res < 0 \<or> sexp_bignum_sign tmp < 0) \<and> negative_word (sexp_bignum_data res ! (len - 1))
        then (let res = sexp_set_twos_complement res
              in if sexp_bignum_sign res > 0 then negate_bignum res else res)
        else res)"

definition bit_ior_bignum :: "bignum \<Rightarrow> 'f sexp \<Rightarrow> 'f sexp" where
  "bit_ior_bignum x y =
    (if sexp_fixnump y \<and> sint (unbox_fixnum y) \<ge> 0
     then BIGNUM (change_low_digit (\<lambda>d. d OR unbox_fixnum y) x)
     else if sexp_fixnump y
     then BIGNUM (ior_bignums x (sexp_fixnum_to_twos_complement y (sexp_bignum_length x)))
     else if sexp_bignump y
     then (let y = bignum_object y
           in if sexp_bignum_length x \<ge> sexp_bignum_length y then BIGNUM (ior_bignums x (twos_complement y))
              else BIGNUM (ior_bignums y (twos_complement x)))
     else sexp_type_exception SEXP_FIXNUM y)"

definition sexp_bit_ior :: "'f sexp \<Rightarrow> 'f sexp \<Rightarrow> 'f sexp" where
  "sexp_bit_ior x y = sexp_bignum_normalize
    (if sexp_fixnump x
     then if sexp_fixnump y then IMM (imm_word x OR imm_word y)
       else if sexp_bignump y then sexp_bignum_normalize (bit_ior_bignum (bignum_object y) x)
       else sexp_type_exception SEXP_FIXNUM y
     else if sexp_bignump x then bit_ior_bignum (bignum_object x) y
     else sexp_type_exception SEXP_FIXNUM x)"

text \<open>
  Exclusive or of \<open>res\<close> and the two's complement \<open>tmp\<close>; \<open>xneg\<close> and \<open>yneg\<close> are the signs of
  the operands.  The loop runs over the digits of \<open>tmp\<close>; where \<open>res\<close> is shorter, C writes past
  its end, here nothing is written.
\<close>

definition xor_bignums :: "bool \<Rightarrow> bool \<Rightarrow> bignum \<Rightarrow> bignum \<Rightarrow> bignum" where
  "xor_bignums xneg yneg res tmp =
    (let len = sexp_bignum_length tmp;
         res = twos_complement res;
         data = sexp_bignum_data res;
         res = res\<lparr>sexp_bignum_data := map (\<lambda>i. data ! i XOR twos_digit tmp i) [0..<min len (length data)] @ drop len data\<rparr>;
         res = (if xneg \<noteq> yneg then sexp_set_twos_complement res else res)
     in if yneg then negate_bignum res else res)"

definition bit_xor_bignum :: "bignum \<Rightarrow> 'f sexp \<Rightarrow> 'f sexp" where
  "bit_xor_bignum x y =
    (let xneg = sexp_bignum_sign x < 0
     in if sexp_fixnump y \<and> sint (unbox_fixnum y) \<ge> 0
        then BIGNUM (change_low_digit (\<lambda>d. d XOR unbox_fixnum y) x)
        else if sexp_fixnump y
        then BIGNUM (xor_bignums xneg True x (sexp_fixnum_to_twos_complement y (sexp_bignum_length x)))
        else if sexp_bignump y
        then (let y = bignum_object y; yneg = sexp_bignum_sign y < 0
              in if sexp_bignum_length x \<ge> sexp_bignum_length y then BIGNUM (xor_bignums xneg yneg x (twos_complement y))
                 else BIGNUM (xor_bignums xneg yneg y (twos_complement y)))
        else sexp_type_exception SEXP_FIXNUM y)"

definition sexp_bit_xor :: "'f sexp \<Rightarrow> 'f sexp \<Rightarrow> 'f sexp" where
  "sexp_bit_xor x y = sexp_bignum_normalize
    (if sexp_fixnump x
     then if sexp_fixnump y then make_fixnum (unbox_fixnum x XOR unbox_fixnum y)
       else if sexp_bignump y then sexp_bignum_normalize (bit_xor_bignum (bignum_object y) x)
       else sexp_type_exception SEXP_FIXNUM y
     else if sexp_bignump x then bit_xor_bignum (bignum_object x) y
     else sexp_type_exception SEXP_FIXNUM x)"

subsection \<open>Shifts\<close>

fun log2i_loop :: "u64 \<Rightarrow> nat \<Rightarrow> nat \<Rightarrow> nat" where
  "log2i_loop v 0 i = i"
| "log2i_loop v (Suc n) i = (if push_bit (i + 1) 1 > v then i else log2i_loop v n (i + 1))"

definition log2i :: "u64 \<Rightarrow> nat" where
  "log2i v = log2i_loop v 64 0"

text \<open>The loops over the digits, right shift from the top with the bits that fall into the next digit.\<close>

fun shr_loop :: "nat \<Rightarrow> u64 list \<Rightarrow> u64 list \<times> u64" where
  "shr_loop bit_shift [] = ([], 0)"
| "shr_loop bit_shift (d # ds) =
    (let (ds', tmp) = shr_loop bit_shift ds
     in ((drop_bit bit_shift d + tmp) # ds', if bit_shift \<noteq> 0 then push_bit (64 - bit_shift) d else tmp))"

fun shl_loop :: "nat \<Rightarrow> u64 \<Rightarrow> u64 list \<Rightarrow> u64 list \<times> u64" where
  "shl_loop bit_shift tmp [] = ([], tmp)"
| "shl_loop bit_shift tmp (d # ds) =
    (let (ds', t) = shl_loop bit_shift (if bit_shift \<noteq> 0 then drop_bit (64 - bit_shift) d else tmp) ds
     in ((push_bit bit_shift d + tmp) # ds', t))"

definition shift_right_bignum :: "bignum \<Rightarrow> nat \<Rightarrow> 'f sexp" where
  "shift_right_bignum i c =
    (let len = sexp_bignum_hi i; offset = c div 64; bit_shift = c - offset * 64
     in if len < offset then make_fixnum (if sexp_bignum_sign i > 0 then 0 else - 1)
        else (let res = \<lparr>sexp_bignum_sign = sexp_bignum_sign i,
                         sexp_bignum_data = fst (shr_loop bit_shift (drop offset (take len (sexp_bignum_data i)))) @ [0]\<rparr>
              in BIGNUM (if sexp_bignum_sign res < 0 then sexp_bignum_fxadd res 1 else res)))"

definition shift_left_bignum :: "bignum \<Rightarrow> nat \<Rightarrow> 'f sexp" where
  "shift_left_bignum i c =
    (let len = sexp_bignum_hi i; offset = c div 64; bit_shift = c - offset * 64;
         (ds, tmp) = shl_loop bit_shift 0 (take len (sexp_bignum_data i))
     in BIGNUM \<lparr>sexp_bignum_sign = sexp_bignum_sign i,
                sexp_bignum_data = replicate offset 0 @ ds @ [if bit_shift \<noteq> 0 then tmp else 0]\<rparr>)"

definition shift_bignum :: "bignum \<Rightarrow> int \<Rightarrow> 'f sexp" where
  "shift_bignum i c = sexp_bignum_normalize
    (if c < 0 then shift_right_bignum i (nat (- c)) else shift_left_bignum i (nat c))"

definition sexp_arithmetic_shift :: "'f sexp \<Rightarrow> 'f sexp \<Rightarrow> 'f sexp" where
  "sexp_arithmetic_shift i count =
    (if \<not> sexp_fixnump count then sexp_type_exception SEXP_FIXNUM count
     else (let c = sint (unbox_fixnum count)
           in if c = 0 then i
              else if sexp_fixnump i then sexp_bignum_normalize
                (if c < 0
                 then make_fixnum (if c > - 64 then signed_drop_bit (nat (- c)) (unbox_fixnum i) else 0)
                 else if int (log2i (unbox_fixnum i)) + c + 1 < 63
                 then make_fixnum (push_bit (nat c) (unbox_fixnum i) * word_of_int (sexp_fx_sign (imm_word i)))
                 else shift_bignum (sexp_fixnum_to_bignum (imm_word i)) c)
              else if sexp_bignump i then shift_bignum (bignum_object i) c
              else sexp_type_exception SEXP_FIXNUM i))"

subsection \<open>Counting bits\<close>

definition bit_count :: "u64 \<Rightarrow> u64" where
  "bit_count i =
    (let i = i - (drop_bit 1 i AND (- 1) div 3);
         i = (i AND (- 1) div 15 * 3) + (drop_bit 2 i AND (- 1) div 15 * 3);
         i = (i + drop_bit 4 i) AND ((- 1) div 255 * 15)
     in drop_bit 56 (i * ((- 1) div 255)))"

definition sexp_bit_count :: "'f sexp \<Rightarrow> 'f sexp" where
  "sexp_bit_count x =
    (if sexp_fixnump x
     then (let i = unbox_fixnum x in make_fixnum (bit_count (if sint i < 0 then NOT i else i)))
     else if sexp_bignump x then make_fixnum (sum_list (map bit_count (sexp_bignum_data (bignum_object x))))
     else sexp_type_exception SEXP_FIXNUM x)"

definition log_table_256 :: "nat list" where
  "log_table_256 = [0, 1, 2, 2, 3, 3, 3, 3, 4, 4, 4, 4, 4, 4, 4, 4]
    @ replicate 16 5 @ replicate 32 6 @ replicate 64 7 @ replicate 128 8"

definition integer_log2_32 :: "u64 \<Rightarrow> nat" where
  "integer_log2_32 x =
    (let tt = drop_bit 16 x
     in if tt \<noteq> 0
        then (let t = drop_bit 8 tt in if t \<noteq> 0 then 24 + log_table_256 ! unat t else 16 + log_table_256 ! unat tt)
        else (let t = drop_bit 8 x in if t \<noteq> 0 then 8 + log_table_256 ! unat t else log_table_256 ! unat x))"

definition integer_log2 :: "u64 \<Rightarrow> nat" where
  "integer_log2 x = (let tt = drop_bit 32 x in if tt \<noteq> 0 then integer_log2_32 tt + 32 else integer_log2_32 x)"

definition sexp_integer_length :: "'f sexp \<Rightarrow> 'f sexp" where
  "sexp_integer_length x =
    (if sexp_fixnump x
     then (let tmp = unbox_fixnum x in make_fixnum (of_nat (integer_log2 (if sint tmp < 0 then - tmp - 1 else tmp))))
     else if sexp_bignump x
     then (let b = bignum_object x; hi = sexp_bignum_hi b
           in make_fixnum (of_nat (integer_log2 (sexp_bignum_data b ! (hi - 1)) + (hi - 1) * 64)))
     else sexp_type_exception SEXP_FIXNUM x)"

definition SEXP_TRUE :: "'f sexp" where "SEXP_TRUE = SEXP_MAKE_IMMEDIATE 1"

definition sexp_make_boolean :: "bool \<Rightarrow> 'f sexp" where
  "sexp_make_boolean b = (if b then SEXP_TRUE else SEXP_FALSE)"

definition sexp_bit_set_p :: "'f sexp \<Rightarrow> 'f sexp \<Rightarrow> 'f sexp" where
  "sexp_bit_set_p i x =
    (if \<not> sexp_fixnump i then sexp_type_exception SEXP_FIXNUM i
     else (let pos = sint (unbox_fixnum i)
           in if pos < 0 then sexp_xtype_exception ''index must be non-negative'' i
              else if sexp_fixnump x
              then sexp_make_boolean (if pos < 64 then unbox_fixnum x AND push_bit (nat pos) 1 \<noteq> 0 else sint (unbox_fixnum x) < 0)
              else if sexp_bignump x
              then (let b = bignum_object x; p = nat pos div 64; rem = nat pos - p * 64
                    in sexp_make_boolean
                         (if p < sexp_bignum_length b then sexp_bignum_data b ! p AND push_bit rem 1 \<noteq> 0
                          else sexp_bignum_sign b < 0))
              else sexp_type_exception SEXP_FIXNUM x))"

end
