(* ===== verification/Bits.thy ===== *)
theory Bits
  imports Bitwise
begin

text \<open>
  Correctness of the bitwise operators.  The digits of a two's complement number with the bits that
  extend it are an integer, and a digitwise operation is the operation on the integers.
\<close>

subsection \<open>Two's complement digits\<close>

fun bits_int :: "u64 list \<Rightarrow> bool \<Rightarrow> int" where
  "bits_int [] s = (if s then - 1 else 0)"
| "bits_int (d # ds) s = concat_bit 64 (uint d) (bits_int ds s)"

definition twos_int :: "bignum \<Rightarrow> int" where
  "twos_int x = bits_int (sexp_bignum_data x) (sexp_bignum_sign x < 0)"

lemma concat_digit: "concat_bit 64 (uint d) k = uint (d :: u64) + 2 ^ 64 * k"
proof -
  have "take_bit 64 (uint d) = uint d" using uint_u64_range [of d] by (simp add: take_bit_int_eq_self)
  then show ?thesis by (simp add: concat_bit_eq push_bit_eq_mult mult.commute)
qed

lemma bits_int_val: "bits_int ds s = int (dval ds) - (if s then 2 ^ (64 * length ds) else 0)"
  by (induction ds) (auto simp: concat_digit power_add algebra_simps)

lemma bits_int_extend: "bits_int (ds @ replicate k (if s then - 1 else 0)) s = bits_int ds s"
proof -
  have "bits_int (replicate k (if s then - 1 else 0)) s = (if s then - 1 else 0)"
    by (induction k) (auto simp: concat_digit unsigned_minus_1_eq_mask mask_eq_exp_minus_1)
  then show ?thesis by (induction ds) (simp_all split del: if_split)
qed

text \<open>An operation on bits, on words and on integers.\<close>

locale bit_operation =
  fixes bop :: "bool \<Rightarrow> bool \<Rightarrow> bool" and wop :: "u64 \<Rightarrow> u64 \<Rightarrow> u64" and iop :: "int \<Rightarrow> int \<Rightarrow> int"
  assumes word_bits: "n < 64 \<Longrightarrow> bit (wop x y) n = bop (bit x n) (bit y n)"
    and int_bits: "bit (iop i j) n = bop (bit i n) (bit j n)"
begin

lemma digit_step: "concat_bit 64 (uint (wop x y)) (iop i j) = iop (concat_bit 64 (uint x) i) (concat_bit 64 (uint y) j)"
proof (rule bit_eqI)
  fix n
  show "bit (concat_bit 64 (uint (wop x y)) (iop i j)) n = bit (iop (concat_bit 64 (uint x) i) (concat_bit 64 (uint y) j)) n"
    by (cases "n < 64") (simp_all add: bit_concat_bit_iff int_bits bit_uint_iff word_bits)
qed

lemma bits_op:
  "length xs = length ys \<Longrightarrow> bits_int (map2 wop xs ys) (bop s t) = iop (bits_int xs s) (bits_int ys t)"
proof (induction xs ys rule: list_induct2)
  case Nil
  show ?case by (rule bit_eqI) (simp add: int_bits)
next
  case (Cons x xs y ys)
  then show ?case by (simp add: digit_step)
qed

lemma digits_op:
  assumes "sexp_bignum_length x \<le> n" "sexp_bignum_length y \<le> n"
  shows "bits_int (map (\<lambda>i. wop (twos_digit x i) (twos_digit y i)) [0..<n]) (bop (sexp_bignum_sign x < 0) (sexp_bignum_sign y < 0))
    = iop (twos_int x) (twos_int y)"
proof -
  have ext: "map (twos_digit z) [0..<n] =
      sexp_bignum_data z @ replicate (n - sexp_bignum_length z) (if sexp_bignum_sign z < 0 then - 1 else 0)"
    if "sexp_bignum_length z \<le> n" for z
    by (rule nth_equalityI) (use that in \<open>auto simp: twos_digit_def nth_append\<close>)
  have val: "bits_int (map (twos_digit z) [0..<n]) (sexp_bignum_sign z < 0) = twos_int z" if "sexp_bignum_length z \<le> n" for z
    unfolding ext [OF that] twos_int_def by (rule bits_int_extend)
  have "map (\<lambda>i. wop (twos_digit x i) (twos_digit y i)) [0..<n] = map2 wop (map (twos_digit x) [0..<n]) (map (twos_digit y) [0..<n])"
    by (simp add: map2_map_map)
  then show ?thesis
    using bits_op [of "map (twos_digit x) [0..<n]" "map (twos_digit y) [0..<n]"] val [OF assms(1)] val [OF assms(2)] by simp
qed

end

text \<open>An operation that a false bit leaves alone.\<close>

locale bit_addition = bit_operation +
  assumes keeps: "bop b False = b"
begin

lemma low_digit_op: "ds \<noteq> [] \<Longrightarrow> bits_int (ds[0 := wop (ds ! 0) w]) s = iop (bits_int ds s) (uint w)"
proof -
  assume "ds \<noteq> []"
  then obtain d es where ds: "ds = d # es" by (cases ds) auto
  have "iop i 0 = i" for i by (rule bit_eqI) (simp add: int_bits keeps)
  then show ?thesis using digit_step [of d w "bits_int es s" 0] concat_digit [of w 0] by (simp add: ds)
qed

end

interpretation bit_and: bit_operation "(\<and>)" "(AND)" "(AND)"
  by unfold_locales (auto simp: bit_and_iff)

interpretation bit_or: bit_addition "(\<or>)" "(OR)" "(OR)"
  by unfold_locales (auto simp: bit_or_iff)

interpretation bit_xor: bit_addition "(\<noteq>)" "(XOR)" "(XOR)"
  by unfold_locales (auto simp: bit_xor_iff)

subsection \<open>Complementing\<close>

lemma dval_not: "dval (map NOT ds) = 2 ^ (64 * length ds) - 1 - dval ds"
proof (induction ds)
  case (Cons d ds)
  have lt: "unat d < 18446744073709551616" by (rule unat_u64_less)
  have "unat (NOT d) = 18446744073709551615 - unat d" using unat_not [of d] by simp
  then have "unat (NOT d) + unat d + 1 = 18446744073709551616" using lt by linarith
  then have n: "int (unat (NOT d)) = 18446744073709551615 - int (unat d)" by linarith
  have "dval ds < 2 ^ (64 * length ds)" by (rule dval_less)
  then have "int (dval (map NOT ds)) = 2 ^ (64 * length ds) - 1 - int (dval ds)" using Cons by (simp add: of_nat_diff)
  then have "int (dval (map NOT (d # ds))) = 2 ^ 64 - 1 - int (unat d) + 2 ^ 64 * (2 ^ (64 * length ds) - 1 - int (dval ds))"
    using n by simp
  then have "int (dval (map NOT (d # ds))) = 2 ^ (64 * length (d # ds)) - 1 - int (dval (d # ds))"
    by (simp add: algebra_simps power_add)
  then have "int (dval (map NOT (d # ds)) + dval (d # ds) + 1) = int (2 ^ (64 * length (d # ds)))"
    by (simp del: dval.simps list.map list.size)
  then have "dval (map NOT (d # ds)) + dval (d # ds) + 1 = 2 ^ (64 * length (d # ds))" by (simp only: of_nat_eq_iff)
  then show ?case by linarith
qed simp

lemma set_twos_val:
  assumes "ds \<noteq> []"
  shows "length (set_twos_complement ds) = length ds"
    and "dval (set_twos_complement ds) = (if dval ds = 0 then 0 else 2 ^ (64 * length ds) - dval ds)"
proof -
  obtain es c where es: "fxadd_loop 1 (map NOT ds) = (es, c)" by fastforce
  have l: "length es = length ds" and v: "dval es + 2 ^ (64 * length ds) * unat c = 2 ^ (64 * length ds) - 1 - dval ds + 1"
    using fxadd_loop_val [OF es] assms by (simp_all add: dval_not)
  show "length (set_twos_complement ds) = length ds" using l es by (simp add: set_twos_complement_def)
  have "dval es < 2 ^ (64 * length ds)" using dval_less [of es] l by simp
  moreover have "dval ds < 2 ^ (64 * length ds)" by (rule dval_less)
  ultimately show "dval (set_twos_complement ds) = (if dval ds = 0 then 0 else 2 ^ (64 * length ds) - dval ds)"
    using v es by (cases "unat c") (auto simp: set_twos_complement_def)
qed

lemma twos_complement_val:
  assumes "bignum_ok x" "bn_int x \<noteq> 0"
  shows "twos_int (twos_complement x) = bn_int x" "sexp_bignum_sign (twos_complement x) = sexp_bignum_sign x"
    "sexp_bignum_length (twos_complement x) = sexp_bignum_length x" "bignum_ok (twos_complement x)"
  using assms set_twos_val [of "sexp_bignum_data x"] dval_less [of "sexp_bignum_data x"]
  by (auto simp: twos_complement_def copy_same twos_int_def bits_int_val sexp_set_twos_complement_def bn_int_def bn_nat_def bignum_ok_def
      of_nat_diff)

lemma complement_result:
  assumes "sexp_bignum_data r \<noteq> []" "dval (sexp_bignum_data r) \<noteq> 0"
  shows "bn_nat (sexp_set_twos_complement r) = 2 ^ (64 * sexp_bignum_length r) - dval (sexp_bignum_data r)"
    "sexp_bignum_sign (sexp_set_twos_complement r) = sexp_bignum_sign r" "sexp_bignum_data (sexp_set_twos_complement r) \<noteq> []"
  using assms set_twos_val [of "sexp_bignum_data r"] by (auto simp: sexp_set_twos_complement_def bn_nat_def)

text \<open>The magnitude of a negative result, and a result that keeps its digits.\<close>

lemma complement_int:
  assumes "sexp_bignum_data r \<noteq> []" "dval (sexp_bignum_data r) \<noteq> 0" "sexp_bignum_sign r' = - 1"
    "sexp_bignum_data r' = sexp_bignum_data (sexp_set_twos_complement r)"
  shows "bignum_ok r'" "bn_int r' = bits_int (sexp_bignum_data r) True"
  using assms complement_result [OF assms(1,2)] dval_less [of "sexp_bignum_data r"]
  by (auto simp: bignum_ok_def bn_int_def bn_nat_def bits_int_val of_nat_diff)

lemma positive_int:
  assumes "sexp_bignum_data r \<noteq> []" "sexp_bignum_sign r = 1"
  shows "bignum_ok r" "bn_int r = bits_int (sexp_bignum_data r) False"
  using assms by (auto simp: bignum_ok_def bn_int_def bn_nat_def bits_int_val)

lemma negative_word_bit: "negative_word d \<longleftrightarrow> bit d 63"
  using bit_last_iff [of d] by simp

lemma negative_word_unat: "negative_word d \<longleftrightarrow> 2 ^ 63 \<le> unat d"
proof -
  define u where "u = unat d"
  have "uint d = int u" "u < 18446744073709551616" by (simp_all add: u_def)
  then show ?thesis by (auto simp: sint_u64 simp flip: u_def)
qed

lemma top_digit_iff:
  assumes "ds \<noteq> []"
  shows "negative_word (ds ! (length ds - 1)) \<longleftrightarrow> 2 ^ (64 * length ds - 1) \<le> dval ds"
proof -
  let ?n = "length ds - 1" and ?d = "ds ! (length ds - 1)"
  have l: "length ds = Suc ?n" using assms by (cases ds) auto
  then have v: "dval ds = dval (take ?n ds) + 2 ^ (64 * ?n) * unat ?d" using dval_take_Suc [of ?n ds] by simp
  have p: "(2 :: nat) ^ (64 * length ds - 1) = 2 ^ (64 * ?n) * 2 ^ 63"
  proof -
    have "64 * length ds - 1 = 64 * ?n + 63" using l by linarith
    then show ?thesis by (simp add: power_add)
  qed
  have s: "negative_word ?d \<longleftrightarrow> 2 ^ 63 \<le> unat ?d" by (rule negative_word_unat)
  have "dval (take ?n ds) < 2 ^ (64 * ?n)" by (rule dval_take_less)
  show ?thesis
  proof (cases "2 ^ 63 \<le> unat ?d")
    case True
    then show ?thesis using s v p by (simp add: trans_le_add2)
  next
    case False
    then have "unat ?d + 1 \<le> 2 ^ 63" by simp
    then have "2 ^ (64 * ?n) * (unat ?d + 1) \<le> 2 ^ (64 * ?n) * 2 ^ 63" by (rule mult_le_mono2)
    then have "2 ^ (64 * ?n) * unat ?d + 2 ^ (64 * ?n) \<le> 2 ^ (64 * ?n) * (2 :: nat) ^ 63" by simp
    then have "dval ds < 2 ^ (64 * length ds - 1)" using v p \<open>dval (take ?n ds) < 2 ^ (64 * ?n)\<close> by linarith
    then show ?thesis using False s by simp
  qed
qed

lemma top_digit_nz: "ds \<noteq> [] \<Longrightarrow> negative_word (ds ! (length ds - 1)) \<Longrightarrow> dval ds \<noteq> 0"
  using top_digit_iff [of ds] by (metis leD zero_less_numeral zero_less_power)

subsection \<open>Operands with a sign bit\<close>

text \<open>
  The sign of a result is read off its highest bit.  That is right when the operands leave that bit
  to the sign, as the two's complement of a number of less than 64 bits per digit does.
\<close>

definition sign_bit :: "bignum \<Rightarrow> bool" where
  "sign_bit x \<longleftrightarrow> (negative_word (sexp_bignum_data x ! (sexp_bignum_length x - 1)) \<longleftrightarrow> sexp_bignum_sign x < 0)"

definition spare_bit :: "bignum \<Rightarrow> bool" where
  "spare_bit x \<longleftrightarrow> bn_nat x < 2 ^ (64 * sexp_bignum_length x - 1)"

lemma twos_digit_top:
  "sign_bit x \<Longrightarrow> sexp_bignum_data x \<noteq> [] \<Longrightarrow> sexp_bignum_length x \<le> n \<Longrightarrow> bit (twos_digit x (n - 1)) 63 = (sexp_bignum_sign x < 0)"
  by (cases "n = sexp_bignum_length x") (auto simp: sign_bit_def twos_digit_def negative_word_bit)

lemma spare_sign_bit:
  assumes "bignum_ok x" "bn_int x \<noteq> 0" "spare_bit x"
  shows "sign_bit (twos_complement x)"
proof -
  let ?d = "sexp_bignum_data x" and ?e = "sexp_bignum_data (twos_complement x)"
  have d: "?d \<noteq> []" and e: "?e \<noteq> []" "length ?e = length ?d"
    using assms twos_complement_val [of x] by (auto simp: bignum_ok_def)
  have dv: "dval ?d \<noteq> 0" "dval ?d < 2 ^ (64 * length ?d - 1)"
    using assms by (auto simp: bn_int_def bn_nat_def spare_bit_def)
  have "(2 :: nat) ^ (64 * length ?d) = 2 * 2 ^ (64 * length ?d - 1)"
    using d by (cases "64 * length ?d") simp_all
  then have "2 ^ (64 * length ?d - 1) \<le> dval ?e \<longleftrightarrow> sexp_bignum_sign x < 0"
    using set_twos_val(2) [OF d] dv by (auto simp: twos_complement_def copy_same sexp_set_twos_complement_def)
  then show ?thesis using top_digit_iff [OF e(1)] twos_complement_val(2) [OF assms(1,2)] e(2) by (simp add: sign_bit_def)
qed

lemma fixnum_twos_data:
  assumes "fits_fixnum k" "k < 0" "0 < len"
  shows "sexp_fixnum_to_twos_complement (fixnum_obj k) len =
    \<lparr>sexp_bignum_sign = - 1, sexp_bignum_data = word_of_int k # replicate (len - 1) (- 1)\<rparr>"
proof -
  let ?w = "word_of_int k :: u64"
  obtain m where m: "len = Suc m" using assms(3) by (cases len) auto
  let ?a = "\<lparr>sexp_bignum_sign = 1, sexp_bignum_data = (?w - 1) # replicate m (- 1)\<rparr>"
  have w: "unbox_fixnum (fixnum_obj k) = ?w" "sint ?w = k" using assms by (simp_all add: unbox_fixnum_obj sint_fits)
  have "?w \<noteq> 0" using w(2) assms(2) by auto
  then have "0 < unat ?w" by (simp add: unat_gt_0)
  then have "unat (?w - 1) = unat ?w - 1" by (simp add: unat_minus_one unat_gt_0)
  then have c: "\<not> SEXP_UINT_T_MAX - 1 < ?w - 1"
    unfolding overflow_test using unat_u64_less [of ?w] \<open>0 < unat ?w\<close> by (simp del: unat_u64_less)
  have hi: "sexp_bignum_hi ?a = Suc m" by (cases m) (simp_all add: sexp_bignum_hi_def del: replicate_Suc)
  have "sexp_bignum_fxadd ?a 1 = \<lparr>sexp_bignum_sign = 1, sexp_bignum_data = ?w # replicate m (- 1)\<rparr>"
    using c by (simp add: sexp_bignum_fxadd_def hi)
  moreover have "NOT (- ?w) = ?w - 1" by (simp add: not_eq_complement)
  ultimately show ?thesis
    using assms(2) m by (simp add: sexp_fixnum_to_twos_complement_def w sexp_make_bignum_def Let_def)
qed

lemma fixnum_twos_val:
  assumes "fits_fixnum k" "k < 0" "0 < len"
  shows "twos_int (sexp_fixnum_to_twos_complement (fixnum_obj k :: 'f sexp) len) = k"
    "sign_bit (sexp_fixnum_to_twos_complement (fixnum_obj k :: 'f sexp) len)"
    "sexp_bignum_length (sexp_fixnum_to_twos_complement (fixnum_obj k :: 'f sexp) len) = len"
    "sexp_bignum_sign (sexp_fixnum_to_twos_complement (fixnum_obj k :: 'f sexp) len) = - 1"
proof -
  have s: "sint (word_of_int k :: u64) = k" using assms(1) by (rule sint_fits)
  have u: "uint (word_of_int k :: u64) = k + 2 ^ 64"
    using assms(1,2) by (simp add: uint_word_of_int fits_fixnum_def) (smt (verit) mod_add_self2 mod_pos_pos_trivial)
  have "bits_int (replicate n (- 1)) True = - 1" for n using bits_int_extend [of "[]" n True] by simp
  then show "twos_int (sexp_fixnum_to_twos_complement (fixnum_obj k :: 'f sexp) len) = k"
    by (simp only: fixnum_twos_data [OF assms] twos_int_def bignum.select_convs bits_int.simps concat_digit) (simp add: u)
  show "sign_bit (sexp_fixnum_to_twos_complement (fixnum_obj k :: 'f sexp) len)"
    "sexp_bignum_length (sexp_fixnum_to_twos_complement (fixnum_obj k :: 'f sexp) len) = len"
    "sexp_bignum_sign (sexp_fixnum_to_twos_complement (fixnum_obj k :: 'f sexp) len) = - 1"
    using s assms(2,3) by (auto simp: fixnum_twos_data [OF assms] sign_bit_def nth_Cons' )
qed

lemma fixnum_twos_ok:
  "fits_fixnum k \<Longrightarrow> k < 0 \<Longrightarrow> 0 < len \<Longrightarrow> bignum_ok (sexp_fixnum_to_twos_complement (fixnum_obj k :: 'f sexp) len)"
  by (simp add: fixnum_twos_data bignum_ok_def)

subsection \<open>And, inclusive or, exclusive or\<close>

lemma and_bignums_val:
  assumes "bignum_ok x" "bignum_ok y" and sb: "sexp_bignum_sign x < 0 \<or> sexp_bignum_sign y < 0 \<Longrightarrow> sign_bit x \<and> sign_bit y"
  shows "bignum_ok (and_bignums x y)" "bn_int (and_bignums x y) = twos_int x AND twos_int y"
proof -
  let ?s = "sexp_bignum_sign x < 0" and ?t = "sexp_bignum_sign y < 0"
  define n where "n = max (sexp_bignum_length x) (sexp_bignum_length y)"
  define r where "r = (if sexp_bignum_length y < sexp_bignum_length x then x else y)"
  define ds where "ds = map (\<lambda>i. twos_digit x i AND twos_digit y i) [0..<n]"
  have ne: "sexp_bignum_data x \<noteq> []" "sexp_bignum_data y \<noteq> []" and sg: "sexp_bignum_sign x \<in> {1, - 1}" "sexp_bignum_sign y \<in> {1, - 1}"
    using assms(1,2) by (auto simp: bignum_ok_def)
  have n: "0 < n" "length ds = n" "sexp_bignum_length r = n" "ds \<noteq> []" using ne by (auto simp: n_def ds_def r_def less_max_iff_disj)
  have val: "bits_int ds (?s \<and> ?t) = twos_int x AND twos_int y" unfolding ds_def by (rule bit_and.digits_op) (simp_all add: n_def)
  have top: "negative_word (ds ! (n - 1)) \<longleftrightarrow> ?s \<and> ?t" if "?s \<or> ?t"
    using sb [OF that] n(1) ne twos_digit_top [of x n] twos_digit_top [of y n]
    by (simp add: ds_def negative_word_bit bit_and_iff n_def)
  let ?r = "r\<lparr>sexp_bignum_data := ds\<rparr>"
  have eq: "and_bignums x y =
      (if (?s \<or> ?t) \<and> negative_word (ds ! (n - 1))
       then (if sexp_bignum_sign ?r > 0 then negate_bignum (sexp_set_twos_complement ?r) else sexp_set_twos_complement ?r)
       else if sexp_bignum_sign ?r < 0 then negate_bignum ?r else ?r)"
    using n(3) by (simp add: and_bignums_def Let_def ds_def r_def sexp_set_twos_complement_def)
  have "bignum_ok (and_bignums x y) \<and> bn_int (and_bignums x y) = bits_int ds (?s \<and> ?t)"
  proof (cases "?s \<and> ?t")
    case True
    then have neg: "negative_word (ds ! (n - 1))" using top by simp
    then have nz: "dval ds \<noteq> 0" using top_digit_nz [OF n(4)] n(2) by simp
    have "sexp_bignum_sign r = - 1" using True sg by (auto simp: r_def)
    then have "and_bignums x y = sexp_set_twos_complement ?r" using True neg by (simp add: eq)
    then show ?thesis
      using complement_int [of ?r "sexp_set_twos_complement ?r"] n(4) nz \<open>sexp_bignum_sign r = - 1\<close> True
      by (simp add: sexp_set_twos_complement_def)
  next
    case False
    have "sexp_bignum_sign r \<in> {1, - 1}" using sg by (simp add: r_def)
    then have res: "and_bignums x y = ?r\<lparr>sexp_bignum_sign := 1\<rparr>"
      using False top by (auto simp: eq negate_bignum_def)
    have f: "(?s \<and> ?t) = False" using False by simp
    show ?thesis unfolding f res using positive_int [of "?r\<lparr>sexp_bignum_sign := 1\<rparr>"] n(4) by simp
  qed
  then show "bignum_ok (and_bignums x y)" "bn_int (and_bignums x y) = twos_int x AND twos_int y" using val by simp_all
qed

lemma ior_bignums_val:
  assumes "bignum_ok x" "bn_int x \<noteq> 0" "bignum_ok y" "sexp_bignum_length y \<le> sexp_bignum_length x"
    and sb: "sexp_bignum_sign x < 0 \<or> sexp_bignum_sign y < 0 \<Longrightarrow> sign_bit (twos_complement x) \<and> sign_bit y"
  shows "bignum_ok (ior_bignums x y)" "bn_int (ior_bignums x y) = bn_int x OR twos_int y"
proof -
  let ?x = "twos_complement x"
  let ?s = "sexp_bignum_sign x < 0" and ?t = "sexp_bignum_sign y < 0" and ?n = "sexp_bignum_length x"
  define ds where "ds = map (\<lambda>i. twos_digit ?x i OR twos_digit y i) [0..<?n]"
  note x = twos_complement_val [OF assms(1,2)]
  have ne: "sexp_bignum_data ?x \<noteq> []" "sexp_bignum_data y \<noteq> []" and sg: "sexp_bignum_sign x \<in> {1, - 1}" "sexp_bignum_sign y \<in> {1, - 1}"
    using assms(1,3) x(4) by (auto simp: bignum_ok_def)
  have n: "0 < ?n" "length ds = ?n" "ds \<noteq> []" using ne(1) x(3) by (auto simp: ds_def)
  have dd: "map (\<lambda>i. sexp_bignum_data ?x ! i OR twos_digit y i) [0..<?n] = ds"
    using x(3) by (auto simp: ds_def twos_digit_def)
  have val: "bits_int ds (?s \<or> ?t) = bn_int x OR twos_int y"
    using bit_or.digits_op [of ?x ?n y] x(1-3) assms(4) by (simp add: ds_def)
  have top: "negative_word (ds ! (?n - 1))" if "?s \<or> ?t"
    using sb [OF that] that n(1) ne x(2,3) twos_digit_top [of ?x ?n] twos_digit_top [of y ?n] assms(4)
    by (simp add: ds_def negative_word_bit bit_or_iff)
  let ?r = "?x\<lparr>sexp_bignum_data := ds\<rparr>"
  have eq: "ior_bignums x y =
      (if (?s \<or> ?t) \<and> negative_word (ds ! (?n - 1))
       then (if sexp_bignum_sign ?r > 0 then negate_bignum (sexp_set_twos_complement ?r) else sexp_set_twos_complement ?r)
       else ?r)"
    by (simp add: ior_bignums_def Let_def dd x(2) sexp_set_twos_complement_def)
  have "bignum_ok (ior_bignums x y) \<and> bn_int (ior_bignums x y) = bits_int ds (?s \<or> ?t)"
  proof (cases "?s \<or> ?t")
    case True
    then have nz: "dval ds \<noteq> 0" using top top_digit_nz [OF n(3)] n(2) by simp
    have "ior_bignums x y = (sexp_set_twos_complement ?r)\<lparr>sexp_bignum_sign := - 1\<rparr>"
      using True top sg x(2) by (auto simp: eq negate_bignum_def sexp_set_twos_complement_def)
    then show ?thesis
      using complement_int [of ?r "(sexp_set_twos_complement ?r)\<lparr>sexp_bignum_sign := - 1\<rparr>"] n(3) nz True by simp
  next
    case False
    then have "sexp_bignum_sign x = 1" using sg by auto
    then show ?thesis using positive_int [of ?r] n(3) False x(2) by (simp add: eq)
  qed
  then show "bignum_ok (ior_bignums x y)" "bn_int (ior_bignums x y) = bn_int x OR twos_int y" using val by simp_all
qed

lemma xor_bignums_val:
  assumes "bignum_ok x" "bn_int x \<noteq> 0" "bignum_ok y" "sexp_bignum_length y \<le> sexp_bignum_length x"
    and len: "sexp_bignum_sign y < 0 \<Longrightarrow> sexp_bignum_length y = sexp_bignum_length x"
    and sb: "sexp_bignum_sign x < 0 \<or> sexp_bignum_sign y < 0 \<Longrightarrow> sign_bit (twos_complement x) \<and> sign_bit y"
  shows "bignum_ok (xor_bignums (sexp_bignum_sign x < 0) (sexp_bignum_sign y < 0) x y)"
    "bn_int (xor_bignums (sexp_bignum_sign x < 0) (sexp_bignum_sign y < 0) x y) = bn_int x XOR twos_int y"
proof -
  let ?x = "twos_complement x"
  let ?s = "sexp_bignum_sign x < 0" and ?t = "sexp_bignum_sign y < 0" and ?n = "sexp_bignum_length x" and ?m = "sexp_bignum_length y"
  define ds where "ds = map (\<lambda>i. twos_digit ?x i XOR twos_digit y i) [0..<?n]"
  note x = twos_complement_val [OF assms(1,2)]
  have ne: "sexp_bignum_data ?x \<noteq> []" "sexp_bignum_data y \<noteq> []" and sg: "sexp_bignum_sign x \<in> {1, - 1}" "sexp_bignum_sign y \<in> {1, - 1}"
    using assms(1,3) x(4) by (auto simp: bignum_ok_def)
  have n: "0 < ?n" "length ds = ?n" "ds \<noteq> []" using ne(1) x(3) by (auto simp: ds_def)
  have dd: "map (\<lambda>i. sexp_bignum_data ?x ! i XOR twos_digit y i) [0..<min ?m ?n] @ drop ?m (sexp_bignum_data ?x) = ds"
    by (rule nth_equalityI) (use x(3) assms(4) len in \<open>auto simp: ds_def twos_digit_def nth_append\<close>)
  have val: "bits_int ds (?s \<noteq> ?t) = bn_int x XOR twos_int y"
    using bit_xor.digits_op [of ?x ?n y] x(1-3) assms(4) by (simp add: ds_def)
  let ?r = "?x\<lparr>sexp_bignum_data := ds\<rparr>" and ?res = "xor_bignums ?s ?t x y"
  have eq: "?res = (let r = (if ?s \<noteq> ?t then sexp_set_twos_complement ?r else ?r) in if ?t then negate_bignum r else r)"
    using dd x(3) by (simp add: xor_bignums_def Let_def)
  have "bignum_ok ?res \<and> bn_int ?res = bits_int ds (?s \<noteq> ?t)"
  proof (cases "?s = ?t")
    case True
    then have "?res = ?r\<lparr>sexp_bignum_sign := 1\<rparr>" unfolding eq using sg x(2) by (auto simp: negate_bignum_def Let_def)
    then show ?thesis using positive_int [of "?r\<lparr>sexp_bignum_sign := 1\<rparr>"] n(3) True by simp
  next
    case False
    then have "negative_word (ds ! (?n - 1))"
      using sb n(1) ne x(2,3) twos_digit_top [of ?x ?n] twos_digit_top [of y ?n] assms(4)
      by (auto simp: ds_def negative_word_bit bit_xor_iff)
    then have nz: "dval ds \<noteq> 0" using top_digit_nz [OF n(3)] n(2) by simp
    have "?res = (sexp_set_twos_complement ?r)\<lparr>sexp_bignum_sign := - 1\<rparr>"
      unfolding eq using False sg x(2) by (auto simp: negate_bignum_def sexp_set_twos_complement_def Let_def)
    then show ?thesis
      using complement_int [of ?r "(sexp_set_twos_complement ?r)\<lparr>sexp_bignum_sign := - 1\<rparr>"] n(3) nz False by simp
  qed
  then show "bignum_ok ?res" "bn_int ?res = bn_int x XOR twos_int y" using val by simp_all
qed

lemma change_low_digit_val:
  assumes "bignum_ok x" "bn_int x \<noteq> 0"
    and op: "\<And>ds s. ds \<noteq> [] \<Longrightarrow> bits_int (ds[0 := f (ds ! 0)]) s = iop (bits_int ds s) k"
    and nz: "sexp_bignum_sign x < 0 \<Longrightarrow>
      dval ((sexp_bignum_data (twos_complement x))[0 := f (sexp_bignum_data (twos_complement x) ! 0)]) \<noteq> 0"
  shows "bignum_ok (change_low_digit f x)" "bn_int (change_low_digit f x) = iop (bn_int x) k"
proof -
  let ?x = "twos_complement x"
  define ds where "ds = (sexp_bignum_data ?x)[0 := f (sexp_bignum_data ?x ! 0)]"
  note x = twos_complement_val [OF assms(1,2)]
  have ne: "sexp_bignum_data ?x \<noteq> []" "ds \<noteq> []" and sg: "sexp_bignum_sign x \<in> {1, - 1}"
    using assms(1) x(4) by (auto simp: bignum_ok_def ds_def)
  let ?r = "?x\<lparr>sexp_bignum_data := ds\<rparr>"
  have val: "bits_int ds (sexp_bignum_sign x < 0) = iop (bn_int x) k"
    using op [OF ne(1)] x(1,2) by (simp add: ds_def twos_int_def)
  have eq: "change_low_digit f x = (if sexp_bignum_sign x < 0 then sexp_set_twos_complement ?r else ?r)"
    by (simp add: change_low_digit_def Let_def ds_def x(2))
  have "bignum_ok (change_low_digit f x) \<and> bn_int (change_low_digit f x) = bits_int ds (sexp_bignum_sign x < 0)"
  proof (cases "sexp_bignum_sign x < 0")
    case True
    then show ?thesis
      using complement_int [of ?r "sexp_set_twos_complement ?r"] ne(2) nz x(2) sg
      by (auto simp: eq ds_def sexp_set_twos_complement_def)
  next
    case False
    then show ?thesis using positive_int [of ?r] ne(2) x(2) sg by (auto simp: eq)
  qed
  then show "bignum_ok (change_low_digit f x)" "bn_int (change_low_digit f x) = iop (bn_int x) k" using val by simp_all
qed

text \<open>A non-negative fixnum does not reach the highest bit.\<close>

lemma low_digit_nz:
  assumes "sign_bit x" "bignum_ok x" "sexp_bignum_sign x < 0" "\<And>d. negative_word d \<Longrightarrow> negative_word (f d)"
  shows "dval ((sexp_bignum_data x)[0 := f (sexp_bignum_data x ! 0)]) \<noteq> 0"
proof (rule top_digit_nz)
  show "(sexp_bignum_data x)[0 := f (sexp_bignum_data x ! 0)] \<noteq> []" using assms(2) by (simp add: bignum_ok_def)
  have "negative_word (sexp_bignum_data x ! (sexp_bignum_length x - 1))" using assms(1,3) by (simp add: sign_bit_def)
  then show "negative_word ((sexp_bignum_data x)[0 := f (sexp_bignum_data x ! 0)] !
      (length ((sexp_bignum_data x)[0 := f (sexp_bignum_data x ! 0)]) - 1))"
    using assms(2,4) by (cases "sexp_bignum_length x - 1") (auto simp: bignum_ok_def nth_list_update)
qed

lemma fixnum_words:
  assumes "fits_fixnum k" "0 \<le> k"
  shows "uint (word_of_int k :: u64) = k" "\<not> bit (word_of_int k :: u64) 63"
proof -
  show "uint (word_of_int k :: u64) = k" using assms by (simp add: uint_word_of_int fits_fixnum_def)
  show "\<not> bit (word_of_int k :: u64) 63"
    using sint_fits [OF assms(1)] assms(2) negative_word_bit [of "word_of_int k"] by simp
qed

text \<open>Operands as values: a bignum that is not a fixnum is not zero.\<close>

fun spare :: "'f sexp \<Rightarrow> bool" where
  "spare (BIGNUM b) = spare_bit b" | "spare _ = True"

lemma spare_fixnum [simp]: "spare (fixnum_obj k)"
  by (simp add: fixnum_obj_def)

lemma twos_fixnum [simp]: "sexp_twos_complement (fixnum_obj k) = fixnum_obj k"
  by (simp add: fixnum_obj_def)

lemma norm_int_cases:
  assumes "norm_int x"
  obtains (fx) k where "x = fixnum_obj k" "fits_fixnum k" "int_val x = k"
    | (bg) b where "x = BIGNUM b" "bignum_ok b" "bn_int b \<noteq> 0" "int_val x = bn_int b"
proof -
  have "exact_int x" using assms by (simp add: norm_int_def)
  then show thesis
  proof (cases rule: exact_int_cases)
    case (fx k)
    then show ?thesis using that(1) by simp
  next
    case (bg b)
    then have "bn_int b \<noteq> 0" using assms by (auto simp: norm_int_def)
    then show ?thesis using bg that(2) by simp
  qed
qed

definition is_int :: "'f sexp \<Rightarrow> int \<Rightarrow> bool" where
  "is_int r k \<longleftrightarrow> norm_int r \<and> int_val r = k"

lemma is_int_normalize: "bignum_ok b \<Longrightarrow> bn_int b = k \<Longrightarrow> is_int (sexp_bignum_normalize (BIGNUM b)) k"
  by (simp add: is_int_def normalize_val)

lemma is_int_fixnum: "fits_fixnum k \<Longrightarrow> is_int (fixnum_obj k) k"
  by (simp add: is_int_def)

lemma normalize_is_int: "is_int r k \<Longrightarrow> is_int (sexp_bignum_normalize r) k"
  by (cases r) (auto simp: is_int_def normalize_val norm_int_def normalize_exact)

lemma fits_signed: "fits_fixnum k \<longleftrightarrow> signed_take_bit 62 k = k"
  by (simp add: fits_fixnum_def signed_take_bit_int_eq_self_iff)

lemma fits_bits:
  assumes "fits_fixnum k" "fits_fixnum l"
  shows "fits_fixnum (k AND l)" "fits_fixnum (k OR l)" "fits_fixnum (k XOR l)"
proof -
  have "bit j (min 62 n) = bit j n" if "fits_fixnum j" for j n
    using that bit_signed_take_bit_iff [of 62 j n] by (simp add: fits_signed)
  then have same: "bit k (min 62 n) = bit k n" "bit l (min 62 n) = bit l n" for n using assms by blast+
  show "fits_fixnum (k AND l)" "fits_fixnum (k OR l)" "fits_fixnum (k XOR l)"
    unfolding fits_signed by (rule bit_eqI, simp add: bit_signed_take_bit_iff bit_and_iff bit_or_iff bit_xor_iff same)+
qed

lemma odd_bits: "bit (2 * k + 1 :: int) n \<longleftrightarrow> n = 0 \<or> bit k (n - 1)"
  by (cases n) (simp_all add: bit_Suc bit_0)

lemma tagged_bits:
  "fixnum_word k AND fixnum_word l = fixnum_word (k AND l)" "fixnum_word k OR fixnum_word l = fixnum_word (k OR l)"
proof -
  have "(2 * k + 1) AND (2 * l + 1) = 2 * (k AND l) + 1" "(2 * k + 1) OR (2 * l + 1) = 2 * (k OR l) + 1"
    by (rule bit_eqI, simp only: bit_and_iff bit_or_iff odd_bits, blast)+
  then show "fixnum_word k AND fixnum_word l = fixnum_word (k AND l)" "fixnum_word k OR fixnum_word l = fixnum_word (k OR l)"
    by (simp_all add: fixnum_word_alt flip: of_int_and_eq of_int_or_eq del: of_int_add of_int_mult)
qed

lemma bit_and_bignum_val:
  fixes y :: "'f sexp"
  assumes x: "bignum_ok x" "bn_int x \<noteq> 0" and y: "norm_int y"
    and sp: "bn_int x < 0 \<or> int_val y < 0 \<Longrightarrow> spare_bit x \<and> spare y"
  shows "is_int (bit_and_bignum x y) (bn_int x AND int_val y)"
  using y
proof (cases rule: norm_int_cases)
  case (fx k)
  note X = twos_complement_val [OF x]
  have neg: "sexp_bignum_sign x < 0 \<longleftrightarrow> bn_int x < 0" using x by (auto simp: bignum_ok_def bn_int_def)
  have un: "unbox_fixnum (fixnum_obj k :: 'f sexp) = word_of_int k" "sint (word_of_int k :: u64) = k"
    using fx by (simp_all add: unbox_fixnum_obj sint_fits)
  show ?thesis
  proof (cases "k < 0")
    case True
    let ?y = "sexp_fixnum_to_twos_complement (fixnum_obj k :: 'f sexp) (sexp_bignum_length (twos_complement x))"
    have "0 < sexp_bignum_length (twos_complement x)" using X(4) by (simp add: bignum_ok_def)
    note Y = fixnum_twos_val [where ?'f = 'f, OF fx(2) True this]
    have "spare_bit x" using sp fx True by simp
    then have sb: "sign_bit (twos_complement x)" using spare_sign_bit x by blast
    have ok: "bignum_ok ?y" by (rule fixnum_twos_ok [OF fx(2) True]) (use X(4) in \<open>simp add: bignum_ok_def\<close>)
    have eq: "bit_and_bignum x y = sexp_bignum_normalize (BIGNUM (and_bignums (twos_complement x) ?y))"
      using fx True un by (simp add: bit_and_bignum_def Let_def)
    show ?thesis
      unfolding eq using and_bignums_val [OF X(4) ok] sb Y fx X(1) by (intro is_int_normalize) simp_all
  next
    case False
    then have k: "uint (word_of_int k :: u64) = k" using fixnum_words fx by simp
    obtain d es where de: "sexp_bignum_data (twos_complement x) = d # es"
      using X(4) by (cases "sexp_bignum_data (twos_complement x)") (auto simp: bignum_ok_def)
    let ?v = "word_of_int k AND d"
    have v: "uint ?v = bn_int x AND k"
      using bit_and.digit_step [of d "word_of_int k" "bits_int es (sexp_bignum_sign x < 0)" 0] X(1,2) de k
        concat_digit [of ?v 0] concat_digit [of "word_of_int k" 0]
      by (simp add: twos_int_def and.commute)
    have "uint ?v \<le> k" using k by (simp add: unsigned_and_eq) (metis AND_upper1 False not_less)
    then have fit: "fits_fixnum (uint ?v)" using fx(2) by (auto simp: fits_fixnum_def intro: order_trans [of _ 0])
    then have "sint ?v = uint ?v" by (simp add: sint_u64 fits_fixnum_def)
    then have "bit_and_bignum x y = sexp_bignum_normalize (fixnum_obj (uint ?v))"
      using fx False un de
      by (simp add: bit_and_bignum_def Let_def make_fixnum_obj)
    then show ?thesis using normalize_is_int [OF is_int_fixnum [OF fit]] v fx by simp
  qed
next
  case (bg b)
  have neg: "sexp_bignum_sign z < 0 \<longleftrightarrow> bn_int z < 0" if "bignum_ok z" "bn_int z \<noteq> 0" for z
    using that by (auto simp: bignum_ok_def bn_int_def)
  note X = twos_complement_val [OF x] and B = twos_complement_val [OF bg(2,3)]
  have eq: "bit_and_bignum x y = sexp_bignum_normalize (BIGNUM (and_bignums (twos_complement x) (twos_complement b)))"
    using bg by (simp add: bit_and_bignum_def)
  show ?thesis
    unfolding eq using and_bignums_val [OF X(4) B(4)] sp spare_sign_bit [OF x] spare_sign_bit [OF bg(2,3)] X B bg neg [OF x] neg [OF bg(2,3)]
    by (intro is_int_normalize) auto
qed

lemma bignum_negative: "bignum_ok z \<Longrightarrow> bn_int z \<noteq> 0 \<Longrightarrow> sexp_bignum_sign z < 0 \<longleftrightarrow> bn_int z < 0"
  by (auto simp: bignum_ok_def bn_int_def)

lemma low_digit_or_nz:
  assumes "bignum_ok x" "bn_int x \<noteq> 0" "sexp_bignum_sign x < 0"
  shows "dval ((sexp_bignum_data (twos_complement x))[0 := sexp_bignum_data (twos_complement x) ! 0 OR w]) \<noteq> 0"
proof -
  let ?ds = "sexp_bignum_data (twos_complement x)"
  have "?ds \<noteq> []" using twos_complement_val(4) [OF assms(1,2)] by (simp add: bignum_ok_def)
  then obtain d es where de: "?ds = d # es" by (cases ?ds) auto
  have "dval ?ds \<noteq> 0"
    using set_twos_val(2) [of "sexp_bignum_data x"] dval_less [of "sexp_bignum_data x"] assms
    by (auto simp: twos_complement_def copy_same sexp_set_twos_complement_def bignum_ok_def bn_int_def bn_nat_def)
  moreover have "d = 0" if "d OR w = 0" using that by (simp add: or_eq_0_iff)
  ultimately show ?thesis by (auto simp: de dval_eq_0_iff unat_eq_zero)
qed

lemma bit_ior_bignum_val:
  fixes y :: "'f sexp"
  assumes x: "bignum_ok x" "bn_int x \<noteq> 0" and y: "norm_int y"
    and sp: "bn_int x < 0 \<or> int_val y < 0 \<Longrightarrow> spare_bit x \<and> spare y"
  shows "\<exists>r. bit_ior_bignum x y = BIGNUM r \<and> bignum_ok r \<and> bn_int r = bn_int x OR int_val y"
  using y
proof (cases rule: norm_int_cases)
  case (fx k)
  have un: "unbox_fixnum (fixnum_obj k :: 'f sexp) = word_of_int k" "sint (word_of_int k :: u64) = k"
    using fx by (simp_all add: unbox_fixnum_obj sint_fits)
  show ?thesis
  proof (cases "k < 0")
    case True
    have "0 < sexp_bignum_length x" using x by (simp add: bignum_ok_def)
    note Y = fixnum_twos_val [where ?'f = 'f, OF fx(2) True this] and ok = fixnum_twos_ok [where ?'f = 'f, OF fx(2) True this]
    have "sign_bit (twos_complement x)" using sp fx True spare_sign_bit x by simp
    then show ?thesis
      using ior_bignums_val [OF x ok] Y fx un True by (simp add: bit_ior_bignum_def)
  next
    case False
    then have k: "uint (word_of_int k :: u64) = k" using fixnum_words fx by simp
    have op: "bits_int (ds[0 := ds ! 0 OR word_of_int k]) s = bits_int ds s OR k" if "ds \<noteq> []" for ds s
      using bit_or.low_digit_op [OF that, of "word_of_int k" s] k by simp
    show ?thesis
      using change_low_digit_val [OF x, of "\<lambda>d. d OR word_of_int k" "(OR)" k, OF op low_digit_or_nz [OF x]] fx un False
      by (simp add: bit_ior_bignum_def)
  qed
next
  case (bg b)
  note X = twos_complement_val [OF x] and B = twos_complement_val [OF bg(2,3)]
    and neg = bignum_negative [OF x] bignum_negative [OF bg(2,3)] and sb = spare_sign_bit [OF x] spare_sign_bit [OF bg(2,3)]
  show ?thesis
  proof (cases "sexp_bignum_length b \<le> sexp_bignum_length x")
    case True
    then show ?thesis using ior_bignums_val [OF x B(4)] X B neg sb sp bg by (auto simp: bit_ior_bignum_def)
  next
    case False
    then show ?thesis using ior_bignums_val [OF bg(2,3) X(4)] X B neg sb sp bg by (auto simp: bit_ior_bignum_def or.commute)
  qed
qed

text \<open>The lengths for which the exclusive or of two bignums is computed over all digits.\<close>

fun xor_lengths :: "'f sexp \<Rightarrow> 'f sexp \<Rightarrow> bool" where
  "xor_lengths (BIGNUM x) (BIGNUM y) \<longleftrightarrow>
    sexp_bignum_length x = sexp_bignum_length y \<or> sexp_bignum_length y < sexp_bignum_length x \<and> 0 < bn_int y"
| "xor_lengths _ _ \<longleftrightarrow> True"

lemma bit_xor_bignum_val:
  fixes y :: "'f sexp"
  assumes x: "bignum_ok x" "bn_int x \<noteq> 0" and y: "norm_int y"
    and sp: "bn_int x < 0 \<or> int_val y < 0 \<Longrightarrow> spare_bit x \<and> spare y" and len: "xor_lengths (BIGNUM x) y"
  shows "\<exists>r. bit_xor_bignum x y = BIGNUM r \<and> bignum_ok r \<and> bn_int r = bn_int x XOR int_val y"
  using y
proof (cases rule: norm_int_cases)
  case (fx k)
  have un: "unbox_fixnum (fixnum_obj k :: 'f sexp) = word_of_int k" "sint (word_of_int k :: u64) = k"
    using fx by (simp_all add: unbox_fixnum_obj sint_fits)
  show ?thesis
  proof (cases "k < 0")
    case True
    have "0 < sexp_bignum_length x" using x by (simp add: bignum_ok_def)
    note Y = fixnum_twos_val [where ?'f = 'f, OF fx(2) True this] and ok = fixnum_twos_ok [where ?'f = 'f, OF fx(2) True this]
    have "sign_bit (twos_complement x)" using sp fx True spare_sign_bit x by simp
    then show ?thesis
      using xor_bignums_val [OF x ok] Y fx un True by (simp add: bit_xor_bignum_def)
  next
    case False
    then have k: "uint (word_of_int k :: u64) = k" "\<not> bit (word_of_int k :: u64) 63" using fixnum_words fx by simp_all
    have op: "bits_int (ds[0 := ds ! 0 XOR word_of_int k]) s = bits_int ds s XOR k" if "ds \<noteq> []" for ds s
      using bit_xor.low_digit_op [OF that, of "word_of_int k" s] k by simp
    have nz: "dval ((sexp_bignum_data (twos_complement x))[0 := sexp_bignum_data (twos_complement x) ! 0 XOR word_of_int k]) \<noteq> 0"
      if "sexp_bignum_sign x < 0"
      using twos_complement_val [OF x] that sp bignum_negative [OF x] spare_sign_bit [OF x] k(2)
      by (intro low_digit_nz [where f = "\<lambda>d. d XOR word_of_int k"]) (simp_all add: negative_word_bit bit_xor_iff)
    show ?thesis
      using change_low_digit_val [OF x, of "\<lambda>d. d XOR word_of_int k" "(XOR)" k, OF op nz] fx un False
      by (simp add: bit_xor_bignum_def)
  qed
next
  case (bg b)
  note X = twos_complement_val [OF x] and B = twos_complement_val [OF bg(2,3)]
    and neg = bignum_negative [OF x] bignum_negative [OF bg(2,3)] and sb = spare_sign_bit [OF x] spare_sign_bit [OF bg(2,3)]
  have "sexp_bignum_length b \<le> sexp_bignum_length x" "bn_int b < 0 \<Longrightarrow> sexp_bignum_length b = sexp_bignum_length x"
    using len bg(1) by auto
  then show ?thesis using xor_bignums_val [OF x B(4)] X B neg sb sp bg by (auto simp: bit_xor_bignum_def)
qed

subsection \<open>The operators\<close>

lemma bit_and_int:
  fixes x y :: "'f sexp"
  assumes "norm_int x" "norm_int y" and sp: "int_val x < 0 \<or> int_val y < 0 \<Longrightarrow> spare x \<and> spare y"
  shows "is_int (sexp_bit_and x y) (int_val x AND int_val y)"
  using assms(1)
proof (cases rule: norm_int_cases)
  case fx: (fx k)
  show ?thesis
    using assms(2)
  proof (cases rule: norm_int_cases)
    case (fx l)
    then have "sexp_bit_and x y = fixnum_obj (k AND l)" using \<open>x = fixnum_obj k\<close> by (simp add: sexp_bit_and_def tagged_bits fixnum_obj_def)
    then show ?thesis using fits_bits \<open>x = fixnum_obj k\<close> \<open>fits_fixnum k\<close> fx by (simp add: is_int_fixnum)
  next
    case (bg b)
    then show ?thesis using bit_and_bignum_val [OF bg(2,3) assms(1)] sp fx by (auto simp: sexp_bit_and_def and.commute)
  qed
next
  case (bg b)
  then show ?thesis using bit_and_bignum_val [OF bg(2,3) assms(2)] sp by (auto simp: sexp_bit_and_def)
qed

lemma bit_ior_int:
  fixes x y :: "'f sexp"
  assumes "norm_int x" "norm_int y" and sp: "int_val x < 0 \<or> int_val y < 0 \<Longrightarrow> spare x \<and> spare y"
  shows "is_int (sexp_bit_ior x y) (int_val x OR int_val y)"
  using assms(1)
proof (cases rule: norm_int_cases)
  case fx: (fx k)
  show ?thesis
    using assms(2)
  proof (cases rule: norm_int_cases)
    case (fx l)
    then have "sexp_bit_ior x y = sexp_bignum_normalize (fixnum_obj (k OR l))"
      using \<open>x = fixnum_obj k\<close> by (simp add: sexp_bit_ior_def tagged_bits fixnum_obj_def)
    then show ?thesis using fits_bits \<open>x = fixnum_obj k\<close> \<open>fits_fixnum k\<close> fx by (simp add: is_int_fixnum normalize_is_int)
  next
    case (bg b)
    then obtain r where "bit_ior_bignum b x = BIGNUM r" "bignum_ok r" "bn_int r = bn_int b OR int_val x"
      using bit_ior_bignum_val [OF bg(2,3) assms(1)] sp by auto
    then show ?thesis using fx bg by (simp add: sexp_bit_ior_def normalize_is_int is_int_normalize or.commute)
  qed
next
  case (bg b)
  then obtain r where "bit_ior_bignum b y = BIGNUM r" "bignum_ok r" "bn_int r = bn_int b OR int_val y"
    using bit_ior_bignum_val [OF bg(2,3) assms(2)] sp by auto
  then show ?thesis using bg by (simp add: sexp_bit_ior_def is_int_normalize)
qed

lemma xor_fixnums:
  assumes "fits_fixnum k" "fits_fixnum l"
  shows "sint (word_of_int k XOR word_of_int l :: u64) = k XOR l"
  using sint_fits [OF fits_bits(3) [OF assms]] by (simp flip: of_int_xor_eq)

lemma bit_xor_int:
  fixes x y :: "'f sexp"
  assumes "norm_int x" "norm_int y" and sp: "int_val x < 0 \<or> int_val y < 0 \<Longrightarrow> spare x \<and> spare y" and len: "xor_lengths x y"
  shows "is_int (sexp_bit_xor x y) (int_val x XOR int_val y)"
  using assms(1)
proof (cases rule: norm_int_cases)
  case fx: (fx k)
  show ?thesis
    using assms(2)
  proof (cases rule: norm_int_cases)
    case (fx l)
    then have "sexp_bit_xor x y = sexp_bignum_normalize (fixnum_obj (k XOR l))"
      using \<open>x = fixnum_obj k\<close> \<open>fits_fixnum k\<close> by (simp add: sexp_bit_xor_def make_fixnum_obj unbox_fixnum_obj xor_fixnums)
    then show ?thesis using fits_bits \<open>x = fixnum_obj k\<close> \<open>fits_fixnum k\<close> fx by (simp add: is_int_fixnum normalize_is_int)
  next
    case (bg b)
    have "xor_lengths (BIGNUM b) x" using fx by (simp add: fixnum_obj_def)
    then obtain r where "bit_xor_bignum b x = BIGNUM r" "bignum_ok r" "bn_int r = bn_int b XOR int_val x"
      using bit_xor_bignum_val [OF bg(2,3) assms(1)] sp bg by auto
    then show ?thesis using fx bg by (simp add: sexp_bit_xor_def normalize_is_int is_int_normalize xor.commute)
  qed
next
  case (bg b)
  then obtain r where "bit_xor_bignum b y = BIGNUM r" "bignum_ok r" "bn_int r = bn_int b XOR int_val y"
    using bit_xor_bignum_val [OF bg(2,3) assms(2)] sp len by auto
  then show ?thesis using bg by (simp add: sexp_bit_xor_def is_int_normalize)
qed

end
