(* ===== verification/Shifts.thy ===== *)
theory Shifts
  imports Bits
begin

text \<open>Correctness of the arithmetic shift, and of the bit counts of single words.\<close>

subsection \<open>Shifting digits\<close>

lemma shr_loop_val:
  assumes "k < 64" "shr_loop k ds = (es, t)"
  shows "length es = length ds" "dval es = dval ds div 2 ^ k" "unat t = dval ds mod 2 ^ k * 2 ^ (64 - k)"
proof -
  have "length es = length ds \<and> dval es = dval ds div 2 ^ k \<and> unat t = dval ds mod 2 ^ k * 2 ^ (64 - k)"
    using assms(2)
  proof (induction ds arbitrary: es t)
    case (Cons d ds)
    obtain es' u where r: "shr_loop k ds = (es', u)" by fastforce
    then have es: "es = (drop_bit k d + u) # es'" and t: "t = (if k \<noteq> 0 then push_bit (64 - k) d else u)"
      using Cons.prems by simp_all
    have IH: "length es' = length ds" "dval es' = dval ds div 2 ^ k" "unat u = dval ds mod 2 ^ k * 2 ^ (64 - k)"
      using Cons.IH [OF r] by simp_all
    have p: "(2 :: nat) ^ 64 = 2 ^ k * 2 ^ (64 - k)" using assms(1) by (simp flip: power_add)
    have dk: "unat d div 2 ^ k < 2 ^ (64 - k)" using unat_u64_bound [of d] unfolding p by (simp add: less_mult_imp_div_less mult.commute)
    have "dval ds mod 2 ^ k + 1 \<le> 2 ^ k" by (simp add: Suc_leI)
    then have "(dval ds mod 2 ^ k + 1) * 2 ^ (64 - k) \<le> 2 ^ k * 2 ^ (64 - k)" by (rule mult_le_mono1)
    then have "unat u + 2 ^ (64 - k) \<le> 2 ^ 64" using IH(3) p by simp
    then have sum: "unat (drop_bit k d + u) = unat d div 2 ^ k + unat u"
      using dk by (simp add: unat_add_mod unat_shr)
    have "dval (d # ds) = unat d + 2 ^ k * (2 ^ (64 - k) * dval ds)" using p by (simp only: dval.simps mult.assoc)
    then have q: "dval (d # ds) div 2 ^ k = unat d div 2 ^ k + 2 ^ (64 - k) * dval ds" "dval (d # ds) mod 2 ^ k = unat d mod 2 ^ k"
      by (simp_all del: dval.simps)
    have "2 ^ (64 - k) * dval ds = 2 ^ (64 - k) * (2 ^ k * (dval ds div 2 ^ k) + dval ds mod 2 ^ k)" by simp
    also have "\<dots> = 2 ^ 64 * dval es' + unat u" using IH p by (simp only: distrib_left) (simp only: mult.commute mult.left_commute mult.assoc)
    finally have "dval es = dval (d # ds) div 2 ^ k" using q(1) sum es by simp
    moreover have "unat t = dval (d # ds) mod 2 ^ k * 2 ^ (64 - k)"
    proof (cases "k = 0")
      case True
      then show ?thesis using t IH(3) by simp
    next
      case False
      have "unat d * 2 ^ (64 - k) mod (2 ^ k * 2 ^ (64 - k)) = unat d mod 2 ^ k * 2 ^ (64 - k)" by (rule mult_mod_left [symmetric])
      then show ?thesis using t False q(2) unfolding p [symmetric] by (simp add: unat_shl)
    qed
    ultimately show ?case using es IH(1) by simp
  qed simp
  then show "length es = length ds" "dval es = dval ds div 2 ^ k" "unat t = dval ds mod 2 ^ k * 2 ^ (64 - k)" by simp_all
qed

lemma shl_loop_val:
  assumes "k < 64" "unat tmp < 2 ^ k" "shl_loop k tmp ds = (es, t)"
  shows "length es = length ds" "dval es + 2 ^ (64 * length ds) * unat t = 2 ^ k * dval ds + unat tmp" "unat t < 2 ^ k"
proof -
  have "length es = length ds \<and> dval es + 2 ^ (64 * length ds) * unat t = 2 ^ k * dval ds + unat tmp \<and> unat t < 2 ^ k"
    using assms(2,3)
  proof (induction ds arbitrary: tmp es t)
    case (Cons d ds)
    let ?u = "if k \<noteq> 0 then drop_bit (64 - k) d else tmp"
    obtain es' t' where r: "shl_loop k ?u ds = (es', t')" by fastforce
    then have es: "es = (push_bit k d + tmp) # es'" "t = t'" using Cons.prems(2) by simp_all
    have p: "(2 :: nat) ^ 64 = 2 ^ k * 2 ^ (64 - k)" "(2 :: nat) ^ 64 = 2 ^ (64 - k) * 2 ^ k" using assms(1) by (simp_all flip: power_add)
    have u: "unat ?u = unat d div 2 ^ (64 - k)"
      using Cons.prems(1) unat_u64_bound [of d] by (cases "k = 0") (simp_all add: unat_shr)
    have ul: "unat ?u < 2 ^ k" unfolding u using unat_u64_bound [of d] p(1) by (simp add: less_mult_imp_div_less)
    have IH: "length es' = length ds" "dval es' + 2 ^ (64 * length ds) * unat t = 2 ^ k * dval ds + unat ?u" "unat t < 2 ^ k"
      using Cons.IH [OF ul r] es(2) by simp_all
    have low: "unat (push_bit k d) = unat d mod 2 ^ (64 - k) * 2 ^ k"
    proof -
      have "unat (push_bit k d) = unat d * 2 ^ k mod 2 ^ 64" by (simp add: unat_shl)
      also have "\<dots> = unat d mod 2 ^ (64 - k) * 2 ^ k" unfolding p(2) by (rule mult_mod_left [symmetric])
      finally show ?thesis .
    qed
    have "unat d mod 2 ^ (64 - k) + 1 \<le> 2 ^ (64 - k)" by (simp add: Suc_leI)
    then have "(unat d mod 2 ^ (64 - k) + 1) * 2 ^ k \<le> 2 ^ (64 - k) * 2 ^ k" by (rule mult_le_mono1)
    then have "unat (push_bit k d) + 2 ^ k \<le> 2 ^ 64" using low p(2) by simp
    then have sum: "unat (push_bit k d + tmp) = unat d mod 2 ^ (64 - k) * 2 ^ k + unat tmp"
      using Cons.prems(1) low by (simp add: unat_add_mod)
    have split: "2 ^ k * unat d = unat d mod 2 ^ (64 - k) * 2 ^ k + 2 ^ 64 * (unat d div 2 ^ (64 - k))"
    proof -
      have "2 ^ k * unat d = 2 ^ k * (2 ^ (64 - k) * (unat d div 2 ^ (64 - k)) + unat d mod 2 ^ (64 - k))" by simp
      then show ?thesis unfolding p(1) by (simp only: distrib_left mult.assoc [symmetric]) (simp only: add.commute mult.commute)
    qed
    have "dval es + 2 ^ (64 * length (d # ds)) * unat t = unat (push_bit k d + tmp) + 2 ^ 64 * (dval es' + 2 ^ (64 * length ds) * unat t)"
      using es by (simp add: power_add distrib_left)
    also have "\<dots> = 2 ^ k * dval (d # ds) + unat tmp"
      unfolding IH(2) sum u using split by (simp add: distrib_left mult.left_commute)
    finally show ?case using es IH by simp
  qed simp
  then show "length es = length ds" "dval es + 2 ^ (64 * length ds) * unat t = 2 ^ k * dval ds + unat tmp" "unat t < 2 ^ k" by simp_all
qed

subsection \<open>Shifting bignums\<close>

lemma shift_left_val:
  assumes "bignum_ok b"
  shows "\<exists>r. (shift_left_bignum b c :: 'f sexp) = BIGNUM r \<and> bignum_ok r \<and> bn_int r = bn_int b * 2 ^ c"
proof -
  let ?off = "c div 64" and ?k = "c mod 64" and ?hi = "sexp_bignum_hi b"
  obtain es t where r: "shl_loop ?k 0 (take ?hi (sexp_bignum_data b)) = (es, t)" by fastforce
  have len: "length (take ?hi (sexp_bignum_data b)) = ?hi" using hi_le_length [of b] assms by (simp add: bignum_ok_def)
  have e: "length es = ?hi" "dval es + 2 ^ (64 * ?hi) * unat t = 2 ^ ?k * bn_nat b" "unat t < 2 ^ ?k"
    using shl_loop_val [OF _ _ r] len by (simp_all add: bn_nat_take_hi)
  have t0: "unat (if ?k \<noteq> 0 then t else 0) = unat t" using e(3) by auto
  have c: "c - ?off * 64 = ?k" by (simp add: minus_div_mult_eq_mod)
  let ?r = "\<lparr>sexp_bignum_sign = sexp_bignum_sign b, sexp_bignum_data = replicate ?off 0 @ es @ [if ?k \<noteq> 0 then t else 0]\<rparr>"
  have "dval (sexp_bignum_data ?r) = 2 ^ (64 * ?off) * (dval es + 2 ^ (64 * ?hi) * unat t)"
    using e(1) t0 by (simp add: dval_append split del: if_split)
  also have "\<dots> = 2 ^ c * bn_nat b"
  proof -
    have "(2 :: nat) ^ c = 2 ^ (64 * ?off) * 2 ^ ?k" by (simp flip: power_add)
    then show ?thesis unfolding e(2) by simp
  qed
  finally have "bn_int ?r = bn_int b * 2 ^ c" by (simp add: bn_int_def bn_nat_def mult.commute mult.left_commute)
  moreover have "(shift_left_bignum b c :: 'f sexp) = BIGNUM ?r" unfolding shift_left_bignum_def Let_def c r by simp
  moreover have "bignum_ok ?r" using assms by (simp add: bignum_ok_def)
  ultimately show ?thesis by blast
qed

text \<open>
  The right shift of a bignum: the magnitude is shifted, and one is added for a negative number.
  Where all bits are shifted out the result is 0 or -1.
\<close>

definition shifted_right :: "bignum \<Rightarrow> nat \<Rightarrow> int" where
  "shifted_right b c =
    (if bn_int b < 0 then - int (bn_nat b div 2 ^ c) - 1 else int (bn_nat b div 2 ^ c))"

lemma shift_right_val:
  assumes b: "bignum_ok b" "bn_int b \<noteq> 0"
  shows "is_int (sexp_bignum_normalize (shift_right_bignum b c :: 'f sexp)) (shifted_right b c)"
proof -
  let ?off = "c div 64" and ?k = "c mod 64" and ?hi = "sexp_bignum_hi b"
  have c: "c - ?off * 64 = ?k" by (simp add: minus_div_mult_eq_mod)
  have neg: "sexp_bignum_sign b < 0 \<longleftrightarrow> bn_int b < 0" "sexp_bignum_sign b > 0 \<longleftrightarrow> \<not> bn_int b < 0"
    using b by (auto simp: bignum_ok_def bn_int_def)
  show ?thesis
  proof (cases "?hi < ?off")
    case True
    have "bn_nat b < 2 ^ (64 * ?hi)" by (rule bn_nat_less_hi)
    also have "\<dots> \<le> 2 ^ c" using True by (intro power_increasing) auto
    finally have "bn_nat b div 2 ^ c = 0" by simp
    then have "shifted_right b c = (if bn_int b < 0 then - 1 else 0)" by (simp add: shifted_right_def)
    moreover have "(shift_right_bignum b c :: 'f sexp) = fixnum_obj (if bn_int b < 0 then - 1 else 0)"
      using True neg(2) by (simp add: shift_right_bignum_def make_fixnum_obj)
    ultimately show ?thesis by (simp add: normalize_is_int is_int_fixnum)
  next
    case False
    let ?ds = "drop ?off (take ?hi (sexp_bignum_data b))"
    obtain es t where r: "shr_loop ?k ?ds = (es, t)" by fastforce
    let ?r = "\<lparr>sexp_bignum_sign = sexp_bignum_sign b, sexp_bignum_data = es @ [0]\<rparr>"
    have ok: "bignum_ok ?r" using b(1) by (simp add: bignum_ok_def)
    have "bn_nat b = dval (take ?off (take ?hi (sexp_bignum_data b))) + 2 ^ (64 * ?off) * dval ?ds"
      using dval_split [of ?off "take ?hi (sexp_bignum_data b)"] hi_le_length [of b] b(1) False
      by (simp add: bn_nat_take_hi bignum_ok_def)
    moreover have "dval (take ?off (take ?hi (sexp_bignum_data b))) < 2 ^ (64 * ?off)" by (rule dval_take_less)
    ultimately have "bn_nat b div 2 ^ (64 * ?off) = dval ?ds" by simp
    then have "dval es = bn_nat b div 2 ^ (64 * ?off) div 2 ^ ?k" using shr_loop_val(2) [OF _ r] by simp
    also have "\<dots> = bn_nat b div 2 ^ (64 * ?off + ?k)" by (simp only: div_mult2_eq power_add)
    also have "64 * ?off + ?k = c" by simp
    finally have v: "bn_nat ?r = bn_nat b div 2 ^ c" by (simp add: bn_nat_def dval_append)
    have eq: "(shift_right_bignum b c :: 'f sexp) = BIGNUM (if bn_int b < 0 then sexp_bignum_fxadd ?r 1 else ?r)"
      using False by (simp add: shift_right_bignum_def Let_def c r neg(1))
    show ?thesis
    proof (cases "bn_int b < 0")
      case True
      then have "sexp_bignum_sign b = - 1" using b neg by (auto simp: bignum_ok_def)
      then show ?thesis
        unfolding eq using True fxadd_val [OF ok, of 1] v by (simp add: is_int_normalize bn_int_def shifted_right_def)
    next
      case False
      then have "sexp_bignum_sign b = 1" using b neg by (auto simp: bignum_ok_def)
      then show ?thesis unfolding eq using False ok v by (simp add: is_int_normalize bn_int_def shifted_right_def)
    qed
  qed
qed

subsection \<open>The arithmetic shift\<close>

lemma log2i_loop_val:
  assumes "log2i_loop v n i = j" "i + n = 64" "j < 63"
  shows "unat v < 2 ^ (j + 1)"
  using assms
proof (induction v n i rule: log2i_loop.induct)
  case (2 v n i)
  show ?case
  proof (cases "push_bit (i + 1) 1 > v")
    case True
    then have "j = i" using 2(2) by simp
    moreover have "unat (push_bit (i + 1) 1 :: u64) = 2 ^ (i + 1)"
    proof -
      have "unat (push_bit (i + 1) 1 :: u64) = 2 ^ (i + 1) mod 2 ^ 64" by (simp only: unat_shl) simp
      also have "\<dots> = 2 ^ (i + 1)" using 2(4) \<open>j = i\<close> by (intro mod_less power_strict_increasing) auto
      finally show ?thesis .
    qed
    ultimately show ?thesis using True by (simp add: word_less_nat_alt)
  next
    case False
    then show ?thesis using 2 by simp
  qed
qed simp

lemma shift_fixnum_left:
  assumes k: "fits_fixnum k" and c: "0 < c" "int (log2i (word_of_int k)) + c + 1 < 63"
  shows "fits_fixnum (k * 2 ^ nat c)"
    "sint (push_bit (nat c) (word_of_int k) * word_of_int (if k < 0 then - 1 else 1) :: u64) = k * 2 ^ nat c"
proof -
  let ?j = "log2i (word_of_int k)"
  have j: "?j + nat c + 1 < 63" using c by linarith
  have u: "unat (word_of_int k :: u64) < 2 ^ (?j + 1)"
    using log2i_loop_val [of "word_of_int k" 64 0 ?j] j by (simp add: log2i_def)
  also have "\<dots> \<le> 2 ^ 62" using j by (intro power_increasing) auto
  finally have "unat (word_of_int k :: u64) < 2 ^ 62" .
  then have "\<not> negative_word (word_of_int k)" unfolding negative_word_unat by simp
  then have k0: "0 \<le> k" using sint_fits [OF k] by simp
  then have ku: "uint (word_of_int k :: u64) = k" using fixnum_words [OF k] by simp
  have "k < 2 ^ (?j + 1)" using u ku by (metis of_nat_less_iff of_nat_numeral of_nat_power uint_nat)
  then have "k * 2 ^ nat c < 2 ^ (?j + 1) * 2 ^ nat c" by simp
  also have "\<dots> = 2 ^ (?j + nat c + 1)" by (simp flip: power_add power_Suc add: add.commute)
  also have "\<dots> \<le> (2 :: int) ^ 62" using j by (intro power_increasing) auto
  finally have lt: "k * 2 ^ nat c < 2 ^ 62" .
  then show fit: "fits_fixnum (k * 2 ^ nat c)" using k0 by (auto simp: fits_fixnum_def intro: order_trans [of _ 0])
  have "push_bit (nat c) (word_of_int k :: u64) = word_of_int (k * 2 ^ nat c)" by (simp add: push_bit_eq_mult)
  then show "sint (push_bit (nat c) (word_of_int k) * word_of_int (if k < 0 then - 1 else 1) :: u64) = k * 2 ^ nat c"
    using k0 sint_fits [OF fit] by simp
qed

lemma shift_fixnum_right:
  assumes "fits_fixnum k"
  shows "sint (signed_drop_bit n (word_of_int k) :: u64) = k div 2 ^ n" "fits_fixnum (k div 2 ^ n)"
proof -
  show "sint (signed_drop_bit n (word_of_int k) :: u64) = k div 2 ^ n"
    using sint_fits [OF assms] by (simp add: sint_signed_drop_bit_eq drop_bit_eq_div)
  have "k div 2 ^ n \<le> k" if "0 \<le> k" using that zdiv_mono2 [of k 1 "2 ^ n"] by simp
  moreover have "k \<le> k div 2 ^ n" if "k < 0"
    using that zdiv_mono2_neg [of k 1 "2 ^ n"] by simp
  moreover have "0 \<le> k \<Longrightarrow> 0 \<le> k div 2 ^ n" "k < 0 \<Longrightarrow> k div 2 ^ n < 0" by (simp_all add: pos_imp_zdiv_nonneg_iff neg_imp_zdiv_neg_iff div_neg_pos_less0)
  ultimately show "fits_fixnum (k div 2 ^ n)" using assms unfolding fits_fixnum_def by (cases "0 \<le> k") auto
qed

text \<open>What the shift by \<open>c\<close> returns, on every branch.\<close>

definition shift_result :: "'f sexp \<Rightarrow> int \<Rightarrow> int" where
  "shift_result i c =
    (if 0 \<le> c then int_val i * 2 ^ nat c
     else if sexp_fixnump i then (if - 64 < c then int_val i div 2 ^ nat (- c) else 0)
     else shifted_right (bignum_object i) (nat (- c)))"

lemma arithmetic_shift_int:
  fixes i :: "'f sexp"
  assumes i: "norm_int i" and c: "fits_fixnum c"
  shows "is_int (sexp_arithmetic_shift i (fixnum_obj c)) (shift_result i c)"
proof -
  have cs: "sint (unbox_fixnum (fixnum_obj c :: 'f sexp)) = c" using c by (simp add: unbox_fixnum_obj sint_fits)
  have big: "is_int (shift_bignum b c :: 'f sexp) (if 0 \<le> c then bn_int b * 2 ^ nat c else shifted_right b (nat (- c)))"
    if "bignum_ok b" "bn_int b \<noteq> 0 \<or> 0 \<le> c" for b
    using shift_left_val [OF that(1), where ?'f = 'f, of "nat c"] shift_right_val [OF that(1), where ?'f = 'f, of "nat (- c)"] that
    by (auto simp: shift_bignum_def intro: is_int_normalize)
  show ?thesis
  proof (cases "c = 0")
    case True
    then show ?thesis using i cs by (simp add: sexp_arithmetic_shift_def shift_result_def is_int_def)
  next
    case c0: False
    from i show ?thesis
    proof (cases rule: norm_int_cases)
      case (fx k)
      have un: "unbox_fixnum (fixnum_obj k :: 'f sexp) = word_of_int k" using fx by (simp add: unbox_fixnum_obj)
      have sg: "sexp_fx_sign (imm_word (fixnum_obj k :: 'f sexp)) = (if k < 0 then - 1 else 1)"
        using fx by (simp add: sexp_fx_sign_value)
      show ?thesis
      proof (cases "c < 0")
        case True
        then show ?thesis
          using c0 cs fx un shift_fixnum_right [OF fx(2), of "nat (- c)"]
          by (simp add: sexp_arithmetic_shift_def Let_def shift_result_def make_fixnum_obj normalize_is_int is_int_fixnum)
      next
        case False
        then have cp: "0 < c" using c0 by simp
        let ?b = "sexp_fixnum_to_bignum (fixnum_word k)"
        have b: "bignum_ok ?b" "bn_int ?b = k" using fixnum_to_bignum_val [of "fixnum_word k"] fx by simp_all
        show ?thesis
          using c0 cs fx un sg cp shift_fixnum_left [OF fx(2) cp] big [OF b(1)] b(2)
          by (auto simp: sexp_arithmetic_shift_def Let_def shift_result_def make_fixnum_obj intro!: normalize_is_int intro: is_int_fixnum)
      qed
    next
      case (bg b)
      then show ?thesis
        using c0 cs big [OF bg(2)] by (cases "0 \<le> c") (simp_all add: sexp_arithmetic_shift_def Let_def shift_result_def)
    qed
  qed
qed

end
