(* ===== verification/Counts.thy ===== *)
theory Counts
  imports Shifts
begin

text \<open>
  Correctness of the bit counts: the parallel addition of bit fields computes the number of one
  bits, and the table look-up the length, of a word; over the digits, of a bignum.
\<close>

subsection \<open>Fields of bits\<close>

lemma bit_split: "a < 2 ^ j \<Longrightarrow> bit (a + 2 ^ j * b) n \<longleftrightarrow> (if n < j then bit a n else bit b (n - j))" for a b :: nat
proof -
  assume a: "a < 2 ^ j"
  have "bit a n \<Longrightarrow> n < j" for n
    using a by (metis bit_take_bit_iff take_bit_nat_eq_self)
  moreover have "a + 2 ^ j * b = push_bit j b OR a"
    using or_disjoint_nat [of a j b] a by (simp add: push_bit_eq_mult mult.commute add.commute)
  ultimately show ?thesis by (auto simp: bit_or_iff bit_push_bit_iff)
qed

definition ones :: "nat \<Rightarrow> nat" where
  "ones n = card {k. bit n k}"

lemma finite_bits: "finite {k. bit (n :: nat) k}"
proof (rule finite_subset)
  show "{k. bit n k} \<subseteq> {..<n}"
    by (auto simp: bit_iff_odd) (metis div_less even_zero less_exp linorder_not_less order_le_less_trans)
qed simp

lemma ones_split: "a < 2 ^ j \<Longrightarrow> ones (a + 2 ^ j * b) = ones a + ones b"
proof -
  assume a: "a < 2 ^ j"
  have low: "bit a n \<Longrightarrow> n < j" for n using a by (metis bit_take_bit_iff take_bit_nat_eq_self)
  have "{k. bit (a + 2 ^ j * b) k} = {k. bit a k} \<union> (\<lambda>k. k + j) ` {k. bit b k}"
    unfolding bit_split [OF a]
  proof (intro set_eqI iffI)
    fix k assume "k \<in> {k. if k < j then bit a k else bit b (k - j)}"
    then show "k \<in> {k. bit a k} \<union> (\<lambda>k. k + j) ` {k. bit b k}"
      by (cases "k < j") (auto intro: rev_image_eqI [of "k - j"])
  qed (auto dest: low)
  moreover have "{k. bit a k} \<inter> (\<lambda>k. k + j) ` {k. bit b k} = {}" using low by fastforce
  moreover have "card ((\<lambda>k. k + j) ` {k. bit b k}) = card {k. bit b k}" by (intro card_image inj_onI) simp
  ultimately show ?thesis by (simp add: ones_def card_Un_disjoint finite_bits)
qed

lemma ones_0 [simp]: "ones 0 = 0" "ones 1 = 1" "ones (Suc 0) = 1"
proof -
  show "ones 0 = 0" by (simp add: ones_def)
  have "{k. bit (1 :: nat) k} = {0}" by (auto simp: bit_Suc_0_iff)
  then show "ones 1 = 1" by (simp add: ones_def)
  then show "ones (Suc 0) = 1" by simp
qed

text \<open>The sum of the first \<open>k\<close> fields of width \<open>w\<close>, and every second field.\<close>

fun fsum :: "nat \<Rightarrow> nat \<Rightarrow> nat \<Rightarrow> nat" where
  "fsum w 0 n = 0"
| "fsum w (Suc k) n = n mod 2 ^ w + fsum w k (n div 2 ^ w)"

fun evens :: "nat \<Rightarrow> nat \<Rightarrow> nat \<Rightarrow> nat" where
  "evens w 0 n = 0"
| "evens w (Suc k) n = n mod 2 ^ w + 2 ^ (2 * w) * evens w k (n div 2 ^ (2 * w))"

fun emask :: "nat \<Rightarrow> nat \<Rightarrow> nat" where
  "emask w 0 = 0"
| "emask w (Suc k) = (2 ^ w - 1) + 2 ^ (2 * w) * emask w k"

lemma fsum_ones: "n < 2 ^ k \<Longrightarrow> fsum 1 k n = ones n"
proof (induction k arbitrary: n)
  case (Suc k)
  have "ones n = ones (n mod 2 + 2 ^ 1 * (n div 2))" by simp
  also have "\<dots> = ones (n mod 2) + ones (n div 2)" by (rule ones_split) simp
  also have "ones (n mod 2) = n mod 2" by (cases "even n") (auto simp: odd_iff_mod_2_eq_one)
  finally show ?case using Suc by (simp add: less_mult_imp_div_less mult.commute)
qed simp

lemma and_split:
  "a < 2 ^ j \<Longrightarrow> c < 2 ^ j \<Longrightarrow> (a + 2 ^ j * b) AND (c + 2 ^ j * d) = (a AND c) + 2 ^ j * (b AND d)" for a b c d :: nat
proof (rule bit_eqI)
  fix n assume a: "a < 2 ^ j" "c < 2 ^ j"
  have "take_bit j (a AND c) = a AND c" using a by (simp add: take_bit_nat_eq_self)
  then have "a AND c < 2 ^ j" by (metis take_bit_nat_less_exp)
  then show "bit ((a + 2 ^ j * b) AND (c + 2 ^ j * d)) n = bit ((a AND c) + 2 ^ j * (b AND d)) n"
    using a by (simp add: bit_and_iff bit_split)
qed

lemma and_emask: "n AND emask w k = evens w k n"
proof (induction k arbitrary: n)
  case (Suc k)
  let ?m = "2 ^ (2 * w) :: nat"
  have p: "(2 :: nat) ^ w \<le> ?m" by (intro power_increasing) auto
  have "n AND emask w (Suc k) = (n mod ?m + ?m * (n div ?m)) AND ((2 ^ w - 1) + ?m * emask w k)" by simp
  also have "\<dots> = (n mod ?m AND (2 ^ w - 1)) + ?m * (n div ?m AND emask w k)"
    using p by (intro and_split) (auto intro: less_le_trans [OF diff_less])
  also have "n mod ?m AND (2 ^ w - 1) = n mod 2 ^ w"
  proof -
    have "n mod ?m AND (2 ^ w - 1) = take_bit w (n mod ?m)" by (simp add: take_bit_eq_mask mask_eq_exp_minus_1)
    also have "\<dots> = n mod ?m mod 2 ^ w" by (simp add: take_bit_eq_mod)
    also have "\<dots> = n mod 2 ^ w" by (simp add: mod_mod_cancel le_imp_power_dvd)
    finally show ?thesis .
  qed
  finally show ?case using Suc by simp
qed simp

lemma field_sum_less: "1 \<le> w \<Longrightarrow> a < 2 ^ w \<Longrightarrow> b < 2 ^ w \<Longrightarrow> a + b < (2 :: nat) ^ (2 * w)"
proof -
  assume w: "1 \<le> w" "a < 2 ^ w" "b < 2 ^ w"
  have "(2 :: nat) * 2 ^ w \<le> 2 ^ w * 2 ^ w" using w(1) by (intro mult_le_mono1) (metis one_le_numeral power_increasing power_one_right)
  then show ?thesis using w by (simp add: mult_2 power_add)
qed

lemma evens_shift: "evens w (Suc k) (n div 2 ^ w) = n div 2 ^ w mod 2 ^ w + 2 ^ (2 * w) * evens w k (n div 2 ^ (2 * w) div 2 ^ w)"
  by (simp add: div_mult2_eq [symmetric] mult.commute)

lemma fsum_pairs: "1 \<le> w \<Longrightarrow> fsum (2 * w) k (evens w k n + evens w k (n div 2 ^ w)) = fsum w (2 * k) n"
proof (induction k arbitrary: n)
  case (Suc k)
  let ?m = "2 ^ (2 * w) :: nat" and ?n = "n div 2 ^ (2 * w)"
  let ?s = "n mod 2 ^ w + n div 2 ^ w mod 2 ^ w" and ?t = "evens w k ?n + evens w k (?n div 2 ^ w)"
  have "?s < ?m" using Suc.prems by (intro field_sum_less) simp_all
  moreover have e: "evens w (Suc k) n + evens w (Suc k) (n div 2 ^ w) = ?s + ?m * ?t"
    unfolding evens_shift by (simp add: distrib_left)
  ultimately have "fsum (2 * w) (Suc k) (evens w (Suc k) n + evens w (Suc k) (n div 2 ^ w)) = ?s + fsum w (2 * k) ?n"
    unfolding e fsum.simps using Suc by simp
  also have "n div 2 ^ w div 2 ^ w = ?n" by (simp add: mult_2 power_add div_mult2_eq)
  then have "?s + fsum w (2 * k) ?n = fsum w (2 * Suc k) n" by simp
  finally show ?case .
qed simp

text \<open>Fields that are small enough for the unmasked addition.\<close>

definition fields_le :: "nat \<Rightarrow> nat \<Rightarrow> nat \<Rightarrow> bool" where
  "fields_le w b n \<longleftrightarrow> (\<forall>i. n div 2 ^ (w * i) mod 2 ^ w \<le> b)"

lemma fields_le_div: "fields_le w b n \<Longrightarrow> fields_le w b (n div 2 ^ w)"
proof -
  assume a: "fields_le w b n"
  have "n div 2 ^ w div 2 ^ (w * i) = n div 2 ^ (w * Suc i)" for i by (simp add: power_add div_mult2_eq)
  then show ?thesis using a unfolding fields_le_def by metis
qed

lemma fields_le_cons: "a < 2 ^ w \<Longrightarrow> a \<le> b \<Longrightarrow> fields_le w b n \<Longrightarrow> fields_le w b (a + 2 ^ w * n)"
  unfolding fields_le_def
proof
  fix i assume a: "a < 2 ^ w" "a \<le> b" "\<forall>i. n div 2 ^ (w * i) mod 2 ^ w \<le> b"
  show "(a + 2 ^ w * n) div 2 ^ (w * i) mod 2 ^ w \<le> b"
  proof (cases i)
    case (Suc j)
    have "(a + 2 ^ w * n) div 2 ^ (w * i) = (a + 2 ^ w * n) div 2 ^ w div 2 ^ (w * j)" using Suc by (simp add: power_add div_mult2_eq)
    then show ?thesis using a by simp
  qed (use a in simp)
qed

lemma pairs_small: "fields_le 4 6 (evens 2 k n + evens 2 k (n div 2 ^ 2))"
proof (induction k arbitrary: n)
  case 0
  show ?case by (simp add: fields_le_def)
next
  case (Suc k)
  let ?n = "n div 2 ^ 4" and ?s = "n mod 2 ^ 2 + n div 2 ^ 2 mod 2 ^ 2"
  have s: "n mod 2 ^ 2 \<le> 3" "n div 2 ^ 2 mod 2 ^ 2 \<le> 3" by simp_all
  have "evens 2 (Suc k) n + evens 2 (Suc k) (n div 2 ^ 2) = ?s + 2 ^ 4 * (evens 2 k ?n + evens 2 k (?n div 2 ^ 2))"
    unfolding evens_shift by simp
  moreover have "fields_le 4 6 (?s + 2 ^ 4 * (evens 2 k ?n + evens 2 k (?n div 2 ^ 2)))"
  proof (rule fields_le_cons [OF _ _ Suc.IH])
    show le: "?s \<le> 6" using add_mono [OF s] by simp
    show "?s < 2 ^ 4" using le_less_trans [OF le, of "2 ^ 4"] by simp
  qed
  ultimately show ?case by (simp only:)
qed

lemma evens_add:
  "fields_le 4 7 n \<Longrightarrow> evens 4 k (n + n div 2 ^ 4) = evens 4 k n + evens 4 k (n div 2 ^ 4)"
proof (induction k arbitrary: n)
  case (Suc k)
  let ?n = "n div 2 ^ 8"
  define a b c where "a = n mod 16" and "b = n div 16 mod 16" and "c = n div 256 mod 16"
  define q1 q2 r where "q1 = n div 16" and "q2 = n div 256" and "r = n div 4096"
  have abc: "a \<le> 7" "b \<le> 7" "c \<le> 7"
    using Suc.prems unfolding fields_le_def a_def b_def c_def
    by (auto dest: spec [of _ 0] spec [of _ 1] spec [of _ 2])
  have q: "q1 div 16 = q2" "q2 div 16 = r" by (simp_all add: q1_def q2_def r_def flip: div_mult2_eq)
  have "n = n mod 16 + 16 * (n div 16)" "q1 = q1 mod 16 + 16 * (q1 div 16)" "q2 = q2 mod 16 + 16 * (q2 div 16)" by simp_all
  then have e: "n = a + 16 * q1" "q1 = b + 16 * q2" "q2 = c + 16 * r"
    unfolding q by (simp_all only: a_def b_def c_def q1_def q2_def)
  define s t where "s = q1 + q2" and "t = q2 + r"
  have h: "n + q1 = (a + b) + 16 * s" using e(1,2) unfolding s_def by presburger
  have h': "s = (b + c) + 16 * t" using e(2,3) unfolding s_def t_def by presburger
  have st: "(n + q1) mod 16 = a + b" "(n + q1) div 16 = s" unfolding h using abc by simp_all
  have st': "s div 16 = t" unfolding h' using abc by simp
  have "(n + q1) div 256 = t" using st(2) st' by (simp flip: div_mult2_eq)
  moreover have "q1 div 256 = r" using q by (simp flip: div_mult2_eq)
  ultimately have l: "n mod 2 ^ 4 = a" "n div 2 ^ 4 mod 2 ^ 4 = b" "?n = q2" "n div 2 ^ 4 div 2 ^ 8 = r" "?n div 2 ^ 4 = r"
    "(n + n div 2 ^ 4) mod 2 ^ 4 = a + b" "(n + n div 2 ^ 4) div 2 ^ 8 = q2 + r"
    using st(1) q(2) by (simp_all add: a_def b_def q1_def q2_def t_def)
  have "fields_le 4 7 ?n" using fields_le_div [OF fields_le_div [OF Suc.prems]] by (simp add: div_mult2_eq [symmetric])
  then have "evens 4 k (?n + ?n div 2 ^ 4) = evens 4 k ?n + evens 4 k (?n div 2 ^ 4)" by (rule Suc.IH)
  then have "evens 4 k (q2 + r) = evens 4 k q2 + evens 4 k r" using l(3,5) by simp
  then show ?case using l by simp
qed simp

text \<open>The multiplication adds all fields into the highest one.\<close>

lemma fsum_step:
  "n < 2 ^ (8 * k) \<Longrightarrow> 0 < k \<Longrightarrow> \<exists>d m. n = d + 256 * m \<and> m < 2 ^ (8 * (k - 1)) \<and> fsum 8 k n = d + fsum 8 (k - 1) m"
  by (cases k, simp, intro exI [of _ "n mod 256"] exI [of _ "n div 256"]) (simp add: power_add less_mult_imp_div_less mult.commute)

lemma middle_field: "x = l + 2 ^ 56 * f + 2 ^ 64 * h \<Longrightarrow> l < 2 ^ 56 \<Longrightarrow> f < 256 \<Longrightarrow> x mod 2 ^ 64 div 2 ^ 56 = (f :: nat)"
proof -
  assume a: "x = l + 2 ^ 56 * f + 2 ^ 64 * h" "l < 2 ^ 56" "f < 256"
  have "l + 2 ^ 56 * f < 2 ^ 64" using a(2,3) by simp
  then have "x mod 2 ^ 64 = l + 2 ^ 56 * f" unfolding a(1) by simp
  then show ?thesis using a(2) by simp
qed

lemma fsum_mult:
  assumes "n < 2 ^ 64" "fsum 8 8 n < 256"
  shows "n * 72340172838076673 mod 2 ^ 64 div 2 ^ 56 = fsum 8 8 n"
proof -
  obtain d0 m1 where 0: "n = d0 + 256 * m1" "m1 < 2 ^ (8 * 7)" "fsum 8 8 n = d0 + fsum 8 7 m1"
    using fsum_step [of n 8] assms(1) by (auto simp del: fsum.simps)
  obtain d1 m2 where 1: "m1 = d1 + 256 * m2" "m2 < 2 ^ (8 * 6)" "fsum 8 7 m1 = d1 + fsum 8 6 m2" using fsum_step [of m1 7] 0 by (auto simp del: fsum.simps)
  obtain d2 m3 where 2: "m2 = d2 + 256 * m3" "m3 < 2 ^ (8 * 5)" "fsum 8 6 m2 = d2 + fsum 8 5 m3" using fsum_step [of m2 6] 1 by (auto simp del: fsum.simps)
  obtain d3 m4 where 3: "m3 = d3 + 256 * m4" "m4 < 2 ^ (8 * 4)" "fsum 8 5 m3 = d3 + fsum 8 4 m4" using fsum_step [of m3 5] 2 by (auto simp del: fsum.simps)
  obtain d4 m5 where 4: "m4 = d4 + 256 * m5" "m5 < 2 ^ (8 * 3)" "fsum 8 4 m4 = d4 + fsum 8 3 m5" using fsum_step [of m4 4] 3 by (auto simp del: fsum.simps)
  obtain d5 m6 where 5: "m5 = d5 + 256 * m6" "m6 < 2 ^ (8 * 2)" "fsum 8 3 m5 = d5 + fsum 8 2 m6" using fsum_step [of m5 3] 4 by (auto simp del: fsum.simps)
  obtain d6 m7 where 6: "m6 = d6 + 256 * m7" "m7 < 2 ^ (8 * 1)" "fsum 8 2 m6 = d6 + fsum 8 1 m7" using fsum_step [of m6 2] 5 by (auto simp del: fsum.simps)
  obtain d7 m8 where 7: "m7 = d7 + 256 * m8" "m8 < 2 ^ (8 * 0)" "fsum 8 1 m7 = d7 + fsum 8 0 m8" using fsum_step [of m7 1] 6 by (auto simp del: fsum.simps)
  have n: "n = d0 + 2 ^ 8 * d1 + 2 ^ 16 * d2 + 2 ^ 24 * d3 + 2 ^ 32 * d4 + 2 ^ 40 * d5 + 2 ^ 48 * d6 + 2 ^ 56 * d7"
    using 0(1) 1(1) 2(1) 3(1) 4(1) 5(1) 6(1) 7(1,2) by simp
  have s: "fsum 8 8 n = d0 + d1 + d2 + d3 + d4 + d5 + d6 + d7"
    using 0(3) 1(3) 2(3) 3(3) 4(3) 5(3) 6(3) 7(3) by (simp del: fsum.simps add: fsum.simps(1))
  let ?l = "d0 + 2 ^ 8 * (d0 + d1) + 2 ^ 16 * (d0 + d1 + d2) + 2 ^ 24 * (d0 + d1 + d2 + d3)
    + 2 ^ 32 * (d0 + d1 + d2 + d3 + d4) + 2 ^ 40 * (d0 + d1 + d2 + d3 + d4 + d5)
    + 2 ^ 48 * (d0 + d1 + d2 + d3 + d4 + d5 + d6)"
  let ?h = "(d1 + d2 + d3 + d4 + d5 + d6 + d7) + 2 ^ 8 * (d2 + d3 + d4 + d5 + d6 + d7)
    + 2 ^ 16 * (d3 + d4 + d5 + d6 + d7) + 2 ^ 24 * (d4 + d5 + d6 + d7) + 2 ^ 32 * (d5 + d6 + d7)
    + 2 ^ 40 * (d6 + d7) + 2 ^ 48 * d7"
  have e: "n * 72340172838076673 = ?l + 2 ^ 56 * fsum 8 8 n + 2 ^ 64 * ?h" unfolding s by (subst n) simp
  have l: "?l < 2 ^ 56" using assms(2) unfolding s by simp
  show ?thesis using e l assms(2) by (rule middle_field)
qed

subsection \<open>The number of one bits\<close>

lemma evens_less: "evens w k n < 2 ^ (2 * w * k)"
proof (induction k arbitrary: n)
  case (Suc k)
  let ?m = "2 ^ (2 * w) :: nat"
  have "n mod 2 ^ w < 2 ^ w" by simp
  also have "(2 :: nat) ^ w \<le> ?m" by (intro power_increasing) auto
  finally have "n mod 2 ^ w + ?m * evens w k (n div ?m) < ?m * (evens w k (n div ?m) + 1)" by simp
  also have "\<dots> \<le> ?m * 2 ^ (2 * w * k)" using Suc.IH [of "n div ?m"] by (intro mult_le_mono2) simp
  finally show ?case by (simp add: power_add)
qed simp

lemma evens_decomp: "n < 2 ^ (2 * w * k) \<Longrightarrow> evens w k n + 2 ^ w * evens w k (n div 2 ^ w) = n"
proof (induction k arbitrary: n)
  case (Suc k)
  let ?m = "2 ^ (2 * w) :: nat" and ?n = "n div 2 ^ (2 * w)"
  have m: "?m = 2 ^ w * 2 ^ w" by (simp add: mult_2 power_add)
  have "?n < 2 ^ (2 * w * k)" using Suc.prems by (simp add: power_add less_mult_imp_div_less mult.commute)
  then have IH: "evens w k ?n + 2 ^ w * evens w k (?n div 2 ^ w) = ?n" by (rule Suc.IH)
  have "evens w (Suc k) n + 2 ^ w * evens w (Suc k) (n div 2 ^ w)
      = n mod 2 ^ w + 2 ^ w * (n div 2 ^ w mod 2 ^ w) + ?m * (evens w k ?n + 2 ^ w * evens w k (?n div 2 ^ w))"
    unfolding evens_shift by (simp add: distrib_left mult.left_commute)
  also have "\<dots> = n mod ?m + ?m * ?n" unfolding IH by (simp add: m mod_mult2_eq)
  finally show ?case by simp
qed simp

lemma emask_val: "(2 ^ w + 1) * emask w k + 1 = 2 ^ (2 * w * k)"
proof (induction k)
  case (Suc k)
  have "((2 :: nat) ^ w + 1) * (2 ^ w - 1) + 1 = 2 ^ (2 * w)"
    using one_le_power [of "2 :: nat" w] by (simp add: diff_mult_distrib2 mult_2 power_add)
  moreover have "(2 ^ w + 1) * emask w (Suc k) = (2 ^ w + 1) * (2 ^ w - 1) + 2 ^ (2 * w) * ((2 ^ w + 1) * emask w k)"
    by (simp only: emask.simps distrib_left mult.left_commute)
  ultimately have "(2 ^ w + 1) * emask w (Suc k) + 1 = 2 ^ (2 * w) * ((2 ^ w + 1) * emask w k + 1)" by (simp add: distrib_left)
  then show ?case unfolding Suc.IH by (simp add: power_add)
qed simp

lemma masks:
  "unat ((- 1) div 3 :: u64) = emask 1 32" "unat ((- 1) div 15 * 3 :: u64) = emask 2 16" "unat ((- 1) div 255 * 15 :: u64) = emask 4 8"
  "unat ((- 1) div 255 :: u64) = 72340172838076673"
proof -
  have e: "emask (Suc 0) 32 = 6148914691236517205" "emask 2 16 = 3689348814741910323" "emask 4 8 = 1085102592571150095"
    using emask_val [of 1 32] emask_val [of 2 16] emask_val [of 4 8] by simp_all
  have m: "unat (- 1 :: u64) = 18446744073709551615" by (simp add: unsigned_minus_1_eq_mask mask_eq_exp_minus_1)
  have d: "unat ((- 1) div 3 :: u64) = 6148914691236517205" "unat ((- 1) div 15 :: u64) = 1229782938247303441"
    "unat ((- 1) div 255 :: u64) = 72340172838076673"
    by (simp_all add: unat_div_distrib m)
  show "unat ((- 1) div 3 :: u64) = emask 1 32" "unat ((- 1) div 15 * 3 :: u64) = emask 2 16" "unat ((- 1) div 255 * 15 :: u64) = emask 4 8"
    "unat ((- 1) div 255 :: u64) = 72340172838076673"
    by (simp_all add: d e unat_mult_mod)
qed

lemma pairs_less: "1 \<le> w \<Longrightarrow> evens w k n + evens w k (n div 2 ^ w) < 2 ^ (2 * w * k)"
proof (induction k arbitrary: n)
  case (Suc k)
  let ?m = "2 ^ (2 * w) :: nat" and ?n = "n div 2 ^ (2 * w)"
  let ?s = "n mod 2 ^ w + n div 2 ^ w mod 2 ^ w" and ?t = "evens w k ?n + evens w k (?n div 2 ^ w)"
  have "?s < ?m" using Suc.prems by (intro field_sum_less) simp_all
  then have "?s + ?m * ?t < ?m * (?t + 1)" by simp
  also have "\<dots> \<le> ?m * 2 ^ (2 * w * k)" using Suc.IH [of ?n] Suc.prems by (intro mult_le_mono2) simp
  also have "\<dots> = 2 ^ (2 * w * Suc k)" by (simp add: power_add)
  finally show ?case unfolding evens_shift by (simp add: distrib_left)
qed simp

lemma fsum_le: "fsum 1 k n \<le> k"
proof (induction k arbitrary: n)
  case (Suc k)
  have "n mod 2 \<le> 1" by simp
  then show ?case using Suc [of "n div 2"] by simp
qed simp

lemma bit_count_val: "unat (bit_count w) = ones (unat w)" "ones (unat w) \<le> 64"
proof -
  define n where "n = unat w"
  have n: "n < 2 ^ 64" by (simp add: n_def)
  define a where "a = evens 1 32 n + evens 1 32 (n div 2 ^ 1)"
  define b where "b = evens 2 16 a + evens 2 16 (a div 2 ^ 2)"
  define c where "c = evens 4 8 b + evens 4 8 (b div 2 ^ 4)"
  define i1 where "i1 = w - (drop_bit 1 w AND (- 1) div 3)"
  define i2 where "i2 = (i1 AND (- 1) div 15 * 3) + (drop_bit 2 i1 AND (- 1) div 15 * 3)"
  define i3 where "i3 = (i2 + drop_bit 4 i2) AND ((- 1) div 255 * 15)"
  have lt: "a < 2 ^ 64" "b < 2 ^ 64" "c < 2 ^ 64"
    using pairs_less [of 1 32 n] pairs_less [of 2 16 a] pairs_less [of 4 8 b] by (simp_all add: a_def b_def c_def)
  have "n = evens 1 32 n + 2 * evens 1 32 (n div 2 ^ 1)" using evens_decomp [of n 1 32] n by simp
  moreover have "unat (drop_bit 1 w AND (- 1) div 3) = evens 1 32 (n div 2 ^ 1)"
    by (simp only: unsigned_and_eq masks and_emask unat_shr n_def)
  ultimately have 1: "unat i1 = a"
    unfolding i1_def using unat_sub [of "drop_bit 1 w AND (- 1) div 3" w] by (simp only: word_le_nat_alt n_def [symmetric] a_def)
  have 2: "unat i2 = b"
    unfolding i2_def unat_add_mod unsigned_and_eq masks and_emask unat_shr 1 b_def [symmetric] using lt(2) by simp
  have small: "fields_le 4 6 b" unfolding b_def by (rule pairs_small)
  then have "b div 2 ^ 60 mod 2 ^ 4 \<le> 6" unfolding fields_le_def by (elim allE [of _ 15]) simp
  moreover have "b div 2 ^ 60 < 16" using lt(2) by (simp add: less_mult_imp_div_less)
  ultimately have "b div 2 ^ 60 \<le> 6" by simp
  then have "b < 7 * 2 ^ 60" by simp
  then have sum: "b + b div 2 ^ 4 < 2 ^ 64" by simp
  have "fields_le 4 7 b" using small unfolding fields_le_def by (meson le_trans numeral_le_iff semiring_norm)
  then have e: "evens 4 8 (b + b div 2 ^ 4) = c" unfolding c_def by (rule evens_add)
  have "unat (i2 + drop_bit 4 i2) = b + b div 2 ^ 4" using sum by (simp add: unat_add_mod unat_shr 2)
  then have 3: "unat i3 = c" unfolding i3_def unsigned_and_eq masks and_emask e [symmetric] by (simp only:)
  have s: "fsum 8 8 c = ones n"
    using fsum_pairs [of 4 8 b] fsum_pairs [of 2 16 a] fsum_pairs [of 1 32 n] fsum_ones [OF n] by (simp add: a_def b_def c_def)
  have le: "ones n \<le> 64" using fsum_le [of 64 n] fsum_ones [OF n] by simp
  have "unat (bit_count w) = c * 72340172838076673 mod 2 ^ 64 div 2 ^ 56"
    unfolding bit_count_def Let_def i1_def [symmetric] i2_def [symmetric] i3_def [symmetric] unat_shr unat_mult_mod masks 3 by simp
  then show "unat (bit_count w) = ones (unat w)" using fsum_mult [OF lt(3)] s le by (simp add: n_def)
  show "ones (unat w) \<le> 64" using le by (simp add: n_def)
qed

lemma ones_digits: "ones (dval ds) = sum_list (map (\<lambda>d. ones (unat d)) ds)"
proof (induction ds)
  case (Cons d ds)
  then show ?case using ones_split [of "unat d" 64 "dval ds"] unat_u64_bound [of d] by simp
qed simp

lemma bit_count_digits:
  "unat (sum_list (map bit_count ds)) = sum_list (map (\<lambda>d. ones (unat d)) ds) mod 2 ^ 64"
  "sum_list (map (\<lambda>d. ones (unat d)) ds) \<le> 64 * length ds"
proof -
  show "unat (sum_list (map bit_count ds)) = sum_list (map (\<lambda>d. ones (unat d)) ds) mod 2 ^ 64"
    by (induction ds) (simp_all add: unat_add_mod bit_count_val mod_add_right_eq)
  show "sum_list (map (\<lambda>d. ones (unat d)) ds) \<le> 64 * length ds"
  proof (induction ds)
    case (Cons d ds)
    then show ?case using bit_count_val(2) [of d] by simp
  qed simp
qed

lemma make_fixnum_small: "unat w < 2 ^ 62 \<Longrightarrow> is_int (make_fixnum w) (int (unat w))"
proof -
  assume w: "unat w < 2 ^ 62"
  have "sint w = uint w" using w negative_word_unat [of w] uint_u64_range [of w] unfolding sint_u64 by (auto split: if_splits)
  then have "sint w = int (unat w)" by simp
  moreover have "fits_fixnum (int u)" if "u < 2 ^ 62" for u using that by (simp add: fits_fixnum_def)
  then have "fits_fixnum (int (unat w))" using w by blast
  ultimately show ?thesis by (simp add: make_fixnum_obj is_int_fixnum)
qed

lemma make_fixnum_nat: "l < 2 ^ 62 \<Longrightarrow> is_int (make_fixnum (of_nat l)) (int l)"
proof -
  assume l: "l < 2 ^ 62"
  then have "unat (of_nat l :: u64) = l" by (simp add: unsigned_of_nat take_bit_nat_eq_self)
  then show ?thesis using make_fixnum_small [of "of_nat l"] l by simp
qed

text \<open>
  The number whose bits are looked at: a negative fixnum is complemented, and of a negative bignum the magnitude
  is taken, which is one more than the complement.
\<close>

definition counted :: "'f sexp \<Rightarrow> nat" where
  "counted x = nat (if int_val x < 0 then (if sexp_fixnump x then NOT (int_val x) else - int_val x) else int_val x)"

lemma counted_bignum: "bignum_ok b \<Longrightarrow> counted (BIGNUM b) = bn_nat b"
  by (auto simp: counted_def bignum_ok_def bn_int_def)

lemma bit_count_int:
  fixes x :: "'f sexp"
  assumes "norm_int x" and big: "\<And>b. x = BIGNUM b \<Longrightarrow> sexp_bignum_length b < 2 ^ 55"
  shows "is_int (sexp_bit_count x) (int (ones (counted x)))"
  using assms(1)
proof (cases rule: norm_int_cases)
  case (fx k)
  have un: "unbox_fixnum (fixnum_obj k :: 'f sexp) = word_of_int k" "sint (word_of_int k :: u64) = k"
    using fx by (simp_all add: unbox_fixnum_obj sint_fits)
  let ?k = "if k < 0 then NOT k else k"
  have k: "fits_fixnum ?k" "0 \<le> ?k" using fx(2) by (auto simp: fits_fixnum_def not_int_def)
  have w: "(if k < 0 then NOT (word_of_int k) else word_of_int k :: u64) = word_of_int ?k" by (simp add: not_eq_complement)
  have "unat (word_of_int ?k :: u64) = nat ?k" using fixnum_words(1) [OF k] by (metis unat_eq_nat_uint)
  then have "unat (bit_count (word_of_int ?k)) = ones (nat ?k)" "ones (nat ?k) \<le> 64" using bit_count_val [of "word_of_int ?k"] by metis+
  then show ?thesis
    using fx un make_fixnum_small [where ?'a = 'f, of "bit_count (word_of_int ?k)"] unfolding w [symmetric]
    by (simp add: counted_def sexp_bit_count_def Let_def split del: if_split cong: if_cong)
next
  case (bg b)
  let ?s = "sum_list (map (\<lambda>d. ones (unat d)) (sexp_bignum_data b))"
  have b: "sexp_bignum_length b < 2 ^ 55" using big [OF bg(1)] .
  have "?s < 2 ^ 62" using bit_count_digits(2) [of "sexp_bignum_data b"] b by simp
  then have u: "unat (sum_list (map bit_count (sexp_bignum_data b))) = ?s" unfolding bit_count_digits(1) by simp
  have "counted x = dval (sexp_bignum_data b)" using bg by (simp add: counted_bignum bn_nat_def)
  then show ?thesis
    using bg u \<open>?s < 2 ^ 62\<close> make_fixnum_small [where ?'a = 'f, of "sum_list (map bit_count (sexp_bignum_data b))"]
    by (simp add: sexp_bit_count_def ones_digits)
qed

subsection \<open>The length\<close>

definition bit_length :: "nat \<Rightarrow> nat \<Rightarrow> bool" where
  "bit_length n l \<longleftrightarrow> n < 2 ^ l \<and> (0 < l \<longrightarrow> 2 ^ (l - 1) \<le> n)"

lemma bit_length_least: "bit_length n l \<longleftrightarrow> n < 2 ^ l \<and> (\<forall>k < l. 2 ^ k \<le> n)"
proof (cases l)
  case (Suc m)
  have "\<forall>k < Suc m. 2 ^ k \<le> n" if "2 ^ m \<le> n"
    using that by (auto simp: less_Suc_eq_le intro: order.trans [OF power_increasing])
  with Suc show ?thesis by (auto simp: bit_length_def)
qed (simp add: bit_length_def)

lemma log_table_length: "t < 256 \<Longrightarrow> bit_length t (log_table_256 ! t) \<and> log_table_256 ! t \<le> 8"
proof -
  assume t: "t < 256"
  let ?L = "[0, 1, 2, 2, 3, 3, 3, 3, 4, 4, 4, 4, 4, 4, 4, 4] :: nat list"
  have len: "length ?L = 16" by simp
  have tab: "log_table_256 ! t = (if t < 16 then ?L ! t else if t < 32 then 5 else if t < 64 then 6 else if t < 128 then 7 else 8)"
    unfolding log_table_256_def nth_append [of ?L] len using t by (simp add: nth_append) presburger
  show ?thesis
  proof (cases "t < 16")
    case True
    then have "t = 0 \<or> t = 1 \<or> t = 2 \<or> t = 3 \<or> t = 4 \<or> t = 5 \<or> t = 6 \<or> t = 7
      \<or> t = 8 \<or> t = 9 \<or> t = 10 \<or> t = 11 \<or> t = 12 \<or> t = 13 \<or> t = 14 \<or> t = 15" by presburger
    then show ?thesis unfolding tab by (elim disjE) (simp_all add: bit_length_def)
  next
    case False
    then show ?thesis unfolding tab using t by (simp add: bit_length_def)
  qed
qed

lemma bit_length_shift: "bit_length (n div 2 ^ j) l \<Longrightarrow> n div 2 ^ j \<noteq> 0 \<Longrightarrow> bit_length n (j + l)"
proof -
  assume a: "bit_length (n div 2 ^ j) l" "n div 2 ^ j \<noteq> 0"
  have "0 < l" using a by (cases l) (auto simp: bit_length_def)
  then have "2 ^ (l - 1) \<le> n div 2 ^ j" "n div 2 ^ j < 2 ^ l" using a(1) by (simp_all add: bit_length_def)
  then have "2 ^ (l - 1) * 2 ^ j \<le> n" "n < 2 ^ l * 2 ^ j"
    by (simp_all add: less_eq_div_iff_mult_less_eq div_less_iff_less_mult)
  moreover have "j + l - 1 = (l - 1) + j" using \<open>0 < l\<close> by simp
  ultimately show ?thesis by (simp add: bit_length_def power_add mult.commute)
qed

lemma integer_log2_32_val: "unat x < 2 ^ 32 \<Longrightarrow> bit_length (unat x) (integer_log2_32 x) \<and> integer_log2_32 x \<le> 32"
proof -
  assume x: "unat x < 2 ^ 32"
  define n where "n = unat x"
  have u: "unat (drop_bit 16 x) = n div 2 ^ 16" "unat (drop_bit 8 (drop_bit 16 x)) = n div 2 ^ 24" "unat (drop_bit 8 x) = n div 2 ^ 8"
    by (simp_all add: unat_shr n_def flip: div_mult2_eq)
  have z: "drop_bit 16 x = 0 \<longleftrightarrow> n div 2 ^ 16 = 0" "drop_bit 8 (drop_bit 16 x) = 0 \<longleftrightarrow> n div 2 ^ 24 = 0" "drop_bit 8 x = 0 \<longleftrightarrow> n div 2 ^ 8 = 0"
    unfolding u [symmetric] by (simp_all only: unat_eq_zero)
  have n: "n < 2 ^ 32" using x by (simp add: n_def)
  then have lt: "n div 2 ^ 24 < 256" "n div 2 ^ 16 < 2 ^ 16" by (simp_all add: less_mult_imp_div_less)
  consider (1) "n div 2 ^ 24 \<noteq> 0" | (2) "n div 2 ^ 24 = 0" "n div 2 ^ 16 \<noteq> 0"
    | (3) "n div 2 ^ 16 = 0" "n div 2 ^ 8 \<noteq> 0" | (4) "n div 2 ^ 8 = 0" by blast
  then have "bit_length n (integer_log2_32 x) \<and> integer_log2_32 x \<le> 32"
  proof cases
    case 1
    then have "n div 2 ^ 16 \<noteq> 0" by simp
    then show ?thesis using 1 lt log_table_length [of "n div 2 ^ 24"] bit_length_shift [of n 24]
      unfolding integer_log2_32_def Let_def z u by simp
  next
    case 2
    then have "n div 2 ^ 16 < 256" by simp
    then show ?thesis using 2 log_table_length [of "n div 2 ^ 16"] bit_length_shift [of n 16]
      unfolding integer_log2_32_def Let_def z u by simp
  next
    case 3
    then have "n div 2 ^ 8 < 256" by simp
    then show ?thesis using 3 log_table_length [of "n div 2 ^ 8"] bit_length_shift [of n 8]
      unfolding integer_log2_32_def Let_def z u by simp
  next
    case 4
    then have "n < 256" "n div 2 ^ 16 = 0" by simp_all
    then show ?thesis using 4 log_table_length [of n] unfolding integer_log2_32_def Let_def z u n_def [symmetric] by simp
  qed
  then show ?thesis by (simp add: n_def)
qed

lemma integer_log2_val: "bit_length (unat x) (integer_log2 x) \<and> integer_log2 x \<le> 64"
proof -
  have u: "unat (drop_bit 32 x) = unat x div 2 ^ 32" by (simp only: unat_shr)
  have "unat x div 2 ^ 32 < 2 ^ 32" using unat_u64_bound [of x] by (simp add: less_mult_imp_div_less)
  then have h: "bit_length (unat x div 2 ^ 32) (integer_log2_32 (drop_bit 32 x)) \<and> integer_log2_32 (drop_bit 32 x) \<le> 32"
    using integer_log2_32_val [of "drop_bit 32 x"] unfolding u by blast
  have z: "drop_bit 32 x = 0 \<longleftrightarrow> unat x div 2 ^ 32 = 0" unfolding u [symmetric] by (simp only: unat_eq_zero)
  show ?thesis
  proof (cases "unat x div 2 ^ 32 = 0")
    case True
    then have "unat x < 2 ^ 32" by simp
    then show ?thesis using True z integer_log2_32_val [of x] by (auto simp: integer_log2_def Let_def)
  next
    case False
    then show ?thesis using h z bit_length_shift [of "unat x" 32 "integer_log2_32 (drop_bit 32 x)"] by (simp add: integer_log2_def Let_def add.commute)
  qed
qed

lemma integer_length_int:
  fixes x :: "'f sexp"
  assumes "norm_int x" and big: "\<And>b. x = BIGNUM b \<Longrightarrow> sexp_bignum_length b < 2 ^ 55"
  shows "\<exists>l. is_int (sexp_integer_length x) (int l) \<and> bit_length (counted x) l"
  using assms(1)
proof (cases rule: norm_int_cases)
  case (fx k)
  have un: "unbox_fixnum (fixnum_obj k :: 'f sexp) = word_of_int k" "sint (word_of_int k :: u64) = k"
    using fx by (simp_all add: unbox_fixnum_obj sint_fits)
  let ?k = "if k < 0 then NOT k else k"
  have k: "fits_fixnum ?k" "0 \<le> ?k" using fx(2) by (auto simp: fits_fixnum_def not_int_def)
  have w: "(if k < 0 then - word_of_int k - 1 else word_of_int k :: u64) = word_of_int ?k" by (simp add: not_int_def)
  have "unat (word_of_int ?k :: u64) = nat ?k" using fixnum_words(1) [OF k] by (metis unat_eq_nat_uint)
  then have l: "bit_length (nat ?k) (integer_log2 (word_of_int ?k))" "integer_log2 (word_of_int ?k) \<le> 64"
    using integer_log2_val [of "word_of_int ?k"] by metis+
  then have "is_int (make_fixnum (of_nat (integer_log2 (word_of_int ?k))) :: 'f sexp) (int (integer_log2 (word_of_int ?k)))"
    by (intro make_fixnum_nat) simp
  then show ?thesis
    using fx un l(1) unfolding w [symmetric]
    by (intro exI [of _ "integer_log2 (if k < 0 then - word_of_int k - 1 else word_of_int k)"]) (simp add: counted_def sexp_integer_length_def Let_def split del: if_split cong: if_cong)
next
  case (bg b)
  let ?hi = "sexp_bignum_hi b" and ?d = "sexp_bignum_data b ! (sexp_bignum_hi b - 1)"
  have b: "sexp_bignum_length b < 2 ^ 55" using big [OF bg(1)] .
  have hl: "?hi \<le> sexp_bignum_length b" using bg(2) by (simp add: hi_le_length bignum_ok_def)
  let ?l = "integer_log2 ?d + (?hi - 1) * 64"
  have "(?hi - 1) * 64 \<le> 2 ^ 55 * 64" using b hl by (intro mult_le_mono1) linarith
  then have "?l < 2 ^ 62" using integer_log2_val [of ?d] by simp
  then have "is_int (make_fixnum (of_nat ?l) :: 'f sexp) (int ?l)" by (rule make_fixnum_nat)
  then have "is_int (sexp_integer_length x) (int ?l)" using bg(1) by (simp add: sexp_integer_length_def Let_def)
  moreover have "bit_length (bn_nat b) ?l"
  proof -
    have h: "Suc (?hi - 1) = ?hi" by simp
    have lt: "?hi - 1 < sexp_bignum_length b" using hl hi_pos [of b] by linarith
    have "bn_nat b = dval (take (?hi - 1) (sexp_bignum_data b)) + 2 ^ (64 * (?hi - 1)) * unat ?d"
      using dval_take_Suc [of "?hi - 1" "sexp_bignum_data b"] lt unfolding h bn_nat_take_hi by simp
    then have q: "bn_nat b div 2 ^ (64 * (?hi - 1)) = unat ?d" using dval_take_less [of "?hi - 1" "sexp_bignum_data b"] by simp
    have "unat ?d \<noteq> 0"
    proof (cases "?hi = 1")
      case True
      moreover have "bn_nat b \<noteq> 0" using bg by (auto simp: bn_int_def fits_fixnum_def)
      ultimately show ?thesis using bn_nat_hi_1 [of b] bg(2) by (simp add: bignum_ok_def)
    next
      case False
      then have "1 < ?hi" using hi_pos [of b] by linarith
      then show ?thesis using hi_top [of b] by (simp add: unat_eq_zero)
    qed
    then show ?thesis
      using bit_length_shift [of "bn_nat b" "64 * (?hi - 1)"] integer_log2_val [of ?d] q by (simp add: add.commute mult.commute)
  qed
  moreover have "counted x = bn_nat b" using bg by (simp add: counted_bignum)
  ultimately show ?thesis by (intro exI [of _ ?l]) (simp only:)
qed

subsection \<open>Which shifts are divisions\<close>

lemma shift_result_floor:
  assumes i: "norm_int i" and "int_val i < 0 \<Longrightarrow> c < 0 \<Longrightarrow> (if sexp_fixnump i then - 64 < c else \<not> 2 ^ nat (- c) dvd int_val i)"
  shows "shift_result i c = (if 0 \<le> c then int_val i * 2 ^ nat c else int_val i div 2 ^ nat (- c))"
  using i
proof (cases rule: norm_int_cases)
  case (fx k)
  have "k div 2 ^ nat (- c) = 0" if "0 \<le> k" "c \<le> - 64"
  proof (rule div_pos_pos_trivial)
    have "k < 2 ^ 62" using fx(2) by (simp add: fits_fixnum_def)
    also have "\<dots> \<le> (2 :: int) ^ nat (- c)" using that by (intro power_increasing) auto
    finally show "k < 2 ^ nat (- c)" .
  qed (rule that(1))
  then show ?thesis using assms(2) fx by (cases "0 \<le> k") (auto simp: shift_result_def not_less)
next
  case (bg b)
  let ?m = "2 ^ nat (- c) :: int"
  show ?thesis
  proof (cases "bn_int b < 0")
    case True
    then have s: "bn_int b = - int (bn_nat b)" using bg(2) by (auto simp: bignum_ok_def bn_int_def)
    have "\<not> ?m dvd int (bn_nat b)" if "c < 0" using assms(2) that True bg s by simp
    then have "- int (bn_nat b) div ?m = - (int (bn_nat b) div ?m) - 1" if "c < 0"
      using that by (simp add: zdiv_zminus1_eq_if dvd_eq_mod_eq_0)
    then show ?thesis using True bg s by (auto simp: shift_result_def shifted_right_def of_nat_div)
  next
    case False
    then have "bn_int b = int (bn_nat b)" using bg(2) by (auto simp: bignum_ok_def bn_int_def)
    then show ?thesis using False bg by (auto simp: shift_result_def shifted_right_def of_nat_div)
  qed
qed

lemma shift_result_exact:
  assumes i: "norm_int i" and "int_val i < 0" "c < 0" "if sexp_fixnump i then c \<le> - 64 else 2 ^ nat (- c) dvd int_val i"
  shows "shift_result i c = (if sexp_fixnump i then 0 else int_val i div 2 ^ nat (- c) - 1)"
  using i
proof (cases rule: norm_int_cases)
  case (fx k)
  then show ?thesis using assms by (simp add: shift_result_def)
next
  case (bg b)
  have s: "bn_int b = - int (bn_nat b)" using assms(2) bg by (auto simp: bignum_ok_def bn_int_def)
  have "int (bn_nat b) mod 2 ^ nat (- c) = 0" using assms(4) bg s by simp
  then have "- int (bn_nat b) div 2 ^ nat (- c) = - (int (bn_nat b) div 2 ^ nat (- c))" by (simp add: zdiv_zminus1_eq_if)
  then show ?thesis using assms bg s by (simp add: shift_result_def shifted_right_def of_nat_div)
qed

subsection \<open>Properties\<close>

text \<open>An example operand: the bignum with two digits and the value -2^64 - 5.\<close>

definition example_bignum :: "unit sexp" where
  "example_bignum = BIGNUM \<lparr>sexp_bignum_sign = - 1, sexp_bignum_data = [5, 1]\<rparr>"

lemma example_bignum_facts:
  "norm_int example_bignum" "spare example_bignum" "int_val example_bignum = - 18446744073709551621" "\<not> sexp_fixnump example_bignum"
  by (simp_all add: example_bignum_def norm_int_def bignum_ok_def bn_int_def bn_nat_def fits_fixnum_def spare_bit_def)

text \<open>
  C11.  Bitwise and and inclusive or of exact integers are those of the infinite two's complement
  representation, for all mixes of fixnums and bignums and all signs, when with a negative operand
  every bignum operand has a spare high bit.
\<close>

theorem bit_and_ior_exact:
  fixes x y :: "'f sexp"
  assumes "norm_int x" and "norm_int y" and "int_val x < 0 \<or> int_val y < 0 \<Longrightarrow> spare x \<and> spare y"
  shows "is_int (sexp_bit_and x y) (int_val x AND int_val y) \<and> is_int (sexp_bit_ior x y) (int_val x OR int_val y)"
  using bit_and_int [OF assms] bit_ior_int [OF assms] by blast

theorem bit_and_ior_exact_witness:
  "is_int (sexp_bit_and example_bignum (fixnum_obj (- 8))) ((- 18446744073709551621) AND (- 8))
    \<and> is_int (sexp_bit_ior example_bignum (fixnum_obj (- 8))) ((- 18446744073709551621) OR (- 8))"
  using bit_and_ior_exact [of example_bignum "fixnum_obj (- 8)"] example_bignum_facts
  by (simp add: fits_fixnum_def)

text \<open>
  C31.  Exclusive or of exact integers is that of the infinite two's complement representation, for a fixnum
  operand on either side, for two bignums of the same length, and for a longer first and a positive
  second bignum (\<open>xor_lengths\<close>); with a negative operand every bignum operand must have a spare high bit, as for \<open>and\<close>.
\<close>

theorem bit_xor_exact:
  fixes x y :: "'f sexp"
  assumes "norm_int x" and "norm_int y" and "int_val x < 0 \<or> int_val y < 0 \<Longrightarrow> spare x \<and> spare y" and "xor_lengths x y"
  shows "is_int (sexp_bit_xor x y) (int_val x XOR int_val y)"
  using assms by (rule bit_xor_int)

theorem bit_xor_exact_witness:
  "is_int (sexp_bit_xor example_bignum example_bignum) ((- 18446744073709551621) XOR (- 18446744073709551621))"
  using bit_xor_exact [of example_bignum example_bignum] example_bignum_facts
  by (simp add: example_bignum_def)

text \<open>
  Exclusive or of a positive bignum with a longer positive bignum is always zero: the code
  combines the longer operand with itself.
\<close>

lemma bit_xor_longer_zero:
  assumes "bignum_ok x" and "bignum_ok y" and "0 < bn_int x" and "0 < bn_int y" and "sexp_bignum_length x < sexp_bignum_length y"
  shows "sexp_bit_xor (BIGNUM x) (BIGNUM y) = (SEXP_ZERO :: 'f sexp)"
proof -
  have s: "sexp_bignum_sign x = 1" "sexp_bignum_sign y = 1" using assms by (auto simp: bignum_ok_def bn_int_def)
  let ?n = "sexp_bignum_length y"
  have z: "map (\<lambda>i. sexp_bignum_data y ! i XOR twos_digit y i) [0..<?n] = replicate ?n 0"
    by (rule nth_equalityI) (simp_all add: twos_digit_def)
  have y: "xor_bignums False False y (twos_complement y) = y\<lparr>sexp_bignum_data := replicate ?n 0\<rparr>"
    using s z by (simp add: xor_bignums_def twos_complement_def Let_def)
  let ?r = "y\<lparr>sexp_bignum_data := replicate ?n 0\<rparr>"
  have r: "bignum_ok ?r" "bn_int ?r = 0" using assms(2) by (simp_all add: bignum_ok_def bn_int_def bn_nat_def)
  have "sexp_bit_xor (BIGNUM x) (BIGNUM y) = sexp_bignum_normalize (BIGNUM ?r :: 'f sexp)"
    using s y assms(5) by (simp add: sexp_bit_xor_def bit_xor_bignum_def Let_def)
  then show ?thesis using normalize_val [where ?'f = 'f, OF r(1)] r(2) norm_int_eq [of "sexp_bignum_normalize (BIGNUM ?r :: 'f sexp)" 0] by (simp add: const_objs)
qed

lemma bit_xor_longer_zero_example:
  "sexp_bit_xor (BIGNUM \<lparr>sexp_bignum_sign = 1, sexp_bignum_data = [0, 1]\<rparr>)
    (BIGNUM \<lparr>sexp_bignum_sign = 1, sexp_bignum_data = [0, 0, 1]\<rparr>) = (SEXP_ZERO :: unit sexp)"
  by (rule bit_xor_longer_zero) (simp_all add: bignum_ok_def bn_int_def bn_nat_def)

text \<open>
  C22.  The arithmetic shift to the left multiplies by a power of two.  The shift to the right divides by it
  rounding down: of a number that is not negative, of a negative fixnum by up to 63 places, and of a negative
  bignum that is no multiple of the power of two.  The remaining right shifts are wrong (C40).
\<close>

theorem arithmetic_shift_exact:
  fixes i :: "'f sexp"
  assumes "norm_int i" and "fits_fixnum c"
    and "int_val i < 0 \<Longrightarrow> c < 0 \<Longrightarrow> (if sexp_fixnump i then - 64 < c else \<not> 2 ^ nat (- c) dvd int_val i)"
  shows "is_int (sexp_arithmetic_shift i (fixnum_obj c)) (if 0 \<le> c then int_val i * 2 ^ nat c else int_val i div 2 ^ nat (- c))"
proof -
  have "shift_result i c = (if 0 \<le> c then int_val i * 2 ^ nat c else int_val i div 2 ^ nat (- c))"
    using assms(1,3) by (rule shift_result_floor)
  then show ?thesis using arithmetic_shift_int [OF assms(1,2)] by simp
qed

theorem arithmetic_shift_exact_witness:
  "is_int (sexp_arithmetic_shift example_bignum (fixnum_obj (- 2))) ((- 18446744073709551621) div 4)"
  using arithmetic_shift_exact [of example_bignum "- 2"] example_bignum_facts by (simp add: fits_fixnum_def)

text \<open>
  C40.  The right shifts left out are wrong: a negative fixnum shifted by 64 places or more gives 0,
  and a negative bignum that is a multiple of the power of two gives one less than the quotient.
\<close>

theorem arithmetic_shift_right_wrong:
  fixes i :: "'f sexp"
  assumes "norm_int i" and "fits_fixnum c" and "int_val i < 0" and "c < 0"
    and "if sexp_fixnump i then c \<le> - 64 else 2 ^ nat (- c) dvd int_val i"
  shows "is_int (sexp_arithmetic_shift i (fixnum_obj c)) (if sexp_fixnump i then 0 else int_val i div 2 ^ nat (- c) - 1)"
proof -
  have "shift_result i c = (if sexp_fixnump i then 0 else int_val i div 2 ^ nat (- c) - 1)"
    using assms(1,3,4,5) by (rule shift_result_exact)
  then show ?thesis using arithmetic_shift_int [OF assms(1,2)] by simp
qed

theorem arithmetic_shift_right_wrong_witness:
  "is_int (sexp_arithmetic_shift (fixnum_obj (- 1) :: unit sexp) (fixnum_obj (- 64))) 0"
  using arithmetic_shift_right_wrong [of "fixnum_obj (- 1) :: unit sexp" "- 64"] by (simp add: fits_fixnum_def)

text \<open>
  C30.  The bit count of an exact integer is the number of ones in \<open>counted x\<close>, and its integer length the least
  number of bits that hold \<open>counted x\<close>.  That is the number itself when it is not negative, the
  complement of a negative fixnum, so the bits that differ from the sign, and the
  magnitude of a negative bignum, where the code leaves the two's complement.  (Bignums have fewer than \<open>2 ^ 55\<close> digits.)
\<close>

theorem bit_count_length_exact:
  fixes x :: "'f sexp"
  assumes "norm_int x" and "\<And>b. x = BIGNUM b \<Longrightarrow> sexp_bignum_length b < 2 ^ 55"
  shows "counted x = nat (if int_val x < 0 then (if sexp_fixnump x then NOT (int_val x) else \<bar>int_val x\<bar>) else int_val x)
    \<and> is_int (sexp_bit_count x) (int (card {n. bit (counted x) n}))
    \<and> (\<exists>l. is_int (sexp_integer_length x) (int l) \<and> counted x < 2 ^ l \<and> (\<forall>k < l. 2 ^ k \<le> counted x))"
  using bit_count_int [OF assms] integer_length_int [OF assms] unfolding ones_def bit_length_least by (auto simp: counted_def)

theorem bit_count_length_exact_witness:
  "is_int (sexp_bit_count (fixnum_obj (- 6) :: unit sexp)) (int (card {n. bit (5 :: nat) n}))
    \<and> is_int (sexp_bit_count example_bignum) (int (card {n. bit (18446744073709551621 :: nat) n}))"
  using bit_count_length_exact [of "fixnum_obj (- 6) :: unit sexp"] bit_count_length_exact [of example_bignum] example_bignum_facts
  by (simp add: counted_def fits_fixnum_def not_int_def) (simp add: example_bignum_def)

end
