(* ===== verification/Utf8.thy ===== *)
theory Utf8
  imports Tagging
begin

text \<open>
  The byte level of strings: the UTF-8 encoder and the four decoders of \<^verbatim>\<open>sexp.c\<close>, \<^verbatim>\<open>eval.c\<close> and
  \<^verbatim>\<open>lib/chibi/io/port.c\<close>.  A C \<open>int\<close> that holds a code point or a byte is an \<open>int\<close>; a store into an
  \<open>unsigned char\<close> is \<open>word_of_int\<close>.  Memory is read through a function from positions to bytes, so that
  a read outside an object, which C leaves undefined, yields whatever the memory around it holds.
\<close>

subsection \<open>Encoding\<close>

definition sexp_utf8_initial_byte_count :: "int \<Rightarrow> int" where
  "sexp_utf8_initial_byte_count c =
    (if c < 0xC0 then 1 else if c < 0xE0 then 2 else (drop_bit 4 c AND 1) + 3)"

definition sexp_utf8_char_byte_count :: "int \<Rightarrow> int" where
  "sexp_utf8_char_byte_count c =
    (if c < 0x80 then 1 else if c < 0x800 then 2 else if c < 0x10000 then 3 else 4)"

text \<open>The bytes the encoder stores from \<open>p\<close> on.\<close>

definition sexp_utf8_encode_char :: "int \<Rightarrow> int \<Rightarrow> u8 list" where
  "sexp_utf8_encode_char len c = map word_of_int
    (if len = 4 then
       [0xF0 + drop_bit 18 c, 0x80 + (drop_bit 12 c AND 0x3F), 0x80 + (drop_bit 6 c AND 0x3F), 0x80 + (c AND 0x3F)]
     else if len = 3 then [0xE0 + drop_bit 12 c, 0x80 + (drop_bit 6 c AND 0x3F), 0x80 + (c AND 0x3F)]
     else if len = 2 then [0xC0 + drop_bit 6 c, 0x80 + (c AND 0x3F)]
     else [c])"

text \<open>What \<open>sexp_write_utf8_char\<close> hands to the port: the first byte, then the rest up to the NUL.\<close>

definition sexp_write_utf8_char ::
  "('p \<Rightarrow> u8 \<Rightarrow> 'p option) \<Rightarrow> ('p \<Rightarrow> u8 list \<Rightarrow> 'p) \<Rightarrow> int \<Rightarrow> 'p \<Rightarrow> 'p option" where
  "sexp_write_utf8_char write_char write_string c out =
    (let len = sexp_utf8_char_byte_count c;
         buf = sexp_utf8_encode_char len c @ [0]
     in case write_char out (hd buf) of None \<Rightarrow> None
        | Some out \<Rightarrow> Some (write_string out (takeWhile (\<lambda>b. b \<noteq> 0) (tl buf))))"

subsection \<open>Decoding\<close>

text \<open>The body shared by \<open>sexp_string_utf8_ref\<close> and \<open>sexp_utf8_ref\<close>; \<open>None\<close> is the invalid byte.\<close>

definition utf8_ref :: "(int \<Rightarrow> u8) \<Rightarrow> int \<Rightarrow> int option" where
  "utf8_ref mem p =
    (let p0 = uint (mem p); p1 = uint (mem (p + 1)); p2 = uint (mem (p + 2)); p3 = uint (mem (p + 3))
     in if p0 < 0x80 then Some p0
        else if p0 < 0xC0 \<or> p0 > 0xF7 then None
        else if p0 < 0xE0 then Some (push_bit 6 (p0 AND 0x3F) + (p1 AND 0x3F))
        else if p0 < 0xF0 then
          Some (push_bit 12 (p0 AND 0x1F) + push_bit 6 (p1 AND 0x3F) + (p2 AND 0x3F))
        else
          Some (push_bit 18 (p0 AND 0x0F) + push_bit 12 (p1 AND 0x3F) + push_bit 6 (p2 AND 0x3F)
            + (p3 AND 0x3F)))"

text \<open>The reader's decoder of a character literal: the NUL-terminated string \<open>s\<close>.\<close>

definition sexp_decode_utf8_char :: "u8 list \<Rightarrow> int" where
  "sexp_decode_utf8_char s =
    (let s = takeWhile (\<lambda>b. b \<noteq> 0) s; len = length s;
         at = (\<lambda>k. if k < len then uint (s ! k) else 0); i = at 0
     in if i \<ge> 0xC0 \<and> i \<le> 0xF7 \<and> drop_bit 6 (at 1) = 2 then
          if i < 0xE0 \<and> len = 2 then push_bit 6 (i AND 0x3F) + (at 1 AND 0x3F)
          else if i < 0xF0 \<and> len = 3 \<and> drop_bit 6 (at 2) = 2 then
            push_bit 12 (i AND 0x1F) + push_bit 6 (at 1 AND 0x3F) + (at 2 AND 0x3F)
          else if len = 4 \<and> drop_bit 6 (at 2) = 2 \<and> drop_bit 6 (at 3) = 2 then
            push_bit 16 (i AND 0x0F) + push_bit 6 (at 1 AND 0x3F) + push_bit 6 (at 2 AND 0x3F)
            + (at 3 AND 0x3F)
          else - 1
        else - 1)"

text \<open>
  Reading a character from a port whose first byte \<open>i\<close> has been read; \<open>read_char\<close> is the port's
  byte source, \<open>-1\<close> at its end.
\<close>

definition sexp_read_utf8_char :: "('p \<Rightarrow> int \<times> 'p) \<Rightarrow> int \<Rightarrow> 'p \<Rightarrow> int option \<times> 'p" where
  "sexp_read_utf8_char read_char i port =
    (if i \<ge> 0x80 then
       if i < 0xC0 \<or> i > 0xF7 then (None, port)
       else if i < 0xE0 then
         (let (c1, port) = read_char port
          in (Some (push_bit 6 (i AND 0x3F) + (c1 AND 0x3F)), port))
       else if i < 0xF0 then
         (let (c1, port) = read_char port; i = push_bit 12 (i AND 0x1F) + push_bit 6 (c1 AND 0x3F);
              (c2, port) = read_char port
          in (Some (i + (c2 AND 0x3F)), port))
       else
         (let (c1, port) = read_char port; i = push_bit 18 (i AND 0x0F) + push_bit 12 (c1 AND 0x3F);
              (c2, port) = read_char port; i = i + push_bit 6 (c2 AND 0x3F);
              (c3, port) = read_char port
          in (Some (i + (c3 AND 0x3F)), port))
     else (Some i, port))"

text \<open>
  Pushing a character back: its bytes, last first, through \<open>ungetc\<close> or into the buffer below the
  port's offset, which is one store per byte either way; \<open>unread\<close> stands for both.  The code does not look
  at the offset: that reading gives back what \<open>unread\<close> put into a buffer needs an offset of at least the length of the character.
\<close>

definition sexp_push_utf8_char :: "(u8 \<Rightarrow> 'p \<Rightarrow> 'p) \<Rightarrow> int \<Rightarrow> 'p \<Rightarrow> 'p" where
  "sexp_push_utf8_char unread i port =
    fold unread (rev (sexp_utf8_encode_char (sexp_utf8_char_byte_count i) i)) port"

subsection \<open>Walking over characters\<close>

text \<open>\<open>sexp_string_utf8_length\<close> from position \<open>p\<close> up to \<open>q = p + len\<close>.\<close>

lemma initial_byte_count_pos: "1 \<le> sexp_utf8_initial_byte_count c"
  by (simp add: sexp_utf8_initial_byte_count_def)

function utf8_length_loop :: "(int \<Rightarrow> u8) \<Rightarrow> int \<Rightarrow> int \<Rightarrow> nat" where
  "utf8_length_loop mem p q =
    (if p < q then Suc (utf8_length_loop mem (p + sexp_utf8_initial_byte_count (uint (mem p))) q) else 0)"
  by auto
termination
proof (relation "measure (\<lambda>(mem, p, q). nat (q - p))")
  fix mem :: "int \<Rightarrow> u8" and p q :: int
  assume "p < q"
  with initial_byte_count_pos [of "uint (mem p)"]
  show "((mem, p + sexp_utf8_initial_byte_count (uint (mem p)), q), (mem, p, q))
    \<in> measure (\<lambda>(mem, p, q). nat (q - p))" by simp
qed simp

declare utf8_length_loop.simps [simp del]

definition sexp_string_utf8_length :: "(int \<Rightarrow> u8) \<Rightarrow> int \<Rightarrow> int \<Rightarrow> nat" where
  "sexp_string_utf8_length mem p len = utf8_length_loop mem p (p + len)"

text \<open>Stepping back over continuation bytes; without a limit, so it may run out of the object.\<close>

partial_function (option) sexp_string_utf8_prev :: "(int \<Rightarrow> u8) \<Rightarrow> int \<Rightarrow> int option" where
  [code]: "sexp_string_utf8_prev mem p =
    (if drop_bit 6 (uint (mem (p - 1))) = 2 then sexp_string_utf8_prev mem (p - 1) else Some (p - 1))"

text \<open>The loop of \<open>sexp_string_index_to_cursor\<close>: what is left of the index, and the offset.\<close>

function index_to_cursor_loop :: "(int \<Rightarrow> u8) \<Rightarrow> int \<Rightarrow> int \<Rightarrow> int \<Rightarrow> int \<Rightarrow> int \<times> int" where
  "index_to_cursor_loop mem p limit i j =
    (if i > 0 \<and> j < limit
     then index_to_cursor_loop mem p limit (i - 1) (j + sexp_utf8_initial_byte_count (uint (mem (p + j))))
     else (i, j))"
  by auto
termination by (relation "measure (\<lambda>(mem, p, limit, i, j). nat i)") auto

declare index_to_cursor_loop.simps [simp del]

subsection \<open>The code as a table of byte sequences\<close>

definition is_char :: "int \<Rightarrow> bool" where
  "is_char c \<longleftrightarrow> 0 \<le> c \<and> c < 0x200000"

definition utf8_char :: "int \<Rightarrow> u8 list" where
  "utf8_char c = sexp_utf8_encode_char (sexp_utf8_char_byte_count c) c"

definition utf8 :: "int list \<Rightarrow> u8 list" where
  "utf8 cs = concat (map utf8_char cs)"

definition spells :: "(int \<Rightarrow> u8) \<Rightarrow> int \<Rightarrow> u8 list \<Rightarrow> bool" where
  "spells mem p bs \<longleftrightarrow> (\<forall>k < length bs. mem (p + int k) = bs ! k)"

definition byte_width :: "u8 \<Rightarrow> int" where
  "byte_width b = sexp_utf8_initial_byte_count (uint b)"

named_theorems byte_arith \<open>bit operations on small integers as division and remainder\<close>

lemma and_low_bits [byte_arith]:
  "(x::int) AND 63 = x mod 64" "(x::int) AND 31 = x mod 32" "(x::int) AND 15 = x mod 16" "(x::int) AND 1 = x mod 2"
  using take_bit_eq_mask [of 6 x] take_bit_eq_mask [of 5 x] take_bit_eq_mask [of 4 x] take_bit_eq_mask [of 1 x]
  by (simp_all add: take_bit_eq_mod mask_eq_exp_minus_1)

lemma shifts_arith [byte_arith]:
  "drop_bit 4 (x::int) = x div 16" "drop_bit 6 (x::int) = x div 64" "drop_bit 12 (x::int) = x div 4096"
  "drop_bit 18 (x::int) = x div 262144"
  "push_bit 6 (x::int) = x * 64" "push_bit 12 (x::int) = x * 4096" "push_bit 18 (x::int) = x * 262144"
  "push_bit 16 (x::int) = x * 65536"
  by (simp_all add: drop_bit_eq_div push_bit_eq_mult)

lemma uint_byte [byte_arith]: "uint (word_of_int x :: u8) = x mod 256"
  by (simp add: uint_word_of_int)

lemma utf8_char_1: "0 \<le> c \<Longrightarrow> c < 0x80 \<Longrightarrow> utf8_char c = [word_of_int c]"
  by (simp add: utf8_char_def sexp_utf8_encode_char_def sexp_utf8_char_byte_count_def)

lemma utf8_char_2:
  "0x80 \<le> c \<Longrightarrow> c < 0x800 \<Longrightarrow> utf8_char c = [word_of_int (0xC0 + c div 64), word_of_int (0x80 + c mod 64)]"
  by (simp add: utf8_char_def sexp_utf8_encode_char_def sexp_utf8_char_byte_count_def byte_arith
      del: of_int_add of_int_numeral)

lemma utf8_char_3:
  "0x800 \<le> c \<Longrightarrow> c < 0x10000 \<Longrightarrow> utf8_char c =
    [word_of_int (0xE0 + c div 4096), word_of_int (0x80 + c div 64 mod 64), word_of_int (0x80 + c mod 64)]"
  by (simp add: utf8_char_def sexp_utf8_encode_char_def sexp_utf8_char_byte_count_def byte_arith
      del: of_int_add of_int_numeral)

lemma utf8_char_4:
  "0x10000 \<le> c \<Longrightarrow> utf8_char c =
    [word_of_int (0xF0 + c div 262144), word_of_int (0x80 + c div 4096 mod 64), word_of_int (0x80 + c div 64 mod 64),
     word_of_int (0x80 + c mod 64)]"
  by (simp add: utf8_char_def sexp_utf8_encode_char_def sexp_utf8_char_byte_count_def byte_arith
      del: of_int_add of_int_numeral)

lemma is_char_cases:
  assumes "is_char c"
  obtains (1) "0 \<le> c" "c < 0x80" | (2) "0x80 \<le> c" "c < 0x800" | (3) "0x800 \<le> c" "c < 0x10000"
    | (4) "0x10000 \<le> c" "c < 0x200000"
  using assms unfolding is_char_def by linarith

lemma spells_Cons: "spells mem p (b # bs) \<longleftrightarrow> mem p = b \<and> spells mem (p + 1) bs"
  by (auto simp: spells_def All_less_Suc2 algebra_simps)

lemma spells_Nil [simp]: "spells mem p []"
  by (simp add: spells_def)

lemma spells_short:
  "spells mem p [a] \<longleftrightarrow> mem p = a"
  "spells mem p [a, b] \<longleftrightarrow> mem p = a \<and> mem (p + 1) = b"
  "spells mem p [a, b, c] \<longleftrightarrow> mem p = a \<and> mem (p + 1) = b \<and> mem (p + 2) = c"
  "spells mem p [a, b, c, d] \<longleftrightarrow> mem p = a \<and> mem (p + 1) = b \<and> mem (p + 2) = c \<and> mem (p + 3) = d"
  by (simp_all add: spells_Cons add.commute [of _ p] add.assoc)

lemma spells_append: "spells mem p (xs @ ys) \<longleftrightarrow> spells mem p xs \<and> spells mem (p + int (length xs)) ys"
  by (induction xs arbitrary: p) (auto simp: spells_Cons algebra_simps)

lemmas utf8_char_simps = utf8_char_1 utf8_char_2 utf8_char_3 utf8_char_4

lemma byte_offset:
  assumes "0 \<le> x" "x < m" "0 \<le> a" "a * m + x < 256"
  shows "uint (word_of_int (a * m + x) :: u8) = a * m + x \<and> (a * m + x) mod m = x \<and> (a * m + x) div m = a"
proof -
  have "0 \<le> a * m + x" using assms by simp
  then have "uint (word_of_int (a * m + x) :: u8) = a * m + x"
    using assms(4) by (simp only: uint_byte mod_pos_pos_trivial)
  then show ?thesis using assms by simp
qed

lemma tail_byte:
  assumes "0 \<le> x" "x < 64"
  shows "uint (word_of_int (0x80 + x) :: u8) = 0x80 + x" "(0x80 + x) mod 64 = x" "(0x80 + x) div 64 = 2"
  using byte_offset [of x 64 2] assms by simp_all

lemma lead_bytes:
  "0 \<le> x \<Longrightarrow> x < 32 \<Longrightarrow> uint (word_of_int (0xC0 + x) :: u8) = 0xC0 + x \<and> (0xC0 + x) mod 64 = x"
  "0 \<le> x \<Longrightarrow> x < 16 \<Longrightarrow> uint (word_of_int (0xE0 + x) :: u8) = 0xE0 + x \<and> (0xE0 + x) mod 32 = x
    \<and> (0xE0 + x) div 16 = 14"
  "0 \<le> x \<Longrightarrow> x < 8 \<Longrightarrow> uint (word_of_int (0xF0 + x) :: u8) = 0xF0 + x \<and> (0xF0 + x) mod 16 = x
    \<and> (0xF0 + x) div 16 = 15"
  using byte_offset [of x 64 3] byte_offset [of x 32 7] byte_offset [of x 16 14] byte_offset [of x 16 15] by simp_all

text \<open>A code point as the groups of six bits its encoding is made of.\<close>

lemma code_split:
  fixes c :: int
  shows "c = c div 64 * 64 + c mod 64"
    and "c = c div 4096 * 4096 + c div 64 mod 64 * 64 + c mod 64"
    and "c = c div 262144 * 262144 + c div 4096 mod 64 * 4096 + c div 64 mod 64 * 64 + c mod 64"
proof -
  have d: "c div 4096 = c div 64 div 64" "c div 262144 = c div 4096 div 64"
    using zdiv_zmult2_eq [of 64 c 64] zdiv_zmult2_eq [of 64 c 4096] by simp_all
  have a: "c = c div 64 * 64 + c mod 64" "c div 64 = c div 64 div 64 * 64 + c div 64 mod 64"
    "c div 4096 = c div 4096 div 64 * 64 + c div 4096 mod 64" by simp_all
  show "c = c div 64 * 64 + c mod 64" by simp
  show 3: "c = c div 4096 * 4096 + c div 64 mod 64 * 64 + c mod 64" using a d by linarith
  show "c = c div 262144 * 262144 + c div 4096 mod 64 * 4096 + c div 64 mod 64 * 64 + c mod 64"
    using 3 a(3) d(2) by linarith
qed

lemma utf8_bytes:
  assumes "is_char c"
  obtains (one) "0 \<le> c" "c < 0x80" "map uint (utf8_char c) = [c]"
  | (two) x y where "c = x * 64 + y" "0 \<le> x" "x < 32" "0 \<le> y" "y < 64"
      "map uint (utf8_char c) = [0xC0 + x, 0x80 + y]" "0x80 \<le> c"
  | (three) x y z where "c = x * 4096 + y * 64 + z" "0 \<le> x" "x < 16" "0 \<le> y" "y < 64" "0 \<le> z" "z < 64"
      "map uint (utf8_char c) = [0xE0 + x, 0x80 + y, 0x80 + z]" "0x800 \<le> c"
  | (four) x y z w where "c = x * 262144 + y * 4096 + z * 64 + w" "0 \<le> x" "x < 8" "0 \<le> y" "y < 64"
      "0 \<le> z" "z < 64" "0 \<le> w" "w < 64" "map uint (utf8_char c) = [0xF0 + x, 0x80 + y, 0x80 + z, 0x80 + w]"
      "0x10000 \<le> c"
  using assms
proof (cases rule: is_char_cases)
  case 1
  then show ?thesis by (intro one) (simp_all add: utf8_char_1 uint_byte del: of_int_of_nat_eq)
next
  case 2
  then have x: "0 \<le> c div 64" "c div 64 < 32" by linarith+
  show ?thesis
    by (rule two [OF code_split(1) x _ _ _ 2(1)])
      (simp_all only: utf8_char_2 [OF 2] list.map tail_byte lead_bytes x pos_mod_sign pos_mod_bound zero_less_numeral)
next
  case 3
  then have x: "0 \<le> c div 4096" "c div 4096 < 16" by linarith+
  show ?thesis
    by (rule three [OF code_split(2) x _ _ _ _ _ 3(1)])
      (simp_all only: utf8_char_3 [OF 3] list.map tail_byte lead_bytes x pos_mod_sign pos_mod_bound zero_less_numeral)
next
  case 4
  then have x: "0 \<le> c div 262144" "c div 262144 < 8" by linarith+
  show ?thesis
    by (rule four [OF code_split(3) x _ _ _ _ _ _ _ 4(1)])
      (simp_all only: utf8_char_4 [OF 4(1)] list.map tail_byte lead_bytes x pos_mod_sign pos_mod_bound zero_less_numeral)
qed

text \<open>Reading the groups back out of the bytes.\<close>

lemma groups [byte_arith]:
  "0 \<le> x \<Longrightarrow> x < 64 \<Longrightarrow> (128 + x) mod 64 = (x::int)"
  "0 \<le> x \<Longrightarrow> x < 64 \<Longrightarrow> (128 + x) div 64 = (2::int)"
  "0 \<le> x \<Longrightarrow> x < 32 \<Longrightarrow> (192 + x) mod 64 = (x::int)"
  "0 \<le> x \<Longrightarrow> x < 16 \<Longrightarrow> (224 + x) mod 32 = (x::int)"
  "0 \<le> x \<Longrightarrow> x < 8 \<Longrightarrow> (240 + x) mod 16 = (x::int)"
  "0 \<le> x \<Longrightarrow> x < 16 \<Longrightarrow> (224 + x) div 16 = (14::int)"
  "0 \<le> x \<Longrightarrow> x < 8 \<Longrightarrow> (240 + x) div 16 = (15::int)"
  using tail_byte [of x] lead_bytes [of x] by simp_all

lemma utf8_ref_char:
  assumes "is_char c" "spells mem p (utf8_char c)"
  shows "utf8_ref mem p = Some c"
  using assms(1)
proof (cases rule: utf8_bytes)
  case one
  with assms(2) show ?thesis by (auto simp: map_eq_Cons_conv spells_short utf8_ref_def)
next
  case two
  with assms(2) show ?thesis by (auto simp: map_eq_Cons_conv spells_short utf8_ref_def byte_arith)
next
  case three
  with assms(2) show ?thesis by (auto simp: map_eq_Cons_conv spells_short utf8_ref_def byte_arith)
next
  case four
  with assms(2) show ?thesis by (auto simp: map_eq_Cons_conv spells_short utf8_ref_def byte_arith)
qed

lemma utf8_char_width:
  assumes "is_char c"
  shows "utf8_char c \<noteq> []" "byte_width (hd (utf8_char c)) = int (length (utf8_char c))"
    "int (length (utf8_char c)) = sexp_utf8_char_byte_count c"
    "drop_bit 6 (uint (hd (utf8_char c))) \<noteq> 2" "\<forall>b \<in> set (tl (utf8_char c)). drop_bit 6 (uint b) = 2 \<and> b \<noteq> 0"
proof -
  have "utf8_char c \<noteq> [] \<and> byte_width (hd (utf8_char c)) = int (length (utf8_char c))
    \<and> int (length (utf8_char c)) = sexp_utf8_char_byte_count c \<and> drop_bit 6 (uint (hd (utf8_char c))) \<noteq> 2
    \<and> (\<forall>b \<in> set (tl (utf8_char c)). drop_bit 6 (uint b) = 2 \<and> b \<noteq> 0)"
    using assms
  proof (cases rule: utf8_bytes)
    case one
    then show ?thesis
      by (auto simp: map_eq_Cons_conv byte_width_def sexp_utf8_initial_byte_count_def sexp_utf8_char_byte_count_def
          byte_arith)
  next
    case two
    then show ?thesis
      by (auto simp: map_eq_Cons_conv byte_width_def sexp_utf8_initial_byte_count_def sexp_utf8_char_byte_count_def
          byte_arith)
  next
    case three
    then show ?thesis
      by (auto simp: map_eq_Cons_conv byte_width_def sexp_utf8_initial_byte_count_def sexp_utf8_char_byte_count_def
          byte_arith)
  next
    case four
    then show ?thesis
      by (auto simp: map_eq_Cons_conv byte_width_def sexp_utf8_initial_byte_count_def sexp_utf8_char_byte_count_def
          byte_arith)
  qed
  then show "utf8_char c \<noteq> []" "byte_width (hd (utf8_char c)) = int (length (utf8_char c))"
    "int (length (utf8_char c)) = sexp_utf8_char_byte_count c"
    "drop_bit 6 (uint (hd (utf8_char c))) \<noteq> 2" "\<forall>b \<in> set (tl (utf8_char c)). drop_bit 6 (uint b) = 2 \<and> b \<noteq> 0"
    by blast+
qed

text \<open>A port from which \<open>read_char\<close> takes the bytes \<open>bs\<close> and which is then \<open>port'\<close>.\<close>

primrec delivers :: "('p \<Rightarrow> int \<times> 'p) \<Rightarrow> 'p \<Rightarrow> u8 list \<Rightarrow> 'p \<Rightarrow> bool" where
  "delivers read_char port [] port' \<longleftrightarrow> port' = port"
| "delivers read_char port (b # bs) port' \<longleftrightarrow>
    fst (read_char port) = uint b \<and> delivers read_char (snd (read_char port)) bs port'"

lemma read_utf8_char:
  assumes "is_char c" "delivers read_char port (tl (utf8_char c)) port'"
  shows "sexp_read_utf8_char read_char (uint (hd (utf8_char c))) port = (Some c, port')"
  using assms(1)
proof (cases rule: utf8_bytes)
  case one
  with assms(2) show ?thesis by (auto simp: map_eq_Cons_conv sexp_read_utf8_char_def)
next
  case two
  with assms(2) show ?thesis
    by (auto simp: map_eq_Cons_conv sexp_read_utf8_char_def case_prod_unfold byte_arith)
next
  case three
  with assms(2) show ?thesis
    by (auto simp: map_eq_Cons_conv sexp_read_utf8_char_def case_prod_unfold byte_arith Let_def)
next
  case four
  with assms(2) show ?thesis
    by (auto simp: map_eq_Cons_conv sexp_read_utf8_char_def case_prod_unfold byte_arith Let_def)
qed

lemma fold_unread:
  assumes "\<And>b p. read_char (unread b p) = (uint b, p)"
  shows "delivers read_char (fold unread (rev bs) port) bs port"
  by (induction bs) (simp_all add: assms)

lemma push_utf8_char:
  assumes "\<And>b p. read_char (unread b p) = (uint b, p)"
  shows "delivers read_char (sexp_push_utf8_char unread c port) (utf8_char c) port"
  unfolding sexp_push_utf8_char_def utf8_char_def by (rule fold_unread [OF assms])

lemma write_utf8_char:
  assumes "is_char c"
  shows "sexp_write_utf8_char (\<lambda>out b. Some (out @ [b])) (@) c out = Some (out @ utf8_char c)"
proof -
  note f = utf8_char_width [OF assms]
  have "takeWhile (\<lambda>b. b \<noteq> 0) (tl (utf8_char c) @ [0]) = tl (utf8_char c)"
    using f(5) by (subst takeWhile_append2) auto
  with f(1) show ?thesis
    by (simp add: sexp_write_utf8_char_def Let_def flip: utf8_char_def)
qed

text \<open>The reader's decoder, on the literal of a character of at least two bytes.\<close>

lemma decode_utf8_char:
  assumes "0x80 \<le> c" "c < 0x10000"
  shows "sexp_decode_utf8_char (utf8_char c) = c"
proof -
  have "is_char c" using assms by (simp add: is_char_def)
  note w = utf8_char_width [OF this]
  have nz: "x \<noteq> 0" if "uint x = 192 + n \<or> uint x = 224 + n \<or> uint x = 128 + n" "0 \<le> n" for x :: u8 and n
    using that by auto
  from \<open>is_char c\<close> show ?thesis
  proof (cases rule: utf8_bytes)
    case (two x y)
    then show ?thesis using nz [of "hd (utf8_char c)" x] w(5)
      by (auto simp: map_eq_Cons_conv sexp_decode_utf8_char_def byte_arith Let_def)
  next
    case (three x y z)
    then show ?thesis using nz [of "hd (utf8_char c)" x] w(5)
      by (auto simp: map_eq_Cons_conv sexp_decode_utf8_char_def byte_arith Let_def)
  qed (use assms in simp_all)
qed

lemma decode_utf8_char_4:
  assumes "is_char c" "0x10000 \<le> c"
  shows "sexp_decode_utf8_char (utf8_char c) < c"
proof -
  note w = utf8_char_width [OF assms(1)]
  have nz: "x \<noteq> 0" if "uint x = 240 + n" "0 \<le> n" for x :: u8 and n
    using that by auto
  from assms(1) show ?thesis
  proof (cases rule: utf8_bytes)
    case (four x y z w')
    then show ?thesis using nz [of "hd (utf8_char c)" x] w(5)
      by (auto simp: map_eq_Cons_conv sexp_decode_utf8_char_def byte_arith Let_def)
  qed (use assms in simp_all)
qed

subsection \<open>Texts in a character code\<close>

text \<open>
  What the string routines use of a character code: a character is one or more bytes, its first byte tells
  how many, no later byte looks like a first one, and the decoder reads it back.
\<close>

locale character_code =
  fixes enc :: "'c \<Rightarrow> 'b list" and width :: "'b \<Rightarrow> int" and dec :: "(int \<Rightarrow> 'b) \<Rightarrow> int \<Rightarrow> 'c option"
    and later :: "'b \<Rightarrow> bool" and valid :: "'c \<Rightarrow> bool"
  assumes enc_nonempty: "valid c \<Longrightarrow> enc c \<noteq> []"
    and enc_width: "valid c \<Longrightarrow> width (hd (enc c)) = int (length (enc c))"
    and enc_first: "valid c \<Longrightarrow> \<not> later (hd (enc c))"
    and enc_later: "valid c \<Longrightarrow> b \<in> set (tl (enc c)) \<Longrightarrow> later b"
    and dec_enc: "valid c \<Longrightarrow> \<forall>k < length (enc c). mem (p + int k) = enc c ! k \<Longrightarrow> dec mem p = Some c"
begin

abbreviation text_of :: "'c list \<Rightarrow> 'b list" where
  "text_of cs \<equiv> concat (map enc cs)"

lemma text_take_drop: "text_of cs = text_of (take k cs) @ text_of (drop k cs)"
  by (metis append_take_drop_id concat_append map_append)

lemma text_length_pos: "list_all valid cs \<Longrightarrow> cs \<noteq> [] \<Longrightarrow> 0 < length (text_of cs)"
  using enc_nonempty by (cases cs) auto

lemma text_offset_less:
  assumes "list_all valid cs" "k < length cs"
  shows "length (text_of (take k cs)) < length (text_of cs)"
proof -
  have "0 < length (text_of (drop k cs))"
    using assms by (intro text_length_pos) (auto simp: list_all_iff dest: in_set_dropD)
  then show ?thesis by (subst text_take_drop [of cs k]) simp
qed

lemma text_at:
  assumes "list_all valid cs" "k < length cs" "\<forall>j < length (text_of cs). mem (p + int j) = text_of cs ! j"
  shows "dec mem (p + int (length (text_of (take k cs)))) = Some (cs ! k)"
    and "width (mem (p + int (length (text_of (take k cs))))) = int (length (enc (cs ! k)))"
proof -
  let ?o = "length (text_of (take k cs))"
  have v: "valid (cs ! k)" using assms(1,2) by (simp add: list_all_length)
  have "text_of cs = text_of (take k cs) @ enc (cs ! k) @ text_of (drop (Suc k) cs)"
    using text_take_drop [of cs k] assms(2) by (simp flip: Cons_nth_drop_Suc)
  then have at: "\<forall>j < length (enc (cs ! k)). mem (p + int ?o + int j) = enc (cs ! k) ! j"
    using assms(3) by (auto simp: nth_append add.assoc simp flip: of_nat_add)
  then show "dec mem (p + int ?o) = Some (cs ! k)" by (rule dec_enc [OF v])
  have "mem (p + int ?o) = hd (enc (cs ! k))"
    using at enc_nonempty [OF v] by (auto simp: hd_conv_nth dest: spec [of _ 0])
  then show "width (mem (p + int ?o)) = int (length (enc (cs ! k)))" by (simp add: enc_width [OF v])
qed

end

interpretation utf8_code: character_code utf8_char byte_width utf8_ref "\<lambda>b. drop_bit 6 (uint b) = 2" is_char
proof unfold_locales
  show "utf8_ref mem p = Some c" if "is_char c" "\<forall>k < length (utf8_char c). mem (p + int k) = utf8_char c ! k" for mem p c
    using utf8_ref_char [OF that(1), of mem p] that(2) by (simp add: spells_def)
qed (use utf8_char_width in blast)+

subsection \<open>Walking over a text\<close>

definition char_offset :: "int list \<Rightarrow> nat \<Rightarrow> int" where
  "char_offset cs k = int (length (utf8 (take k cs)))"

lemma utf8_simps [simp]: "utf8 [] = []" "utf8 (c # cs) = utf8_char c @ utf8 cs" "utf8 (cs @ ds) = utf8 cs @ utf8 ds"
  by (simp_all add: utf8_def)

lemma char_offset_simps [simp]: "char_offset cs 0 = 0"
  "char_offset (c # cs) (Suc k) = int (length (utf8_char c)) + char_offset cs k" "char_offset [] k = 0"
  by (simp_all add: char_offset_def)

lemma char_offset_nonneg [simp]: "0 \<le> char_offset cs k"
  by (simp add: char_offset_def)

lemma char_offset_all: "length cs \<le> k \<Longrightarrow> char_offset cs k = int (length (utf8 cs))"
  by (simp add: char_offset_def)

lemma char_offset_step: "k < length cs \<Longrightarrow> char_offset cs (Suc k) = char_offset cs k + int (length (utf8_char (cs ! k)))"
  by (simp add: char_offset_def take_Suc_conv_app_nth)

lemma char_offset_mono: "j \<le> k \<Longrightarrow> char_offset cs j \<le> char_offset cs k"
  by (induction cs arbitrary: j k) (auto simp: char_offset_def take_Cons split: nat.splits)

lemma char_offset_le: "char_offset cs k \<le> int (length (utf8 cs))"
  by (metis char_offset_all char_offset_mono nle_le)

lemma char_offset_less: "list_all is_char cs \<Longrightarrow> k < length cs \<Longrightarrow> char_offset cs k < int (length (utf8 cs))"
  using utf8_code.text_offset_less [of cs k] by (simp add: char_offset_def utf8_def)

lemma utf8_at:
  assumes "list_all is_char cs" "k < length cs" "spells mem p (utf8 cs)"
  shows "utf8_ref mem (p + char_offset cs k) = Some (cs ! k)"
    and "byte_width (mem (p + char_offset cs k)) = int (length (utf8_char (cs ! k)))"
  using utf8_code.text_at [OF assms(1,2), of mem p] assms(3)
  by (simp_all add: spells_def char_offset_def utf8_def)

lemma head_width:
  assumes "is_char c" "spells mem p (utf8_char c @ bs)"
  shows "sexp_utf8_initial_byte_count (uint (mem p)) = int (length (utf8_char c))" "0 < length (utf8_char c)"
proof -
  note w = utf8_char_width [OF assms(1)]
  obtain b bs' where "utf8_char c = b # bs'" using w(1) by (cases "utf8_char c") auto
  with assms(2) w(2) show "sexp_utf8_initial_byte_count (uint (mem p)) = int (length (utf8_char c))"
    by (simp add: spells_Cons byte_width_def)
  show "0 < length (utf8_char c)" using w(1) by simp
qed

lemma length_loop_text:
  assumes "list_all is_char cs" "spells mem p (utf8 cs)" "k \<le> length cs"
  shows "utf8_length_loop mem p (p + char_offset cs k) = k"
  using assms
proof (induction cs arbitrary: p k)
  case (Cons c cs)
  show ?case
  proof (cases k)
    case (Suc k')
    have "sexp_utf8_initial_byte_count (uint (mem p)) = int (length (utf8_char c))" "0 < length (utf8_char c)"
      using head_width [of c mem p "utf8 cs"] Cons.prems by simp_all
    moreover have "utf8_length_loop mem (p + int (length (utf8_char c)))
        (p + int (length (utf8_char c)) + char_offset cs k') = k'"
      using Cons.prems Suc by (intro Cons.IH) (simp_all add: spells_append)
    moreover have "p < p + char_offset (c # cs) (Suc k')"
      using calculation(2) char_offset_nonneg [of cs k'] unfolding char_offset_simps by linarith
    ultimately show ?thesis unfolding Suc
      by (subst utf8_length_loop.simps) (simp add: add.assoc)
  qed (simp add: utf8_length_loop.simps)
qed (simp add: utf8_length_loop.simps)

lemma index_loop_text:
  assumes "list_all is_char cs" "spells mem (p + j) (utf8 cs)" "limit = j + int (length (utf8 cs))"
  shows "index_to_cursor_loop mem p limit (int i) j = (int (i - length cs), j + char_offset cs i)"
  using assms
proof (induction cs arbitrary: i j)
  case (Cons c cs)
  have w: "sexp_utf8_initial_byte_count (uint (mem (p + j))) = int (length (utf8_char c))" "0 < length (utf8_char c)"
    using head_width [of c mem "p + j" "utf8 cs"] Cons.prems by simp_all
  show ?case
  proof (cases i)
    case (Suc i')
    have "index_to_cursor_loop mem p limit (int i') (j + int (length (utf8_char c)))
      = (int (i' - length cs), j + int (length (utf8_char c)) + char_offset cs i')"
      using Cons.prems by (intro Cons.IH) (simp_all add: spells_append add.assoc)
    moreover have "j < limit" using Cons.prems(3) w(2) unfolding utf8_simps length_append of_nat_add by linarith
    ultimately show ?thesis using w(1) unfolding Suc
      by (subst index_to_cursor_loop.simps) simp
  qed (simp add: index_to_cursor_loop.simps)
qed (simp add: index_to_cursor_loop.simps)

lemma index_loop_negative: "i < 0 \<Longrightarrow> index_to_cursor_loop mem p limit i j = (i, j)"
  by (simp add: index_to_cursor_loop.simps)

lemma prev_later:
  assumes "spells mem p bs" "\<forall>b \<in> set bs. drop_bit 6 (uint b) = 2"
  shows "sexp_string_utf8_prev mem (p + int (length bs)) = sexp_string_utf8_prev mem p"
  using assms
proof (induction bs rule: rev_induct)
  case (snoc b bs)
  then have "drop_bit 6 (uint (mem (p + int (length bs)))) = 2"
    by (simp add: spells_append spells_short)
  then show ?case using snoc
    by (subst sexp_string_utf8_prev.simps) (simp add: spells_append)
qed simp

lemma prev_text:
  assumes "list_all is_char cs" "k < length cs" "spells mem p (utf8 cs)"
  shows "sexp_string_utf8_prev mem (p + char_offset cs (Suc k)) = Some (p + char_offset cs k)"
proof -
  let ?o = "p + char_offset cs k"
  have c: "is_char (cs ! k)" using assms by (simp add: list_all_length)
  note w = utf8_char_width [OF this]
  obtain b bs where b: "utf8_char (cs ! k) = b # bs" using w(1) by (cases "utf8_char (cs ! k)") auto
  have "utf8 cs = utf8 (take k cs) @ utf8_char (cs ! k) @ utf8 (drop (Suc k) cs)"
    using assms(2) by (subst id_take_nth_drop [of k cs]) (simp_all only: utf8_simps append_assoc)
  then have s: "spells mem ?o (b # bs)"
    using assms(3) b by (simp add: spells_append spells_Cons char_offset_def)
  have o: "p + char_offset cs (Suc k) = ?o + 1 + int (length bs)"
    using assms(2) b by (simp add: char_offset_step)
  have "sexp_string_utf8_prev mem (p + char_offset cs (Suc k)) = sexp_string_utf8_prev mem (?o + 1)"
    unfolding o using prev_later [of mem "?o + 1" bs] s w(5) b by (simp add: spells_Cons)
  also have "\<dots> = Some ?o"
    using s w(4) b by (subst sexp_string_utf8_prev.simps) (simp add: spells_Cons)
  finally show ?thesis .
qed

end
