(* ===== verification/Strings.thy ===== *)
theory Strings
  imports Utf8
begin

text \<open>
  Strings and byte vectors: the constructors, the character operations, cursors and substrings of
  \<^verbatim>\<open>sexp.c\<close> and \<^verbatim>\<open>eval.c\<close>, the instructions of \<^verbatim>\<open>vm.c\<close> that work on them, and the conversions of
  \<^verbatim>\<open>lib/chibi/io/port.c\<close> and \<^verbatim>\<open>lib/chibi/ast.c\<close>.  A string is a view (offset and size) of a byte vector that
  other strings may share, so byte vectors and strings are objects of a memory and are named by their
  index in it.

  The build has UTF-8 strings that can be changed, disjoint string cursors and no index table.
  Memory outside an object and fresh memory hold arbitrary bytes, \<open>memory_junk\<close>; \<open>has_room\<close> says for
  which sizes a byte vector can be allocated, while the fixed-size string object always can.  A store
  outside its object, undefined in C, is dropped, and dereferencing an exception as if it were
  a string is \<open>Undefined\<close>.
\<close>

subsection \<open>Objects\<close>

datatype obj = IMM u64 | BYTES_P nat | STRING_P nat | PAIR_P obj obj

datatype type_id = T_FIXNUM | T_CHAR | T_BYTES | T_STRING | T_STRING_CURSOR

datatype string_exn =
    Type_exception type_id obj
  | Xtype_exception string obj
  | User_exception string obj
  | Range_exception obj obj obj
  | Out_of_memory
  | Undefined

record bytes_obj =
  sexp_bytes_length :: int
  sexp_bytes_data :: "u8 list"
  bytes_immutablep :: bool

record string_obj =
  sexp_string_bytes :: nat
  sexp_string_offset :: int
  sexp_string_size :: int
  sexp_copy_on_writep :: bool
  sexp_immutablep :: bool

record string_mem =
  bytes_objs :: "bytes_obj list"
  string_objs :: "string_obj list"
  memory_junk :: "int \<Rightarrow> u8"
  has_room :: "int \<Rightarrow> bool"

type_synonym 'a outcome = "string_exn + 'a"

definition FALSE_OBJ :: obj where "FALSE_OBJ = IMM 62"
definition VOID_OBJ :: obj where "VOID_OBJ = IMM 1086"

fun fixnum_o :: "obj \<Rightarrow> bool" where
  "fixnum_o (IMM w) = sexp_fixnump_w w" | "fixnum_o x = False"

fun char_o :: "obj \<Rightarrow> bool" where
  "char_o (IMM w) = sexp_charp_w w" | "char_o x = False"

fun cursor_o :: "obj \<Rightarrow> bool" where
  "cursor_o (IMM w) = sexp_string_cursorp_w w" | "cursor_o x = False"

fun string_o :: "obj \<Rightarrow> bool" where
  "string_o (STRING_P s) = True" | "string_o x = False"

fun bytes_o :: "obj \<Rightarrow> bool" where
  "bytes_o (BYTES_P b) = True" | "bytes_o x = False"

fun word_o :: "obj \<Rightarrow> u64" where
  "word_o (IMM w) = w" | "word_o x = 0"

fun index_o :: "obj \<Rightarrow> nat" where
  "index_o (STRING_P s) = s" | "index_o (BYTES_P b) = b" | "index_o x = 0"

definition unfix :: "obj \<Rightarrow> int" where
  "unfix x = sint (sexp_unbox_fixnum (word_o x))"

definition uncursor :: "obj \<Rightarrow> int" where
  "uncursor x = sint (sexp_unbox_string_cursor (word_o x))"

definition unchar :: "obj \<Rightarrow> int" where
  "unchar x = sint (sexp_unbox_character (word_o x))"

definition fix_obj :: "int \<Rightarrow> obj" where
  "fix_obj n = IMM (sexp_make_fixnum (word_of_int n))"

definition cursor_obj :: "int \<Rightarrow> obj" where
  "cursor_obj n = IMM (sexp_make_string_cursor (word_of_int n))"

definition char_obj :: "int \<Rightarrow> obj" where
  "char_obj c = IMM (sexp_make_character (word_of_int c))"

text \<open>Conversion to a C \<open>int\<close> of 32 bits.\<close>

definition c_int :: "int \<Rightarrow> int" where
  "c_int n = sint (word_of_int n :: u32)"

subsection \<open>Reading and writing memory\<close>

definition byte_at :: "string_mem \<Rightarrow> nat \<Rightarrow> int \<Rightarrow> u8" where
  "byte_at m b k =
    (let data = sexp_bytes_data (bytes_objs m ! b)
     in if 0 \<le> k \<and> k < int (length data) then data ! nat k else memory_junk m k)"

text \<open>\<open>sexp_string_data\<close> of a string, as the function from positions to bytes.\<close>

definition string_at :: "string_mem \<Rightarrow> nat \<Rightarrow> int \<Rightarrow> u8" where
  "string_at m s k =
    (let str = string_objs m ! s in byte_at m (sexp_string_bytes str) (sexp_string_offset str + k))"

definition string_size :: "string_mem \<Rightarrow> nat \<Rightarrow> int" where
  "string_size m s = sexp_string_size (string_objs m ! s)"

definition copy_bytes :: "(int \<Rightarrow> u8) \<Rightarrow> int \<Rightarrow> int \<Rightarrow> u8 list" where
  "copy_bytes mem p len = map (\<lambda>k. mem (p + int k)) [0..<nat len]"

definition store_at :: "u8 list \<Rightarrow> int \<Rightarrow> u8 list \<Rightarrow> u8 list" where
  "store_at data k bs =
    map (\<lambda>j. if k \<le> int j \<and> int j < k + int (length bs) then bs ! nat (int j - k) else data ! j) [0..<length data]"

definition write_bytes :: "string_mem \<Rightarrow> nat \<Rightarrow> int \<Rightarrow> u8 list \<Rightarrow> string_mem" where
  "write_bytes m b k bs = m\<lparr>bytes_objs := (bytes_objs m)
    [b := (bytes_objs m ! b)\<lparr>sexp_bytes_data := store_at (sexp_bytes_data (bytes_objs m ! b)) k bs\<rparr>]\<rparr>"

definition update_string :: "string_mem \<Rightarrow> nat \<Rightarrow> (string_obj \<Rightarrow> string_obj) \<Rightarrow> string_mem" where
  "update_string m s f = m\<lparr>string_objs := (string_objs m)[s := f (string_objs m ! s)]\<rparr>"

definition alloc_string :: "string_mem \<Rightarrow> nat \<Rightarrow> int \<Rightarrow> int \<Rightarrow> string_mem" where
  "alloc_string m b offset len = m\<lparr>string_objs := string_objs m @
    [\<lparr>sexp_string_bytes = b, sexp_string_offset = offset, sexp_string_size = len,
      sexp_copy_on_writep = False, sexp_immutablep = False\<rparr>]\<rparr>"

subsection \<open>Constructors\<close>

definition sexp_make_bytes_op :: "string_mem \<Rightarrow> obj \<Rightarrow> obj \<Rightarrow> obj outcome \<times> string_mem" where
  "sexp_make_bytes_op m len i =
    (let clen = unfix len
     in if \<not> fixnum_o len then (Inl (Type_exception T_FIXNUM len), m)
        else if clen < 0 then (Inl (Xtype_exception ''negative length'' len), m)
        else if \<not> has_room m clen then (Inl Out_of_memory, m)
        else let data = (if fixnum_o i then replicate (nat clen) (word_of_int (unfix i))
                         else copy_bytes (memory_junk m) 0 clen)
             in (Inr (BYTES_P (length (bytes_objs m))),
                 m\<lparr>bytes_objs := bytes_objs m @ [\<lparr>sexp_bytes_length = clen, sexp_bytes_data = data @ [0],
                   bytes_immutablep = False\<rparr>]\<rparr>))"

definition sexp_make_string_op :: "string_mem \<Rightarrow> obj \<Rightarrow> obj \<Rightarrow> obj outcome \<times> string_mem" where
  "sexp_make_string_op m len ch =
    (let i = (if char_o ch then fix_obj (unchar ch) else ch);
         (b, m) =
           (if char_o ch \<and> unchar ch \<ge> 0x80 then
              if \<not> fixnum_o len then (Inl (Type_exception T_FIXNUM len), m)
              else let clen = sexp_utf8_char_byte_count (unchar ch);
                       (b, m) = sexp_make_bytes_op m
                         (IMM (sexp_fx_mul (word_o len) (sexp_make_fixnum (word_of_int clen)))) VOID_OBJ
                   in case b of Inl e \<Rightarrow> (Inl e, m)
                      | Inr b \<Rightarrow> (Inr b, fold (\<lambda>j m. write_bytes m (index_o b) (int j * clen)
                          (sexp_utf8_encode_char clen (unchar ch))) [0..<nat (unfix len)] m)
            else sexp_make_bytes_op m len i)
     in case b of Inl e \<Rightarrow> (Inl e, m)
        | Inr b \<Rightarrow> (Inr (STRING_P (length (string_objs m))),
            alloc_string m (index_o b) 0 (sexp_bytes_length (bytes_objs m ! index_o b))))"

text \<open>The bytes \<open>str\<close> points to, \<open>None\<close> for \<open>NULL\<close>; a negative length stands for \<open>strlen\<close>.\<close>

definition sexp_c_string :: "string_mem \<Rightarrow> u8 list option \<Rightarrow> int \<Rightarrow> obj outcome \<times> string_mem" where
  "sexp_c_string m str slen =
    (case str of None \<Rightarrow> (Inr FALSE_OBJ, m)
     | Some str \<Rightarrow>
         let len = (if slen \<ge> 0 then slen else int (length (takeWhile (\<lambda>b. b \<noteq> 0) str)));
             (s, m) = sexp_make_string_op m (fix_obj len) VOID_OBJ
         in case s of Inl e \<Rightarrow> (Inl e, m)
            | Inr s \<Rightarrow>
                let b = sexp_string_bytes (string_objs m ! index_o s);
                    mem = (\<lambda>k. if k < int (length str) then str ! nat k else memory_junk m k);
                    m = write_bytes m b 0 (copy_bytes mem 0 len)
                in (Inr s, write_bytes m b len [0]))"

subsection \<open>Characters and cursors\<close>

definition sexp_string_utf8_ref :: "string_mem \<Rightarrow> obj \<Rightarrow> obj \<Rightarrow> obj outcome" where
  "sexp_string_utf8_ref m str i =
    (case utf8_ref (string_at m (index_o str)) (uncursor i) of
       None \<Rightarrow> Inl (User_exception ''string-ref: invalid utf8 byte'' i)
     | Some c \<Rightarrow> Inr (char_obj c))"

definition sexp_string_index_to_cursor :: "string_mem \<Rightarrow> obj \<Rightarrow> obj \<Rightarrow> obj outcome" where
  "sexp_string_index_to_cursor m str index =
    (if \<not> string_o str then Inl (Type_exception T_STRING str)
     else if \<not> fixnum_o index then Inl (Type_exception T_FIXNUM index)
     else let (i, j) = index_to_cursor_loop (string_at m (index_o str)) 0 (string_size m (index_o str)) (unfix index) 0
          in if i \<noteq> 0 then Inl (User_exception ''string-index->cursor: index out of range'' index)
             else Inr (cursor_obj j))"

definition sexp_string_cursor_to_index :: "string_mem \<Rightarrow> obj \<Rightarrow> obj \<Rightarrow> obj outcome" where
  "sexp_string_cursor_to_index m str offset =
    (let off = uncursor offset
     in if \<not> string_o str then Inl (Type_exception T_STRING str)
        else if \<not> cursor_o offset then Inl (Type_exception T_STRING_CURSOR offset)
        else if off < 0 \<or> off > string_size m (index_o str)
        then Inl (User_exception ''string-cursor->index: offset out of range'' offset)
        else Inr (fix_obj (int (sexp_string_utf8_length (string_at m (index_o str)) 0 off))))"

definition sexp_string_cursor_offset :: "obj \<Rightarrow> obj outcome" where
  "sexp_string_cursor_offset cur =
    (if \<not> cursor_o cur then Inl (Type_exception T_STRING_CURSOR cur) else Inr (fix_obj (uncursor cur)))"

definition sexp_string_length :: "string_mem \<Rightarrow> nat \<Rightarrow> int" where
  "sexp_string_length m s = int (sexp_string_utf8_length (string_at m s) 0 (string_size m s))"

definition sexp_string_cursor_next :: "string_mem \<Rightarrow> obj \<Rightarrow> obj \<Rightarrow> obj" where
  "sexp_string_cursor_next m str i =
    cursor_obj (uncursor i + sexp_utf8_initial_byte_count (uint (string_at m (index_o str) (uncursor i))))"

definition sexp_string_cursor_prev :: "string_mem \<Rightarrow> obj \<Rightarrow> obj \<Rightarrow> obj option" where
  "sexp_string_cursor_prev m str i =
    map_option cursor_obj (sexp_string_utf8_prev (string_at m (index_o str)) (uncursor i))"

definition sexp_string_utf8_index_ref :: "string_mem \<Rightarrow> obj \<Rightarrow> obj \<Rightarrow> obj outcome" where
  "sexp_string_utf8_index_ref m str i =
    (if \<not> string_o str then Inl (Type_exception T_STRING str)
     else if \<not> fixnum_o i then Inl (Type_exception T_FIXNUM i)
     else case sexp_string_index_to_cursor m str i of Inl e \<Rightarrow> Inl e
          | Inr off \<Rightarrow>
              if uncursor off \<ge> string_size m (index_o str)
              then Inl (User_exception ''string-ref: index out of range'' i)
              else sexp_string_utf8_ref m str off)"

subsection \<open>Changing a character\<close>

text \<open>
  When the encoding changes its length, or the bytes are shared with another string, the bytes
  are copied.  \<open>p\<close> is where the new encoding is stored: a byte vector and a position in it.
\<close>

definition sexp_string_utf8_set :: "string_mem \<Rightarrow> obj \<Rightarrow> obj \<Rightarrow> obj \<Rightarrow> string_mem" where
  "sexp_string_utf8_set m str index ch =
    (let s = index_o str; so = string_objs m ! s;
         i = c_int (uncursor index); c = unchar ch;
         p = (sexp_string_bytes so, sexp_string_offset so + i);
         old_len = sexp_utf8_initial_byte_count (uint (string_at m s i));
         new_len = sexp_utf8_char_byte_count c;
         (p, m) =
           (if sexp_copy_on_writep so \<or> old_len \<noteq> new_len then
              let len = c_int (sexp_string_size so + (new_len - old_len));
                  (p, m) =
                    (case sexp_make_bytes_op m (fix_obj len) VOID_OBJ of
                       (Inl e, m) \<Rightarrow> (p, m)
                     | (Inr b, m) \<Rightarrow>
                         let q = index_o b;
                             m' = write_bytes m q 0 (copy_bytes (string_at m s) 0 i);
                             m' = write_bytes m' q (i + new_len)
                               (copy_bytes (string_at m s) (i + old_len) (len - i - new_len + 1));
                             m' = update_string m' s (\<lambda>st. st\<lparr>sexp_string_bytes := q\<rparr>)
                         in ((q, i), m'));
                  m = update_string m s (\<lambda>st. st\<lparr>sexp_string_size := sexp_string_size st + (new_len - old_len),
                        sexp_copy_on_writep := False\<rparr>)
              in (p, m)
            else (p, m))
     in write_bytes m (fst p) (snd p) (sexp_utf8_encode_char new_len c))"

definition sexp_string_utf8_index_set :: "string_mem \<Rightarrow> obj \<Rightarrow> obj \<Rightarrow> obj \<Rightarrow> obj outcome \<times> string_mem" where
  "sexp_string_utf8_index_set m str i ch =
    (if \<not> string_o str then (Inl (Type_exception T_STRING str), m)
     else if \<not> fixnum_o i then (Inl (Type_exception T_FIXNUM i), m)
     else if \<not> char_o ch then (Inl (Type_exception T_CHAR ch), m)
     else if sexp_immutablep (string_objs m ! index_o str)
     then (Inl (Xtype_exception ''string-set!: immutable string'' str), m)
     else case sexp_string_index_to_cursor m str i of Inl e \<Rightarrow> (Inl e, m)
          | Inr off \<Rightarrow>
              if uncursor off \<ge> string_size m (index_o str)
              then (Inl (User_exception ''string-set!: index out of range'' i), m)
              else (Inr VOID_OBJ, sexp_string_utf8_set m str off ch))"

subsection \<open>Substrings and concatenation\<close>

definition sexp_substring_op :: "string_mem \<Rightarrow> obj \<Rightarrow> obj \<Rightarrow> obj \<Rightarrow> obj outcome \<times> string_mem" where
  "sexp_substring_op m str start stop =
    (if \<not> string_o str then (Inl (Type_exception T_STRING str), m)
     else if \<not> cursor_o start then (Inl (Type_exception T_STRING_CURSOR start), m)
     else
       let s = index_o str; stop = (if stop = FALSE_OBJ then cursor_obj (string_size m s) else stop)
       in if \<not> cursor_o stop then (Inl (Type_exception T_STRING_CURSOR stop), m)
          else if uncursor start < 0 \<or> uncursor start > string_size m s
            \<or> uncursor stop < 0 \<or> uncursor stop > string_size m s \<or> word_o stop < word_o start
          then (Inl (Range_exception str start stop), m)
          else
            let (res, m) = sexp_make_string_op m (fix_obj (uncursor stop - uncursor start)) VOID_OBJ
            in case res of Inl e \<Rightarrow> (Inl Undefined, m)
               | Inr res \<Rightarrow>
                   let b = sexp_string_bytes (string_objs m ! index_o res); len = string_size m (index_o res);
                       m' = write_bytes m b 0 (copy_bytes (string_at m s) (uncursor start) len)
                   in (Inr res, write_bytes m' b len [0]))"

definition sexp_utf8_substring_op :: "string_mem \<Rightarrow> obj \<Rightarrow> obj \<Rightarrow> obj \<Rightarrow> obj outcome \<times> string_mem" where
  "sexp_utf8_substring_op m str start stop =
    (if \<not> string_o str then (Inl (Type_exception T_STRING str), m)
     else if \<not> fixnum_o start then (Inl (Type_exception T_FIXNUM start), m)
     else case sexp_string_index_to_cursor m str start of Inl e \<Rightarrow> (Inl e, m)
          | Inr start \<Rightarrow>
              if fixnum_o stop then
                case sexp_string_index_to_cursor m str stop of Inl e \<Rightarrow> (Inl e, m)
                | Inr stop \<Rightarrow> sexp_substring_op m str start stop
              else sexp_substring_op m str start stop)"

definition sexp_subbytes_op :: "string_mem \<Rightarrow> obj \<Rightarrow> obj \<Rightarrow> obj \<Rightarrow> obj outcome \<times> string_mem" where
  "sexp_subbytes_op m vec start stop =
    (if \<not> bytes_o vec then (Inl (Type_exception T_BYTES vec), m)
     else if \<not> fixnum_o start then (Inl (Type_exception T_FIXNUM start), m)
     else
       let len = sexp_bytes_length (bytes_objs m ! index_o vec);
           stop = (if stop = FALSE_OBJ then fix_obj len else stop)
       in if \<not> fixnum_o stop then (Inl (Type_exception T_FIXNUM stop), m)
          else
            let str = STRING_P (length (string_objs m)); m = alloc_string m (index_o vec) 0 len;
                (res, m) = sexp_substring_op m str (IMM (sexp_fixnum_to_string_cursor (word_o start)))
                  (IMM (sexp_fixnum_to_string_cursor (word_o stop)))
            in case res of Inl e \<Rightarrow> (Inl e, m)
               | Inr res \<Rightarrow> (Inr (BYTES_P (sexp_string_bytes (string_objs m ! index_o res))), m))"

fun list_elements :: "obj \<Rightarrow> obj list" where
  "list_elements (PAIR_P x ls) = x # list_elements ls"
| "list_elements x = []"

definition string_bytes :: "string_mem \<Rightarrow> obj \<Rightarrow> u8 list" where
  "string_bytes m str = copy_bytes (string_at m (index_o str)) 0 (string_size m (index_o str))"

text \<open>The copying loop: the separator follows every string but the last.\<close>

fun concatenate_loop :: "string_mem \<Rightarrow> u8 list \<Rightarrow> obj list \<Rightarrow> u8 list" where
  "concatenate_loop m csep [] = []"
| "concatenate_loop m csep (str # ls) =
    string_bytes m str @ (if ls \<noteq> [] then csep else []) @ concatenate_loop m csep ls"

definition sexp_string_concatenate_op :: "string_mem \<Rightarrow> obj \<Rightarrow> obj \<Rightarrow> obj outcome \<times> string_mem" where
  "sexp_string_concatenate_op m str_ls sep =
    (let ls = list_elements str_ls
     in case find (\<lambda>x. \<not> string_o x) ls of Some x \<Rightarrow> (Inl (Type_exception T_STRING x), m)
        | None \<Rightarrow>
            let len = sum_list (map (\<lambda>x. string_size m (index_o x)) ls);
                csep = (if ls \<noteq> [] \<and> string_o sep then string_bytes m sep else []);
                len = len + int (length csep) * (int (length ls) - (if ls = [] then 0 else 1));
                (res, m') = sexp_make_string_op m (fix_obj len) VOID_OBJ
            in case res of Inl e \<Rightarrow> (Inl Undefined, m')
               | Inr res \<Rightarrow>
                   (Inr res, write_bytes m' (sexp_string_bytes (string_objs m' ! index_o res)) 0
                     (concatenate_loop m csep ls @ [0])))"

subsection \<open>Conversions between strings and byte vectors\<close>

definition sexp_bytes_to_string :: "string_mem \<Rightarrow> nat \<Rightarrow> int \<Rightarrow> int \<Rightarrow> obj \<times> string_mem" where
  "sexp_bytes_to_string m vec offset len =
    (STRING_P (length (string_objs m)), alloc_string m vec offset (len - offset))"

definition sexp_utf8_to_string_x :: "string_mem \<Rightarrow> obj \<Rightarrow> obj \<Rightarrow> obj \<Rightarrow> obj outcome \<times> string_mem" where
  "sexp_utf8_to_string_x m vec offset len =
    (if \<not> bytes_o vec then (Inl (Type_exception T_BYTES vec), m)
     else if \<not> fixnum_o offset then (Inl (Type_exception T_FIXNUM offset), m)
     else if \<not> fixnum_o len then (Inl (Type_exception T_FIXNUM len), m)
     else let (s, m) = sexp_bytes_to_string m (index_o vec) (unfix offset) (unfix len) in (Inr s, m))"

definition sexp_string_to_utf8 :: "string_mem \<Rightarrow> obj \<Rightarrow> obj outcome \<times> string_mem" where
  "sexp_string_to_utf8 m str =
    (if \<not> string_o str then (Inl (Type_exception T_STRING str), m)
     else case sexp_c_string m (Some (string_bytes m str)) (string_size m (index_o str)) of
            (Inl e, m) \<Rightarrow> (Inl Undefined, m)
          | (Inr res, m) \<Rightarrow> (Inr (BYTES_P (sexp_string_bytes (string_objs m ! index_o res))), m))"

definition sexp_immutable_string_op :: "string_mem \<Rightarrow> obj \<Rightarrow> obj outcome \<times> string_mem" where
  "sexp_immutable_string_op m str =
    (if \<not> string_o str then (Inl (Type_exception T_STRING str), m)
     else let s = index_o str; so = string_objs m ! s; res = length (string_objs m);
              m = alloc_string m (sexp_string_bytes so) (sexp_string_offset so) (sexp_string_size so);
              m = update_string m s (\<lambda>st. st\<lparr>sexp_copy_on_writep := True\<rparr>)
          in (Inr (STRING_P res), update_string m res (\<lambda>st. st\<lparr>sexp_immutablep := True\<rparr>)))"

definition sexp_utf8_ref :: "string_mem \<Rightarrow> obj \<Rightarrow> obj \<Rightarrow> obj outcome" where
  "sexp_utf8_ref m bv offset =
    (if \<not> bytes_o bv then Inl (Type_exception T_BYTES bv)
     else if \<not> fixnum_o offset then Inl (Type_exception T_FIXNUM offset)
     else case utf8_ref (byte_at m (index_o bv)) (unfix offset) of
            None \<Rightarrow> Inl (User_exception ''utf8-ref: invalid utf8 byte'' offset)
          | Some c \<Rightarrow> Inr (char_obj c))"

definition sexp_utf8_next :: "string_mem \<Rightarrow> obj \<Rightarrow> obj \<Rightarrow> obj \<Rightarrow> obj outcome" where
  "sexp_utf8_next m bv offset stop =
    (if \<not> bytes_o bv then Inl (Type_exception T_BYTES bv)
     else if \<not> fixnum_o offset then Inl (Type_exception T_FIXNUM offset)
     else if \<not> fixnum_o stop then Inl (Type_exception T_FIXNUM stop)
     else if unfix offset \<ge> unfix stop then Inr FALSE_OBJ
     else let initial = uint (byte_at m (index_o bv) (unfix offset));
              res = unfix offset + (if initial < 0xC0 then 1 else if initial < 0xE0 then 2 else 3 + (drop_bit 4 initial AND 1))
          in Inr (if res > unfix stop then FALSE_OBJ else fix_obj res))"

function utf8_prev_loop :: "(int \<Rightarrow> u8) \<Rightarrow> int \<Rightarrow> int \<Rightarrow> int" where
  "utf8_prev_loop p limit i =
    (if i \<ge> limit \<and> drop_bit 6 (uint (p i)) = 2 then utf8_prev_loop p limit (i - 1) else i)"
  by auto
termination by (relation "measure (\<lambda>(p, limit, i). nat (i + 1 - limit))") auto

declare utf8_prev_loop.simps [simp del]

definition sexp_utf8_prev :: "string_mem \<Rightarrow> obj \<Rightarrow> obj \<Rightarrow> obj \<Rightarrow> obj outcome" where
  "sexp_utf8_prev m bv offset start =
    (if \<not> bytes_o bv then Inl (Type_exception T_BYTES bv)
     else if \<not> fixnum_o offset then Inl (Type_exception T_FIXNUM offset)
     else if \<not> fixnum_o start then Inl (Type_exception T_FIXNUM start)
     else let limit = unfix start; i = utf8_prev_loop (byte_at m (index_o bv)) limit (unfix offset - 1)
          in Inr (if i < limit then FALSE_OBJ else fix_obj i))"

text \<open>
  Counting a character.  Outside ASCII the loop hands \<open>sexp_string_utf8_ref\<close> the position as
  a fixnum, where it expects a string cursor.
\<close>

function count_loop :: "string_mem \<Rightarrow> obj \<Rightarrow> obj \<Rightarrow> int \<Rightarrow> int \<Rightarrow> nat" where
  "count_loop m str ch i stop =
    (if i < stop then
       (if sexp_string_utf8_ref m str (fix_obj i) = Inr ch then 1 else 0)
       + count_loop m str ch (i + sexp_utf8_initial_byte_count (uint (string_at m (index_o str) i))) stop
     else 0)"
  by auto
termination
proof (relation "measure (\<lambda>(m, str, ch, i, stop). nat (stop - i))")
  fix m str ch i stop
  assume "i < (stop :: int)"
  with initial_byte_count_pos [of "uint (string_at m (index_o str) i)"]
  show "((m, str, ch, i + sexp_utf8_initial_byte_count (uint (string_at m (index_o str) i)), stop), (m, str, ch, i, stop))
    \<in> measure (\<lambda>(m, str, ch, i, stop). nat (stop - i))" by simp
qed simp

declare count_loop.simps [simp del]

definition sexp_string_count :: "string_mem \<Rightarrow> obj \<Rightarrow> obj \<Rightarrow> obj \<Rightarrow> obj \<Rightarrow> obj outcome" where
  "sexp_string_count m ch str start stop =
    (if \<not> char_o ch then Inl (Type_exception T_CHAR ch)
     else if \<not> string_o str then Inl (Type_exception T_STRING str)
     else if \<not> fixnum_o start then Inl (Type_exception T_FIXNUM start)
     else if stop \<noteq> FALSE_OBJ \<and> \<not> fixnum_o stop then Inl (Type_exception T_FIXNUM stop)
     else
       let s = index_o str; stop = (if stop = FALSE_OBJ then fix_obj (string_size m s) else stop); c = unchar ch
       in if c < 128 then
            if unfix stop > string_size m s
            then Inl (User_exception ''string-count: end index out of range'' stop)
            else Inr (fix_obj (int (length (filter (\<lambda>b. uint b = c)
                   (copy_bytes (string_at m s) (unfix start) (unfix stop - unfix start))))))
          else Inr (fix_obj (int (count_loop m str ch (unfix start) (unfix stop)))))"

subsection \<open>Instructions of the virtual machine\<close>

text \<open>
  The instructions on strings and byte vectors, from their operands to the value they push, the
  exception they raise (shown with the first irritant) and the memory.
\<close>

definition vm_string_ref :: "string_mem \<Rightarrow> obj \<Rightarrow> obj \<Rightarrow> obj outcome" where
  "vm_string_ref m arg1 arg2 =
    (if \<not> string_o arg1 then Inl (User_exception ''string-cursor-ref: not a string'' arg1)
     else if \<not> cursor_o arg2 then Inl (User_exception ''string-cursor-ref: not a string-cursor'' arg2)
     else let i = uncursor arg2
          in if i < 0 \<or> i \<ge> string_size m (index_o arg1)
             then Inl (User_exception ''string-ref: index out of range'' arg1)
             else sexp_string_utf8_ref m arg1 arg2)"

definition vm_string_set :: "string_mem \<Rightarrow> obj \<Rightarrow> obj \<Rightarrow> obj \<Rightarrow> unit outcome \<times> string_mem" where
  "vm_string_set m arg1 arg2 arg3 =
    (if \<not> string_o arg1 then (Inl (User_exception ''string-cursor-set!: not a string'' arg1), m)
     else if sexp_immutablep (string_objs m ! index_o arg1)
     then (Inl (User_exception ''string-cursor-set!: immutable string'' arg1), m)
     else if \<not> cursor_o arg2 then (Inl (User_exception ''string-cursor-set!: not a string-cursor'' arg2), m)
     else if \<not> char_o arg3 then (Inl (User_exception ''string-cursor-set!: not a char'' arg3), m)
     else let i = uncursor arg2
          in if i < 0 \<or> i \<ge> string_size m (index_o arg1)
             then (Inl (User_exception ''string-cursor-set!: index out of range'' arg1), m)
             else (Inr (), snd (sexp_string_utf8_index_set m arg1 arg2 arg3)))"

definition vm_string_cursor_next :: "string_mem \<Rightarrow> obj \<Rightarrow> obj \<Rightarrow> obj outcome" where
  "vm_string_cursor_next m arg1 arg2 =
    (if \<not> string_o arg1 then Inl (User_exception ''string-cursor-next: not a string'' arg1)
     else if \<not> cursor_o arg2 then Inl (User_exception ''string-cursor-next: not a string-cursor'' arg2)
     else Inr (sexp_string_cursor_next m arg1 arg2))"

definition vm_string_cursor_prev :: "string_mem \<Rightarrow> obj \<Rightarrow> obj \<Rightarrow> obj outcome option" where
  "vm_string_cursor_prev m arg1 arg2 =
    (if \<not> string_o arg1 then Some (Inl (User_exception ''string-cursor-prev: not a string'' arg1))
     else if \<not> cursor_o arg2 then Some (Inl (User_exception ''string-cursor-prev: not a string-cursor'' arg2))
     else map_option Inr (sexp_string_cursor_prev m arg1 arg2))"

definition vm_string_cursor_end :: "string_mem \<Rightarrow> obj \<Rightarrow> obj outcome" where
  "vm_string_cursor_end m arg1 =
    (if \<not> string_o arg1 then Inl (User_exception ''string-cursor-end: not a string'' arg1)
     else Inr (cursor_obj (string_size m (index_o arg1))))"

definition vm_string_length :: "string_mem \<Rightarrow> obj \<Rightarrow> obj outcome" where
  "vm_string_length m arg1 =
    (if \<not> string_o arg1 then Inl (User_exception ''string-length: not a string'' arg1)
     else Inr (fix_obj (sexp_string_length m (index_o arg1))))"

definition vm_bytes_ref :: "string_mem \<Rightarrow> obj \<Rightarrow> obj \<Rightarrow> obj outcome" where
  "vm_bytes_ref m arg1 arg2 =
    (if \<not> bytes_o arg1 then Inl (User_exception ''byte-vector-ref: not a byte-vector'' arg1)
     else if \<not> fixnum_o arg2 then Inl (User_exception ''byte-vector-ref: not an integer'' arg2)
     else let i = unfix arg2
          in if i < 0 \<or> i \<ge> sexp_bytes_length (bytes_objs m ! index_o arg1)
             then Inl (User_exception ''byte-vector-ref: index out of range'' arg1)
             else Inr (fix_obj (uint (byte_at m (index_o arg1) i))))"

definition vm_bytes_set :: "string_mem \<Rightarrow> obj \<Rightarrow> obj \<Rightarrow> obj \<Rightarrow> unit outcome \<times> string_mem" where
  "vm_bytes_set m arg1 arg2 arg3 =
    (if \<not> bytes_o arg1 then (Inl (User_exception ''byte-vector-set!: not a byte-vector'' arg1), m)
     else if bytes_immutablep (bytes_objs m ! index_o arg1)
     then (Inl (User_exception ''byte-vector-set!: immutable byte-vector'' arg1), m)
     else if \<not> fixnum_o arg2 then (Inl (User_exception ''byte-vector-set!: not an integer'' arg2), m)
     else if \<not> (fixnum_o arg3 \<and> unfix arg3 \<ge> 0 \<and> unfix arg3 < 0x100)
     then (Inl (User_exception ''byte-vector-set!: not an octet'' arg3), m)
     else let i = unfix arg2
          in if i < 0 \<or> i \<ge> sexp_bytes_length (bytes_objs m ! index_o arg1)
             then (Inl (User_exception ''byte-vector-set!: index out of range'' arg1), m)
             else (Inr (), write_bytes m (index_o arg1) i [word_of_int (unfix arg3)]))"

definition vm_bytes_length :: "string_mem \<Rightarrow> obj \<Rightarrow> obj outcome" where
  "vm_bytes_length m arg1 =
    (if \<not> bytes_o arg1 then Inl (User_exception ''bytes-length: not a byte-vector'' arg1)
     else Inr (fix_obj (sexp_bytes_length (bytes_objs m ! index_o arg1))))"

end
