(* ===== verification/Texts.thy ===== *)
theory Texts
  imports Strings
begin

text \<open>
  The string operations against lists of characters: \<open>strings_rep m css\<close> says that the strings
  of the memory \<open>m\<close> are the character lists \<open>css\<close>, and that no string that can be changed in place
  shares its bytes with another.
\<close>

subsection \<open>Boxed values\<close>

lemma tags_disjoint [simp]:
  "sexp_fixnump_w (sexp_make_fixnum w)" "\<not> sexp_charp_w (sexp_make_fixnum w)"
  "sexp_string_cursorp_w (sexp_make_string_cursor w)" "\<not> sexp_fixnump_w (sexp_make_string_cursor w)"
  "sexp_charp_w (sexp_make_character w)" "\<not> sexp_fixnump_w (sexp_make_character w)"
  using tag_low_bits [of w] smaller_tag [of "sexp_make_fixnum w"]
    smaller_tag [of "sexp_make_string_cursor w"] smaller_tag [of "sexp_make_character w"]
  by (auto simp: sexp_fixnump_w_def sexp_charp_w_def sexp_string_cursorp_w_def)

lemma obj_tags [simp]:
  "fixnum_o (fix_obj n)" "\<not> char_o (fix_obj n)" "cursor_o (cursor_obj n)" "\<not> fixnum_o (cursor_obj n)"
  "char_o (char_obj n)" "\<not> fixnum_o (char_obj n)" "\<not> fixnum_o VOID_OBJ" "\<not> char_o VOID_OBJ"
  "\<not> fixnum_o FALSE_OBJ" "\<not> cursor_o FALSE_OBJ"
  by (simp_all add: fix_obj_def cursor_obj_def char_obj_def VOID_OBJ_def FALSE_OBJ_def
      sexp_fixnump_w_def sexp_charp_w_def sexp_string_cursorp_w_def
      del: tags_disjoint)
    (use tags_disjoint in \<open>simp_all add: sexp_fixnump_w_def sexp_charp_w_def sexp_string_cursorp_w_def\<close>)

lemma cursor_not_false [simp]: "cursor_obj n \<noteq> FALSE_OBJ" "fix_obj n \<noteq> FALSE_OBJ"
  by (metis obj_tags)+

definition fits_cursor :: "int \<Rightarrow> bool" where
  "fits_cursor n \<longleftrightarrow> - (2 ^ 60) \<le> n \<and> n < 2 ^ 60"

lemma unfix_obj [simp]: "fits_fixnum n \<Longrightarrow> unfix (fix_obj n) = n"
  using fixnum_value_word [of n] by (simp add: unfix_def fix_obj_def fixnum_value_def fixnum_word_def)

lemma uncursor_obj [simp]:
  assumes "fits_cursor n"
  shows "uncursor (cursor_obj n) = n"
proof -
  have s: "sint (word_of_int n :: u64) = n" using assms by (intro sint_signed_word) (simp_all add: fits_cursor_def)
  then have "signed_drop_bit 3 (push_bit 3 (word_of_int n) + word_of_int 2 :: u64) = word_of_int n"
    using assms by (intro signed_shr_shl) (simp_all add: fits_cursor_def)
  with s show ?thesis
    by (simp add: uncursor_def cursor_obj_def sexp_unbox_string_cursor_def sexp_make_string_cursor_def)
qed

lemma unchar_obj [simp]:
  assumes "is_char c"
  shows "unchar (char_obj c) = c"
proof -
  have s: "sint (word_of_int c :: u64) = c" using assms by (intro sint_signed_word) (simp_all add: is_char_def)
  then have "signed_drop_bit 8 (push_bit 8 (word_of_int c) + word_of_int 30 :: u64) = word_of_int c"
    using assms by (intro signed_shr_shl) (simp_all add: is_char_def)
  moreover have "sint (ucast (word_of_int c :: u64) :: u32) = c"
    using assms by (simp add: is_char_def unsigned_of_int signed_of_int signed_take_bit_int_eq_self
        take_bit_int_eq_self)
  ultimately show ?thesis
    by (simp add: unchar_def char_obj_def sexp_unbox_character_def sexp_make_character_def)
qed

lemma cursor_fits_fixnum [simp]: "fits_cursor n \<Longrightarrow> fits_fixnum n"
  by (simp add: fits_cursor_def fits_fixnum_def)

lemma obj_inject:
  "fits_fixnum m \<Longrightarrow> fits_fixnum n \<Longrightarrow> fix_obj m = fix_obj n \<longleftrightarrow> m = n"
  "is_char c \<Longrightarrow> is_char d \<Longrightarrow> char_obj c = char_obj d \<longleftrightarrow> c = d"
  by (metis unfix_obj, metis unchar_obj)

lemma index_o_simps [simp]: "string_o x \<Longrightarrow> STRING_P (index_o x) = x"
  by (cases x) simp_all

text \<open>Cursors compare as the words they are.\<close>

lemma cursor_less:
  assumes "0 \<le> a" "a < 2 ^ 60" "0 \<le> b" "b < 2 ^ 60"
  shows "word_o (cursor_obj a) < word_o (cursor_obj b) \<longleftrightarrow> a < b"
proof -
  have "uint (sexp_make_string_cursor (word_of_int n)) = 8 * n + 2" if "0 \<le> n" "n < 2 ^ 60" for n
  proof -
    have "sexp_make_string_cursor (word_of_int n) = (word_of_int (8 * n + 2) :: u64)"
      by (simp add: sexp_make_string_cursor_def push_bit_eq_mult)
    moreover have "uint (word_of_int (8 * n + 2) :: u64) = 8 * n + 2"
      using that by (simp only: uint_word_of_int) (intro mod_pos_pos_trivial; simp)
    ultimately show ?thesis by (simp only:)
  qed
  with assms show ?thesis by (simp add: cursor_obj_def word_less_alt)
qed

subsection \<open>Bytes\<close>

lemma length_store_at [simp]: "length (store_at data k bs) = length data"
  by (simp add: store_at_def)

lemma store_at_mid:
  assumes "length bs = length ys" "k = int (length xs)"
  shows "store_at (xs @ ys @ zs) k bs = xs @ bs @ zs"
  using assms by (auto simp: store_at_def nth_append nat_diff_distrib intro!: nth_equalityI)

lemma length_copy_bytes [simp]: "length (copy_bytes mem p n) = nat n"
  by (simp add: copy_bytes_def)

lemma copy_bytes_spells: "spells mem p bs \<Longrightarrow> n = int (length bs) \<Longrightarrow> copy_bytes mem p n = bs"
  by (auto simp: copy_bytes_def spells_def intro!: nth_equalityI)

subsection \<open>What a string holds\<close>

definition view_ok :: "string_obj \<Rightarrow> u8 list \<Rightarrow> int list \<Rightarrow> bool" where
  "view_ok so data cs \<longleftrightarrow> 0 \<le> sexp_string_offset so \<and> 0 \<le> sexp_string_size so \<and> sexp_string_size so < 2 ^ 60
    \<and> sexp_string_offset so + sexp_string_size so < int (length data) \<and> list_all is_char cs
    \<and> take (nat (sexp_string_size so)) (drop (nat (sexp_string_offset so)) data) = utf8 cs"

definition string_ok :: "string_mem \<Rightarrow> nat \<Rightarrow> int list \<Rightarrow> bool" where
  "string_ok m s cs \<longleftrightarrow> s < length (string_objs m) \<and> sexp_string_bytes (string_objs m ! s) < length (bytes_objs m)
    \<and> view_ok (string_objs m ! s) (sexp_bytes_data (bytes_objs m ! sexp_string_bytes (string_objs m ! s))) cs"

lemma string_ok_facts:
  assumes "string_ok m s cs"
  shows "spells (string_at m s) 0 (utf8 cs)" "string_size m s = int (length (utf8 cs))" "list_all is_char cs"
    "int (length (utf8 cs)) < 2 ^ 60"
proof -
  let ?so = "string_objs m ! s"
  define data where "data = sexp_bytes_data (bytes_objs m ! sexp_string_bytes ?so)"
  have v: "view_ok ?so data cs" using assms by (simp add: string_ok_def data_def)
  then have len: "length (utf8 cs) = nat (sexp_string_size ?so)"
    unfolding view_ok_def by (elim conjE) (drule sym, simp)
  with v show "string_size m s = int (length (utf8 cs))" "list_all is_char cs" "int (length (utf8 cs)) < 2 ^ 60"
    by (simp_all add: string_size_def view_ok_def)
  have "string_at m s (int k) = utf8 cs ! k" if "k < length (utf8 cs)" for k
  proof -
    have "utf8 cs ! k = data ! (nat (sexp_string_offset ?so) + k)"
      using v that len by (auto simp: view_ok_def dest!: arg_cong [of _ _ "\<lambda>xs. xs ! k"])
    moreover have "nat (sexp_string_offset ?so + int k) = nat (sexp_string_offset ?so) + k"
      using v by (simp add: view_ok_def nat_add_distrib)
    moreover have "sexp_string_offset ?so + int k < int (length data)"
      using v that len unfolding view_ok_def by linarith
    ultimately show ?thesis
      using v that len by (simp add: string_at_def byte_at_def view_ok_def Let_def flip: data_def)
  qed
  then show "spells (string_at m s) 0 (utf8 cs)" by (simp add: spells_def)
qed

subsection \<open>Looking up characters\<close>

lemma char_offset_fits: "string_ok m s cs \<Longrightarrow> fits_cursor (char_offset cs k)"
  using string_ok_facts(4) [of m s cs] char_offset_le [of cs k] char_offset_nonneg [of cs k]
  unfolding fits_cursor_def by linarith

text \<open>Every character takes at least a byte.\<close>

lemma index_le_offset: "list_all is_char cs \<Longrightarrow> k \<le> length cs \<Longrightarrow> int k \<le> char_offset cs k"
proof (induction k)
  case (Suc k)
  then have "0 < length (utf8_char (cs ! k))"
    using utf8_char_width(1) by (auto simp: list_all_length)
  moreover have "char_offset cs (Suc k) = char_offset cs k + int (length (utf8_char (cs ! k)))"
    using Suc.prems by (intro char_offset_step) simp
  moreover have "int k \<le> char_offset cs k" using Suc by simp
  ultimately show ?case by linarith
qed simp

lemma index_fits: "string_ok m s cs \<Longrightarrow> k \<le> length cs \<Longrightarrow> fits_cursor (int k)"
  using char_offset_fits [of m s cs k] index_le_offset [of cs k] string_ok_facts(3) [of m s cs]
  unfolding fits_cursor_def by linarith

lemma index_to_cursor_text:
  assumes "string_ok m s cs" "fits_fixnum i"
  shows "sexp_string_index_to_cursor m (STRING_P s) (fix_obj i) =
    (if 0 \<le> i \<and> i \<le> int (length cs) then Inr (cursor_obj (char_offset cs (nat i)))
     else Inl (User_exception ''string-index->cursor: index out of range'' (fix_obj i)))"
proof (cases "0 \<le> i")
  case True
  note f = string_ok_facts [OF assms(1)]
  have "index_to_cursor_loop (string_at m s) 0 (string_size m s) i 0
    = (int (nat i - length cs), char_offset cs (nat i))"
    using index_loop_text [OF f(3), of "string_at m s" 0 0 "string_size m s" "nat i"] f True by simp
  with True assms(2) show ?thesis by (auto simp: sexp_string_index_to_cursor_def)
next
  case False
  with assms(2) show ?thesis by (simp add: sexp_string_index_to_cursor_def index_loop_negative)
qed

lemma string_ref_text:
  assumes "string_ok m s cs" "k < length cs"
  shows "sexp_string_utf8_ref m (STRING_P s) (cursor_obj (char_offset cs k)) = Inr (char_obj (cs ! k))"
  using utf8_at(1) [OF string_ok_facts(3) [OF assms(1)] assms(2) string_ok_facts(1) [OF assms(1)]]
  by (simp add: sexp_string_utf8_ref_def char_offset_fits [OF assms(1)])

lemma offset_inside: "string_ok m s cs \<Longrightarrow> k < length cs \<Longrightarrow> char_offset cs k < string_size m s"
  using char_offset_less [of cs k] string_ok_facts [of m s cs] by simp

lemma index_ref_text:
  assumes "string_ok m s cs" "fits_fixnum i"
  shows "sexp_string_utf8_index_ref m (STRING_P s) (fix_obj i) =
    (if 0 \<le> i \<and> i < int (length cs) then Inr (char_obj (cs ! nat i))
     else if i = int (length cs) then Inl (User_exception ''string-ref: index out of range'' (fix_obj i))
     else Inl (User_exception ''string-index->cursor: index out of range'' (fix_obj i)))"
proof (cases "0 \<le> i \<and> i < int (length cs)")
  case True
  then have "nat i < length cs" by linarith
  with True show ?thesis
    using string_ref_text [OF assms(1) \<open>nat i < _\<close>] char_offset_fits [OF assms(1)] offset_inside [OF assms(1) \<open>nat i < _\<close>]
    by (simp add: sexp_string_utf8_index_ref_def index_to_cursor_text [OF assms])
next
  case False
  then show ?thesis
    using string_ok_facts(2) [OF assms(1)] char_offset_fits [OF assms(1), of "length cs"]
    by (auto simp: sexp_string_utf8_index_ref_def index_to_cursor_text [OF assms] char_offset_all)
qed

lemma cursor_to_index_text:
  assumes "string_ok m s cs" "k \<le> length cs"
  shows "sexp_string_cursor_to_index m (STRING_P s) (cursor_obj (char_offset cs k)) = Inr (fix_obj (int k))"
  using length_loop_text [OF string_ok_facts(3,1) [OF assms(1)] assms(2)] char_offset_fits [OF assms(1), of k]
    string_ok_facts(2) [OF assms(1)] char_offset_le [of cs k]
  by (simp add: sexp_string_cursor_to_index_def sexp_string_utf8_length_def Let_def not_less)

lemma string_length_text:
  assumes "string_ok m s cs"
  shows "vm_string_length m (STRING_P s) = Inr (fix_obj (int (length cs)))"
  using length_loop_text [OF string_ok_facts(3,1) [OF assms] order.refl] string_ok_facts(2) [OF assms]
  by (simp add: vm_string_length_def sexp_string_length_def sexp_string_utf8_length_def char_offset_all)

lemma cursor_moves_text:
  assumes "string_ok m s cs" "k < length cs"
  shows "vm_string_ref m (STRING_P s) (cursor_obj (char_offset cs k)) = Inr (char_obj (cs ! k))"
    and "vm_string_cursor_next m (STRING_P s) (cursor_obj (char_offset cs k)) = Inr (cursor_obj (char_offset cs (Suc k)))"
    and "vm_string_cursor_prev m (STRING_P s) (cursor_obj (char_offset cs (Suc k)))
      = Some (Inr (cursor_obj (char_offset cs k)))"
proof -
  note f = string_ok_facts [OF assms(1)]
  show "vm_string_ref m (STRING_P s) (cursor_obj (char_offset cs k)) = Inr (char_obj (cs ! k))"
    using string_ref_text [OF assms] offset_inside [OF assms] char_offset_nonneg [of cs k]
    by (simp add: vm_string_ref_def char_offset_fits [OF assms(1)] Let_def not_less)
  show "vm_string_cursor_next m (STRING_P s) (cursor_obj (char_offset cs k)) = Inr (cursor_obj (char_offset cs (Suc k)))"
    using utf8_at(2) [OF f(3) assms(2) f(1)] assms(2)
    by (simp add: vm_string_cursor_next_def sexp_string_cursor_next_def char_offset_fits [OF assms(1)]
        byte_width_def char_offset_step)
  show "vm_string_cursor_prev m (STRING_P s) (cursor_obj (char_offset cs (Suc k)))
      = Some (Inr (cursor_obj (char_offset cs k)))"
    using prev_text [OF f(3) assms(2) f(1)]
    by (simp add: vm_string_cursor_prev_def sexp_string_cursor_prev_def char_offset_fits [OF assms(1)])
qed

subsection \<open>Strings that share bytes\<close>

text \<open>A string whose bytes another string uses is immutable or is copied before it is changed.\<close>

definition shared_safely :: "string_mem \<Rightarrow> bool" where
  "shared_safely m \<longleftrightarrow> (\<forall>s < length (string_objs m). \<forall>t < length (string_objs m). s \<noteq> t
    \<longrightarrow> sexp_string_bytes (string_objs m ! s) = sexp_string_bytes (string_objs m ! t)
    \<longrightarrow> sexp_immutablep (string_objs m ! s) \<or> sexp_copy_on_writep (string_objs m ! s))"

definition strings_rep :: "string_mem \<Rightarrow> int list list \<Rightarrow> bool" where
  "strings_rep m css \<longleftrightarrow> length css = length (string_objs m) \<and> shared_safely m
    \<and> (\<forall>s < length css. string_ok m s (css ! s) \<and> sexp_string_offset (string_objs m ! s) = 0)"

lemma strings_repD:
  assumes "strings_rep m css" "s < length css"
  shows "string_ok m s (css ! s)" "sexp_string_offset (string_objs m ! s) = 0"
  using assms by (simp_all add: strings_rep_def)

definition new_string :: "string_mem \<Rightarrow> u8 list \<Rightarrow> string_mem" where
  "new_string m bs = alloc_string
    (m\<lparr>bytes_objs := bytes_objs m @ [\<lparr>sexp_bytes_length = int (length bs), sexp_bytes_data = bs @ [0],
        bytes_immutablep = False\<rparr>]\<rparr>)
    (length (bytes_objs m)) 0 (int (length bs))"

lemma new_string_simps [simp]:
  "string_objs (new_string m bs) = string_objs m @ [\<lparr>sexp_string_bytes = length (bytes_objs m), sexp_string_offset = 0,
     sexp_string_size = int (length bs), sexp_copy_on_writep = False, sexp_immutablep = False\<rparr>]"
  "bytes_objs (new_string m bs) = bytes_objs m @ [\<lparr>sexp_bytes_length = int (length bs), sexp_bytes_data = bs @ [0],
     bytes_immutablep = False\<rparr>]"
  by (simp_all add: new_string_def alloc_string_def)

lemma new_string_fill:
  assumes "length bs = length xs"
  shows "write_bytes (new_string m xs) (length (bytes_objs m)) 0 bs = new_string m bs"
    and "write_bytes (new_string m xs) (length (bytes_objs m)) 0 (bs @ [0]) = new_string m bs"
    and "write_bytes (new_string m bs) (length (bytes_objs m)) (int (length bs)) [0] = new_string m bs"
  using assms store_at_mid [of bs xs 0 "[]" "[0]"] store_at_mid [of "bs @ [0]" "xs @ [0]" 0 "[]" "[]"]
    store_at_mid [of "[0]" "[0]" "int (length bs)" bs "[]"]
  by (simp_all add: write_bytes_def) (simp_all add: new_string_def alloc_string_def)

lemma make_bytes_room:
  assumes "fits_fixnum n" "0 \<le> n" "has_room m n"
  shows "sexp_make_bytes_op m (fix_obj n) i = (Inr (BYTES_P (length (bytes_objs m))),
    m\<lparr>bytes_objs := bytes_objs m @ [\<lparr>sexp_bytes_length = n,
      sexp_bytes_data = (if fixnum_o i then replicate (nat n) (word_of_int (unfix i)) else copy_bytes (memory_junk m) 0 n) @ [0],
      bytes_immutablep = False\<rparr>]\<rparr>)"
  using assms by (simp add: sexp_make_bytes_op_def)

lemma make_string_void:
  assumes "fits_fixnum n" "0 \<le> n" "has_room m n"
  shows "sexp_make_string_op m (fix_obj n) VOID_OBJ =
    (Inr (STRING_P (length (string_objs m))), new_string m (copy_bytes (memory_junk m) 0 n))"
  using assms(2) by (simp add: sexp_make_string_op_def make_bytes_room [OF assms] new_string_def alloc_string_def)

lemma string_ok_append:
  "string_ok m s cs \<Longrightarrow> string_objs m' = string_objs m @ sos \<Longrightarrow> bytes_objs m' = bytes_objs m @ bos \<Longrightarrow> string_ok m' s cs"
  by (auto simp: string_ok_def nth_append)

lemma new_string_rep:
  assumes "strings_rep m css" "list_all is_char cs" "int (length (utf8 cs)) < 2 ^ 60"
  shows "strings_rep (new_string m (utf8 cs)) (css @ [cs])"
proof -
  have old: "string_ok (new_string m (utf8 cs)) s (css ! s)" "sexp_string_offset (string_objs m ! s) = 0"
    "sexp_string_bytes (string_objs m ! s) < length (bytes_objs m)" if "s < length css" for s
    using strings_repD [OF assms(1) that] by (auto simp: string_ok_def nth_append)
  have "string_ok (new_string m (utf8 cs)) (length css) cs"
    using assms by (simp add: strings_rep_def string_ok_def view_ok_def nth_append)
  moreover have "shared_safely (new_string m (utf8 cs))"
    unfolding shared_safely_def
  proof (intro allI impI)
    fix s t
    assume "s < length (string_objs (new_string m (utf8 cs)))" "t < length (string_objs (new_string m (utf8 cs)))"
      "s \<noteq> t" and same: "sexp_string_bytes (string_objs (new_string m (utf8 cs)) ! s)
        = sexp_string_bytes (string_objs (new_string m (utf8 cs)) ! t)"
    then have "s < length css" "t < length css"
      using old(3) [of s] old(3) [of t] assms(1)
      by (auto simp: strings_rep_def nth_append less_Suc_eq split: if_splits)
    with \<open>s \<noteq> t\<close> same show "sexp_immutablep (string_objs (new_string m (utf8 cs)) ! s)
        \<or> sexp_copy_on_writep (string_objs (new_string m (utf8 cs)) ! s)"
      using assms(1) by (simp add: strings_rep_def shared_safely_def nth_append)
  qed
  ultimately show ?thesis
    using old assms(1) by (auto simp: strings_rep_def nth_append less_Suc_eq)
qed

subsection \<open>Constructors\<close>

definition has_space :: "string_mem \<Rightarrow> int list \<Rightarrow> bool" where
  "has_space m cs \<longleftrightarrow> has_room m (int (length (utf8 cs))) \<and> int (length (utf8 cs)) < 2 ^ 60"

lemma has_spaceD:
  assumes "has_space m cs"
  shows "fits_fixnum (int (length (utf8 cs)))" "has_room m (int (length (utf8 cs)))" "int (length (utf8 cs)) < 2 ^ 60"
  using assms by (simp_all add: has_space_def fits_fixnum_def)

lemma length_concat_replicate: "length (concat (replicate n xs)) = n * length xs"
  by (induction n) simp_all

lemma concat_replicate_snoc: "concat (replicate (Suc n) xs) = concat (replicate n xs) @ xs"
  by (induction n) simp_all

lemma fill_loop:
  assumes "b < length (bytes_objs m)" "n * length bs \<le> length (sexp_bytes_data (bytes_objs m ! b))"
  shows "fold (\<lambda>j m. write_bytes m b (int j * int (length bs)) bs) [0..<n] m =
    m\<lparr>bytes_objs := (bytes_objs m)[b := (bytes_objs m ! b)\<lparr>sexp_bytes_data :=
      concat (replicate n bs) @ drop (n * length bs) (sexp_bytes_data (bytes_objs m ! b))\<rparr>]\<rparr>"
  using assms(2)
proof (induction n)
  case (Suc n)
  define data where "data = sexp_bytes_data (bytes_objs m ! b)"
  have split: "drop (n * length bs) data
      = take (length bs) (drop (n * length bs) data) @ drop (Suc n * length bs) data"
    by (metis append_take_drop_id drop_drop mult_Suc)
  have len: "length (take (length bs) (drop (n * length bs) data)) = length bs"
    using Suc.prems by (simp add: data_def)
  have "store_at (concat (replicate n bs) @ drop (n * length bs) data) (int n * int (length bs)) bs
      = concat (replicate n bs) @ bs @ drop (Suc n * length bs) data"
    by (subst split, rule store_at_mid [OF len [symmetric]]) (simp add: length_concat_replicate)
  then show ?case
    using Suc assms(1)
    by (simp add: write_bytes_def concat_replicate_snoc flip: data_def del: replicate.simps)
qed simp

lemma utf8_replicate: "utf8 (replicate n c) = concat (replicate n (utf8_char c))"
  by (simp add: utf8_def)

lemma make_string_text:
  assumes "is_char c" "has_space m (replicate n c)"
  shows "sexp_make_string_op m (fix_obj (int n)) (char_obj c) =
    (Inr (STRING_P (length (string_objs m))), new_string m (utf8 (replicate n c)))"
proof -
  note sp = has_spaceD [OF assms(2)]
  let ?l = "length (utf8_char c)"
  have len: "length (utf8 (replicate n c)) = n * ?l" by (simp add: utf8_replicate length_concat_replicate)
  note w = utf8_char_width [OF assms(1)]
  have l: "1 \<le> ?l" using w(1) by (cases "utf8_char c") simp_all
  then have "n \<le> n * ?l" by simp
  then have "int n < 2 ^ 60" using sp(3) len by linarith
  then have fit: "fits_fixnum (int n)" by (simp add: fits_fixnum_def)
  show ?thesis
  proof (cases "c < 0x80")
    case True
    then have 1: "utf8_char c = [word_of_int c]" using assms(1) by (intro utf8_char_1) (simp_all add: is_char_def)
    then have "utf8 (replicate n c) = replicate n (word_of_int c)"
      by (simp add: utf8_replicate)
    moreover have "fits_fixnum c" using assms(1) by (simp add: is_char_def fits_fixnum_def)
    ultimately show ?thesis
      using True sp len 1 assms(1)
      by (simp add: sexp_make_string_op_def make_bytes_room new_string_def alloc_string_def fit)
  next
    case False
    have mul: "IMM (sexp_fx_mul (word_o (fix_obj (int n))) (sexp_make_fixnum (word_of_int (sexp_utf8_char_byte_count c))))
      = fix_obj (int (n * ?l))"
      using fx_ops_word(3) [OF fit, of "int ?l"] w(3) sexp_utf8_char_byte_count_def [of c]
      by (simp add: fix_obj_def fixnum_word_def fits_fixnum_def)
    have "copy_bytes (memory_junk m) 0 (int (n * ?l)) @ [0] \<noteq> []" by simp
    let ?m = "m\<lparr>bytes_objs := bytes_objs m @ [\<lparr>sexp_bytes_length = int (n * ?l),
      sexp_bytes_data = copy_bytes (memory_junk m) 0 (int (n * ?l)) @ [0], bytes_immutablep = False\<rparr>]\<rparr>"
    have "sexp_make_bytes_op m (fix_obj (int (n * ?l))) VOID_OBJ = (Inr (BYTES_P (length (bytes_objs m))), ?m)"
      using make_bytes_room [of "int (n * ?l)" m VOID_OBJ] sp len by (simp del: of_nat_mult)
    moreover have "fold (\<lambda>j m'. write_bytes m' (length (bytes_objs m)) (int j * int ?l) (utf8_char c)) [0..<n] ?m
      = m\<lparr>bytes_objs := bytes_objs m @ [\<lparr>sexp_bytes_length = int (n * ?l),
          sexp_bytes_data = utf8 (replicate n c) @ [0], bytes_immutablep = False\<rparr>]\<rparr>"
      using fill_loop [of "length (bytes_objs m)" ?m n "utf8_char c"]
      by (simp add: utf8_replicate del: of_nat_mult)
    ultimately show ?thesis
      using False assms(1) fit len w(3) mul
      by (simp add: sexp_make_string_op_def new_string_def alloc_string_def Let_def del: of_nat_mult flip: utf8_char_def)
  qed
qed

subsection \<open>Substrings and concatenation\<close>

lemma spells_segment:
  assumes "spells mem p (utf8 cs)" "i \<le> j"
  shows "spells mem (p + char_offset cs i) (utf8 (segment i j cs))"
    "int (length (utf8 (segment i j cs))) = char_offset cs j - char_offset cs i"
proof -
  have e: "utf8 cs = utf8 (take i cs) @ utf8 (segment i j cs) @ utf8 (drop j cs)"
    by (subst segment_split [OF assms(2), of cs]) (simp only: utf8_simps)
  then show "spells mem (p + char_offset cs i) (utf8 (segment i j cs))"
    using assms(1) by (simp add: spells_append char_offset_def)
  have "take j cs = take i cs @ segment i j cs"
    using take_add [of i "j - i" cs] assms(2) by (simp add: segment_def)
  then show "int (length (utf8 (segment i j cs))) = char_offset cs j - char_offset cs i"
    by (simp add: char_offset_def)
qed

lemma char_offset_strict:
  assumes "list_all is_char cs" "i < j" "j \<le> length cs"
  shows "char_offset cs i < char_offset cs j"
proof -
  have "take i (take j cs) = take i cs" using assms(2) by simp
  moreover have "list_all is_char (take j cs)" using assms(1) by (auto simp: list_all_iff dest: in_set_takeD)
  ultimately show ?thesis
    using char_offset_less [of "take j cs" i] assms(2,3) by (simp add: char_offset_def)
qed

lemma string_ok_new: "string_ok m s cs \<Longrightarrow> string_ok (new_string m bs) s cs"
  by (auto simp: string_ok_def nth_append)

lemma substring_op_text:
  assumes ok: "string_ok m s cs" and "i \<le> j" "j \<le> length cs" and sp: "has_space m (segment i j cs)"
  shows "sexp_substring_op m (STRING_P s) (cursor_obj (char_offset cs i)) (cursor_obj (char_offset cs j)) =
    (Inr (STRING_P (length (string_objs m))), new_string m (utf8 (segment i j cs)))"
proof -
  let ?bs = "utf8 (segment i j cs)" and ?a = "char_offset cs i" and ?b = "char_offset cs j"
  note sl = spells_segment [OF string_ok_facts(1) [OF ok] assms(2)]
  define m1 where "m1 = new_string m (copy_bytes (memory_junk m) 0 (?b - ?a))"
  have mk: "sexp_make_string_op m (fix_obj (?b - ?a)) VOID_OBJ = (Inr (STRING_P (length (string_objs m))), m1)"
    using has_spaceD [OF sp] sl(2) by (subst make_string_void) (simp_all add: m1_def)
  have fits: "fits_cursor ?a" "fits_cursor ?b" by (rule char_offset_fits [OF ok])+
  have ord: "?a \<le> ?b" by (rule char_offset_mono [OF assms(2)])
  have less: "\<not> word_o (cursor_obj ?b) < word_o (cursor_obj ?a)"
    using cursor_less [of ?b ?a] fits ord by (simp add: fits_cursor_def)
  have "string_ok m1 s cs" unfolding m1_def by (rule string_ok_new [OF ok])
  then have "spells (string_at m1 s) ?a ?bs"
    using spells_segment(1) [OF string_ok_facts(1) assms(2)] by simp
  then have "copy_bytes (string_at m1 s) ?a (?b - ?a) = ?bs" using sl(2) by (intro copy_bytes_spells) simp_all
  then have fill: "write_bytes m1 (length (bytes_objs m)) 0 (copy_bytes (string_at m1 s) ?a (?b - ?a)) = new_string m ?bs"
    "write_bytes (new_string m ?bs) (length (bytes_objs m)) (?b - ?a) [0] = new_string m ?bs"
    using new_string_fill [of ?bs "copy_bytes (memory_junk m) 0 (?b - ?a)" m] sl(2) by (simp_all add: m1_def)
  have new: "string_size m1 (length (string_objs m)) = ?b - ?a"
    "sexp_string_bytes (string_objs m1 ! length (string_objs m)) = length (bytes_objs m)"
    using ord by (simp_all add: m1_def string_size_def)
  have "?a \<le> string_size m s" "?b \<le> string_size m s"
    using char_offset_le [of cs] string_ok_facts(2) [OF ok] by simp_all
  then show ?thesis
    using less fits fill new
    by (auto simp: sexp_substring_op_def mk Let_def not_less)
qed

lemma substring_op_reversed:
  assumes ok: "string_ok m s cs" and "j < i" "i \<le> length cs"
  shows "sexp_substring_op m (STRING_P s) (cursor_obj (char_offset cs i)) (cursor_obj (char_offset cs j)) =
    (Inl (Range_exception (STRING_P s) (cursor_obj (char_offset cs i)) (cursor_obj (char_offset cs j))), m)"
proof -
  have "word_o (cursor_obj (char_offset cs j)) < word_o (cursor_obj (char_offset cs i))"
    using char_offset_strict [OF string_ok_facts(3) [OF ok] assms(2,3)]
      char_offset_fits [OF ok, of i] char_offset_fits [OF ok, of j]
    by (simp add: cursor_less fits_cursor_def)
  then show ?thesis by (simp add: sexp_substring_op_def Let_def)
qed

lemma utf8_substring_text:
  assumes ok: "string_ok m s cs" and "fits_fixnum i" "fits_fixnum j"
    and sp: "0 \<le> i \<Longrightarrow> i \<le> j \<Longrightarrow> j \<le> int (length cs) \<Longrightarrow> has_space m (segment (nat i) (nat j) cs)"
  shows "sexp_utf8_substring_op m (STRING_P s) (fix_obj i) (fix_obj j) =
    (if i < 0 \<or> int (length cs) < i then
       (Inl (User_exception ''string-index->cursor: index out of range'' (fix_obj i)), m)
     else if j < 0 \<or> int (length cs) < j then
       (Inl (User_exception ''string-index->cursor: index out of range'' (fix_obj j)), m)
     else if j < i then
       (Inl (Range_exception (STRING_P s) (cursor_obj (char_offset cs (nat i))) (cursor_obj (char_offset cs (nat j)))), m)
     else (Inr (STRING_P (length (string_objs m))), new_string m (utf8 (segment (nat i) (nat j) cs))))"
proof (cases "i < 0 \<or> int (length cs) < i \<or> j < 0 \<or> int (length cs) < j")
  case True
  then show ?thesis
    by (auto simp: sexp_utf8_substring_op_def index_to_cursor_text [OF ok] assms(2,3))
next
  case False
  then have len: "nat i \<le> length cs" "nat j \<le> length cs" by linarith+
  have un: "sexp_utf8_substring_op m (STRING_P s) (fix_obj i) (fix_obj j) =
    sexp_substring_op m (STRING_P s) (cursor_obj (char_offset cs (nat i))) (cursor_obj (char_offset cs (nat j)))"
    using False by (simp add: sexp_utf8_substring_op_def index_to_cursor_text [OF ok] assms(2,3))
  show ?thesis
  proof (cases "j < i")
    case True
    then have "nat j < nat i" using False by linarith
    with True False un substring_op_reversed [OF ok _ len(1)] show ?thesis by simp
  next
    case ge: False
    then have "nat i \<le> nat j" using False by linarith
    moreover have "has_space m (segment (nat i) (nat j) cs)" using False ge by (intro sp) linarith+
    ultimately show ?thesis using ge False un substring_op_text [OF ok _ len(2)] by simp
  qed
qed

text \<open>Concatenation of the strings \<open>ss\<close> with a separator string.\<close>

fun joined :: "int list \<Rightarrow> int list list \<Rightarrow> int list" where
  "joined sep [] = []"
| "joined sep (cs # css) = cs @ (if css \<noteq> [] then sep else []) @ joined sep css"

definition list_obj :: "nat list \<Rightarrow> obj" where
  "list_obj ss = foldr (\<lambda>s. PAIR_P (STRING_P s)) ss (IMM 574)"

lemma list_elements_obj [simp]: "list_elements (list_obj ss) = map STRING_P ss"
  by (induction ss) (simp_all add: list_obj_def)

lemma string_bytes_text: "string_ok m s cs \<Longrightarrow> string_bytes m (STRING_P s) = utf8 cs"
  using string_ok_facts [of m s cs] by (simp add: string_bytes_def copy_bytes_spells)

lemma concatenate_loop_text:
  assumes "\<And>s. s \<in> set ss \<Longrightarrow> string_ok m s (chars s)"
  shows "concatenate_loop m (utf8 sep) (map STRING_P ss) = utf8 (joined sep (map chars ss))"
  using assms by (induction ss) (simp_all add: string_bytes_text)

lemma joined_length:
  "int (length (utf8 (joined sep css))) =
    sum_list (map (\<lambda>cs. int (length (utf8 cs))) css)
    + int (length (utf8 sep)) * (int (length css) - (if css = [] then 0 else 1))"
  by (induction css) (auto simp: algebra_simps)

lemma find_map_none: "find (\<lambda>x. \<not> string_o x) (map STRING_P ss) = None"
  by (induction ss) simp_all

lemma concatenate_text:
  assumes ok: "\<And>s. s \<in> set ss \<Longrightarrow> string_ok m s (chars s)" and sep: "string_ok m p sep_cs"
    and sp: "has_space m (joined sep_cs (map chars ss))"
  shows "sexp_string_concatenate_op m (list_obj ss) (STRING_P p) =
    (Inr (STRING_P (length (string_objs m))), new_string m (utf8 (joined sep_cs (map chars ss))))"
proof -
  let ?bs = "utf8 (joined sep_cs (map chars ss))"
  define csep where "csep = (if ss \<noteq> [] then utf8 sep_cs else [])"
  have sizes: "map (\<lambda>s. string_size m s) ss = map (\<lambda>s. int (length (utf8 (chars s)))) ss"
    using string_ok_facts(2) [OF ok] by simp
  have len: "sum_list (map (\<lambda>s. string_size m s) ss) + int (length csep) * (int (length ss) - (if ss = [] then 0 else 1))
    = int (length ?bs)"
    using joined_length [of sep_cs "map chars ss"] unfolding sizes csep_def by (simp add: comp_def)
  have mk: "sexp_make_string_op m (fix_obj (int (length ?bs))) VOID_OBJ
    = (Inr (STRING_P (length (string_objs m))), new_string m (copy_bytes (memory_junk m) 0 (int (length ?bs))))"
    using has_spaceD [OF sp] by (intro make_string_void) simp_all
  have body: "concatenate_loop m csep (map STRING_P ss) = ?bs"
    using concatenate_loop_text [of ss m chars sep_cs] ok by (cases ss) (simp_all add: csep_def)
  have "(if map STRING_P ss \<noteq> [] \<and> string_o (STRING_P p) then string_bytes m (STRING_P p) else []) = csep"
    using string_bytes_text [OF sep] by (simp add: csep_def)
  then show ?thesis
    using len mk body new_string_fill(2) [of ?bs "copy_bytes (memory_junk m) 0 (int (length ?bs))" m]
    by (simp add: sexp_string_concatenate_op_def find_map_none comp_def Let_def)
qed

subsection \<open>Changing a character\<close>

lemma rep_in_place:
  assumes rep: "strings_rep m css" and s: "s < length css"
    and own: "\<not> sexp_immutablep (string_objs m ! s)" "\<not> sexp_copy_on_writep (string_objs m ! s)"
    and b: "b = sexp_string_bytes (string_objs m ! s)"
    and data: "data = utf8 cs @ rest" "rest \<noteq> []" and cs: "list_all is_char cs"
    and len: "int (length (utf8 cs)) = sexp_string_size (string_objs m ! s)"
  shows "strings_rep (m\<lparr>bytes_objs := (bytes_objs m)[b := (bytes_objs m ! b)\<lparr>sexp_bytes_data := data\<rparr>]\<rparr>) (css[s := cs])"
    (is "strings_rep ?m' _")
proof -
  have other: "sexp_string_bytes (string_objs m ! t) \<noteq> b" if "t < length css" "t \<noteq> s" for t
    using rep s that own unfolding b strings_rep_def shared_safely_def by metis
  have "string_ok ?m' t (css[s := cs] ! t)" if "t < length css" for t
  proof (cases "t = s")
    case True
    with strings_repD [OF rep s] s data cs show ?thesis
      by (auto simp: string_ok_def view_ok_def b len [symmetric])
  next
    case False
    with strings_repD [OF rep that] other [OF that] show ?thesis by (simp add: string_ok_def)
  qed
  then show ?thesis using rep by (simp add: strings_rep_def shared_safely_def)
qed

lemma rep_move:
  assumes rep: "strings_rep m css" and s: "s < length css" and "sexp_string_bytes so = length (bytes_objs m)"
    and "sexp_string_offset so = 0" "view_ok so (sexp_bytes_data bo) cs"
  shows "strings_rep (m\<lparr>bytes_objs := bytes_objs m @ [bo], string_objs := (string_objs m)[s := so]\<rparr>) (css[s := cs])"
    (is "strings_rep ?m' _")
proof -
  have l: "length css = length (string_objs m)" using rep by (simp add: strings_rep_def)
  have old: "sexp_string_bytes (string_objs m ! t) < length (bytes_objs m)" if "t < length css" for t
    using strings_repD [OF rep that] by (simp add: string_ok_def)
  have "string_ok ?m' t (css[s := cs] ! t)" if "t < length css" for t
    using strings_repD [OF rep that] assms(3,5) that l
    by (cases "t = s") (auto simp: string_ok_def nth_append)
  moreover have "sexp_string_offset (string_objs ?m' ! t) = 0" if "t < length css" for t
    using strings_repD [OF rep that] assms(4) that l by (cases "t = s") simp_all
  moreover have "shared_safely ?m'"
    unfolding shared_safely_def
  proof (intro allI impI)
    fix t u
    assume t: "t < length (string_objs ?m')" "u < length (string_objs ?m')" "t \<noteq> u"
      and same: "sexp_string_bytes (string_objs ?m' ! t) = sexp_string_bytes (string_objs ?m' ! u)"
    then have "t \<noteq> s" "u \<noteq> s" using old [of t] old [of u] assms(3) l by auto
    with t same show "sexp_immutablep (string_objs ?m' ! t) \<or> sexp_copy_on_writep (string_objs ?m' ! t)"
      using rep by (simp add: strings_rep_def shared_safely_def)
  qed
  ultimately show ?thesis using l by (simp add: strings_rep_def)
qed

text \<open>The parts of a text around one character.\<close>

lemma utf8_around:
  assumes "k < length cs"
  shows "utf8 cs = utf8 (take k cs) @ utf8_char (cs ! k) @ utf8 (drop (Suc k) cs)"
    and "utf8 (cs[k := c]) = utf8 (take k cs) @ utf8_char c @ utf8 (drop (Suc k) cs)"
proof -
  show "utf8 cs = utf8 (take k cs) @ utf8_char (cs ! k) @ utf8 (drop (Suc k) cs)"
    using assms by (subst id_take_nth_drop [of k cs]) (simp_all only: utf8_simps append_assoc)
  show "utf8 (cs[k := c]) = utf8 (take k cs) @ utf8_char c @ utf8 (drop (Suc k) cs)"
    using assms by (simp add: upd_conv_take_nth_drop)
qed

lemma c_int_small: "0 \<le> n \<Longrightarrow> n < 2 ^ 31 \<Longrightarrow> c_int n = n"
  by (simp add: c_int_def signed_of_int signed_take_bit_int_eq_self)

lemma view_data:
  assumes "string_ok m s cs" "sexp_string_offset (string_objs m ! s) = 0"
  obtains rest where "sexp_bytes_data (bytes_objs m ! sexp_string_bytes (string_objs m ! s)) = utf8 cs @ rest" "rest \<noteq> []"
proof -
  let ?data = "sexp_bytes_data (bytes_objs m ! sexp_string_bytes (string_objs m ! s))"
  let ?n = "nat (sexp_string_size (string_objs m ! s))"
  have "take ?n ?data = utf8 cs" "?n < length ?data"
    using assms by (auto simp: string_ok_def view_ok_def)
  then show thesis
    by (intro that [of "drop ?n ?data"]) (metis append_take_drop_id, simp)
qed

lemma string_at_data:
  "sexp_string_offset (string_objs m ! s) = 0 \<Longrightarrow>
    spells (string_at m s) 0 (sexp_bytes_data (bytes_objs m ! sexp_string_bytes (string_objs m ! s)))"
  by (simp add: spells_def string_at_def byte_at_def)

lemma store_at_parts:
  assumes "length data = length pre + length new + length tail"
  shows "store_at (store_at (store_at data 0 pre) (int (length pre) + int (length new)) tail) (int (length pre)) new
    = pre @ new @ tail"
proof -
  obtain us vs ws where d: "data = us @ vs @ ws" "length us = length pre" "length vs = length new" "length ws = length tail"
    using list_split3 [OF assms] .
  have "store_at data 0 pre = pre @ vs @ ws" using store_at_mid [of pre us 0 "[]" "vs @ ws"] d by simp
  moreover have "store_at (pre @ vs @ ws) (int (length pre) + int (length new)) tail = pre @ vs @ tail"
    using store_at_mid [of tail ws _ "pre @ vs" "[]"] d by simp
  moreover have "store_at (pre @ vs @ tail) (int (length pre)) new = pre @ new @ tail"
    using d by (intro store_at_mid) simp_all
  ultimately show ?thesis by simp
qed

text \<open>The two ways \<open>sexp_string_utf8_set\<close> takes, with the pieces of the text named.\<close>

lemma utf8_set_unfold:
  assumes ok: "string_ok m s cs" "sexp_string_offset (string_objs m ! s) = 0" and k: "k < length cs" and c: "is_char c"
    and small: "int (length (utf8 cs)) + 4 < 2 ^ 31"
  defines "so \<equiv> string_objs m ! s" and "pre \<equiv> utf8 (take k cs)" and "old \<equiv> utf8_char (cs ! k)" and "new \<equiv> utf8_char c"
    and "post \<equiv> utf8 (drop (Suc k) cs)"
  shows "\<not> (sexp_copy_on_writep so \<or> length old \<noteq> length new) \<Longrightarrow>
      sexp_string_utf8_set m (STRING_P s) (cursor_obj (char_offset cs k)) (char_obj c) =
      write_bytes m (sexp_string_bytes so) (int (length pre)) new"
    and "sexp_copy_on_writep so \<or> length old \<noteq> length new \<Longrightarrow> has_space m (cs[k := c]) \<Longrightarrow>
      sexp_bytes_data (bytes_objs m ! sexp_string_bytes so) = utf8 cs @ r # rest \<Longrightarrow>
      sexp_string_utf8_set m (STRING_P s) (cursor_obj (char_offset cs k)) (char_obj c) =
      m\<lparr>bytes_objs := bytes_objs m @ [\<lparr>sexp_bytes_length = int (length (pre @ new @ post)),
          sexp_bytes_data = pre @ new @ post @ [r], bytes_immutablep = False\<rparr>],
        string_objs := (string_objs m)[s := so\<lparr>sexp_string_bytes := length (bytes_objs m),
          sexp_string_size := int (length (pre @ new @ post)), sexp_copy_on_writep := False\<rparr>]\<rparr>"
proof -
  note f = string_ok_facts [OF ok(1)]
  have cs: "utf8 cs = pre @ old @ post" "utf8 (cs[k := c]) = pre @ new @ post"
    unfolding pre_def old_def new_def post_def using utf8_around [OF k] by simp_all
  have i: "char_offset cs k = int (length pre)" by (simp add: char_offset_def pre_def)
  have ci: "c_int (int (length pre)) = int (length pre)" using small cs by (intro c_int_small) simp_all
  have ol: "sexp_utf8_initial_byte_count (uint (string_at m s (int (length pre)))) = int (length old)"
    using utf8_at(2) [OF f(3) k f(1)] i by (simp add: byte_width_def old_def)
  note nw = utf8_char_width [OF c, folded new_def]
  have four: "int (length new) \<le> 4" using nw(3) sexp_utf8_char_byte_count_def [of c] by (simp split: if_splits)
  have nl: "sexp_utf8_char_byte_count c = int (length new)" using nw(3) by simp
  have enc: "sexp_utf8_encode_char (int (length new)) c = new" using nw(3) by (simp add: new_def utf8_char_def)
  note steps = sexp_string_utf8_set_def uncursor_obj [OF char_offset_fits [OF ok(1)], of k, unfolded i] i ci ol nl enc
    unchar_obj [OF c]
  show "sexp_string_utf8_set m (STRING_P s) (cursor_obj (char_offset cs k)) (char_obj c) =
      write_bytes m (sexp_string_bytes so) (int (length pre)) new"
    if "\<not> (sexp_copy_on_writep so \<or> length old \<noteq> length new)"
    using that ok(2) by (simp add: steps so_def Let_def)
  assume move: "sexp_copy_on_writep so \<or> length old \<noteq> length new" and sp: "has_space m (cs[k := c])"
    and data: "sexp_bytes_data (bytes_objs m ! sexp_string_bytes so) = utf8 cs @ r # rest"
  have size: "sexp_string_size so = int (length (pre @ old @ post))" using f(2) cs by (simp add: string_size_def so_def)
  have len: "sexp_string_size so + (int (length new) - int (length old)) = int (length (pre @ new @ post))"
    unfolding size by simp
  have cl: "c_int (int (length (pre @ new @ post))) = int (length (pre @ new @ post))"
    using small cs four by (intro c_int_small) simp_all
  have s: "s < length (string_objs m)" "sexp_string_bytes so < length (bytes_objs m)"
    using ok(1) by (simp_all add: string_ok_def so_def)
  define D where "D = copy_bytes (memory_junk m) 0 (int (length (pre @ new @ post))) @ [0]"
  define m1 where "m1 = m\<lparr>bytes_objs := bytes_objs m @ [\<lparr>sexp_bytes_length = int (length (pre @ new @ post)),
      sexp_bytes_data = D, bytes_immutablep = False\<rparr>]\<rparr>"
  have mk: "sexp_make_bytes_op m (fix_obj (int (length (pre @ new @ post)))) VOID_OBJ
      = (Inr (BYTES_P (length (bytes_objs m))), m1)"
    using has_spaceD [OF sp] make_bytes_room [of "int (length (pre @ new @ post))" m VOID_OBJ]
    by (simp add: cs m1_def D_def del: length_append)
  have "spells (string_at m1 s) 0 (pre @ old @ post @ r # rest)"
    using string_at_data [of m1 s] data ok(2) s(2) cs by (simp add: m1_def so_def nth_append)
  then have "copy_bytes (string_at m1 s) 0 (int (length pre)) = pre"
    "copy_bytes (string_at m1 s) (int (length pre) + int (length old)) (int (length post) + 1) = post @ [r]"
    by (auto intro!: copy_bytes_spells simp: spells_append spells_Cons)
  moreover have "int (length (pre @ new @ post)) - int (length pre) - int (length new) + 1 = int (length post) + 1" by simp
  ultimately have copies: "copy_bytes (string_at m1 s) 0 (int (length pre)) = pre"
    "copy_bytes (string_at m1 s) (int (length pre) + int (length old))
      (int (length (pre @ new @ post)) - int (length pre) - int (length new) + 1) = post @ [r]"
    by (simp_all only:)
  have fin: "store_at (store_at (store_at D 0 pre) (int (length pre) + int (length new)) (post @ [r])) (int (length pre)) new
      = pre @ new @ post @ [r]"
    using store_at_parts [of D pre new "post @ [r]"] by (simp add: D_def)
  show "sexp_string_utf8_set m (STRING_P s) (cursor_obj (char_offset cs k)) (char_obj c) =
      m\<lparr>bytes_objs := bytes_objs m @ [\<lparr>sexp_bytes_length = int (length (pre @ new @ post)),
          sexp_bytes_data = pre @ new @ post @ [r], bytes_immutablep = False\<rparr>],
        string_objs := (string_objs m)[s := so\<lparr>sexp_string_bytes := length (bytes_objs m),
          sexp_string_size := int (length (pre @ new @ post)), sexp_copy_on_writep := False\<rparr>]\<rparr>"
    using move sp fin copies size s(1) mk cl len
    by (simp add: steps so_def [symmetric] Let_def write_bytes_def update_string_def m1_def del: length_append)
qed

lemma string_set_text:
  assumes rep: "strings_rep m css" and s: "s < length css" "\<not> sexp_immutablep (string_objs m ! s)"
    and k: "k < length (css ! s)" and c: "is_char c" and sp: "has_space m ((css ! s)[k := c])"
    and small: "int (length (utf8 (css ! s))) + 4 < 2 ^ 31"
  shows "strings_rep (sexp_string_utf8_set m (STRING_P s) (cursor_obj (char_offset (css ! s) k)) (char_obj c))
    (css[s := (css ! s)[k := c]])"
    and "map sexp_immutablep (string_objs
      (sexp_string_utf8_set m (STRING_P s) (cursor_obj (char_offset (css ! s) k)) (char_obj c)))
      = map sexp_immutablep (string_objs m)"
proof -
  let ?cs = "css ! s" and ?so = "string_objs m ! s"
  note ok = strings_repD [OF rep s(1)]
  note f = string_ok_facts [OF ok(1)]
  obtain rest where data: "sexp_bytes_data (bytes_objs m ! sexp_string_bytes ?so) = utf8 ?cs @ rest" "rest \<noteq> []"
    using view_data [OF ok] .
  note around = utf8_around(1) [OF k] utf8_around(2) [OF k, of c]
  have valid: "list_all is_char (?cs[k := c])"
    using f(3) c by (auto simp: list_all_iff dest: set_update_subset_insert [THEN subsetD])
  have sl: "s < length (string_objs m)" using ok(1) by (simp add: string_ok_def)
  have "strings_rep (sexp_string_utf8_set m (STRING_P s) (cursor_obj (char_offset ?cs k)) (char_obj c)) (css[s := ?cs[k := c]])
    \<and> map sexp_immutablep (string_objs
        (sexp_string_utf8_set m (STRING_P s) (cursor_obj (char_offset ?cs k)) (char_obj c)))
      = map sexp_immutablep (string_objs m)"
  proof (cases "sexp_copy_on_writep ?so \<or> length (utf8_char (?cs ! k)) \<noteq> length (utf8_char c)")
    case False
    note set = utf8_set_unfold(1) [OF ok k c small False]
    have "store_at (utf8 ?cs @ rest) (int (length (utf8 (take k ?cs)))) (utf8_char c) = utf8 (?cs[k := c]) @ rest"
      using False by (simp add: around(1) around(2) store_at_mid)
    moreover have "int (length (utf8 (?cs[k := c]))) = sexp_string_size ?so"
      using False f(2) around by (simp add: string_size_def)
    ultimately show ?thesis
      using rep_in_place [OF rep s(1) s(2) _ refl refl data(2) valid] False
      by (simp add: set write_bytes_def data)
  next
    case True
    obtain r rest' where r: "rest = r # rest'" using data(2) by (cases rest) auto
    note set = utf8_set_unfold(2) [OF ok k c small True sp data(1) [unfolded r]]
    have "view_ok (?so\<lparr>sexp_string_bytes := length (bytes_objs m),
        sexp_string_size := int (length (utf8 (?cs[k := c]))), sexp_copy_on_writep := False\<rparr>)
        (utf8 (?cs[k := c]) @ [r]) (?cs[k := c])"
      using has_spaceD(3) [OF sp] valid ok(2) by (simp add: view_ok_def)
    then have "strings_rep (m\<lparr>bytes_objs := bytes_objs m @ [\<lparr>sexp_bytes_length = int (length (utf8 (?cs[k := c]))),
          sexp_bytes_data = utf8 (?cs[k := c]) @ [r], bytes_immutablep = False\<rparr>],
        string_objs := (string_objs m)[s := ?so\<lparr>sexp_string_bytes := length (bytes_objs m),
          sexp_string_size := int (length (utf8 (?cs[k := c]))), sexp_copy_on_writep := False\<rparr>]\<rparr>) (css[s := ?cs[k := c]])"
      using ok(2) by (intro rep_move [OF rep s(1)]) simp_all
    then show ?thesis
      using sl by (simp add: set around(2) map_update) (simp add: list_update_same_conv)
  qed
  then show "strings_rep (sexp_string_utf8_set m (STRING_P s) (cursor_obj (char_offset ?cs k)) (char_obj c))
      (css[s := ?cs[k := c]])"
    "map sexp_immutablep (string_objs (sexp_string_utf8_set m (STRING_P s) (cursor_obj (char_offset ?cs k)) (char_obj c)))
      = map sexp_immutablep (string_objs m)" by simp_all
qed

lemma immutable_string_text:
  assumes rep: "strings_rep m css" and s: "s < length css"
  defines "m' \<equiv> snd (sexp_immutable_string_op m (STRING_P s))"
  shows "fst (sexp_immutable_string_op m (STRING_P s)) = Inr (STRING_P (length css))"
    and "strings_rep m' (css @ [css ! s])"
    and "map sexp_immutablep (string_objs m') = map sexp_immutablep (string_objs m) @ [True]"
proof -
  let ?so = "string_objs m ! s"
  have l: "length css = length (string_objs m)" using rep by (simp add: strings_rep_def)
  have new: "string_objs m' = (string_objs m)[s := ?so\<lparr>sexp_copy_on_writep := True\<rparr>]
      @ [\<lparr>sexp_string_bytes = sexp_string_bytes ?so, sexp_string_offset = sexp_string_offset ?so,
          sexp_string_size = sexp_string_size ?so, sexp_copy_on_writep = False, sexp_immutablep = True\<rparr>]"
    "bytes_objs m' = bytes_objs m"
    using s l by (simp_all add: m'_def sexp_immutable_string_op_def Let_def alloc_string_def update_string_def
        nth_append list_update_append)
  show "fst (sexp_immutable_string_op m (STRING_P s)) = Inr (STRING_P (length css))"
    using l by (simp add: sexp_immutable_string_op_def Let_def)
  show "map sexp_immutablep (string_objs m') = map sexp_immutablep (string_objs m) @ [True]"
    using s l by (simp add: new map_update) (simp add: list_update_same_conv)
  have same: "sexp_string_bytes (string_objs m' ! t) = sexp_string_bytes (string_objs m ! (if t < length css then t else s))"
    "sexp_immutablep (string_objs m' ! t) \<longleftrightarrow> t = length css \<or> sexp_immutablep (string_objs m ! t)"
    "sexp_copy_on_writep (string_objs m' ! t) \<longleftrightarrow> t \<noteq> length css \<and> (t = s \<or> sexp_copy_on_writep (string_objs m ! t))"
    if "t < Suc (length css)" for t
    using that s l by (auto simp: new nth_append nth_list_update)
  have "shared_safely m'"
    unfolding shared_safely_def
  proof (intro allI impI)
    fix t u
    assume t: "t < length (string_objs m')" "u < length (string_objs m')" "t \<noteq> u"
      and eq: "sexp_string_bytes (string_objs m' ! t) = sexp_string_bytes (string_objs m' ! u)"
    then have tu: "t < Suc (length css)" "u < Suc (length css)" by (simp_all add: new l)
    show "sexp_immutablep (string_objs m' ! t) \<or> sexp_copy_on_writep (string_objs m' ! t)"
    proof (cases "t = length css \<or> t = s")
      case False
      then have "t < length css" using tu by simp
      moreover define u' where "u' = (if u < length css then u else s)"
      have "u' < length css" "t \<noteq> u'" using s t(3) False by (auto simp: u'_def)
      moreover have "sexp_string_bytes (string_objs m ! t) = sexp_string_bytes (string_objs m ! u')"
        using eq same(1) [OF tu(1)] same(1) [OF tu(2)] \<open>t < length css\<close> by (simp add: u'_def)
      ultimately show ?thesis
        using rep same(2,3) [OF tu(1)] False unfolding strings_rep_def shared_safely_def l by metis
    qed (use same(2,3) [OF tu(1)] s in auto)
  qed
  moreover have "string_ok m' t ((css @ [css ! s]) ! t) \<and> sexp_string_offset (string_objs m' ! t) = 0"
    if "t < Suc (length css)" for t
  proof (cases "t < length css")
    case True
    with strings_repD [OF rep True] s l show ?thesis
      by (auto simp: string_ok_def view_ok_def new nth_append nth_list_update)
  next
    case False
    then have "t = length css" using that by simp
    with strings_repD [OF rep s] l show ?thesis
      by (auto simp: string_ok_def view_ok_def new nth_append)
  qed
  ultimately show "strings_rep m' (css @ [css ! s])"
    by (simp add: strings_rep_def new l)
qed

end
