(* ===== verification/Machine.thy ===== *)
theory Machine
  imports Texts
begin

text \<open>
  Sequences of string operations against an abstract machine whose state is a list of character
  lists, each marked as immutable or not, and the properties of the string component.
\<close>

subsection \<open>The abstract machine\<close>

datatype string_op = Make nat int | Sub nat int int | Join "nat list" nat | Freeze nat | Put nat int int

type_synonym text_state = "(int list \<times> bool) list"

fun spec_op :: "string_op \<Rightarrow> text_state \<Rightarrow> text_state" where
  "spec_op (Make n c) st = st @ [(replicate n c, False)]"
| "spec_op (Sub s i j) st =
    (if 0 \<le> i \<and> i \<le> j \<and> j \<le> int (length (fst (st ! s))) then st @ [(segment (nat i) (nat j) (fst (st ! s)), False)] else st)"
| "spec_op (Join ss p) st = st @ [(joined (fst (st ! p)) (map (\<lambda>s. fst (st ! s)) ss), False)]"
| "spec_op (Freeze s) st = st @ [(fst (st ! s), True)]"
| "spec_op (Put s i c) st =
    (if \<not> snd (st ! s) \<and> 0 \<le> i \<and> i < int (length (fst (st ! s))) then st[s := ((fst (st ! s))[nat i := c], False)] else st)"

text \<open>The calls a program makes: strings that exist, characters, indices that are fixnums.\<close>

fun op_ok :: "string_op \<Rightarrow> text_state \<Rightarrow> bool" where
  "op_ok (Make n c) st \<longleftrightarrow> is_char c"
| "op_ok (Sub s i j) st \<longleftrightarrow> s < length st \<and> fits_fixnum i \<and> fits_fixnum j"
| "op_ok (Join ss p) st \<longleftrightarrow> list_all (\<lambda>s. s < length st) ss \<and> p < length st"
| "op_ok (Freeze s) st \<longleftrightarrow> s < length st"
| "op_ok (Put s i c) st \<longleftrightarrow> s < length st \<and> fits_fixnum i \<and> is_char c"

definition small_state :: "text_state \<Rightarrow> bool" where
  "small_state st \<longleftrightarrow> list_all (\<lambda>(cs, _). int (length (utf8 cs)) + 4 < 2 ^ 31) st"

fun run_op :: "string_op \<Rightarrow> string_mem \<Rightarrow> string_mem" where
  "run_op (Make n c) m = snd (sexp_make_string_op m (fix_obj (int n)) (char_obj c))"
| "run_op (Sub s i j) m = snd (sexp_utf8_substring_op m (STRING_P s) (fix_obj i) (fix_obj j))"
| "run_op (Join ss p) m = snd (sexp_string_concatenate_op m (list_obj ss) (STRING_P p))"
| "run_op (Freeze s) m = snd (sexp_immutable_string_op m (STRING_P s))"
| "run_op (Put s i c) m = snd (sexp_string_utf8_index_set m (STRING_P s) (fix_obj i) (char_obj c))"

text \<open>Every call of a sequence is made in a state where it is enabled.\<close>

primrec enabled_run :: "('p \<Rightarrow> 'a \<Rightarrow> bool) \<Rightarrow> ('p \<Rightarrow> 'a \<Rightarrow> 'a) \<Rightarrow> 'p list \<Rightarrow> 'a \<Rightarrow> bool" where
  "enabled_run enabled spec [] st \<longleftrightarrow> True"
| "enabled_run enabled spec (p # ps) st \<longleftrightarrow> enabled p st \<and> enabled_run enabled spec ps (spec p st)"

definition call_ok :: "string_op \<Rightarrow> text_state \<Rightarrow> bool" where
  "call_ok p st \<longleftrightarrow> op_ok p st \<and> small_state (spec_op p st)"

definition string_rel :: "string_mem \<Rightarrow> text_state \<Rightarrow> bool" where
  "string_rel m st \<longleftrightarrow> strings_rep m (map fst st) \<and> map sexp_immutablep (string_objs m) = map snd st
    \<and> (\<forall>n. has_room m n) \<and> small_state st"

definition empty_strings :: "string_mem" where
  "empty_strings = \<lparr>bytes_objs = [], string_objs = [], memory_junk = (\<lambda>_. 170), has_room = (\<lambda>_. True)\<rparr>"

subsection \<open>One operation\<close>

lemma string_relD:
  assumes "string_rel m st" "s < length st"
  shows "string_ok m s (fst (st ! s))" "sexp_immutablep (string_objs m ! s) = snd (st ! s)"
    "int (length (utf8 (fst (st ! s)))) + 4 < 2 ^ 31"
proof -
  have l: "length (string_objs m) = length st" using assms(1) by (metis string_rel_def length_map)
  have "map fst st ! s = fst (st ! s)" using assms(2) by simp
  then show "string_ok m s (fst (st ! s))"
    using strings_repD(1) [of m "map fst st" s] assms by (simp add: string_rel_def)
  have "map sexp_immutablep (string_objs m) ! s = map snd st ! s" using assms(1) by (simp add: string_rel_def)
  then show "sexp_immutablep (string_objs m ! s) = snd (st ! s)" using assms(2) l by simp
  show "int (length (utf8 (fst (st ! s)))) + 4 < 2 ^ 31"
    using assms by (auto simp: string_rel_def small_state_def list_all_length case_prod_unfold)
qed

lemma has_room_kept [simp]:
  "has_room (write_bytes m b k bs) = has_room m" "has_room (update_string m s f) = has_room m"
  "has_room (alloc_string m b x n) = has_room m" "has_room (new_string m bs) = has_room m"
  "has_room (snd (sexp_make_bytes_op m len i)) = has_room m"
  "has_room (sexp_string_utf8_set m str i ch) = has_room m"
  "has_room (snd (sexp_immutable_string_op m str)) = has_room m"
proof -
  show mk: "has_room (snd (sexp_make_bytes_op m len i)) = has_room m" for m len i
    by (simp add: sexp_make_bytes_op_def Let_def)
  show set: "has_room (write_bytes m b k bs) = has_room m" "has_room (update_string m s f) = has_room m" for m b k bs s f
    by (simp_all add: write_bytes_def update_string_def)
  show "has_room (alloc_string m b x n) = has_room m" "has_room (new_string m bs) = has_room m"
    by (simp_all add: alloc_string_def new_string_def)
  have mk': "has_room m' = has_room m" if "sexp_make_bytes_op m len i = (r, m')" for m len i r m'
    using mk [of m len i] that by simp
  show "has_room (sexp_string_utf8_set m str i ch) = has_room m"
    by (auto simp: sexp_string_utf8_set_def Let_def set split: prod.splits sum.splits dest: mk')
  show "has_room (snd (sexp_immutable_string_op m str)) = has_room m"
    by (simp add: sexp_immutable_string_op_def Let_def set alloc_string_def)
qed

lemma has_space_small:
  assumes "\<forall>n. has_room m n" "int (length (utf8 cs)) + 4 < 2 ^ 31"
  shows "has_space m cs"
  using assms by (simp add: has_space_def)

lemma string_rel_new:
  assumes "string_rel m st" "list_all is_char cs" "small_state (st @ [(cs, False)])"
  shows "string_rel (new_string m (utf8 cs)) (st @ [(cs, False)])"
  using assms new_string_rep [of m "map fst st" cs]
  by (simp add: string_rel_def small_state_def)

lemma run_op_refines:
  assumes rel: "string_rel m st" and ok: "op_ok p st" and small: "small_state (spec_op p st)"
  shows "string_rel (run_op p m) (spec_op p st)"
proof -
  have room: "\<forall>n. has_room m n" using rel by (simp add: string_rel_def)
  show ?thesis
  proof (cases p)
    case (Make n c)
    have "has_space m (replicate n c)" using small room Make by (intro has_space_small) (simp_all add: small_state_def)
    with Make ok have "run_op p m = new_string m (utf8 (replicate n c))" by (simp add: make_string_text)
    then show ?thesis using string_rel_new [OF rel, of "replicate n c"] Make ok small by (simp add: list_all_iff)
  next
    case (Sub s i j)
    then have s: "s < length st" "fits_fixnum i" "fits_fixnum j" using ok by simp_all
    let ?cs = "fst (st ! s)"
    note sr = string_relD [OF rel s(1)]
    have sp: "has_space m (segment (nat i) (nat j) ?cs)" if "0 \<le> i" "i \<le> j" "j \<le> int (length ?cs)"
      using small room Sub that by (intro has_space_small) (simp_all add: small_state_def)
    have valid: "list_all is_char (segment (nat i) (nat j) ?cs)"
      using string_ok_facts(3) [OF sr(1)] by (auto simp: segment_def list_all_iff dest!: in_set_takeD in_set_dropD)
    show ?thesis
      using utf8_substring_text [OF sr(1) s(2,3) sp] string_rel_new [OF rel valid] rel small Sub
      by (auto simp: not_less split: if_splits)
  next
    case (Join ss q)
    then have s: "\<And>s. s \<in> set ss \<Longrightarrow> s < length st" "q < length st" using ok by (auto simp: list_all_iff)
    let ?cs = "joined (fst (st ! q)) (map (\<lambda>s. fst (st ! s)) ss)"
    have "list_all is_char (joined cs css)" if "list_all is_char cs" "list_all (list_all is_char) css" for cs css
      using that by (induction css) simp_all
    moreover have "list_all is_char (fst (st ! q))" "list_all (list_all is_char) (map (\<lambda>s. fst (st ! s)) ss)"
      using s string_ok_facts(3) [OF string_relD(1) [OF rel]] by (auto simp: list_all_iff)
    ultimately have valid: "list_all is_char ?cs" by blast
    have "has_space m ?cs" using small room Join by (intro has_space_small) (simp_all add: small_state_def)
    then have "run_op p m = new_string m (utf8 ?cs)"
      using concatenate_text [of ss m "\<lambda>s. fst (st ! s)" q "fst (st ! q)"] string_relD(1) [OF rel] s Join by simp
    then show ?thesis using string_rel_new [OF rel valid] Join small by simp
  next
    case (Freeze s)
    then have s: "s < length (map fst st)" using ok by simp
    have "strings_rep m (map fst st)" using rel by (simp add: string_rel_def)
    from immutable_string_text [OF this s] show ?thesis
      using rel small s Freeze by (simp add: string_rel_def)
  next
    case (Put s i c)
    then have s: "s < length st" "fits_fixnum i" "is_char c" using ok by simp_all
    note sr = string_relD [OF rel s(1)]
    let ?cs = "fst (st ! s)"
    show ?thesis
    proof (cases "\<not> snd (st ! s) \<and> 0 \<le> i \<and> i < int (length ?cs)")
      case True
      then have k: "nat i < length ?cs" by linarith
      have sp: "has_space m (?cs[nat i := c])"
        using small room Put True s(1) by (intro has_space_small) (auto simp: small_state_def list_all_length dest: spec [of _ s])
      have run: "run_op p m = sexp_string_utf8_set m (STRING_P s) (cursor_obj (char_offset ?cs (nat i))) (char_obj c)"
        using True s sr offset_inside [OF sr(1) k] char_offset_fits [OF sr(1), of "nat i"]
        by (simp add: Put sexp_string_utf8_index_set_def index_to_cursor_text [OF sr(1) s(2)])
      have "map fst st ! s = ?cs" "strings_rep m (map fst st)" using s(1) rel by (simp_all add: string_rel_def)
      moreover have "(map snd st)[s := False] = map snd st" using True s(1) by (simp add: list_update_same_conv)
      ultimately show ?thesis
        using string_set_text [of m "map fst st" s "nat i" c] True s sr k sp rel small Put
        unfolding run by (simp add: string_rel_def map_update)
    next
      case False
      then have "run_op p m = m"
        using s sr string_ok_facts(2) [OF sr(1)] char_offset_fits [OF sr(1), of "length ?cs"]
        by (auto simp: Put sexp_string_utf8_index_set_def index_to_cursor_text [OF sr(1) s(2)] char_offset_all)
      with False rel Put show ?thesis by auto
    qed
  qed
qed

text \<open>A machine whose steps follow an abstract one: then its runs do.\<close>

locale simulation =
  fixes step :: "'p \<Rightarrow> 'm \<Rightarrow> 'm" and spec :: "'p \<Rightarrow> 'a \<Rightarrow> 'a" and rel :: "'m \<Rightarrow> 'a \<Rightarrow> bool"
    and enabled :: "'p \<Rightarrow> 'a \<Rightarrow> bool"
  assumes step_refines: "rel m st \<Longrightarrow> enabled p st \<Longrightarrow> rel (step p m) (spec p st)"
begin

lemma run_refines: "rel m st \<Longrightarrow> enabled_run enabled spec ps st \<Longrightarrow> rel (fold step ps m) (fold spec ps st)"
  by (induction ps arbitrary: m st) (simp_all add: step_refines)

end

interpretation string_calls: simulation run_op spec_op string_rel call_ok
  by unfold_locales (simp add: run_op_refines call_ok_def)

subsection \<open>Properties\<close>

text \<open>
  C12.  UTF-8 round trip.  For every code point of up to 21 bits the encoder writes as many bytes as
  \<open>sexp_utf8_char_byte_count\<close> says, the first byte tells \<open>sexp_utf8_initial_byte_count\<close> the same number, and
  \<open>string-ref\<close>'s decoder reads the code point back from any memory that holds the bytes; so does the
  port reader after the character has been pushed back, and writing it to a port appends its bytes.
  The reader's own decoder of character literals agrees for two and three bytes, while for every
  four-byte character it yields a smaller code point.
\<close>

theorem utf8_roundtrip:
  assumes "is_char c"
    and "spells mem a (sexp_utf8_encode_char (sexp_utf8_char_byte_count c) c)"
    and "\<And>b (p :: 'p). read_char (unread b p) = (uint b, p)"
  shows "int (length (utf8_char c)) = sexp_utf8_char_byte_count c
    \<and> sexp_utf8_initial_byte_count (uint (mem a)) = sexp_utf8_char_byte_count c
    \<and> utf8_ref mem a = Some c
    \<and> (let (b, port') = read_char (sexp_push_utf8_char unread c port) in sexp_read_utf8_char read_char b port' = (Some c, port))
    \<and> sexp_write_utf8_char (\<lambda>out b. Some (out @ [b])) (@) c out = Some (out @ utf8_char c)
    \<and> (0x80 \<le> c \<longrightarrow> c < 0x10000 \<longrightarrow> sexp_decode_utf8_char (utf8_char c) = c)
    \<and> (0x10000 \<le> c \<longrightarrow> sexp_decode_utf8_char (utf8_char c) < c)"
proof -
  have mem: "spells mem a (utf8_char c)" using assms(2) by (simp add: utf8_char_def)
  note w = utf8_char_width [OF assms(1)]
  obtain b bs where b: "utf8_char c = b # bs" using w(1) by (cases "utf8_char c") auto
  have "delivers read_char (sexp_push_utf8_char unread c port) (b # bs) port"
    using push_utf8_char [of read_char unread c port] assms(3) b by simp
  then have "let (b, port') = read_char (sexp_push_utf8_char unread c port) in
      sexp_read_utf8_char read_char b port' = (Some c, port)"
    using read_utf8_char [OF assms(1), of read_char _ port] b by (simp add: case_prod_unfold)
  moreover have "sexp_utf8_initial_byte_count (uint (mem a)) = sexp_utf8_char_byte_count c"
    using head_width(1) [OF assms(1), of mem a "[]"] mem w(3) by simp
  ultimately show ?thesis
    using w(3) utf8_ref_char [OF assms(1) mem] write_utf8_char [OF assms(1)] decode_utf8_char [of c]
      decode_utf8_char_4 [OF assms(1)] by simp
qed

theorem utf8_roundtrip_witness:
  "utf8_ref (\<lambda>k. (utf8_char 0x1F600 @ replicate 9 0) ! nat k) 0 = Some 0x1F600"
proof -
  have "spells (\<lambda>k. (utf8_char 0x1F600 @ replicate 9 0) ! nat k) 0
      (sexp_utf8_encode_char (sexp_utf8_char_byte_count 0x1F600) 0x1F600)"
    by (simp add: spells_def nth_append utf8_char_def)
  then show ?thesis
    using utf8_roundtrip [of "0x1F600" "\<lambda>k. (utf8_char 0x1F600 @ replicate 9 0) ! nat k" 0
      "\<lambda>p. (uint (hd p), tl p)" "(#)"] by (simp add: is_char_def)
qed

text \<open>
  C16.  Looking up.  On a string that holds the characters \<open>cs\<close>, \<open>string-length\<close> is their number;
  \<open>string-ref\<close> returns character \<open>i\<close> and an error exactly when \<open>i\<close> is out of range;
  \<open>string-index->cursor\<close> and \<open>string-cursor->index\<close> invert each other; and the cursor instructions of
  the virtual machine return the character, the next and the previous cursor.
\<close>

theorem string_lookup_refines:
  assumes "string_ok m s cs" "fits_fixnum i" "k < length cs"
  shows "vm_string_length m (STRING_P s) = Inr (fix_obj (int (length cs)))
    \<and> sexp_string_utf8_index_ref m (STRING_P s) (fix_obj i) =
        (if 0 \<le> i \<and> i < int (length cs) then Inr (char_obj (cs ! nat i))
         else if i = int (length cs) then Inl (User_exception ''string-ref: index out of range'' (fix_obj i))
         else Inl (User_exception ''string-index->cursor: index out of range'' (fix_obj i)))
    \<and> sexp_string_index_to_cursor m (STRING_P s) (fix_obj (int k)) = Inr (cursor_obj (char_offset cs k))
    \<and> sexp_string_cursor_to_index m (STRING_P s) (cursor_obj (char_offset cs k)) = Inr (fix_obj (int k))
    \<and> vm_string_ref m (STRING_P s) (cursor_obj (char_offset cs k)) = Inr (char_obj (cs ! k))
    \<and> vm_string_cursor_next m (STRING_P s) (cursor_obj (char_offset cs k)) = Inr (cursor_obj (char_offset cs (Suc k)))
    \<and> vm_string_cursor_prev m (STRING_P s) (cursor_obj (char_offset cs (Suc k))) = Some (Inr (cursor_obj (char_offset cs k)))"
proof -
  have "fits_fixnum (int k)" using index_fits [OF assms(1), of k] assms(3) by simp
  then have "sexp_string_index_to_cursor m (STRING_P s) (fix_obj (int k)) = Inr (cursor_obj (char_offset cs k))"
    using assms(3) by (simp add: index_to_cursor_text [OF assms(1)])
  then show ?thesis
    using string_length_text [OF assms(1)] index_ref_text [OF assms(1,2)] cursor_to_index_text [OF assms(1), of k]
      cursor_moves_text [OF assms(1,3)] assms(3) by simp
qed

text \<open>
  C4.  Refinement.  Any sequence of \<open>make-string\<close>, \<open>substring\<close>, concatenation, \<open>immutable-string\<close> and
  \<open>string-set!\<close> calls acts on the characters as the abstract machine does: failed calls change nothing,
  a character of another width is spliced in, a change to a string never shows in another one even
  when they share bytes, and immutable strings keep their characters.
\<close>

theorem string_machine_refines:
  assumes "string_rel m st" "enabled_run call_ok spec_op ops st"
  shows "string_rel (fold run_op ops m) (fold spec_op ops st)"
  using assms by (rule string_calls.run_refines)

lemma empty_strings_rel: "string_rel empty_strings []"
  by (simp add: string_rel_def strings_rep_def shared_safely_def small_state_def empty_strings_def)

lemma utf8_examples: "utf8_char 97 = [97]" "utf8_char 955 = [206, 187]"
  by (simp_all add: utf8_char_def sexp_utf8_encode_char_def sexp_utf8_char_byte_count_def drop_bit_eq_div and_low_bits)

theorem string_machine_refines_witness:
  "string_rel (fold run_op [Make 2 97, Freeze 0, Put 0 1 955, Put 1 0 98] empty_strings) [([97, 955], False), ([97, 97], True)]"
proof -
  have "enabled_run call_ok spec_op [Make 2 97, Freeze 0, Put 0 1 955, Put 1 0 98] []"
    by (simp add: call_ok_def small_state_def is_char_def fits_fixnum_def utf8_examples numeral_2_eq_2)
  from string_machine_refines [OF empty_strings_rel this] show ?thesis by (simp add: numeral_2_eq_2)
qed

definition example_text :: string_mem where
  "example_text = new_string empty_strings (utf8 [97, 955])"

lemma example_text_ok: "string_ok example_text 0 [97, 955]" "\<not> sexp_immutablep (string_objs example_text ! 0)"
proof -
  have "strings_rep example_text ([] @ [[97, 955]])"
    unfolding example_text_def using empty_strings_rel
    by (intro new_string_rep) (simp_all add: string_rel_def is_char_def utf8_examples)
  then show "string_ok example_text 0 [97, 955]" using strings_repD(1) [of _ "[[97, 955]]" 0] by simp
  show "\<not> sexp_immutablep (string_objs example_text ! 0)" by (simp add: example_text_def empty_strings_def)
qed

theorem string_lookup_refines_witness:
  "vm_string_length example_text (STRING_P 0) = Inr (fix_obj 2)
    \<and> sexp_string_utf8_index_ref example_text (STRING_P 0) (fix_obj 1) = Inr (char_obj 955)
    \<and> vm_string_ref example_text (STRING_P 0) (cursor_obj 1) = Inr (char_obj 955)"
  using string_lookup_refines [OF example_text_ok(1), of 1 1]
  by (simp add: fits_fixnum_def char_offset_def utf8_examples)

text \<open>The types of the results.\<close>

lemma string_results:
  shows "sexp_string_utf8_index_ref m x i = Inr v \<Longrightarrow> char_o v \<and> string_o x \<and> fixnum_o i"
    "sexp_string_index_to_cursor m x i = Inr v \<Longrightarrow> cursor_o v \<and> string_o x \<and> fixnum_o i"
    "sexp_string_cursor_to_index m x i = Inr v \<Longrightarrow> fixnum_o v \<and> string_o x \<and> cursor_o i"
    "fst (sexp_make_string_op m i c) = Inr v \<Longrightarrow> string_o v \<and> fixnum_o i"
    "fst (sexp_substring_op m x i j) = Inr v \<Longrightarrow> string_o v \<and> string_o x \<and> cursor_o i"
    "fst (sexp_utf8_substring_op m x i j) = Inr v \<Longrightarrow> string_o v \<and> string_o x \<and> fixnum_o i"
    "fst (sexp_subbytes_op m x i j) = Inr v \<Longrightarrow> bytes_o v \<and> bytes_o x \<and> fixnum_o i"
    "fst (sexp_string_utf8_index_set m x i c) = Inr v \<Longrightarrow> v = VOID_OBJ \<and> string_o x \<and> fixnum_o i \<and> char_o c"
proof -
  note splits = if_splits prod.splits sum.splits option.splits
  have mb: "bytes_o v \<and> fixnum_o n" if "fst (sexp_make_bytes_op m' n a) = Inr v" for m' n a v
    using that by (auto simp: sexp_make_bytes_op_def Let_def split: splits)
  have ms: "string_o v \<and> fixnum_o n" if "fst (sexp_make_string_op m' n a) = Inr v" for m' n a v
    using that by (auto simp: sexp_make_string_op_def Let_def split: splits dest: mb [OF fstI])
  have sub: "string_o v \<and> string_o y \<and> cursor_o a" if "fst (sexp_substring_op m' y a b) = Inr v" for m' y a b v
    using that by (auto simp: sexp_substring_op_def Let_def split: splits dest: ms [OF fstI])
  have ref: "char_o v" if "sexp_string_utf8_ref m y a = Inr v" for y a v
    using that by (auto simp: sexp_string_utf8_ref_def split: splits)
  show "sexp_string_utf8_index_ref m x i = Inr v \<Longrightarrow> char_o v \<and> string_o x \<and> fixnum_o i"
    by (auto simp: sexp_string_utf8_index_ref_def split: splits dest: ref)
  show "sexp_string_index_to_cursor m x i = Inr v \<Longrightarrow> cursor_o v \<and> string_o x \<and> fixnum_o i"
    by (auto simp: sexp_string_index_to_cursor_def split: splits)
  show "sexp_string_cursor_to_index m x i = Inr v \<Longrightarrow> fixnum_o v \<and> string_o x \<and> cursor_o i"
    by (auto simp: sexp_string_cursor_to_index_def Let_def split: splits)
  show "fst (sexp_utf8_substring_op m x i j) = Inr v \<Longrightarrow> string_o v \<and> string_o x \<and> fixnum_o i"
    by (auto simp: sexp_utf8_substring_op_def split: splits dest: sub)
  show "fst (sexp_subbytes_op m x i j) = Inr v \<Longrightarrow> bytes_o v \<and> bytes_o x \<and> fixnum_o i"
    by (auto simp: sexp_subbytes_op_def Let_def split: splits)
  show "fst (sexp_string_utf8_index_set m x i c) = Inr v \<Longrightarrow> v = VOID_OBJ \<and> string_o x \<and> fixnum_o i \<and> char_o c"
    by (auto simp: sexp_string_utf8_index_set_def split: splits)
  show "fst (sexp_make_string_op m i c) = Inr v \<Longrightarrow> string_o v \<and> fixnum_o i" by (rule ms)
  show "fst (sexp_substring_op m x i j) = Inr v \<Longrightarrow> string_o v \<and> string_o x \<and> cursor_o i" by (rule sub)
qed

text \<open>The reports of an argument of a wrong type.\<close>

lemma wrong_string:
  assumes "\<not> string_o x"
  shows "sexp_string_utf8_index_ref m x i = Inl (Type_exception T_STRING x)"
    "sexp_string_index_to_cursor m x i = Inl (Type_exception T_STRING x)"
    "sexp_string_cursor_to_index m x i = Inl (Type_exception T_STRING x)"
    "sexp_string_utf8_index_set m x i c = (Inl (Type_exception T_STRING x), m)"
    "sexp_substring_op m x i j = (Inl (Type_exception T_STRING x), m)"
    "sexp_utf8_substring_op m x i j = (Inl (Type_exception T_STRING x), m)"
  using assms
  by (simp_all add: sexp_string_utf8_index_ref_def sexp_string_index_to_cursor_def sexp_string_cursor_to_index_def
      sexp_string_utf8_index_set_def sexp_substring_op_def sexp_utf8_substring_op_def Let_def)

lemma wrong_index:
  assumes "string_o x" "\<not> fixnum_o i"
  shows "sexp_string_utf8_index_ref m x i = Inl (Type_exception T_FIXNUM i)"
    "sexp_string_index_to_cursor m x i = Inl (Type_exception T_FIXNUM i)"
    "sexp_string_utf8_index_set m x i c = (Inl (Type_exception T_FIXNUM i), m)"
    "sexp_utf8_substring_op m x i j = (Inl (Type_exception T_FIXNUM i), m)"
  using assms
  by (simp_all add: sexp_string_utf8_index_ref_def sexp_string_index_to_cursor_def sexp_string_utf8_index_set_def
      sexp_utf8_substring_op_def)

lemma wrong_cursor:
  assumes "string_o x" "\<not> cursor_o i"
  shows "sexp_string_cursor_to_index m x i = Inl (Type_exception T_STRING_CURSOR i)"
    "sexp_substring_op m x i j = (Inl (Type_exception T_STRING_CURSOR i), m)"
  using assms by (simp_all add: sexp_string_cursor_to_index_def sexp_substring_op_def Let_def)

lemma wrong_end:
  assumes "string_o x" "cursor_o i" "j \<noteq> FALSE_OBJ" "\<not> cursor_o j"
  shows "sexp_substring_op m x i j = (Inl (Type_exception T_STRING_CURSOR j), m)"
  using assms by (simp add: sexp_substring_op_def Let_def)

lemma wrong_operands:
  shows "string_o x \<Longrightarrow> fixnum_o i \<Longrightarrow> \<not> char_o c \<Longrightarrow> sexp_string_utf8_index_set m x i c = (Inl (Type_exception T_CHAR c), m)"
    "string_o x \<Longrightarrow> fixnum_o i \<Longrightarrow> j \<noteq> FALSE_OBJ \<Longrightarrow> \<not> fixnum_o j \<Longrightarrow> \<not> cursor_o j \<Longrightarrow> \<not> isl (sexp_string_index_to_cursor m x i) \<Longrightarrow>
      sexp_utf8_substring_op m x i j = (Inl (Type_exception T_STRING_CURSOR j), m)"
    "\<not> bytes_o x \<Longrightarrow> sexp_subbytes_op m x i j = (Inl (Type_exception T_BYTES x), m)"
    "bytes_o x \<Longrightarrow> \<not> fixnum_o i \<Longrightarrow> sexp_subbytes_op m x i j = (Inl (Type_exception T_FIXNUM i), m)"
    "bytes_o x \<Longrightarrow> fixnum_o i \<Longrightarrow> j \<noteq> FALSE_OBJ \<Longrightarrow> \<not> fixnum_o j \<Longrightarrow> sexp_subbytes_op m x i j = (Inl (Type_exception T_FIXNUM j), m)"
    "\<not> fixnum_o i \<Longrightarrow> sexp_make_string_op m i c = (Inl (Type_exception T_FIXNUM i), m)"
    "fixnum_o i \<Longrightarrow> 0 \<le> unfix i \<Longrightarrow> has_room m (unfix i) \<Longrightarrow> \<not> char_o c \<Longrightarrow> \<not> isl (fst (sexp_make_string_op m i c))"
proof -
  show "string_o x \<Longrightarrow> fixnum_o i \<Longrightarrow> j \<noteq> FALSE_OBJ \<Longrightarrow> \<not> fixnum_o j \<Longrightarrow> \<not> cursor_o j \<Longrightarrow> \<not> isl (sexp_string_index_to_cursor m x i) \<Longrightarrow>
      sexp_utf8_substring_op m x i j = (Inl (Type_exception T_STRING_CURSOR j), m)"
    using string_results(2) [of m x i] by (auto simp: sexp_utf8_substring_op_def wrong_end split: sum.split)
qed (simp_all add: sexp_string_utf8_index_set_def sexp_subbytes_op_def sexp_make_string_op_def sexp_make_bytes_op_def Let_def)



text \<open>
  The instruction behind \<open>string-cursor-set!\<close> never changes anything.  It checks that it has been
  given a string cursor and then calls \<open>sexp_string_set\<close>, which takes a fixnum index, rejects the cursor and
  returns an exception that the instruction drops: on valid operands it reports success.
\<close>

lemma string_cursor_set_ignored:
  "snd (vm_string_set m str cur ch) = m
    \<and> (string_ok m s cs \<and> \<not> sexp_immutablep (string_objs m ! s) \<and> k < length cs
        \<longrightarrow> vm_string_set m (STRING_P s) (cursor_obj (char_offset cs k)) (char_obj c) = (Inr (), m))"
proof -
  have nofix: "\<not> fixnum_o x" if "cursor_o x" for x
    using that smaller_tag(2) by (cases x) (auto simp: sexp_fixnump_w_def sexp_string_cursorp_w_def)
  have "snd (vm_string_set m x y z) = m" for x y z
    using nofix [of y] by (simp add: vm_string_set_def sexp_string_utf8_index_set_def Let_def)
  moreover have "vm_string_set m (STRING_P s) (cursor_obj (char_offset cs k)) (char_obj c) = (Inr (), m)"
    if "string_ok m s cs" "\<not> sexp_immutablep (string_objs m ! s)" "k < length cs"
    using that char_offset_fits [OF that(1), of k] offset_inside [OF that(1,3)]
    by (simp add: vm_string_set_def sexp_string_utf8_index_set_def Let_def not_less)
  ultimately show ?thesis by blast
qed

lemma string_cursor_set_ignored_example:
  "vm_string_set example_text (STRING_P 0) (cursor_obj (char_offset [97, 955] 0)) (char_obj 98) = (Inr (), example_text)"
  using string_cursor_set_ignored [of example_text "STRING_P 0" "cursor_obj 0" "char_obj 98" 0 "[97, 955]" 0 98]
    example_text_ok by simp

text \<open>
  C38.  \<open>string-count\<close> of a character outside ASCII looks at the wrong place.  In a string of an ASCII
  character followed by \<open>c\<close>, the occurrence of \<open>c\<close> is not found: the position, boxed as a
  fixnum, is unboxed as a string cursor and so divided by four.
\<close>

theorem string_count_wrong:
  assumes "string_ok m s [a, c]" "a < 0x80" "0x80 \<le> c"
  shows "sexp_string_count m (char_obj c) (STRING_P s) (fix_obj 0) FALSE_OBJ = Inr (fix_obj 0)"
proof -
  note f = string_ok_facts [OF assms(1)]
  have v: "is_char a" "is_char c" using f(3) by simp_all
  have a1: "utf8_char a = [word_of_int a]" using v assms(2) by (intro utf8_char_1) (simp_all add: is_char_def)
  have zero: "uncursor (fix_obj 0) = 0" "uncursor (fix_obj 1) = 0"
    by (simp_all add: uncursor_def fix_obj_def sexp_make_fixnum_def sexp_unbox_string_cursor_def)
  have "sexp_string_utf8_ref m (STRING_P s) (fix_obj j) = Inr (char_obj a)" if "j = 0 \<or> j = 1" for j
    using utf8_at(1) [OF f(3), of 0 "string_at m s" 0] f(1) that zero by (auto simp: sexp_string_utf8_ref_def)
  then have ne: "sexp_string_utf8_ref m (STRING_P s) (fix_obj j) \<noteq> Inr (char_obj c)" if "j = 0 \<or> j = 1" for j
    using that obj_inject(2) [OF v] assms(2,3) by auto
  have w: "sexp_utf8_initial_byte_count (uint (string_at m s (char_offset [a, c] k))) = int (length (utf8_char ([a, c] ! k)))"
    if "k < 2" for k
    using utf8_at(2) [OF f(3), of k "string_at m s" 0] f(1) that by (simp add: byte_width_def)
  have size: "string_size m s = 1 + int (length (utf8_char c))" using f(2) a1 by simp
  have pos: "0 < int (length (utf8_char c))" using utf8_char_width(1) [OF v(2)] by simp
  have "count_loop m (STRING_P s) (char_obj c) 0 (1 + int (length (utf8_char c))) = 0"
    using ne [of 0] ne [of 1] w [of 0] w [of 1] a1 pos
    by (simp add: count_loop.simps [of _ _ _ 0] count_loop.simps [of _ _ _ 1] count_loop.simps [of _ _ _ "1 + _"] char_offset_def)
  moreover have "fits_fixnum (string_size m s)" using size f(2,4) by (simp add: fits_fixnum_def)
  ultimately show ?thesis using v(2) assms(3) size by (simp add: sexp_string_count_def Let_def fits_fixnum_def)
qed

theorem string_count_wrong_witness:
  "sexp_string_count example_text (char_obj 955) (STRING_P 0) (fix_obj 0) FALSE_OBJ = Inr (fix_obj 0)"
  by (rule string_count_wrong [OF example_text_ok(1)]) simp_all

end
