(* ===== verification/Order.thy ===== *)
theory Order
  imports Exact
begin

text \<open>
  The built-in order of objects, \<open>sexp_object_compare\<close> of \<^verbatim>\<open>lib/srfi/95/qsort.c\<close>, which \<open>sort!\<close> uses
  when it is given no procedure.  Objects are finite trees: numbers and immediates as in \<open>Numbers\<close>,
  strings, symbols, pairs and vectors.  On trees the first test of the code, whether both arguments
  are the same object, changes nothing but the time, since an object compares as equal to itself.
  The comparison of symbols that are packed into a word, and the text such a word stands for, come from
  generated tables and are parameters; so is the address of an object.
\<close>

subsection \<open>Objects\<close>

datatype 'f item = ATOM "'f sexp" | TEXT "u8 list" | LSYMBOL "u8 list" | KONS "'f item" "'f item" | VEC "'f item list"

record 'f order_env =
  oe_flo :: "'f flo_ops"
  oe_arith :: "'f arith"
  isymbol_compare :: "u64 \<Rightarrow> u64 \<Rightarrow> int"
  isymbol_text :: "u64 \<Rightarrow> u8 list"
  pointer_word :: "'f sexp \<Rightarrow> u64"

fun immediate_of :: "'f item \<Rightarrow> u64 option" where
  "immediate_of (ATOM (IMM w)) = Some w"
| "immediate_of x = None"

fun item_number :: "'f item \<Rightarrow> 'f sexp" where
  "item_number (ATOM x) = x"
| "item_number x = OBJECT 0"

fun item_text :: "'f item \<Rightarrow> u8 list" where
  "item_text (TEXT s) = s"
| "item_text (LSYMBOL s) = s"
| "item_text x = []"

fun item_elements :: "'f item \<Rightarrow> 'f item list" where
  "item_elements (VEC xs) = xs"
| "item_elements x = []"

fun item_pairp :: "'f item \<Rightarrow> bool" where
  "item_pairp (KONS x y) = True"
| "item_pairp x = False"

fun item_cdr :: "'f item \<Rightarrow> 'f item" where
  "item_cdr (KONS x y) = y"
| "item_cdr x = x"

fun item_lsymbolp :: "'f item \<Rightarrow> bool" where
  "item_lsymbolp (LSYMBOL s) = True"
| "item_lsymbolp x = False"

definition sexp_isymbolp :: "u64 \<Rightarrow> bool" where
  "sexp_isymbolp w \<longleftrightarrow> w AND 15 = 6"

definition NULL_ITEM :: "'f item" where "NULL_ITEM = ATOM (SEXP_MAKE_IMMEDIATE 2)"

text \<open>The tags of the objects that are pointers; \<open>OBJECT t\<close> has another type, with tag \<open>t\<close>.\<close>

fun item_tag :: "'f item \<Rightarrow> nat" where
  "item_tag (KONS x y) = 6"
| "item_tag (LSYMBOL s) = 7"
| "item_tag (TEXT s) = 9"
| "item_tag (VEC xs) = 10"
| "item_tag (ATOM x) = sexp_pointer_tag x"

definition sexp_non_immediate_ordered_numberp :: "'f item \<Rightarrow> bool" where
  "sexp_non_immediate_ordered_numberp x \<longleftrightarrow>
    sexp_flonump (item_number x) \<or> sexp_bignump (item_number x) \<or> sexp_ratiop (item_number x)"

subsection \<open>The comparison\<close>

text \<open>Two immediates are compared by the difference of their words, as signed integers that wrap.\<close>

definition compare_immediates :: "u64 \<Rightarrow> u64 \<Rightarrow> int" where
  "compare_immediates a b = (if a = b then 0 else sint (a - b))"

text \<open>\<open>strcmp\<close> on the bytes up to the first zero byte; of its result only the sign is fixed.\<close>

fun c_strcmp :: "u8 list \<Rightarrow> u8 list \<Rightarrow> int" where
  "c_strcmp [] [] = 0"
| "c_strcmp (x # xs) [] = (if x = 0 then 0 else 1)"
| "c_strcmp [] (y # ys) = (if y = 0 then 0 else - 1)"
| "c_strcmp (x # xs) (y # ys) = (if x < y then - 1 else if y < x then 1 else if x = 0 then 0 else c_strcmp xs ys)"

text \<open>The result of the generic comparison is unboxed without a test: of an exception that is its address.\<close>

definition compare_value :: "'f order_env \<Rightarrow> 'f sexp \<Rightarrow> int" where
  "compare_value E r = sint (sexp_unbox_fixnum (case r of IMM w \<Rightarrow> w | _ \<Rightarrow> pointer_word E r))"

definition compare_numbers :: "'f order_env \<Rightarrow> 'f item \<Rightarrow> 'f item \<Rightarrow> int option" where
  "compare_numbers E a b = map_option (compare_value E) (r_compare (oe_arith E) (item_number a) (item_number b))"

text \<open>
  The loop over two lists, with the second pointer \<open>ls2\<close> into the first one, and what is done after it.  The
  loop ends when \<open>ls1\<close> and \<open>ls2\<close> are the same pair, which never happens in a tree.
\<close>

fun pair_loop ::
  "('f item \<Rightarrow> 'f item \<Rightarrow> int option) \<Rightarrow> int \<Rightarrow> 'f item \<Rightarrow> 'f item \<Rightarrow> 'f item \<Rightarrow> (int \<times> 'f item \<times> 'f item \<times> 'f item) option" where
  "pair_loop cmp res (KONS x ls1) ls2 (KONS y b) =
    (if res = 0 then do {
       res \<leftarrow> cmp x y;
       pair_loop cmp res ls1 (if item_pairp ls2 \<and> item_pairp (item_cdr ls2) then item_cdr ls2 else NULL_ITEM) b
     } else Some (res, KONS x ls1, ls2, KONS y b))"
| "pair_loop cmp res ls1 ls2 b = Some (res, ls1, ls2, b)"

definition compare_pairs :: "('f item \<Rightarrow> 'f item \<Rightarrow> int option) \<Rightarrow> 'f item \<Rightarrow> 'f item \<Rightarrow> int option" where
  "compare_pairs cmp a b =
    do {
      (res, ls1, ls2, b) \<leftarrow> pair_loop cmp 0 a (item_cdr a) b;
      (if item_pairp ls2 \<and> \<not> item_pairp b then Some 1
       else if item_pairp b \<and> \<not> item_pairp ls2 then Some (- 1)
       else if ls1 = NULL_ITEM \<and> b = NULL_ITEM then Some 0
       else if res = 0 then cmp ls1 b
       else Some res)
    }"

fun vector_loop :: "('f item \<Rightarrow> 'f item \<Rightarrow> int option) \<Rightarrow> 'f item list \<Rightarrow> 'f item list \<Rightarrow> int option" where
  "vector_loop cmp (x # xs) (y # ys) = do { res \<leftarrow> cmp x y; (if res = 0 then vector_loop cmp xs ys else Some res) }"
| "vector_loop cmp xs ys = Some 0"

definition compare_vectors :: "('f item \<Rightarrow> 'f item \<Rightarrow> int option) \<Rightarrow> 'f item list \<Rightarrow> 'f item list \<Rightarrow> int option" where
  "compare_vectors cmp xs ys =
    (let res = int (length xs) - int (length ys) in if res = 0 then vector_loop cmp xs ys else Some res)"

text \<open>Two objects with the same tag; \<open>cmp\<close> compares their parts.\<close>

definition compare_same_tag :: "'f order_env \<Rightarrow> ('f item \<Rightarrow> 'f item \<Rightarrow> int option) \<Rightarrow> 'f item \<Rightarrow> 'f item \<Rightarrow> int option" where
  "compare_same_tag E cmp a b =
    (case a of
       ATOM x \<Rightarrow>
         (case x of
            FLONUM f \<Rightarrow> let g = sexp_flonum_value (item_number b)
              in Some (if f_lt (oe_flo E) g f then 1 else if f_lt (oe_flo E) f g then - 1 else 0)
          | BIGNUM c \<Rightarrow> Some (sexp_bignum_compare c (bignum_object (item_number b)))
          | RATIO n d \<Rightarrow> map_option (compare_value E) (sexp_ratio_compare (oe_arith E) x (item_number b))
          | COMPLEX r i \<Rightarrow> do {
              res \<leftarrow> cmp (ATOM r) (ATOM (sexp_complex_real (item_number b)));
              (if res = 0 then cmp (ATOM i) (ATOM (sexp_complex_imag (item_number b))) else Some res)
            }
          | _ \<Rightarrow> Some 0)
     | TEXT s \<Rightarrow> Some (c_strcmp s (item_text b))
     | LSYMBOL s \<Rightarrow> Some (c_strcmp s (item_text b))
     | KONS x y \<Rightarrow> compare_pairs cmp a b
     | VEC xs \<Rightarrow> compare_vectors cmp xs (item_elements b))"

text \<open>One call; \<open>deep\<close> is whether its depth is positive.\<close>

definition object_compare_step ::
  "'f order_env \<Rightarrow> bool \<Rightarrow> ('f item \<Rightarrow> 'f item \<Rightarrow> int option) \<Rightarrow> 'f item \<Rightarrow> 'f item \<Rightarrow> int option" where
  "object_compare_step E deep cmp a b =
    (case (immediate_of a, immediate_of b) of
       (None, None) \<Rightarrow>
         if item_tag a = item_tag b then (if \<not> deep then Some 0 else compare_same_tag E cmp a b)
         else if sexp_non_immediate_ordered_numberp a \<and> sexp_non_immediate_ordered_numberp b then compare_numbers E a b
         else Some (int (item_tag a) - int (item_tag b))
     | (None, Some w) \<Rightarrow>
         if sexp_fixnump_w w \<and> sexp_non_immediate_ordered_numberp a then compare_numbers E a b
         else if sexp_isymbolp w \<and> item_lsymbolp a then Some (c_strcmp (item_text a) (isymbol_text E w))
         else Some 1
     | (Some v, None) \<Rightarrow>
         if sexp_fixnump_w v \<and> sexp_non_immediate_ordered_numberp b then compare_numbers E a b
         else if sexp_isymbolp v \<and> item_lsymbolp b then Some (c_strcmp (isymbol_text E v) (item_text b))
         else Some (- 1)
     | (Some v, Some w) \<Rightarrow>
         if v \<noteq> w \<and> sexp_isymbolp v \<and> sexp_isymbolp w then Some (isymbol_compare E v w)
         else Some (compare_immediates v w))"

fun sexp_object_compare :: "'f order_env \<Rightarrow> nat \<Rightarrow> 'f item \<Rightarrow> 'f item \<Rightarrow> int option" where
  "sexp_object_compare E 0 a b = object_compare_step E False (\<lambda>x y. None) a b"
| "sexp_object_compare E (Suc depth) a b = object_compare_step E True (sexp_object_compare E depth) a b"

definition COMPARE_DEPTH :: nat where "COMPARE_DEPTH = 5"

definition sexp_object_compare_op :: "'f order_env \<Rightarrow> 'f item \<Rightarrow> 'f item \<Rightarrow> 'f item option" where
  "sexp_object_compare_op E a b = map_option (\<lambda>c. ATOM (make_fixnum (word_of_int c))) (sexp_object_compare E COMPARE_DEPTH a b)"

subsection \<open>The order on exact integers\<close>

lemma compare_fixnums:
  assumes "\<bar>m - n\<bar> < 2 ^ 62"
  shows "compare_immediates (fixnum_word m) (fixnum_word n) = 2 * (m - n)"
proof -
  have "fixnum_word m - fixnum_word n = word_of_int (2 * (m - n))" by (simp add: fixnum_word_alt)
  moreover have "sint (word_of_int (2 * (m - n)) :: u64) = 2 * (m - n)"
    using assms by (intro sint_signed_word) (simp_all add: abs_if split: if_splits)
  ultimately show ?thesis
    by (auto simp: compare_immediates_def)
qed

text \<open>Fixnums further apart compare the wrong way round, since the difference wraps.\<close>

lemma compare_fixnums_wrong:
  assumes "fits_fixnum m" "fits_fixnum n" "2 ^ 62 \<le> m - n"
  shows "compare_immediates (fixnum_word m) (fixnum_word n) < 0"
proof -
  have d: "2 * (m - n) - 2 ^ 64 < 0" "- (2 ^ 63) \<le> 2 * (m - n) - 2 ^ 64" using assms by (simp_all add: fits_fixnum_def)
  have w: "(word_of_int (2 * (m - n)) :: u64) = word_of_int (2 * (m - n) - 2 ^ 64)"
    by (simp only: word_of_int_eq_iff take_bit_eq_mod) simp
  have "fixnum_word m - fixnum_word n = word_of_int (2 * (m - n))" by (simp add: fixnum_word_alt)
  then have s: "sint (fixnum_word m - fixnum_word n) = 2 * (m - n) - 2 ^ 64"
    unfolding w using d by (simp only:) (rule sint_signed_word, linarith+)
  have "fixnum_word m \<noteq> fixnum_word n" using s d by auto
  with s d show ?thesis by (simp add: compare_immediates_def)
qed

text \<open>The integers that are ordered by value: no two fixnums among them are \<open>2 ^ 62\<close> or more apart.\<close>

definition integer_item :: "'f item \<Rightarrow> bool" where
  "integer_item x \<longleftrightarrow> (\<exists>r. x = ATOM r \<and> norm_int r \<and> addressable r)"

definition item_int :: "'f item \<Rightarrow> int" where "item_int x = int_val (item_number x)"

definition near_fixnums :: "'f item set \<Rightarrow> bool" where
  "near_fixnums A \<longleftrightarrow> (\<forall>x \<in> A. \<forall>y \<in> A. fits_fixnum (item_int x) \<longrightarrow> fits_fixnum (item_int y) \<longrightarrow> \<bar>item_int x - item_int y\<bar> < 2 ^ 62)"

lemma fixnum_no_isymbol: "\<not> sexp_isymbolp (fixnum_word k)"
proof -
  have "odd (fixnum_word k)" by (simp add: fixnum_word_alt)
  then have "odd (fixnum_word k AND 15)" by (simp add: even_and_iff)
  then show ?thesis by (auto simp: sexp_isymbolp_def)
qed

lemma integer_item_cases:
  assumes "integer_item x"
  obtains (fix_item) k where "fits_fixnum k" "x = ATOM (fixnum_obj k)" "item_int x = k"
  | (big_item) c where "x = ATOM (BIGNUM c)" "bignum_ok c" "bn_int c \<noteq> 0" "item_int x = bn_int c"
proof -
  obtain r where r: "x = ATOM r" "norm_int r" using assms by (auto simp: integer_item_def)
  then have "exact_int r" by (simp add: norm_int_def)
  then show thesis
  proof (cases rule: exact_int_cases)
    case (fx k)
    then show thesis using r by (intro fix_item [of k]) (simp_all add: item_int_def)
  next
    case (bg c)
    then show thesis using r by (intro big_item [of c]) (auto simp: item_int_def norm_int_def fits_fixnum_def)
  qed
qed

lemma compare_numbers_sign:
  assumes "oe_arith E = arith F (Suc (Suc n))" "norm_int x" "norm_int y" "addressable x" "addressable y" "\<not> (sexp_fixnump x \<and> sexp_fixnump y)"
  shows "\<exists>c. compare_numbers E (ATOM x) (ATOM y) = Some c \<and> sgn c = sgn (int_val x - int_val y)"
proof -
  have "returns_sign (sexp_compare F (arith F (Suc n)) x y) (int_val x - int_val y)"
    using assms by (intro compare_int) auto
  then obtain m where m: "r_compare (oe_arith E) x y = Some (fixnum_obj m)" "fits_fixnum m" "sgn m = sgn (int_val x - int_val y)"
    unfolding assms(1) by (auto simp: arith_simps returns_sign_def)
  have "compare_value E (fixnum_obj m) = m"
    using m(2) by (simp add: compare_value_def fixnum_obj_def word_unbox sint_fits)
  then show ?thesis using m by (intro exI [of _ m]) (simp add: compare_numbers_def)
qed

lemma object_compare_integers:
  assumes E: "oe_arith E = arith F (Suc (Suc n))" and x: "integer_item x" and y: "integer_item y"
    and near: "fits_fixnum (item_int x) \<Longrightarrow> fits_fixnum (item_int y) \<Longrightarrow> \<bar>item_int x - item_int y\<bar> < 2 ^ 62"
  obtains c where "sexp_object_compare E (Suc d) x y = Some c" "sgn c = sgn (item_int x - item_int y)"
proof -
  have sign: "\<exists>c. compare_numbers E x y = Some c \<and> sgn c = sgn (item_int x - item_int y)"
    if "\<not> (sexp_fixnump (item_number x) \<and> sexp_fixnump (item_number y))"
  proof -
    obtain r r' where "x = ATOM r" "norm_int r" "addressable r" "y = ATOM r'" "norm_int r'" "addressable r'"
      using x y by (auto simp: integer_item_def)
    then show ?thesis using compare_numbers_sign [OF E, of r r'] that by (simp add: item_int_def)
  qed
  have "\<exists>c. sexp_object_compare E (Suc d) x y = Some c \<and> sgn c = sgn (item_int x - item_int y)"
    using x
  proof (cases rule: integer_item_cases)
    case a: (fix_item k)
    show ?thesis using y
    proof (cases rule: integer_item_cases)
      case b: (fix_item l)
      then have "\<bar>k - l\<bar> < 2 ^ 62" using near a by simp
      then have "sexp_object_compare E (Suc d) x y = Some (2 * (k - l))"
        using a b compare_fixnums [of k l] by (simp add: object_compare_step_def fixnum_obj_def fixnum_no_isymbol)
      then show ?thesis using a b by (simp add: sgn_if)
    next
      case b: (big_item c)
      then show ?thesis using a sign
        by (simp add: object_compare_step_def fixnum_obj_def sexp_non_immediate_ordered_numberp_def)
    qed
  next
    case a: (big_item c)
    show ?thesis using y
    proof (cases rule: integer_item_cases)
      case b: (fix_item l)
      then show ?thesis using a sign
        by (simp add: object_compare_step_def fixnum_obj_def sexp_non_immediate_ordered_numberp_def)
    next
      case b: (big_item e)
      then show ?thesis using a compare_big_val [of c e] by (simp add: object_compare_step_def compare_same_tag_def)
    qed
  qed
  then show thesis using that by blast
qed

subsection \<open>Lists are compared wrongly\<close>

text \<open>
  After the loop over two lists its result is dropped when the lists end there: lists of one
  element always compare as equal, and lists of two elements that differ in the first compare as less both ways.
\<close>

lemma short_lists_wrong:
  assumes "sexp_object_compare E d x y = Some c"
  shows "sexp_object_compare E (Suc d) (KONS x NULL_ITEM) (KONS y NULL_ITEM) = Some 0"
    and "c \<noteq> 0 \<Longrightarrow> sexp_object_compare E (Suc d) (KONS x (KONS u NULL_ITEM)) (KONS y (KONS v NULL_ITEM)) = Some (- 1)"
  using assms
  by (simp_all add: object_compare_step_def compare_same_tag_def compare_pairs_def NULL_ITEM_def SEXP_MAKE_IMMEDIATE_def)

end
