(* ===== verification/Sort.thy ===== *)
theory Sort
  imports Order "HOL-Library.Multiset"
begin

text \<open>
  Sorting, \<^verbatim>\<open>lib/srfi/95/qsort.c\<close>: the merge sort on vectors with its scratch vector, in the version for the
  built-in order of objects and in the one that calls a key and a comparison procedure.  A procedure
  is a function that also changes a state, the rest of the world, which is passed from call to call; it returns an
  object, which may be an exception.  The vector that is being sorted is not part of that state: procedures
  that assign it, or the list that is sorted, are not modelled.
\<close>

subsection \<open>Calling the procedures\<close>

fun item_exceptionp :: "'f item \<Rightarrow> bool" where
  "item_exceptionp (ATOM x) = sexp_exceptionp x"
| "item_exceptionp x = False"

definition item_truep :: "'f item \<Rightarrow> bool" where
  "item_truep x \<longleftrightarrow> x \<noteq> ATOM SEXP_FALSE"

text \<open>
  \<open>if_is_less\<close>: the keys of the two elements, then the comparison; the first exception ends the sort, also one
  that is an element itself when there is no key.
\<close>

definition if_is_less ::
  "('f item \<Rightarrow> 's \<Rightarrow> 'f item \<times> 's) \<Rightarrow> ('f item \<Rightarrow> 'f item \<Rightarrow> 's \<Rightarrow> 'f item \<times> 's) \<Rightarrow> 'f item \<Rightarrow> 'f item \<Rightarrow> 's \<Rightarrow> ('f item + bool) \<times> 's" where
  "if_is_less key test x y st =
    (case key x st of (a, st) \<Rightarrow>
       if item_exceptionp a then (Inl a, st)
       else case key y st of (b, st) \<Rightarrow>
         if item_exceptionp b then (Inl b, st)
         else case test a b st of (res, st) \<Rightarrow>
           if item_exceptionp res then (Inl res, st) else (Inr (item_truep res), st))"

subsection \<open>The merge sort with a comparison procedure\<close>

definition swap :: "'a list \<Rightarrow> nat \<Rightarrow> nat \<Rightarrow> 'a list" where
  "swap vec i j = vec[i := vec ! j, j := vec ! i]"

text \<open>The case of two elements, which the case of three falls into.\<close>

definition sort_two :: "('a \<Rightarrow> 'a \<Rightarrow> 's \<Rightarrow> ('e + bool) \<times> 's) \<Rightarrow> 'a list \<Rightarrow> int \<Rightarrow> int \<Rightarrow> 's \<Rightarrow> ('e + unit) \<times> 'a list \<times> 's" where
  "sort_two lt vec lo hi st =
    (let l = nat lo
     in case lt (vec ! (l + 1)) (vec ! l) st of
          (Inl e, st) \<Rightarrow> (Inl e, vec, st)
        | (Inr False, st) \<Rightarrow> (Inr (), vec, st)
        | (Inr True, st) \<Rightarrow>
            let vec = swap vec (l + 1) l
            in if hi - lo > 1 then
                 case lt (vec ! (l + 2)) (vec ! (l + 1)) st of
                   (Inl e, st) \<Rightarrow> (Inl e, vec, st)
                 | (Inr b, st) \<Rightarrow> (Inr (), if b then swap vec (l + 2) (l + 1) else vec, st)
               else (Inr (), vec, st))"

definition sort_three :: "('a \<Rightarrow> 'a \<Rightarrow> 's \<Rightarrow> ('e + bool) \<times> 's) \<Rightarrow> 'a list \<Rightarrow> int \<Rightarrow> int \<Rightarrow> 's \<Rightarrow> ('e + unit) \<times> 'a list \<times> 's" where
  "sort_three lt vec lo hi st =
    (case lt (vec ! nat hi) (vec ! nat (hi - 1)) st of
       (Inl e, st) \<Rightarrow> (Inl e, vec, st)
     | (Inr b, st) \<Rightarrow> sort_two lt (if b then swap vec (nat hi) (nat (hi - 1)) else vec) lo hi st)"

text \<open>The merge of \<open>vec[i..mid]\<close> and \<open>vec[j..hi]\<close> into the scratch vector from \<open>k\<close> on.\<close>

function merge_loop ::
  "('a \<Rightarrow> 'a \<Rightarrow> 's \<Rightarrow> ('e + bool) \<times> 's) \<Rightarrow> 'a list \<Rightarrow> 'a list \<Rightarrow> int \<Rightarrow> int \<Rightarrow> int \<Rightarrow> int \<Rightarrow> int \<Rightarrow> 's
    \<Rightarrow> ('e + unit) \<times> 'a list \<times> 's" where
  "merge_loop lt vec scratch mid hi k i j st =
    (if k \<le> hi then
       if i > mid then merge_loop lt vec (scratch[nat k := vec ! nat j]) mid hi (k + 1) i (j + 1) st
       else if j > hi then merge_loop lt vec (scratch[nat k := vec ! nat i]) mid hi (k + 1) (i + 1) j st
       else case lt (vec ! nat j) (vec ! nat i) st of
              (Inl e, st) \<Rightarrow> (Inl e, scratch, st)
            | (Inr True, st) \<Rightarrow> merge_loop lt vec (scratch[nat k := vec ! nat j]) mid hi (k + 1) i (j + 1) st
            | (Inr False, st) \<Rightarrow> merge_loop lt vec (scratch[nat k := vec ! nat i]) mid hi (k + 1) (i + 1) j st
     else (Inr (), scratch, st))"
  by pat_completeness auto
termination by (relation "measure (\<lambda>(lt, vec, scratch, mid, hi, k, i, j, st). nat (hi + 1 - k))") auto

declare merge_loop.simps [simp del]

definition copy_back :: "'a list \<Rightarrow> 'a list \<Rightarrow> int \<Rightarrow> int \<Rightarrow> 'a list" where
  "copy_back vec scratch lo hi =
    take (nat lo) vec @ take (nat (hi - lo + 1)) (drop (nat lo) scratch) @ drop (nat (hi + 1)) vec"

partial_function (option) sexp_merge_sort_less ::
  "('a \<Rightarrow> 'a \<Rightarrow> 's \<Rightarrow> ('e + bool) \<times> 's) \<Rightarrow> 'a list \<Rightarrow> 'a list \<Rightarrow> int \<Rightarrow> int \<Rightarrow> 's
    \<Rightarrow> (('e + unit) \<times> 'a list \<times> 'a list \<times> 's) option" where
  [code]: "sexp_merge_sort_less lt vec scratch lo hi st =
    (if hi - lo = 0 then Some (Inr (), vec, scratch[nat lo := vec ! nat lo], st)
     else if hi - lo = 2 then (case sort_three lt vec lo hi st of (res, vec, st) \<Rightarrow> Some (res, vec, scratch, st))
     else if hi - lo = 1 then (case sort_two lt vec lo hi st of (res, vec, st) \<Rightarrow> Some (res, vec, scratch, st))
     else do {
       let mid = c_div (hi + lo) 2;
       (res, vec, scratch, st) \<leftarrow> sexp_merge_sort_less lt vec scratch lo mid st;
       (if isl res then Some (res, vec, scratch, st)
        else do {
          (res, vec, scratch, st) \<leftarrow> sexp_merge_sort_less lt vec scratch (mid + 1) hi st;
          (if isl res then Some (res, vec, scratch, st)
           else (case merge_loop lt vec scratch mid hi lo lo (mid + 1) st of
               (Inl e, scratch, st) \<Rightarrow> Some (Inl e, vec, scratch, st)
             | (Inr u, scratch, st) \<Rightarrow> Some (Inr u, copy_back vec scratch lo hi, scratch, st)))
        })
     })"

subsection \<open>The merge sort on the built-in order\<close>

text \<open>
  A comparison is \<open>None\<close> when it does not return; then the sort does not return either.
\<close>

definition object_less :: "('a \<Rightarrow> 'a \<Rightarrow> int option) \<Rightarrow> 'a \<Rightarrow> 'a \<Rightarrow> unit \<Rightarrow> (unit + bool) \<times> unit" where
  "object_less cmp x y st = ((case cmp x y of None \<Rightarrow> Inl () | Some c \<Rightarrow> Inr (c < 0)), st)"

fun completed :: "(unit + unit) \<times> 'a \<times> unit \<Rightarrow> 'a option" where
  "completed (Inl e, x, st) = None"
| "completed (Inr u, x, st) = Some x"

partial_function (option) sexp_merge_sort ::
  "('a \<Rightarrow> 'a \<Rightarrow> int option) \<Rightarrow> 'a list \<Rightarrow> 'a list \<Rightarrow> int \<Rightarrow> int \<Rightarrow> ('a list \<times> 'a list) option" where
  [code]: "sexp_merge_sort cmp vec scratch lo hi =
    (if hi - lo = 0 then Some (vec, scratch[nat lo := vec ! nat lo])
     else if hi - lo = 2 then map_option (\<lambda>vec. (vec, scratch)) (completed (sort_three (object_less cmp) vec lo hi ()))
     else if hi - lo = 1 then map_option (\<lambda>vec. (vec, scratch)) (completed (sort_two (object_less cmp) vec lo hi ()))
     else do {
       let mid = c_div (hi + lo) 2;
       (vec, scratch) \<leftarrow> sexp_merge_sort cmp vec scratch lo mid;
       (vec, scratch) \<leftarrow> sexp_merge_sort cmp vec scratch (mid + 1) hi;
       scratch \<leftarrow> completed (merge_loop (object_less cmp) vec scratch mid hi lo lo (mid + 1) ());
       Some (copy_back vec scratch lo hi, scratch)
     })"

subsection \<open>\<open>sort!\<close>\<close>

datatype 'a seq = NULL_SEQ | LIST_SEQ "'a list" | EMPTY_VECTOR | VECTOR_SEQ "'a list" | NOT_A_SEQ

datatype ('a, 's) comparator =
    NO_LESS | CMP_OPCODE bool "'a \<Rightarrow> 'a \<Rightarrow> 's \<Rightarrow> 'a \<times> 's" | LESS_PROC "'a \<Rightarrow> 'a \<Rightarrow> 's \<Rightarrow> 'a \<times> 's" | NOT_LESS

datatype ('a, 's) sort_key = NO_KEY | KEY_PROC "'a \<Rightarrow> 's \<Rightarrow> 'a \<times> 's" | NOT_KEY

datatype 'e sort_exn = Not_a_vector | Not_a_procedure | Raised 'e

fun sexp_basic_comparator :: "('a, 's) comparator \<Rightarrow> bool" where
  "sexp_basic_comparator NO_LESS = True"
| "sexp_basic_comparator (CMP_OPCODE rev_op call) = True"
| "sexp_basic_comparator op = False"

text \<open>The loop that swaps the ends of the part from \<open>i\<close> to \<open>j\<close>.\<close>

function nreverse_loop :: "'a list \<Rightarrow> int \<Rightarrow> int \<Rightarrow> 'a list" where
  "nreverse_loop data i j = (if i < j then nreverse_loop (swap data (nat i) (nat j)) (i + 1) (j - 1) else data)"
  by auto
termination by (relation "measure (\<lambda>(data, i, j). nat (j - i))") auto

declare nreverse_loop.simps [simp del]

definition sexp_vector_nreverse :: "'a list \<Rightarrow> 'a list" where
  "sexp_vector_nreverse vec = nreverse_loop vec 0 (int (length vec) - 1)"

text \<open>The elements of the vector are stored into the pairs of the list, from the first on.\<close>

fun sexp_vector_copy_to_list :: "'a list \<Rightarrow> 'a list \<Rightarrow> 'a list" where
  "sexp_vector_copy_to_list (d # data) (x # ls) = d # sexp_vector_copy_to_list data ls"
| "sexp_vector_copy_to_list data ls = ls"

fun inverse_opcode :: "('a, 's) comparator \<Rightarrow> bool" where
  "inverse_opcode (CMP_OPCODE rev_op call) = rev_op"
| "inverse_opcode op = False"

fun procedure_of :: "('a, 's) comparator \<Rightarrow> ('a \<Rightarrow> 'a \<Rightarrow> 's \<Rightarrow> 'a \<times> 's) option" where
  "procedure_of (CMP_OPCODE rev_op call) = Some call"
| "procedure_of (LESS_PROC call) = Some call"
| "procedure_of op = None"

fun key_of :: "('a, 's) sort_key \<Rightarrow> ('a \<Rightarrow> 's \<Rightarrow> 'a \<times> 's) option" where
  "key_of NO_KEY = Some Pair"
| "key_of (KEY_PROC key) = Some key"
| "key_of NOT_KEY = None"

fun no_key :: "('a, 's) sort_key \<Rightarrow> bool" where
  "no_key NO_KEY = True"
| "no_key key = False"

text \<open>The vector that is sorted, or \<open>None\<close> when the argument is neither a list nor a vector.\<close>

fun vector_of :: "'a seq \<Rightarrow> 'a list option" where
  "vector_of (LIST_SEQ xs) = Some xs"
| "vector_of (VECTOR_SEQ xs) = Some xs"
| "vector_of s = None"

text \<open>
  The result of the sort of a vector: the exception or the vector that is returned, the vector in
  place, and the state of the world.  The fresh scratch vector is filled with void.
\<close>

definition sort_vector ::
  "'f order_env \<Rightarrow> 'f item list \<Rightarrow> ('f item, 's) comparator \<Rightarrow> ('f item, 's) sort_key \<Rightarrow> 's
    \<Rightarrow> (('f item sort_exn + 'f item list) \<times> 'f item list \<times> 's) option" where
  "sort_vector E vec less_op key st =
    (let scratch = replicate (length vec) (ATOM SEXP_VOID); hi = int (length vec) - 1
     in if no_key key \<and> sexp_basic_comparator less_op then do {
          (vec, scratch) \<leftarrow> sexp_merge_sort (sexp_object_compare E COMPARE_DEPTH) vec scratch 0 hi;
          let vec = (if inverse_opcode less_op then sexp_vector_nreverse vec else vec);
          Some (Inr vec, vec, st)
        }
        else case procedure_of less_op of None \<Rightarrow> Some (Inl Not_a_procedure, vec, st)
          | Some test \<Rightarrow> (case key_of key of None \<Rightarrow> Some (Inl Not_a_procedure, vec, st)
              | Some key \<Rightarrow> do {
                  (res, vec, scratch, st) \<leftarrow> sexp_merge_sort_less (if_is_less key test) vec scratch 0 hi st;
                  Some (case res of Inl e \<Rightarrow> Inl (Raised e) | Inr _ \<Rightarrow> Inr scratch, vec, st)
                }))"

definition sexp_sort_x ::
  "'f order_env \<Rightarrow> 'f item seq \<Rightarrow> ('f item, 's) comparator \<Rightarrow> ('f item, 's) sort_key \<Rightarrow> 's
    \<Rightarrow> (('f item sort_exn + 'f item seq) \<times> 'f item seq \<times> 's) option" where
  "sexp_sort_x E s less_op key st =
    (if s = NULL_SEQ \<or> s = EMPTY_VECTOR then Some (Inr s, s, st)
     else case vector_of s of None \<Rightarrow> Some (Inl Not_a_vector, s, st)
       | Some vec \<Rightarrow> do {
           (res, vec, st) \<leftarrow> sort_vector E vec less_op key st;
           Some (case res of
                   Inl e \<Rightarrow> (Inl e, case s of VECTOR_SEQ _ \<Rightarrow> VECTOR_SEQ vec | _ \<Rightarrow> s, st)
                 | Inr res \<Rightarrow>
                     (case s of
                        LIST_SEQ ls \<Rightarrow> let ls = sexp_vector_copy_to_list vec ls in (Inr (LIST_SEQ ls), LIST_SEQ ls, st)
                      | _ \<Rightarrow> (Inr (VECTOR_SEQ res), VECTOR_SEQ vec, st)))
         })"


subsection \<open>Merging\<close>

text \<open>What the merge loop writes, up to the first exception.\<close>

fun merge_lists :: "('a \<Rightarrow> 'a \<Rightarrow> 's \<Rightarrow> ('e + bool) \<times> 's) \<Rightarrow> 'a list \<Rightarrow> 'a list \<Rightarrow> 's \<Rightarrow> ('e + unit) \<times> 'a list \<times> 's" where
  "merge_lists lt [] [] st = (Inr (), [], st)"
| "merge_lists lt [] (y # ys) st = apsnd (apfst ((#) y)) (merge_lists lt [] ys st)"
| "merge_lists lt (x # xs) [] st = apsnd (apfst ((#) x)) (merge_lists lt xs [] st)"
| "merge_lists lt (x # xs) (y # ys) st =
    (case lt y x st of
       (Inl e, st) \<Rightarrow> (Inl e, [], st)
     | (Inr True, st) \<Rightarrow> apsnd (apfst ((#) y)) (merge_lists lt (x # xs) ys st)
     | (Inr False, st) \<Rightarrow> apsnd (apfst ((#) x)) (merge_lists lt xs (y # ys) st))"

lemma merge_lists_perm:
  "\<not> isl (fst (merge_lists lt xs ys st)) \<Longrightarrow> mset (fst (snd (merge_lists lt xs ys st))) = mset xs + mset ys"
  by (induction lt xs ys st rule: merge_lists.induct) (auto split: sum.splits bool.splits prod.splits)

text \<open>
  The loop on vectors \<open>A @ us @ B @ vs @ C\<close>, of which \<open>A\<close> and \<open>B\<close> have been merged into \<open>S\<close>.
\<close>

lemma merge_loop_take:
  assumes "vec = A @ us @ B @ vs @ C" "i = int (length A)" "mid = i + int (length us) - 1"
    "j = mid + 1 + int (length B)" "hi = j + int (length vs) - 1" "k = int (length S)" "length S = length A + length B"
    "length ts = length us + length vs"
  shows "us = [] \<Longrightarrow> vs = [] \<Longrightarrow> merge_loop lt vec (S @ ts @ R) mid hi k i j st = (Inr (), S @ ts @ R, st)"
    and "us = [] \<Longrightarrow> vs = v # vs' \<Longrightarrow>
      merge_loop lt vec (S @ ts @ R) mid hi k i j st = merge_loop lt vec ((S @ [v]) @ tl ts @ R) mid hi (k + 1) i (j + 1) st"
    and "us = u # us' \<Longrightarrow> vs = [] \<Longrightarrow>
      merge_loop lt vec (S @ ts @ R) mid hi k i j st = merge_loop lt vec ((S @ [u]) @ tl ts @ R) mid hi (k + 1) (i + 1) j st"
    and "us = u # us' \<Longrightarrow> vs = v # vs' \<Longrightarrow> merge_loop lt vec (S @ ts @ R) mid hi k i j st =
      (case lt v u st of (Inl e, st) \<Rightarrow> (Inl e, S @ ts @ R, st)
       | (Inr True, st) \<Rightarrow> merge_loop lt vec ((S @ [v]) @ tl ts @ R) mid hi (k + 1) i (j + 1) st
       | (Inr False, st) \<Rightarrow> merge_loop lt vec ((S @ [u]) @ tl ts @ R) mid hi (k + 1) (i + 1) j st)"
proof -
  have j: "nat j = length A + length us + length B" "nat i = length A" "nat k = length S" using assms by linarith+
  have at: "vec ! nat j = v" if "vs = v # vs'" for v vs'
    unfolding j assms(1) that by (simp add: nth_append)
  have at': "vec ! nat i = u" if "us = u # us'" for u us'
    unfolding j assms(1) that by (simp add: nth_append)
  have up: "(S @ ts @ R)[nat k := x] = (S @ [x]) @ tl ts @ R" if "us \<noteq> [] \<or> vs \<noteq> []" for x
    using assms(8) that unfolding j by (cases ts) auto
  have c: "k \<le> hi \<longleftrightarrow> us \<noteq> [] \<or> vs \<noteq> []" "mid < i \<longleftrightarrow> us = []" "hi < j \<longleftrightarrow> vs = []"
    using assms(2-7) by (cases us; cases vs; simp)+
  show "us = [] \<Longrightarrow> vs = [] \<Longrightarrow> merge_loop lt vec (S @ ts @ R) mid hi k i j st = (Inr (), S @ ts @ R, st)"
    using c by (subst merge_loop.simps) simp
  show "merge_loop lt vec (S @ ts @ R) mid hi k i j st = merge_loop lt vec ((S @ [v]) @ tl ts @ R) mid hi (k + 1) i (j + 1) st"
    if "us = []" "vs = v # vs'"
    using c that at [OF that(2)] up by (subst merge_loop.simps) simp
  show "merge_loop lt vec (S @ ts @ R) mid hi k i j st = merge_loop lt vec ((S @ [u]) @ tl ts @ R) mid hi (k + 1) (i + 1) j st"
    if "us = u # us'" "vs = []"
    using c that at' [OF that(1)] up by (subst merge_loop.simps) simp
  show "merge_loop lt vec (S @ ts @ R) mid hi k i j st =
      (case lt v u st of (Inl e, st) \<Rightarrow> (Inl e, S @ ts @ R, st)
       | (Inr True, st) \<Rightarrow> merge_loop lt vec ((S @ [v]) @ tl ts @ R) mid hi (k + 1) i (j + 1) st
       | (Inr False, st) \<Rightarrow> merge_loop lt vec ((S @ [u]) @ tl ts @ R) mid hi (k + 1) (i + 1) j st)"
    if "us = u # us'" "vs = v # vs'"
    using c that at [OF that(2)] at' [OF that(1)] up
    by (subst merge_loop.simps) (simp split: sum.splits bool.splits prod.splits)
qed

definition merged :: "('e + unit) \<times> 'a list \<times> 's \<Rightarrow> 'a list \<Rightarrow> nat \<Rightarrow> 'a list \<Rightarrow> ('e + unit) \<times> 'a list \<times> 's \<Rightarrow> bool" where
  "merged out S n R r \<longleftrightarrow>
    (\<exists>ws. out = (fst r, S @ ws @ R, snd (snd r)) \<and> length ws = n \<and> (\<not> isl (fst r) \<longrightarrow> ws = fst (snd r)))"

lemma merged_Cons: "merged out (S @ [x]) n R r \<Longrightarrow> merged out S (Suc n) R (apsnd (apfst ((#) x)) r)"
  unfolding merged_def by (elim exE, rename_tac ws, rule_tac x = "x # ws" in exI) auto

lemma merge_loop_lists:
  assumes "vec = A @ us @ B @ vs @ C" "i = int (length A)" "mid = i + int (length us) - 1"
    "j = mid + 1 + int (length B)" "hi = j + int (length vs) - 1" "k = int (length S)" "length S = length A + length B"
    "length ts = length us + length vs"
  shows "merged (merge_loop lt vec (S @ ts @ R) mid hi k i j st) S (length ts) R (merge_lists lt us vs st)"
  using assms
proof (induction lt us vs st arbitrary: A B S ts i j k rule: merge_lists.induct)
  case (1 lt st)
  then show ?case using merge_loop_take(1) [OF "1.prems"] by (simp add: merged_def)
next
  case (2 lt y ys st)
  have "merged (merge_loop lt vec ((S @ [y]) @ tl ts @ R) mid hi (k + 1) i (j + 1) st) (S @ [y]) (length (tl ts)) R (merge_lists lt [] ys st)"
    using "2.prems" by (intro "2.IH" [where A = A and B = "B @ [y]"]) (auto simp: algebra_simps)
  with merge_loop_take(2) [OF "2.prems" refl refl, of lt R st] "2.prems"(8) show ?case
    by (auto dest: merged_Cons)
next
  case (3 lt x xs st)
  have "merged (merge_loop lt vec ((S @ [x]) @ tl ts @ R) mid hi (k + 1) (i + 1) j st) (S @ [x]) (length (tl ts)) R (merge_lists lt xs [] st)"
    using "3.prems" by (intro "3.IH" [where A = "A @ [x]" and B = B]) (auto simp: algebra_simps)
  with merge_loop_take(3) [OF "3.prems" refl refl, of lt R st] "3.prems"(8) show ?case
    by (auto dest: merged_Cons)
next
  case (4 lt x xs y ys st)
  note step = merge_loop_take(4) [OF "4.prems" refl refl, of lt R st]
  obtain r st' where r: "lt y x st = (r, st')" by fastforce
  consider e where "r = Inl e" | "r = Inr True" | "r = Inr False"
    by (metis (full_types) sumE)
  then show ?case
  proof cases
    case 1
    then show ?thesis using step r by (simp add: merged_def)
  next
    case 2
    have "merged (merge_loop lt vec ((S @ [y]) @ tl ts @ R) mid hi (k + 1) i (j + 1) st') (S @ [y]) (length (tl ts)) R
        (merge_lists lt (x # xs) ys st')"
      using "4.prems" 2 r by (intro "4.IH"(1) [where A = A and B = "B @ [y]", OF r [symmetric]]) (auto simp: algebra_simps)
    then show ?thesis using step 2 r "4.prems"(8) by (auto dest: merged_Cons)
  next
    case 3
    have "merged (merge_loop lt vec ((S @ [x]) @ tl ts @ R) mid hi (k + 1) (i + 1) j st') (S @ [x]) (length (tl ts)) R
        (merge_lists lt xs (y # ys) st')"
      using "4.prems" 3 r by (intro "4.IH"(2) [where A = "A @ [x]" and B = B, OF r [symmetric]]) (auto simp: algebra_simps)
    then show ?thesis using step 3 r "4.prems"(8) by (auto dest: merged_Cons)
  qed
qed

subsection \<open>Orders\<close>

text \<open>The merge by a comparison that raises no exception.\<close>

fun merge_by :: "('a \<Rightarrow> 'a \<Rightarrow> bool) \<Rightarrow> 'a list \<Rightarrow> 'a list \<Rightarrow> 'a list" where
  "merge_by lt [] ys = ys"
| "merge_by lt xs [] = xs"
| "merge_by lt (x # xs) (y # ys) =
    (if lt y x then y # merge_by lt (x # xs) ys else x # merge_by lt xs (y # ys))"

text \<open>A comparison that answers by \<open>p\<close> on the elements \<open>A\<close>, whatever it does to the state.\<close>

definition answers :: "('a \<Rightarrow> 'a \<Rightarrow> 's \<Rightarrow> ('e + bool) \<times> 's) \<Rightarrow> ('a \<Rightarrow> 'a \<Rightarrow> bool) \<Rightarrow> 'a set \<Rightarrow> bool" where
  "answers lt p A \<longleftrightarrow> (\<forall>x \<in> A. \<forall>y \<in> A. \<forall>st. fst (lt x y st) = Inr (p x y))"

lemma answers_subset: "answers lt p A \<Longrightarrow> B \<subseteq> A \<Longrightarrow> answers lt p B"
  unfolding answers_def by blast

lemma answersD: "answers lt p A \<Longrightarrow> x \<in> A \<Longrightarrow> y \<in> A \<Longrightarrow> lt x y st = (r, st') \<Longrightarrow> r = Inr (p x y)"
  unfolding answers_def by (metis fst_conv)

lemma merge_lists_left: "merge_lists lt [] ys st = (Inr (), ys, st)"
  by (induction ys) simp_all

lemma merge_lists_right: "merge_lists lt xs [] st = (Inr (), xs, st)"
  by (induction xs) simp_all

lemma merge_lists_total:
  "answers lt p (set xs \<union> set ys) \<Longrightarrow> \<exists>st'. merge_lists lt xs ys st = (Inr (), merge_by p xs ys, st')"
proof (induction p xs ys arbitrary: st rule: merge_by.induct)
  case (3 p x xs y ys)
  obtain r st' where r: "lt y x st = (r, st')" by fastforce
  then have "r = Inr (p y x)" using answersD [OF "3.prems", of y x] by simp
  moreover have "answers lt p (set (x # xs) \<union> set ys)" "answers lt p (set xs \<union> set (y # ys))"
    by (rule answers_subset [OF "3.prems"], auto)+
  ultimately show ?case using "3.IH"(1) [of st'] "3.IH"(2) [of st'] r by (cases "p y x") auto
qed (simp_all add: merge_lists_left merge_lists_right)

lemma merge_by_mset: "mset (merge_by lt xs ys) = mset xs + mset ys"
  by (induction lt xs ys rule: merge_by.induct) simp_all

lemma merge_by_set: "set (merge_by lt xs ys) = set xs \<union> set ys"
  using merge_by_mset [of lt xs ys] by (metis set_mset_mset set_mset_union)

text \<open>
  What the sort needs of a comparison on the elements \<open>A\<close>: it is asymmetric, and elements that are not
  ordered are interchangeable.
\<close>

locale comparison =
  fixes lt :: "'a \<Rightarrow> 'a \<Rightarrow> bool" and A :: "'a set"
  assumes asym: "x \<in> A \<Longrightarrow> y \<in> A \<Longrightarrow> lt x y \<Longrightarrow> \<not> lt y x"
    and split: "x \<in> A \<Longrightarrow> y \<in> A \<Longrightarrow> z \<in> A \<Longrightarrow> lt x z \<Longrightarrow> lt x y \<or> lt y z"
begin

abbreviation same :: "'a \<Rightarrow> 'a \<Rightarrow> bool" where
  "same x y \<equiv> \<not> lt x y \<and> \<not> lt y x"

lemma merge_sorted:
  assumes "set xs \<subseteq> A" "set ys \<subseteq> A" "sorted_wrt (\<lambda>x y. \<not> lt y x) xs" "sorted_wrt (\<lambda>x y. \<not> lt y x) ys"
  shows "sorted_wrt (\<lambda>x y. \<not> lt y x) (merge_by lt xs ys)"
  using assms
proof (induction lt \<equiv> lt xs ys rule: merge_by.induct)
  case (3 x xs y ys)
  show ?case
  proof (cases "lt y x")
    case True
    have "\<not> lt z y" if "z \<in> set (x # xs)" for z
      using that 3 True asym [of y x] split [of z x y] by auto
    with 3 True show ?thesis by (auto simp: merge_by_set)
  next
    case False
    have "\<not> lt z x" if "z \<in> set (y # ys)" for z
      using that 3 False split [of z y x] by auto
    with 3 False show ?thesis by (auto simp: merge_by_set)
  qed
qed (auto simp: merge_by_set)

lemma merge_stable:
  assumes "set xs \<subseteq> A" "set ys \<subseteq> A" "sorted_wrt (\<lambda>x y. \<not> lt y x) xs" "sorted_wrt (\<lambda>x y. \<not> lt y x) ys" "a \<in> A"
  shows "filter (same a) (merge_by lt xs ys) = filter (same a) xs @ filter (same a) ys"
  using assms
proof (induction lt \<equiv> lt xs ys rule: merge_by.induct)
  case (3 x xs y ys)
  show ?case
  proof (cases "lt y x")
    case True
    have "filter (same a) (x # xs) = []" if "same a y"
    proof -
      have "lt y z" if "z \<in> set (x # xs)" for z
        using that 3 True split [of y z x] by auto
      then have "\<not> same a z" if "z \<in> set (x # xs)" for z
        using that 3 \<open>same a y\<close> split [of y a z] by auto
      then show ?thesis by (auto simp: filter_empty_conv)
    qed
    with 3 True show ?thesis by auto
  next
    case False
    with 3 show ?thesis by auto
  qed
qed auto

end

definition stable_sorted :: "('a \<Rightarrow> 'a \<Rightarrow> bool) \<Rightarrow> 'a list \<Rightarrow> 'a list \<Rightarrow> bool" where
  "stable_sorted lt xs ys \<longleftrightarrow> mset ys = mset xs \<and> sorted_wrt (\<lambda>x y. \<not> lt y x) ys
    \<and> (\<forall>a \<in> set xs. filter (\<lambda>y. \<not> lt a y \<and> \<not> lt y a) ys = filter (\<lambda>y. \<not> lt a y \<and> \<not> lt y a) xs)"

lemma merge_stable_sorted:
  assumes "comparison lt (set us \<union> set vs)" "stable_sorted lt us us'" "stable_sorted lt vs vs'"
  shows "stable_sorted lt (us @ vs) (merge_by lt us' vs')"
proof -
  have s: "set us' = set us" "set vs' = set vs"
    using assms(2,3) unfolding stable_sorted_def by (metis set_mset_mset)+
  have f: "filter (\<lambda>y. \<not> lt a y \<and> \<not> lt y a) ys' = filter (\<lambda>y. \<not> lt a y \<and> \<not> lt y a) ys"
    if "stable_sorted lt ys ys'" "comparison lt A" "a \<in> A" "set ys \<subseteq> A" for ys ys' a A
  proof (cases "\<exists>b \<in> set ys. \<not> lt a b \<and> \<not> lt b a")
    case True
    then obtain b where b: "b \<in> set ys" "\<not> lt a b" "\<not> lt b a" by blast
    have "(\<not> lt a y \<and> \<not> lt y a) = (\<not> lt b y \<and> \<not> lt y b)" if "y \<in> A" for y
      using that b \<open>comparison lt A\<close> \<open>a \<in> A\<close> \<open>set ys \<subseteq> A\<close> unfolding comparison_def by (metis subsetD)
    then have "filter (\<lambda>y. \<not> lt a y \<and> \<not> lt y a) zs = filter (\<lambda>y. \<not> lt b y \<and> \<not> lt y b) zs" if "set zs \<subseteq> A" for zs
      using that by (intro filter_cong) auto
    moreover have "set ys' \<subseteq> A" using that unfolding stable_sorted_def by (metis set_mset_mset)
    ultimately show ?thesis using that b(1) by (simp add: stable_sorted_def)
  next
    case False
    moreover have "set ys' = set ys" using that unfolding stable_sorted_def by (metis set_mset_mset)
    ultimately show ?thesis by (simp add: filter_empty_conv)
  qed
  show ?thesis
    unfolding stable_sorted_def
  proof (intro conjI ballI)
    show "mset (merge_by lt us' vs') = mset (us @ vs)"
      using assms(2,3) by (simp add: merge_by_mset stable_sorted_def)
    show "sorted_wrt (\<lambda>x y. \<not> lt y x) (merge_by lt us' vs')"
      using assms s by (intro comparison.merge_sorted [OF assms(1)]) (simp_all add: stable_sorted_def)
    fix a assume "a \<in> set (us @ vs)"
    then have a: "a \<in> set us \<union> set vs" by simp
    have "filter (\<lambda>y. \<not> lt a y \<and> \<not> lt y a) (merge_by lt us' vs')
      = filter (\<lambda>y. \<not> lt a y \<and> \<not> lt y a) us' @ filter (\<lambda>y. \<not> lt a y \<and> \<not> lt y a) vs'"
      using assms s a by (intro comparison.merge_stable [OF assms(1)]) (simp_all add: stable_sorted_def)
    then show "filter (\<lambda>y. \<not> lt a y \<and> \<not> lt y a) (merge_by lt us' vs') = filter (\<lambda>y. \<not> lt a y \<and> \<not> lt y a) (us @ vs)"
      using f [OF assms(2,1) a] f [OF assms(3,1) a] by simp
  qed
qed


subsection \<open>The sort\<close>

text \<open>
  The outcome of sorting the part \<open>xs\<close> of a vector: the part is permuted whatever happens, and sorted when
  the comparison answers by an order on its elements; the scratch vector holds the sorted part, except
  for two and three elements, where it is not written.
\<close>

definition sort_result ::
  "('a \<Rightarrow> 'a \<Rightarrow> 's \<Rightarrow> ('e + bool) \<times> 's) \<Rightarrow> 'a list \<Rightarrow> 'a list \<Rightarrow> 'a list \<Rightarrow> 'a list
    \<Rightarrow> (('e + unit) \<times> 'a list \<times> 'a list \<times> 's) option \<Rightarrow> bool" where
  "sort_result lt pre xs post scratch out \<longleftrightarrow> (\<exists>res ys scratch' st'. out = Some (res, pre @ ys @ post, scratch', st')
    \<and> length scratch' = length scratch \<and> mset ys = mset xs
    \<and> (\<forall>p. answers lt p (set xs) \<longrightarrow> \<not> isl res \<and> (comparison p (set xs) \<longrightarrow> stable_sorted p xs ys))
    \<and> (\<not> isl res \<longrightarrow> (if length xs = 2 \<or> length xs = 3 then scratch' = scratch
         else take (length xs) (drop (length pre) scratch') = ys)))"

lemma sort_resultI:
  assumes "out = Some (res, pre @ ys @ post, scratch', st')" "length scratch' = length scratch" "mset ys = mset xs"
    "\<And>p. answers lt p (set xs) \<Longrightarrow> \<not> isl res \<and> (comparison p (set xs) \<longrightarrow> stable_sorted p xs ys)"
    "\<not> isl res \<Longrightarrow> if length xs = 2 \<or> length xs = 3 then scratch' = scratch else take (length xs) (drop (length pre) scratch') = ys"
  shows "sort_result lt pre xs post scratch out"
  using assms unfolding sort_result_def by blast

lemma nth_after:
  "(pre @ xs) ! nat (int (length pre) + int k) = xs ! k" "(pre @ xs) ! (length pre + k) = xs ! k"
  "(pre @ xs) ! nat (int (length pre)) = xs ! 0"
proof -
  have "nat (int (length pre) + int k) = length pre + k" by linarith
  then show "(pre @ xs) ! nat (int (length pre) + int k) = xs ! k" "(pre @ xs) ! (length pre + k) = xs ! k"
    "(pre @ xs) ! nat (int (length pre)) = xs ! 0" by (simp_all add: nth_append)
qed

lemma update_after: "(pre @ xs)[length pre + k := x] = pre @ xs[k := x]"
  by (simp add: list_update_append)

lemma swap_after: "swap (pre @ xs) (length pre + i) (length pre + j) = pre @ swap xs i j"
  by (simp add: swap_def nth_append list_update_append)

lemma sort_two_pair:
  assumes "lo = int (length pre)" "hi = lo + 1"
  shows "sort_two lt (pre @ [a, b] @ post) lo hi st = (case lt b a st of (Inl e, st) \<Rightarrow> (Inl e, pre @ [a, b] @ post, st)
    | (Inr c, st) \<Rightarrow> (Inr (), pre @ (if c then [b, a] else [a, b]) @ post, st))"
  using swap_after [of pre "[a, b] @ post" 1 0] nth_after(2) [of pre "[a, b] @ post" 1] nth_after(2) [of pre "[a, b] @ post" 0] assms
  by (simp add: sort_two_def Let_def swap_def split: sum.splits bool.splits prod.splits)

lemma sort_two_triple:
  assumes "lo = int (length pre)" "hi = lo + 2"
  shows "sort_two lt (pre @ [a, b, c] @ post) lo hi st = (case lt b a st of (Inl e, st) \<Rightarrow> (Inl e, pre @ [a, b, c] @ post, st)
    | (Inr False, st) \<Rightarrow> (Inr (), pre @ [a, b, c] @ post, st)
    | (Inr True, st) \<Rightarrow> (case lt c a st of (Inl e, st) \<Rightarrow> (Inl e, pre @ [b, a, c] @ post, st)
        | (Inr d, st) \<Rightarrow> (Inr (), pre @ (if d then [b, c, a] else [b, a, c]) @ post, st)))"
  using swap_after [of pre "[a, b, c] @ post" 1 0] swap_after [of pre "[b, a, c] @ post" 2 1]
    nth_after(2) [of pre "[a, b, c] @ post" 1] nth_after(2) [of pre "[a, b, c] @ post" 0]
    nth_after(2) [of pre "[b, a, c] @ post" 2] nth_after(2) [of pre "[b, a, c] @ post" 1] assms
  by (simp add: sort_two_def Let_def swap_def numeral_2_eq_2 split: sum.splits bool.splits prod.splits)

lemma sort_three_triple:
  assumes "lo = int (length pre)" "hi = lo + 2"
  shows "sort_three lt (pre @ [a, b, c] @ post) lo hi st = (case lt c b st of (Inl e, st) \<Rightarrow> (Inl e, pre @ [a, b, c] @ post, st)
    | (Inr d, st) \<Rightarrow> sort_two lt (pre @ (if d then [a, c, b] else [a, b, c]) @ post) lo hi st)"
proof -
  have "nat hi = length pre + 2" "nat (hi - 1) = length pre + 1" using assms by linarith+
  then show ?thesis
    using swap_after [of pre "[a, b, c] @ post" 2 1]
      nth_after(2) [of pre "[a, b, c] @ post" 2] nth_after(2) [of pre "[a, b, c] @ post" 1]
    by (simp add: sort_three_def swap_def numeral_2_eq_2 split: sum.splits prod.splits)
qed

lemmas small_sorts = sort_two_pair [OF refl refl, simplified] sort_two_triple [OF refl refl, simplified]
  sort_three_triple [OF refl refl, simplified]

lemma stable_sorted_single: "comparison lt A \<Longrightarrow> x \<in> A \<Longrightarrow> stable_sorted lt [x] [x]"
  unfolding comparison_def stable_sorted_def by simp

lemma comparison_subset: "comparison lt A \<Longrightarrow> B \<subseteq> A \<Longrightarrow> comparison lt B"
  unfolding comparison_def by blast

lemma sort_result_one:
  assumes "length scratch = length pre + 1 + length post"
  shows "sort_result lt pre [x] post scratch (sexp_merge_sort_less lt (pre @ [x] @ post) scratch (int (length pre)) (int (length pre)) st)"
proof -
  have "stable_sorted p [x] [x]" if "comparison p {x}" for p using stable_sorted_single [OF that] by simp
  with assms show ?thesis
    by (subst sexp_merge_sort_less.simps) (auto simp: sort_result_def take_Suc_conv_app_nth)
qed

lemma sort_result_two:
  "sort_result lt pre [a, b] post scratch
    (sexp_merge_sort_less lt (pre @ [a, b] @ post) scratch (int (length pre)) (int (length pre) + 1) st)"
proof -
  have two: "sexp_merge_sort_less lt (pre @ [a, b] @ post) scratch (int (length pre)) (int (length pre) + 1) st =
    (case lt b a st of (Inl e, st) \<Rightarrow> Some (Inl e, pre @ [a, b] @ post, scratch, st)
      | (Inr c, st) \<Rightarrow> Some (Inr (), pre @ (if c then [b, a] else [a, b]) @ post, scratch, st))"
    by (subst sexp_merge_sort_less.simps) (simp add: small_sorts split: sum.splits prod.splits)
  have s: "stable_sorted p [a, b] (if p b a then [b, a] else [a, b])" if "comparison p {a, b}" for p
    using merge_stable_sorted [of p "[a]" "[b]" "[a]" "[b]"] that stable_sorted_single [OF that]
    by (simp add: insert_commute split: if_splits)
  obtain r st' where r: "lt b a st = (r, st')" by fastforce
  have ans: "r = Inr (p b a)" if "answers lt p {a, b}" for p using answersD [of lt p, OF that _ _ r] by simp
  show ?thesis
  proof (cases r)
    case (Inl e)
    then show ?thesis using r two ans
      by (intro sort_resultI [where res = "Inl e" and ys = "[a, b]" and scratch' = scratch and st' = st']) auto
  next
    case (Inr c)
    then show ?thesis using r two ans s
      by (intro sort_resultI [where res = "Inr ()" and ys = "if c then [b, a] else [a, b]" and scratch' = scratch and st' = st']) auto
  qed
qed

lemma sort_three_result:
  obtains res ys st' where "sort_three lt (pre @ [a, b, c] @ post) (int (length pre)) (int (length pre) + 2) st = (res, pre @ ys @ post, st')"
    "mset ys = {#a, b, c#}" "\<And>p. answers lt p {a, b, c} \<Longrightarrow> res = Inr () \<and> ys = merge_by p [a] (merge_by p [b] [c])"
proof -
  obtain r1 s1 where 1: "lt c b st = (r1, s1)" by fastforce
  have a1: "r1 = Inr (p c b)" if "answers lt p {a, b, c}" for p
    using answersD [of lt p, OF that _ _ 1] by simp
  show thesis
  proof (cases r1)
    case (Inl e)
    then show thesis using 1 a1 by (intro that [of "Inl e" "[a, b, c]" s1]) (auto simp: small_sorts simp del: merge_by.simps)
  next
    case (Inr d)
    obtain u v where uv: "(u, v) = (if d then (c, b) else (b, c))" "u \<in> {b, c}" "v \<in> {b, c}" "{#a, u, v#} = {#a, b, c#}" by (cases d) auto
    obtain r2 s2 where 2: "lt u a s1 = (r2, s2)" by fastforce
    have s: "sort_three lt (pre @ [a, b, c] @ post) (int (length pre)) (int (length pre) + 2) st
      = sort_two lt (pre @ [a, u, v] @ post) (int (length pre)) (int (length pre) + 2) s1"
      using 1 Inr uv(1) by (cases d) (auto simp: small_sorts simp del: merge_by.simps)
    have a2: "r2 = Inr (p u a) \<and> d = p c b" if "answers lt p {a, b, c}" for p
      using answersD [of lt p, OF that _ _ 2] a1 [OF that] uv(2) Inr by auto
    consider e where "r2 = Inl e" | "r2 = Inr False" | "r2 = Inr True" by (metis (full_types) sumE)
    then show thesis
    proof cases
      case (1 e)
      then show thesis using s 2 a2 uv(4) by (intro that [of "Inl e" "[a, u, v]" s2]) (auto simp: small_sorts simp del: merge_by.simps)
    next
      case no: 2
      have "[a, u, v] = merge_by p [a] (merge_by p [b] [c])" if "answers lt p {a, b, c}" for p
        using a2 [OF that] no uv(1) by (auto split: if_splits)
      then show thesis using s 2 no uv(4) by (intro that [of "Inr ()" "[a, u, v]" s2]) (auto simp: small_sorts simp del: merge_by.simps)
    next
      case 3
      obtain r3 s3 where r3: "lt v a s2 = (r3, s3)" by fastforce
      have a3: "r3 = Inr (p v a)" if "answers lt p {a, b, c}" for p
        using answersD [of lt p, OF that _ _ r3] uv(3) by auto
      show thesis
      proof (cases r3)
        case (Inl e)
        then show thesis using s 2 3 r3 a3 uv(4)
          by (intro that [of "Inl e" "[u, a, v]" s3]) (auto simp: small_sorts add_mset_commute simp del: merge_by.simps)
      next
        case (Inr f)
        have "(if f then [u, v, a] else [u, a, v]) = merge_by p [a] (merge_by p [b] [c])" if "answers lt p {a, b, c}" for p
          using a2 [OF that] a3 [OF that] 3 Inr uv(1) by (auto split: if_splits)
        then show thesis using s 2 3 r3 Inr uv(4)
          by (intro that [of "Inr ()" "if f then [u, v, a] else [u, a, v]" s3]) (auto simp: small_sorts add_mset_commute simp del: merge_by.simps)
      qed
    qed
  qed
qed

lemma sort_result_three:
  "sort_result lt pre [a, b, c] post scratch
    (sexp_merge_sort_less lt (pre @ [a, b, c] @ post) scratch (int (length pre)) (int (length pre) + 2) st)"
proof -
  obtain res ys st' where r: "sort_three lt (pre @ [a, b, c] @ post) (int (length pre)) (int (length pre) + 2) st = (res, pre @ ys @ post, st')"
    "mset ys = {#a, b, c#}" "\<And>p. answers lt p {a, b, c} \<Longrightarrow> res = Inr () \<and> ys = merge_by p [a] (merge_by p [b] [c])"
    by (rule sort_three_result [of lt pre a b c post st]) blast
  have three: "sexp_merge_sort_less lt (pre @ [a, b, c] @ post) scratch (int (length pre)) (int (length pre) + 2) st
    = Some (res, pre @ ys @ post, scratch, st')"
    using r(1) by (subst sexp_merge_sort_less.simps) simp
  have s: "stable_sorted p [a, b, c] (merge_by p [a] (merge_by p [b] [c]))" if "comparison p {a, b, c}" for p
  proof -
    have "stable_sorted p [b, c] (merge_by p [b] [c])"
      using merge_stable_sorted [of p "[b]" "[c]" "[b]" "[c]"] comparison_subset [OF that, of "{b, c}"]
        stable_sorted_single [OF that] by (simp add: insert_commute)
    then show ?thesis
      using merge_stable_sorted [of p "[a]" "[b, c]" "[a]"] that stable_sorted_single [OF that]
      by (simp add: insert_commute)
  qed
  show ?thesis
    by (rule sort_resultI [OF three]) (use r(2,3) s in auto)
qed


text \<open>The recursive case: both halves, then the merge.\<close>

lemma sort_result_many:
  assumes us: "us \<noteq> []" "vs \<noteq> []" "length us = Suc ((length us + length vs - 1) div 2)" "4 \<le> length us + length vs"
    and len: "length scratch = length pre + length (us @ vs) + length post"
    and IH1: "\<And>scratch st. length scratch = length pre + length us + length (vs @ post) \<Longrightarrow>
      sort_result lt pre us (vs @ post) scratch
        (sexp_merge_sort_less lt (pre @ us @ (vs @ post)) scratch (int (length pre)) (int (length pre) + int (length us) - 1) st)"
    and IH2: "\<And>scratch us' st. length us' = length us \<Longrightarrow> length scratch = length (pre @ us') + length vs + length post \<Longrightarrow>
      sort_result lt (pre @ us') vs post scratch
        (sexp_merge_sort_less lt ((pre @ us') @ vs @ post) scratch (int (length (pre @ us')))
          (int (length (pre @ us')) + int (length vs) - 1) st)"
  shows "sort_result lt pre (us @ vs) post scratch
    (sexp_merge_sort_less lt (pre @ (us @ vs) @ post) scratch (int (length pre)) (int (length pre) + int (length (us @ vs)) - 1) st)"
    (is "sort_result _ _ _ _ _ (sexp_merge_sort_less lt ?vec scratch ?lo ?hi st)")
proof -
  define mid where "mid = int (length pre) + int (length us) - 1"
  have "c_div (?hi + ?lo) 2 = (?hi + ?lo) div 2" using us(4) by (simp add: c_div_def sgn_if)
  then have mid: "c_div (?hi + ?lo) 2 = mid" using us(3) unfolding mid_def by simp
  obtain res1 us' s1 st1 where 1: "sexp_merge_sort_less lt ?vec scratch ?lo mid st = Some (res1, pre @ us' @ vs @ post, s1, st1)"
    "length s1 = length scratch" "mset us' = mset us"
    "\<forall>p. answers lt p (set us) \<longrightarrow> \<not> isl res1 \<and> (comparison p (set us) \<longrightarrow> stable_sorted p us us')"
    using IH1 [of scratch st] len unfolding sort_result_def mid_def by auto
  have lus: "length us' = length us" "set us' = set us" using 1(3) by (metis size_mset, metis set_mset_mset)
  have sub: "set us \<subseteq> set (us @ vs)" "set vs \<subseteq> set (us @ vs)" by auto
  have big: "?hi - ?lo \<noteq> 0" "?hi - ?lo \<noteq> 2" "?hi - ?lo \<noteq> 1" using us(4) by auto
  note unfold = sexp_merge_sort_less.simps [of lt ?vec scratch ?lo ?hi st, unfolded mid Let_def 1(1), simplified big if_False bind.bind_lunit prod.case]
  show ?thesis
  proof (cases "isl res1")
    case True
    then have "sexp_merge_sort_less lt ?vec scratch ?lo ?hi st = Some (res1, pre @ (us' @ vs) @ post, s1, st1)"
      using unfold by simp
    then show ?thesis
      by (rule sort_resultI) (use 1 True answers_subset [OF _ sub(1), of lt] in auto)
  next
    case False
    obtain res2 vs' s2 st2 where 2: "sexp_merge_sort_less lt (pre @ us' @ vs @ post) s1 (mid + 1) ?hi st1
        = Some (res2, pre @ us' @ vs' @ post, s2, st2)" "length s2 = length s1" "mset vs' = mset vs"
      "\<forall>p. answers lt p (set vs) \<longrightarrow> \<not> isl res2 \<and> (comparison p (set vs) \<longrightarrow> stable_sorted p vs vs')"
      using IH2 [OF lus(1), of s1 st1] len 1(2) lus unfolding sort_result_def mid_def by (auto simp: algebra_simps)
    have lvs: "length vs' = length vs" "set vs' = set vs" using 2(3) by (metis size_mset, metis set_mset_mset)
    have run: "sexp_merge_sort_less lt ?vec scratch ?lo ?hi st =
      (if isl res2 then Some (res2, pre @ us' @ vs' @ post, s2, st2)
       else (case merge_loop lt (pre @ us' @ vs' @ post) s2 mid ?hi ?lo ?lo (mid + 1) st2 of
           (Inl e, scratch, st) \<Rightarrow> Some (Inl e, pre @ us' @ vs' @ post, scratch, st)
         | (Inr u, scratch, st) \<Rightarrow> Some (Inr u, copy_back (pre @ us' @ vs' @ post) scratch ?lo ?hi, scratch, st)))"
      using unfold 2(1) False by simp
    show ?thesis
    proof (cases "isl res2")
      case True
      then have "sexp_merge_sort_less lt ?vec scratch ?lo ?hi st = Some (res2, pre @ (us' @ vs') @ post, s2, st2)"
        using run by simp
      then show ?thesis
        by (rule sort_resultI) (use 1 2 True answers_subset [OF _ sub(2), of lt] in auto)
    next
      case no: False
      have "length s2 = length pre + length (us' @ vs') + length post" using len 1(2) 2(2) lus lvs by simp
      then obtain S ts R where s2: "s2 = S @ ts @ R" "length S = length pre" "length ts = length (us' @ vs')"
        "length R = length post" by (rule list_split3)
      let ?M = "merge_lists lt us' vs' st2"
      have "merged (merge_loop lt (pre @ us' @ vs' @ post) s2 mid ?hi ?lo ?lo (mid + 1) st2) S (length ts) R ?M"
        unfolding s2(1) using lus lvs s2 by (intro merge_loop_lists [where B = "[]"]) (simp_all add: mid_def)
      then obtain ws where ws: "merge_loop lt (pre @ us' @ vs' @ post) s2 mid ?hi ?lo ?lo (mid + 1) st2
          = (fst ?M, S @ ws @ R, snd (snd ?M))" "length ws = length ts"
        "\<not> isl (fst ?M) \<longrightarrow> ws = fst (snd ?M)"
        unfolding merged_def by blast
      have "nat (?hi - ?lo + 1) = length ws" "nat (?hi + 1) = length pre + length us' + length vs'" "nat ?lo = length pre"
        using ws(2) s2(3) lus lvs us by simp_all
      then have fin: "copy_back (pre @ us' @ vs' @ post) (S @ ws @ R) ?lo ?hi = pre @ ws @ post"
        using s2(2) by (simp add: copy_back_def)
      have total: "fst ?M = Inr () \<and> (comparison p (set (us @ vs)) \<longrightarrow> stable_sorted p (us @ vs) ws)" if ans: "answers lt p (set (us @ vs))" for p
      proof -
        obtain st' where m: "?M = (Inr (), merge_by p us' vs', st')"
          using merge_lists_total [of lt p us' vs' st2] ans lus(2) lvs(2) by auto
        have "stable_sorted p (us @ vs) (merge_by p us' vs')" if "comparison p (set (us @ vs))"
          using 1(4) 2(4) comparison_subset [OF that] that answers_subset [OF ans sub(1)] answers_subset [OF ans sub(2)]
          by (intro merge_stable_sorted) auto
        with m ws(3) show ?thesis by simp
      qed
      show ?thesis
      proof (cases "fst ?M")
        case (Inl e)
        have "sexp_merge_sort_less lt ?vec scratch ?lo ?hi st = Some (Inl e, pre @ (us' @ vs') @ post, S @ ws @ R, snd (snd ?M))"
          using run no ws(1) Inl by simp
        then show ?thesis by (rule sort_resultI) (use Inl total 1 2 s2 ws in auto)
      next
        case (Inr u)
        then have m: "mset ws = mset us + mset vs" using merge_lists_perm [of lt us' vs' st2] ws(3) 1(3) 2(3) by simp
        have eq: "sexp_merge_sort_less lt ?vec scratch ?lo ?hi st = Some (Inr u, pre @ ws @ post, S @ ws @ R, snd (snd ?M))"
          using run no ws(1) Inr fin by simp
        show ?thesis
          by (rule sort_resultI [OF eq]) (use m Inr total 1 2 s2 ws us(4) lus lvs in auto)
      qed
    qed
  qed
qed

lemma merge_sort_less_spec:
  assumes "xs \<noteq> []" "length scratch = length pre + length xs + length post"
  shows "sort_result lt pre xs post scratch
    (sexp_merge_sort_less lt (pre @ xs @ post) scratch (int (length pre)) (int (length pre) + int (length xs) - 1) st)"
  using assms
proof (induction xs arbitrary: pre post scratch st rule: length_induct)
  case (1 xs)
  consider (one) x where "xs = [x]" | (two) a b where "xs = [a, b]" | (three) a b c where "xs = [a, b, c]"
    | (many) "4 \<le> length xs"
    using "1.prems"(1) by (cases xs rule: list.exhaust; simp) (metis Suc_le_eq length_Cons list.exhaust list.size(3) numeral_3_eq_3
      eval_nat_numeral(2) less_eq_Suc_le not_less_eq_eq le_numeral_extra(3) zero_le)
  then show ?case
  proof cases
    case (one x)
    then show ?thesis using sort_result_one [of scratch pre post lt x st] "1.prems" by simp
  next
    case (two a b)
    have e: "int (length pre) + int (length [a, b]) - 1 = int (length pre) + 1" by simp
    show ?thesis unfolding two e by (rule sort_result_two)
  next
    case (three a b c)
    have e: "int (length pre) + int (length [a, b, c]) - 1 = int (length pre) + 2" by simp
    show ?thesis unfolding three e by (rule sort_result_three)
  next
    case many
    define h where "h = Suc ((length xs - 1) div 2)"
    have h: "h < length xs" "0 < h" using many by (auto simp: h_def)
    have len: "length (take h xs) = h" "length (drop h xs) = length xs - h" using h by simp_all
    have IH: "sort_result lt pre' ys post' sc (sexp_merge_sort_less lt (pre' @ ys @ post') sc (int (length pre'))
        (int (length pre') + int (length ys) - 1) st')"
      if "length ys < length xs" "ys \<noteq> []" "length sc = length pre' + length ys + length post'" for ys pre' post' sc st'
      using "1.IH" that by blast
    have "sort_result lt pre (take h xs @ drop h xs) post scratch
      (sexp_merge_sort_less lt (pre @ (take h xs @ drop h xs) @ post) scratch (int (length pre))
        (int (length pre) + int (length (take h xs @ drop h xs)) - 1) st)"
    proof (rule sort_result_many)
      show "take h xs \<noteq> []" "drop h xs \<noteq> []" "4 \<le> length (take h xs) + length (drop h xs)"
        "length (take h xs) = Suc ((length (take h xs) + length (drop h xs) - 1) div 2)"
        using h many len by (auto simp: h_def)
      show "length scratch = length pre + length (take h xs @ drop h xs) + length post" using "1.prems"(2) by simp
    next
      fix sc :: "'a list" and st'
      assume "length sc = length pre + length (take h xs) + length (drop h xs @ post)"
      then show "sort_result lt pre (take h xs) (drop h xs @ post) sc (sexp_merge_sort_less lt (pre @ take h xs @ drop h xs @ post)
          sc (int (length pre)) (int (length pre) + int (length (take h xs)) - 1) st')"
        using h len by (intro IH) auto
    next
      fix sc us' :: "'a list" and st'
      assume "length sc = length (pre @ us') + length (drop h xs) + length post"
      then show "sort_result lt (pre @ us') (drop h xs) post sc (sexp_merge_sort_less lt ((pre @ us') @ drop h xs @ post)
          sc (int (length (pre @ us'))) (int (length (pre @ us')) + int (length (drop h xs)) - 1) st')"
        using h len by (intro IH) auto
    qed
    then show ?thesis by simp
  qed
qed


end
