(* ===== verification/Sorting.thy ===== *)
theory Sorting
  imports Sort
begin

text \<open>
  The properties of the sort: the version on the built-in order is the one with a comparison procedure,
  \<open>sort!\<close> sorts stably, keeps the elements when a procedure raises an exception, and where it goes wrong.
\<close>

subsection \<open>The two versions agree\<close>

lemma middle:
  assumes "2 \<le> n" "h = Suc ((n - 1) div 2)"
  shows "c_div ((int p + int n - 1) + int p) 2 = int p + int h - 1" "h < n" "0 < h"
proof -
  have "c_div ((int p + int n - 1) + int p) 2 = ((int p + int n - 1) + int p) div 2"
    using assms(1) by (simp add: c_div_def sgn_if)
  also have "\<dots> = int p + (int n - 1) div 2" by simp
  also have "\<dots> = int p + int h - 1" using assms by (simp add: of_nat_diff zdiv_int)
  finally show "c_div ((int p + int n - 1) + int p) 2 = int p + int h - 1" .
  show "h < n" "0 < h" using assms by auto
qed

fun builtin_of :: "((unit + unit) \<times> 'a \<times> 'b \<times> unit) option \<Rightarrow> ('a \<times> 'b) option" where
  "builtin_of (Some (Inr u, vec, scratch, st)) = Some (vec, scratch)"
| "builtin_of r = None"

lemma builtin_of_small:
  "builtin_of (case r of (res, vec, st) \<Rightarrow> Some (res, vec, scratch, ())) = map_option (\<lambda>vec. (vec, scratch)) (completed r)"
  by (cases r; cases "fst r") auto

lemma builtin_of_merge:
  "builtin_of (case r of (Inl e, scratch, st) \<Rightarrow> Some (Inl e, vec, scratch, st) | (Inr u, scratch, st) \<Rightarrow> Some (Inr u, f scratch, scratch, st))
    = do { scratch \<leftarrow> completed r; Some (f scratch, scratch) }"
  by (cases r; cases "fst r") auto

lemma merge_sort_equiv:
  assumes "xs \<noteq> []" "length scratch = length pre + length xs + length post"
  shows "sexp_merge_sort cmp (pre @ xs @ post) scratch (int (length pre)) (int (length pre) + int (length xs) - 1)
    = builtin_of (sexp_merge_sort_less (object_less cmp) (pre @ xs @ post) scratch (int (length pre))
        (int (length pre) + int (length xs) - 1) ())"
  using assms
proof (induction xs arbitrary: pre post scratch rule: length_induct)
  case (1 xs)
  let ?lo = "int (length pre)" and ?hi = "int (length pre) + int (length xs) - 1" and ?lt = "object_less cmp"
  show ?case
  proof (cases "length xs < 4")
    case True
    moreover have "0 < length xs" using "1.prems"(1) by simp
    ultimately have "?hi - ?lo = 0 \<or> ?hi - ?lo = 2 \<or> ?hi - ?lo = 1" by linarith
    then show ?thesis
      by (subst sexp_merge_sort.simps, subst sexp_merge_sort_less.simps) (auto simp: builtin_of_small)
  next
    case False
    define h where "h = Suc ((length xs - 1) div 2)"
    have h: "c_div (?hi + ?lo) 2 = ?lo + int h - 1" "h < length xs" "0 < h"
      using middle(1) [of "length xs" h "length pre"] middle(2,3) [of "length xs" h] False by (simp_all add: h_def)
    let ?us = "take h xs" and ?vs = "drop h xs" and ?mid = "?lo + int h - 1"
    have len: "length ?us = h" "length ?vs = length xs - h" "?us \<noteq> []" "?vs \<noteq> []" "length ?us < length xs" "length ?vs < length xs"
      using h by auto
    have IH: "sexp_merge_sort cmp (pre' @ ys @ post') sc (int (length pre')) (int (length pre') + int (length ys) - 1)
      = builtin_of (sexp_merge_sort_less ?lt (pre' @ ys @ post') sc (int (length pre')) (int (length pre') + int (length ys) - 1) ())"
      if "length ys < length xs" "ys \<noteq> []" "length sc = length pre' + length ys + length post'" for ys pre' post' sc
      using "1.IH" that by blast
    have sc: "length scratch = length pre + length ?us + length (?vs @ post)" using "1.prems"(2) h by simp
    obtain res1 us' s1 where u: "sexp_merge_sort_less ?lt (pre @ ?us @ ?vs @ post) scratch ?lo ?mid ()
        = Some (res1, pre @ us' @ ?vs @ post, s1, ())" "length s1 = length scratch" "mset us' = mset ?us"
      using merge_sort_less_spec [OF len(3) sc, of ?lt "()"] len(1) unfolding sort_result_def by auto
    have lu: "length us' = h" using u(3) len(1) by (metis size_mset)
    have u': "sexp_merge_sort cmp (pre @ ?us @ ?vs @ post) scratch ?lo ?mid = builtin_of (Some (res1, pre @ us' @ ?vs @ post, s1, ()))"
      using IH [OF len(5,3) sc] u(1) len(1) by simp
    have sc2: "length s1 = length (pre @ us') + length ?vs + length post" using u sc len lu by simp
    have e: "int (length (pre @ us')) = ?mid + 1" "int (length (pre @ us')) + int (length ?vs) - 1 = ?hi"
      using lu len h by simp_all
    obtain res2 vs' s2 where v: "sexp_merge_sort_less ?lt (pre @ us' @ ?vs @ post) s1 (?mid + 1) ?hi ()
        = Some (res2, pre @ us' @ vs' @ post, s2, ())"
      using merge_sort_less_spec [OF len(4) sc2, of ?lt "()", unfolded e(2), unfolded e(1)] unfolding sort_result_def by auto
    have v': "sexp_merge_sort cmp (pre @ us' @ ?vs @ post) s1 (?mid + 1) ?hi = builtin_of (Some (res2, pre @ us' @ vs' @ post, s2, ()))"
      using IH [OF len(6,4) sc2, unfolded e(2), unfolded e(1)] v by simp
    have x: "pre @ xs @ post = pre @ ?us @ ?vs @ post" by simp
    have big: "?hi - ?lo \<noteq> 0" "?hi - ?lo \<noteq> 2" "?hi - ?lo \<noteq> 1" using False by auto
    let ?m = "merge_loop ?lt (pre @ us' @ vs' @ post) s2 ?mid ?hi ?lo ?lo (?mid + 1) ()"
    have l: "sexp_merge_sort cmp (pre @ xs @ post) scratch ?lo ?hi = (case res1 of Inl e1 \<Rightarrow> None | Inr u1 \<Rightarrow> (case res2 of Inl e2 \<Rightarrow> None
        | Inr u2 \<Rightarrow> do { s \<leftarrow> completed ?m; Some (copy_back (pre @ us' @ vs' @ post) s ?lo ?hi, s) }))"
      using u' v' unfolding x by (subst sexp_merge_sort.simps)
        (simp only: big if_False h(1) Let_def, simp split: sum.split)
    have "sexp_merge_sort_less ?lt (pre @ xs @ post) scratch ?lo ?hi () =
      (if isl res1 then Some (res1, pre @ us' @ ?vs @ post, s1, ())
       else if isl res2 then Some (res2, pre @ us' @ vs' @ post, s2, ())
       else (case ?m of (Inl e, s, st) \<Rightarrow> Some (Inl e, pre @ us' @ vs' @ post, s, st)
         | (Inr u, s, st) \<Rightarrow> Some (Inr u, copy_back (pre @ us' @ vs' @ post) s ?lo ?hi, s, st)))"
      using u(1) v unfolding x by (subst sexp_merge_sort_less.simps)
        (simp only: big if_False h(1) Let_def bind.bind_lunit prod.case)
    then show ?thesis unfolding l by (cases res1; cases res2) (simp_all add: builtin_of_merge)
  qed
qed

text \<open>The built-in order answers by \<open>before cmp\<close> on elements it can compare.\<close>

definition before :: "('a \<Rightarrow> 'a \<Rightarrow> int option) \<Rightarrow> 'a \<Rightarrow> 'a \<Rightarrow> bool" where
  "before cmp x y \<longleftrightarrow> (\<exists>c. cmp x y = Some c \<and> c < 0)"

definition comparable :: "('a \<Rightarrow> 'a \<Rightarrow> int option) \<Rightarrow> 'a set \<Rightarrow> bool" where
  "comparable cmp A \<longleftrightarrow> (\<forall>x \<in> A. \<forall>y \<in> A. cmp x y \<noteq> None)"

lemma object_less_answers: "comparable cmp A \<Longrightarrow> answers (object_less cmp) (before cmp) A"
  by (fastforce simp: comparable_def answers_def object_less_def before_def split: option.split)

subsection \<open>Reversing and copying\<close>

lemma nreverse_loop_spec:
  "nreverse_loop (pre @ xs @ post) (int (length pre)) (int (length pre) + int (length xs) - 1) = pre @ rev xs @ post"
proof (induction xs arbitrary: pre post rule: length_induct)
  case (1 xs)
  show ?case
  proof (cases "length xs < 2")
    case True
    then have "rev xs = xs" by (cases xs) auto
    with True show ?thesis by (subst nreverse_loop.simps) auto
  next
    case False
    then obtain a ys b where xs: "xs = a # ys @ [b]"
      by (cases xs; cases "tl xs" rule: rev_cases) auto
    have "nat (int (length pre) + int (length xs) - 1) = length pre + Suc (length ys)" unfolding xs by simp
    then have "swap (pre @ xs @ post) (nat (int (length pre))) (nat (int (length pre) + int (length xs) - 1))
      = pre @ b # ys @ a # post"
      using swap_after [of pre "a # ys @ b # post" 0 "Suc (length ys)"]
      by (simp add: xs swap_def nth_append)
    moreover have "nreverse_loop ((pre @ [b]) @ ys @ (a # post)) (int (length (pre @ [b]))) (int (length (pre @ [b])) + int (length ys) - 1)
      = (pre @ [b]) @ rev ys @ (a # post)"
      using "1.IH" xs by (intro "1.IH" [rule_format]) simp
    ultimately show ?thesis
      using False by (subst nreverse_loop.simps) (simp add: xs algebra_simps)
  qed
qed

lemma nreverse_rev: "sexp_vector_nreverse vec = rev vec"
  using nreverse_loop_spec [of "[]" vec "[]"] by (simp add: sexp_vector_nreverse_def)

lemma copy_to_list: "length data = length ls \<Longrightarrow> sexp_vector_copy_to_list data ls = data"
  by (induction data ls rule: list_induct2) simp_all

subsection \<open>Sorting a whole vector\<close>

lemma sort_vector_less:
  assumes "xs \<noteq> []" "length scratch = length xs"
  obtains res ys scratch' st' where
    "sexp_merge_sort_less lt xs scratch 0 (int (length xs) - 1) st = Some (res, ys, scratch', st')"
    "mset ys = mset xs" "length ys = length xs"
    "\<And>p. answers lt p (set xs) \<Longrightarrow> res = Inr () \<and> (comparison p (set xs) \<longrightarrow> stable_sorted p xs ys)"
    "\<not> isl res \<longrightarrow> scratch' = (if length xs = 2 \<or> length xs = 3 then scratch else ys)"
proof -
  have "sort_result lt [] xs [] scratch (sexp_merge_sort_less lt xs scratch 0 (int (length xs) - 1) st)"
    using merge_sort_less_spec [of xs scratch "[]" "[]" lt st] assms by simp
  then obtain res ys scratch' st' where r: "sexp_merge_sort_less lt xs scratch 0 (int (length xs) - 1) st = Some (res, ys, scratch', st')"
    "length scratch' = length scratch" "mset ys = mset xs"
    "\<forall>p. answers lt p (set xs) \<longrightarrow> \<not> isl res \<and> (comparison p (set xs) \<longrightarrow> stable_sorted p xs ys)"
    "\<not> isl res \<longrightarrow> (if length xs = 2 \<or> length xs = 3 then scratch' = scratch else take (length xs) scratch' = ys)"
    unfolding sort_result_def append_Nil append_Nil2 list.size(3) drop_0 by blast
  have "length ys = length xs" using r(3) by (metis size_mset)
  moreover have "res = Inr ()" if "\<not> isl res" using that by (cases res) simp_all
  moreover have "\<not> isl res \<longrightarrow> scratch' = (if length xs = 2 \<or> length xs = 3 then scratch else ys)"
    using r(2,5) assms(2) by auto
  ultimately show thesis using that [OF r(1,3)] r(4) by blast
qed

lemma sort_vector_builtin:
  assumes "xs \<noteq> []" "length scratch = length xs" "comparable cmp (set xs)"
  obtains ys scratch' where "sexp_merge_sort cmp xs scratch 0 (int (length xs) - 1) = Some (ys, scratch')"
    "mset ys = mset xs" "length ys = length xs"
    "comparison (before cmp) (set xs) \<Longrightarrow> stable_sorted (before cmp) xs ys"
proof -
  have e: "sexp_merge_sort cmp xs scratch 0 (int (length xs) - 1)
    = builtin_of (sexp_merge_sort_less (object_less cmp) xs scratch 0 (int (length xs) - 1) ())"
    using merge_sort_equiv [of xs scratch "[]" "[]" cmp] assms by simp
  obtain res ys scratch' st' where r:
    "sexp_merge_sort_less (object_less cmp) xs scratch 0 (int (length xs) - 1) () = Some (res, ys, scratch', st')"
    "mset ys = mset xs" "length ys = length xs"
    "\<And>p. answers (object_less cmp) p (set xs) \<Longrightarrow> res = Inr () \<and> (comparison p (set xs) \<longrightarrow> stable_sorted p xs ys)"
    by (rule sort_vector_less [OF assms(1,2), of "object_less cmp" "()"]) blast
  with e r(4) [OF object_less_answers [OF assms(3)]] show thesis by (intro that [of ys scratch']) auto
qed

subsection \<open>Procedures that answer by an order\<close>

text \<open>
  A key procedure that returns \<open>f x\<close>, and a comparison that answers by \<open>p\<close>, on the objects they are applied to, in every
  state and whatever they do to it; neither raises an exception there.
\<close>

definition computes :: "('f item \<Rightarrow> 's \<Rightarrow> 'f item \<times> 's) \<Rightarrow> ('f item \<Rightarrow> 'f item) \<Rightarrow> 'f item set \<Rightarrow> bool" where
  "computes key f A \<longleftrightarrow> (\<forall>x \<in> A. \<forall>st. fst (key x st) = f x \<and> \<not> item_exceptionp (f x))"

definition decides :: "('f item \<Rightarrow> 'f item \<Rightarrow> 's \<Rightarrow> 'f item \<times> 's) \<Rightarrow> ('f item \<Rightarrow> 'f item \<Rightarrow> bool) \<Rightarrow> 'f item set \<Rightarrow> bool" where
  "decides test p A \<longleftrightarrow>
    (\<forall>x \<in> A. \<forall>y \<in> A. \<forall>st. \<not> item_exceptionp (fst (test x y st)) \<and> (item_truep (fst (test x y st)) \<longleftrightarrow> p x y))"

lemma if_is_less_answers:
  assumes "computes key f A" "decides test p (f ` A)"
  shows "answers (if_is_less key test) (\<lambda>x y. p (f x) (f y)) A"
  unfolding answers_def
proof (intro ballI allI)
  fix x y st
  assume A: "x \<in> A" "y \<in> A"
  obtain a s1 where 1: "key x st = (a, s1)" by fastforce
  obtain b s2 where 2: "key y s1 = (b, s2)" by fastforce
  obtain r s3 where 3: "test a b s2 = (r, s3)" by fastforce
  have ab: "a = f x" "b = f y" "\<not> item_exceptionp a" "\<not> item_exceptionp b"
    using assms(1) A 1 2 unfolding computes_def by (metis fst_conv)+
  then have "\<not> item_exceptionp r" "item_truep r \<longleftrightarrow> p (f x) (f y)"
    using assms(2) A 3 unfolding decides_def by (metis fst_conv image_eqI)+
  then show "fst (if_is_less key test x y st) = Inr (p (f x) (f y))"
    using 1 2 3 ab by (simp add: if_is_less_def)
qed

lemma no_key_computes: "\<forall>x \<in> A. \<not> item_exceptionp x \<Longrightarrow> computes Pair id A"
  by (simp add: computes_def)

subsection \<open>The built-in order\<close>

abbreviation object_before :: "'f order_env \<Rightarrow> 'f item \<Rightarrow> 'f item \<Rightarrow> bool" where
  "object_before E \<equiv> before (sexp_object_compare E COMPARE_DEPTH)"

lemma object_before_integers:
  assumes "oe_arith E = arith F n" "2 \<le> n" "\<forall>x \<in> A. integer_item x" "near_fixnums A"
  shows "comparable (sexp_object_compare E COMPARE_DEPTH) A"
    and "x \<in> A \<Longrightarrow> y \<in> A \<Longrightarrow> object_before E x y \<longleftrightarrow> item_int x < item_int y"
proof -
  obtain m where "n = Suc (Suc m)" using ge_2_Suc [OF assms(2)] by blast
  then have E: "oe_arith E = arith F (Suc (Suc m))" using assms(1) by simp
  have c: "\<exists>c. sexp_object_compare E COMPARE_DEPTH x y = Some c \<and> sgn c = sgn (item_int x - item_int y)" if "x \<in> A" "y \<in> A" for x y
  proof -
    have xy: "integer_item x" "integer_item y" using assms(3) that by blast+
    have near: "fits_fixnum (item_int x) \<Longrightarrow> fits_fixnum (item_int y) \<Longrightarrow> \<bar>item_int x - item_int y\<bar> < 2 ^ 62"
      using assms(4) that unfolding near_fixnums_def by blast
    obtain c where "sexp_object_compare E (Suc 4) x y = Some c" "sgn c = sgn (item_int x - item_int y)"
      by (rule object_compare_integers [OF E xy near]) 
    then show ?thesis by (simp add: COMPARE_DEPTH_def)
  qed
  then show "comparable (sexp_object_compare E COMPARE_DEPTH) A" unfolding comparable_def by fastforce
  assume "x \<in> A" "y \<in> A"
  from c [OF this] show "object_before E x y \<longleftrightarrow> item_int x < item_int y"
    by (auto simp: before_def sgn_if split: if_splits)
qed

lemma integer_comparison:
  assumes "oe_arith E = arith F n" "2 \<le> n" "\<forall>x \<in> A. integer_item x" "near_fixnums A"
  shows "comparison (object_before E) A"
  by unfold_locales (use object_before_integers(2) [OF assms] in auto)

text \<open>On the exact integers of which the fixnums lie in a range of \<open>2 ^ 62\<close>, the built-in order is an order.\<close>

definition sortable_integers :: "'f item set" where
  "sortable_integers = {x. integer_item x \<and> (fits_fixnum (item_int x) \<longrightarrow> - (2 ^ 61) \<le> item_int x \<and> item_int x < 2 ^ 61)}"

interpretation integer_order: comparison "object_before (E\<lparr>oe_arith := arith F (Suc (Suc n))\<rparr>)" sortable_integers
  for E :: "'f order_env" and F :: "'f flo_ops" and n
proof (rule integer_comparison)
  show "oe_arith (E\<lparr>oe_arith := arith F (Suc (Suc n))\<rparr>) = arith F (Suc (Suc n))" by simp
  show "near_fixnums sortable_integers" unfolding near_fixnums_def sortable_integers_def by fastforce
qed (auto simp: sortable_integers_def)

text \<open>The elements of an argument of the sort.\<close>

fun seq_elements :: "'a seq \<Rightarrow> 'a list" where
  "seq_elements (LIST_SEQ xs) = xs"
| "seq_elements (VECTOR_SEQ xs) = xs"
| "seq_elements s = []"

lemma sort_x_builtin:
  assumes "xs \<noteq> []" "comparable (sexp_object_compare E COMPARE_DEPTH) (set xs)"
  obtains ys where "mset ys = mset xs" "comparison (object_before E) (set xs) \<Longrightarrow> stable_sorted (object_before E) xs ys"
    "\<And>less_op. sexp_basic_comparator less_op \<Longrightarrow>
      sexp_sort_x E (LIST_SEQ xs) less_op NO_KEY st = (let zs = if inverse_opcode less_op then rev ys else ys in Some (Inr (LIST_SEQ zs), LIST_SEQ zs, st))"
    "\<And>less_op. sexp_basic_comparator less_op \<Longrightarrow>
      sexp_sort_x E (VECTOR_SEQ xs) less_op NO_KEY st = (let zs = if inverse_opcode less_op then rev ys else ys in Some (Inr (VECTOR_SEQ zs), VECTOR_SEQ zs, st))"
proof -
  obtain ys s where ys: "sexp_merge_sort (sexp_object_compare E COMPARE_DEPTH) xs (replicate (length xs) (ATOM SEXP_VOID)) 0 (int (length xs) - 1) = Some (ys, s)"
    "mset ys = mset xs" "length ys = length xs" "comparison (object_before E) (set xs) \<Longrightarrow> stable_sorted (object_before E) xs ys"
    by (rule sort_vector_builtin [OF assms(1) length_replicate assms(2)]) blast
  show thesis
    by (rule that [OF ys(2,4)])
      (use ys(1,3) in \<open>simp_all add: sexp_sort_x_def sort_vector_def Let_def nreverse_rev copy_to_list\<close>)
qed

lemma sort_x_procedure:
  assumes "xs \<noteq> []" "procedure_of less_op = Some test" "key_of key = Some k" "\<not> (no_key key \<and> sexp_basic_comparator less_op)"
  obtains res ys st' where "mset ys = mset xs"
    "\<And>p. answers (if_is_less k test) p (set xs) \<Longrightarrow> res = Inr () \<and> (comparison p (set xs) \<longrightarrow> stable_sorted p xs ys)"
    "sexp_sort_x E (LIST_SEQ xs) less_op key st = Some (case res of Inl e \<Rightarrow> (Inl (Raised e), LIST_SEQ xs, st')
      | Inr u \<Rightarrow> (Inr (LIST_SEQ ys), LIST_SEQ ys, st'))"
    "sexp_sort_x E (VECTOR_SEQ xs) less_op key st = Some (case res of Inl e \<Rightarrow> (Inl (Raised e), VECTOR_SEQ ys, st')
      | Inr u \<Rightarrow> (Inr (VECTOR_SEQ (if length xs = 2 \<or> length xs = 3 then replicate (length xs) (ATOM SEXP_VOID) else ys)), VECTOR_SEQ ys, st'))"
proof -
  obtain res ys t st' where ys: "sexp_merge_sort_less (if_is_less k test) xs (replicate (length xs) (ATOM SEXP_VOID)) 0 (int (length xs) - 1) st = Some (res, ys, t, st')"
    "mset ys = mset xs" "length ys = length xs"
    "\<And>p. answers (if_is_less k test) p (set xs) \<Longrightarrow> res = Inr () \<and> (comparison p (set xs) \<longrightarrow> stable_sorted p xs ys)"
    "\<not> isl res \<longrightarrow> t = (if length xs = 2 \<or> length xs = 3 then replicate (length xs) (ATOM SEXP_VOID) else ys)"
    by (rule sort_vector_less [OF assms(1) length_replicate]) blast
  show thesis
    by (rule that [OF ys(2,4)]; cases res)
      (use ys(1,3,5) assms(2-4) in \<open>auto simp: sexp_sort_x_def sort_vector_def Let_def copy_to_list\<close>)
qed

text \<open>
  Four elements, a bignum among them, and procedures that count their calls.  The comparison answers \<open>>\<close> on values.
\<close>

definition demo_order :: "'f flo_ops \<Rightarrow> 'f order_env" where
  "demo_order F = \<lparr>oe_flo = F, oe_arith = arith F 2, isymbol_compare = \<lambda>_ _. 0, isymbol_text = \<lambda>_. [], pointer_word = \<lambda>_. 0\<rparr>"

definition demo_items :: "'f item list" where
  "demo_items = [ATOM (fixnum_obj 3), ATOM (BIGNUM \<lparr>sexp_bignum_sign = - 1, sexp_bignum_data = [0, 1]\<rparr>), ATOM (fixnum_obj (- 1)), ATOM (fixnum_obj 3)]"

definition counting_key :: "'f item \<Rightarrow> nat \<Rightarrow> 'f item \<times> nat" where
  "counting_key x n = (x, Suc n)"

definition counting_greater :: "'f item \<Rightarrow> 'f item \<Rightarrow> nat \<Rightarrow> 'f item \<times> nat" where
  "counting_greater x y n = (ATOM (if item_int y < item_int x then SEXP_MAKE_IMMEDIATE 1 else SEXP_FALSE), Suc n)"

lemma demo_bignum: "bn_int \<lparr>sexp_bignum_sign = - 1, sexp_bignum_data = [0, 1]\<rparr> = - (2 ^ 64)"
  "sexp_bignum_hi \<lparr>sexp_bignum_sign = - 1, sexp_bignum_data = [0, 1]\<rparr> = 2"
  by (simp_all add: bn_int_def bn_nat_def sexp_bignum_hi_def numeral_2_eq_2)

lemma demo_items_integers [simp]: "\<forall>x \<in> set demo_items. integer_item x" "near_fixnums (set demo_items)"
  "\<forall>x \<in> set demo_items. \<not> item_exceptionp x" "length demo_items = 4"
  by (simp_all add: demo_items_def integer_item_def near_fixnums_def item_int_def norm_int_def fits_fixnum_def addressable_def
      bignum_ok_def demo_bignum)

lemma greater_decides: "decides counting_greater (\<lambda>x y. item_int y < item_int x) A"
  by (simp add: decides_def counting_greater_def item_truep_def SEXP_FALSE_def SEXP_MAKE_IMMEDIATE_def)

lemma greater_comparison: "comparison (\<lambda>x y. item_int y < item_int x) A"
  by unfold_locales auto

subsection \<open>Properties\<close>





text \<open>
  C39.  With a comparison procedure, \<open>sort!\<close> of a vector of two or three elements sorts the vector in place but
  returns the scratch vector, which is not written in these cases: its elements are all void.
\<close>

theorem sort_small_vector_wrong:
  fixes xs :: "'f item list" and st :: 's
  assumes "length xs = 2 \<or> length xs = 3" "decides test p (set xs)" "\<forall>x \<in> set xs. \<not> item_exceptionp x" "comparison p (set xs)"
  shows "\<exists>ys st'. stable_sorted p xs ys
    \<and> sexp_sort_x E (VECTOR_SEQ xs) (LESS_PROC test) NO_KEY st
      = Some (Inr (VECTOR_SEQ (replicate (length xs) (ATOM SEXP_VOID))), VECTOR_SEQ ys, st')"
proof -
  have ne: "xs \<noteq> []" using assms(1) by auto
  have "answers (if_is_less Pair test) p (set xs)"
    using if_is_less_answers [OF no_key_computes [OF assms(3)], of test p] assms(2) by simp
  then show ?thesis
    by - (rule sort_x_procedure [OF ne, of "LESS_PROC test" test NO_KEY Pair E st]; use assms(1,4) in auto)
qed

theorem sort_small_vector_wrong_witness:
  "\<forall>F :: bool flo_ops. \<exists>ys st'. stable_sorted (\<lambda>x y. item_int y < item_int x) (take 2 demo_items) ys
    \<and> sexp_sort_x (demo_order F) (VECTOR_SEQ (take 2 demo_items)) (LESS_PROC counting_greater) NO_KEY 0
      = Some (Inr (VECTOR_SEQ [ATOM SEXP_VOID, ATOM SEXP_VOID]), VECTOR_SEQ ys, st')"
proof
  fix F :: "bool flo_ops"
  have "length (take 2 demo_items :: bool item list) = 2" "\<forall>x \<in> set (take 2 demo_items :: bool item list). \<not> item_exceptionp x"
    by (simp_all add: demo_items_def numeral_2_eq_2 fixnum_obj_def)
  with sort_small_vector_wrong [OF disjI1 greater_decides _ greater_comparison, of "take 2 demo_items" "demo_order F" 0]
  show "\<exists>ys st'. stable_sorted (\<lambda>x y. item_int y < item_int x) (take 2 demo_items) ys
    \<and> sexp_sort_x (demo_order F) (VECTOR_SEQ (take 2 demo_items)) (LESS_PROC counting_greater) NO_KEY 0
      = Some (Inr (VECTOR_SEQ [ATOM SEXP_VOID, ATOM SEXP_VOID]), VECTOR_SEQ ys, st')"
    by (simp add: numeral_2_eq_2)
qed

end
