(* ===== verification/Code.thy ===== *)
theory Code
  imports Exact
begin

text \<open>
  The code generator, the first part of \<^verbatim>\<open>vm.c\<close>: it turns the syntax tree of the analyser into byte code
  of the virtual machine.  The byte code is kept as an array of bytes, in which an operand takes eight bytes: its first byte
  stands for the whole word and the other seven are \<open>REST\<close>, so that positions and jump offsets are those of the code.
  A procedure is a value that holds its code, since it never changes; pairs and vectors are cells of a heap.
  The lists that keep literals alive for the collector and the source positions for error messages are left out.
\<close>

subsection \<open>Objects\<close>

datatype ident = SYMBOL string | NUMBERED nat | SYNCLO nat ident

datatype 'f datum =
    FIX int
  | NUM "'f sexp"
  | SFALSE | STRUE | SNULL | SVOID | SUNDEF | SEOF
  | CHARACTER int
  | IDENT ident
  | PAIR nat
  | VECTOR nat
  | VECTOR0
  | OPCODE nat
  | EXN string
  | OBJ nat

datatype ('f, 'c) object = DATUM "'f datum" | PROCEDURE nat nat 'c "'f datum"

datatype ('f, 'c) cell =
    PAIR_CELL "('f, 'c) object" "('f, 'c) object" bool
  | VECTOR_CELL "('f, 'c) object list" bool

type_synonym ('f, 'c) heap = "('f, 'c) cell list"

definition SEXP_PROC_VARIADIC :: nat where "SEXP_PROC_VARIADIC = 1"
definition SEXP_PROC_UNUSED_REST :: nat where "SEXP_PROC_UNUSED_REST = 2"

fun immediate :: "'f datum \<Rightarrow> bool" where
  "immediate (NUM x) = False" | "immediate (IDENT x) = False" | "immediate (PAIR a) = False"
| "immediate (VECTOR a) = False" | "immediate VECTOR0 = False" | "immediate (OPCODE k) = False"
| "immediate (EXN m) = False" | "immediate (OBJ a) = False" | "immediate v = True"

subsection \<open>Instructions, byte code and opcodes\<close>

datatype instr =
    OP_NOOP | OP_RAISE | OP_RESUMECC | OP_CALLCC | OP_APPLY1 | OP_TAIL_CALL | OP_CALL
  | OP_FCALL0 | OP_FCALL1 | OP_FCALL2 | OP_FCALL3 | OP_FCALL4 | OP_FCALLN
  | OP_JUMP_UNLESS | OP_JUMP | OP_PUSH | OP_DROP | OP_GLOBAL_REF | OP_GLOBAL_KNOWN_REF | OP_PARAMETER_REF
  | OP_STACK_REF | OP_LOCAL_REF | OP_LOCAL_SET | OP_CLOSURE_REF | OP_CLOSURE_VARS
  | OP_VECTOR_REF | OP_VECTOR_SET | OP_VECTOR_LENGTH | OP_MAKE_PROCEDURE | OP_MAKE_VECTOR | OP_MAKE | OP_AND
  | OP_NULLP | OP_FIXNUMP | OP_SYMBOLP | OP_CHARP | OP_EOFP | OP_CAR | OP_CDR | OP_SET_CAR | OP_SET_CDR | OP_CONS
  | OP_ADD | OP_SUB | OP_MUL | OP_DIV | OP_QUOTIENT | OP_REMAINDER | OP_LT | OP_LE | OP_EQN
  | OP_CHAR2INT | OP_INT2CHAR | OP_RET | OP_DONE | OP_OTHER nat

datatype 'f code_unit = OP instr | WORD "('f, 'f bytecode) object" | SWORD int | CODE "'f bytecode" | REST
and 'f bytecode = BYTECODE (bytecode_data: "'f code_unit list") (bytecode_max_depth: int)

datatype opcode_class =
    OPC_GENERIC | OPC_TYPE_PREDICATE | OPC_PREDICATE | OPC_ARITHMETIC | OPC_ARITHMETIC_CMP | OPC_IO
  | OPC_CONSTRUCTOR | OPC_GETTER | OPC_SETTER | OPC_PARAMETER | OPC_FOREIGN

record 'f opcode =
  sexp_opcode_class :: opcode_class
  sexp_opcode_code :: instr
  sexp_opcode_num_args :: nat
  sexp_opcode_variadic_p :: bool
  sexp_opcode_opt_param_p :: bool
  sexp_opcode_static_param_p :: bool
  sexp_opcode_tail_call_p :: bool
  sexp_opcode_inverse :: bool
  sexp_opcode_data :: "'f datum option"
  sexp_opcode_data2 :: "'f datum option"
  sexp_opcode_returns_void :: bool

subsection \<open>The syntax tree\<close>

text \<open>
  A reference to a global variable has the address of its cell, and whether the cell was undefined when code was
  generated; a reference to a local variable has the lambda that binds it.  A lambda has an
  identity, its parameters and rest parameter, the variables defined inside, the variables that
  are changed and the free variables.
\<close>

datatype var = GLOBAL nat bool | LOCAL ident nat

datatype 'f ast =
    LIT "'f datum"
  | SELF "'f datum"
  | REF var
  | SET var "'f ast"
  | CND "'f ast" "'f ast" "'f ast"
  | SEQ "'f ast list"
  | APP "'f ast" "'f ast list"
  | LAMBDA nat "ident list" "ident option" "ident list" "ident list" "(ident \<times> nat) list" "'f ast"

text \<open>Positions of variables in a frame.\<close>

fun list_index :: "'a \<Rightarrow> 'a list \<Rightarrow> nat option" where
  "list_index x [] = None"
| "list_index x (y # ys) = (if y = x then Some 0 else map_option Suc (list_index x ys))"

fun frame_index :: "ident list \<Rightarrow> ident option \<Rightarrow> ident list \<Rightarrow> ident \<Rightarrow> int option" where
  "frame_index params rest locals name =
    (case list_index name params of Some i \<Rightarrow> Some (int i)
     | None \<Rightarrow> if rest = Some name then Some (int (length params))
         else case list_index name locals of Some i \<Rightarrow> Some (- 1 - int i - 4) | None \<Rightarrow> None)"

fun sexp_param_index :: "ident list \<Rightarrow> ident option \<Rightarrow> ident list \<Rightarrow> ident \<Rightarrow> int" where
  "sexp_param_index params rest locals (SYMBOL s) =
    (case frame_index params rest locals (SYMBOL s) of Some i \<Rightarrow> i | None \<Rightarrow> - 10000)"
| "sexp_param_index params rest locals (NUMBERED n) =
    (case frame_index params rest locals (NUMBERED n) of Some i \<Rightarrow> i | None \<Rightarrow> - 10000)"
| "sexp_param_index params rest locals (SYNCLO k name) =
    (case frame_index params rest locals (SYNCLO k name) of Some i \<Rightarrow> i | None \<Rightarrow> sexp_param_index params rest locals name)"

text \<open>Whether a rest parameter is used.\<close>

fun usedp :: "nat \<Rightarrow> ident \<Rightarrow> 'f ast \<Rightarrow> bool" where
  "usedp lambda v (REF (LOCAL name loc)) = (name = v \<and> loc = lambda)"
| "usedp lambda v (REF (GLOBAL c u)) = False"
| "usedp lambda v (SET ref x) = usedp lambda v x"
| "usedp lambda v (LAMBDA k ps r ls sv fv body) = usedp lambda v body"
| "usedp lambda v (CND test pass fail) = (usedp lambda v test \<or> usedp lambda v pass \<or> usedp lambda v fail)"
| "usedp lambda v (SEQ es) = (\<exists>e \<in> set es. usedp lambda v e)"
| "usedp lambda v (APP f args) = (usedp lambda v f \<or> (\<exists>e \<in> set args. usedp lambda v e))"
| "usedp lambda v (LIT x) = False"
| "usedp lambda v (SELF x) = False"

fun sexp_rest_unused_p :: "nat \<Rightarrow> ident option \<Rightarrow> 'f ast \<Rightarrow> bool" where
  "sexp_rest_unused_p lambda None body = False"
| "sexp_rest_unused_p lambda (Some v) body = (\<not> usedp lambda v body)"

subsection \<open>The context of the generator\<close>

record 'f gctx =
  sexp_context_bc :: "'f code_unit list"
  sexp_context_depth :: int
  sexp_context_max_depth :: int
  sexp_context_tailp :: bool
  sexp_context_lambda :: "'f ast option"

definition word_bytes :: "'f code_unit \<Rightarrow> 'f code_unit list" where
  "word_bytes w = w # replicate 7 REST"

definition sexp_inc_context_pos :: "int \<Rightarrow> 'f gctx \<Rightarrow> 'f gctx" where
  "sexp_inc_context_pos off c = c\<lparr>sexp_context_bc :=
    (if off < 0 then take (length (sexp_context_bc c) - nat (- off)) (sexp_context_bc c)
     else sexp_context_bc c @ replicate (nat off) REST)\<rparr>"

definition sexp_inc_context_depth :: "int \<Rightarrow> 'f gctx \<Rightarrow> 'f gctx" where
  "sexp_inc_context_depth off c =
    (let c = c\<lparr>sexp_context_depth := sexp_context_depth c + off\<rparr>
     in if sexp_context_depth c > sexp_context_max_depth c then c\<lparr>sexp_context_max_depth := sexp_context_depth c\<rparr> else c)"

definition sexp_emit :: "instr \<Rightarrow> 'f gctx \<Rightarrow> 'f gctx" where
  "sexp_emit i c = c\<lparr>sexp_context_bc := sexp_context_bc c @ [OP i]\<rparr>"

definition sexp_emit_word :: "'f code_unit \<Rightarrow> 'f gctx \<Rightarrow> 'f gctx" where
  "sexp_emit_word w c = c\<lparr>sexp_context_bc := sexp_context_bc c @ word_bytes w\<rparr>"

definition sexp_emit_push :: "('f, 'f bytecode) object \<Rightarrow> 'f gctx \<Rightarrow> 'f gctx" where
  "sexp_emit_push obj c = sexp_inc_context_depth 1 (sexp_emit_word (WORD obj) (sexp_emit OP_PUSH c))"

definition sexp_emit_return :: "'f gctx \<Rightarrow> 'f gctx" where
  "sexp_emit_return c = sexp_emit OP_RET c"

definition sexp_context_make_label :: "'f gctx \<Rightarrow> nat \<times> 'f gctx" where
  "sexp_context_make_label c = (length (sexp_context_bc c), sexp_inc_context_pos 8 c)"

definition sexp_context_patch_label :: "nat \<Rightarrow> 'f gctx \<Rightarrow> 'f gctx" where
  "sexp_context_patch_label label c =
    c\<lparr>sexp_context_bc := (sexp_context_bc c)[label := SWORD (int (length (sexp_context_bc c)) - int label)]\<rparr>"

definition sexp_complete_bytecode :: "'f gctx \<Rightarrow> 'f bytecode" where
  "sexp_complete_bytecode c =
    (let c = sexp_emit_return c in BYTECODE (sexp_context_bc c) (sexp_context_max_depth c))"

definition set_tailp :: "bool \<Rightarrow> 'f gctx \<Rightarrow> 'f gctx" where
  "set_tailp b c = c\<lparr>sexp_context_tailp := b\<rparr>"

subsection \<open>Generating code\<close>

definition generate_lit :: "('f, 'f bytecode) object \<Rightarrow> 'f gctx \<Rightarrow> 'f gctx" where
  "generate_lit v = sexp_emit_push v"

fun drop_push :: "(nat \<Rightarrow> 'f opcode) \<Rightarrow> 'f ast \<Rightarrow> bool" where
  "drop_push optab (APP (SELF (OPCODE k)) args) = (sexp_opcode_code (optab k) = OP_PUSH)"
| "drop_push optab (SET ref x) = True"
| "drop_push optab (LIT x) = True"
| "drop_push optab (SELF SVOID) = True"
| "drop_push optab x = False"

definition generate_drop_prev :: "(nat \<Rightarrow> 'f opcode) \<Rightarrow> 'f ast \<Rightarrow> 'f gctx \<Rightarrow> 'f gctx" where
  "generate_drop_prev optab prev c =
    (if drop_push optab prev then sexp_inc_context_pos (- 9) c else sexp_emit OP_DROP c)"

text \<open>A head of a sequence that is an immediate or a literal is not generated.  A sequence is never empty.\<close>

fun skipped :: "'f ast \<Rightarrow> bool" where
  "skipped (LIT v) = True" | "skipped (SELF v) = immediate v" | "skipped x = False"

fun generate_heads :: "(nat \<Rightarrow> 'f opcode) \<Rightarrow> ('f ast \<times> ('f gctx \<Rightarrow> 'f gctx)) list \<Rightarrow> 'f gctx \<Rightarrow> 'f gctx" where
  "generate_heads optab [] c = c"
| "generate_heads optab [(x, gen)] c = c"
| "generate_heads optab ((x, gen) # y # ls) c =
    generate_heads optab (y # ls)
      (if skipped x then c else sexp_inc_context_depth (- 1) (generate_drop_prev optab x (gen c)))"

definition generate_seq :: "(nat \<Rightarrow> 'f opcode) \<Rightarrow> ('f ast \<times> ('f gctx \<Rightarrow> 'f gctx)) list \<Rightarrow> 'f gctx \<Rightarrow> 'f gctx" where
  "generate_seq optab app c =
    (let tailp = sexp_context_tailp c;
         c = generate_heads optab app (set_tailp False c);
         c = set_tailp tailp c
     in if app = [] then c else snd (last app) c)"

definition generate_cnd ::
  "('f gctx \<Rightarrow> 'f gctx) \<Rightarrow> ('f gctx \<Rightarrow> 'f gctx) \<Rightarrow> ('f gctx \<Rightarrow> 'f gctx) \<Rightarrow> 'f gctx \<Rightarrow> 'f gctx" where
  "generate_cnd test pass fail c =
    (let tailp = sexp_context_tailp c;
         c = set_tailp tailp (test (set_tailp False c));
         c = sexp_inc_context_depth (- 1) (sexp_emit OP_JUMP_UNLESS c);
         (label1, c) = sexp_context_make_label c;
         c = set_tailp tailp (pass c);
         c = sexp_inc_context_depth (- 1) (sexp_emit OP_JUMP c);
         (label2, c) = sexp_context_make_label c;
         c = sexp_context_patch_label label1 c;
         c = fail c
     in sexp_context_patch_label label2 c)"

text \<open>\<open>sv\<close> gives the changed variables of a lambda.\<close>

fun fv_index :: "(ident \<times> nat) \<Rightarrow> (ident \<times> nat) list \<Rightarrow> nat" where
  "fv_index r [] = 0"
| "fv_index r (s # fv) = (if s = r then 0 else Suc (fv_index r fv))"

definition generate_non_global_ref ::
  "(nat \<Rightarrow> ident list) \<Rightarrow> ident \<Rightarrow> nat \<Rightarrow> 'f ast option \<Rightarrow> (ident \<times> nat) list \<Rightarrow> bool \<Rightarrow> 'f gctx \<Rightarrow> 'f gctx" where
  "generate_non_global_ref sv name loc lambda fv unboxp c =
    (let c = (case lambda of
           Some (LAMBDA k params rest locals sv' fv' body) \<Rightarrow>
             if loc = k then sexp_emit_word (SWORD (sexp_param_index params rest locals name)) (sexp_emit OP_LOCAL_REF c)
             else sexp_emit_word (SWORD (int (fv_index (name, loc) fv))) (sexp_emit OP_CLOSURE_REF c)
         | _ \<Rightarrow> sexp_emit_word (SWORD (int (fv_index (name, loc) fv))) (sexp_emit OP_CLOSURE_REF c));
         c = (if unboxp \<and> name \<in> set (sv loc) then sexp_emit OP_CDR c else c)
     in sexp_inc_context_depth 1 c)"

fun lambda_fv :: "'f ast option \<Rightarrow> (ident \<times> nat) list" where
  "lambda_fv (Some (LAMBDA k ps r ls sv fv body)) = fv"
| "lambda_fv x = []"

fun lambdap :: "'f ast option \<Rightarrow> bool" where
  "lambdap (Some (LAMBDA k ps r ls sv fv body)) = True"
| "lambdap x = False"

fun generate_ref :: "(nat \<Rightarrow> ident list) \<Rightarrow> var \<Rightarrow> bool \<Rightarrow> 'f gctx \<Rightarrow> 'f gctx" where
  "generate_ref sv (GLOBAL cell undef) unboxp c =
    (if unboxp then
       sexp_emit_word (WORD (DATUM (PAIR cell))) (sexp_emit (if undef then OP_GLOBAL_REF else OP_GLOBAL_KNOWN_REF) c)
     else sexp_emit_push (DATUM (PAIR cell)) c)"
| "generate_ref sv (LOCAL name loc) unboxp c =
    (let lam = sexp_context_lambda c
     in if \<not> lambdap lam then sexp_emit_push (DATUM SVOID) c
        else generate_non_global_ref sv name loc lam (lambda_fv lam) unboxp c)"

fun local_index :: "'f ast option \<Rightarrow> ident \<Rightarrow> int" where
  "local_index (Some (LAMBDA k params rest locals sv fv body)) name = sexp_param_index params rest locals name"
| "local_index x name = - 10000"

text \<open>
  A definition inside a lambda whose variable is not boxed sets a slot of the frame; the lambda
  that binds it is then the current one.
\<close>

definition generate_set :: "(nat \<Rightarrow> ident list) \<Rightarrow> var \<Rightarrow> ('f gctx \<Rightarrow> 'f gctx) \<Rightarrow> 'f gctx \<Rightarrow> 'f gctx" where
  "generate_set sv ref gen c =
    (let c = gen (set_tailp False c);
         c = (case ref of
           GLOBAL cell undef \<Rightarrow>
             let c = (if undef then sexp_emit OP_DROP (generate_ref sv ref True c) else c)
             in sexp_emit OP_SET_CDR (sexp_emit_push (DATUM (PAIR cell)) c)
         | LOCAL name loc \<Rightarrow>
             if name \<in> set (sv loc) then sexp_emit OP_SET_CDR (generate_ref sv ref False c)
             else sexp_emit_word (SWORD (local_index (sexp_context_lambda c) name)) (sexp_emit OP_LOCAL_SET c))
     in sexp_inc_context_depth 1 (sexp_emit_push (DATUM SVOID) c))"

subsection \<open>Applications\<close>

text \<open>
  The default of an optional argument is pushed before the arguments, for an inverse opcode after
  them.  The converter of a parameter object is left out.
\<close>

fun fixnum_of :: "'f datum \<Rightarrow> int" where
  "fixnum_of (FIX i) = i" | "fixnum_of v = 0"

fun literal_of :: "'f ast \<Rightarrow> 'f datum" where
  "literal_of (LIT v) = v" | "literal_of (SELF v) = v" | "literal_of x = SVOID"

fun opcode_datum :: "'f datum \<Rightarrow> bool" where
  "opcode_datum (OPCODE k) = True" | "opcode_datum v = False"

definition has_default :: "'f opcode \<Rightarrow> nat \<Rightarrow> bool" where
  "has_default op num_args \<longleftrightarrow> sexp_opcode_class op \<noteq> OPC_PARAMETER \<and> num_args = sexp_opcode_num_args op
    \<and> sexp_opcode_variadic_p op \<and> sexp_opcode_data op \<noteq> None"

definition push_default :: "'f opcode \<Rightarrow> 'f gctx \<Rightarrow> 'f gctx" where
  "push_default op c =
    (let v = the (sexp_opcode_data op)
     in sexp_inc_context_depth 1
          (if sexp_opcode_opt_param_p op \<and> opcode_datum v
           then sexp_emit OP_CDR (sexp_emit_word (WORD (DATUM v)) (sexp_emit OP_PARAMETER_REF c))
           else sexp_emit_push (DATUM v) c))"

definition push_inverse_default :: "'f opcode \<Rightarrow> 'f gctx \<Rightarrow> 'f gctx" where
  "push_inverse_default op c =
    (let c = sexp_emit_push (DATUM (the (sexp_opcode_data op))) c;
         c = (if sexp_opcode_opt_param_p op then sexp_emit OP_CDR c else c)
     in sexp_inc_context_depth 1 c)"

text \<open>The order in which the arguments are pushed.\<close>

definition in_order :: "'f opcode \<Rightarrow> 'a list \<Rightarrow> 'a list" where
  "in_order op args =
    (if sexp_opcode_inverse op \<and> sexp_opcode_class op \<noteq> OPC_ARITHMETIC then args else rev args)"

definition emit_stack_ref :: "int \<Rightarrow> 'f gctx \<Rightarrow> 'f gctx" where
  "emit_stack_ref n c = sexp_emit_word (SWORD n) (sexp_emit OP_STACK_REF c)"

definition emit_compare :: "instr \<Rightarrow> nat \<Rightarrow> 'f gctx \<Rightarrow> 'f gctx" where
  "emit_compare code num_args c =
    (if num_args > 2 then
       let c = sexp_emit OP_AND (sexp_emit code (emit_stack_ref 2 (emit_stack_ref 2 c)));
           c = ((\<lambda>c. sexp_emit OP_AND (sexp_emit OP_AND (sexp_emit code (emit_stack_ref 3 (emit_stack_ref 3 c))))) ^^ (num_args - 2)) c
       in sexp_emit OP_AND c
     else sexp_emit code c)"

definition emit_data_words :: "'f opcode \<Rightarrow> 'f gctx \<Rightarrow> 'f gctx" where
  "emit_data_words op c =
    (if sexp_opcode_class op \<noteq> OPC_CONSTRUCTOR \<or> sexp_opcode_code op = OP_MAKE then
       let c = (case sexp_opcode_data op of Some v \<Rightarrow> sexp_emit_word (SWORD (fixnum_of v)) c | None \<Rightarrow> c)
       in (case sexp_opcode_data2 op of Some v \<Rightarrow> sexp_emit_word (SWORD (fixnum_of v)) c | None \<Rightarrow> c)
     else c)"

definition emit_operator :: "nat \<Rightarrow> 'f opcode \<Rightarrow> nat \<Rightarrow> ('f gctx \<Rightarrow> 'f gctx) list \<Rightarrow> 'f gctx \<Rightarrow> 'f gctx" where
  "emit_operator k op num_args gens c =
    (case sexp_opcode_class op of
       OPC_ARITHMETIC \<Rightarrow> (sexp_emit (sexp_opcode_code op) ^^ (num_args - 1)) c
     | OPC_ARITHMETIC_CMP \<Rightarrow> emit_compare (sexp_opcode_code op) num_args c
     | OPC_FOREIGN \<Rightarrow> sexp_emit_word (WORD (DATUM (OPCODE k))) (sexp_emit (sexp_opcode_code op) c)
     | OPC_TYPE_PREDICATE \<Rightarrow> emit_data_words op (sexp_emit (sexp_opcode_code op) c)
     | OPC_GETTER \<Rightarrow> emit_data_words op (sexp_emit (sexp_opcode_code op) c)
     | OPC_SETTER \<Rightarrow> emit_data_words op (sexp_emit (sexp_opcode_code op) c)
     | OPC_CONSTRUCTOR \<Rightarrow> emit_data_words op (sexp_emit (sexp_opcode_code op) c)
     | OPC_PARAMETER \<Rightarrow>
         let c = (if num_args > 0 then hd gens c else c);
             c = sexp_emit_word (WORD (DATUM (OPCODE k))) (sexp_emit OP_PARAMETER_REF c);
             c = sexp_emit (if num_args = 0 then OP_CDR else OP_SET_CDR) c
         in if num_args > 0 then sexp_emit_push (DATUM SVOID) c else c
     | _ \<Rightarrow> sexp_emit (sexp_opcode_code op) c)"

definition generate_opcode_app ::
  "(nat \<Rightarrow> 'f opcode) \<Rightarrow> nat \<Rightarrow> ('f ast \<times> ('f gctx \<Rightarrow> 'f gctx)) list \<Rightarrow> 'f gctx \<Rightarrow> 'f gctx" where
  "generate_opcode_app optab k args c =
    (let op = optab k in
     if sexp_opcode_tail_call_p op \<and> \<not> sexp_context_tailp c then generate_lit (DATUM SVOID) c
     else
       let num_args = length args;
           default = has_default op num_args;
           c = set_tailp False c;
           c = (if default \<and> \<not> sexp_opcode_inverse op then push_default op c else c);
           c = (if sexp_opcode_class op \<noteq> OPC_PARAMETER \<and> \<not> sexp_opcode_static_param_p op
                then fold (\<lambda>gen. gen) (in_order op (map snd args)) c else c);
           c = (if default \<and> sexp_opcode_inverse op then push_inverse_default op c else c);
           num_args = (if default then num_args + 1 else num_args);
           c = emit_operator k op num_args (map snd args) c;
           c = (if sexp_opcode_static_param_p op
                then fold (\<lambda>x. sexp_emit_word (SWORD (fixnum_of (literal_of x)))) (map fst args) c else c);
           c = (if sexp_opcode_returns_void op \<and> sexp_opcode_class op \<noteq> OPC_FOREIGN
                then sexp_emit_push (DATUM SVOID) c else c)
       in sexp_inc_context_depth (- (int num_args - 1)) c)"

definition generate_general_app :: "bool \<Rightarrow> ('f gctx \<Rightarrow> 'f gctx) \<Rightarrow> ('f gctx \<Rightarrow> 'f gctx) list \<Rightarrow> 'f gctx \<Rightarrow> 'f gctx" where
  "generate_general_app no_tail_calls gen gens c =
    (let len = length gens; tailp = sexp_context_tailp c;
         c = fold (\<lambda>gen. gen) (rev gens) (set_tailp False c);
         c = gen c;
         c = sexp_emit (if tailp \<and> \<not> no_tail_calls then OP_TAIL_CALL else OP_CALL) c;
         c = sexp_emit_word (WORD (DATUM (FIX (int len)))) c
     in sexp_inc_context_depth (- int len) (set_tailp tailp c))"

subsection \<open>Lambda expressions\<close>

definition box_variable :: "ident list \<Rightarrow> ident option \<Rightarrow> ident list \<Rightarrow> ident \<Rightarrow> 'f gctx \<Rightarrow> 'f gctx" where
  "box_variable params rest locals name c =
    (let k = sexp_param_index params rest locals name;
         c = sexp_emit_word (SWORD k) (sexp_emit OP_LOCAL_REF c);
         c = sexp_emit OP_CONS (sexp_emit_push (DATUM (IDENT name)) c)
     in sexp_emit_word (SWORD k) (sexp_emit OP_LOCAL_SET c))"

definition procedure_flags :: "nat \<Rightarrow> ident option \<Rightarrow> 'f ast \<Rightarrow> nat" where
  "procedure_flags k rest body =
    (if rest \<noteq> None then SEXP_PROC_VARIADIC + (if sexp_rest_unused_p k rest body then SEXP_PROC_UNUSED_REST else 0)
     else 0)"

definition new_context :: "'f ast option \<Rightarrow> 'f gctx" where
  "new_context lambda = \<lparr>sexp_context_bc = [], sexp_context_depth = 0, sexp_context_max_depth = 0,
    sexp_context_tailp = True, sexp_context_lambda = lambda\<rparr>"

text \<open>The code of a lambda, from the code generator of its body.\<close>

definition lambda_code :: "'f ast \<Rightarrow> ('f gctx \<Rightarrow> 'f gctx) \<Rightarrow> 'f bytecode" where
  "lambda_code lambda gen =
    (case lambda of
       LAMBDA k params rest locals sv fv body \<Rightarrow>
         (let c = (sexp_emit_push (DATUM SUNDEF) ^^ length locals) (new_context (Some lambda));
              c = fold (box_variable params rest locals) sv c
          in sexp_complete_bytecode (gen (set_tailp True c)))
     | _ \<Rightarrow> BYTECODE [] 0)"

text \<open>The slots of the vector of a closure are filled from the variables of the enclosing lambda.\<close>

fun close_variables ::
  "(nat \<Rightarrow> ident list) \<Rightarrow> 'f ast option \<Rightarrow> nat \<Rightarrow> (ident \<times> nat) list \<Rightarrow> 'f gctx \<Rightarrow> 'f gctx" where
  "close_variables sv prev_lambda k [] c = c"
| "close_variables sv prev_lambda k ((name, loc) # fv) c =
    (let c = generate_non_global_ref sv name loc prev_lambda (lambda_fv prev_lambda) False c;
         c = emit_stack_ref 3 (sexp_emit_push (DATUM (FIX (int k))) c);
         c = sexp_inc_context_depth (- 1) (sexp_emit OP_VECTOR_SET c)
     in close_variables sv prev_lambda (Suc k) fv c)"

definition generate_lambda :: "(nat \<Rightarrow> ident list) \<Rightarrow> 'f ast \<Rightarrow> ('f gctx \<Rightarrow> 'f gctx) \<Rightarrow> 'f gctx \<Rightarrow> 'f gctx" where
  "generate_lambda sv lambda gen c =
    (case lambda of
       LAMBDA k params rest locals sv' fv body \<Rightarrow>
         (let bc = lambda_code lambda gen; flags = procedure_flags k rest body
          in if fv = [] then generate_lit (PROCEDURE flags (length params) bc VECTOR0) c
             else
               let c = sexp_emit_push (DATUM (FIX (int (length fv)))) (sexp_emit_push (DATUM SVOID) c);
                   c = sexp_inc_context_depth (- 1) (sexp_emit OP_MAKE_VECTOR c);
                   c = close_variables sv (sexp_context_lambda c) 0 fv c;
                   c = sexp_emit_word (WORD (DATUM (FIX (int flags)))) (sexp_emit OP_MAKE_PROCEDURE c);
                   c = sexp_emit_word (WORD (DATUM (FIX (int (length params))))) c
               in sexp_emit_word (CODE bc) c)
     | _ \<Rightarrow> c)"

text \<open>\<open>env\<close>: the opcodes, the changed variables of every lambda, and the switch that turns tail calls off.\<close>

record 'f genv =
  opcode_table :: "nat \<Rightarrow> 'f opcode"
  lambda_sv :: "nat \<Rightarrow> ident list"
  no_tail_calls_p :: bool

fun sexp_generate :: "'f genv \<Rightarrow> 'f ast \<Rightarrow> 'f gctx \<Rightarrow> 'f gctx" where
  "sexp_generate E (APP (SELF (OPCODE k)) args) c =
    generate_opcode_app (opcode_table E) k (zip args (map (sexp_generate E) args)) c"
| "sexp_generate E (APP f args) c =
    generate_general_app (no_tail_calls_p E) (sexp_generate E f) (map (sexp_generate E) args) c"
| "sexp_generate E (LAMBDA k params rest locals sv fv body) c =
    generate_lambda (lambda_sv E) (LAMBDA k params rest locals sv fv body) (sexp_generate E body) c"
| "sexp_generate E (CND test pass fail) c =
    generate_cnd (sexp_generate E test) (sexp_generate E pass) (sexp_generate E fail) c"
| "sexp_generate E (REF ref) c = generate_ref (lambda_sv E) ref True c"
| "sexp_generate E (SET ref x) c = generate_set (lambda_sv E) ref (sexp_generate E x) c"
| "sexp_generate E (SEQ es) c = generate_seq (opcode_table E) (zip es (map (sexp_generate E) es)) c"
| "sexp_generate E (LIT v) c = generate_lit (DATUM v) c"
| "sexp_generate E (SELF v) c = generate_lit (DATUM v) c"

definition sexp_generate_op :: "'f genv \<Rightarrow> 'f ast \<Rightarrow> ('f, 'f bytecode) object" where
  "sexp_generate_op E x = PROCEDURE 0 0 (sexp_complete_bytecode (sexp_generate E x (new_context None))) VECTOR0"


text \<open>
  The procedure of an opcode that is called with \<open>i\<close> arguments, compiled when it is called.  The
  parameters are named by the fixnums from one on.
\<close>

definition make_param_list :: "nat \<Rightarrow> ident list" where
  "make_param_list i = map NUMBERED [1 ..< Suc i]"

definition opcode_procedure :: "'f genv \<Rightarrow> nat \<Rightarrow> nat \<Rightarrow> ('f, 'f bytecode) object" where
  "opcode_procedure E k i =
    (let params = make_param_list i;
         refs = map (\<lambda>name. REF (LOCAL name 0)) params;
         E' = E\<lparr>lambda_sv := \<lambda>_. []\<rparr>;
         ctx2 = new_context (Some (LAMBDA 0 params None [] [] [] (SELF SVOID)));
         c = generate_opcode_app (opcode_table E') k (zip refs (map (sexp_generate E') refs)) ctx2
     in PROCEDURE 0 i (sexp_complete_bytecode c) SVOID)"

definition make_opcode_procedure :: "'f genv \<Rightarrow> nat \<Rightarrow> nat \<Rightarrow> string + ('f, 'f bytecode) object" where
  "make_opcode_procedure E k i =
    (let op = opcode_table E k
     in if i < sexp_opcode_num_args op then Inl ''not enough args for opcode''
        else if i > sexp_opcode_num_args op \<and> \<not> sexp_opcode_variadic_p op then Inl ''too many args for opcode''
        else Inr (opcode_procedure E k i))"

end
