(* ===== verification/Vm.thy ===== *)
theory Vm
  imports Code
begin

text \<open>
  The virtual machine, the second part of \<^verbatim>\<open>vm.c\<close>.  The instructions that work on operands of the stack are
  functions of the operands and the heap, for objects with any representation of code; \<open>step\<close> runs the
  instruction at the instruction pointer.  The stack is the list of the objects below \<open>top\<close>, its bottom first.
  Exceptions keep their message and drop their irritants.  Allocation succeeds.  The scheduler of green threads, trampolines,
  parameter objects and the late lookup of renamed global variables are left out; functions of the foreign
  interface are a parameter.
\<close>

subsection \<open>Operands and results\<close>

text \<open>
  An instruction replaces its operands by a result, or removes them, or raises an exception:
  then the given number of operands is removed before the exception is pushed.
\<close>

datatype ('f, 'c) ires =
    RESULT "('f, 'c) object" "('f, 'c) heap"
  | EFFECT "('f, 'c) heap"
  | ERROR nat "'f datum"

record 'f world =
  w_flo :: "'f flo_ops"
  w_arith :: "'f arith"
  w_genv :: "'f genv"
  w_foreign :: "nat \<Rightarrow> ('f, 'f bytecode) object list \<Rightarrow> ('f, 'f bytecode) heap \<Rightarrow> ('f, 'f bytecode) object \<times> ('f, 'f bytecode) heap"
  w_can_grow :: "nat \<Rightarrow> bool"

fun make_boolean :: "bool \<Rightarrow> ('f, 'c) object" where
  "make_boolean True = DATUM STRUE" | "make_boolean False = DATUM SFALSE"

fun pair_at :: "('f, 'c) heap \<Rightarrow> ('f, 'c) object \<Rightarrow> (('f, 'c) object \<times> ('f, 'c) object \<times> bool) option" where
  "pair_at h (DATUM (PAIR a)) =
    (if a < length h then (case h ! a of PAIR_CELL x y im \<Rightarrow> Some (x, y, im) | _ \<Rightarrow> None) else None)"
| "pair_at h x = None"

fun vector_at :: "('f, 'c) heap \<Rightarrow> ('f, 'c) object \<Rightarrow> (('f, 'c) object list \<times> bool) option" where
  "vector_at h (DATUM (VECTOR a)) =
    (if a < length h then (case h ! a of VECTOR_CELL xs im \<Rightarrow> Some (xs, im) | _ \<Rightarrow> None) else None)"
| "vector_at h (DATUM VECTOR0) = Some ([], False)"
| "vector_at h x = None"

fun address :: "('f, 'c) object \<Rightarrow> nat" where
  "address (DATUM (PAIR a)) = a" | "address (DATUM (VECTOR a)) = a" | "address x = 0"

definition sexp_cons :: "('f, 'c) object \<Rightarrow> ('f, 'c) object \<Rightarrow> ('f, 'c) heap \<Rightarrow> ('f, 'c) object \<times> ('f, 'c) heap" where
  "sexp_cons x y h = (DATUM (PAIR (length h)), h @ [PAIR_CELL x y False])"

definition SEXP_MAX_VECTOR_LENGTH :: int where "SEXP_MAX_VECTOR_LENGTH = 2 ^ 61 - 1"

definition sexp_make_vector :: "int \<Rightarrow> ('f, 'c) object \<Rightarrow> ('f, 'c) heap \<Rightarrow> ('f, 'c) object \<times> ('f, 'c) heap" where
  "sexp_make_vector n dflt h =
    (if n = 0 then (DATUM VECTOR0, h)
     else if n < 0 \<or> n > SEXP_MAX_VECTOR_LENGTH then (DATUM (EXN ''vector length out of range''), h)
     else (DATUM (VECTOR (length h)), h @ [VECTOR_CELL (replicate (nat n) dflt) False]))"

subsection \<open>Pairs and vectors\<close>

definition vm_car :: "('f, 'c) heap \<Rightarrow> ('f, 'c) object \<Rightarrow> ('f, 'c) ires" where
  "vm_car h x = (case pair_at h x of Some (a, b, im) \<Rightarrow> RESULT a h | None \<Rightarrow> ERROR 0 (EXN ''car: not a pair''))"

definition vm_cdr :: "('f, 'c) heap \<Rightarrow> ('f, 'c) object \<Rightarrow> ('f, 'c) ires" where
  "vm_cdr h x = (case pair_at h x of Some (a, b, im) \<Rightarrow> RESULT b h | None \<Rightarrow> ERROR 0 (EXN ''cdr: not a pair''))"

definition vm_set_car :: "('f, 'c) heap \<Rightarrow> ('f, 'c) object \<Rightarrow> ('f, 'c) object \<Rightarrow> ('f, 'c) ires" where
  "vm_set_car h x v =
    (case pair_at h x of None \<Rightarrow> ERROR 0 (EXN ''set-car!: not a pair'')
     | Some (a, b, im) \<Rightarrow> if im then ERROR 0 (EXN ''set-car!: immutable pair'')
         else EFFECT (h[address x := PAIR_CELL v b im]))"

definition vm_set_cdr :: "('f, 'c) heap \<Rightarrow> ('f, 'c) object \<Rightarrow> ('f, 'c) object \<Rightarrow> ('f, 'c) ires" where
  "vm_set_cdr h x v =
    (case pair_at h x of None \<Rightarrow> ERROR 0 (EXN ''set-cdr!: not a pair'')
     | Some (a, b, im) \<Rightarrow> if im then ERROR 0 (EXN ''set-cdr!: immutable pair'')
         else EFFECT (h[address x := PAIR_CELL a v im]))"

definition vm_cons :: "('f, 'c) heap \<Rightarrow> ('f, 'c) object \<Rightarrow> ('f, 'c) object \<Rightarrow> ('f, 'c) ires" where
  "vm_cons h x y = (case sexp_cons x y h of (p, h) \<Rightarrow> RESULT p h)"

fun fixnum_at :: "('f, 'c) object \<Rightarrow> int option" where
  "fixnum_at (DATUM (FIX i)) = Some i" | "fixnum_at x = None"

definition vm_vector_ref :: "('f, 'c) heap \<Rightarrow> ('f, 'c) object \<Rightarrow> ('f, 'c) object \<Rightarrow> ('f, 'c) ires" where
  "vm_vector_ref h v n =
    (case vector_at h v of None \<Rightarrow> ERROR 0 (EXN ''vector-ref: not a vector'')
     | Some (xs, im) \<Rightarrow> (case fixnum_at n of None \<Rightarrow> ERROR 0 (EXN ''vector-ref: not an integer'')
         | Some i \<Rightarrow> if i < 0 \<or> i \<ge> int (length xs) then ERROR 0 (EXN ''vector-ref: index out of range'')
             else RESULT (xs ! nat i) h))"

definition vm_vector_set :: "('f, 'c) heap \<Rightarrow> ('f, 'c) object \<Rightarrow> ('f, 'c) object \<Rightarrow> ('f, 'c) object \<Rightarrow> ('f, 'c) ires" where
  "vm_vector_set h v n x =
    (case vector_at h v of None \<Rightarrow> ERROR 0 (EXN ''vector-set!: not a vector'')
     | Some (xs, im) \<Rightarrow> if im then ERROR 0 (EXN ''vector-set!: immutable vector'')
         else (case fixnum_at n of None \<Rightarrow> ERROR 0 (EXN ''vector-set!: not an integer'')
           | Some i \<Rightarrow> if i < 0 \<or> i \<ge> int (length xs) then ERROR 0 (EXN ''vector-set!: index out of range'')
               else EFFECT (h[address v := VECTOR_CELL (xs[nat i := x]) im])))"

definition vm_vector_length :: "('f, 'c) heap \<Rightarrow> ('f, 'c) object \<Rightarrow> ('f, 'c) ires" where
  "vm_vector_length h v =
    (case vector_at h v of None \<Rightarrow> ERROR 0 (EXN ''vector-length: not a vector'')
     | Some (xs, im) \<Rightarrow> RESULT (DATUM (FIX (int (length xs)))) h)"

definition vm_make_vector :: "('f, 'c) heap \<Rightarrow> ('f, 'c) object \<Rightarrow> ('f, 'c) object \<Rightarrow> ('f, 'c) ires" where
  "vm_make_vector h n dflt =
    (case fixnum_at n of None \<Rightarrow> ERROR 0 (EXN ''make-vector: not an integer'')
     | Some i \<Rightarrow> if i < 0 then ERROR 0 (EXN ''make-vector: length must be non-negative'')
         else (case sexp_make_vector i dflt h of (v, h) \<Rightarrow> RESULT v h))"

subsection \<open>Predicates and characters\<close>

definition vm_and :: "('f, 'c) object \<Rightarrow> ('f, 'c) object \<Rightarrow> ('f, 'c) object" where
  "vm_and x y = make_boolean (x \<noteq> DATUM SFALSE \<and> y \<noteq> DATUM SFALSE)"

fun symbol_object :: "('f, 'c) object \<Rightarrow> bool" where
  "symbol_object (DATUM (IDENT (SYMBOL s))) = True" | "symbol_object x = False"

fun char_at :: "('f, 'c) object \<Rightarrow> int option" where
  "char_at (DATUM (CHARACTER i)) = Some i" | "char_at x = None"

definition vm_char2int :: "('f, 'c) heap \<Rightarrow> ('f, 'c) object \<Rightarrow> ('f, 'c) ires" where
  "vm_char2int h x =
    (case char_at x of None \<Rightarrow> ERROR 0 (EXN ''char->integer: not a character'')
     | Some i \<Rightarrow> RESULT (DATUM (FIX (signed_take_bit 31 i))) h)"

text \<open>The integer is shifted up by the eight bits of the tag, so 56 bits of it are left.\<close>

definition vm_int2char :: "('f, 'c) heap \<Rightarrow> ('f, 'c) object \<Rightarrow> ('f, 'c) ires" where
  "vm_int2char h x =
    (case fixnum_at x of None \<Rightarrow> ERROR 0 (EXN ''integer->char: not an integer'')
     | Some i \<Rightarrow> RESULT (DATUM (CHARACTER (signed_take_bit 55 i))) h)"

subsection \<open>Arithmetic\<close>

text \<open>
  Numbers are handed to the generic arithmetic as its values; every other object is there an
  object that is not a number.
\<close>

fun to_sexp :: "('f, 'c) object \<Rightarrow> 'f sexp" where
  "to_sexp (DATUM (FIX i)) = fixnum_obj i"
| "to_sexp (DATUM (NUM x)) = x"
| "to_sexp x = OBJECT 0"

fun of_sexp :: "'f sexp \<Rightarrow> 'f datum" where
  "of_sexp (IMM w) = (if sexp_fixnump_w w then FIX (fixnum_value w) else NUM (IMM w))"
| "of_sexp x = NUM x"

definition as_result :: "('f, 'c) heap \<Rightarrow> 'f sexp option \<Rightarrow> ('f, 'c) ires option" where
  "as_result h r = map_option (\<lambda>r. RESULT (DATUM (of_sexp r)) h) r"

definition or_exception :: "('f, 'c) heap \<Rightarrow> 'f sexp option \<Rightarrow> ('f, 'c) ires option" where
  "or_exception h r = map_option (\<lambda>r. if sexp_exceptionp r then ERROR 2 (NUM r) else RESULT (DATUM (of_sexp r)) h) r"

definition fix_to_bignum :: "int \<Rightarrow> 'f sexp" where
  "fix_to_bignum i = BIGNUM (sexp_fixnum_to_bignum (fixnum_word i))"

definition vm_add :: "'f world \<Rightarrow> ('f, 'c) heap \<Rightarrow> ('f, 'c) object \<Rightarrow> ('f, 'c) object \<Rightarrow> ('f, 'c) ires option" where
  "vm_add W h x y =
    (case (fixnum_at x, fixnum_at y) of
       (Some i, Some j) \<Rightarrow>
         if fits_fixnum (i + j) then Some (RESULT (DATUM (FIX (i + j))) h)
         else as_result h (r_add (w_arith W) (fix_to_bignum i) (to_sexp y))
     | _ \<Rightarrow> or_exception h (r_add (w_arith W) (to_sexp x) (to_sexp y)))"

definition vm_sub :: "'f world \<Rightarrow> ('f, 'c) heap \<Rightarrow> ('f, 'c) object \<Rightarrow> ('f, 'c) object \<Rightarrow> ('f, 'c) ires option" where
  "vm_sub W h x y =
    (case (fixnum_at x, fixnum_at y) of
       (Some i, Some j) \<Rightarrow>
         if fits_fixnum (i - j) then Some (RESULT (DATUM (FIX (i - j))) h)
         else as_result h (r_sub (w_arith W) (fix_to_bignum i) (to_sexp y))
     | _ \<Rightarrow> or_exception h (r_sub (w_arith W) (to_sexp x) (to_sexp y)))"

definition vm_mul :: "'f world \<Rightarrow> ('f, 'c) heap \<Rightarrow> ('f, 'c) object \<Rightarrow> ('f, 'c) object \<Rightarrow> ('f, 'c) ires option" where
  "vm_mul W h x y =
    (case (fixnum_at x, fixnum_at y) of
       (Some i, Some j) \<Rightarrow>
         if fits_fixnum (i * j) then Some (RESULT (DATUM (FIX (i * j))) h)
         else as_result h (r_mul (w_arith W) (fix_to_bignum i) (to_sexp y))
     | _ \<Rightarrow> or_exception h (r_mul (w_arith W) (to_sexp x) (to_sexp y)))"

definition vm_div :: "'f world \<Rightarrow> ('f, 'c) heap \<Rightarrow> ('f, 'c) object \<Rightarrow> ('f, 'c) object \<Rightarrow> ('f, 'c) ires option" where
  "vm_div W h x y =
    (if y = DATUM (FIX 0) then
       (case to_sexp x of
          FLONUM f \<Rightarrow> if f_eq (w_flo W) f (f_of_int (w_flo W) 0)
            then Some (RESULT (DATUM (NUM (FLONUM (f_of_int (w_flo W) 0)))) h)
            else Some (ERROR 1 (EXN ''divide by zero''))
        | _ \<Rightarrow> Some (ERROR 1 (EXN ''divide by zero'')))
     else case (fixnum_at x, fixnum_at y) of
       (Some i, Some j) \<Rightarrow> as_result h (sexp_ratio_normalize (w_flo W) (w_arith W) (RATIO (to_sexp x) (to_sexp y)))
     | _ \<Rightarrow> or_exception h (r_div (w_arith W) (to_sexp x) (to_sexp y)))"

definition vm_quotient :: "'f world \<Rightarrow> ('f, 'c) heap \<Rightarrow> ('f, 'c) object \<Rightarrow> ('f, 'c) object \<Rightarrow> ('f, 'c) ires option" where
  "vm_quotient W h x y =
    (case (fixnum_at x, fixnum_at y) of
       (Some i, Some j) \<Rightarrow>
         if j = 0 then Some (ERROR 1 (EXN ''divide by zero''))
         else if i = - (2 ^ 62) \<and> j = - 1 then
           let b = sexp_fixnum_to_bignum (fixnum_word i)
           in Some (RESULT (DATUM (NUM (BIGNUM (b\<lparr>sexp_bignum_sign := - sexp_bignum_sign b\<rparr>)))) h)
         else Some (RESULT (DATUM (FIX (c_div i j))) h)
     | _ \<Rightarrow> or_exception h (r_quotient (w_arith W) (to_sexp x) (to_sexp y)))"

definition vm_remainder :: "'f world \<Rightarrow> ('f, 'c) heap \<Rightarrow> ('f, 'c) object \<Rightarrow> ('f, 'c) object \<Rightarrow> ('f, 'c) ires option" where
  "vm_remainder W h x y =
    (case (fixnum_at x, fixnum_at y) of
       (Some i, Some j) \<Rightarrow>
         if j = 0 then Some (ERROR 1 (EXN ''divide by zero''))
         else Some (RESULT (DATUM (FIX (c_rem i j))) h)
     | _ \<Rightarrow> or_exception h (r_remainder (w_arith W) (to_sexp x) (to_sexp y)))"

text \<open>A comparison with a NaN is false; any other exception is raised.\<close>

definition compared :: "('f, 'c) heap \<Rightarrow> ('f sexp \<Rightarrow> bool) \<Rightarrow> 'f sexp option \<Rightarrow> ('f, 'c) ires option" where
  "compared h test r = map_option (\<lambda>r. case r of
     EXCEPTION e x \<Rightarrow> if e = Xtype_error ''can't compare NaN'' then RESULT (DATUM SFALSE) h else ERROR 2 (NUM r)
   | _ \<Rightarrow> RESULT (make_boolean (test r)) h) r"

definition vm_lt :: "'f world \<Rightarrow> ('f, 'c) heap \<Rightarrow> ('f, 'c) object \<Rightarrow> ('f, 'c) object \<Rightarrow> ('f, 'c) ires option" where
  "vm_lt W h x y =
    (case (fixnum_at x, fixnum_at y) of
       (Some i, Some j) \<Rightarrow> Some (RESULT (make_boolean (i < j)) h)
     | _ \<Rightarrow> compared h (\<lambda>r. sint (unbox_fixnum r) < 0) (r_compare (w_arith W) (to_sexp x) (to_sexp y)))"

definition vm_le :: "'f world \<Rightarrow> ('f, 'c) heap \<Rightarrow> ('f, 'c) object \<Rightarrow> ('f, 'c) object \<Rightarrow> ('f, 'c) ires option" where
  "vm_le W h x y =
    (case (fixnum_at x, fixnum_at y) of
       (Some i, Some j) \<Rightarrow> Some (RESULT (make_boolean (i \<le> j)) h)
     | _ \<Rightarrow> compared h (\<lambda>r. sint (unbox_fixnum r) \<le> 0) (r_compare (w_arith W) (to_sexp x) (to_sexp y)))"

text \<open>
  Numeric equality of complex numbers: an imaginary part that is the flonum zero is dropped, from the first
  and then from the second operand; otherwise the parts are compared, and a complex number never equals a real one.
\<close>

fun sexp_numberp :: "'f sexp \<Rightarrow> bool" where
  "sexp_numberp (IMM w) = sexp_fixnump_w w" | "sexp_numberp (EXCEPTION e x) = False"
| "sexp_numberp (OBJECT n) = False" | "sexp_numberp x = True"

definition real_complex :: "'f flo_ops \<Rightarrow> 'f sexp \<Rightarrow> bool" where
  "real_complex F x \<longleftrightarrow> (case sexp_complex_imag x of FLONUM f \<Rightarrow> f_eq F f (f_of_int F 0) | _ \<Rightarrow> False)"

definition same_parts :: "'f world \<Rightarrow> 'f sexp \<Rightarrow> 'f sexp \<Rightarrow> bool option" where
  "same_parts W a b =
    do {
      r \<leftarrow> r_compare (w_arith W) (sexp_complex_real a) (sexp_complex_real b);
      (if r = SEXP_ZERO then do {
         i \<leftarrow> r_compare (w_arith W) (sexp_complex_imag a) (sexp_complex_imag b);
         Some (i = SEXP_ZERO)
       } else Some False)
    }"

definition vm_eqn :: "'f world \<Rightarrow> ('f, 'c) heap \<Rightarrow> ('f, 'c) object \<Rightarrow> ('f, 'c) object \<Rightarrow> ('f, 'c) ires option" where
  "vm_eqn W h x y =
    (case (fixnum_at x, fixnum_at y) of
       (Some i, Some j) \<Rightarrow> Some (RESULT (make_boolean (i = j)) h)
     | _ \<Rightarrow>
       let a = to_sexp x; b = to_sexp y; no = Some (RESULT (DATUM SFALSE) h) in
       if sexp_complexp a \<and> \<not> real_complex (w_flo W) a \<and> sexp_complexp b then
         map_option (\<lambda>t. RESULT (make_boolean t) h) (same_parts W a b)
       else if sexp_complexp a \<and> \<not> real_complex (w_flo W) a \<and> sexp_numberp b then no
       else
         let a = (if sexp_complexp a \<and> real_complex (w_flo W) a then sexp_complex_real a else a) in
         if sexp_complexp b \<and> \<not> real_complex (w_flo W) b \<and> sexp_numberp a then no
         else
           let b = (if sexp_complexp b \<and> real_complex (w_flo W) b then sexp_complex_real b else b)
           in compared h (\<lambda>r. r = SEXP_ZERO) (r_compare (w_arith W) a b))"

subsection \<open>Instructions on operands\<close>

definition operands :: "instr \<Rightarrow> nat" where
  "operands i =
    (case i of
       OP_VECTOR_REF \<Rightarrow> 2 | OP_VECTOR_SET \<Rightarrow> 3 | OP_VECTOR_LENGTH \<Rightarrow> 1 | OP_MAKE_VECTOR \<Rightarrow> 2
     | OP_AND \<Rightarrow> 2 | OP_NULLP \<Rightarrow> 1 | OP_FIXNUMP \<Rightarrow> 1 | OP_SYMBOLP \<Rightarrow> 1
     | OP_CHARP \<Rightarrow> 1 | OP_EOFP \<Rightarrow> 1 | OP_CAR \<Rightarrow> 1 | OP_CDR \<Rightarrow> 1
     | OP_SET_CAR \<Rightarrow> 2 | OP_SET_CDR \<Rightarrow> 2 | OP_CONS \<Rightarrow> 2 | OP_ADD \<Rightarrow> 2
     | OP_SUB \<Rightarrow> 2 | OP_MUL \<Rightarrow> 2 | OP_DIV \<Rightarrow> 2 | OP_QUOTIENT \<Rightarrow> 2
     | OP_REMAINDER \<Rightarrow> 2 | OP_LT \<Rightarrow> 2 | OP_LE \<Rightarrow> 2 | OP_EQN \<Rightarrow> 2
     | OP_CHAR2INT \<Rightarrow> 1 | OP_INT2CHAR \<Rightarrow> 1 | _ \<Rightarrow> 0)"

text \<open>The operands are given from the top of the stack down.\<close>

fun on_1 :: "('a \<Rightarrow> 'b option) \<Rightarrow> 'a list \<Rightarrow> 'b option" where
  "on_1 f [x] = f x" | "on_1 f xs = None"

fun on_2 :: "('a \<Rightarrow> 'a \<Rightarrow> 'b option) \<Rightarrow> 'a list \<Rightarrow> 'b option" where
  "on_2 f [x, y] = f x y" | "on_2 f xs = None"

fun on_3 :: "('a \<Rightarrow> 'a \<Rightarrow> 'a \<Rightarrow> 'b option) \<Rightarrow> 'a list \<Rightarrow> 'b option" where
  "on_3 f [x, y, z] = f x y z" | "on_3 f xs = None"

definition primitive :: "'f world \<Rightarrow> instr \<Rightarrow> ('f, 'c) heap \<Rightarrow> ('f, 'c) object list \<Rightarrow> ('f, 'c) ires option" where
  "primitive W i h xs =
    (case i of
       OP_VECTOR_REF \<Rightarrow> on_2 (\<lambda>x y. Some (vm_vector_ref h x y)) xs
     | OP_VECTOR_SET \<Rightarrow> on_3 (\<lambda>x y z. Some (vm_vector_set h x y z)) xs
     | OP_VECTOR_LENGTH \<Rightarrow> on_1 (\<lambda>x. Some (vm_vector_length h x)) xs
     | OP_MAKE_VECTOR \<Rightarrow> on_2 (\<lambda>x y. Some (vm_make_vector h x y)) xs
     | OP_AND \<Rightarrow> on_2 (\<lambda>x y. Some (RESULT (vm_and x y) h)) xs
     | OP_NULLP \<Rightarrow> on_1 (\<lambda>x. Some (RESULT (make_boolean (x = DATUM SNULL)) h)) xs
     | OP_FIXNUMP \<Rightarrow> on_1 (\<lambda>x. Some (RESULT (make_boolean (fixnum_at x \<noteq> None)) h)) xs
     | OP_SYMBOLP \<Rightarrow> on_1 (\<lambda>x. Some (RESULT (make_boolean (symbol_object x)) h)) xs
     | OP_CHARP \<Rightarrow> on_1 (\<lambda>x. Some (RESULT (make_boolean (char_at x \<noteq> None)) h)) xs
     | OP_EOFP \<Rightarrow> on_1 (\<lambda>x. Some (RESULT (make_boolean (x = DATUM SEOF)) h)) xs
     | OP_CAR \<Rightarrow> on_1 (\<lambda>x. Some (vm_car h x)) xs
     | OP_CDR \<Rightarrow> on_1 (\<lambda>x. Some (vm_cdr h x)) xs
     | OP_SET_CAR \<Rightarrow> on_2 (\<lambda>x y. Some (vm_set_car h x y)) xs
     | OP_SET_CDR \<Rightarrow> on_2 (\<lambda>x y. Some (vm_set_cdr h x y)) xs
     | OP_CONS \<Rightarrow> on_2 (\<lambda>x y. Some (vm_cons h x y)) xs
     | OP_ADD \<Rightarrow> on_2 (\<lambda>x y. vm_add W h x y) xs
     | OP_SUB \<Rightarrow> on_2 (\<lambda>x y. vm_sub W h x y) xs
     | OP_MUL \<Rightarrow> on_2 (\<lambda>x y. vm_mul W h x y) xs
     | OP_DIV \<Rightarrow> on_2 (\<lambda>x y. vm_div W h x y) xs
     | OP_QUOTIENT \<Rightarrow> on_2 (\<lambda>x y. vm_quotient W h x y) xs
     | OP_REMAINDER \<Rightarrow> on_2 (\<lambda>x y. vm_remainder W h x y) xs
     | OP_LT \<Rightarrow> on_2 (\<lambda>x y. vm_lt W h x y) xs
     | OP_LE \<Rightarrow> on_2 (\<lambda>x y. vm_le W h x y) xs
     | OP_EQN \<Rightarrow> on_2 (\<lambda>x y. vm_eqn W h x y) xs
     | OP_CHAR2INT \<Rightarrow> on_1 (\<lambda>x. Some (vm_char2int h x)) xs
     | OP_INT2CHAR \<Rightarrow> on_1 (\<lambda>x. Some (vm_int2char h x)) xs
     | _ \<Rightarrow> None)"

subsection \<open>The state of the machine\<close>

record 'f vm =
  vm_ip :: int
  vm_self :: "('f, 'f bytecode) object"
  vm_stack :: "('f, 'f bytecode) object list"
  vm_fp :: int
  vm_heap :: "('f, 'f bytecode) heap"
  vm_stack_length :: int
  vm_handler :: "('f, 'f bytecode) object"

datatype 'f vm_outcome = RUN "'f vm" | HALT "('f, 'f bytecode) object" "'f vm" | STUCK

fun procedure_code :: "('f, 'f bytecode) object \<Rightarrow> 'f code_unit list" where
  "procedure_code (PROCEDURE flags n bc vars) = bytecode_data bc" | "procedure_code x = []"

fun procedure_vars :: "('f, 'c) object \<Rightarrow> ('f, 'c) object" where
  "procedure_vars (PROCEDURE flags n bc vars) = DATUM vars" | "procedure_vars x = DATUM SVOID"

fun procedurep :: "('f, 'c) object \<Rightarrow> bool" where
  "procedurep (PROCEDURE flags n bc vars) = True" | "procedurep x = False"

fun exceptionp :: "('f, 'c) object \<Rightarrow> bool" where
  "exceptionp (DATUM (EXN m)) = True" | "exceptionp (DATUM (NUM x)) = sexp_exceptionp x" | "exceptionp x = False"

text \<open>The operand words that follow an instruction, whose pointer has been moved past the opcode.\<close>

definition operand :: "'f vm \<Rightarrow> nat \<Rightarrow> 'f code_unit" where
  "operand s k =
    (let code = procedure_code (vm_self s); i = nat (vm_ip s) + 8 * k in if i < length code then code ! i else REST)"

fun unit_int :: "'f code_unit \<Rightarrow> int" where
  "unit_int (SWORD n) = n" | "unit_int (WORD (DATUM (FIX n))) = n" | "unit_int u = 0"

fun unit_object :: "'f code_unit \<Rightarrow> ('f, 'f bytecode) object" where
  "unit_object (WORD x) = x" | "unit_object u = DATUM SVOID"

fun unit_code :: "'f code_unit \<Rightarrow> 'f bytecode" where
  "unit_code (CODE bc) = bc" | "unit_code u = BYTECODE [] 0"

fun object_int :: "('f, 'c) object \<Rightarrow> int" where
  "object_int (DATUM (FIX n)) = n" | "object_int x = 0"

definition fix_object :: "int \<Rightarrow> ('f, 'c) object" where "fix_object n = DATUM (FIX n)"

definition push :: "('f, 'f bytecode) object \<Rightarrow> 'f vm \<Rightarrow> 'f vm" where
  "push x s = s\<lparr>vm_stack := vm_stack s @ [x]\<rparr>"

definition drop_top :: "nat \<Rightarrow> 'f vm \<Rightarrow> 'f vm" where
  "drop_top n s = s\<lparr>vm_stack := take (length (vm_stack s) - n) (vm_stack s)\<rparr>"

definition advance_ip :: "int \<Rightarrow> 'f vm \<Rightarrow> 'f vm" where
  "advance_ip n s = s\<lparr>vm_ip := vm_ip s + n\<rparr>"

definition stack_at :: "'f vm \<Rightarrow> int \<Rightarrow> ('f, 'f bytecode) object option" where
  "stack_at s i = (if 0 \<le> i \<and> i < int (length (vm_stack s)) then Some (vm_stack s ! nat i) else None)"

subsection \<open>Exceptions\<close>

text \<open>
  The object on top of the stack is raised.  Without an error handler the machine stops with it;
  otherwise the handler is called with it.
\<close>

definition raise_top :: "'f vm \<Rightarrow> 'f vm_outcome" where
  "raise_top s =
    (if vm_stack s = [] then STUCK
     else if \<not> procedurep (vm_handler s) then
       HALT (if exceptionp (last (vm_stack s)) then last (vm_stack s) else DATUM (EXN ''uncaught'')) s
     else
       RUN (s\<lparr>vm_stack := vm_stack s @ [fix_object 1, fix_object (vm_ip s), vm_self s, fix_object (vm_fp s)],
              vm_self := vm_handler s, vm_ip := 0, vm_fp := int (length (vm_stack s))\<rparr>))"

definition raise_exn :: "string \<Rightarrow> 'f vm \<Rightarrow> 'f vm_outcome" where
  "raise_exn msg s = raise_top (push (DATUM (EXN msg)) s)"

subsection \<open>The size of the stack\<close>

definition SEXP_MAX_STACK_SIZE :: int where "SEXP_MAX_STACK_SIZE = 8192 * 1000"

definition sexp_grow_stack :: "'f world \<Rightarrow> int \<Rightarrow> int \<Rightarrow> int option" where
  "sexp_grow_stack W old_size min_size =
    (let new_size = (if old_size * 2 < min_size then min_size else old_size * 2)
     in if new_size > SEXP_MAX_STACK_SIZE \<and> old_size = SEXP_MAX_STACK_SIZE then None
        else let new_size = (if new_size > SEXP_MAX_STACK_SIZE then SEXP_MAX_STACK_SIZE else new_size)
             in if w_can_grow W (nat new_size) then Some new_size else None)"

definition sexp_ensure_stack :: "'f world \<Rightarrow> int \<Rightarrow> 'f vm \<Rightarrow> 'f vm option" where
  "sexp_ensure_stack W n s =
    (if int (length (vm_stack s)) + n \<ge> vm_stack_length s
     then map_option (\<lambda>l. s\<lparr>vm_stack_length := l\<rparr>) (sexp_grow_stack W (vm_stack_length s) n)
     else Some s)"

definition out_of_stack :: "'f vm \<Rightarrow> 'f vm_outcome" where
  "out_of_stack s = HALT (DATUM (EXN ''out of stack space'')) (push (DATUM (EXN ''out of stack space'')) (drop_top 1 s))"

subsection \<open>Procedure calls\<close>

text \<open>The rest arguments, the last one first, become a list.\<close>

fun cons_rest :: "('f, 'c) object list \<Rightarrow> ('f, 'c) object \<Rightarrow> ('f, 'c) heap \<Rightarrow> ('f, 'c) object \<times> ('f, 'c) heap" where
  "cons_rest [] ls h = (ls, h)"
| "cons_rest (x # xs) ls h = (case sexp_cons x ls h of (ls, h) \<Rightarrow> cons_rest xs ls h)"

definition variadic_p :: "nat \<Rightarrow> bool" where "variadic_p flags \<longleftrightarrow> odd flags"

definition unused_rest_p :: "nat \<Rightarrow> bool" where "unused_rest_p flags \<longleftrightarrow> odd (flags div 2)"

text \<open>
  What happens to the \<open>i\<close> arguments of a call, the last argument first: the arguments the procedure
  sees, or the exception.
\<close>

definition adjust_args ::
  "nat \<Rightarrow> nat \<Rightarrow> ('f, 'c) object list \<Rightarrow> ('f, 'c) heap \<Rightarrow> string + ('f, 'c) object list \<times> ('f, 'c) heap" where
  "adjust_args flags n args h =
    (let i = length args in
     if i < n then Inl ''not enough args''
     else if i > n then
       if variadic_p flags then
         if unused_rest_p flags then Inr (args, h)
         else (case cons_rest (take (i - n) args) (DATUM SNULL) h of (ls, h) \<Rightarrow> Inr (ls # drop (i - n) args, h))
       else Inl ''too many args''
     else if variadic_p flags \<and> \<not> unused_rest_p flags then Inr (DATUM SNULL # args, h)
     else Inr (args, h))"

text \<open>
  A call of \<open>tmp1\<close> with \<open>i\<close> arguments below the top of the stack; the caller goes on eight bytes
  after the instruction pointer.
\<close>

definition enter :: "'f world \<Rightarrow> nat \<Rightarrow> ('f, 'f bytecode) object \<Rightarrow> 'f vm \<Rightarrow> 'f vm_outcome" where
  "enter W i tmp1 s =
    (case tmp1 of
       PROCEDURE flags n bc vars \<Rightarrow>
         if i < n then raise_exn ''not enough args'' s
         else (case sexp_ensure_stack W (bytecode_max_depth bc + 64) s of
             None \<Rightarrow> out_of_stack s
           | Some s \<Rightarrow>
               let top = length (vm_stack s); base = take (top - 1 - i) (vm_stack s);
                   args = take i (drop (top - 1 - i) (vm_stack s))
               in (case adjust_args flags n args (vm_heap s) of
                     Inl msg \<Rightarrow> raise_exn msg s
                   | Inr (args, h) \<Rightarrow>
                       let st = base @ args @
                             [fix_object (int (length args)), fix_object (vm_ip s + 8), vm_self s, fix_object (vm_fp s)]
                       in RUN (s\<lparr>vm_stack := st, vm_heap := h, vm_self := tmp1, vm_ip := 0, vm_fp := int (length st) - 4\<rparr>)))
     | _ \<Rightarrow> raise_exn ''non procedure application'' s)"

definition make_call :: "'f world \<Rightarrow> nat \<Rightarrow> ('f, 'f bytecode) object \<Rightarrow> 'f vm \<Rightarrow> 'f vm_outcome" where
  "make_call W i tmp1 s =
    (if length (vm_stack s) < i + 1 then STUCK
     else case tmp1 of
       DATUM (OPCODE k) \<Rightarrow>
         (case make_opcode_procedure (w_genv W) k i of
            Inl msg \<Rightarrow> raise_top (push (DATUM (EXN msg)) (drop_top 1 s))
          | Inr proc \<Rightarrow> enter W i proc s)
     | _ \<Rightarrow> enter W i tmp1 s)"

definition vm_call :: "'f world \<Rightarrow> 'f vm \<Rightarrow> 'f vm_outcome" where
  "vm_call W s =
    (if vm_stack s = [] then STUCK else make_call W (nat (unit_int (operand s 0))) (last (vm_stack s)) s)"

text \<open>The new arguments overwrite the frame, and the call returns to the caller of the frame.\<close>

definition vm_tail_call :: "'f world \<Rightarrow> 'f vm \<Rightarrow> 'f vm_outcome" where
  "vm_tail_call W s =
    (let i = nat (unit_int (operand s 0)); fp = vm_fp s; top = length (vm_stack s)
     in case (stack_at s fp, stack_at s (fp + 1), stack_at s (fp + 2), stack_at s (fp + 3)) of
          (Some j, Some ip, Some self, Some fp') \<Rightarrow>
            if top < i + 1 \<or> fp < object_int j then STUCK
            else
              let tmp1 = last (vm_stack s);
                  base = take (nat (fp - object_int j)) (vm_stack s);
                  args = take i (drop (top - 1 - i) (vm_stack s))
              in make_call W i tmp1 (s\<lparr>vm_stack := base @ args @ [tmp1], vm_self := self,
                   vm_ip := object_int ip - 8, vm_fp := object_int fp'\<rparr>)
        | _ \<Rightarrow> STUCK)"

definition vm_ret :: "'f vm \<Rightarrow> 'f vm_outcome" where
  "vm_ret s =
    (let fp = vm_fp s
     in case (stack_at s fp, stack_at s (fp + 1), stack_at s (fp + 2), stack_at s (fp + 3)) of
          (Some i, Some ip, Some self, Some fp') \<Rightarrow>
            if fp < object_int i then STUCK
            else RUN (s\<lparr>vm_stack := take (nat (fp - object_int i)) (vm_stack s) @ [last (vm_stack s)],
                   vm_self := self, vm_ip := object_int ip, vm_fp := object_int fp'\<rparr>)
        | _ \<Rightarrow> STUCK)"

subsection \<open>Continuations\<close>

definition RESUMECC_BYTECODE :: "'f bytecode" where "RESUMECC_BYTECODE = BYTECODE [OP OP_RESUMECC, OP OP_RET] 0"

text \<open>
  The stack with a frame on top is copied into a vector of the heap, and the continuation is a
  procedure that closes over it.  When the stack has to grow to hold the copy, the code goes on with the address of
  the old stack, so that case is given no meaning.
\<close>

definition vm_callcc :: "'f world \<Rightarrow> 'f vm \<Rightarrow> 'f vm_outcome" where
  "vm_callcc W s =
    (if vm_stack s = [] then STUCK
     else
       let tmp1 = last (vm_stack s); h = vm_heap s;
           saved = vm_stack s @ [fix_object 1, fix_object (vm_ip s), vm_self s, fix_object (vm_fp s)];
           cont = PROCEDURE 0 1 RESUMECC_BYTECODE (VECTOR (length h))
       in make_call W 1 tmp1 (s\<lparr>vm_stack := butlast (vm_stack s) @ [cont, fix_object 1], vm_ip := vm_ip s - 8,
            vm_heap := h @ [VECTOR_CELL [DATUM (VECTOR (length h + 1))] False, VECTOR_CELL saved False]\<rparr>))"

definition vm_resumecc :: "'f world \<Rightarrow> 'f vm \<Rightarrow> 'f vm_outcome" where
  "vm_resumecc W s =
    (case (stack_at s (vm_fp s - 1), vector_at (vm_heap s) (procedure_vars (vm_self s))) of
       (Some tmp1, Some (v # vs, im)) \<Rightarrow>
         (case vector_at (vm_heap s) v of
            Some (saved, im) \<Rightarrow>
              let n = length saved
              in if int n + 64 \<ge> vm_stack_length s then
                   (case sexp_grow_stack W (vm_stack_length s) (int n + 64) of
                      None \<Rightarrow> raise_top (push (DATUM (EXN ''out of stack space'')) (drop_top 1 s))
                    | Some l \<Rightarrow> STUCK)
                 else if n < 5 then STUCK
                 else RUN (s\<lparr>vm_stack := take (n - 5) saved @ [tmp1], vm_fp := object_int (saved ! (n - 1)),
                        vm_self := saved ! (n - 2), vm_ip := object_int (saved ! (n - 3))\<rparr>)
          | None \<Rightarrow> STUCK)
     | _ \<Rightarrow> STUCK)"

subsection \<open>One instruction\<close>

text \<open>A call of a foreign function with \<open>n\<close> operands, the first one on top.\<close>

definition vm_fcall :: "'f world \<Rightarrow> nat \<Rightarrow> 'f vm \<Rightarrow> 'f vm_outcome" where
  "vm_fcall W n s =
    (if length (vm_stack s) < n then STUCK
     else case unit_object (operand s 0) of
       DATUM (OPCODE k) \<Rightarrow>
         (let args = rev (drop (length (vm_stack s) - n) (vm_stack s));
              (x, h) = w_foreign W k args (vm_heap s);
              s = advance_ip 8 (push x (drop_top n (s\<lparr>vm_heap := h\<rparr>)))
          in if exceptionp x then raise_top s else RUN s)
     | _ \<Rightarrow> STUCK)"

definition vm_primitive :: "'f world \<Rightarrow> instr \<Rightarrow> 'f vm \<Rightarrow> 'f vm_outcome" where
  "vm_primitive W i s =
    (let n = operands i; top = length (vm_stack s)
     in if n = 0 \<or> top < n then STUCK
        else case primitive W i (vm_heap s) (rev (drop (top - n) (vm_stack s))) of
          None \<Rightarrow> STUCK
        | Some (RESULT x h) \<Rightarrow> RUN (push x (drop_top n (s\<lparr>vm_heap := h\<rparr>)))
        | Some (EFFECT h) \<Rightarrow> RUN (drop_top n (s\<lparr>vm_heap := h\<rparr>))
        | Some (ERROR k e) \<Rightarrow> raise_top (push (DATUM e) (drop_top k s)))"

definition vm_global_ref :: "bool \<Rightarrow> 'f vm \<Rightarrow> 'f vm_outcome" where
  "vm_global_ref check s =
    (case pair_at (vm_heap s) (unit_object (operand s 0)) of
       None \<Rightarrow> STUCK
     | Some (name, x, im) \<Rightarrow>
         if check \<and> x = DATUM SUNDEF then raise_exn ''undefined variable'' s else RUN (advance_ip 8 (push x s)))"

definition vm_local_ref :: "'f vm \<Rightarrow> 'f vm_outcome" where
  "vm_local_ref s =
    (case stack_at s (vm_fp s - 1 - unit_int (operand s 0)) of
       None \<Rightarrow> STUCK | Some x \<Rightarrow> RUN (advance_ip 8 (push x s)))"

definition vm_local_set :: "'f vm \<Rightarrow> 'f vm_outcome" where
  "vm_local_set s =
    (let i = vm_fp s - 1 - unit_int (operand s 0)
     in if i < 0 \<or> i + 1 \<ge> int (length (vm_stack s)) then STUCK
        else RUN (advance_ip 8 (s\<lparr>vm_stack := (butlast (vm_stack s))[nat i := last (vm_stack s)]\<rparr>)))"

definition vm_stack_ref :: "'f vm \<Rightarrow> 'f vm_outcome" where
  "vm_stack_ref s =
    (case stack_at s (int (length (vm_stack s)) - unit_int (operand s 0)) of
       None \<Rightarrow> STUCK | Some x \<Rightarrow> RUN (advance_ip 8 (push x s)))"

definition vm_closure_ref :: "'f vm \<Rightarrow> 'f vm_outcome" where
  "vm_closure_ref s =
    (let i = unit_int (operand s 0)
     in case vector_at (vm_heap s) (procedure_vars (vm_self s)) of
          None \<Rightarrow> STUCK
        | Some (xs, im) \<Rightarrow> if i < 0 \<or> i \<ge> int (length xs) then STUCK else RUN (advance_ip 8 (push (xs ! nat i) s)))"

fun datum_of :: "('f, 'c) object \<Rightarrow> 'f datum" where
  "datum_of (DATUM v) = v" | "datum_of x = SVOID"

definition vm_make_procedure :: "'f vm \<Rightarrow> 'f vm_outcome" where
  "vm_make_procedure s =
    (if vm_stack s = [] then STUCK
     else RUN (advance_ip 24 (push
       (PROCEDURE (nat (unit_int (operand s 0))) (nat (unit_int (operand s 1))) (unit_code (operand s 2)) (datum_of (last (vm_stack s))))
       (drop_top 1 s))))"

definition vm_jump_unless :: "'f vm \<Rightarrow> 'f vm_outcome" where
  "vm_jump_unless s =
    (if vm_stack s = [] then STUCK
     else RUN (advance_ip (if last (vm_stack s) = DATUM SFALSE then unit_int (operand s 0) else 8) (drop_top 1 s)))"

definition execute :: "'f world \<Rightarrow> instr \<Rightarrow> 'f vm \<Rightarrow> 'f vm_outcome" where
  "execute W i s =
    (case i of
       OP_NOOP \<Rightarrow> RUN s
     | OP_RAISE \<Rightarrow> raise_top s
     | OP_RESUMECC \<Rightarrow> vm_resumecc W s
     | OP_CALLCC \<Rightarrow> vm_callcc W s
     | OP_TAIL_CALL \<Rightarrow> vm_tail_call W s
     | OP_CALL \<Rightarrow> vm_call W s
     | OP_FCALL0 \<Rightarrow> vm_fcall W 0 s
     | OP_FCALL1 \<Rightarrow> vm_fcall W 1 s
     | OP_FCALL2 \<Rightarrow> vm_fcall W 2 s
     | OP_FCALL3 \<Rightarrow> vm_fcall W 3 s
     | OP_FCALL4 \<Rightarrow> vm_fcall W 4 s
     | OP_JUMP_UNLESS \<Rightarrow> vm_jump_unless s
     | OP_JUMP \<Rightarrow> RUN (advance_ip (unit_int (operand s 0)) s)
     | OP_PUSH \<Rightarrow> RUN (advance_ip 8 (push (unit_object (operand s 0)) s))
     | OP_DROP \<Rightarrow> RUN (drop_top 1 s)
     | OP_GLOBAL_REF \<Rightarrow> vm_global_ref True s
     | OP_GLOBAL_KNOWN_REF \<Rightarrow> vm_global_ref False s
     | OP_STACK_REF \<Rightarrow> vm_stack_ref s
     | OP_LOCAL_REF \<Rightarrow> vm_local_ref s
     | OP_LOCAL_SET \<Rightarrow> vm_local_set s
     | OP_CLOSURE_REF \<Rightarrow> vm_closure_ref s
     | OP_MAKE_PROCEDURE \<Rightarrow> vm_make_procedure s
     | OP_RET \<Rightarrow> vm_ret s
     | OP_DONE \<Rightarrow> (if vm_stack s = [] then STUCK else HALT (last (vm_stack s)) s)
     | _ \<Rightarrow> vm_primitive W i s)"

definition step :: "'f world \<Rightarrow> 'f vm \<Rightarrow> 'f vm_outcome" where
  "step W s =
    (let code = procedure_code (vm_self s)
     in if vm_ip s < 0 \<or> vm_ip s \<ge> int (length code) then STUCK
        else case code ! nat (vm_ip s) of OP i \<Rightarrow> execute W i (advance_ip 1 s) | _ \<Rightarrow> STUCK)"

fun run :: "'f world \<Rightarrow> nat \<Rightarrow> 'f vm \<Rightarrow> 'f vm_outcome" where
  "run W 0 s = RUN s"
| "run W (Suc n) s = (case step W s of RUN s \<Rightarrow> run W n s | r \<Rightarrow> r)"

definition FINAL_RESUMER :: "('f, 'f bytecode) object" where
  "FINAL_RESUMER = PROCEDURE 0 0 (BYTECODE [OP OP_DONE, OP OP_RET] 0) VECTOR0"

text \<open>
  \<open>sexp_apply\<close>: the arguments are pushed, the first one on top, and the procedure is called from a frame that
  ends the loop.  \<open>n\<close> bounds the number of instructions.
\<close>

definition sexp_apply_start ::
  "'f world \<Rightarrow> ('f, 'f bytecode) object \<Rightarrow> ('f, 'f bytecode) object list \<Rightarrow> 'f vm \<Rightarrow> 'f vm_outcome" where
  "sexp_apply_start W proc args s =
    (let i = length args; top = length (vm_stack s); s = s\<lparr>vm_fp := int top - 4, vm_self := FINAL_RESUMER, vm_ip := - 8\<rparr>
     in case sexp_ensure_stack W (int i + 64 + (case proc of PROCEDURE f n bc v \<Rightarrow> bytecode_max_depth bc | _ \<Rightarrow> 0)) s of
          None \<Rightarrow> out_of_stack s
        | Some s \<Rightarrow> make_call W i proc (s\<lparr>vm_stack := vm_stack s @ rev args @ [proc]\<rparr>))"

definition sexp_apply ::
  "'f world \<Rightarrow> nat \<Rightarrow> ('f, 'f bytecode) object \<Rightarrow> ('f, 'f bytecode) object list \<Rightarrow> 'f vm \<Rightarrow> 'f vm_outcome" where
  "sexp_apply W n proc args s =
    (case sexp_apply_start W proc args s of RUN s \<Rightarrow> run W n s | r \<Rightarrow> r)"

end
