(* ===== verification/Emit.thy ===== *)
theory Emit
  imports Vm
begin

text \<open>
  The code of an expression as a list: \<open>compile\<close> gives what the generator appends to the byte code, with the
  jump offsets computed from lengths instead of patched, and without the context.
\<close>

subsection \<open>Code as a list\<close>

definition push_code :: "('f, 'f bytecode) object \<Rightarrow> 'f code_unit list" where
  "push_code v = OP OP_PUSH # word_bytes (WORD v)"

definition instr_word :: "instr \<Rightarrow> 'f code_unit \<Rightarrow> 'f code_unit list" where
  "instr_word i w = OP i # word_bytes w"

fun same_lambda :: "'f ast option \<Rightarrow> nat \<Rightarrow> bool" where
  "same_lambda (Some (LAMBDA k ps r ls sv fv body)) loc = (loc = k)" | "same_lambda x loc = False"

definition var_code :: "(nat \<Rightarrow> ident list) \<Rightarrow> ident \<Rightarrow> nat \<Rightarrow> 'f ast option \<Rightarrow> bool \<Rightarrow> 'f code_unit list" where
  "var_code sv name loc lam unboxp =
    (if same_lambda lam loc then instr_word OP_LOCAL_REF (SWORD (local_index lam name))
     else instr_word OP_CLOSURE_REF (SWORD (int (fv_index (name, loc) (lambda_fv lam)))))
    @ (if unboxp \<and> name \<in> set (sv loc) then [OP OP_CDR] else [])"

fun ref_code :: "(nat \<Rightarrow> ident list) \<Rightarrow> 'f ast option \<Rightarrow> var \<Rightarrow> bool \<Rightarrow> 'f code_unit list" where
  "ref_code sv lam (GLOBAL cell undef) unboxp =
    (if unboxp then instr_word (if undef then OP_GLOBAL_REF else OP_GLOBAL_KNOWN_REF) (WORD (DATUM (PAIR cell)))
     else push_code (DATUM (PAIR cell)))"
| "ref_code sv lam (LOCAL name loc) unboxp =
    (if lambdap lam then var_code sv name loc lam unboxp else push_code (DATUM SVOID))"

fun set_code :: "(nat \<Rightarrow> ident list) \<Rightarrow> 'f ast option \<Rightarrow> var \<Rightarrow> 'f code_unit list" where
  "set_code sv lam (GLOBAL cell undef) =
    (if undef then ref_code sv lam (GLOBAL cell undef) True @ [OP OP_DROP] else []) @ push_code (DATUM (PAIR cell)) @ [OP OP_SET_CDR]"
| "set_code sv lam (LOCAL name loc) =
    (if name \<in> set (sv loc) then ref_code sv lam (LOCAL name loc) False @ [OP OP_SET_CDR]
     else instr_word OP_LOCAL_SET (SWORD (local_index lam name)))"

definition cnd_code :: "'f code_unit list \<Rightarrow> 'f code_unit list \<Rightarrow> 'f code_unit list \<Rightarrow> 'f code_unit list" where
  "cnd_code t p f =
    t @ instr_word OP_JUMP_UNLESS (SWORD (int (length p) + 17)) @ p @ instr_word OP_JUMP (SWORD (int (length f) + 8)) @ f"

definition head_code :: "(nat \<Rightarrow> 'f opcode) \<Rightarrow> 'f ast \<Rightarrow> 'f code_unit list \<Rightarrow> 'f code_unit list" where
  "head_code optab x cs =
    (if skipped x then [] else if drop_push optab x then take (length cs - 9) cs else cs @ [OP OP_DROP])"

fun heads_code :: "(nat \<Rightarrow> 'f opcode) \<Rightarrow> ('f ast \<times> 'f code_unit list) list \<Rightarrow> 'f code_unit list" where
  "heads_code optab [] = []"
| "heads_code optab [x] = []"
| "heads_code optab ((x, cs) # y # ls) = head_code optab x cs @ heads_code optab (y # ls)"

definition compare_code :: "instr \<Rightarrow> nat \<Rightarrow> 'f code_unit list" where
  "compare_code code num_args =
    (if num_args > 2 then
       instr_word OP_STACK_REF (SWORD 2) @ instr_word OP_STACK_REF (SWORD 2) @ [OP code, OP OP_AND]
       @ concat (replicate (num_args - 2)
           (instr_word OP_STACK_REF (SWORD 3) @ instr_word OP_STACK_REF (SWORD 3) @ [OP code, OP OP_AND, OP OP_AND]))
       @ [OP OP_AND]
     else [OP code])"

definition data_words :: "'f opcode \<Rightarrow> 'f code_unit list" where
  "data_words op =
    (if sexp_opcode_class op \<noteq> OPC_CONSTRUCTOR \<or> sexp_opcode_code op = OP_MAKE then
       (case sexp_opcode_data op of Some v \<Rightarrow> word_bytes (SWORD (fixnum_of v)) | None \<Rightarrow> [])
       @ (case sexp_opcode_data2 op of Some v \<Rightarrow> word_bytes (SWORD (fixnum_of v)) | None \<Rightarrow> [])
     else [])"

definition default_code :: "'f opcode \<Rightarrow> 'f code_unit list" where
  "default_code op =
    (let v = the (sexp_opcode_data op)
     in if sexp_opcode_opt_param_p op \<and> opcode_datum v
        then instr_word OP_PARAMETER_REF (WORD (DATUM v)) @ [OP OP_CDR] else push_code (DATUM v))"

definition inverse_default_code :: "'f opcode \<Rightarrow> 'f code_unit list" where
  "inverse_default_code op =
    push_code (DATUM (the (sexp_opcode_data op))) @ (if sexp_opcode_opt_param_p op then [OP OP_CDR] else [])"

definition operator_code :: "nat \<Rightarrow> 'f opcode \<Rightarrow> nat \<Rightarrow> 'f code_unit list list \<Rightarrow> 'f code_unit list" where
  "operator_code k op num_args css =
    (case sexp_opcode_class op of
       OPC_ARITHMETIC \<Rightarrow> replicate (num_args - 1) (OP (sexp_opcode_code op))
     | OPC_ARITHMETIC_CMP \<Rightarrow> compare_code (sexp_opcode_code op) num_args
     | OPC_FOREIGN \<Rightarrow> instr_word (sexp_opcode_code op) (WORD (DATUM (OPCODE k)))
     | OPC_TYPE_PREDICATE \<Rightarrow> OP (sexp_opcode_code op) # data_words op
     | OPC_GETTER \<Rightarrow> OP (sexp_opcode_code op) # data_words op
     | OPC_SETTER \<Rightarrow> OP (sexp_opcode_code op) # data_words op
     | OPC_CONSTRUCTOR \<Rightarrow> OP (sexp_opcode_code op) # data_words op
     | OPC_PARAMETER \<Rightarrow>
         (if num_args > 0 then hd css else []) @ instr_word OP_PARAMETER_REF (WORD (DATUM (OPCODE k)))
         @ [OP (if num_args = 0 then OP_CDR else OP_SET_CDR)] @ (if num_args > 0 then push_code (DATUM SVOID) else [])
     | _ \<Rightarrow> [OP (sexp_opcode_code op)])"

definition opcode_app_code ::
  "(nat \<Rightarrow> 'f opcode) \<Rightarrow> nat \<Rightarrow> bool \<Rightarrow> 'f ast list \<Rightarrow> 'f code_unit list list \<Rightarrow> 'f code_unit list" where
  "opcode_app_code optab k tailp args css =
    (let op = optab k in
     if sexp_opcode_tail_call_p op \<and> \<not> tailp then push_code (DATUM SVOID)
     else
       let num_args = length args; default = has_default op num_args
       in (if default \<and> \<not> sexp_opcode_inverse op then default_code op else [])
        @ (if sexp_opcode_class op \<noteq> OPC_PARAMETER \<and> \<not> sexp_opcode_static_param_p op then concat (in_order op css) else [])
        @ (if default \<and> sexp_opcode_inverse op then inverse_default_code op else [])
        @ operator_code k op (if default then num_args + 1 else num_args) css
        @ (if sexp_opcode_static_param_p op
           then concat (map (\<lambda>x. word_bytes (SWORD (fixnum_of (literal_of x)))) args) else [])
        @ (if sexp_opcode_returns_void op \<and> sexp_opcode_class op \<noteq> OPC_FOREIGN then push_code (DATUM SVOID) else []))"

definition box_code :: "ident list \<Rightarrow> ident option \<Rightarrow> ident list \<Rightarrow> ident \<Rightarrow> 'f code_unit list" where
  "box_code params rest locals name =
    (let k = sexp_param_index params rest locals name
     in instr_word OP_LOCAL_REF (SWORD k) @ push_code (DATUM (IDENT name)) @ [OP OP_CONS] @ instr_word OP_LOCAL_SET (SWORD k))"

fun close_code ::
  "(nat \<Rightarrow> ident list) \<Rightarrow> 'f ast option \<Rightarrow> nat \<Rightarrow> (ident \<times> nat) list \<Rightarrow> 'f code_unit list" where
  "close_code sv lam k [] = []"
| "close_code sv lam k ((name, loc) # fv) =
    var_code sv name loc lam False @ push_code (DATUM (FIX (int k))) @ instr_word OP_STACK_REF (SWORD 3) @ [OP OP_VECTOR_SET]
    @ close_code sv lam (Suc k) fv"

definition lambda_expr_code ::
  "(nat \<Rightarrow> ident list) \<Rightarrow> 'f ast option \<Rightarrow> nat \<Rightarrow> nat \<Rightarrow> (ident \<times> nat) list \<Rightarrow> 'f bytecode \<Rightarrow> 'f code_unit list" where
  "lambda_expr_code sv lam flags n fv bc =
    (if fv = [] then push_code (PROCEDURE flags n bc VECTOR0)
     else push_code (DATUM SVOID) @ push_code (DATUM (FIX (int (length fv)))) @ [OP OP_MAKE_VECTOR]
       @ close_code sv lam 0 fv
       @ instr_word OP_MAKE_PROCEDURE (WORD (DATUM (FIX (int flags)))) @ word_bytes (WORD (DATUM (FIX (int n))))
       @ word_bytes (CODE bc))"

fun compile :: "'f genv \<Rightarrow> 'f ast option \<Rightarrow> bool \<Rightarrow> 'f ast \<Rightarrow> 'f code_unit list" where
  "compile E lam t (APP (SELF (OPCODE k)) args) =
    opcode_app_code (opcode_table E) k t args (map (compile E lam False) args)"
| "compile E lam t (APP f args) =
    concat (rev (map (compile E lam False) args)) @ compile E lam False f
    @ instr_word (if t \<and> \<not> no_tail_calls_p E then OP_TAIL_CALL else OP_CALL) (WORD (DATUM (FIX (int (length args)))))"
| "compile E lam t (LAMBDA k params rest locals sv fv body) =
    lambda_expr_code (lambda_sv E) lam (procedure_flags k rest body) (length params) fv
      (lambda_code (LAMBDA k params rest locals sv fv body) (sexp_generate E body))"
| "compile E lam t (CND test pass fail) = cnd_code (compile E lam False test) (compile E lam t pass) (compile E lam t fail)"
| "compile E lam t (REF ref) = ref_code (lambda_sv E) lam ref True"
| "compile E lam t (SET ref x) = compile E lam False x @ set_code (lambda_sv E) lam ref @ push_code (DATUM SVOID)"
| "compile E lam t (SEQ es) =
    heads_code (opcode_table E) (zip es (map (compile E lam False) es))
    @ (if es = [] then [] else last (map (compile E lam t) es))"
| "compile E lam t (LIT v) = push_code (DATUM v)"
| "compile E lam t (SELF v) = push_code (DATUM v)"

subsection \<open>The generator appends it\<close>

text \<open>A step of the generator that appends \<open>code lam tailp\<close> and keeps the lambda; it may end out of tail position.\<close>

definition appends :: "('f gctx \<Rightarrow> 'f gctx) \<Rightarrow> ('f ast option \<Rightarrow> bool \<Rightarrow> 'f code_unit list) \<Rightarrow> bool" where
  "appends gen code \<longleftrightarrow> (\<forall>c.
     sexp_context_bc (gen c) = sexp_context_bc c @ code (sexp_context_lambda c) (sexp_context_tailp c)
     \<and> sexp_context_lambda (gen c) = sexp_context_lambda c
     \<and> (sexp_context_tailp (gen c) \<longrightarrow> sexp_context_tailp c))"

lemma appendsD:
  assumes "appends gen code"
  shows "sexp_context_bc (gen c) = sexp_context_bc c @ code (sexp_context_lambda c) (sexp_context_tailp c)"
    "sexp_context_lambda (gen c) = sexp_context_lambda c" "sexp_context_tailp (gen c) \<Longrightarrow> sexp_context_tailp c"
  using assms by (simp_all add: appends_def)

lemma context_set_tailp [simp]:
  "sexp_context_bc (set_tailp t c) = sexp_context_bc c" "sexp_context_lambda (set_tailp t c) = sexp_context_lambda c"
  "sexp_context_tailp (set_tailp t c) = t"
  by (simp_all add: set_tailp_def)

lemma context_inc_depth [simp]:
  "sexp_context_bc (sexp_inc_context_depth n c) = sexp_context_bc c"
  "sexp_context_lambda (sexp_inc_context_depth n c) = sexp_context_lambda c"
  "sexp_context_tailp (sexp_inc_context_depth n c) = sexp_context_tailp c"
  by (simp_all add: sexp_inc_context_depth_def Let_def)

lemma context_emit [simp]:
  "sexp_context_bc (sexp_emit i c) = sexp_context_bc c @ [OP i]"
  "sexp_context_lambda (sexp_emit i c) = sexp_context_lambda c" "sexp_context_tailp (sexp_emit i c) = sexp_context_tailp c"
  "sexp_context_bc (sexp_emit_word w c) = sexp_context_bc c @ word_bytes w"
  "sexp_context_lambda (sexp_emit_word w c) = sexp_context_lambda c" "sexp_context_tailp (sexp_emit_word w c) = sexp_context_tailp c"
  by (simp_all add: sexp_emit_def sexp_emit_word_def)

lemma context_push [simp]:
  "sexp_context_bc (sexp_emit_push v c) = sexp_context_bc c @ push_code v"
  "sexp_context_lambda (sexp_emit_push v c) = sexp_context_lambda c" "sexp_context_tailp (sexp_emit_push v c) = sexp_context_tailp c"
  by (simp_all add: sexp_emit_push_def push_code_def)

lemma context_inc_pos [simp]:
  "sexp_context_lambda (sexp_inc_context_pos n c) = sexp_context_lambda c"
  "sexp_context_tailp (sexp_inc_context_pos n c) = sexp_context_tailp c"
  "sexp_context_bc (sexp_inc_context_pos 8 c) = sexp_context_bc c @ replicate 8 REST"
  "sexp_context_bc (sexp_inc_context_pos (- 9) c) = take (length (sexp_context_bc c) - 9) (sexp_context_bc c)"
  by (simp_all add: sexp_inc_context_pos_def)

lemma length_codes [simp]:
  "length (word_bytes w) = 8" "length (push_code v) = 9" "length (instr_word i w) = 9" "push_code v \<noteq> []" "word_bytes w \<noteq> []"
  by (simp_all add: word_bytes_def push_code_def instr_word_def)

lemma local_index_eq:
  "local_index (Some (LAMBDA k params rest locals sv fv body)) name = sexp_param_index params rest locals name"
  by simp

lemma non_global_ref_code [simp]:
  "sexp_context_bc (generate_non_global_ref sv name loc lam (lambda_fv lam) u c) = sexp_context_bc c @ var_code sv name loc lam u"
  "sexp_context_lambda (generate_non_global_ref sv name loc lam (lambda_fv lam) u c) = sexp_context_lambda c"
  "sexp_context_tailp (generate_non_global_ref sv name loc lam (lambda_fv lam) u c) = sexp_context_tailp c"
  by (cases lam rule: lambdap.cases; simp add: generate_non_global_ref_def var_code_def instr_word_def Let_def)+

lemma ref_code [simp]:
  "sexp_context_bc (generate_ref sv ref u c) = sexp_context_bc c @ ref_code sv (sexp_context_lambda c) ref u"
  "sexp_context_lambda (generate_ref sv ref u c) = sexp_context_lambda c"
  "sexp_context_tailp (generate_ref sv ref u c) = sexp_context_tailp c"
  by (cases ref; simp add: Let_def non_global_ref_code instr_word_def)+

lemma appends_set:
  assumes "appends gen code"
  shows "appends (generate_set sv ref gen) (\<lambda>lam t. code lam False @ set_code sv lam ref @ push_code (DATUM SVOID))"
  unfolding appends_def
proof
  fix c :: "'a gctx"
  let ?c = "set_tailp False c"
  note a = appendsD [OF assms, of ?c]
  show "sexp_context_bc (generate_set sv ref gen c) = sexp_context_bc c
        @ code (sexp_context_lambda c) False @ set_code sv (sexp_context_lambda c) ref @ push_code (DATUM SVOID)
    \<and> sexp_context_lambda (generate_set sv ref gen c) = sexp_context_lambda c
    \<and> (sexp_context_tailp (generate_set sv ref gen c) \<longrightarrow> sexp_context_tailp c)"
    using a(3) by (cases ref) (auto simp: generate_set_def Let_def a(1,2) instr_word_def)
qed

lemma patch_append:
  "length xs = n \<Longrightarrow> (xs @ replicate 8 REST @ ys)[n := w] = xs @ word_bytes w @ ys"
  by (simp add: word_bytes_def list_update_append numeral_eq_Suc)

lemma appends_cnd:
  assumes "appends test t" "appends pass p" "appends fail f"
  shows "appends (generate_cnd test pass fail) (\<lambda>lam b. cnd_code (t lam False) (p lam b) (f lam b))"
  unfolding appends_def
proof
  fix c :: "'a gctx"
  let ?b = "sexp_context_tailp c" and ?l = "sexp_context_lambda c"
  define c1 where "c1 = sexp_inc_context_depth (- 1) (sexp_emit OP_JUMP_UNLESS (set_tailp ?b (test (set_tailp False c))))"
  note a1 = appendsD [OF assms(1), of "set_tailp False c"]
  have c1: "sexp_context_bc c1 = sexp_context_bc c @ t ?l False @ [OP OP_JUMP_UNLESS]" "sexp_context_lambda c1 = ?l" "sexp_context_tailp c1 = ?b"
    by (simp_all add: c1_def a1(1,2))
  define c2 where "c2 = sexp_inc_context_depth (- 1) (sexp_emit OP_JUMP (set_tailp ?b (pass (sexp_inc_context_pos 8 c1))))"
  note a2 = appendsD [OF assms(2), of "sexp_inc_context_pos 8 c1"]
  have c2: "sexp_context_bc c2 = sexp_context_bc c1 @ replicate 8 REST @ p ?l ?b @ [OP OP_JUMP]" "sexp_context_lambda c2 = ?l" "sexp_context_tailp c2 = ?b"
    by (simp_all add: c2_def a2(1,2) c1)
  define c3 where "c3 = sexp_context_patch_label (length (sexp_context_bc c1)) (sexp_inc_context_pos 8 c2)"
  have c3: "sexp_context_bc c3 = sexp_context_bc c1 @ word_bytes (SWORD (int (length (p ?l ?b)) + 17)) @ p ?l ?b @ [OP OP_JUMP] @ replicate 8 REST"
    "sexp_context_lambda c3 = ?l" "sexp_context_tailp c3 = ?b"
    using patch_append [of "sexp_context_bc c1" "length (sexp_context_bc c1)" "p ?l ?b @ [OP OP_JUMP] @ replicate 8 REST"]
    by (simp_all add: c3_def sexp_context_patch_label_def c2 add.commute)
  note a3 = appendsD [OF assms(3), of c3]
  have g: "generate_cnd test pass fail c = sexp_context_patch_label (length (sexp_context_bc c2)) (fail c3)"
    by (simp add: generate_cnd_def sexp_context_make_label_def Let_def c1_def c2_def c3_def)
  have b: "sexp_context_bc (fail c3) = (sexp_context_bc c1 @ word_bytes (SWORD (int (length (p ?l ?b)) + 17)) @ p ?l ?b @ [OP OP_JUMP])
      @ replicate 8 REST @ f ?l ?b"
    by (simp add: a3(1) c3)
  have n: "length (sexp_context_bc c1 @ word_bytes (SWORD (int (length (p ?l ?b)) + 17)) @ p ?l ?b @ [OP OP_JUMP]) = length (sexp_context_bc c2)"
    by (simp add: c2)
  have e: "sexp_context_bc (generate_cnd test pass fail c) = sexp_context_bc c @ cnd_code (t ?l False) (p ?l ?b) (f ?l ?b)"
    unfolding g sexp_context_patch_label_def b
    by (simp only: gctx.simps patch_append [OF n]) (simp add: n c1 c2 cnd_code_def instr_word_def add.commute)
  show "sexp_context_bc (generate_cnd test pass fail c) = sexp_context_bc c @ cnd_code (t ?l False) (p ?l ?b) (f ?l ?b)
      \<and> sexp_context_lambda (generate_cnd test pass fail c) = ?l \<and> (sexp_context_tailp (generate_cnd test pass fail c) \<longrightarrow> ?b)"
    using e a3(2,3) c3 by (simp add: g sexp_context_patch_label_def)
qed

lemma compile_set_length: "9 \<le> length (compile E lam t (SET ref x))"
  by simp

lemma drop_prev_code:
  assumes "sexp_context_bc c = xs @ cs" "drop_push optab x \<Longrightarrow> 9 \<le> length cs"
  shows "sexp_context_bc (generate_drop_prev optab x c) = xs @ (if drop_push optab x then take (length cs - 9) cs else cs @ [OP OP_DROP])"
    "sexp_context_lambda (generate_drop_prev optab x c) = sexp_context_lambda c"
    "sexp_context_tailp (generate_drop_prev optab x c) = sexp_context_tailp c"
  using assms by (auto simp: generate_drop_prev_def)

text \<open>
  Removing the last push takes back nine bytes, so the code of what is dropped must be that long.
\<close>

definition droppable :: "'f genv \<Rightarrow> 'f ast \<Rightarrow> bool" where
  "droppable E x \<longleftrightarrow> skipped x \<or> \<not> drop_push (opcode_table E) x \<or> (\<forall>lam. 9 \<le> length (compile E lam False x))"

lemma heads_code:
  assumes "\<forall>x \<in> set es. appends (gen x) (\<lambda>lam t. compile E lam t x) \<and> droppable E x" "\<not> sexp_context_tailp c"
  shows "sexp_context_bc (generate_heads (opcode_table E) (zip es (map gen es)) c) = sexp_context_bc c
      @ heads_code (opcode_table E) (zip es (map (compile E (sexp_context_lambda c) False) es))
    \<and> sexp_context_lambda (generate_heads (opcode_table E) (zip es (map gen es)) c) = sexp_context_lambda c"
  using assms
proof (induction es arbitrary: c rule: induct_list012)
  case (3 x y es)
  let ?ds = "zip (y # es) (map gen (y # es))"
  show ?case
  proof (cases "skipped x")
    case True
    then show ?thesis using "3.IH"(2) [of c] "3.prems" by (simp add: head_code_def)
  next
    case False
    have ap: "appends (gen x) (\<lambda>lam t. compile E lam t x)" using "3.prems"(1) by simp
    note a = appendsD [OF ap, of c]
    have t: "\<not> sexp_context_tailp c" "\<not> sexp_context_tailp (gen x c)" using "3.prems"(2) a(3) by blast+
    have b: "sexp_context_bc (gen x c) = sexp_context_bc c @ compile E (sexp_context_lambda c) False x" using a(1) t(1) by simp
    define c1 where "c1 = sexp_inc_context_depth (- 1) (generate_drop_prev (opcode_table E) x (gen x c))"
    have d: "drop_push (opcode_table E) x \<Longrightarrow> 9 \<le> length (compile E (sexp_context_lambda c) False x)"
      using "3.prems"(1) False by (simp add: droppable_def)
    note e = drop_prev_code [OF b d]
    have c1: "sexp_context_bc c1 = sexp_context_bc c @ head_code (opcode_table E) x (compile E (sexp_context_lambda c) False x)"
      "sexp_context_lambda c1 = sexp_context_lambda c" "\<not> sexp_context_tailp c1"
      using e a(2) t False by (simp_all add: c1_def head_code_def)
    have "\<forall>z \<in> set (y # es). appends (gen z) (\<lambda>lam t. compile E lam t z) \<and> droppable E z" using "3.prems"(1) by simp
    from "3.IH"(2) [OF this c1(3)] show ?thesis using False by (simp add: c1 flip: c1_def)
  qed
qed simp_all

lemma appends_seq:
  assumes "\<forall>x \<in> set es. appends (gen x) (\<lambda>lam t. compile E lam t x) \<and> droppable E x"
  shows "appends (generate_seq (opcode_table E) (zip es (map gen es)))
    (\<lambda>lam t. heads_code (opcode_table E) (zip es (map (compile E lam False) es)) @ (if es = [] then [] else last (map (compile E lam t) es)))"
  unfolding appends_def
proof
  fix c :: "'a gctx"
  let ?b = "sexp_context_tailp c" and ?l = "sexp_context_lambda c"
  define c1 where "c1 = set_tailp ?b (generate_heads (opcode_table E) (zip es (map gen es)) (set_tailp False c))"
  have c1: "sexp_context_bc c1 = sexp_context_bc c @ heads_code (opcode_table E) (zip es (map (compile E ?l False) es))"
    "sexp_context_lambda c1 = ?l" "sexp_context_tailp c1 = ?b"
    using heads_code [OF assms, of "set_tailp False c"] by (simp_all add: c1_def)
  have l: "es \<noteq> [] \<Longrightarrow> zip es (map gen es) \<noteq> []" by (cases es) simp_all
  have g: "generate_seq (opcode_table E) (zip es (map gen es)) c = (if es = [] then c1 else gen (last es) c1)"
    by (cases "es = []") (simp_all add: generate_seq_def Let_def l last_zip last_map c1_def)
  show "sexp_context_bc (generate_seq (opcode_table E) (zip es (map gen es)) c) = sexp_context_bc c
      @ heads_code (opcode_table E) (zip es (map (compile E ?l False) es)) @ (if es = [] then [] else last (map (compile E ?l ?b) es))
    \<and> sexp_context_lambda (generate_seq (opcode_table E) (zip es (map gen es)) c) = ?l
    \<and> (sexp_context_tailp (generate_seq (opcode_table E) (zip es (map gen es)) c) \<longrightarrow> ?b)"
  proof (cases "es = []")
    case True
    with g have "generate_seq (opcode_table E) [] c = c1" by simp
    with True show ?thesis using c1 by simp
  next
    case False
    then have ap: "appends (gen (last es)) (\<lambda>lam t. compile E lam t (last es))" using assms by simp
    from appendsD [OF ap, of c1] False show ?thesis by (simp add: g c1 last_map)
  qed
qed

lemma appends_general_app:
  assumes "appends gen code" "list_all2 (\<lambda>gen cs. appends gen cs) gens css"
  shows "appends (generate_general_app b gen gens) (\<lambda>lam t. concat (rev (map (\<lambda>cs. cs lam False) css)) @ code lam False
    @ instr_word (if t \<and> \<not> b then OP_TAIL_CALL else OP_CALL) (WORD (DATUM (FIX (int (length gens))))))"
  unfolding appends_def
proof
  fix c :: "'a gctx"
  let ?l = "sexp_context_lambda c"
  have r: "list_all2 (\<lambda>gen cs. appends gen cs) (rev gens) (rev css)" using assms(2) by (simp add: list_all2_rev)
  have f: "sexp_context_bc (fold (\<lambda>gen. gen) gs c) = sexp_context_bc c @ concat (map (\<lambda>cs. cs (sexp_context_lambda c) False) cs)
      \<and> sexp_context_lambda (fold (\<lambda>gen. gen) gs c) = sexp_context_lambda c \<and> \<not> sexp_context_tailp (fold (\<lambda>gen. gen) gs c)"
    if "list_all2 (\<lambda>gen cs. appends gen cs) gs cs" "\<not> sexp_context_tailp c" for gs cs and c :: "'a gctx"
    using that
  proof (induction gs cs arbitrary: c rule: list_all2_induct)
    case (Cons g gs d cs)
    from appendsD [OF Cons.hyps(1), of c] Cons.prems Cons.IH [of "g c"] show ?case by auto
  qed simp
  define c1 where "c1 = fold (\<lambda>gen. gen) (rev gens) (set_tailp False c)"
  have c1: "sexp_context_bc c1 = sexp_context_bc c @ concat (rev (map (\<lambda>cs. cs ?l False) css))" "sexp_context_lambda c1 = ?l" "\<not> sexp_context_tailp c1"
    using f [OF r, of "set_tailp False c"] by (simp_all add: c1_def rev_map)
  show "sexp_context_bc (generate_general_app b gen gens c) = sexp_context_bc c @ concat (rev (map (\<lambda>cs. cs ?l False) css)) @ code ?l False
      @ instr_word (if sexp_context_tailp c \<and> \<not> b then OP_TAIL_CALL else OP_CALL) (WORD (DATUM (FIX (int (length gens)))))
    \<and> sexp_context_lambda (generate_general_app b gen gens c) = ?l
    \<and> (sexp_context_tailp (generate_general_app b gen gens c) \<longrightarrow> sexp_context_tailp c)"
    using appendsD [OF assms(1), of c1] c1 by (simp add: generate_general_app_def Let_def instr_word_def flip: c1_def)
qed

lemma funpow_emit:
  "sexp_context_bc ((sexp_emit i ^^ n) c) = sexp_context_bc c @ replicate n (OP i)"
  "sexp_context_lambda ((sexp_emit i ^^ n) c) = sexp_context_lambda c" "sexp_context_tailp ((sexp_emit i ^^ n) c) = sexp_context_tailp c"
  by (induction n arbitrary: c; simp add: replicate_append_same)+

lemma compare_code_context:
  "sexp_context_bc (emit_compare i n c) = sexp_context_bc c @ compare_code i n"
  "sexp_context_lambda (emit_compare i n c) = sexp_context_lambda c" "sexp_context_tailp (emit_compare i n c) = sexp_context_tailp c"
proof -
  define f where "f = (\<lambda>c :: 'a gctx. sexp_emit OP_AND (sexp_emit OP_AND (sexp_emit i (emit_stack_ref 3 (emit_stack_ref 3 c)))))"
  define cs where "cs = instr_word OP_STACK_REF (SWORD 3 :: 'a code_unit) @ instr_word OP_STACK_REF (SWORD 3) @ [OP i, OP OP_AND, OP OP_AND]"
  have f: "sexp_context_bc (f c) = sexp_context_bc c @ cs" "sexp_context_lambda (f c) = sexp_context_lambda c"
    "sexp_context_tailp (f c) = sexp_context_tailp c" for c
    by (simp_all add: f_def cs_def emit_stack_ref_def instr_word_def)
  have p: "sexp_context_bc ((f ^^ m) c) = sexp_context_bc c @ concat (replicate m cs) \<and> sexp_context_lambda ((f ^^ m) c) = sexp_context_lambda c
      \<and> sexp_context_tailp ((f ^^ m) c) = sexp_context_tailp c" for m c
  proof (induction m arbitrary: c)
    case (Suc m)
    have "concat (replicate m cs) @ cs = cs @ concat (replicate m cs)" by (induction m) simp_all
    with Suc show ?case by (simp add: f)
  qed simp
  have e: "emit_compare i n c =
      (if n > 2 then sexp_emit OP_AND ((f ^^ (n - 2)) (sexp_emit OP_AND (sexp_emit i (emit_stack_ref 2 (emit_stack_ref 2 c)))))
       else sexp_emit i c)"
    by (simp add: emit_compare_def f_def Let_def)
  have e': "compare_code i n = (if n > 2 then instr_word OP_STACK_REF (SWORD 2) @ instr_word OP_STACK_REF (SWORD 2)
      @ [OP i, OP OP_AND] @ concat (replicate (n - 2) cs) @ [OP OP_AND] else [OP i])"
    by (simp add: compare_code_def cs_def)
  show "sexp_context_bc (emit_compare i n c) = sexp_context_bc c @ compare_code i n"
    "sexp_context_lambda (emit_compare i n c) = sexp_context_lambda c" "sexp_context_tailp (emit_compare i n c) = sexp_context_tailp c"
    unfolding e e' using p by (simp_all add: emit_stack_ref_def instr_word_def)
qed

lemma data_words_context:
  "sexp_context_bc (emit_data_words op c) = sexp_context_bc c @ data_words op"
  "sexp_context_lambda (emit_data_words op c) = sexp_context_lambda c" "sexp_context_tailp (emit_data_words op c) = sexp_context_tailp c"
  by (simp_all add: emit_data_words_def data_words_def Let_def split: option.splits)

lemma default_context:
  "sexp_context_bc (push_default op c) = sexp_context_bc c @ default_code op"
  "sexp_context_lambda (push_default op c) = sexp_context_lambda c" "sexp_context_tailp (push_default op c) = sexp_context_tailp c"
  "sexp_context_bc (push_inverse_default op c) = sexp_context_bc c @ inverse_default_code op"
  "sexp_context_lambda (push_inverse_default op c) = sexp_context_lambda c"
  "sexp_context_tailp (push_inverse_default op c) = sexp_context_tailp c"
  by (simp_all add: push_default_def default_code_def push_inverse_default_def inverse_default_code_def Let_def instr_word_def)

lemma operator_context:
  assumes "list_all2 appends gens css" "\<not> sexp_context_tailp c"
    "sexp_opcode_class op = OPC_PARAMETER \<Longrightarrow> 0 < n \<Longrightarrow> gens \<noteq> []"
  shows "sexp_context_bc (emit_operator k op n gens c) = sexp_context_bc c @ operator_code k op n (map (\<lambda>cs. cs (sexp_context_lambda c) False) css)"
    "sexp_context_lambda (emit_operator k op n gens c) = sexp_context_lambda c" "\<not> sexp_context_tailp (emit_operator k op n gens c)"
proof -
  have h: "sexp_context_bc (hd gens c) = sexp_context_bc c @ hd (map (\<lambda>cs. cs (sexp_context_lambda c) False) css)"
    "sexp_context_lambda (hd gens c) = sexp_context_lambda c" "\<not> sexp_context_tailp (hd gens c)" if "gens \<noteq> []"
  proof -
    obtain g gs where g: "gens = g # gs" using \<open>gens \<noteq> []\<close> by (cases gens) auto
    obtain d cs where d: "css = d # cs" "appends g d" using assms(1) unfolding g by (auto simp: list_all2_Cons1)
    from appendsD [OF d(2), of c] assms(2)
    show "sexp_context_bc (hd gens c) = sexp_context_bc c @ hd (map (\<lambda>cs. cs (sexp_context_lambda c) False) css)"
      "sexp_context_lambda (hd gens c) = sexp_context_lambda c" "\<not> sexp_context_tailp (hd gens c)" by (auto simp: g d)
  qed
  show "sexp_context_bc (emit_operator k op n gens c) = sexp_context_bc c @ operator_code k op n (map (\<lambda>cs. cs (sexp_context_lambda c) False) css)"
    "sexp_context_lambda (emit_operator k op n gens c) = sexp_context_lambda c" "\<not> sexp_context_tailp (emit_operator k op n gens c)"
    using h assms(2,3) by (cases "sexp_opcode_class op";
      simp add: emit_operator_def operator_code_def Let_def funpow_emit compare_code_context data_words_context instr_word_def)+
qed

lemma fold_appends:
  assumes "list_all2 appends gens css" "\<not> sexp_context_tailp c"
  shows "sexp_context_bc (fold (\<lambda>gen. gen) gens c) = sexp_context_bc c @ concat (map (\<lambda>cs. cs (sexp_context_lambda c) False) css)
    \<and> sexp_context_lambda (fold (\<lambda>gen. gen) gens c) = sexp_context_lambda c \<and> \<not> sexp_context_tailp (fold (\<lambda>gen. gen) gens c)"
  using assms
proof (induction gens css arbitrary: c rule: list_all2_induct)
  case (Cons g gs d cs)
  from appendsD [OF Cons.hyps(1), of c] Cons.prems Cons.IH [of "g c"] show ?case by auto
qed simp

lemma fold_words:
  "sexp_context_bc (fold (\<lambda>x. sexp_emit_word (f x)) xs c) = sexp_context_bc c @ concat (map (\<lambda>x. word_bytes (f x)) xs)"
  "sexp_context_lambda (fold (\<lambda>x. sexp_emit_word (f x)) xs c) = sexp_context_lambda c"
  "sexp_context_tailp (fold (\<lambda>x. sexp_emit_word (f x)) xs c) = sexp_context_tailp c"
  by (induction xs arbitrary: c) simp_all

lemma in_order_map: "in_order op (map f xs) = map f (in_order op xs)"
  by (simp add: in_order_def rev_map)

lemma in_order_appends: "list_all2 appends gens css \<Longrightarrow> list_all2 appends (in_order op gens) (in_order op css)"
  by (simp add: in_order_def list_all2_rev)

lemma appends_opcode_app:
  assumes "list_all2 appends gens css" "length args = length gens"
  shows "appends (generate_opcode_app optab k (zip args gens)) (\<lambda>lam t. opcode_app_code optab k t args (map (\<lambda>cs. cs lam False) css))"
  unfolding appends_def
proof
  fix c :: "'a gctx"
  let ?l = "sexp_context_lambda c" and ?op = "optab k"
  let ?d = "has_default ?op (length gens)" and ?vs = "map (\<lambda>cs. cs ?l False) css"
  let ?n = "if ?d then length gens + 1 else length gens"
  have zip: "map snd (zip args gens) = gens" "map fst (zip args gens) = args" "length (zip args gens) = length gens"
    using assms(2) by simp_all
  define c1 where "c1 = (if ?d \<and> \<not> sexp_opcode_inverse ?op then push_default ?op (set_tailp False c) else set_tailp False c)"
  define c2 where "c2 = (if sexp_opcode_class ?op \<noteq> OPC_PARAMETER \<and> \<not> sexp_opcode_static_param_p ?op
    then fold (\<lambda>gen. gen) (in_order ?op gens) c1 else c1)"
  define c3 where "c3 = (if ?d \<and> sexp_opcode_inverse ?op then push_inverse_default ?op c2 else c2)"
  define c4 where "c4 = emit_operator k ?op ?n gens c3"
  define c5 where "c5 = (if sexp_opcode_static_param_p ?op
    then fold (\<lambda>x. sexp_emit_word (SWORD (fixnum_of (literal_of x)))) args c4 else c4)"
  define c6 where "c6 = (if sexp_opcode_returns_void ?op \<and> sexp_opcode_class ?op \<noteq> OPC_FOREIGN then sexp_emit_push (DATUM SVOID) c5 else c5)"
  have c1: "sexp_context_bc c1 = sexp_context_bc c @ (if ?d \<and> \<not> sexp_opcode_inverse ?op then default_code ?op else [])"
    "sexp_context_lambda c1 = ?l" "\<not> sexp_context_tailp c1"
    by (simp_all add: c1_def default_context)
  note f = fold_appends [OF in_order_appends [OF assms(1), of ?op] c1(3)]
  have c2: "sexp_context_bc c2 = sexp_context_bc c1 @ (if sexp_opcode_class ?op \<noteq> OPC_PARAMETER \<and> \<not> sexp_opcode_static_param_p ?op
      then concat (in_order ?op ?vs) else [])" "sexp_context_lambda c2 = ?l" "\<not> sexp_context_tailp c2"
    using f c1(2,3) by (simp_all add: c2_def in_order_map)
  have c3: "sexp_context_bc c3 = sexp_context_bc c2 @ (if ?d \<and> sexp_opcode_inverse ?op then inverse_default_code ?op else [])"
    "sexp_context_lambda c3 = ?l" "\<not> sexp_context_tailp c3"
    using c2(2,3) by (simp_all add: c3_def default_context)
  have ne: "gens \<noteq> []" if "sexp_opcode_class ?op = OPC_PARAMETER" "0 < ?n"
    using that by (auto simp: has_default_def)
  note o = operator_context [OF assms(1) c3(3), of ?op ?n k, OF ne]
  have c4: "sexp_context_bc c4 = sexp_context_bc c3 @ operator_code k ?op ?n ?vs" "sexp_context_lambda c4 = ?l" "\<not> sexp_context_tailp c4"
    using o c3(2) by (simp_all add: c4_def)
  have c5: "sexp_context_bc c5 = sexp_context_bc c4 @ (if sexp_opcode_static_param_p ?op
      then concat (map (\<lambda>x. word_bytes (SWORD (fixnum_of (literal_of x)))) args) else [])" "sexp_context_lambda c5 = ?l" "\<not> sexp_context_tailp c5"
    using c4(2,3) by (simp_all add: c5_def fold_words)
  have c6: "sexp_context_bc c6 = sexp_context_bc c5 @ (if sexp_opcode_returns_void ?op \<and> sexp_opcode_class ?op \<noteq> OPC_FOREIGN
      then push_code (DATUM SVOID) else [])" "sexp_context_lambda c6 = ?l" "\<not> sexp_context_tailp c6"
    using c5(2,3) by (simp_all add: c6_def)
  have g: "generate_opcode_app optab k (zip args gens) c =
      (if sexp_opcode_tail_call_p ?op \<and> \<not> sexp_context_tailp c then generate_lit (DATUM SVOID) c else sexp_inc_context_depth (- (int ?n - 1)) c6)"
    unfolding generate_opcode_app_def Let_def zip c6_def c5_def c4_def c3_def c2_def c1_def by (rule refl)
  show "sexp_context_bc (generate_opcode_app optab k (zip args gens) c) = sexp_context_bc c @ opcode_app_code optab k (sexp_context_tailp c) args ?vs
    \<and> sexp_context_lambda (generate_opcode_app optab k (zip args gens) c) = ?l
    \<and> (sexp_context_tailp (generate_opcode_app optab k (zip args gens) c) \<longrightarrow> sexp_context_tailp c)"
    unfolding g using assms(2) c6 c5(1) c4(1) c3(1) c2(1) c1(1)
    by (simp add: opcode_app_code_def Let_def generate_lit_def)
qed

lemma close_variables_code:
  "sexp_context_bc (close_variables sv (sexp_context_lambda c) k fv c) = sexp_context_bc c @ close_code sv (sexp_context_lambda c) k fv"
  "sexp_context_lambda (close_variables sv (sexp_context_lambda c) k fv c) = sexp_context_lambda c"
  "sexp_context_tailp (close_variables sv (sexp_context_lambda c) k fv c) = sexp_context_tailp c"
proof -
  have "sexp_context_bc (close_variables sv lam k fv c) = sexp_context_bc c @ close_code sv lam k fv
    \<and> sexp_context_lambda (close_variables sv lam k fv c) = sexp_context_lambda c
    \<and> sexp_context_tailp (close_variables sv lam k fv c) = sexp_context_tailp c" for lam
    by (induction sv lam k fv c rule: close_variables.induct) (simp_all add: Let_def emit_stack_ref_def instr_word_def)
  then show "sexp_context_bc (close_variables sv (sexp_context_lambda c) k fv c) = sexp_context_bc c @ close_code sv (sexp_context_lambda c) k fv"
    "sexp_context_lambda (close_variables sv (sexp_context_lambda c) k fv c) = sexp_context_lambda c"
    "sexp_context_tailp (close_variables sv (sexp_context_lambda c) k fv c) = sexp_context_tailp c" by simp_all
qed

lemma appends_lambda:
  "appends (generate_lambda sv (LAMBDA k params rest locals sv' fv body) gen)
    (\<lambda>lam t. lambda_expr_code sv lam (procedure_flags k rest body) (length params) fv (lambda_code (LAMBDA k params rest locals sv' fv body) gen))"
  unfolding appends_def
proof
  fix c :: "'a gctx"
  define c2 where "c2 = sexp_inc_context_depth (- 1) (sexp_emit OP_MAKE_VECTOR
    (sexp_emit_push (DATUM (FIX (int (length fv)))) (sexp_emit_push (DATUM SVOID) c)))"
  have c2: "sexp_context_lambda c2 = sexp_context_lambda c" "sexp_context_tailp c2 = sexp_context_tailp c"
    "sexp_context_bc c2 = sexp_context_bc c @ push_code (DATUM SVOID) @ push_code (DATUM (FIX (int (length fv)))) @ [OP OP_MAKE_VECTOR]"
    by (simp_all add: c2_def)
  note v = close_variables_code [of sv c2 0 fv]
  show "sexp_context_bc (generate_lambda sv (LAMBDA k params rest locals sv' fv body) gen c) = sexp_context_bc c
      @ lambda_expr_code sv (sexp_context_lambda c) (procedure_flags k rest body) (length params) fv (lambda_code (LAMBDA k params rest locals sv' fv body) gen)
    \<and> sexp_context_lambda (generate_lambda sv (LAMBDA k params rest locals sv' fv body) gen c) = sexp_context_lambda c
    \<and> (sexp_context_tailp (generate_lambda sv (LAMBDA k params rest locals sv' fv body) gen c) \<longrightarrow> sexp_context_tailp c)"
    using v by (simp add: generate_lambda_def lambda_expr_code_def generate_lit_def Let_def c2 instr_word_def flip: c2_def)
qed

text \<open>
  Dropping a value takes back the push only after an assignment, as long as no opcode is itself the
  instruction that pushes.
\<close>

definition no_push_opcode :: "'f genv \<Rightarrow> bool" where
  "no_push_opcode E \<longleftrightarrow> (\<forall>k. sexp_opcode_code (opcode_table E k) \<noteq> OP_PUSH)"

lemma no_push_droppable: "no_push_opcode E \<Longrightarrow> droppable E x"
  by (cases "(opcode_table E, x)" rule: drop_push.cases)
    (auto simp: droppable_def no_push_opcode_def)

lemma general_app:
  assumes "\<forall>k. f \<noteq> SELF (OPCODE k)"
  shows "sexp_generate E (APP f args) c = generate_general_app (no_tail_calls_p E) (sexp_generate E f) (map (sexp_generate E) args) c"
    "compile E lam t (APP f args) = concat (rev (map (compile E lam False) args)) @ compile E lam False f
      @ instr_word (if t \<and> \<not> no_tail_calls_p E then OP_TAIL_CALL else OP_CALL) (WORD (DATUM (FIX (int (length args)))))"
proof -
  show "sexp_generate E (APP f args) c = generate_general_app (no_tail_calls_p E) (sexp_generate E f) (map (sexp_generate E) args) c"
  proof (cases f)
    case (SELF v)
    with assms show ?thesis by (cases v) simp_all
  qed simp_all
  show "compile E lam t (APP f args) = concat (rev (map (compile E lam False) args)) @ compile E lam False f
      @ instr_word (if t \<and> \<not> no_tail_calls_p E then OP_TAIL_CALL else OP_CALL) (WORD (DATUM (FIX (int (length args)))))"
  proof (cases f)
    case (SELF v)
    with assms show ?thesis by (cases v) simp_all
  qed simp_all
qed

lemma appends_generate:
  assumes "no_push_opcode E"
  shows "appends (sexp_generate E e) (\<lambda>lam t. compile E lam t e)"
proof (induction e)
  case (SET ref x)
  from appends_set [OF SET, of "lambda_sv E" ref] show ?case by (simp add: appends_def)
next
  case (CND x y z)
  from appends_cnd [OF CND] show ?case by (simp add: appends_def)
next
  case (SEQ es)
  then have "\<forall>x \<in> set es. appends (sexp_generate E x) (\<lambda>lam t. compile E lam t x) \<and> droppable E x"
    using no_push_droppable [OF assms] by simp
  from appends_seq [OF this] show ?case by (simp add: appends_def)
next
  case (APP f args)
  have a: "list_all2 appends (map (sexp_generate E) args) (map (\<lambda>e lam t. compile E lam t e) args)"
    using APP.IH(2) by (simp add: list_all2_map1 list_all2_map2 list.rel_refl_strong)
  show ?case
  proof (cases "\<exists>k. f = SELF (OPCODE k)")
    case True
    then obtain k where "f = SELF (OPCODE k)" by blast
    then show ?thesis using appends_opcode_app [OF a, of args "opcode_table E" k] by (simp add: appends_def comp_def)
  next
    case False
    then have "\<forall>k. f \<noteq> SELF (OPCODE k)" by simp
    note g = general_app [OF this]
    from appends_general_app [OF APP.IH(1) a, of "no_tail_calls_p E"] show ?thesis
      by (simp add: appends_def g comp_def)
  qed
next
  case (LAMBDA k params rest locals sv fv body)
  from appends_lambda show ?case by (simp add: appends_def)
qed (simp_all add: appends_def generate_lit_def)

lemma generate_bc:
  assumes "no_push_opcode E"
  shows "sexp_context_bc (sexp_generate E e c) = sexp_context_bc c @ compile E (sexp_context_lambda c) (sexp_context_tailp c) e"
  using appendsD(1) [OF appends_generate [OF assms]] .

subsection \<open>Procedures\<close>

definition entry_code :: "ident list \<Rightarrow> ident option \<Rightarrow> ident list \<Rightarrow> ident list \<Rightarrow> 'f code_unit list" where
  "entry_code params rest locals sv =
    concat (replicate (length locals) (push_code (DATUM SUNDEF))) @ concat (map (box_code params rest locals) sv)"

lemma lambda_code_data:
  assumes "no_push_opcode E"
  shows "bytecode_data (lambda_code (LAMBDA k params rest locals sv fv body) (sexp_generate E body)) =
    entry_code params rest locals sv @ compile E (Some (LAMBDA k params rest locals sv fv body)) True body @ [OP OP_RET]"
proof -
  have p: "sexp_context_bc ((sexp_emit_push (DATUM SUNDEF) ^^ n) c) = sexp_context_bc c @ concat (replicate n (push_code (DATUM SUNDEF)))
    \<and> sexp_context_lambda ((sexp_emit_push (DATUM SUNDEF) ^^ n) c) = sexp_context_lambda c" for n and c :: "'a gctx"
  proof (induction n)
    case (Suc n)
    have "concat (replicate n (push_code (DATUM SUNDEF))) @ push_code (DATUM SUNDEF)
      = push_code (DATUM SUNDEF) @ concat (replicate n (push_code (DATUM SUNDEF :: ('a, 'a bytecode) object)))" by (induction n) simp_all
    with Suc show ?case by simp
  qed simp
  have b: "sexp_context_bc (fold (box_variable params rest locals) sv c) = sexp_context_bc c @ concat (map (box_code params rest locals) sv)
    \<and> sexp_context_lambda (fold (box_variable params rest locals) sv c) = sexp_context_lambda c" for sv and c :: "'a gctx"
    by (induction sv arbitrary: c) (simp_all add: box_variable_def box_code_def Let_def instr_word_def)
  show ?thesis
    using p b by (simp add: lambda_code_def sexp_complete_bytecode_def sexp_emit_return_def Let_def generate_bc [OF assms] new_context_def entry_code_def)
qed

lemma generate_op_data:
  assumes "no_push_opcode E"
  shows "procedure_code (sexp_generate_op E x) = compile E None True x @ [OP OP_RET]"
  by (simp add: sexp_generate_op_def sexp_complete_bytecode_def sexp_emit_return_def Let_def generate_bc [OF assms] new_context_def)

text \<open>An arithmetic opcode, for examples.\<close>

definition arith_op :: "instr \<Rightarrow> 'f opcode" where
  "arith_op i = \<lparr>sexp_opcode_class = OPC_ARITHMETIC, sexp_opcode_code = i, sexp_opcode_num_args = 0, sexp_opcode_variadic_p = True,
    sexp_opcode_opt_param_p = False, sexp_opcode_static_param_p = False, sexp_opcode_tail_call_p = False, sexp_opcode_inverse = False,
    sexp_opcode_data = Some (FIX 0), sexp_opcode_data2 = None, sexp_opcode_returns_void = False\<rparr>"

text \<open>
  C9.  The generator appends the code of the expression to the byte code, with every jump offset patched in, for every
  context: in tail position or not, at the top level or inside any lambda.
\<close>

theorem generated_code_exact:
  assumes "no_push_opcode E"
  shows "sexp_context_bc (sexp_generate E e c)
    = sexp_context_bc c @ compile E (sexp_context_lambda c) (sexp_context_tailp c) e"
  using generate_bc [OF assms] .

theorem generated_code_exact_witness:
  "sexp_context_bc (sexp_generate \<lparr>opcode_table = (\<lambda>k. arith_op OP_ADD :: bool opcode), lambda_sv = (\<lambda>k. []), no_tail_calls_p = False\<rparr>
      (CND (LIT STRUE) (LIT (FIX 1)) (LIT (FIX 2))) (new_context None))
    = push_code (DATUM STRUE) @ instr_word OP_JUMP_UNLESS (SWORD 26) @ push_code (DATUM (FIX 1))
      @ instr_word OP_JUMP (SWORD 17) @ push_code (DATUM (FIX 2))"
proof -
  let ?E = "\<lparr>opcode_table = (\<lambda>k. arith_op OP_ADD :: bool opcode), lambda_sv = (\<lambda>k. []), no_tail_calls_p = False\<rparr>"
  have "no_push_opcode ?E" by (simp add: no_push_opcode_def arith_op_def)
  from generated_code_exact [OF this, of "CND (LIT STRUE) (LIT (FIX 1)) (LIT (FIX 2))" "new_context None"]
  show ?thesis by (simp add: cnd_code_def new_context_def)
qed

end
