(* ===== verification/Eval.thy ===== *)
theory Eval
  imports Emit
begin

text \<open>
  The meaning of syntax trees: an evaluator with environments, in which a procedure is the lambda
  expression itself with the address of its captured variables.  A variable that is assigned somewhere lives in
  a pair of the heap, every other one is a value of the environment.  Arguments are evaluated from the last to the first.
  A result is a value or the exception that is raised; \<open>None\<close> is an evaluation that takes more than \<open>n\<close>
  nested steps, or a tree the evaluator gives no meaning to.
\<close>

subsection \<open>Changing the representation of code\<close>

fun map_code :: "('c \<Rightarrow> 'd) \<Rightarrow> ('f, 'c) object \<Rightarrow> ('f, 'd) object" where
  "map_code g (DATUM v) = DATUM v"
| "map_code g (PROCEDURE flags n code vars) = PROCEDURE flags n (g code) vars"

fun map_code_cell :: "('c \<Rightarrow> 'd) \<Rightarrow> ('f, 'c) cell \<Rightarrow> ('f, 'd) cell" where
  "map_code_cell g (PAIR_CELL x y im) = PAIR_CELL (map_code g x) (map_code g y) im"
| "map_code_cell g (VECTOR_CELL xs im) = VECTOR_CELL (map (map_code g) xs) im"

abbreviation map_heap :: "('c \<Rightarrow> 'd) \<Rightarrow> ('f, 'c) heap \<Rightarrow> ('f, 'd) heap" where
  "map_heap g \<equiv> map (map_code_cell g)"

fun map_ires :: "('c \<Rightarrow> 'd) \<Rightarrow> ('f, 'c) ires \<Rightarrow> ('f, 'd) ires" where
  "map_ires g (RESULT x h) = RESULT (map_code g x) (map_heap g h)"
| "map_ires g (EFFECT h) = EFFECT (map_heap g h)"
| "map_ires g (ERROR k e) = ERROR k e"

subsection \<open>Applying opcodes\<close>

type_synonym ('f, 'a) answer = "(('f datum + 'a) \<times> ('f, 'f ast) heap) option"

text \<open>The opcodes whose instructions are modelled on operands.\<close>

definition plain_opcode :: "'f opcode \<Rightarrow> bool" where
  "plain_opcode op \<longleftrightarrow> 0 < operands (sexp_opcode_code op)
    \<and> \<not> sexp_opcode_static_param_p op \<and> \<not> sexp_opcode_tail_call_p op \<and> \<not> sexp_opcode_opt_param_p op
    \<and> (case sexp_opcode_class op of
         OPC_FOREIGN \<Rightarrow> False | OPC_PARAMETER \<Rightarrow> False
       | OPC_ARITHMETIC \<Rightarrow> operands (sexp_opcode_code op) = 2
       | OPC_ARITHMETIC_CMP \<Rightarrow> sexp_opcode_code op \<in> {OP_LT, OP_LE, OP_EQN}
       | OPC_TYPE_PREDICATE \<Rightarrow> sexp_opcode_data op = None \<and> sexp_opcode_data2 op = None
       | OPC_GETTER \<Rightarrow> sexp_opcode_data op = None \<and> sexp_opcode_data2 op = None
       | OPC_SETTER \<Rightarrow> sexp_opcode_data op = None \<and> sexp_opcode_data2 op = None
       | _ \<Rightarrow> True)"

text \<open>An arithmetic operator is applied from the left.\<close>

fun apply_fold :: "'f world \<Rightarrow> instr \<Rightarrow> ('f, 'f ast) object \<Rightarrow> ('f, 'f ast) object list \<Rightarrow> ('f, 'f ast) heap
    \<Rightarrow> ('f, ('f, 'f ast) object) answer" where
  "apply_fold W i x [] h = Some (Inr x, h)"
| "apply_fold W i x (y # ys) h =
    (case primitive W i h [x, y] of
       Some (RESULT r h) \<Rightarrow> apply_fold W i r ys h
     | Some (ERROR k e) \<Rightarrow> Some (Inl e, h)
     | _ \<Rightarrow> None)"

text \<open>A comparison compares every element with the next one, also after one has failed.\<close>

fun apply_chain :: "'f world \<Rightarrow> instr \<Rightarrow> ('f, 'f ast) object list \<Rightarrow> ('f, 'f ast) heap \<Rightarrow> ('f, bool) answer" where
  "apply_chain W i (x # y # ys) h =
    (case primitive W i h [x, y] of
       Some (RESULT r h) \<Rightarrow>
         (case apply_chain W i (y # ys) h of
            Some (Inr b, h) \<Rightarrow> Some (Inr (r \<noteq> DATUM SFALSE \<and> b), h)
          | res \<Rightarrow> res)
     | Some (ERROR k e) \<Rightarrow> Some (Inl e, h)
     | _ \<Rightarrow> None)"
| "apply_chain W i xs h = Some (Inr True, h)"

text \<open>The operands of an opcode, the top of the stack first.\<close>

definition opcode_operands :: "'f opcode \<Rightarrow> ('f, 'c) object list \<Rightarrow> ('f, 'c) object list" where
  "opcode_operands op vs =
    (let args = (if sexp_opcode_inverse op \<and> sexp_opcode_class op \<noteq> OPC_ARITHMETIC then rev vs else vs)
     in if has_default op (length vs) then
          (let d = DATUM (the (sexp_opcode_data op)) in if sexp_opcode_inverse op then d # args else args @ [d])
        else args)"

definition apply_opcode ::
  "'f world \<Rightarrow> 'f opcode \<Rightarrow> ('f, 'f ast) object list \<Rightarrow> ('f, 'f ast) heap \<Rightarrow> ('f, ('f, 'f ast) object) answer" where
  "apply_opcode W op vs h =
    (let xs = opcode_operands op vs
     in case sexp_opcode_class op of
          OPC_ARITHMETIC \<Rightarrow>
            (if sexp_opcode_returns_void op then None
             else case xs of [] \<Rightarrow> None | x # ys \<Rightarrow> apply_fold W (sexp_opcode_code op) x ys h)
        | OPC_ARITHMETIC_CMP \<Rightarrow>
            (if sexp_opcode_returns_void op \<or> length xs < 2 then None
             else map_option (apfst (map_sum id make_boolean)) (apply_chain W (sexp_opcode_code op) xs h))
        | _ \<Rightarrow>
            (if length xs \<noteq> operands (sexp_opcode_code op) then None
             else case primitive W (sexp_opcode_code op) h xs of
               Some (RESULT r h) \<Rightarrow> if sexp_opcode_returns_void op then None else Some (Inr r, h)
             | Some (EFFECT h) \<Rightarrow> if sexp_opcode_returns_void op then Some (Inr (DATUM SVOID), h) else None
             | Some (ERROR k e) \<Rightarrow> Some (Inl e, h)
             | None \<Rightarrow> None))"

subsection \<open>Variables\<close>

text \<open>
  What a body sees: the identity of its lambda, the values of the variables it binds, the free
  variables and the vector they were captured in.
\<close>

record 'f act =
  act_id :: "nat option"
  act_env :: "ident \<Rightarrow> ('f, 'f ast) object option"
  act_fv :: "(ident \<times> nat) list"
  act_vars :: "'f datum"

definition toplevel :: "'f act" where
  "toplevel = \<lparr>act_id = None, act_env = (\<lambda>_. None), act_fv = [], act_vars = VECTOR0\<rparr>"

definition lookup :: "'f act \<Rightarrow> ('f, 'f ast) heap \<Rightarrow> ident \<Rightarrow> nat \<Rightarrow> ('f, 'f ast) object option" where
  "lookup a h name loc =
    (if act_id a = Some loc then act_env a name
     else case vector_at h (DATUM (act_vars a)) of
       None \<Rightarrow> None
     | Some (xs, im) \<Rightarrow>
         (let i = fv_index (name, loc) (act_fv a) in if (name, loc) \<in> set (act_fv a) \<and> i < length xs then Some (xs ! i) else None))"

fun lookups :: "'f act \<Rightarrow> ('f, 'f ast) heap \<Rightarrow> (ident \<times> nat) list \<Rightarrow> ('f, 'f ast) object list option" where
  "lookups a h [] = Some []"
| "lookups a h ((name, loc) # fv) =
    (case lookup a h name loc of None \<Rightarrow> None | Some v \<Rightarrow> map_option ((#) v) (lookups a h fv))"

fun frame_env :: "ident list \<Rightarrow> ident option \<Rightarrow> bool \<Rightarrow> ident list \<Rightarrow> ('f, 'f ast) object list \<Rightarrow> ident \<Rightarrow> ('f, 'f ast) object option" where
  "frame_env params rest unused locals args name =
    (case list_index name params of Some i \<Rightarrow> if i < length args then Some (args ! i) else None
     | None \<Rightarrow> if rest = Some name then (if \<not> unused \<and> length params < length args then Some (args ! length params) else None)
         else if name \<in> set locals then Some (DATUM SUNDEF) else None)"

text \<open>The assigned variables are put into pairs, in the order of the list.\<close>

fun box_variables :: "ident list \<Rightarrow> (ident \<Rightarrow> ('f, 'f ast) object option) \<Rightarrow> ('f, 'f ast) heap
    \<Rightarrow> ((ident \<Rightarrow> ('f, 'f ast) object option) \<times> ('f, 'f ast) heap) option" where
  "box_variables [] env h = Some (env, h)"
| "box_variables (name # sv) env h =
    (case env name of None \<Rightarrow> None
     | Some v \<Rightarrow> (case sexp_cons (DATUM (IDENT name)) v h of (p, h) \<Rightarrow> box_variables sv (env(name \<mapsto> p)) h))"

subsection \<open>Evaluation\<close>

text \<open>Evaluation in the order of the list, up to the first exception.\<close>

fun eval_list :: "(('f, 'f ast) heap \<Rightarrow> 'f ast \<Rightarrow> ('f, ('f, 'f ast) object) answer) \<Rightarrow> ('f, 'f ast) heap \<Rightarrow> 'f ast list
    \<Rightarrow> ('f, ('f, 'f ast) object list) answer" where
  "eval_list ev h [] = Some (Inr [], h)"
| "eval_list ev h (e # es) =
    (case ev h e of None \<Rightarrow> None | Some (Inl x, h) \<Rightarrow> Some (Inl x, h)
     | Some (Inr v, h) \<Rightarrow>
         (case eval_list ev h es of None \<Rightarrow> None | Some (Inl x, h) \<Rightarrow> Some (Inl x, h)
          | Some (Inr vs, h) \<Rightarrow> Some (Inr (v # vs), h)))"

definition apply_procedure ::
  "('f act \<Rightarrow> ('f, 'f ast) heap \<Rightarrow> 'f ast \<Rightarrow> ('f, ('f, 'f ast) object) answer) \<Rightarrow> ('f, 'f ast) object
    \<Rightarrow> ('f, 'f ast) object list \<Rightarrow> ('f, 'f ast) heap \<Rightarrow> ('f, ('f, 'f ast) object) answer" where
  "apply_procedure ev p args h =
    (case p of
       PROCEDURE flags n (LAMBDA k params rest locals sv fv body) vars \<Rightarrow>
         (if n \<noteq> length params then None
          else case adjust_args flags n (rev args) h of
            Inl msg \<Rightarrow> Some (Inl (EXN msg), h)
          | Inr (args, h) \<Rightarrow>
              (case box_variables sv (frame_env params rest (unused_rest_p flags) locals (rev args)) h of
                 None \<Rightarrow> None
               | Some (env, h) \<Rightarrow> ev \<lparr>act_id = Some k, act_env = env, act_fv = fv, act_vars = vars\<rparr> h body))
     | DATUM (OPCODE k) \<Rightarrow> None
     | DATUM v \<Rightarrow> Some (Inl (EXN ''non procedure application''), h)
     | _ \<Rightarrow> None)"

definition assign :: "('f, 'f ast) heap \<Rightarrow> ('f, 'f ast) object \<Rightarrow> ('f, 'f ast) object \<Rightarrow> ('f, ('f, 'f ast) object) answer" where
  "assign h box v =
    (case vm_set_cdr h box v of EFFECT h \<Rightarrow> Some (Inr (DATUM SVOID), h) | ERROR k e \<Rightarrow> Some (Inl e, h) | _ \<Rightarrow> None)"

fun eval_seq :: "(('f, 'f ast) heap \<Rightarrow> 'f ast \<Rightarrow> ('f, ('f, 'f ast) object) answer) \<Rightarrow> ('f, 'f ast) heap \<Rightarrow> 'f ast list
    \<Rightarrow> ('f, ('f, 'f ast) object) answer" where
  "eval_seq ev h [] = None"
| "eval_seq ev h [e] = ev h e"
| "eval_seq ev h (e # y # es) =
    (case ev h e of None \<Rightarrow> None | Some (Inl x, h) \<Rightarrow> Some (Inl x, h) | Some (Inr v, h) \<Rightarrow> eval_seq ev h (y # es))"

fun eval_ref :: "(nat \<Rightarrow> ident list) \<Rightarrow> 'f act \<Rightarrow> ('f, 'f ast) heap \<Rightarrow> var \<Rightarrow> ('f, ('f, 'f ast) object) answer" where
  "eval_ref sv a h (GLOBAL cell undef) =
    (case pair_at h (DATUM (PAIR cell)) of None \<Rightarrow> None
     | Some (name, v, im) \<Rightarrow> if undef \<and> v = DATUM SUNDEF then Some (Inl (EXN ''undefined variable''), h) else Some (Inr v, h))"
| "eval_ref sv a h (LOCAL name loc) =
    (case lookup a h name loc of None \<Rightarrow> None
     | Some v \<Rightarrow> if name \<in> set (sv loc)
         then (case pair_at h v of None \<Rightarrow> None | Some (x, y, im) \<Rightarrow> Some (Inr y, h)) else Some (Inr v, h))"

fun eval_set :: "(nat \<Rightarrow> ident list) \<Rightarrow> 'f act \<Rightarrow> ('f, 'f ast) heap \<Rightarrow> var \<Rightarrow> ('f, 'f ast) object \<Rightarrow> ('f, ('f, 'f ast) object) answer" where
  "eval_set sv a h (GLOBAL cell undef) v =
    (if undef then (case eval_ref sv a h (GLOBAL cell undef) of
         Some (Inr _, h) \<Rightarrow> assign h (DATUM (PAIR cell)) v | r \<Rightarrow> r)
     else assign h (DATUM (PAIR cell)) v)"
| "eval_set sv a h (LOCAL name loc) v =
    (if name \<in> set (sv loc) then (case lookup a h name loc of None \<Rightarrow> None | Some box \<Rightarrow> assign h box v) else None)"

definition eval_lambda :: "'f act \<Rightarrow> ('f, 'f ast) heap \<Rightarrow> 'f ast \<Rightarrow> ('f, ('f, 'f ast) object) answer" where
  "eval_lambda a h lam =
    (case lam of
       LAMBDA k params rest locals sv fv body \<Rightarrow>
         (let flags = procedure_flags k rest body; n = length params
          in if fv = [] then Some (Inr (PROCEDURE flags n lam VECTOR0), h)
             else if int (length fv) > SEXP_MAX_VECTOR_LENGTH then None
             else (case lookups a h fv of None \<Rightarrow> None
                 | Some vs \<Rightarrow> Some (Inr (PROCEDURE flags n lam (VECTOR (length h))), h @ [VECTOR_CELL vs False])))
     | _ \<Rightarrow> None)"

text \<open>Whether the operator of an application is an opcode.\<close>

fun opcode_operator :: "'f ast \<Rightarrow> nat option" where
  "opcode_operator (SELF (OPCODE k)) = Some k" | "opcode_operator f = None"

definition eval_app ::
  "'f world \<Rightarrow> ('f act \<Rightarrow> ('f, 'f ast) heap \<Rightarrow> 'f ast \<Rightarrow> ('f, ('f, 'f ast) object) answer) \<Rightarrow> 'f act \<Rightarrow> ('f, 'f ast) heap
    \<Rightarrow> 'f ast \<Rightarrow> 'f ast list \<Rightarrow> ('f, ('f, 'f ast) object) answer" where
  "eval_app W ev a h f args =
    (case opcode_operator f of
       Some k \<Rightarrow>
         (let op = opcode_table (w_genv W) k
          in if \<not> plain_opcode op then None
             else case eval_list (ev a) h (in_order op args) of None \<Rightarrow> None | Some (Inl x, h) \<Rightarrow> Some (Inl x, h)
             | Some (Inr vs, h) \<Rightarrow> apply_opcode W op (in_order op vs) h)
     | None \<Rightarrow>
         (case eval_list (ev a) h (rev args) of None \<Rightarrow> None | Some (Inl x, h) \<Rightarrow> Some (Inl x, h)
          | Some (Inr vs, h) \<Rightarrow>
              (case ev a h f of None \<Rightarrow> None | Some (Inl x, h) \<Rightarrow> Some (Inl x, h)
               | Some (Inr p, h) \<Rightarrow> apply_procedure ev p (rev vs) h)))"

fun eval :: "'f world \<Rightarrow> nat \<Rightarrow> 'f act \<Rightarrow> ('f, 'f ast) heap \<Rightarrow> 'f ast \<Rightarrow> ('f, ('f, 'f ast) object) answer" where
  "eval W 0 a h e = None"
| "eval W (Suc n) a h (LIT v) = Some (Inr (DATUM v), h)"
| "eval W (Suc n) a h (SELF v) = Some (Inr (DATUM v), h)"
| "eval W (Suc n) a h (REF ref) = eval_ref (lambda_sv (w_genv W)) a h ref"
| "eval W (Suc n) a h (SET ref x) =
    (case eval W n a h x of Some (Inr v, h) \<Rightarrow> eval_set (lambda_sv (w_genv W)) a h ref v | r \<Rightarrow> r)"
| "eval W (Suc n) a h (CND test pass fail) =
    (case eval W n a h test of
       Some (Inr v, h) \<Rightarrow> if v = DATUM SFALSE then eval W n a h fail else eval W n a h pass
     | r \<Rightarrow> r)"
| "eval W (Suc n) a h (SEQ es) = eval_seq (eval W n a) h es"
| "eval W (Suc n) a h (APP f args) = eval_app W (eval W n) a h f args"
| "eval W (Suc n) a h (LAMBDA k params rest locals sv fv body) = eval_lambda a h (LAMBDA k params rest locals sv fv body)"

end
