(* ===== verification/Simulate.thy ===== *)
theory Simulate
  imports Eval
begin

text \<open>
  Runs of the virtual machine: instructions at a position of the code, sequences of steps when the stack is large
  enough, and the independence of the instructions from the representation of code.
\<close>

subsection \<open>Instructions do not depend on the representation of code\<close>

lemma map_code_datum [simp]: "map_code g x = DATUM v \<longleftrightarrow> x = DATUM v" "DATUM v = map_code g x \<longleftrightarrow> x = DATUM v"
  by (cases x; auto)+

lemma map_code_boolean [simp]: "map_code g (make_boolean b) = make_boolean b"
  by (cases b) simp_all

lemma pair_at_map: "pair_at (map_heap g h) (map_code g x) = map_option (\<lambda>(a, b, im). (map_code g a, map_code g b, im)) (pair_at h x)"
  by (cases "(h, x)" rule: pair_at.cases) (auto split: cell.splits)

lemma vector_at_map: "vector_at (map_heap g h) (map_code g x) = map_option (\<lambda>(xs, im). (map (map_code g) xs, im)) (vector_at h x)"
  by (cases "(h, x)" rule: vector_at.cases) (auto split: cell.splits)

lemma map_code_at [simp]:
  "fixnum_at (map_code g x) = fixnum_at x" "char_at (map_code g x) = char_at x" "symbol_object (map_code g x) = symbol_object x"
  "to_sexp (map_code g x) = to_sexp x" "address (map_code g x) = address x"
  subgoal by (cases x rule: fixnum_at.cases) simp_all
  subgoal by (cases x rule: char_at.cases) simp_all
  subgoal by (cases x rule: symbol_object.cases) simp_all
  subgoal by (cases x rule: to_sexp.cases) simp_all
  subgoal by (cases x rule: address.cases) simp_all
  done

lemmas vm_defs = vm_car_def vm_cdr_def vm_set_car_def vm_set_cdr_def vm_cons_def vm_vector_ref_def vm_vector_set_def
  vm_vector_length_def vm_make_vector_def vm_and_def vm_char2int_def vm_int2char_def sexp_cons_def sexp_make_vector_def
  vm_add_def vm_sub_def vm_mul_def vm_div_def vm_quotient_def vm_remainder_def vm_lt_def vm_le_def vm_eqn_def

lemma results_map:
  "as_result (map_heap g h) r = map_option (map_ires g) (as_result h r)"
  "or_exception (map_heap g h) r = map_option (map_ires g) (or_exception h r)"
  "compared (map_heap g h) test r = map_option (map_ires g) (compared h test r)"
  by (cases r; simp add: as_result_def or_exception_def compared_def split: sexp.splits)+

lemma arithmetic_map:
  "vm_add W (map_heap g h) (map_code g x) (map_code g y) = map_option (map_ires g) (vm_add W h x y)"
  "vm_sub W (map_heap g h) (map_code g x) (map_code g y) = map_option (map_ires g) (vm_sub W h x y)"
  "vm_mul W (map_heap g h) (map_code g x) (map_code g y) = map_option (map_ires g) (vm_mul W h x y)"
  "vm_quotient W (map_heap g h) (map_code g x) (map_code g y) = map_option (map_ires g) (vm_quotient W h x y)"
  "vm_remainder W (map_heap g h) (map_code g x) (map_code g y) = map_option (map_ires g) (vm_remainder W h x y)"
  "vm_lt W (map_heap g h) (map_code g x) (map_code g y) = map_option (map_ires g) (vm_lt W h x y)"
  "vm_le W (map_heap g h) (map_code g x) (map_code g y) = map_option (map_ires g) (vm_le W h x y)"
  by (simp_all add: vm_defs results_map Let_def split: option.splits)

lemma division_map: "vm_div W (map_heap g h) (map_code g x) (map_code g y) = map_option (map_ires g) (vm_div W h x y)"
  by (simp add: vm_div_def results_map split: option.splits sexp.splits)

lemma equality_map: "vm_eqn W (map_heap g h) (map_code g x) (map_code g y) = map_option (map_ires g) (vm_eqn W h x y)"
  by (simp add: vm_eqn_def results_map Let_def option.map_comp comp_def split: option.splits)

lemma pair_instructions_map:
  "vm_car (map_heap g h) (map_code g x) = map_ires g (vm_car h x)"
  "vm_cdr (map_heap g h) (map_code g x) = map_ires g (vm_cdr h x)"
  "vm_set_car (map_heap g h) (map_code g x) (map_code g y) = map_ires g (vm_set_car h x y)"
  "vm_set_cdr (map_heap g h) (map_code g x) (map_code g y) = map_ires g (vm_set_cdr h x y)"
  "vm_cons (map_heap g h) (map_code g x) (map_code g y) = map_ires g (vm_cons h x y)"
  by (simp_all add: vm_car_def vm_cdr_def vm_set_car_def vm_set_cdr_def vm_cons_def sexp_cons_def pair_at_map map_update split: option.splits prod.splits)

lemma vector_instructions_map:
  "vm_vector_ref (map_heap g h) (map_code g x) (map_code g y) = map_ires g (vm_vector_ref h x y)"
  "vm_vector_set (map_heap g h) (map_code g x) (map_code g y) (map_code g z) = map_ires g (vm_vector_set h x y z)"
  "vm_vector_length (map_heap g h) (map_code g x) = map_ires g (vm_vector_length h x)"
  "vm_make_vector (map_heap g h) (map_code g x) (map_code g y) = map_ires g (vm_make_vector h x y)"
  by (simp_all add: vm_vector_ref_def vm_vector_set_def vm_vector_length_def vm_make_vector_def sexp_make_vector_def vector_at_map map_update nat_less_iff
      split: option.splits prod.splits)

lemma character_instructions_map:
  "vm_char2int (map_heap g h) (map_code g x) = map_ires g (vm_char2int h x)"
  "vm_int2char (map_heap g h) (map_code g x) = map_ires g (vm_int2char h x)"
  "vm_and (map_code g x) (map_code g y) = map_code g (vm_and x y)"
  by (simp_all add: vm_char2int_def vm_int2char_def vm_and_def split: option.splits)

lemma on_cases:
  "on_1 f xs = (case xs of [x] \<Rightarrow> f x | _ \<Rightarrow> None)" "on_2 f' xs = (case xs of [x, y] \<Rightarrow> f' x y | _ \<Rightarrow> None)"
  "on_3 f'' xs = (case xs of [x, y, z] \<Rightarrow> f'' x y z | _ \<Rightarrow> None)"
  by (auto split: list.splits)

lemma on_map:
  "on_1 f (map k xs) = on_1 (\<lambda>x. f (k x)) xs" "on_2 f' (map k xs) = on_2 (\<lambda>x y. f' (k x) (k y)) xs"
  "on_3 f'' (map k xs) = on_3 (\<lambda>x y z. f'' (k x) (k y) (k z)) xs"
  by (auto simp: on_cases split: list.splits)

lemma map_on:
  "map_option m (on_1 f xs) = on_1 (\<lambda>x. map_option m (f x)) xs" "map_option m (on_2 f' xs) = on_2 (\<lambda>x y. map_option m (f' x y)) xs"
  "map_option m (on_3 f'' xs) = on_3 (\<lambda>x y z. map_option m (f'' x y z)) xs"
  by (auto simp: on_cases split: list.splits)

lemma on_Some:
  "on_1 f xs = Some r \<longleftrightarrow> (\<exists>x. xs = [x] \<and> f x = Some r)" "on_2 f' xs = Some r \<longleftrightarrow> (\<exists>x y. xs = [x, y] \<and> f' x y = Some r)"
  "on_3 f'' xs = Some r \<longleftrightarrow> (\<exists>x y z. xs = [x, y, z] \<and> f'' x y z = Some r)"
  by (auto simp: on_cases split: list.splits)

lemma primitive_map: "primitive W i (map_heap g h) (map (map_code g) xs) = map_option (map_ires g) (primitive W i h xs)"
  by (cases i) (simp_all add: primitive_def on_map map_on arithmetic_map division_map equality_map pair_instructions_map
      vector_instructions_map character_instructions_map)

lemma cons_rest_map:
  "cons_rest (map (map_code g) xs) (map_code g ls) (map_heap g h) = map_prod (map_code g) (map_heap g) (cons_rest xs ls h)"
proof (induction xs arbitrary: ls h)
  case (Cons x xs)
  show ?case using Cons.IH [of "DATUM (PAIR (length h))" "h @ [PAIR_CELL x ls False]"] by (simp add: sexp_cons_def)
qed simp

lemma adjust_args_map:
  "adjust_args flags n (map (map_code g) xs) (map_heap g h) = map_sum id (map_prod (map (map_code g)) (map_heap g)) (adjust_args flags n xs h)"
proof -
  have e: "cons_rest (map (map_code g) xs) (DATUM SNULL) (map_heap g h) = map_prod (map_code g) (map_heap g) (cons_rest xs (DATUM SNULL) h)" for xs
    using cons_rest_map [of g xs "DATUM SNULL" h] by simp
  show ?thesis by (simp add: adjust_args_def Let_def take_map drop_map e split: prod.splits)
qed

text \<open>What is raised is an exception.\<close>

fun exception_datum :: "'f datum \<Rightarrow> bool" where
  "exception_datum (EXN m) = True" | "exception_datum (NUM x) = sexp_exceptionp x" | "exception_datum v = False"

lemma exceptionp_datum [simp]: "exceptionp (DATUM v) = exception_datum v"
  by (cases v) simp_all

definition proper_error :: "('f, 'c) ires option \<Rightarrow> nat \<Rightarrow> bool" where
  "proper_error r n \<longleftrightarrow> (\<forall>k e. r = Some (ERROR k e) \<longrightarrow> k \<le> n \<and> exception_datum e)"

lemma proper_error_simps [simp]:
  "proper_error None n" "proper_error (Some (RESULT x h)) n" "proper_error (Some (EFFECT h)) n"
  "proper_error (Some (ERROR k e)) n \<longleftrightarrow> k \<le> n \<and> exception_datum e"
  by (auto simp: proper_error_def)

lemma proper_error_results [simp]: "proper_error (as_result h r) n" "proper_error (or_exception h r) 2" "proper_error (compared h test r) 2"
  subgoal by (cases r) (simp_all add: as_result_def)
  subgoal by (cases r) (simp_all add: or_exception_def)
  subgoal by (cases r) (auto simp: compared_def split: sexp.split)
  done

lemma proper_arithmetic:
  "proper_error (vm_add W h x y) 2" "proper_error (vm_sub W h x y) 2" "proper_error (vm_mul W h x y) 2" "proper_error (vm_div W h x y) 2"
  "proper_error (vm_quotient W h x y) 2" "proper_error (vm_remainder W h x y) 2" "proper_error (vm_lt W h x y) 2" "proper_error (vm_le W h x y) 2"
  by (simp_all add: vm_defs Let_def split: option.split sexp.split)

lemma proper_equality: "proper_error (vm_eqn W h x y) 2"
proof -
  have "proper_error (map_option (\<lambda>t. RESULT (make_boolean t) h) r) 2" for r by (cases r) simp_all
  then show ?thesis by (simp add: vm_eqn_def Let_def split: option.split)
qed

lemma proper_structures:
  "proper_error (Some (vm_car h x)) 1" "proper_error (Some (vm_cdr h x)) 1" "proper_error (Some (vm_set_car h x y)) 2"
  "proper_error (Some (vm_set_cdr h x y)) 2" "proper_error (Some (vm_cons h x y)) 2" "proper_error (Some (vm_vector_ref h x y)) 2"
  "proper_error (Some (vm_vector_set h x y z)) 3" "proper_error (Some (vm_vector_length h x)) 1" "proper_error (Some (vm_make_vector h x y)) 2"
  "proper_error (Some (vm_char2int h x)) 1" "proper_error (Some (vm_int2char h x)) 1"
  by (simp_all add: vm_defs split: option.split prod.split)

lemma proper_on:
  "(\<And>x. proper_error (f x) 1) \<Longrightarrow> proper_error (on_1 f xs) (length xs)"
  "(\<And>x y. proper_error (f' x y) 2) \<Longrightarrow> proper_error (on_2 f' xs) (length xs)"
  "(\<And>x y z. proper_error (f'' x y z) 3) \<Longrightarrow> proper_error (on_3 f'' xs) (length xs)"
  by (simp_all add: on_cases numeral_2_eq_2 numeral_3_eq_3 split: list.split)

lemma primitive_error: "primitive W i h xs = Some (ERROR k e) \<Longrightarrow> exception_datum e \<and> k \<le> length xs"
proof -
  have "proper_error (primitive W i h xs) (length xs)"
    by (cases i; simp only: primitive_def instr.case proper_error_simps; intro proper_on proper_arithmetic proper_equality proper_structures)
      simp_all
  then show "primitive W i h xs = Some (ERROR k e) \<Longrightarrow> exception_datum e \<and> k \<le> length xs" by (simp add: proper_error_def)
qed

lemma primitive_operands: "primitive W i h xs \<noteq> None \<Longrightarrow> length xs = operands i \<and> 0 < operands i"
  by (cases i) (auto simp: primitive_def operands_def on_Some)

end
