(* ===== verification/Runs.thy ===== *)
theory Runs
  imports Simulate
begin

text \<open>
  Runs of the virtual machine on code that stands at a position, when the stack is large enough: states are
  functions of the size of the stack.
\<close>

subsection \<open>Sequences of steps\<close>

fun resume :: "'f world \<Rightarrow> nat \<Rightarrow> 'f vm_outcome \<Rightarrow> 'f vm_outcome" where
  "resume W n (RUN s) = run W n s" | "resume W n r = r"

lemma run_Suc: "run W (Suc n) s = resume W n (step W s)"
  by (cases "step W s") simp_all

lemma resume_add: "resume W (m + n) r = resume W n (resume W m r)"
proof (induction m arbitrary: r)
  case 0
  then show ?case by (cases r) simp_all
next
  case (Suc m)
  show ?case
  proof (cases r)
    case (RUN s)
    with Suc [of "step W s"] show ?thesis by (simp add: run_Suc del: run.simps(2))
  qed simp_all
qed

text \<open>What a run arrives at: a state, or a stop with an exception.\<close>

datatype 'f target = TO "int \<Rightarrow> 'f vm" | FAIL "'f datum"

fun arrives :: "'f target \<Rightarrow> int \<Rightarrow> 'f vm_outcome \<Rightarrow> bool" where
  "arrives (TO g) l r \<longleftrightarrow> r = RUN (g l)"
| "arrives (FAIL e) l r \<longleftrightarrow> (\<exists>s. r = HALT (DATUM e) s)"

definition goes :: "'f world \<Rightarrow> (int \<Rightarrow> 'f vm_outcome) \<Rightarrow> 'f target \<Rightarrow> bool" where
  "goes W f t \<longleftrightarrow> (\<exists>L. \<forall>l \<ge> L. \<exists>n. arrives t l (resume W n (f l)))"

abbreviation moves :: "'f world \<Rightarrow> (int \<Rightarrow> 'f vm) \<Rightarrow> 'f target \<Rightarrow> bool" where
  "moves W s t \<equiv> goes W (\<lambda>l. RUN (s l)) t"

lemma moves_refl: "moves W s (TO s)"
  unfolding goes_def by (rule exI, rule allI, rule impI, rule exI [of _ 0]) simp

lemma goes_trans:
  assumes "goes W f (TO g)" "moves W g t"
  shows "goes W f t"
proof -
  obtain L M where L: "\<forall>l \<ge> L. \<exists>n. resume W n (f l) = RUN (g l)" and M: "\<forall>l \<ge> M. \<exists>n. arrives t l (run W n (g l))"
    using assms by (auto simp: goes_def)
  have "\<exists>n. arrives t l (resume W n (f l))" if l: "l \<ge> max L M" for l
  proof -
    have "L \<le> l" "M \<le> l" using l by simp_all
    then obtain m n where "resume W m (f l) = RUN (g l)" "arrives t l (run W n (g l))" using L M by blast
    then have "arrives t l (resume W (m + n) (f l))" by (simp add: resume_add)
    then show ?thesis by blast
  qed
  then show ?thesis unfolding goes_def by blast
qed

lemma moves_step:
  assumes "\<And>l. L \<le> l \<Longrightarrow> step W (s l) = f l" "goes W f t"
  shows "moves W s t"
proof -
  obtain M where M: "\<forall>l \<ge> M. \<exists>n. arrives t l (resume W n (f l))" using assms(2) by (auto simp: goes_def)
  have "\<exists>n. arrives t l (resume W n (RUN (s l)))" if "l \<ge> max L M" for l
  proof -
    have "M \<le> l" "L \<le> l" using that by simp_all
    then obtain n where "arrives t l (resume W n (f l))" using M by blast
    then have "arrives t l (run W (Suc n) (s l))" using assms(1) [of l] \<open>L \<le> l\<close> by (simp add: run_Suc del: run.simps)
    then show ?thesis by (auto simp del: run.simps)
  qed
  then show ?thesis unfolding goes_def by blast
qed

lemma moves_one: "(\<And>l. L \<le> l \<Longrightarrow> step W (s l) = RUN (g l)) \<Longrightarrow> moves W s (TO g)"
  by (rule moves_step [where f = "\<lambda>l. RUN (g l)"]) (auto intro: moves_refl)

lemma goes_cong: "(\<And>l. L \<le> l \<Longrightarrow> f l = g l) \<Longrightarrow> goes W g t \<Longrightarrow> goes W f t"
  unfolding goes_def by (metis (no_types, lifting) dual_order.trans max.cobounded1 max.cobounded2)

lemma goes_fail: "(\<And>l. L \<le> l \<Longrightarrow> \<exists>s. f l = HALT (DATUM e) s) \<Longrightarrow> goes W f (FAIL e)"
  unfolding goes_def by (rule exI [of _ L], intro allI impI, rule exI [of _ 0]) fastforce

subsection \<open>States\<close>

definition conf ::
  "('f, 'f bytecode) object \<Rightarrow> int \<Rightarrow> ('f, 'f bytecode) object \<Rightarrow> int \<Rightarrow> ('f, 'f bytecode) object list
    \<Rightarrow> ('f, 'f bytecode) heap \<Rightarrow> int \<Rightarrow> 'f vm" where
  "conf self fp eh ip stk h l = \<lparr>vm_ip = ip, vm_self = self, vm_stack = stk, vm_fp = fp, vm_heap = h,
    vm_stack_length = l, vm_handler = eh\<rparr>"

lemma conf_simps [simp]:
  "vm_ip (conf self fp eh ip stk h l) = ip" "vm_self (conf self fp eh ip stk h l) = self" "vm_stack (conf self fp eh ip stk h l) = stk"
  "vm_fp (conf self fp eh ip stk h l) = fp" "vm_heap (conf self fp eh ip stk h l) = h"
  "vm_stack_length (conf self fp eh ip stk h l) = l" "vm_handler (conf self fp eh ip stk h l) = eh"
  "push x (conf self fp eh ip stk h l) = conf self fp eh ip (stk @ [x]) h l"
  "advance_ip n (conf self fp eh ip stk h l) = conf self fp eh (ip + n) stk h l"
  "drop_top k (conf self fp eh ip stk h l) = conf self fp eh ip (take (length stk - k) stk) h l"
  "(conf self fp eh ip stk h l)\<lparr>vm_heap := h'\<rparr> = conf self fp eh ip stk h' l"
  "(conf self fp eh ip stk h l)\<lparr>vm_stack := stk'\<rparr> = conf self fp eh ip stk' h l"
  "(conf self fp eh ip stk h l)\<lparr>vm_self := self'\<rparr> = conf self' fp eh ip stk h l"
  "(conf self fp eh ip stk h l)\<lparr>vm_ip := ip'\<rparr> = conf self fp eh ip' stk h l"
  "(conf self fp eh ip stk h l)\<lparr>vm_fp := fp'\<rparr> = conf self fp' eh ip stk h l"
  by (simp_all add: conf_def push_def advance_ip_def drop_top_def)

definition code_at :: "('f, 'f bytecode) object \<Rightarrow> int \<Rightarrow> 'f code_unit list \<Rightarrow> bool" where
  "code_at self ip cs \<longleftrightarrow> (\<exists>pre post. procedure_code self = pre @ cs @ post \<and> ip = int (length pre))"

lemma code_at_append:
  assumes "code_at self ip (xs @ ys)"
  shows "code_at self ip xs" "code_at self (ip + int (length xs)) ys"
proof -
  obtain pre post where p: "procedure_code self = pre @ (xs @ ys) @ post" "ip = int (length pre)"
    using assms by (auto simp: code_at_def)
  have "procedure_code self = pre @ xs @ (ys @ post)" "procedure_code self = (pre @ xs) @ ys @ post" using p(1) by simp_all
  with p(2) show "code_at self ip xs" "code_at self (ip + int (length xs)) ys"
    unfolding code_at_def by (blast, intro exI [of _ "pre @ xs"] exI [of _ post]) simp
qed

lemma code_at_Cons: "code_at self ip (x # ys) \<Longrightarrow> code_at self ip [x]" "code_at self ip (x # ys) \<Longrightarrow> code_at self (ip + 1) ys"
  using code_at_append [of self ip "[x]" ys] by simp_all

lemma step_at:
  assumes "code_at self ip (OP i # cs)"
  shows "step W (conf self fp eh ip stk h l) = execute W i (conf self fp eh (ip + 1) stk h l)"
proof -
  obtain pre post where p: "procedure_code self = pre @ (OP i # cs) @ post" "ip = int (length pre)"
    using assms by (auto simp: code_at_def)
  then have "procedure_code self ! nat ip = OP i" "0 \<le> ip" "ip < int (length (procedure_code self))"
    by (simp_all add: nth_append)
  then show ?thesis by (simp add: step_def Let_def)
qed

lemma operand_at:
  assumes "code_at self ip (word_bytes w @ cs)"
  shows "operand (conf self fp eh ip stk h l) 0 = w"
proof -
  obtain pre post where p: "procedure_code self = pre @ (word_bytes w @ cs) @ post" "ip = int (length pre)"
    using assms by (auto simp: code_at_def)
  then have "procedure_code self ! nat ip = w" "nat ip < length (procedure_code self)"
    by (simp_all add: nth_append word_bytes_def)
  then show ?thesis by (simp add: operand_def)
qed

lemma operand_word:
  assumes "code_at self ip (instr_word i w @ cs)"
  shows "operand (conf self fp eh (ip + 1) stk h l) 0 = w"
  using code_at_Cons(2) [of self ip "OP i" "word_bytes w @ cs"] assms by (intro operand_at [of _ _ _ cs]) (simp add: instr_word_def)

subsection \<open>Single instructions\<close>

lemma move_push: "code_at self ip (push_code v @ cs) \<Longrightarrow>
  moves W (conf self fp eh ip stk h) (TO (conf self fp eh (ip + 9) (stk @ [v]) h))"
proof (rule moves_one)
  fix l
  assume c: "code_at self ip (push_code v @ cs)"
  then have "code_at self ip (instr_word OP_PUSH (WORD v) @ cs)" by (simp add: push_code_def instr_word_def)
  from operand_word [OF this] step_at [OF c [unfolded push_code_def append_Cons]]
  show "step W (conf self fp eh ip stk h l) = RUN (conf self fp eh (ip + 9) (stk @ [v]) h l)"
    by (simp add: execute_def)
qed

lemma execute_primitive: "0 < operands i \<Longrightarrow> execute W i s = vm_primitive W i s"
  by (cases i) (simp_all add: operands_def execute_def)

lemma goes_raise:
  assumes "\<not> procedurep eh" "exception_datum e"
  shows "goes W (\<lambda>l. raise_top (conf self fp eh ip (stk @ [DATUM e]) h l)) (FAIL e)"
  using assms by (intro goes_fail) (simp add: raise_top_def)

lemma move_primitive:
  assumes "code_at self ip (OP i # cs)" "\<not> procedurep eh" "primitive W i h xs = Some r"
  shows "moves W (conf self fp eh ip (stk @ rev xs) h)
    (case r of RESULT x h' \<Rightarrow> TO (conf self fp eh (ip + 1) (stk @ [x]) h')
     | EFFECT h' \<Rightarrow> TO (conf self fp eh (ip + 1) stk h') | ERROR k e \<Rightarrow> FAIL e)"
proof -
  have n: "length xs = operands i" "0 < operands i" using primitive_operands [of W i h xs] assms(3) by auto
  note st = step_at [OF assms(1)] execute_primitive [OF n(2)] vm_primitive_def Let_def
  show ?thesis
  proof (cases r)
    case (ERROR k e)
    then have e: "exception_datum e" using primitive_error assms(3) by blast
    have "step W (conf self fp eh ip (stk @ rev xs) h l)
      = raise_top (conf self fp eh (ip + 1) (take (length stk + length xs - k) (stk @ rev xs) @ [DATUM e]) h l)" for l
      using n assms(3) ERROR by (simp add: st)
    from moves_step [OF this goes_raise [OF assms(2) e]] ERROR show ?thesis by simp
  next
    case (RESULT x h')
    then show ?thesis using n assms(3) by (auto intro!: moves_one simp: st)
  next
    case (EFFECT h')
    then show ?thesis using n assms(3) by (auto intro!: moves_one simp: st)
  qed
qed

lemma move_drop: "code_at self ip (OP OP_DROP # cs) \<Longrightarrow> moves W (conf self fp eh ip (stk @ [x]) h) (TO (conf self fp eh (ip + 1) stk h))"
  by (rule moves_one) (simp add: step_at execute_def)

lemma step_word:
  "code_at self ip (instr_word i w @ cs) \<Longrightarrow> step W (conf self fp eh ip stk h l) = execute W i (conf self fp eh (ip + 1) stk h l)"
  by (simp add: instr_word_def step_at)

lemma move_jump:
  "code_at self ip (instr_word OP_JUMP (SWORD n) @ cs) \<Longrightarrow> moves W (conf self fp eh ip stk h) (TO (conf self fp eh (ip + 1 + n) stk h))"
  by (rule moves_one) (simp add: step_word operand_word execute_def)

lemma move_jump_unless:
  "code_at self ip (instr_word OP_JUMP_UNLESS (SWORD n) @ cs) \<Longrightarrow> moves W (conf self fp eh ip (stk @ [x]) h)
    (TO (conf self fp eh (ip + (if x = DATUM SFALSE then 1 + n else 9)) stk h))"
  by (rule moves_one) (simp add: step_word operand_word execute_def vm_jump_unless_def)

lemma move_local_ref:
  assumes "code_at self ip (instr_word OP_LOCAL_REF (SWORD k) @ cs)" "0 \<le> fp - 1 - k" "fp - 1 - k < int (length stk)"
  shows "moves W (conf self fp eh ip stk h) (TO (conf self fp eh (ip + 9) (stk @ [stk ! nat (fp - 1 - k)]) h))"
  using assms by (intro moves_one) (simp add: step_word operand_word execute_def vm_local_ref_def stack_at_def)

lemma move_local_set:
  assumes "code_at self ip (instr_word OP_LOCAL_SET (SWORD k) @ cs)" "0 \<le> fp - 1 - k" "fp - 1 - k < int (length stk)"
  shows "moves W (conf self fp eh ip (stk @ [x]) h) (TO (conf self fp eh (ip + 9) (stk[nat (fp - 1 - k) := x]) h))"
  using assms by (intro moves_one) (simp add: step_word operand_word execute_def vm_local_set_def Let_def)

lemma move_stack_ref:
  assumes "code_at self ip (instr_word OP_STACK_REF (SWORD (int n)) @ cs)" "0 < n" "n \<le> length stk"
  shows "moves W (conf self fp eh ip stk h) (TO (conf self fp eh (ip + 9) (stk @ [stk ! (length stk - n)]) h))"
  using assms by (intro moves_one) (simp add: step_word operand_word execute_def vm_stack_ref_def stack_at_def nat_diff_distrib')

lemma move_closure_ref:
  assumes "code_at self ip (instr_word OP_CLOSURE_REF (SWORD (int n)) @ cs)"
    "vector_at h (procedure_vars self) = Some (xs, im)" "n < length xs"
  shows "moves W (conf self fp eh ip stk h) (TO (conf self fp eh (ip + 9) (stk @ [xs ! n]) h))"
  using assms by (intro moves_one) (simp add: step_word operand_word execute_def vm_closure_ref_def Let_def)

lemma move_global_ref:
  assumes "code_at self ip (instr_word (if undef then OP_GLOBAL_REF else OP_GLOBAL_KNOWN_REF) (WORD (DATUM (PAIR cell))) @ cs)"
    "pair_at h (DATUM (PAIR cell)) = Some (name, v, im)" "\<not> procedurep eh"
  shows "moves W (conf self fp eh ip stk h)
    (if undef \<and> v = DATUM SUNDEF then FAIL (EXN ''undefined variable'') else TO (conf self fp eh (ip + 9) (stk @ [v]) h))"
proof (cases "undef \<and> v = DATUM SUNDEF")
  case True
  have "step W (conf self fp eh ip stk h l) = raise_top (conf self fp eh (ip + 1) (stk @ [DATUM (EXN ''undefined variable'')]) h l)" for l
    using assms(1,2) True by (simp add: step_word operand_word execute_def vm_global_ref_def raise_exn_def)
  from moves_step [OF this goes_raise [OF assms(3)]] True show ?thesis by simp
next
  case False
  then show ?thesis
    using assms(1,2) by (auto intro!: moves_one simp: step_word operand_word execute_def vm_global_ref_def split: if_splits)
qed

lemma move_make_procedure:
  assumes "code_at self ip (instr_word OP_MAKE_PROCEDURE (WORD (DATUM (FIX (int flags)))) @ word_bytes (WORD (DATUM (FIX (int n))))
      @ word_bytes (CODE bc) @ cs)"
  shows "moves W (conf self fp eh ip (stk @ [DATUM v]) h) (TO (conf self fp eh (ip + 25) (stk @ [PROCEDURE flags n bc v]) h))"
proof -
  let ?c = "conf self fp eh (ip + 1) (stk @ [DATUM v]) h"
  obtain pre post where p: "procedure_code self = pre @ (instr_word OP_MAKE_PROCEDURE (WORD (DATUM (FIX (int flags))))
      @ word_bytes (WORD (DATUM (FIX (int n)))) @ word_bytes (CODE bc) @ cs) @ post" "ip = int (length pre)"
    using assms by (auto simp: code_at_def)
  have "operand (?c l) 0 = WORD (DATUM (FIX (int flags)))" "operand (?c l) 1 = WORD (DATUM (FIX (int n)))" "operand (?c l) 2 = CODE bc" for l
    using p by (simp_all add: operand_def Let_def nth_append instr_word_def word_bytes_def nat_add_distrib numeral_eq_Suc)
  then show ?thesis
    by (intro moves_one) (simp add: step_word [OF assms] execute_def vm_make_procedure_def)
qed

text \<open>The state in which a procedure has returned: the frame at \<open>fp\<close> is taken off.\<close>

definition frame_at :: "int \<Rightarrow> ('f, 'f bytecode) object list \<Rightarrow> bool" where
  "frame_at fp stk \<longleftrightarrow> 0 \<le> fp \<and> fp + 3 < int (length stk) \<and> 0 \<le> object_int (stk ! nat fp) \<and> object_int (stk ! nat fp) \<le> fp"

definition returned ::
  "int \<Rightarrow> ('f, 'f bytecode) object \<Rightarrow> ('f, 'f bytecode) object list \<Rightarrow> ('f, 'f bytecode) object \<Rightarrow> ('f, 'f bytecode) heap \<Rightarrow> int \<Rightarrow> 'f vm" where
  "returned fp eh stk v h = conf (stk ! nat (fp + 2)) (object_int (stk ! nat (fp + 3))) eh (object_int (stk ! nat (fp + 1)))
    (take (nat (fp - object_int (stk ! nat fp))) stk @ [v]) h"

lemma frame_at_append: "frame_at fp stk \<Longrightarrow> frame_at fp (stk @ xs)"
  by (auto simp: frame_at_def nth_append)

lemma returned_append: "frame_at fp stk \<Longrightarrow> returned fp eh (stk @ xs) v h = returned fp eh stk v h"
  by (auto simp: frame_at_def returned_def nth_append nat_less_iff)

lemma move_ret:
  assumes "code_at self ip (OP OP_RET # cs)" "frame_at fp stk"
  shows "moves W (conf self fp eh ip (stk @ [v]) h) (TO (returned fp eh stk v h))"
proof -
  have "stack_at (conf self fp eh ip' (stk @ [v]) h l) (fp + k) = Some (stk ! nat (fp + k))" if "0 \<le> k" "k \<le> 3" for l k ip'
    using assms(2) that by (auto simp: stack_at_def frame_at_def nth_append)
  from this [of 0] this [of 1] this [of 2] this [of 3] assms(2)
  show ?thesis
    by (intro moves_one) (auto simp: step_at [OF assms(1)] execute_def vm_ret_def Let_def returned_def frame_at_def nat_less_iff)
qed

end
