(* ===== verification/Calls.thy ===== *)
theory Calls
  imports Runs
begin

text \<open>
  Variables, calls and the entry of procedures: the frame of a procedure holds what the environment of
  the evaluator says.
\<close>

subsection \<open>Procedures and their code\<close>

definition closure_code :: "'f genv \<Rightarrow> 'f ast \<Rightarrow> 'f bytecode" where
  "closure_code E lam =
    (case lam of LAMBDA k params rest locals sv fv body \<Rightarrow> lambda_code lam (sexp_generate E body) | _ \<Rightarrow> BYTECODE [] 0)"

text \<open>An object of the evaluator as an object of the machine.\<close>

abbreviation cob :: "'f genv \<Rightarrow> ('f, 'f ast) object \<Rightarrow> ('f, 'f bytecode) object" where
  "cob E \<equiv> map_code (closure_code E)"

abbreviation cheap :: "'f genv \<Rightarrow> ('f, 'f ast) heap \<Rightarrow> ('f, 'f bytecode) heap" where
  "cheap E \<equiv> map_heap (closure_code E)"

subsection \<open>Positions in a frame\<close>

lemma list_index_Some: "list_index x xs = Some i \<Longrightarrow> i < length xs \<and> xs ! i = x"
  by (induction xs arbitrary: i) (auto split: if_splits)

lemma list_index_None: "list_index x xs = None \<longleftrightarrow> x \<notin> set xs"
  by (induction xs) auto

lemma frame_index_range:
  assumes "frame_index params rest locals x = Some k"
  shows "(0 \<le> k \<and> k \<le> int (length params)) \<or> (\<exists>i < length locals. k = - 5 - int i)"
  using assms by (auto split: option.splits if_splits dest!: list_index_Some)

lemma frame_index_inject:
  assumes "frame_index params rest locals x = Some k" "frame_index params rest locals y = Some k"
  shows "x = y"
  using assms by (auto split: option.splits if_splits dest!: list_index_Some)

lemma param_index_frame: "frame_index params rest locals x = Some k \<Longrightarrow> sexp_param_index params rest locals x = k"
  by (cases x) (simp_all del: frame_index.simps)

declare frame_index.simps [simp del]

lemma frame_env_index:
  assumes "frame_env params rest unused locals args x = Some v" "length params \<le> length args"
  obtains k where "frame_index params rest locals x = Some k"
    "0 \<le> k \<Longrightarrow> nat k < length args \<and> args ! nat k = v" "k < 0 \<Longrightarrow> v = DATUM SUNDEF"
proof (cases "frame_index params rest locals x")
  case None
  then show ?thesis using assms list_index_None [of x locals]
    by (auto simp: frame_index.simps split: option.splits if_splits)
next
  case (Some k)
  then show ?thesis using that [OF Some] assms
    by (auto simp: frame_index.simps split: option.splits if_splits dest!: list_index_Some)
qed

subsection \<open>Frames and environments\<close>

text \<open>The variables of the current lambda stand in the frame.\<close>

definition env_at :: "'f genv \<Rightarrow> ident list \<Rightarrow> ident option \<Rightarrow> ident list \<Rightarrow> (ident \<Rightarrow> ('f, 'f ast) object option) \<Rightarrow> int
    \<Rightarrow> ('f, 'f bytecode) object list \<Rightarrow> bool" where
  "env_at E params rest locals env fp stk \<longleftrightarrow> (\<forall>x v. env x = Some v \<longrightarrow>
    (let i = fp - 1 - sexp_param_index params rest locals x in 0 \<le> i \<and> i < int (length stk) \<and> stk ! nat i = cob E v))"

fun frame_ok :: "'f genv \<Rightarrow> 'f ast option \<Rightarrow> 'f act \<Rightarrow> int \<Rightarrow> ('f, 'f bytecode) object list \<Rightarrow> bool" where
  "frame_ok E None a fp stk \<longleftrightarrow> act_id a = None \<and> act_fv a = []"
| "frame_ok E (Some (LAMBDA k params rest locals sv fv body)) a fp stk \<longleftrightarrow>
    act_id a = Some k \<and> act_fv a = fv \<and> env_at E params rest locals (act_env a) fp stk"
| "frame_ok E x a fp stk \<longleftrightarrow> False"

lemma env_at_append: "env_at E params rest locals env fp stk \<Longrightarrow> env_at E params rest locals env fp (stk @ xs)"
  unfolding env_at_def by (fastforce simp: Let_def nth_append nat_less_iff)

lemma frame_ok_append: "frame_ok E lam a fp stk \<Longrightarrow> frame_ok E lam a fp (stk @ xs)"
  by (cases "(E, lam, a, fp, stk)" rule: frame_ok.cases) (auto intro: env_at_append)

lemma move_var:
  assumes "code_at self ip (var_code sv name loc lam u @ cs)" "frame_ok E lam a fp stk" "procedure_vars self = DATUM (act_vars a)"
    "lookup a h name loc = Some v" "u \<and> name \<in> set (sv loc) \<Longrightarrow> pair_at h v = Some (x, y, im)" "\<not> procedurep eh"
  shows "moves W (conf self fp eh ip stk (cheap E h)) (TO (conf self fp eh (ip + int (length (var_code sv name loc lam u)))
    (stk @ [if u \<and> name \<in> set (sv loc) then cob E y else cob E v]) (cheap E h)))"
proof -
  let ?ref = "if same_lambda lam loc then instr_word OP_LOCAL_REF (SWORD (local_index lam name))
     else instr_word OP_CLOSURE_REF (SWORD (int (fv_index (name, loc) (lambda_fv lam)))) :: 'a code_unit list"
  let ?cdr = "if u \<and> name \<in> set (sv loc) then [OP OP_CDR] else [] :: 'a code_unit list"
  have v: "var_code sv name loc lam u = ?ref @ ?cdr" by (simp add: var_code_def)
  have l: "length ?ref = 9" by simp
  have c: "code_at self ip (?ref @ ?cdr @ cs)" using assms(1) by (simp add: v)
  have r: "moves W (conf self fp eh ip stk (cheap E h)) (TO (conf self fp eh (ip + 9) (stk @ [cob E v]) (cheap E h)))"
  proof (cases "same_lambda lam loc")
    case True
    then obtain params rest locals sv' fv body where L: "lam = Some (LAMBDA loc params rest locals sv' fv body)"
      by (cases "(lam, loc)" rule: same_lambda.cases) auto
    with assms(2,4) have "act_env a name = Some v" "env_at E params rest locals (act_env a) fp stk" by (auto simp: lookup_def)
    then have i: "0 \<le> fp - 1 - local_index lam name" "fp - 1 - local_index lam name < int (length stk)"
      "stk ! nat (fp - 1 - local_index lam name) = cob E v" by (auto simp: env_at_def Let_def L)
    from move_local_ref [OF _ i(1,2), of self ip "?cdr @ cs"] c True i(3) show ?thesis by simp
  next
    case False
    have a: "act_fv a = lambda_fv lam" "act_id a \<noteq> Some loc" using assms(2) False
      by (cases "(E, lam, a, fp, stk)" rule: frame_ok.cases; auto)+
    with assms(4) obtain xs im where x: "vector_at h (DATUM (act_vars a)) = Some (xs, im)" "fv_index (name, loc) (lambda_fv lam) < length xs"
      "xs ! fv_index (name, loc) (lambda_fv lam) = v" by (auto simp: lookup_def Let_def split: option.splits if_splits)
    from vector_at_map [of "closure_code E" h "DATUM (act_vars a)"] x(1)
    have "vector_at (cheap E h) (procedure_vars self) = Some (map (cob E) xs, im)" by (simp add: assms(3))
    from move_closure_ref [OF _ this, of ip "fv_index (name, loc) (lambda_fv lam)" "?cdr @ cs"] c False x(2,3) show ?thesis by simp
  qed
  show ?thesis
  proof (cases "u \<and> name \<in> set (sv loc)")
    case True
    then have p: "primitive W OP_CDR (cheap E h) [cob E v] = Some (RESULT (cob E y) (cheap E h))"
      using assms(5) pair_at_map [of "closure_code E" h v] by (simp add: primitive_def vm_cdr_def)
    have "code_at self (ip + 9) (OP OP_CDR # cs)" using code_at_append(2) [OF c] True l by simp
    from move_primitive [OF this assms(6) p] have "moves W (conf self fp eh (ip + 9) (stk @ [cob E v]) (cheap E h))
      (TO (conf self fp eh (ip + 10) (stk @ [cob E y]) (cheap E h)))" by (simp add: add.commute)
    moreover have "length (var_code sv name loc lam u) = 10" using True l by (simp add: var_code_def)
    ultimately show ?thesis using goes_trans [OF r] True by simp
  next
    case False
    then have "length (var_code sv name loc lam u) = 9" using l by (simp add: var_code_def)
    with r False show ?thesis by auto
  qed
qed

subsection \<open>Entering a procedure\<close>

definition frame_of :: "nat \<Rightarrow> int \<Rightarrow> ('f, 'f bytecode) object \<Rightarrow> int \<Rightarrow> ('f, 'f bytecode) object list" where
  "frame_of n ip self fp = [fix_object (int n), fix_object ip, self, fix_object fp]"

lemma length_frame [simp]: "length (frame_of n ip self fp) = 4"
  by (simp add: frame_of_def)

lemma frame_at_frame: "frame_at (int (length base) + int (length args)) (base @ args @ frame_of (length args) ip self fp @ xs)"
  by (simp add: frame_at_def frame_of_def fix_object_def nth_append nat_add_distrib)

lemma returned_frame:
  "returned (int (length base) + int (length args)) eh (base @ args @ frame_of (length args) ip self fp @ xs) v h
    = conf self fp eh ip (base @ [v]) h"
  by (simp add: returned_def frame_of_def fix_object_def nth_append nat_add_distrib)

lemma enter_goes:
  assumes "\<not> procedurep eh" "length args = i"
  shows "goes W (\<lambda>l. make_call W i (PROCEDURE flags n bc vars) (conf self fp eh ip (base @ args @ [x]) h l))
    (case adjust_args flags n args h of
       Inl msg \<Rightarrow> FAIL (EXN msg)
     | Inr (args', h') \<Rightarrow>
         TO (conf (PROCEDURE flags n bc vars) (int (length base) + int (length args')) eh 0
           (base @ args' @ frame_of (length args') (ip + 8) self fp) h'))"
proof -
  let ?c = "conf self fp eh ip (base @ args @ [x]) h"
  define L where "L = int (length (base @ args @ [x])) + (bytecode_max_depth bc + 64) + 1"
  have room: "sexp_ensure_stack W (bytecode_max_depth bc + 64) (?c l) = Some (?c l)" if "L \<le> l" for l
    using that by (simp add: sexp_ensure_stack_def L_def)
  have m: "make_call W i (PROCEDURE flags n bc vars) (?c l) = (case adjust_args flags n args h of
       Inl msg \<Rightarrow> raise_top (conf self fp eh ip ((base @ args @ [x]) @ [DATUM (EXN msg)]) h l)
     | Inr (args', h') \<Rightarrow>
         RUN (conf (PROCEDURE flags n bc vars) (int (length base) + int (length args')) eh 0
           (base @ args' @ frame_of (length args') (ip + 8) self fp) h' l))" if "L \<le> l" for l
    using room [OF that] assms(2)
    by (auto simp: make_call_def enter_def raise_exn_def Let_def adjust_args_def frame_of_def split: prod.split)
  show ?thesis
  proof (cases "adjust_args flags n args h")
    case (Inl msg)
    have "goes W (\<lambda>l. raise_top (conf self fp eh ip ((base @ args @ [x]) @ [DATUM (EXN msg)]) h l)) (FAIL (EXN msg))"
      by (rule goes_raise [OF assms(1)]) simp
    from goes_cong [OF _ this, of L] m Inl show ?thesis by simp
  next
    case (Inr r)
    obtain args' h' where r: "r = (args', h')" by (cases r)
    from m Inr r have "L \<le> l \<Longrightarrow> make_call W i (PROCEDURE flags n bc vars) (?c l)
      = RUN (conf (PROCEDURE flags n bc vars) (int (length base) + int (length args')) eh 0
           (base @ args' @ frame_of (length args') (ip + 8) self fp) h' l)" for l by simp
    from goes_cong [OF this moves_refl] Inr r show ?thesis by simp
  qed
qed

lemma adjust_args_length: "adjust_args flags n args h = Inr (args', h') \<Longrightarrow> n \<le> length args'"
  by (auto simp: adjust_args_def Let_def split: if_splits prod.splits)

subsection \<open>Internal variables and boxes\<close>

lemma move_undefs:
  "code_at self ip (concat (replicate n (push_code (DATUM SUNDEF))) @ cs) \<Longrightarrow>
  moves W (conf self fp eh ip stk h) (TO (conf self fp eh (ip + 9 * int n) (stk @ replicate n (DATUM SUNDEF)) h))"
proof (induction n arbitrary: ip stk)
  case (Suc n)
  from Suc.prems have c: "code_at self ip (push_code (DATUM SUNDEF) @ concat (replicate n (push_code (DATUM SUNDEF))) @ cs)" by simp
  from goes_trans [OF move_push [OF c] Suc.IH [of "ip + 9"]] code_at_append(2) [OF c]
  show ?case by (simp add: algebra_simps)
qed (simp add: moves_refl)

text \<open>The frame between the arguments and the internal variables.\<close>

lemma frame_slot:
  assumes "frame_index params rest locals x = Some k" "k < 0 \<or> nat k < length A" "length B = length locals" "length F = 4"
    "fp = int (length base) + int (length A)"
  shows "0 \<le> fp - 1 - k" "fp - 1 - k < int (length (base @ A @ F @ B))"
    "\<exists>A' B'. (base @ A @ F @ B)[nat (fp - 1 - k) := v] = base @ A' @ F @ B' \<and> length A' = length A \<and> length B' = length B"
proof -
  from frame_index_range [OF assms(1)] consider (arg) "0 \<le> k" "nat k < length A" | (loc) i where "k = - 5 - int i" "i < length locals"
    using assms(2) by fastforce
  then have "0 \<le> fp - 1 - k \<and> fp - 1 - k < int (length (base @ A @ F @ B))
    \<and> (\<exists>A' B'. (base @ A @ F @ B)[nat (fp - 1 - k) := v] = base @ A' @ F @ B' \<and> length A' = length A \<and> length B' = length B)"
  proof cases
    case arg
    define j where "j = length A - 1 - nat k"
    from arg have n: "nat (fp - 1 - k) = length base + j" "j < length A" using assms(5) unfolding j_def by linarith+
    have "(base @ A @ F @ B)[nat (fp - 1 - k) := v] = base @ A[j := v] @ F @ B"
      using n by (simp add: list_update_append)
    then show ?thesis using arg assms(4,5) by (intro conjI exI [of _ "A[j := v]"] exI [of _ B]) simp_all
  next
    case (loc i)
    then have n: "nat (fp - 1 - k) = length base + (length A + (4 + i))" using assms(5) by linarith
    have "(base @ A @ F @ B)[nat (fp - 1 - k) := v] = base @ A @ F @ B[i := v]"
      using loc assms(3,4) unfolding n by (simp add: list_update_append)
    then show ?thesis using loc assms(3,4,5) by (intro conjI exI [of _ A] exI [of _ "B[i := v]"]) simp_all
  qed
  then show "0 \<le> fp - 1 - k" "fp - 1 - k < int (length (base @ A @ F @ B))"
    "\<exists>A' B'. (base @ A @ F @ B)[nat (fp - 1 - k) := v] = base @ A' @ F @ B' \<and> length A' = length A \<and> length B' = length B" by blast+
qed

lemma env_at_box:
  assumes "env_at E params rest locals env fp stk" "\<forall>x. env x \<noteq> None \<longrightarrow> frame_index params rest locals x \<noteq> None"
    "env name = Some v" "i = nat (fp - 1 - sexp_param_index params rest locals name)"
  shows "env_at E params rest locals (env(name \<mapsto> p)) fp (stk[i := cob E p])"
proof -
  have n: "0 \<le> fp - 1 - sexp_param_index params rest locals name" "i < length stk"
    using assms(1,3,4) by (auto simp: env_at_def Let_def nat_less_iff)
  have d: "nat (fp - 1 - sexp_param_index params rest locals x) \<noteq> i"
    if x: "env x = Some w" "x \<noteq> name" for x w
  proof -
    have "0 \<le> fp - 1 - sexp_param_index params rest locals x" using assms(1) x(1) by (auto simp: env_at_def Let_def)
    moreover have "sexp_param_index params rest locals x \<noteq> sexp_param_index params rest locals name"
    proof -
      obtain j k where jk: "frame_index params rest locals x = Some j" "frame_index params rest locals name = Some k"
        using assms(2,3) x(1) by fastforce
      with frame_index_inject x(2) have "j \<noteq> k" by blast
      with jk show ?thesis by (simp add: param_index_frame)
    qed
    ultimately show ?thesis using assms(4) n by linarith
  qed
  show ?thesis
    unfolding env_at_def
  proof (intro allI impI)
    fix x w
    assume w: "(env(name \<mapsto> p)) x = Some w"
    show "let j = fp - 1 - sexp_param_index params rest locals x
      in 0 \<le> j \<and> j < int (length (stk[i := cob E p])) \<and> stk[i := cob E p] ! nat j = cob E w"
    proof (cases "x = name")
      case True
      with w n assms(4) show ?thesis by (simp add: Let_def)
    next
      case False
      with w have "env x = Some w" by simp
      with assms(1) d [OF this False] show ?thesis by (fastforce simp: env_at_def Let_def)
    qed
  qed
qed

text \<open>The code at the entry of a procedure boxes the assigned variables.\<close>

lemma move_boxes:
  fixes E :: "'f genv"
  assumes "code_at self ip (concat (map (box_code params rest locals) sv) @ cs)" "\<not> procedurep eh"
    "box_variables sv env h = Some (env', h')"
    "env_at E params rest locals env fp (base @ A @ F @ B)" "\<forall>x. env x \<noteq> None \<longrightarrow> frame_index params rest locals x \<noteq> None
      \<and> (sexp_param_index params rest locals x < 0 \<or> nat (sexp_param_index params rest locals x) < length A)"
    "length B = length locals" "length F = 4" "fp = int (length base) + int (length A)"
  shows "\<exists>A' B'. length A' = length A \<and> length B' = length B \<and> env_at E params rest locals env' fp (base @ A' @ F @ B')
    \<and> moves W (conf self fp eh ip (base @ A @ F @ B) (cheap E h))
        (TO (conf self fp eh (ip + int (length (concat (map (box_code params rest locals) sv) :: 'f code_unit list)))
          (base @ A' @ F @ B') (cheap E h')))"
  using assms
proof (induction sv arbitrary: ip env h A B)
  case Nil
  then show ?case by (auto intro: moves_refl)
next
  case (Cons name sv)
  let ?k = "sexp_param_index params rest locals name" and ?stk = "base @ A @ F @ B"
  let ?rest = "concat (map (box_code params rest locals) sv) :: 'f code_unit list"
  let ?p = "DATUM (PAIR (length h)) :: ('f, 'f ast) object" and ?q = "DATUM (PAIR (length h)) :: ('f, 'f bytecode) object"
  obtain v where v: "env name = Some v"
    and b: "box_variables sv (env(name \<mapsto> ?p)) (h @ [PAIR_CELL (DATUM (IDENT name)) v False]) = Some (env', h')"
    using Cons.prems(3) by (auto simp: sexp_cons_def split: option.splits)
  have i: "0 \<le> fp - 1 - ?k" "fp - 1 - ?k < int (length ?stk)" "?stk ! nat (fp - 1 - ?k) = cob E v"
    using Cons.prems(4) v by (auto simp: env_at_def Let_def)
  obtain k where k: "frame_index params rest locals name = Some k" "?k = k" "k < 0 \<or> nat k < length A"
    using Cons.prems(5) v by (fastforce dest: param_index_frame)
  obtain A1 B1 where up: "?stk[nat (fp - 1 - ?k) := ?q] = base @ A1 @ F @ B1" "length A1 = length A" "length B1 = length B"
    using frame_slot(3) [OF k(1,3) Cons.prems(6-8), of "DATUM (PAIR (length h))"] k(2) by auto
  have bx: "box_code params rest locals name = instr_word OP_LOCAL_REF (SWORD ?k) @ push_code (DATUM (IDENT name)) @ [OP OP_CONS]
      @ instr_word OP_LOCAL_SET (SWORD ?k)" by (simp add: box_code_def Let_def)
  have c: "code_at self ip (instr_word OP_LOCAL_REF (SWORD ?k) @ push_code (DATUM (IDENT name)) @ OP OP_CONS
      # instr_word OP_LOCAL_SET (SWORD ?k) @ ?rest @ cs)"
    using Cons.prems(1) by (simp add: bx)
  have c1: "code_at self (ip + 9) (push_code (DATUM (IDENT name)) @ OP OP_CONS # instr_word OP_LOCAL_SET (SWORD ?k) @ ?rest @ cs)"
    using code_at_append(2) [OF c] by simp
  have c2: "code_at self (ip + 18) (OP OP_CONS # instr_word OP_LOCAL_SET (SWORD ?k) @ ?rest @ cs)"
    using code_at_append(2) [OF c1] by (simp add: add.commute)
  have c3: "code_at self (ip + 19) (instr_word OP_LOCAL_SET (SWORD ?k) @ ?rest @ cs)"
    using code_at_Cons(2) [OF c2] by (simp add: add.commute)
  have c4: "code_at self (ip + 28) (?rest @ cs)" using code_at_append(2) [OF c3] by (simp add: add.commute)
  have m1: "moves W (conf self fp eh ip ?stk (cheap E h)) (TO (conf self fp eh (ip + 9) (?stk @ [cob E v]) (cheap E h)))"
    using move_local_ref [OF c i(1,2)] i(3) by simp
  have m2: "moves W (conf self fp eh (ip + 9) (?stk @ [cob E v]) (cheap E h))
      (TO (conf self fp eh (ip + 18) (?stk @ [cob E v, DATUM (IDENT name)]) (cheap E h)))"
    using move_push [OF c1, of W fp eh "?stk @ [cob E v]" "cheap E h"] by (simp add: add.commute)
  have p: "primitive W OP_CONS (cheap E h) [DATUM (IDENT name), cob E v]
      = Some (RESULT ?q (cheap E (h @ [PAIR_CELL (DATUM (IDENT name)) v False])))"
    by (simp add: primitive_def vm_cons_def sexp_cons_def)
  have m3: "moves W (conf self fp eh (ip + 18) (?stk @ [cob E v, DATUM (IDENT name)]) (cheap E h))
      (TO (conf self fp eh (ip + 19) (?stk @ [?q]) (cheap E (h @ [PAIR_CELL (DATUM (IDENT name)) v False]))))"
    using move_primitive [OF c2 Cons.prems(2) p, of fp ?stk] by (simp add: add.commute)
  have m4: "moves W (conf self fp eh (ip + 19) (?stk @ [?q]) (cheap E (h @ [PAIR_CELL (DATUM (IDENT name)) v False])))
      (TO (conf self fp eh (ip + 28) (base @ A1 @ F @ B1) (cheap E (h @ [PAIR_CELL (DATUM (IDENT name)) v False]))))"
    using move_local_set [OF c3 i(1,2), of W eh ?q] up(1) by (simp add: add.commute)
  have e: "env_at E params rest locals (env(name \<mapsto> ?p)) fp (base @ A1 @ F @ B1)"
    using env_at_box [OF Cons.prems(4) _ v refl, of ?p] Cons.prems(5) up(1) by simp
  have d: "\<forall>x. (env(name \<mapsto> ?p)) x \<noteq> None \<longrightarrow> frame_index params rest locals x \<noteq> None
      \<and> (sexp_param_index params rest locals x < 0 \<or> nat (sexp_param_index params rest locals x) < length A1)"
    using Cons.prems(5) v up(2) by auto
  have l: "length B1 = length locals" "fp = int (length base) + int (length A1)" using Cons.prems(6,8) up by simp_all
  obtain A' B' where n: "length A' = length A1" "length B' = length B1" "env_at E params rest locals env' fp (base @ A' @ F @ B')"
    and m5: "moves W (conf self fp eh (ip + 28) (base @ A1 @ F @ B1) (cheap E (h @ [PAIR_CELL (DATUM (IDENT name)) v False])))
        (TO (conf self fp eh (ip + 28 + int (length ?rest)) (base @ A' @ F @ B') (cheap E h')))"
    using Cons.IH [OF c4 Cons.prems(2) b e d l(1) Cons.prems(7) l(2)] by blast
  have "length (concat (map (box_code params rest locals) (name # sv)) :: 'f code_unit list) = 28 + length ?rest"
    by (simp add: bx)
  then show ?case
    using n up goes_trans [OF m1 goes_trans [OF m2 goes_trans [OF m3 goes_trans [OF m4 m5]]]]
    by (intro exI [of _ A'] exI [of _ B']) (simp add: algebra_simps)
qed


subsection \<open>What the machine gives_answer\<close>

text \<open>
  A run gives_answer a result: it stops with the exception, or goes on behind the code with the value on the stack.  In
  tail position the procedure may already have returned.
\<close>

fun gives_answer :: "'f world \<Rightarrow> (int \<Rightarrow> 'f vm_outcome) \<Rightarrow> bool \<Rightarrow> ('f, 'f bytecode) object \<Rightarrow> int \<Rightarrow> ('f, 'f bytecode) object \<Rightarrow> int
    \<Rightarrow> ('f, 'f bytecode) object list \<Rightarrow> 'f genv \<Rightarrow> ('f datum + ('f, 'f ast) object) \<times> ('f, 'f ast) heap \<Rightarrow> bool" where
  "gives_answer W f t self fp eh ip stk E (Inl x, h) \<longleftrightarrow> goes W f (FAIL x)"
| "gives_answer W f t self fp eh ip stk E (Inr v, h) \<longleftrightarrow>
    goes W f (TO (conf self fp eh ip (stk @ [cob E v]) (cheap E h)))
    \<or> t \<and> goes W f (TO (returned fp eh stk (cob E v) (cheap E h)))"

lemma goes_answer:
  assumes "goes W f (TO g)" "gives_answer W (\<lambda>l. RUN (g l)) t self fp eh ip stk E r"
  shows "gives_answer W f t self fp eh ip stk E r"
proof -
  obtain a h where r: "r = (a, h)" by (cases r)
  show ?thesis using assms by (cases a) (auto simp: r intro: goes_trans)
qed

definition simulates :: "'f world \<Rightarrow> ('f act \<Rightarrow> ('f, 'f ast) heap \<Rightarrow> 'f ast \<Rightarrow> ('f, ('f, 'f ast) object) answer) \<Rightarrow> bool" where
  "simulates W ev \<longleftrightarrow> (\<forall>a h e r lam t self fp eh ip stk cs.
    ev a h e = Some r \<longrightarrow> code_at self ip (compile (w_genv W) lam t e @ cs) \<longrightarrow> frame_ok (w_genv W) lam a fp stk
    \<longrightarrow> procedure_vars self = DATUM (act_vars a) \<longrightarrow> (t \<longrightarrow> frame_at fp stk) \<longrightarrow> \<not> procedurep eh
    \<longrightarrow> gives_answer W (\<lambda>l. RUN (conf self fp eh ip stk (cheap (w_genv W) h) l)) t self fp eh
          (ip + int (length (compile (w_genv W) lam t e))) stk (w_genv W) r)"

lemma simulatesD:
  "simulates W ev \<Longrightarrow> ev a h e = Some r \<Longrightarrow> code_at self ip (compile (w_genv W) lam t e @ cs) \<Longrightarrow> frame_ok (w_genv W) lam a fp stk
    \<Longrightarrow> procedure_vars self = DATUM (act_vars a) \<Longrightarrow> (t \<Longrightarrow> frame_at fp stk) \<Longrightarrow> \<not> procedurep eh
    \<Longrightarrow> gives_answer W (\<lambda>l. RUN (conf self fp eh ip stk (cheap (w_genv W) h) l)) t self fp eh
          (ip + int (length (compile (w_genv W) lam t e))) stk (w_genv W) r"
  unfolding simulates_def by blast

subsection \<open>Calls\<close>

lemma env_at_frame:
  assumes "length params \<le> length A" "F = frame_of (length A) ip self fp"
  shows "env_at E params rest locals (frame_env params rest u locals (rev A)) (int (length base) + int (length A))
    (base @ map (cob E) A @ F @ replicate (length locals) (DATUM SUNDEF))" (is ?env)
    "\<forall>x. frame_env params rest u locals (rev A) x \<noteq> None \<longrightarrow> frame_index params rest locals x \<noteq> None
      \<and> (sexp_param_index params rest locals x < 0 \<or> nat (sexp_param_index params rest locals x) < length A)" (is ?dom)
proof -
  have f: "\<exists>k. frame_index params rest locals x = Some k \<and> sexp_param_index params rest locals x = k
      \<and> (0 \<le> k \<longrightarrow> nat k < length A \<and> rev A ! nat k = v) \<and> (k < 0 \<longrightarrow> v = DATUM SUNDEF \<and> (\<exists>i < length locals. k = - 5 - int i))"
    if x: "frame_env params rest u locals (rev A) x = Some v" for x v
  proof -
    obtain k where k: "frame_index params rest locals x = Some k" "0 \<le> k \<Longrightarrow> nat k < length (rev A) \<and> rev A ! nat k = v"
      "k < 0 \<Longrightarrow> v = DATUM SUNDEF"
      using frame_env_index [OF x] assms(1) by (metis length_rev)
    with frame_index_range [OF k(1)] param_index_frame [OF k(1)] show ?thesis by (intro exI [of _ k]) auto
  qed
  show ?dom
  proof (intro allI impI)
    fix x
    assume "frame_env params rest u locals (rev A) x \<noteq> None"
    then obtain v where "frame_env params rest u locals (rev A) x = Some v" by blast
    from f [OF this] show "frame_index params rest locals x \<noteq> None
      \<and> (sexp_param_index params rest locals x < 0 \<or> nat (sexp_param_index params rest locals x) < length A)" by force
  qed
  show ?env
    unfolding env_at_def
  proof (intro allI impI)
    fix x v
    assume "frame_env params rest u locals (rev A) x = Some v"
    from f [OF this] obtain k where k: "sexp_param_index params rest locals x = k" "0 \<le> k \<Longrightarrow> nat k < length A \<and> rev A ! nat k = v"
      "k < 0 \<Longrightarrow> v = DATUM SUNDEF \<and> (\<exists>i < length locals. k = - 5 - int i)" by blast
    show "let i = int (length base) + int (length A) - 1 - sexp_param_index params rest locals x
      in 0 \<le> i \<and> i < int (length (base @ map (cob E) A @ F @ replicate (length locals) (DATUM SUNDEF)))
        \<and> (base @ map (cob E) A @ F @ replicate (length locals) (DATUM SUNDEF)) ! nat i = cob E v"
    proof (cases "0 \<le> k")
      case True
      define j where "j = length A - 1 - nat k"
      have j: "nat (int (length base) + int (length A) - 1 - k) = length base + j" "j < length A" "A ! j = v"
        using True k(2) by (auto simp: j_def rev_nth Suc_diff_Suc)
      have "k < int (length A)" using k(2) True by (simp add: nat_less_iff)
      with j True k(1) show ?thesis by (simp add: Let_def nth_append assms(2))
    next
      case False
      with k(3) obtain i where i: "k = - 5 - int i" "i < length locals" "v = DATUM SUNDEF" by auto
      then have "nat (int (length base) + int (length A) - 1 - k) = length base + (length A + (4 + i))" by linarith
      with i k(1) show ?thesis by (simp add: Let_def nth_append assms(2))
    qed
  qed
qed

lemma goes_raise_exn:
  assumes "\<not> procedurep eh"
  shows "goes W (\<lambda>l. raise_exn msg (conf self fp eh ip stk h l)) (FAIL (EXN msg))"
  using goes_raise [OF assms, of "EXN msg"] by (simp add: raise_exn_def)

text \<open>The body of a procedure, entered with its arguments on the stack.\<close>

lemma move_body:
  fixes W :: "'f world" and fv :: "(ident \<times> nat) list"
  defines "E \<equiv> w_genv W"
  assumes "simulates W ev" "no_push_opcode E" "\<not> procedurep eh" "length params \<le> length A"
    "P = PROCEDURE flags n (closure_code E (LAMBDA k params rest locals sv fv body)) vars"
    "box_variables sv (frame_env params rest u locals (rev A)) h = Some (env, h1)"
    "ev \<lparr>act_id = Some k, act_env = env, act_fv = fv, act_vars = vars\<rparr> h1 body = Some r"
  shows "gives_answer W (\<lambda>l. RUN (conf P (int (length base) + int (length A)) eh 0
    (base @ map (cob E) A @ frame_of (length A) ip self fp) (cheap E h) l)) False self fp eh ip base E r"
proof -
  let ?L = "LAMBDA k params rest locals sv fv body" and ?a = "\<lparr>act_id = Some k, act_env = env, act_fv = fv, act_vars = vars\<rparr>"
  let ?fp = "int (length base) + int (length A)" and ?F = "frame_of (length A) ip self fp"
  let ?U = "concat (replicate (length locals) (push_code (DATUM SUNDEF))) :: 'f code_unit list"
  let ?X = "concat (map (box_code params rest locals) sv) :: 'f code_unit list"
  let ?B = "compile E (Some ?L) True body"
  have "procedure_code P = ?U @ ?X @ ?B @ [OP OP_RET]"
    using lambda_code_data [OF assms(3), of k params rest locals sv fv body] by (simp add: assms(6) closure_code_def entry_code_def)
  then have c: "code_at P 0 (?U @ ?X @ ?B @ [OP OP_RET])" by (auto simp: code_at_def)
  note c1 = code_at_append(2) [OF c] note c2 = code_at_append(2) [OF c1] note c3 = code_at_append(2) [OF c2]
  have u: "moves W (conf P ?fp eh 0 (base @ map (cob E) A @ ?F) (cheap E h))
      (TO (conf P ?fp eh (0 + int (length ?U)) (base @ map (cob E) A @ ?F @ replicate (length locals) (DATUM SUNDEF)) (cheap E h)))"
    using move_undefs [OF c, of W ?fp eh "base @ map (cob E) A @ ?F" "cheap E h"]
    by (simp add: length_concat sum_list_replicate mult.commute)
  note e = env_at_frame(1) [OF assms(5) refl, where E = E and rest = rest and locals = locals and u = u and base = base
      and ip = ip and self = self and fp = fp]
    env_at_frame(2) [OF assms(5) refl, where rest = rest and u = u and locals = locals]
  obtain A' B' where b: "length A' = length (map (cob E) A)" "length B' = length (replicate (length locals) (DATUM SUNDEF))"
      "env_at E params rest locals env ?fp (base @ A' @ ?F @ B')"
    and m: "moves W (conf P ?fp eh (0 + int (length ?U)) (base @ map (cob E) A @ ?F @ replicate (length locals) (DATUM SUNDEF)) (cheap E h))
      (TO (conf P ?fp eh (0 + int (length ?U) + int (length ?X)) (base @ A' @ ?F @ B') (cheap E h1)))"
    using move_boxes [OF c1 assms(4) assms(7) e(1), of W] e(2) by (simp) blast
  have s: "gives_answer W (\<lambda>l. RUN (conf P ?fp eh (0 + int (length ?U) + int (length ?X)) (base @ A' @ ?F @ B') (cheap E h1) l)) True P ?fp eh
      (0 + int (length ?U) + int (length ?X) + int (length ?B)) (base @ A' @ ?F @ B') E r"
    using simulatesD [OF assms(2,8), folded E_def, OF c2 _ _ _ assms(4)] b(1,3) frame_at_frame [of base A' ip self fp B']
    by (simp add: assms(6))
  have fr: "frame_at ?fp (base @ A' @ ?F @ B')" "returned ?fp eh (base @ A' @ ?F @ B') v h = conf self fp eh ip (base @ [v]) h" for v h
    using frame_at_frame [of base A' ip self fp B'] returned_frame [of base A' eh ip self fp B' v h] b(1) by simp_all
  have "gives_answer W (\<lambda>l. RUN (conf P ?fp eh (0 + int (length ?U) + int (length ?X)) (base @ A' @ ?F @ B') (cheap E h1) l)) False
      self fp eh ip base E r"
  proof -
    obtain q h2 where r: "r = (q, h2)" by (cases r)
    show ?thesis
    proof (cases q)
      case (Inl x)
      with s show ?thesis by (simp add: r)
    next
      case (Inr v)
      note ret = move_ret [OF c3 fr(1), of W eh "cob E v" "cheap E h2"]
      from s Inr show ?thesis using goes_trans [OF _ ret] by (auto simp: r fr(2))
    qed
  qed
  from goes_answer [OF u goes_answer [OF m this]] show ?thesis .
qed

lemma move_apply:
  fixes W :: "'f world"
  defines "E \<equiv> w_genv W"
  assumes "simulates W ev" "no_push_opcode E" "\<not> procedurep eh" "apply_procedure ev p args h = Some r"
  shows "gives_answer W (\<lambda>l. make_call W (length args) (cob E p)
    (conf self fp eh ip (base @ rev (map (cob E) args) @ [x]) (cheap E h) l)) False self fp eh (ip + 8) base E r"
proof (cases p)
  case (DATUM v)
  then have r: "r = (Inl (EXN ''non procedure application''), h)" "\<And>k. v \<noteq> OPCODE k"
    using assms(5) by (cases v; simp add: apply_procedure_def)+
  have "make_call W (length args) (cob E p) (conf self fp eh ip (base @ rev (map (cob E) args) @ [x]) (cheap E h) l)
    = raise_exn ''non procedure application'' (conf self fp eh ip (base @ rev (map (cob E) args) @ [x]) (cheap E h) l)" for l
    using r(2) by (cases v) (auto simp: make_call_def enter_def DATUM)
  with goes_raise_exn [OF assms(4)] show ?thesis by (simp add: r(1))
next
  case (PROCEDURE flags n lam vars)
  then obtain k params rest locals sv fv body where L: "lam = LAMBDA k params rest locals sv fv body" "n = length params"
    using assms(5) by (cases lam) (simp_all add: apply_procedure_def split: if_splits)
  let ?bc = "closure_code E (LAMBDA k params rest locals sv fv body)"
  have p: "cob E p = PROCEDURE flags n ?bc vars" by (simp add: PROCEDURE L(1))
  note en = enter_goes [OF assms(4), of "rev (map (cob E) args)" "length args" W flags n ?bc vars self fp ip base x "cheap E h"]
  note m = adjust_args_map [of flags n "closure_code E" "rev args" h]
  show ?thesis
  proof (cases "adjust_args flags n (rev args) h")
    case (Inl msg)
    then have "r = (Inl (EXN msg), h)" using assms(5) PROCEDURE L by (simp add: apply_procedure_def)
    with en m Inl show ?thesis by (simp add: p rev_map)
  next
    case (Inr q)
    obtain A h0 where q: "q = (A, h0)" by (cases q)
    obtain env h1 where b: "box_variables sv (frame_env params rest (unused_rest_p flags) locals (rev A)) h0 = Some (env, h1)"
        "ev \<lparr>act_id = Some k, act_env = env, act_fv = fv, act_vars = vars\<rparr> h1 body = Some r"
      using assms(5) PROCEDURE L Inr q by (auto simp: apply_procedure_def split: option.splits)
    have l: "length params \<le> length A" using adjust_args_length [of flags n "rev args" h A h0] Inr q L(2) by simp
    have "goes W (\<lambda>l. make_call W (length args) (cob E p) (conf self fp eh ip (base @ rev (map (cob E) args) @ [x]) (cheap E h) l))
      (TO (conf (cob E p) (int (length base) + int (length A)) eh 0 (base @ map (cob E) A @ frame_of (length A) (ip + 8) self fp) (cheap E h0)))"
      using en m Inr q by (simp add: p rev_map)
    from goes_answer [OF this move_body [OF assms(2) assms(3) [unfolded E_def] assms(4) l _ b, of _ flags n, folded E_def]]
    show ?thesis using p by simp
  qed
qed

text \<open>The call instructions.\<close>

lemma operand_fix: "code_at self ip (instr_word i (WORD (DATUM (FIX n))) @ cs) \<Longrightarrow>
  unit_int (operand (conf self fp eh (ip + 1) stk h l) 0) = n"
  by (simp add: operand_word)

lemma move_call:
  fixes W :: "'f world"
  defines "E \<equiv> w_genv W"
  assumes "code_at self ip (instr_word OP_CALL (WORD (DATUM (FIX (int (length args))))) @ cs)" "simulates W ev" "no_push_opcode E"
    "\<not> procedurep eh" "apply_procedure ev p args h = Some r"
  shows "gives_answer W (\<lambda>l. RUN (conf self fp eh ip (stk @ rev (map (cob E) args) @ [cob E p]) (cheap E h) l)) False self fp eh (ip + 9) stk E r"
proof -
  note a = move_apply [OF assms(3,4,5,6) [unfolded E_def], of self fp "ip + 1" stk "cob E p", folded E_def]
  have st: "step W (conf self fp eh ip (stk @ rev (map (cob E) args) @ [cob E p]) (cheap E h) l) = make_call W (length args) (cob E p)
    (conf self fp eh (ip + 1) (stk @ rev (map (cob E) args) @ [cob E p]) (cheap E h) l)" for l
    by (simp add: step_word [OF assms(2)] execute_def vm_call_def operand_word [OF assms(2)])
  obtain q h2 where r: "r = (q, h2)" by (cases r)
  show ?thesis using a moves_step [OF st] by (cases q) (simp_all add: r add.assoc)
qed

lemma move_tail_call:
  fixes W :: "'f world"
  defines "E \<equiv> w_genv W"
  assumes "code_at self ip (instr_word OP_TAIL_CALL (WORD (DATUM (FIX (int (length args))))) @ cs)" "simulates W ev" "no_push_opcode E"
    "\<not> procedurep eh" "apply_procedure ev p args h = Some r" "frame_at fp stk"
  shows "gives_answer W (\<lambda>l. RUN (conf self fp eh ip (stk @ rev (map (cob E) args) @ [cob E p]) (cheap E h) l)) True self fp eh (ip + 9) stk E r"
proof -
  define base where "base = take (nat (fp - object_int (stk ! nat fp))) stk"
  let ?self = "stk ! nat (fp + 2)" and ?ip = "object_int (stk ! nat (fp + 1))" and ?fp = "object_int (stk ! nat (fp + 3))"
  note a = move_apply [OF assms(3,4,5,6) [unfolded E_def], of ?self ?fp "?ip - 8" base "cob E p", folded E_def]
  have f: "stack_at (conf self fp eh ip' (stk @ xs) h' l) (fp + k) = Some (stk ! nat (fp + k))" if "0 \<le> k" "k \<le> 3" for l k ip' xs h'
    using assms(7) that by (auto simp: stack_at_def frame_at_def nth_append)
  have t: "\<not> fp < object_int (stk ! nat fp)" "nat (fp - object_int (stk ! nat fp)) \<le> length stk" using assms(7) by (auto simp: frame_at_def)
  have st: "step W (conf self fp eh ip (stk @ rev (map (cob E) args) @ [cob E p]) (cheap E h) l) = make_call W (length args) (cob E p)
    (conf ?self ?fp eh (?ip - 8) (base @ rev (map (cob E) args) @ [cob E p]) (cheap E h) l)" for l
    using f [of 0] f [of 1] f [of 2] f [of 3] t
    by (simp add: step_word [OF assms(2)] execute_def vm_tail_call_def operand_word [OF assms(2)] Let_def base_def)
  obtain q h2 where r: "r = (q, h2)" by (cases r)
  have b: "conf ?self ?fp eh ?ip (base @ [v]) h' = returned fp eh stk v h'" for v h' by (simp add: returned_def base_def)
  show ?thesis using a moves_step [OF st] by (cases q) (simp_all add: r b)
qed


end
