(* ===== verification/Operators.thy ===== *)
theory Operators
  imports Calls
begin

text \<open>
  Argument lists and the applications of opcodes: folded arithmetic, chains of comparisons and
  instructions on operands.
\<close>

subsection \<open>Arguments\<close>

lemma move_list:
  fixes W :: "'f world"
  defines "E \<equiv> w_genv W"
  assumes "simulates W ev" "\<not> procedurep eh" "procedure_vars self = DATUM (act_vars a)"
    "code_at self ip (concat (map (compile E lam False) es) @ cs)" "frame_ok E lam a fp stk" "eval_list (ev a) h es = Some (q, h')"
  shows "case q of Inl x \<Rightarrow> moves W (conf self fp eh ip stk (cheap E h)) (FAIL x)
    | Inr vs \<Rightarrow> length vs = length es \<and> moves W (conf self fp eh ip stk (cheap E h))
        (TO (conf self fp eh (ip + int (length (concat (map (compile E lam False) es)))) (stk @ map (cob E) vs) (cheap E h')))"
  using assms(5-)
proof (induction es arbitrary: ip stk h q h')
  case Nil
  then show ?case by (auto intro: moves_refl)
next
  case (Cons e es)
  have c: "code_at self ip (compile E lam False e @ concat (map (compile E lam False) es) @ cs)" using Cons.prems(1) by simp
  note c2 = code_at_append(2) [OF c]
  obtain r h1 where r: "ev a h e = Some (r, h1)" using Cons.prems(3) by (cases "ev a h e") auto
  note s = simulatesD [OF assms(2) r, folded E_def, OF c Cons.prems(2) assms(4) _ assms(3), simplified]
  show ?case
  proof (cases r)
    case (Inl x)
    then show ?thesis using s Cons.prems(3) r by auto
  next
    case (Inr v)
    obtain q2 h2 where l: "eval_list (ev a) h1 es = Some (q2, h2)" using Cons.prems(3) r Inr by (cases "eval_list (ev a) h1 es") auto
    from s Inr have m: "moves W (conf self fp eh ip stk (cheap E h))
      (TO (conf self fp eh (ip + int (length (compile E lam False e))) (stk @ [cob E v]) (cheap E h1)))" by simp
    have h: "q2 = Inl x \<Longrightarrow> q = Inl x" "q2 = Inr vs \<Longrightarrow> q = Inr (v # vs) \<and> h2 = h'" for x vs
      using Cons.prems(3) r Inr l by auto
    note ih = Cons.IH [OF c2 frame_ok_append [OF Cons.prems(2), of "[cob E v]"] l]
    show ?thesis
    proof (cases q2)
      case (Inl x)
      with ih h(1) goes_trans [OF m] show ?thesis by auto
    next
      case (Inr vs)
      with ih h(2) goes_trans [OF m] show ?thesis by (auto simp: add.assoc)
    qed
  qed
qed

subsection \<open>Operators\<close>

lemma move_fold:
  fixes W :: "'f world"
  assumes "\<not> procedurep eh" "code_at self ip (replicate (length ys) (OP i) @ cs)" "apply_fold W i x ys h = Some (q, h')"
  shows "case q of Inl e \<Rightarrow> moves W (conf self fp eh ip (stk @ rev (map (cob E) (x # ys))) (cheap E h)) (FAIL e)
    | Inr v \<Rightarrow> moves W (conf self fp eh ip (stk @ rev (map (cob E) (x # ys))) (cheap E h))
        (TO (conf self fp eh (ip + int (length ys)) (stk @ [cob E v]) (cheap E h')))"
  using assms(2-)
proof (induction ys arbitrary: ip x h)
  case Nil
  then show ?case by (auto intro: moves_refl)
next
  case (Cons y ys)
  have c: "code_at self ip (OP i # replicate (length ys) (OP i) @ cs)" using Cons.prems(1) by simp
  obtain r where r: "primitive W i h [x, y] = Some r" using Cons.prems(2) by (auto split: option.splits)
  have "primitive W i (cheap E h) [cob E x, cob E y] = Some (map_ires (closure_code E) r)"
    using primitive_map [of W i "closure_code E" h "[x, y]"] r by simp
  note m = move_primitive [OF c assms(1) this, of fp "stk @ rev (map (cob E) ys)"]
  show ?case
  proof (cases r)
    case (RESULT v h1)
    with Cons.prems(2) r have "apply_fold W i v ys h1 = Some (q, h')" by simp
    from Cons.IH [OF code_at_Cons(2) [OF c] this] m RESULT goes_trans
    show ?thesis by (cases q) (force simp: add.assoc)+
  next
    case (ERROR k e)
    with Cons.prems(2) r m show ?thesis by auto
  next
    case (EFFECT h1)
    with Cons.prems(2) r show ?thesis by simp
  qed
qed

text \<open>Comparisons of what is not a number are exceptions.\<close>

definition rejects_objects :: "'f world \<Rightarrow> bool" where
  "rejects_objects W \<longleftrightarrow> (\<forall>a b r. r_compare (w_arith W) a b = Some r \<longrightarrow> a = OBJECT 0 \<or> b = OBJECT 0
    \<longrightarrow> (\<exists>e x. r = EXCEPTION e x \<and> e \<noteq> Xtype_error ''can't compare NaN''))"

lemma compared_objects:
  assumes "rejects_objects W" "compared h test (r_compare (w_arith W) a b) = Some (RESULT v h')"
  shows "a \<noteq> OBJECT 0 \<and> b \<noteq> OBJECT 0 \<and> h' = h \<and> (\<exists>b. v = make_boolean b)"
proof -
  obtain r where r: "r_compare (w_arith W) a b = Some r" using assms(2) by (auto simp: compared_def)
  with assms(2) have v: "h' = h \<and> (\<exists>b. v = make_boolean b)" "\<And>e x. r = EXCEPTION e x \<Longrightarrow> e = Xtype_error ''can't compare NaN''"
    by (cases r; auto simp: compared_def split: if_splits intro: exI [of _ False])+
  with assms(1) r show ?thesis unfolding rejects_objects_def by blast
qed

lemma comparison_result:
  assumes "rejects_objects W" "i \<in> {OP_LT, OP_LE, OP_EQN}" "primitive W i h [x, y] = Some (RESULT v h')"
  shows "x \<noteq> DATUM SFALSE \<and> y \<noteq> DATUM SFALSE \<and> h' = h \<and> (\<exists>b. v = make_boolean b)"
proof -
  have f: "fixnum_at x = Some j \<Longrightarrow> x \<noteq> DATUM SFALSE" for x and j by auto
  have lt: "vm_lt W h x y = Some (RESULT v h') \<or> vm_le W h x y = Some (RESULT v h') \<or> vm_eqn W h x y = Some (RESULT v h')"
    using assms(2,3) by (auto simp: primitive_def)
  then show ?thesis
  proof (elim disjE)
    assume "vm_lt W h x y = Some (RESULT v h')"
    then show ?thesis using f by (auto simp: vm_lt_def split: option.splits dest!: compared_objects [OF assms(1)])
  next
    assume "vm_le W h x y = Some (RESULT v h')"
    then show ?thesis using f by (auto simp: vm_le_def split: option.splits dest!: compared_objects [OF assms(1)])
  next
    assume "vm_eqn W h x y = Some (RESULT v h')"
    then show ?thesis using f
      by (auto simp: vm_eqn_def Let_def split: option.splits if_splits dest!: compared_objects [OF assms(1)] intro: exI [of _ False])
  qed
qed

lemma vm_and_booleans: "vm_and x (make_boolean b) = make_boolean (x \<noteq> DATUM SFALSE \<and> b)"
  by (cases b) (simp_all add: vm_and_def)

lemma false_boolean [simp]: "make_boolean b = DATUM SFALSE \<longleftrightarrow> \<not> b" "DATUM SFALSE = make_boolean b \<longleftrightarrow> \<not> b"
  by (cases b; simp)+

lemma move_and:
  assumes "code_at self ip (OP OP_AND # cs)" "\<not> procedurep eh"
  shows "moves W (conf self fp eh ip (stk @ [x, y]) h)
    (TO (conf self fp eh (ip + 1) (stk @ [make_boolean (x \<noteq> DATUM SFALSE \<and> y \<noteq> DATUM SFALSE)]) h))"
proof -
  have "primitive W OP_AND h [y, x] = Some (RESULT (make_boolean (x \<noteq> DATUM SFALSE \<and> y \<noteq> DATUM SFALSE)) h)"
    by (simp add: primitive_def vm_and_def conj_commute)
  from move_primitive [OF assms this, of fp stk] show ?thesis by simp
qed

text \<open>One comparison of a chain: \<open>n\<close> is the depth of the two operands.\<close>

lemma move_compare:
  assumes "\<not> procedurep eh" "stk = lo @ y # x # hi" "n = length hi + 2"
    "code_at self ip (instr_word OP_STACK_REF (SWORD (int n)) @ instr_word OP_STACK_REF (SWORD (int n)) @ OP i # cs)"
    "primitive W i h [x, y] = Some r"
  shows "moves W (conf self fp eh ip stk h)
    (case r of RESULT v h' \<Rightarrow> TO (conf self fp eh (ip + 19) (stk @ [v]) h')
     | EFFECT h' \<Rightarrow> TO (conf self fp eh (ip + 19) stk h') | ERROR k e \<Rightarrow> FAIL e)"
proof -
  have c2: "code_at self (ip + 9) (instr_word OP_STACK_REF (SWORD (int n)) @ OP i # cs)" using code_at_append(2) [OF assms(4)] by simp
  have c3: "code_at self (ip + 18) (OP i # cs)" using code_at_append(2) [OF c2] by (simp add: add.commute)
  have n: "stk ! (length stk - n) = y" "(stk @ [y]) ! (length (stk @ [y]) - n) = x"
    using assms(2,3) by (simp_all add: nth_append)
  have m1: "moves W (conf self fp eh ip stk h) (TO (conf self fp eh (ip + 9) (stk @ [y]) h))"
    using move_stack_ref [OF assms(4), of stk] n(1) assms(2,3) by simp
  have m2: "moves W (conf self fp eh (ip + 9) (stk @ [y]) h) (TO (conf self fp eh (ip + 18) (stk @ [y, x]) h))"
    using move_stack_ref [OF c2, of "stk @ [y]"] n(2) assms(2,3) by (simp add: add.commute)
  from move_primitive [OF c3 assms(1,5), of fp stk]
  have m3: "moves W (conf self fp eh (ip + 18) (stk @ [y, x]) h)
    (case r of RESULT v h' \<Rightarrow> TO (conf self fp eh (ip + 19) (stk @ [v]) h')
     | EFFECT h' \<Rightarrow> TO (conf self fp eh (ip + 19) stk h') | ERROR k e \<Rightarrow> FAIL e)" by (cases r) (simp_all add: add.commute)
  from goes_trans [OF m1 goes_trans [OF m2 m3]] show ?thesis .
qed

definition chain_step :: "instr \<Rightarrow> 'f code_unit list" where
  "chain_step i = instr_word OP_STACK_REF (SWORD 3) @ instr_word OP_STACK_REF (SWORD 3) @ [OP i, OP OP_AND, OP OP_AND]"

lemma length_chain_step [simp]: "length (chain_step i) = 21"
  by (simp add: chain_step_def)

lemma move_chain:
  fixes W :: "'f world"
  assumes "rejects_objects W" "i \<in> {OP_LT, OP_LE, OP_EQN}" "\<not> procedurep eh" "y \<noteq> DATUM SFALSE"
    "code_at self ip (concat (replicate (length ys) (chain_step i)) @ OP OP_AND # cs)" "apply_chain W i (y # ys) h = Some (q, h')"
  shows "case q of Inl e \<Rightarrow> moves W (conf self fp eh ip (stk @ rev (map (cob E) (y # ys)) @ [make_boolean c]) (cheap E h)) (FAIL e)
    | Inr b \<Rightarrow> moves W (conf self fp eh ip (stk @ rev (map (cob E) (y # ys)) @ [make_boolean c]) (cheap E h))
        (TO (conf self fp eh (ip + 21 * int (length ys) + 1) (stk @ [make_boolean (c \<and> b)]) (cheap E h')))"
  using assms(4-)
proof (induction ys arbitrary: ip y h c q)
  case Nil
  have "code_at self ip (OP OP_AND # cs)" using Nil.prems(2) by simp
  from move_and [OF this assms(3), of W fp stk "cob E y" "make_boolean c"] Nil.prems(1,3) show ?case by auto
next
  case (Cons z zs)
  let ?stk = "stk @ rev (map (cob E) zs)"
  have cc: "code_at self ip (instr_word OP_STACK_REF (SWORD (int 3)) @ instr_word OP_STACK_REF (SWORD (int 3)) @ OP i
      # OP OP_AND # OP OP_AND # concat (replicate (length zs) (chain_step i)) @ OP OP_AND # cs)"
    using Cons.prems(2) by (simp add: chain_step_def [of i, symmetric] flip: append_assoc) (simp add: chain_step_def)
  obtain r where r: "primitive W i h [y, z] = Some r" using Cons.prems(3) by (auto split: option.splits)
  have "primitive W i (cheap E h) [cob E y, cob E z] = Some (map_ires (closure_code E) r)"
    using primitive_map [of W i "closure_code E" h "[y, z]"] r by simp
  note m = move_compare [OF assms(3) _ _ cc this, of "?stk @ [cob E z, cob E y, make_boolean c]" ?stk "[make_boolean c]", simplified]
  show ?case
  proof (cases r)
    case (ERROR k e)
    with Cons.prems(3) r m show ?thesis by auto
  next
    case (EFFECT h1)
    with Cons.prems(3) r show ?thesis by simp
  next
    case (RESULT v h1)
    then obtain d where d: "z \<noteq> DATUM SFALSE" "y \<noteq> DATUM SFALSE" "h1 = h" "v = make_boolean d"
      using comparison_result [OF assms(1,2), of h y z v h1] r by auto
    obtain q2 h2 where t: "apply_chain W i (z # zs) h = Some (q2, h2)"
      using Cons.prems(3) r RESULT d(3) by (cases "apply_chain W i (z # zs) h") auto
    have h2: "h2 = h'" using Cons.prems(3) r RESULT d(3) t by (cases q2) auto
    have c1: "code_at self (ip + 19) (OP OP_AND # OP OP_AND # concat (replicate (length zs) (chain_step i)) @ OP OP_AND # cs)"
      using code_at_Cons(2) [OF code_at_append(2) [OF code_at_append(2) [OF cc]]] by (simp add: add.commute)
    have c2: "code_at self (ip + 20) (OP OP_AND # concat (replicate (length zs) (chain_step i)) @ OP OP_AND # cs)"
      using code_at_Cons(2) [OF c1] by (simp add: add.commute)
    have c3: "code_at self (ip + 21) (concat (replicate (length zs) (chain_step i)) @ OP OP_AND # cs)"
      using code_at_Cons(2) [OF c2] by (simp add: add.commute)
    have m1: "moves W (conf self fp eh ip (?stk @ [cob E z, cob E y, make_boolean c]) (cheap E h))
      (TO (conf self fp eh (ip + 19) (?stk @ [cob E z, cob E y, make_boolean c, make_boolean d]) (cheap E h)))"
      using m RESULT d(3,4) by simp
    have m2: "moves W (conf self fp eh (ip + 19) (?stk @ [cob E z, cob E y, make_boolean c, make_boolean d]) (cheap E h))
      (TO (conf self fp eh (ip + 20) (?stk @ [cob E z, cob E y, make_boolean (c \<and> d)]) (cheap E h)))"
      using move_and [OF c1 assms(3), of W fp "?stk @ [cob E z, cob E y]" "make_boolean c" "make_boolean d"] by (simp add: add.commute)
    have m3: "moves W (conf self fp eh (ip + 20) (?stk @ [cob E z, cob E y, make_boolean (c \<and> d)]) (cheap E h))
      (TO (conf self fp eh (ip + 21) (?stk @ [cob E z, make_boolean (c \<and> d)]) (cheap E h)))"
      using move_and [OF c2 assms(3), of W fp "?stk @ [cob E z]" "cob E y" "make_boolean (c \<and> d)"] d(2) by (simp add: add.commute)
    note m4 = goes_trans [OF goes_trans [OF m1 goes_trans [OF m2 m3]]]
    note ih = Cons.IH [OF d(1) c3 t [unfolded h2], of "c \<and> d"]
    show ?thesis
    proof (cases q2)
      case (Inl e)
      with Cons.prems(3) r RESULT d(3) t have "q = Inl e" by simp
      with Inl ih m4 show ?thesis by simp
    next
      case (Inr b)
      with Cons.prems(3) r RESULT d(3,4) t have "q = Inr (d \<and> b)" by simp
      with Inr ih m4 show ?thesis by (simp add: algebra_simps conj_assoc)
    qed
  qed
qed


lemma compare_code_chain:
  "compare_code i (length ys + 2) = (if ys = [] then [OP i] else
    instr_word OP_STACK_REF (SWORD 2) @ instr_word OP_STACK_REF (SWORD 2) @ [OP i, OP OP_AND]
    @ concat (replicate (length ys) (chain_step i)) @ [OP OP_AND])"
  by (cases ys) (simp_all add: compare_code_def chain_step_def)

lemma move_comparisons:
  fixes W :: "'f world"
  assumes "rejects_objects W" "i \<in> {OP_LT, OP_LE, OP_EQN}" "\<not> procedurep eh" "2 \<le> length xs"
    "code_at self ip (compare_code i (length xs) @ cs)" "apply_chain W i xs h = Some (q, h')"
  shows "case q of Inl e \<Rightarrow> moves W (conf self fp eh ip (stk @ rev (map (cob E) xs)) (cheap E h)) (FAIL e)
    | Inr b \<Rightarrow> moves W (conf self fp eh ip (stk @ rev (map (cob E) xs)) (cheap E h))
        (TO (conf self fp eh (ip + int (length (compare_code i (length xs) :: 'f code_unit list))) (stk @ [make_boolean b]) (cheap E h')))"
proof -
  obtain x y ys where xs: "xs = x # y # ys" using assms(4) by (cases xs; cases "tl xs") auto
  let ?stk = "stk @ rev (map (cob E) ys)"
  obtain r where r: "primitive W i h [x, y] = Some r" using assms(6) by (auto simp: xs split: option.splits)
  have p: "primitive W i (cheap E h) [cob E x, cob E y] = Some (map_ires (closure_code E) r)"
    using primitive_map [of W i "closure_code E" h "[x, y]"] r by simp
  have len: "length xs = length ys + 2" by (simp add: xs)
  show ?thesis
  proof (cases r)
    case (EFFECT h1)
    with assms(6) r show ?thesis by (simp add: xs)
  next
    case (ERROR k e)
    have q: "q = Inl e" using assms(6) r ERROR by (simp add: xs)
    show ?thesis
    proof (cases "ys = []")
      case True
      then have "code_at self ip (OP i # cs)" using assms(5) unfolding len compare_code_chain by simp
      from move_primitive [OF this assms(3) p, of fp ?stk] q ERROR show ?thesis by (simp add: xs)
    next
      case False
      then have c: "code_at self ip (instr_word OP_STACK_REF (SWORD (int 2)) @ instr_word OP_STACK_REF (SWORD (int 2)) @ OP i
        # OP OP_AND # concat (replicate (length ys) (chain_step i)) @ OP OP_AND # cs)"
        using assms(5) unfolding len compare_code_chain by simp
      from move_compare [OF assms(3) _ _ c p, of "?stk @ [cob E y, cob E x]" ?stk "[]" fp] q ERROR show ?thesis by (simp add: xs)
    qed
  next
    case (RESULT v h1)
    then obtain d where d: "y \<noteq> DATUM SFALSE" "x \<noteq> DATUM SFALSE" "h1 = h" "v = make_boolean d"
      using comparison_result [OF assms(1,2), of h x y v h1] r by auto
    obtain q2 h2 where t: "apply_chain W i (y # ys) h = Some (q2, h2)"
      using assms(6) r RESULT d(3) by (cases "apply_chain W i (y # ys) h") (auto simp: xs)
    have h2: "h2 = h'" using assms(6) r RESULT d(3) t by (cases q2) (auto simp: xs)
    show ?thesis
    proof (cases "ys = []")
      case True
      then have "code_at self ip (OP i # cs)" using assms(5) unfolding len compare_code_chain by simp
      from move_primitive [OF this assms(3) p, of fp ?stk] RESULT d t True assms(6) r
      show ?thesis by (auto simp: xs compare_code_def)
    next
      case False
      then have c: "code_at self ip (instr_word OP_STACK_REF (SWORD (int 2)) @ instr_word OP_STACK_REF (SWORD (int 2)) @ OP i
        # OP OP_AND # concat (replicate (length ys) (chain_step i)) @ OP OP_AND # cs)"
        using assms(5) unfolding len compare_code_chain by simp
      have m1: "moves W (conf self fp eh ip (?stk @ [cob E y, cob E x]) (cheap E h))
          (TO (conf self fp eh (ip + 19) (?stk @ [cob E y, cob E x, make_boolean d]) (cheap E h)))"
        using move_compare [OF assms(3) _ _ c p, of "?stk @ [cob E y, cob E x]" ?stk "[]" fp] RESULT d(3,4) by simp
      have c1: "code_at self (ip + 19) (OP OP_AND # concat (replicate (length ys) (chain_step i)) @ OP OP_AND # cs)"
        using code_at_Cons(2) [OF code_at_append(2) [OF code_at_append(2) [OF c]]] by (simp add: add.commute)
      have c2: "code_at self (ip + 20) (concat (replicate (length ys) (chain_step i)) @ OP OP_AND # cs)"
        using code_at_Cons(2) [OF c1] by (simp add: add.commute)
      have m2: "moves W (conf self fp eh (ip + 19) (?stk @ [cob E y, cob E x, make_boolean d]) (cheap E h))
          (TO (conf self fp eh (ip + 20) (?stk @ [cob E y, make_boolean d]) (cheap E h)))"
        using move_and [OF c1 assms(3), of W fp "?stk @ [cob E y]" "cob E x" "make_boolean d"] d(2) by (simp add: add.commute)
      note m = goes_trans [OF goes_trans [OF m1 m2]]
      note ch = move_chain [OF assms(1-3) d(1) c2 t [unfolded h2], of fp stk E d]
      have n: "length (compare_code i (length xs) :: 'f code_unit list) = 21 + 21 * length ys"
        unfolding len compare_code_chain using False by (simp add: length_concat sum_list_replicate mult.commute)
      show ?thesis
      proof (cases q2)
        case (Inl e)
        with assms(6) r RESULT d(3) t have "q = Inl e" by (simp add: xs)
        with Inl ch m show ?thesis by (simp add: xs)
      next
        case (Inr b)
        with assms(6) r RESULT d(3,4) t have "q = Inr (d \<and> b)" by (simp add: xs)
        with Inr ch m n show ?thesis by (simp add: xs algebra_simps)
      qed
    qed
  qed
qed

subsection \<open>Opcodes\<close>

lemma in_order_in_order [simp]: "in_order op (in_order op xs) = xs"
  by (simp add: in_order_def)

lemma length_in_order [simp]: "length (in_order op xs) = length xs"
  by (simp add: in_order_def)

lemma move_operator:
  fixes W :: "'f world" and css :: "'f code_unit list list"
  defines "E \<equiv> w_genv W"
  assumes "rejects_objects W" "\<not> procedurep eh" "plain_opcode op" "apply_opcode W op vs h = Some (q, h')" "xs = opcode_operands op vs"
    "code_at self ip (operator_code k op (length xs) css @ (if sexp_opcode_returns_void op \<and> sexp_opcode_class op \<noteq> OPC_FOREIGN
      then push_code (DATUM SVOID) else []) @ cs)"
  shows "case q of Inl e \<Rightarrow> moves W (conf self fp eh ip (stk @ rev (map (cob E) xs)) (cheap E h)) (FAIL e)
    | Inr v \<Rightarrow> moves W (conf self fp eh ip (stk @ rev (map (cob E) xs)) (cheap E h))
        (TO (conf self fp eh (ip + int (length (operator_code k op (length xs) css))
            + int (length (if sexp_opcode_returns_void op \<and> sexp_opcode_class op \<noteq> OPC_FOREIGN then push_code (DATUM SVOID) else [] :: 'f code_unit list)))
          (stk @ [cob E v]) (cheap E h')))"
proof -
  let ?i = "sexp_opcode_code op" and ?void = "sexp_opcode_returns_void op"
  consider (arith) "sexp_opcode_class op = OPC_ARITHMETIC" | (cmp) "sexp_opcode_class op = OPC_ARITHMETIC_CMP"
    | (other) "sexp_opcode_class op \<noteq> OPC_ARITHMETIC" "sexp_opcode_class op \<noteq> OPC_ARITHMETIC_CMP" by blast
  then show ?thesis
  proof cases
    case arith
    then obtain x ys where x: "xs = x # ys" "\<not> ?void" "apply_fold W ?i x ys h = Some (q, h')"
      using assms(4,5) by (auto simp: apply_opcode_def Let_def assms(6)[symmetric] split: if_splits list.splits)
    with assms(7) arith have "code_at self ip (replicate (length ys) (OP ?i) @ cs)" by (simp add: operator_code_def)
    from move_fold [OF assms(3) this x(3), of fp stk E] x arith show ?thesis by (cases q) (simp_all add: operator_code_def)
  next
    case cmp
    then obtain q2 where x: "2 \<le> length xs" "\<not> ?void" "apply_chain W ?i xs h = Some (q2, h')" "q = map_sum id make_boolean q2"
      using assms(4,5) by (auto simp: apply_opcode_def Let_def assms(6)[symmetric] split: if_splits)
    have i: "?i \<in> {OP_LT, OP_LE, OP_EQN}" using assms(4) cmp by (simp add: plain_opcode_def)
    from assms(7) cmp x(2) have "code_at self ip (compare_code ?i (length xs) @ cs)" by (simp add: operator_code_def)
    from move_comparisons [OF assms(2) i assms(3) x(1) this x(3), of fp stk E] x cmp
    show ?thesis by (cases q2) (simp_all add: operator_code_def)
  next
    case other
    have o: "operator_code k op (length xs) css = [OP ?i]"
      using assms(4) other by (cases "sexp_opcode_class op") (auto simp: operator_code_def plain_opcode_def data_words_def operands_def)
    have f: "sexp_opcode_class op \<noteq> OPC_FOREIGN" using assms(4) by (auto simp: plain_opcode_def)
    have "length xs = operands ?i \<and> (case primitive W ?i h xs of
               Some (RESULT r h) \<Rightarrow> if ?void then None else Some (Inr r, h)
             | Some (EFFECT h) \<Rightarrow> if ?void then Some (Inr (DATUM SVOID), h) else None
             | Some (ERROR k e) \<Rightarrow> Some (Inl e, h)
             | None \<Rightarrow> None) = Some (q, h')"
      using assms(4,5) other by (cases "sexp_opcode_class op") (auto simp: apply_opcode_def Let_def assms(6)[symmetric] split: if_splits)
    then obtain r where r: "primitive W ?i h xs = Some r" "(case r of
               RESULT r h \<Rightarrow> if ?void then None else Some (Inr r, h)
             | EFFECT h \<Rightarrow> if ?void then Some (Inr (DATUM SVOID), h) else None
             | ERROR k e \<Rightarrow> Some (Inl e, h)) = Some (q, h')" by (cases "primitive W ?i h xs") auto
    have p: "primitive W ?i (cheap E h) (map (cob E) xs) = Some (map_ires (closure_code E) r)"
      using primitive_map [of W ?i "closure_code E" h xs] r(1) by simp
    have c: "code_at self ip (OP ?i # (if ?void then push_code (DATUM SVOID) else []) @ cs)" using assms(7) o f by simp
    note m = move_primitive [OF c assms(3) p, of fp stk]
    show ?thesis
    proof (cases r)
      case (RESULT v h1)
      with r(2) m show ?thesis by (auto simp: o f split: if_splits)
    next
      case (ERROR k e)
      with r(2) m show ?thesis by (auto simp: o f)
    next
      case (EFFECT h1)
      with r(2) have q: "?void" "q = Inr (DATUM SVOID)" "h1 = h'" by (auto split: if_splits)
      with c have "code_at self (ip + 1) (push_code (DATUM SVOID) @ cs)" using code_at_Cons(2) by simp
      from goes_trans [OF _ move_push [OF this]] m EFFECT q show ?thesis by (auto simp: o f)
    qed
  qed
qed

lemma opcode_operands_order:
  "rev (opcode_operands op (in_order op vs)) =
    (if has_default op (length vs) \<and> \<not> sexp_opcode_inverse op then [DATUM (the (sexp_opcode_data op))] else []) @ vs
    @ (if has_default op (length vs) \<and> sexp_opcode_inverse op then [DATUM (the (sexp_opcode_data op))] else [])"
  by (simp add: opcode_operands_def in_order_def Let_def)

lemma move_pushed:
  "code_at self ip ((if b then push_code (DATUM v) else []) @ cs) \<Longrightarrow> moves W (conf self fp eh ip stk h)
    (TO (conf self fp eh (ip + int (length (if b then push_code (DATUM v) else [] :: 'f code_unit list))) (stk @ (if b then [DATUM v] else [])) h))"
  using move_push [of self ip "DATUM v" cs W fp eh stk h] by (auto intro: moves_refl)

lemma move_opcode:
  fixes W :: "'f world"
  defines "E \<equiv> w_genv W"
  assumes "code = opcode_app_code (opcode_table E) k t args (map (compile E lam False) args)"
    "simulates W ev" "rejects_objects W" "\<not> procedurep eh" "procedure_vars self = DATUM (act_vars a)"
    "code_at self ip (code @ cs)" "frame_ok E lam a fp stk" "eval_app W ev a h (SELF (OPCODE k)) args = Some (q, h')"
  shows "case q of Inl x \<Rightarrow> moves W (conf self fp eh ip stk (cheap E h)) (FAIL x)
    | Inr v \<Rightarrow> moves W (conf self fp eh ip stk (cheap E h)) (TO (conf self fp eh (ip + int (length code)) (stk @ [cob E v]) (cheap E h')))"
proof -
  let ?op = "opcode_table E k"
  let ?d = "the (sexp_opcode_data ?op)" and ?pre = "has_default ?op (length args) \<and> \<not> sexp_opcode_inverse ?op"
    and ?post = "has_default ?op (length args) \<and> sexp_opcode_inverse ?op"
  let ?D = "if ?pre then push_code (DATUM ?d) else [] :: 'f code_unit list"
  let ?I = "if ?post then push_code (DATUM ?d) else [] :: 'f code_unit list"
  let ?V = "if sexp_opcode_returns_void ?op \<and> sexp_opcode_class ?op \<noteq> OPC_FOREIGN then push_code (DATUM SVOID) else [] :: 'f code_unit list"
  let ?A = "concat (map (compile E lam False) (in_order ?op args))"
  define css where "css = map (compile E lam False) args"
  define n where "n = (if has_default ?op (length args) then length args + 1 else length args)"
  define stk1 where "stk1 = stk @ (if ?pre then [DATUM ?d] else [])"
  have P: "plain_opcode ?op" using assms(9) by (simp add: eval_app_def Let_def E_def[symmetric] split: if_splits)
  obtain q1 h1 where l: "eval_list (ev a) h (in_order ?op args) = Some (q1, h1)"
    "(case q1 of Inl x \<Rightarrow> Some (Inl x, h1) | Inr vs \<Rightarrow> apply_opcode W ?op (in_order ?op vs) h1) = Some (q, h')"
    using assms(9) P by (cases "eval_list (ev a) h (in_order ?op args)") (auto simp: eval_app_def Let_def E_def[symmetric] split: sum.splits)
  have code: "code = ?D @ ?A @ ?I @ operator_code k ?op n css @ ?V"
    using P by (cases "sexp_opcode_class ?op")
      (simp_all add: assms(2) opcode_app_code_def Let_def plain_opcode_def default_code_def inverse_default_code_def in_order_map n_def css_def)
  have c: "code_at self ip (?D @ ?A @ ?I @ operator_code k ?op n css @ ?V @ cs)" using assms(7) unfolding code by simp
  note c1 = code_at_append(2) [OF c] note c2 = code_at_append(2) [OF c1] note c3 = code_at_append(2) [OF c2]
  have m1: "moves W (conf self fp eh ip stk (cheap E h)) (TO (conf self fp eh (ip + int (length ?D)) stk1 (cheap E h)))"
    unfolding stk1_def by (rule move_pushed [OF c])
  have f: "frame_ok E lam a fp stk1" unfolding stk1_def by (rule frame_ok_append [OF assms(8)])
  note m2 = move_list [OF assms(3,5,6) c1 [unfolded E_def] f [unfolded E_def] l(1) [unfolded E_def], folded E_def]
  show ?thesis
  proof (cases q1)
    case (Inl x)
    with l(2) have "q = Inl x" by simp
    with goes_trans [OF m1] m2 Inl show ?thesis by simp
  next
    case (Inr vs)
    let ?xs = "opcode_operands ?op (in_order ?op vs)"
    have vs: "length vs = length args" using m2 Inr by simp
    have xs: "stk1 @ map (cob E) vs @ (if ?post then [DATUM ?d] else []) = stk @ rev (map (cob E) ?xs)"
      using vs unfolding stk1_def by (simp add: rev_map opcode_operands_order)
    have lx: "length ?xs = n" using vs by (simp add: n_def opcode_operands_def Let_def)
    have m3: "moves W (conf self fp eh (ip + int (length ?D)) stk1 (cheap E h))
        (TO (conf self fp eh (ip + int (length ?D) + int (length ?A)) (stk1 @ map (cob E) vs) (cheap E h1)))"
      using m2 Inr by simp
    have m4: "moves W (conf self fp eh (ip + int (length ?D) + int (length ?A)) (stk1 @ map (cob E) vs) (cheap E h1))
        (TO (conf self fp eh (ip + int (length ?D) + int (length ?A) + int (length ?I)) (stk @ rev (map (cob E) ?xs)) (cheap E h1)))"
      using move_pushed [OF c2, of W fp eh "stk1 @ map (cob E) vs" "cheap E h1"] unfolding xs[symmetric] by simp
    have ap: "apply_opcode W ?op (in_order ?op vs) h1 = Some (q, h')" using l(2) Inr by simp
    note m5 = move_operator [OF assms(4,5) P ap refl, unfolded lx, OF c3, of fp stk, folded E_def]
    note m = goes_trans [OF m1 goes_trans [OF m3 goes_trans [OF m4]]]
    show ?thesis
    proof (cases q)
      case (Inl x)
      with m m5 show ?thesis by simp
    next
      case (Inr v)
      with m m5 show ?thesis by (simp add: code add.assoc)
    qed
  qed
qed


end
