(* ===== verification/Compiled.thy ===== *)
theory Compiled
  imports Operators
begin

text \<open>
  Correctness of the code generator: generated code, run by the machine, gives the answer of the
  evaluator.
\<close>

subsection \<open>Lambda expressions\<close>

lemma vector_at_append: "vector_at h x = Some r \<Longrightarrow> vector_at (h @ [c]) x = Some r"
  by (cases "(h, x)" rule: vector_at.cases) (auto simp: nth_append split: if_splits)

lemma lookup_append: "lookup a h name loc = Some v \<Longrightarrow> lookup a (h @ [c]) name loc = Some v"
  by (auto simp: lookup_def Let_def split: if_splits option.splits dest: vector_at_append [where c = c])

lemma move_close:
  fixes W :: "'f world"
  defines "E \<equiv> w_genv W"
  assumes "\<not> procedurep eh" "procedure_vars self = DATUM (act_vars a)" "frame_ok E lam a fp (stk @ [DATUM (VECTOR (length h))])"
    "code_at self ip (close_code sv lam k fv @ cs)" "lookups a h fv = Some vs" "length xs = k + length fv"
  shows "moves W (conf self fp eh ip (stk @ [DATUM (VECTOR (length h))]) (cheap E (h @ [VECTOR_CELL xs False])))
    (TO (conf self fp eh (ip + int (length (close_code sv lam k fv :: 'f code_unit list))) (stk @ [DATUM (VECTOR (length h))])
      (cheap E (h @ [VECTOR_CELL (take k xs @ vs) False]))))"
  using assms(5-)
proof (induction fv arbitrary: ip k vs xs)
  case Nil
  then show ?case by (auto intro: moves_refl)
next
  case (Cons f fv)
  obtain name loc where f: "f = (name, loc)" by (cases f)
  obtain v ws where v: "lookup a h name loc = Some v" "lookups a h fv = Some ws" "vs = v # ws"
    using Cons.prems(2) by (auto simp: f split: option.splits)
  let ?stk = "stk @ [DATUM (VECTOR (length h))]" and ?h = "cheap E (h @ [VECTOR_CELL xs False])"
  let ?var = "var_code sv name loc lam False :: 'f code_unit list" and ?rest = "close_code sv lam (Suc k) fv :: 'f code_unit list"
  have c: "code_at self ip (?var @ push_code (DATUM (FIX (int k))) @ instr_word OP_STACK_REF (SWORD (int 3)) @ OP OP_VECTOR_SET # ?rest @ cs)"
    using Cons.prems(1) by (simp add: f)
  note c1 = code_at_append(2) [OF c] note c2 = code_at_append(2) [OF c1] note c3 = code_at_append(2) [OF c2]
  note c4 = code_at_Cons(2) [OF c3]
  let ?ip = "ip + int (length ?var)"
  have m1: "moves W (conf self fp eh ip ?stk ?h) (TO (conf self fp eh ?ip (?stk @ [cob E v]) ?h))"
    using move_var [OF c assms(4,3) lookup_append [OF v(1)] _ assms(2), of "VECTOR_CELL xs False" undefined undefined undefined W] by simp
  have m2: "moves W (conf self fp eh ?ip (?stk @ [cob E v]) ?h) (TO (conf self fp eh (?ip + 9) (?stk @ [cob E v, DATUM (FIX (int k))]) ?h))"
    using move_push [OF c1, of W fp eh "?stk @ [cob E v]" ?h] by simp
  have m3: "moves W (conf self fp eh (?ip + 9) (?stk @ [cob E v, DATUM (FIX (int k))]) ?h)
      (TO (conf self fp eh (?ip + 18) (?stk @ [cob E v, DATUM (FIX (int k)), DATUM (VECTOR (length h))]) ?h))"
    using move_stack_ref [OF c2, of "?stk @ [cob E v, DATUM (FIX (int k))]" W fp eh ?h]
    by (simp add: nth_append add.commute)
  have up: "(map (cob E) xs)[k := cob E v] = map (cob E) (xs[k := v])" by (simp add: map_update)
  have p: "primitive W OP_VECTOR_SET ?h [DATUM (VECTOR (length h)), DATUM (FIX (int k)), cob E v]
      = Some (EFFECT (cheap E (h @ [VECTOR_CELL (xs[k := v]) False])))"
    using Cons.prems(3) by (simp add: primitive_def vm_vector_set_def nth_append list_update_append map_update)
  have m4: "moves W (conf self fp eh (?ip + 18) (?stk @ [cob E v, DATUM (FIX (int k)), DATUM (VECTOR (length h))]) ?h)
      (TO (conf self fp eh (?ip + 19) ?stk (cheap E (h @ [VECTOR_CELL (xs[k := v]) False]))))"
    using move_primitive [OF _ assms(2) p, of self "?ip + 18" "?rest @ cs" fp ?stk] c3 by (simp add: add.commute)
  have m5: "moves W (conf self fp eh (?ip + 19) ?stk (cheap E (h @ [VECTOR_CELL (xs[k := v]) False])))
      (TO (conf self fp eh (?ip + 19 + int (length ?rest)) ?stk (cheap E (h @ [VECTOR_CELL (take (Suc k) (xs[k := v]) @ ws) False]))))"
    using Cons.IH [of "?ip + 19" "Suc k" ws "xs[k := v]"] c4 v(2) Cons.prems(3) by (simp add: add.commute)
  have t: "take (Suc k) (xs[k := v]) @ ws = take k xs @ vs"
    using Cons.prems(3) by (simp add: take_Suc_conv_app_nth v(3))
  have l: "int (length (close_code sv lam k (f # fv) :: 'f code_unit list)) = int (length ?var) + 19 + int (length ?rest)" by (simp add: f)
  from goes_trans [OF m1 goes_trans [OF m2 goes_trans [OF m3 goes_trans [OF m4 m5]]]] show ?case
    unfolding t l by (simp add: add.assoc)
qed

lemma lookups_length: "lookups a h fv = Some vs \<Longrightarrow> length vs = length fv"
  by (induction fv arbitrary: vs) (auto split: option.splits)

lemma move_lambda:
  fixes W :: "'f world"
  defines "E \<equiv> w_genv W"
  assumes "\<not> procedurep eh" "procedure_vars self = DATUM (act_vars a)" "frame_ok E lam a fp stk"
    "L = LAMBDA k params rest locals sv fv body" "code = compile E lam t L" "code_at self ip (code @ cs)" "eval_lambda a h L = Some (q, h')"
  shows "\<exists>v. q = Inr v \<and> moves W (conf self fp eh ip stk (cheap E h)) (TO (conf self fp eh (ip + int (length code)) (stk @ [cob E v]) (cheap E h')))"
proof -
  let ?flags = "procedure_flags k rest body" and ?n = "length params" and ?bc = "closure_code E L"
  have code: "code = lambda_expr_code (lambda_sv E) lam ?flags ?n fv ?bc"
    by (simp add: assms(5,6) closure_code_def)
  show ?thesis
  proof (cases "fv = []")
    case True
    then have "code = push_code (PROCEDURE ?flags ?n ?bc VECTOR0)" by (simp add: code lambda_expr_code_def)
    with move_push assms(5,7,8) True show ?thesis by (force simp: eval_lambda_def Let_def)
  next
    case False
    obtain vs where vs: "lookups a h fv = Some vs" "int (length fv) \<le> SEXP_MAX_VECTOR_LENGTH"
        "q = Inr (PROCEDURE ?flags ?n L (VECTOR (length h)))" "h' = h @ [VECTOR_CELL vs False]"
      using assms(5,8) False by (auto simp: eval_lambda_def Let_def split: if_splits option.splits)
    let ?close = "close_code (lambda_sv E) lam 0 fv"
    let ?make = "instr_word OP_MAKE_PROCEDURE (WORD (DATUM (FIX (int ?flags)))) @ word_bytes (WORD (DATUM (FIX (int ?n)))) @ word_bytes (CODE ?bc)"
    have c: "code_at self ip (push_code (DATUM SVOID) @ push_code (DATUM (FIX (int (length fv)))) @ OP OP_MAKE_VECTOR # ?close @ ?make @ cs)"
      using assms(7) False by (simp add: code lambda_expr_code_def)
    have c1: "code_at self (ip + 9) (push_code (DATUM (FIX (int (length fv)))) @ OP OP_MAKE_VECTOR # ?close @ ?make @ cs)"
      using code_at_append(2) [OF c] by simp
    have c2: "code_at self (ip + 18) (OP OP_MAKE_VECTOR # ?close @ ?make @ cs)" using code_at_append(2) [OF c1] by (simp add: add.commute)
    have c3: "code_at self (ip + 19) (?close @ ?make @ cs)" using code_at_Cons(2) [OF c2] by (simp add: add.commute)
    note c4 = code_at_append(2) [OF c3]
    let ?xs = "replicate (length fv) (DATUM SVOID) :: ('f, 'f ast) object list" and ?v = "DATUM (VECTOR (length h)) :: ('f, 'f bytecode) object"
    have m1: "moves W (conf self fp eh ip stk (cheap E h)) (TO (conf self fp eh (ip + 9) (stk @ [DATUM SVOID]) (cheap E h)))"
      by (rule move_push [OF c])
    have m2: "moves W (conf self fp eh (ip + 9) (stk @ [DATUM SVOID]) (cheap E h))
        (TO (conf self fp eh (ip + 18) (stk @ [DATUM SVOID, DATUM (FIX (int (length fv)))]) (cheap E h)))"
      using move_push [OF c1, of W fp eh "stk @ [DATUM SVOID]"] by (simp add: add.commute)
    have p: "primitive W OP_MAKE_VECTOR (cheap E h) [DATUM (FIX (int (length fv))), DATUM SVOID]
        = Some (RESULT ?v (cheap E (h @ [VECTOR_CELL ?xs False])))"
      using False vs(2) by (simp add: primitive_def vm_make_vector_def sexp_make_vector_def)
    have m3: "moves W (conf self fp eh (ip + 18) (stk @ [DATUM SVOID, DATUM (FIX (int (length fv)))]) (cheap E h))
        (TO (conf self fp eh (ip + 19) (stk @ [?v]) (cheap E (h @ [VECTOR_CELL ?xs False]))))"
      using move_primitive [OF c2 assms(2) p, of fp stk] by (simp add: add.commute)
    have m4: "moves W (conf self fp eh (ip + 19) (stk @ [?v]) (cheap E (h @ [VECTOR_CELL ?xs False])))
        (TO (conf self fp eh (ip + 19 + int (length ?close)) (stk @ [?v]) (cheap E h')))"
      using move_close [OF assms(2,3) frame_ok_append [OF assms(4) [unfolded E_def]] c3 [unfolded E_def] vs(1), of ?xs] vs(4)
      by (simp add: E_def)
    have m5: "moves W (conf self fp eh (ip + 19 + int (length ?close)) (stk @ [?v]) (cheap E h'))
        (TO (conf self fp eh (ip + 19 + int (length ?close) + 25) (stk @ [PROCEDURE ?flags ?n ?bc (VECTOR (length h))]) (cheap E h')))"
      by (rule move_make_procedure [of _ _ _ _ _ cs]) (use c4 in simp)
    have l: "int (length code) = 19 + int (length ?close) + 25" using False by (simp add: code lambda_expr_code_def)
    from goes_trans [OF m1 goes_trans [OF m2 goes_trans [OF m3 goes_trans [OF m4 m5]]]] show ?thesis
      unfolding l by (simp add: vs(3) add.assoc)
  qed
qed


subsection \<open>Variables\<close>

lemma lookup_lambdap: "frame_ok E lam a fp stk \<Longrightarrow> lookup a h name loc = Some v \<Longrightarrow> lambdap lam"
  by (cases "(E, lam, a, fp, stk)" rule: frame_ok.cases) (auto simp: lookup_def Let_def split: option.splits)

lemma move_reference:
  fixes W :: "'f world"
  defines "E \<equiv> w_genv W"
  assumes "\<not> procedurep eh" "procedure_vars self = DATUM (act_vars a)" "frame_ok E lam a fp stk"
    "code_at self ip (ref_code (lambda_sv E) lam ref True @ cs)" "eval_ref (lambda_sv E) a h ref = Some (q, h')"
  shows "h' = h \<and> (case q of Inl x \<Rightarrow> moves W (conf self fp eh ip stk (cheap E h)) (FAIL x)
    | Inr v \<Rightarrow> moves W (conf self fp eh ip stk (cheap E h))
        (TO (conf self fp eh (ip + int (length (ref_code (lambda_sv E) lam ref True))) (stk @ [cob E v]) (cheap E h))))"
proof (cases ref)
  case (GLOBAL cell undef)
  obtain name v im where p: "pair_at h (DATUM (PAIR cell)) = Some (name, v, im)"
    "(if undef \<and> v = DATUM SUNDEF then (Inl (EXN ''undefined variable''), h) else (Inr v, h)) = (q, h')"
    using assms(6) by (auto simp: GLOBAL split: option.splits if_splits)
  have "pair_at (cheap E h) (DATUM (PAIR cell)) = Some (cob E name, cob E v, im)"
    using pair_at_map [of "closure_code E" h "DATUM (PAIR cell)"] p(1) by simp
  from move_global_ref [OF _ this assms(2), of self ip undef cs W fp stk] assms(5) p(2) GLOBAL
  show ?thesis by (cases "undef \<and> v = DATUM SUNDEF") auto
next
  case (LOCAL name loc)
  obtain v where v: "lookup a h name loc = Some v"
    "(if name \<in> set (lambda_sv E loc) then (case pair_at h v of None \<Rightarrow> None | Some (x, y, im) \<Rightarrow> Some (Inr y, h)) else Some (Inr v, h)) = Some (q, h')"
    using assms(6) by (auto simp: LOCAL split: option.splits)
  have L: "lambdap lam" by (rule lookup_lambdap [OF assms(4) v(1)])
  have c: "code_at self ip (var_code (lambda_sv E) name loc lam True @ cs)" using assms(5) L by (simp add: LOCAL)
  show ?thesis
  proof (cases "name \<in> set (lambda_sv E loc)")
    case True
    then obtain x y im where p: "pair_at h v = Some (x, y, im)" "q = Inr y" "h' = h" using v(2) by (auto split: option.splits)
    from move_var [OF c assms(4,3) v(1) p(1) assms(2), of W] True L p(2,3) show ?thesis by (simp add: LOCAL)
  next
    case False
    with v(2) have "q = Inr v" "h' = h" by simp_all
    with move_var [OF c assms(4,3) v(1) _ assms(2), of undefined undefined undefined W] False L show ?thesis by (simp add: LOCAL)
  qed
qed

lemma move_assign:
  assumes "\<not> procedurep eh" "code_at self ip (OP OP_SET_CDR # cs)" "assign h box v = Some (q, h')"
  shows "case q of Inl x \<Rightarrow> moves W (conf self fp eh ip (stk @ [cob E v, cob E box]) (cheap E h)) (FAIL x)
    | Inr u \<Rightarrow> u = DATUM SVOID \<and> moves W (conf self fp eh ip (stk @ [cob E v, cob E box]) (cheap E h)) (TO (conf self fp eh (ip + 1) stk (cheap E h')))"
proof -
  have p: "primitive W OP_SET_CDR (cheap E h) [cob E box, cob E v] = Some (map_ires (closure_code E) (vm_set_cdr h box v))"
    using primitive_map [of W OP_SET_CDR "closure_code E" h "[box, v]"] by (simp add: primitive_def)
  from move_primitive [OF assms(2,1) p, of fp stk] assms(3) show ?thesis by (auto simp: assign_def split: ires.splits)
qed

lemma move_set:
  fixes W :: "'f world"
  defines "E \<equiv> w_genv W"
  assumes "\<not> procedurep eh" "procedure_vars self = DATUM (act_vars a)" "frame_ok E lam a fp stk"
    "code_at self ip (set_code (lambda_sv E) lam ref @ cs)" "eval_set (lambda_sv E) a h ref v = Some (q, h')"
  shows "case q of Inl x \<Rightarrow> moves W (conf self fp eh ip (stk @ [cob E v]) (cheap E h)) (FAIL x)
    | Inr u \<Rightarrow> u = DATUM SVOID \<and> moves W (conf self fp eh ip (stk @ [cob E v]) (cheap E h))
        (TO (conf self fp eh (ip + int (length (set_code (lambda_sv E) lam ref))) stk (cheap E h')))"
proof (cases ref)
  case (LOCAL name loc)
  obtain box where b: "name \<in> set (lambda_sv E loc)" "lookup a h name loc = Some box" "assign h box v = Some (q, h')"
    using assms(6) by (auto simp: LOCAL split: if_splits option.splits)
  let ?var = "var_code (lambda_sv E) name loc lam False"
  have L: "lambdap lam" by (rule lookup_lambdap [OF assms(4) b(2)])
  have c: "code_at self ip (?var @ OP OP_SET_CDR # cs)" using assms(5) b(1) L by (simp add: LOCAL)
  have m: "moves W (conf self fp eh ip (stk @ [cob E v]) (cheap E h))
      (TO (conf self fp eh (ip + int (length ?var)) (stk @ [cob E v, cob E box]) (cheap E h)))"
    using move_var [OF c frame_ok_append [OF assms(4), of "[cob E v]"] assms(3) b(2) _ assms(2), of undefined undefined undefined W] by simp
  have "set_code (lambda_sv E) lam ref = ?var @ [OP OP_SET_CDR]" using b(1) L by (simp add: LOCAL)
  with move_assign [OF assms(2) code_at_append(2) [OF c] b(3), of W fp stk E] goes_trans [OF m]
  show ?thesis by (cases q) (simp_all add: algebra_simps)
next
  case (GLOBAL cell undef)
  let ?g = "ref_code (lambda_sv E) lam ref True" and ?p = "push_code (DATUM (PAIR cell)) :: 'f code_unit list"
  let ?stk = "stk @ [cob E v]"
  have as: "case q of Inl x \<Rightarrow> moves W (conf self fp eh ip' ?stk (cheap E h)) (FAIL x)
      | Inr u \<Rightarrow> u = DATUM SVOID \<and> moves W (conf self fp eh ip' ?stk (cheap E h)) (TO (conf self fp eh (ip' + 10) stk (cheap E h')))"
    if c: "code_at self ip' (?p @ OP OP_SET_CDR # cs)" and b: "assign h (DATUM (PAIR cell)) v = Some (q, h')" for ip'
  proof -
    have m: "moves W (conf self fp eh ip' ?stk (cheap E h)) (TO (conf self fp eh (ip' + 9) (stk @ [cob E v, DATUM (PAIR cell)]) (cheap E h)))"
      using move_push [OF c, of W fp eh ?stk] by simp
    have "code_at self (ip' + 9) (OP OP_SET_CDR # cs)" using code_at_append(2) [OF c] by simp
    from move_assign [OF assms(2) this b, of W fp stk E] goes_trans [OF m] show ?thesis by (cases q) (simp_all add: add.commute)
  qed
  show ?thesis
  proof (cases undef)
    case False
    with assms(5,6) as [of ip] show ?thesis by (cases q) (simp_all add: GLOBAL add.commute)
  next
    case True
    have c: "code_at self ip (?g @ OP OP_DROP # ?p @ OP OP_SET_CDR # cs)" using assms(5) True by (simp add: GLOBAL)
    obtain r h1 where r: "eval_ref (lambda_sv E) a h ref = Some (r, h1)"
      using assms(6) True by (cases "eval_ref (lambda_sv E) a h (GLOBAL cell undef)") (auto simp: GLOBAL)
    note m = move_reference [OF assms(2,3) frame_ok_append [OF assms(4) [unfolded E_def], of "[cob E v]"] c [unfolded E_def] r [unfolded E_def], folded E_def]
    have s: "set_code (lambda_sv E) lam ref = ?g @ [OP OP_DROP] @ ?p @ [OP OP_SET_CDR]" using True by (simp add: GLOBAL)
    show ?thesis
    proof (cases r)
      case (Inl x)
      with assms(6) True r have "q = Inl x" by (auto simp: GLOBAL simp del: eval_ref.simps)
      with m Inl show ?thesis by simp
    next
      case (Inr u)
      with assms(6) True r m have b: "assign h (DATUM (PAIR cell)) v = Some (q, h')" by (auto simp: GLOBAL simp del: eval_ref.simps)
      have m1: "moves W (conf self fp eh ip ?stk (cheap E h)) (TO (conf self fp eh (ip + int (length ?g)) (?stk @ [cob E u]) (cheap E h)))"
        using m Inr by simp
      have c1: "code_at self (ip + int (length ?g)) (OP OP_DROP # ?p @ OP OP_SET_CDR # cs)" by (rule code_at_append(2) [OF c])
      note mm = goes_trans [OF goes_trans [OF m1 move_drop [OF c1]]]
      show ?thesis using as [OF code_at_Cons(2) [OF c1] b] mm by (cases q) (simp_all add: s algebra_simps)
    qed
  qed
qed

subsection \<open>Sequences\<close>

definition drops :: "'f world \<Rightarrow> ('f act \<Rightarrow> ('f, 'f ast) heap \<Rightarrow> 'f ast \<Rightarrow> ('f, ('f, 'f ast) object) answer) \<Rightarrow> bool" where
  "drops W ev \<longleftrightarrow> (\<forall>a h e q h' lam self fp eh ip stk cs.
    ev a h e = Some (q, h') \<longrightarrow> code_at self ip (head_code (opcode_table (w_genv W)) e (compile (w_genv W) lam False e) @ cs)
    \<longrightarrow> frame_ok (w_genv W) lam a fp stk \<longrightarrow> procedure_vars self = DATUM (act_vars a) \<longrightarrow> \<not> procedurep eh
    \<longrightarrow> (case q of Inl x \<Rightarrow> moves W (conf self fp eh ip stk (cheap (w_genv W) h)) (FAIL x)
      | Inr v \<Rightarrow> moves W (conf self fp eh ip stk (cheap (w_genv W) h)) (TO (conf self fp eh
          (ip + int (length (head_code (opcode_table (w_genv W)) e (compile (w_genv W) lam False e)))) stk (cheap (w_genv W) h')))))"

lemma dropsD:
  "drops W ev \<Longrightarrow> ev a h e = Some (q, h') \<Longrightarrow> code_at self ip (head_code (opcode_table (w_genv W)) e (compile (w_genv W) lam False e) @ cs)
    \<Longrightarrow> frame_ok (w_genv W) lam a fp stk \<Longrightarrow> procedure_vars self = DATUM (act_vars a) \<Longrightarrow> \<not> procedurep eh
    \<Longrightarrow> (case q of Inl x \<Rightarrow> moves W (conf self fp eh ip stk (cheap (w_genv W) h)) (FAIL x)
      | Inr v \<Rightarrow> moves W (conf self fp eh ip stk (cheap (w_genv W) h)) (TO (conf self fp eh
          (ip + int (length (head_code (opcode_table (w_genv W)) e (compile (w_genv W) lam False e)))) stk (cheap (w_genv W) h'))))"
  unfolding drops_def by blast

lemma move_seq:
  fixes W :: "'f world"
  defines "E \<equiv> w_genv W"
  assumes "simulates W ev" "drops W ev" "\<not> procedurep eh" "procedure_vars self = DATUM (act_vars a)" "t \<Longrightarrow> frame_at fp stk"
    "frame_ok E lam a fp stk" "code_at self ip (compile E lam t (SEQ es) @ cs)" "eval_seq (ev a) h es = Some r"
  shows "gives_answer W (\<lambda>l. RUN (conf self fp eh ip stk (cheap E h) l)) t self fp eh (ip + int (length (compile E lam t (SEQ es)))) stk E r"
  using assms(8-)
proof (induction es arbitrary: ip h rule: induct_list012)
  case 1
  then show ?case by simp
next
  case (2 e)
  with simulatesD [OF assms(2) _ _ _ assms(5,6) assms(4), of h e r ip lam t cs] assms(7) show ?case by (simp add: E_def)
next
  case (3 e y es)
  let ?hd = "head_code (opcode_table E) e (compile E lam False e)" and ?tl = "compile E lam t (SEQ (y # es))"
  have split: "compile E lam t (SEQ (e # y # es)) = ?hd @ ?tl" by simp
  have c: "code_at self ip (?hd @ ?tl @ cs)" using "3.prems"(1) unfolding split by simp
  obtain q h1 where q: "ev a h e = Some (q, h1)" using "3.prems"(2) by (cases "ev a h e") auto
  note d = dropsD [OF assms(3) q c [unfolded E_def] assms(7) [unfolded E_def] assms(5,4), folded E_def]
  show ?case
  proof (cases q)
    case (Inl x)
    with "3.prems"(2) q have "r = (Inl x, h1)" by simp
    with d Inl show ?thesis by simp
  next
    case (Inr v)
    with "3.prems"(2) q have s: "eval_seq (ev a) h1 (y # es) = Some r" by simp
    have m: "moves W (conf self fp eh ip stk (cheap E h)) (TO (conf self fp eh (ip + int (length ?hd)) stk (cheap E h1)))"
      using d Inr by simp
    from goes_answer [OF m "3.IH"(2) [OF code_at_append(2) [OF c] s]] show ?thesis unfolding split by (simp add: add.assoc)
  qed
qed


subsection \<open>Applications and conditionals\<close>

lemma opcode_operator_cases: "opcode_operator f = Some k \<longleftrightarrow> f = SELF (OPCODE k)"
  by (cases f rule: opcode_operator.cases) auto

lemma move_app:
  fixes W :: "'f world"
  defines "E \<equiv> w_genv W"
  assumes "simulates W ev" "rejects_objects W" "no_push_opcode E" "\<not> procedurep eh" "procedure_vars self = DATUM (act_vars a)"
    "t \<Longrightarrow> frame_at fp stk" "frame_ok E lam a fp stk" "code_at self ip (compile E lam t (APP f args) @ cs)"
    "eval_app W ev a h f args = Some r"
  shows "gives_answer W (\<lambda>l. RUN (conf self fp eh ip stk (cheap E h) l)) t self fp eh (ip + int (length (compile E lam t (APP f args)))) stk E r"
proof -
  obtain q h' where r: "r = (q, h')" by (cases r)
  show ?thesis
  proof (cases "opcode_operator f")
    case (Some k)
    then have f: "f = SELF (OPCODE k)" by (simp add: opcode_operator_cases)
    have "compile E lam t (APP f args) = opcode_app_code (opcode_table E) k t args (map (compile E lam False) args)" by (simp add: f)
    from move_opcode [OF this [unfolded E_def] assms(2,3,5,6) assms(9) [unfolded E_def] assms(8) [unfolded E_def] assms(10) [unfolded f r]]
    show ?thesis by (cases q) (simp_all add: r f E_def)
  next
    case None
    then have f: "\<forall>k. f \<noteq> SELF (OPCODE k)" using opcode_operator_cases by force
    let ?A = "concat (map (compile E lam False) (rev args))" and ?f = "compile E lam False f"
    let ?call = "instr_word (if t \<and> \<not> no_tail_calls_p E then OP_TAIL_CALL else OP_CALL) (WORD (DATUM (FIX (int (length args))))) :: 'f code_unit list"
    have code: "compile E lam t (APP f args) = ?A @ ?f @ ?call" by (simp add: general_app(2) [OF f] rev_map)
    have c: "code_at self ip (?A @ ?f @ ?call @ cs)" using assms(9) unfolding code by simp
    note c1 = code_at_append(2) [OF c] note c2 = code_at_append(2) [OF c1]
    obtain q1 h1 where l: "eval_list (ev a) h (rev args) = Some (q1, h1)"
      using assms(10) None by (cases "eval_list (ev a) h (rev args)") (auto simp: eval_app_def)
    note m1 = move_list [OF assms(2,5,6) c [unfolded E_def] assms(8) [unfolded E_def] l, folded E_def]
    show ?thesis
    proof (cases q1)
      case (Inl x)
      with assms(10) None l have "r = (Inl x, h1)" by (simp add: eval_app_def)
      with m1 Inl show ?thesis by simp
    next
      case (Inr vs)
      have vs: "length vs = length args" using m1 Inr by simp
      have m1: "moves W (conf self fp eh ip stk (cheap E h)) (TO (conf self fp eh (ip + int (length ?A)) (stk @ map (cob E) vs) (cheap E h1)))"
        using m1 Inr by simp
      obtain q2 h2 where p: "ev a h1 f = Some (q2, h2)" using assms(10) None l Inr by (cases "ev a h1 f") (auto simp: eval_app_def)
      note m2 = simulatesD [OF assms(2) p, folded E_def, OF c1 frame_ok_append [OF assms(8)] assms(6) _ assms(5), of "map (cob E) vs", simplified]
      show ?thesis
      proof (cases q2)
        case (Inl x)
        with assms(10) None l Inr p have "r = (Inl x, h2)" by (simp add: eval_app_def)
        with m2 Inl goes_trans [OF m1] show ?thesis by simp
      next
        case proc: (Inr p')
        have ap: "apply_procedure ev p' (rev vs) h2 = Some r" using assms(10) None l Inr p proc by (simp add: eval_app_def)
        have m2: "moves W (conf self fp eh (ip + int (length ?A)) (stk @ map (cob E) vs) (cheap E h1))
            (TO (conf self fp eh (ip + int (length ?A) + int (length ?f)) (stk @ rev (map (cob E) (rev vs)) @ [cob E p']) (cheap E h2)))"
          using m2 proc by (simp add: rev_map)
        have "gives_answer W (\<lambda>l. RUN (conf self fp eh (ip + int (length ?A) + int (length ?f)) (stk @ rev (map (cob E) (rev vs)) @ [cob E p']) (cheap E h2) l))
            t self fp eh (ip + int (length ?A) + int (length ?f) + 9) stk E r"
        proof (cases "t \<and> \<not> no_tail_calls_p E")
          case True
          have "code_at self (ip + int (length ?A) + int (length ?f)) (instr_word OP_TAIL_CALL (WORD (DATUM (FIX (int (length (rev vs)))))) @ cs)"
            using c2 True vs by simp
          from move_tail_call [OF this assms(2,4) [unfolded E_def] assms(5) ap assms(7)] True show ?thesis by (simp add: E_def)
        next
          case False
          have "code_at self (ip + int (length ?A) + int (length ?f)) (instr_word OP_CALL (WORD (DATUM (FIX (int (length (rev vs)))))) @ cs)"
            using c2 False vs by (auto split: if_splits)
          from move_call [OF this assms(2,4) [unfolded E_def] assms(5) ap] show ?thesis
            by (cases "fst r"; cases r) (auto simp: E_def)
        qed
        from goes_answer [OF m1 goes_answer [OF m2 this]] show ?thesis unfolding code by (simp add: add.assoc)
      qed
    qed
  qed
qed

lemma move_cnd:
  fixes W :: "'f world"
  defines "E \<equiv> w_genv W"
  assumes "simulates W ev" "\<not> procedurep eh" "procedure_vars self = DATUM (act_vars a)"
    "t \<Longrightarrow> frame_at fp stk" "frame_ok E lam a fp stk" "code_at self ip (compile E lam t (CND test pass fail) @ cs)"
    "(case ev a h test of Some (Inr v, h) \<Rightarrow> if v = DATUM SFALSE then ev a h fail else ev a h pass | r \<Rightarrow> r) = Some r"
  shows "gives_answer W (\<lambda>l. RUN (conf self fp eh ip stk (cheap E h) l)) t self fp eh (ip + int (length (compile E lam t (CND test pass fail)))) stk E r"
proof -
  let ?t = "compile E lam False test" and ?p = "compile E lam t pass" and ?f = "compile E lam t fail"
  let ?u = "instr_word OP_JUMP_UNLESS (SWORD (int (length ?p) + 17)) :: 'f code_unit list"
  let ?j = "instr_word OP_JUMP (SWORD (int (length ?f) + 8)) :: 'f code_unit list"
  have c: "code_at self ip (?t @ ?u @ ?p @ ?j @ ?f @ cs)" using assms(7) by (simp add: cnd_code_def)
  note c1 = code_at_append(2) [OF c] note c2 = code_at_append(2) [OF c1] note c3 = code_at_append(2) [OF c2] note c4 = code_at_append(2) [OF c3]
  obtain q1 h1 where e: "ev a h test = Some (q1, h1)" using assms(8) by (cases "ev a h test") auto
  note m1 = simulatesD [OF assms(2) e, folded E_def, OF c assms(6,4) _ assms(3), simplified]
  have len: "int (length (compile E lam t (CND test pass fail))) = int (length ?t) + 9 + int (length ?p) + 9 + int (length ?f)"
    by (simp add: cnd_code_def)
  show ?thesis
  proof (cases q1)
    case (Inl x)
    with assms(8) e have "r = (Inl x, h1)" by simp
    with m1 Inl show ?thesis by simp
  next
    case (Inr v)
    have m1: "moves W (conf self fp eh ip stk (cheap E h)) (TO (conf self fp eh (ip + int (length ?t)) (stk @ [cob E v]) (cheap E h1)))"
      using m1 Inr by simp
    note m = goes_trans [OF m1 move_jump_unless [OF c1]]
    show ?thesis
    proof (cases "v = DATUM SFALSE")
      case True
      with assms(8) e Inr have ef: "ev a h1 fail = Some r" by simp
      have "code_at self (ip + int (length ?t) + (1 + (int (length ?p) + 17))) (?f @ cs)" using c4 by (simp add: algebra_simps)
      from simulatesD [OF assms(2) ef, folded E_def, OF this assms(6,4,5,3)]
      have "gives_answer W (\<lambda>l. RUN (conf self fp eh (ip + int (length ?t) + (1 + (int (length ?p) + 17))) stk (cheap E h1) l)) t self fp eh
          (ip + int (length (compile E lam t (CND test pass fail)))) stk E r"
        unfolding len by (simp add: algebra_simps)
      from goes_answer [OF _ this] m True show ?thesis by simp
    next
      case False
      with assms(8) e Inr have ep: "ev a h1 pass = Some r" by simp
      note m2 = simulatesD [OF assms(2) ep, folded E_def, OF _ assms(6,4,5,3), where ip = "ip + int (length ?t) + 9" and cs = "?j @ ?f @ cs"]
      obtain q2 h2 where r: "r = (q2, h2)" by (cases r)
      have "gives_answer W (\<lambda>l. RUN (conf self fp eh (ip + int (length ?t) + 9) stk (cheap E h1) l)) t self fp eh
          (ip + int (length (compile E lam t (CND test pass fail)))) stk E r"
      proof (cases q2)
        case (Inl x)
        with m2 c2 show ?thesis by (simp add: r)
      next
        case (Inr w)
        have "code_at self (ip + int (length ?t) + 9 + int (length ?p)) (?j @ ?f @ cs)" using c3 by simp
        from move_jump [OF this, of W fp eh "stk @ [cob E w]" "cheap E h2"]
        have j: "moves W (conf self fp eh (ip + int (length ?t) + 9 + int (length ?p)) (stk @ [cob E w]) (cheap E h2))
            (TO (conf self fp eh (ip + int (length (compile E lam t (CND test pass fail)))) (stk @ [cob E w]) (cheap E h2)))"
          unfolding len by (simp add: algebra_simps)
        from m2 c2 Inr goes_trans [OF _ j] show ?thesis by (auto simp: r)
      qed
      from goes_answer [OF _ this] m False show ?thesis by simp
    qed
  qed
qed

subsection \<open>Compiled code does what the evaluator says\<close>

lemma drops_step:
  fixes W :: "'f world"
  assumes "simulates W (eval W (Suc n))" "simulates W (eval W n)" "no_push_opcode (w_genv W)"
  shows "drops W (eval W (Suc n))"
  unfolding drops_def
proof (intro allI impI)
  fix a h e q h' lam self fp ip stk and eh :: "('f, 'f bytecode) object" and cs :: "'f code_unit list"
  let ?E = "w_genv W"
  let ?hd = "head_code (opcode_table ?E) e (compile ?E lam False e)"
  assume ev: "eval W (Suc n) a h e = Some (q, h')" and c: "code_at self ip (?hd @ cs)" and f: "frame_ok ?E lam a fp stk"
    and v: "procedure_vars self = DATUM (act_vars a)" and eh: "\<not> procedurep eh"
  consider (skip) "skipped e" | (set) ref x where "e = SET ref x" "\<not> skipped e" "drop_push (opcode_table ?E) e"
    | (drop) "\<not> skipped e" "\<not> drop_push (opcode_table ?E) e"
    using assms(3) by (cases "(opcode_table ?E, e)" rule: drop_push.cases) (auto simp: no_push_opcode_def)
  then show "case q of Inl x \<Rightarrow> moves W (conf self fp eh ip stk (cheap ?E h)) (FAIL x)
      | Inr v \<Rightarrow> moves W (conf self fp eh ip stk (cheap ?E h)) (TO (conf self fp eh (ip + int (length ?hd)) stk (cheap ?E h')))"
  proof cases
    case skip
    then have "q = Inr (case e of LIT v \<Rightarrow> DATUM v | SELF v \<Rightarrow> DATUM v | _ \<Rightarrow> DATUM SVOID)" "h' = h" using ev by (cases e; simp)+
    with skip show ?thesis by (simp add: head_code_def moves_refl)
  next
    case drop
    then have hd: "?hd = compile ?E lam False e @ [OP OP_DROP]" by (simp add: head_code_def)
    have c1: "code_at self ip (compile ?E lam False e @ OP OP_DROP # cs)" using c hd by simp
    note m = simulatesD [OF assms(1) ev c1 f v _ eh, simplified]
    show ?thesis using m goes_trans [OF _ move_drop [OF code_at_append(2) [OF c1]]] by (cases q) (auto simp: hd algebra_simps)
  next
    case set
    let ?x = "compile ?E lam False x" and ?s = "set_code (lambda_sv ?E) lam ref"
    have hd: "?hd = ?x @ ?s" by (simp add: head_code_def set(1))
    have c1: "code_at self ip (?x @ ?s @ cs)" using c hd by simp
    obtain q1 h1 where x: "eval W n a h x = Some (q1, h1)" using ev by (cases "eval W n a h x") (auto simp: set(1))
    note m = simulatesD [OF assms(2) x c1 f v _ eh, simplified]
    show ?thesis
    proof (cases q1)
      case (Inl y)
      with ev x m show ?thesis by (auto simp: set(1))
    next
      case (Inr u)
      with ev x have s: "eval_set (lambda_sv ?E) a h1 ref u = Some (q, h')" by (simp add: set(1))
      from m Inr move_set [OF eh v f code_at_append(2) [OF c1] s] goes_trans
      show ?thesis by (cases q) (force simp: hd add.assoc)+
    qed
  qed
qed

lemma move_set_expr:
  fixes W :: "'f world"
  defines "E \<equiv> w_genv W"
  assumes "simulates W (eval W n)" "\<not> procedurep eh" "procedure_vars self = DATUM (act_vars a)" "frame_ok E lam a fp stk"
    "code_at self ip (compile E lam t (SET ref x) @ cs)" "eval W (Suc n) a h (SET ref x) = Some r"
  shows "gives_answer W (\<lambda>l. RUN (conf self fp eh ip stk (cheap E h) l)) t self fp eh (ip + int (length (compile E lam t (SET ref x)))) stk E r"
proof -
  let ?x = "compile E lam False x" and ?s = "set_code (lambda_sv E) lam ref" and ?v = "push_code (DATUM SVOID) :: 'f code_unit list"
  have c: "code_at self ip (?x @ ?s @ ?v @ cs)" using assms(6) by simp
  note c1 = code_at_append(2) [OF c] note c2 = code_at_append(2) [OF c1]
  obtain q1 h1 where x: "eval W n a h x = Some (q1, h1)" using assms(7) by (cases "eval W n a h x") auto
  note m = simulatesD [OF assms(2) x, folded E_def, OF c assms(5,4) _ assms(3), simplified]
  obtain q h' where r: "r = (q, h')" by (cases r)
  show ?thesis
  proof (cases q1)
    case (Inl y)
    with assms(7) x m show ?thesis by (auto simp: r)
  next
    case (Inr u)
    with assms(7) x have s: "eval_set (lambda_sv E) a h1 ref u = Some (q, h')" by (simp add: r E_def)
    have m: "moves W (conf self fp eh ip stk (cheap E h)) (TO (conf self fp eh (ip + int (length ?x)) (stk @ [cob E u]) (cheap E h1)))"
      using m Inr by simp
    note m2 = move_set [OF assms(3,4) assms(5) [unfolded E_def] c1 [unfolded E_def] s [unfolded E_def], folded E_def]
    show ?thesis
    proof (cases q)
      case (Inl y)
      with goes_trans [OF m] m2 show ?thesis by (simp add: r)
    next
      case (Inr w)
      with m2 goes_trans [OF m goes_trans [OF _ move_push [OF c2]]] show ?thesis by (simp add: r algebra_simps)
    qed
  qed
qed

lemma simulates_eval:
  fixes W :: "'f world"
  assumes "rejects_objects W" "no_push_opcode (w_genv W)"
  shows "simulates W (eval W n) \<and> drops W (eval W n)"
proof (induction n)
  case 0
  show ?case by (simp add: simulates_def drops_def)
next
  case (Suc n)
  let ?E = "w_genv W"
  have "simulates W (eval W (Suc n))"
    unfolding simulates_def
  proof (intro allI impI)
    fix a h e r lam t self fp ip stk and eh :: "('f, 'f bytecode) object" and cs :: "'f code_unit list"
    assume ev: "eval W (Suc n) a h e = Some r" and c: "code_at self ip (compile ?E lam t e @ cs)" and f: "frame_ok ?E lam a fp stk"
      and v: "procedure_vars self = DATUM (act_vars a)" and t: "t \<longrightarrow> frame_at fp stk" and eh: "\<not> procedurep eh"
    obtain q h' where r: "r = (q, h')" by (cases r)
    show "gives_answer W (\<lambda>l. RUN (conf self fp eh ip stk (cheap ?E h) l)) t self fp eh (ip + int (length (compile ?E lam t e))) stk ?E r"
    proof (cases e)
      case (LIT x)
      then have "code_at self ip (push_code (DATUM x) @ cs)" using c by simp
      from move_push [OF this] LIT ev show ?thesis by (auto simp: r)
    next
      case (SELF x)
      then have "code_at self ip (push_code (DATUM x) @ cs)" using c by simp
      from move_push [OF this] SELF ev show ?thesis by (auto simp: r)
    next
      case (REF ref)
      with move_reference [OF eh v f, of ip ref cs h q h'] c ev show ?thesis by (cases q) (simp_all add: r)
    next
      case (SET ref x)
      from move_set_expr [OF _ eh v f c [unfolded SET] ev [unfolded SET]] Suc show ?thesis by (simp add: SET)
    next
      case (CND x y z)
      from move_cnd [OF _ eh v _ f c [unfolded CND], of "eval W n" h r] Suc t ev show ?thesis by (simp add: CND)
    next
      case (SEQ es)
      from move_seq [OF _ _ eh v _ f c [unfolded SEQ], of "eval W n" h r] Suc t ev show ?thesis by (simp add: SEQ)
    next
      case (APP g args)
      from move_app [OF _ assms(1,2) eh v _ f c [unfolded APP], of "eval W n" h r] Suc t ev show ?thesis by (simp add: APP)
    next
      case (LAMBDA k params rest locals sv fv body)
      have "eval_lambda a h (LAMBDA k params rest locals sv fv body) = Some (q, h')" using ev by (simp add: LAMBDA r)
      from move_lambda [OF eh v f refl refl c [unfolded LAMBDA] this] show ?thesis by (auto simp: LAMBDA r)
    qed
  qed
  with drops_step Suc assms(2) show ?case by blast
qed


lemma compare_object:
  "r_compare (arith F n) (OBJECT 0) b = Some r \<Longrightarrow> \<exists>e x. r = EXCEPTION e x \<and> e \<noteq> Xtype_error ''can't compare NaN''"
proof (cases n)
  case 0
  then show "r_compare (arith F n) (OBJECT 0) b = Some r \<Longrightarrow> ?thesis" by (simp add: arith.simps Let_def)
next
  case (Suc m)
  have t: "sexp_number_type (OBJECT 0) = NUM_NOT" by code_simp
  show "r_compare (arith F n) (OBJECT 0) b = Some r \<Longrightarrow> ?thesis"
    by (cases "sexp_number_type b") (auto simp: Suc arith_simps sexp_compare_def t sexp_type_exception_def sexp_xtype_exception_def)
qed

lemma compare_object_right:
  assumes "r_compare (arith F n) a (OBJECT 0) = Some r"
  shows "\<exists>e x. r = EXCEPTION e x \<and> e \<noteq> Xtype_error ''can't compare NaN''"
proof (cases n)
  case 0
  with assms show ?thesis by (simp add: arith.simps Let_def)
next
  case (Suc m)
  have t: "sexp_number_type (OBJECT 0) = NUM_NOT" by code_simp
  show ?thesis
  proof (cases "num_rank (sexp_number_type a) > 0")
    case True
    then obtain r' where r: "r_compare (arith F m) (OBJECT 0) a = Some r'" "r = (if sexp_exceptionp r' then r' else sexp_negate F r')"
      using assms by (auto simp: Suc arith_simps sexp_compare_def t split: bind_splits)
    from compare_object [OF r(1)] r(2) show ?thesis by auto
  next
    case False
    then have "sexp_number_type a = NUM_NOT" by (cases "sexp_number_type a") simp_all
    with assms show ?thesis by (auto simp: Suc arith_simps sexp_compare_def t sexp_type_exception_def)
  qed
qed

lemma arith_rejects: "w_arith W = arith F n \<Longrightarrow> rejects_objects W"
  using compare_object compare_object_right unfolding rejects_objects_def by metis

text \<open>The value of an expression, as an object of the machine.\<close>

fun answer_object :: "'f genv \<Rightarrow> 'f datum + ('f, 'f ast) object \<Rightarrow> ('f, 'f bytecode) object" where
  "answer_object E (Inl x) = DATUM x"
| "answer_object E (Inr v) = cob E v"

definition vm_state :: "('f, 'f bytecode) object list \<Rightarrow> ('f, 'f bytecode) heap \<Rightarrow> int \<Rightarrow> 'f vm" where
  "vm_state stk h l = \<lparr>vm_ip = 0, vm_self = FINAL_RESUMER, vm_stack = stk, vm_fp = 0, vm_heap = h, vm_stack_length = l,
    vm_handler = DATUM SFALSE\<rparr>"

text \<open>A stop of the machine with an answer and, unless it is an exception, the heap.\<close>


lemma resume_apply: "sexp_apply W n p args s = resume W n (sexp_apply_start W p args s)"
  by (cases "sexp_apply_start W p args s") (simp_all add: sexp_apply_def)

lemma apply_toplevel:
  fixes W :: "'f world"
  defines "E \<equiv> w_genv W"
  assumes "rejects_objects W" "no_push_opcode E" "eval W n toplevel h e = Some (r, h')"
  shows "\<exists>L. \<forall>l \<ge> L. \<exists>m s. sexp_apply W m (sexp_generate_op E e) [] (vm_state stk (cheap E h) l) = HALT (answer_object E r) s
    \<and> (\<forall>v. r = Inr v \<longrightarrow> vm_heap s = cheap E h')"
proof -
  let ?P = "sexp_generate_op E e" and ?C = "compile E None True e"
  let ?eh = "DATUM SFALSE :: ('f, 'f bytecode) object" and ?fp = "int (length stk)"
  let ?bc = "sexp_complete_bytecode (sexp_generate E e (new_context None))"
  let ?stk = "stk @ [] @ frame_of 0 0 FINAL_RESUMER (?fp - 4) @ []"
  have P: "?P = PROCEDURE 0 0 ?bc VECTOR0" by (simp add: sexp_generate_op_def)
  have "procedure_code ?P = ?C @ [OP OP_RET]" by (rule generate_op_data [OF assms(3)])
  then have c: "code_at ?P 0 (?C @ [OP OP_RET])" by (auto simp: code_at_def)
  have sim: "simulates W (eval W n)" using simulates_eval [OF assms(2) assms(3) [unfolded E_def]] by simp
  have fr: "frame_at ?fp ?stk" "returned ?fp ?eh ?stk v h = conf FINAL_RESUMER (?fp - 4) ?eh 0 (stk @ [v]) h" for v h
    using frame_at_frame [of stk "[]" 0 FINAL_RESUMER "?fp - 4" "[]"] returned_frame [of stk "[]" ?eh 0 FINAL_RESUMER "?fp - 4" "[]" v h] by simp_all
  have d: "gives_answer W (\<lambda>l. RUN (conf ?P ?fp ?eh 0 ?stk (cheap E h) l)) True ?P ?fp ?eh (0 + int (length ?C)) ?stk E (r, h')"
    using simulatesD [OF sim assms(4), folded E_def, OF c] fr(1) by (simp add: toplevel_def P)
  have en: "goes W (\<lambda>l. sexp_apply_start W ?P [] (vm_state stk (cheap E h) l)) (TO (conf ?P ?fp ?eh 0 ?stk (cheap E h)))"
  proof -
    have "sexp_apply_start W ?P [] (vm_state stk (cheap E h) l) = make_call W 0 ?P (conf FINAL_RESUMER (?fp - 4) ?eh (- 8) (stk @ [] @ [?P]) (cheap E h) l)"
      if "?fp + 64 + bytecode_max_depth ?bc + 1 \<le> l" for l
      using that by (simp add: sexp_apply_start_def vm_state_def sexp_ensure_stack_def conf_def Let_def P)
    from goes_cong [OF this enter_goes [of ?eh "[]" 0 W 0 0 ?bc VECTOR0, folded P]]
    show ?thesis by (simp add: adjust_args_def variadic_p_def)
  qed
  note run = goes_answer [OF en d]
  have fin: "goes W (\<lambda>l. sexp_apply_start W ?P [] (vm_state stk (cheap E h) l)) (TO (conf FINAL_RESUMER (?fp - 4) ?eh 0 (stk @ [cob E v]) (cheap E h')))"
    if r: "r = Inr v" for v
  proof -
    note ret = move_ret [OF code_at_append(2) [OF c] fr(1), of W ?eh "cob E v" "cheap E h'", unfolded fr(2)]
    from run have "goes W (\<lambda>l. sexp_apply_start W ?P [] (vm_state stk (cheap E h) l))
          (TO (conf ?P ?fp ?eh (0 + int (length ?C)) (?stk @ [cob E v]) (cheap E h')))
        \<or> goes W (\<lambda>l. sexp_apply_start W ?P [] (vm_state stk (cheap E h) l)) (TO (conf FINAL_RESUMER (?fp - 4) ?eh 0 (stk @ [cob E v]) (cheap E h')))"
      by (simp only: r gives_answer.simps fr(2)) blast
    then show ?thesis using goes_trans [OF _ ret] by blast
  qed
  show ?thesis
  proof (cases r)
    case (Inl x)
    with run obtain L where "\<forall>l \<ge> L. \<exists>m s. resume W m (sexp_apply_start W ?P [] (vm_state stk (cheap E h) l)) = HALT (DATUM x) s"
      by (auto simp: goes_def)
    with Inl show ?thesis by (auto simp: resume_apply)
  next
    case (Inr v)
    let ?s = "conf FINAL_RESUMER (?fp - 4) ?eh 0 (stk @ [cob E v]) (cheap E h')"
    obtain L where L: "\<forall>l \<ge> L. \<exists>m. resume W m (sexp_apply_start W ?P [] (vm_state stk (cheap E h) l)) = RUN (?s l)"
      using fin [OF Inr] by (auto simp: goes_def)
    have st: "step W (?s l) = HALT (cob E v) (advance_ip 1 (?s l))" for l
      by (simp add: step_def FINAL_RESUMER_def execute_def)
    have "\<exists>m s. resume W m (sexp_apply_start W ?P [] (vm_state stk (cheap E h) l)) = HALT (cob E v) s \<and> vm_heap s = cheap E h'"
      if l: "L \<le> l" for l
    proof -
      from L l obtain m where "resume W m (sexp_apply_start W ?P [] (vm_state stk (cheap E h) l)) = RUN (?s l)" by blast
      then have "resume W (m + 1) (sexp_apply_start W ?P [] (vm_state stk (cheap E h) l)) = HALT (cob E v) (advance_ip 1 (?s l))"
        unfolding resume_add by (simp add: st run_Suc del: run.simps(2) add: run.simps(1))
      then show ?thesis by (intro exI [of _ "m + 1"]) auto
    qed
    then show ?thesis by (auto simp: resume_apply Inr)
  qed
qed


subsection \<open>An example world\<close>

text \<open>Two arithmetic opcodes and the generic arithmetic, for the examples of this and later theories.\<close>

definition demo_world :: "'f flo_ops \<Rightarrow> (nat \<Rightarrow> ident list) \<Rightarrow> 'f world" where
  "demo_world F sv = \<lparr>w_flo = F, w_arith = arith F 3,
     w_genv = \<lparr>opcode_table = (\<lambda>k. if k = 0 then arith_op OP_ADD else arith_op OP_MUL), lambda_sv = sv, no_tail_calls_p = False\<rparr>,
     w_foreign = (\<lambda>k args h. (DATUM SVOID, h)), w_can_grow = (\<lambda>n. False)\<rparr>"

text \<open>
  C1.  For every expression, every heap and every answer of the evaluator, a value or an exception,
  there is a stack size from which on the machine, started by \<open>sexp_apply\<close> on the generated code, stops
  after some number of instructions with exactly that answer, and after a value with the heap of the
  evaluator.  So closures, assigned variables, tail calls, rest arguments, chained comparisons and the order of
  evaluation are compiled correctly.
\<close>

theorem compiled_code_correct:
  assumes "w_arith W = arith F d" and "no_push_opcode (w_genv W)" and "eval W n toplevel h e = Some (r, h')"
  shows "\<exists>L. \<forall>l \<ge> L. \<exists>m s. sexp_apply W m (sexp_generate_op (w_genv W) e) []
      (vm_state stk (map_heap (closure_code (w_genv W)) h) l) = HALT (answer_object (w_genv W) r) s
    \<and> (\<forall>v. r = Inr v \<longrightarrow> vm_heap s = map_heap (closure_code (w_genv W)) h')"
  by (rule apply_toplevel [OF arith_rejects [OF assms(1)] assms(2,3)])

text \<open>
  The example is a closure that adds to a variable of the procedure around it,
  \<open>((lambda (x) ((lambda (f) (+ (f 1) (* x 10))) (lambda (y) (set! x (+ x y)) x))) 5)\<close>, with
  the value 56, since arguments are evaluated from the last one.
\<close>

definition counter_sv :: "nat \<Rightarrow> ident list" where "counter_sv k = (if k = 0 then [SYMBOL ''x''] else [])"

definition counter :: "'f ast" where
  "counter =
    (let x = SYMBOL ''x''; f = SYMBOL ''f''; y = SYMBOL ''y'';
         inner = LAMBDA 2 [y] None [] [] [(x, 0)] (SEQ [SET (LOCAL x 0) (APP (SELF (OPCODE 0)) [REF (LOCAL x 0), REF (LOCAL y 2)]), REF (LOCAL x 0)]);
         body = LAMBDA 1 [f] None [] [] [(x, 0)]
           (APP (SELF (OPCODE 0)) [APP (REF (LOCAL f 1)) [LIT (FIX 1)], APP (SELF (OPCODE 1)) [REF (LOCAL x 0), LIT (FIX 10)]])
     in APP (LAMBDA 0 [x] None [] [x] [] (APP body [inner])) [LIT (FIX 5)])"

theorem compiled_code_correct_witness:
  "\<forall>F :: bool flo_ops. \<exists>L. \<forall>l \<ge> L. \<exists>m s. sexp_apply (demo_world F counter_sv) m
    (sexp_generate_op (w_genv (demo_world F counter_sv)) counter) [] (vm_state [] [] l) = HALT (DATUM (FIX 56)) s"
proof
  fix F :: "bool flo_ops"
  let ?W = "demo_world F counter_sv"
  have "map_option fst (eval ?W 9 toplevel [] counter) = Some (Inr (DATUM (FIX 56)))" by code_simp
  then obtain h' where e: "eval ?W 9 toplevel [] counter = Some (Inr (DATUM (FIX 56)), h')" by auto
  have w: "w_arith ?W = arith F 3" "no_push_opcode (w_genv ?W)"
    by (simp_all add: demo_world_def no_push_opcode_def arith_op_def)
  from compiled_code_correct [OF w e, of "[]"] show "\<exists>L. \<forall>l \<ge> L. \<exists>m s. sexp_apply ?W m
    (sexp_generate_op (w_genv ?W) counter) [] (vm_state [] [] l) = HALT (DATUM (FIX 56)) s" by force
qed

end
