(* ===== verification/Instructions.thy ===== *)
theory Instructions
  imports Compiled Ratios
begin

text \<open>
  The instructions of the machine on exact integers, and first-class continuations.  What the
  arithmetic instructions need of the generic arithmetic is the locale \<open>machine_arith\<close>.
\<close>


subsection \<open>Integers of the machine\<close>

text \<open>\<open>x\<close> is the exact integer \<open>k\<close>: a fixnum, or a bignum that is no fixnum.\<close>

definition vm_int :: "('f, 'c) object \<Rightarrow> int \<Rightarrow> bool" where
  "vm_int x k \<longleftrightarrow> fits_fixnum k \<and> x = DATUM (FIX k) \<or> (\<exists>b. x = DATUM (NUM (BIGNUM b)) \<and> norm_int (BIGNUM b :: 'f sexp) \<and> bn_int b = k)"

definition gives_int :: "('f, 'c) heap \<Rightarrow> ('f, 'c) ires option \<Rightarrow> int \<Rightarrow> bool" where
  "gives_int h r k \<longleftrightarrow> (\<exists>v. r = Some (RESULT v h) \<and> vm_int v k)"

lemma vm_int_cases:
  assumes "vm_int (x :: ('f, 'c) object) k"
  obtains (small) "fits_fixnum k" "x = DATUM (FIX k)" "fixnum_at x = Some k"
  | (large) b where "x = DATUM (NUM (BIGNUM b))" "fixnum_at x = None" "norm_int (BIGNUM b :: 'f sexp)" "bn_int b = k" "\<not> fits_fixnum k"
  using assms by (auto simp: vm_int_def norm_int_def)

lemma vm_int_sexp:
  assumes "vm_int x k"
  shows "norm_int (to_sexp x)" "int_val (to_sexp x) = k" "exact_int (to_sexp x)" "sexp_fixnump (to_sexp x) \<longleftrightarrow> fits_fixnum k"
  using assms by (auto elim!: vm_int_cases simp: norm_int_def fixnum_obj_def)

lemma vm_int_of_sexp: "norm_int (r :: 'f sexp) \<Longrightarrow> vm_int (DATUM (of_sexp r) :: ('f, 'c) object) (int_val r)"
  by (cases r) (auto simp: vm_int_def norm_int_def fits_fixnum_value)

lemma vm_int_fixnum_at: "vm_int x k \<Longrightarrow> fixnum_at x = (if fits_fixnum k then Some k else None)"
  by (auto elim!: vm_int_cases)

lemma as_result_int: "returns_int r k \<Longrightarrow> gives_int h (as_result h r) k"
  using vm_int_of_sexp by (force simp: returns_int_def gives_int_def as_result_def)

lemma norm_int_no_exception: "norm_int r \<Longrightarrow> \<not> sexp_exceptionp r"
  by (cases r) (simp_all add: norm_int_def)

lemma or_exception_int: "returns_int r k \<Longrightarrow> gives_int h (or_exception h r) k"
  using vm_int_of_sexp norm_int_no_exception by (force simp: returns_int_def gives_int_def or_exception_def)

lemma gives_fix: "fits_fixnum k \<Longrightarrow> gives_int h (Some (RESULT (DATUM (FIX k)) h)) k"
  by (simp add: gives_int_def vm_int_def)

locale machine_arith = integer_arith N for N :: "'f arith" +
  assumes sub_exact: "exact_int a \<Longrightarrow> exact_int b \<Longrightarrow>
      (sexp_fixnump a \<Longrightarrow> sexp_fixnump b \<Longrightarrow> fits_fixnum (int_val a - int_val b)) \<Longrightarrow>
      returns_int (r_sub N a b) (int_val a - int_val b)"
    and compare_exact: "norm_int a \<Longrightarrow> norm_int b \<Longrightarrow> addressable a \<Longrightarrow> addressable b \<Longrightarrow>
      (sexp_fixnump a \<Longrightarrow> sexp_fixnump b \<Longrightarrow> fits_fixnum (int_val a - int_val b)) \<Longrightarrow>
      returns_sign (r_compare N a b) (int_val a - int_val b)"
begin

lemma fix_to_bignum_exact: "fits_fixnum i \<Longrightarrow> exact_int (fix_to_bignum i) \<and> int_val (fix_to_bignum i) = i \<and> \<not> sexp_fixnump (fix_to_bignum i)"
  by (simp add: fix_to_bignum_def fixnum_to_bignum_val)

lemma add_instruction:
  assumes "w_arith W = N" "vm_int x i" "vm_int y j"
  shows "gives_int h (vm_add W h x y) (i + j)"
proof -
  note v = vm_int_sexp [OF assms(2)] vm_int_sexp [OF assms(3)]
  have g: "returns_int (r_add (w_arith W) (to_sexp x) (to_sexp y)) (i + j)" using add_exact v assms(1) by metis
  have b: "fits_fixnum i \<Longrightarrow> returns_int (r_add (w_arith W) (fix_to_bignum i) (to_sexp y)) (i + j)"
    using add_exact fix_to_bignum_exact v assms(1) by metis
  show ?thesis
    by (auto simp: vm_add_def vm_int_fixnum_at [OF assms(2)] vm_int_fixnum_at [OF assms(3)]
        intro: gives_fix as_result_int [OF b] or_exception_int [OF g])
qed

lemma sub_instruction:
  assumes "w_arith W = N" "vm_int x i" "vm_int y j"
  shows "gives_int h (vm_sub W h x y) (i - j)"
proof -
  note v = vm_int_sexp [OF assms(2)] vm_int_sexp [OF assms(3)]
  have g: "\<not> (fits_fixnum i \<and> fits_fixnum j) \<Longrightarrow> returns_int (r_sub (w_arith W) (to_sexp x) (to_sexp y)) (i - j)"
    using sub_exact [of "to_sexp x" "to_sexp y"] v assms(1) by auto
  have b: "fits_fixnum i \<Longrightarrow> returns_int (r_sub (w_arith W) (fix_to_bignum i) (to_sexp y)) (i - j)"
  proof -
    assume "fits_fixnum i"
    then have "exact_int (fix_to_bignum i :: 'f sexp)" "int_val (fix_to_bignum i :: 'f sexp) = i" "\<not> sexp_fixnump (fix_to_bignum i :: 'f sexp)"
      using fix_to_bignum_exact by blast+
    with sub_exact [of "fix_to_bignum i" "to_sexp y"] v assms(1) show ?thesis by simp
  qed
  show ?thesis
    by (auto simp: vm_sub_def vm_int_fixnum_at [OF assms(2)] vm_int_fixnum_at [OF assms(3)]
        intro: gives_fix as_result_int [OF b] or_exception_int [OF g])
qed

lemma mul_instruction:
  assumes "w_arith W = N" "vm_int x i" "vm_int y j"
  shows "gives_int h (vm_mul W h x y) (i * j)"
proof -
  note v = vm_int_sexp [OF assms(2)] vm_int_sexp [OF assms(3)]
  have g: "returns_int (r_mul (w_arith W) (to_sexp x) (to_sexp y)) (i * j)" using mul_exact v assms(1) by metis
  have b: "fits_fixnum i \<Longrightarrow> returns_int (r_mul (w_arith W) (fix_to_bignum i) (to_sexp y)) (i * j)"
    using mul_exact fix_to_bignum_exact v assms(1) by metis
  show ?thesis
    by (auto simp: vm_mul_def vm_int_fixnum_at [OF assms(2)] vm_int_fixnum_at [OF assms(3)]
        intro: gives_fix as_result_int [OF b] or_exception_int [OF g])
qed

lemma quotient_instruction:
  assumes "w_arith W = N" "vm_int x i" "vm_int y j" "j \<noteq> 0" "\<not> min_by_negation i j"
  shows "gives_int h (vm_quotient W h x y) (c_div i j)"
proof -
  note v = vm_int_sexp [OF assms(2)] vm_int_sexp [OF assms(3)]
  have g: "returns_int (r_quotient (w_arith W) (to_sexp x) (to_sexp y)) (c_div i j)"
    using quot_exact [of "to_sexp x" "to_sexp y"] v assms(1,4,5) by (auto simp: returns_int_def)
  note at = vm_int_fixnum_at [OF assms(2)] vm_int_fixnum_at [OF assms(3)]
  consider "\<not> (fits_fixnum i \<and> fits_fixnum j)" | (least) "i = - (2 ^ 62)" "j = - 1"
    | (other) "fits_fixnum i" "fits_fixnum j" "\<not> (i = - (2 ^ 62) \<and> j = - 1)" by blast
  then show ?thesis
  proof cases
    case 1
    then show ?thesis by (auto simp: vm_quotient_def at intro: or_exception_int [OF g])
  next
    case least
    let ?b = "sexp_fixnum_to_bignum (fixnum_word (- (2 ^ 62)))"
    have f: "fits_fixnum (- (2 ^ 62))" "fits_fixnum (- 1)" by (simp_all add: fits_fixnum_def)
    then have b: "bn_int ?b = - (2 ^ 62)" "bignum_ok ?b" by (simp_all add: fixnum_to_bignum_val)
    then have "bn_int (?b\<lparr>sexp_bignum_sign := - sexp_bignum_sign ?b\<rparr>) = 2 ^ 62" "bignum_ok (?b\<lparr>sexp_bignum_sign := - sexp_bignum_sign ?b\<rparr>)"
      by (auto simp: bn_int_def bn_nat_def bignum_ok_def)
    then have "vm_int (DATUM (NUM (BIGNUM (?b\<lparr>sexp_bignum_sign := - sexp_bignum_sign ?b\<rparr>)))) (2 ^ 62)"
      by (simp add: vm_int_def norm_int_def fits_fixnum_def)
    moreover have "c_div i j = 2 ^ 62" using least by (simp add: c_div_def)
    ultimately show ?thesis using least f by (simp add: vm_quotient_def at gives_int_def Let_def)
  next
    case other
    then have "fits_fixnum (c_div i j)" using c_div_fits assms(4) by blast
    with other assms(4) show ?thesis by (auto simp: vm_quotient_def at gives_fix)
  qed
qed

lemma remainder_instruction:
  assumes "w_arith W = N" "vm_int x i" "vm_int y j" "j \<noteq> 0" "\<not> min_by_negation i j"
  shows "gives_int h (vm_remainder W h x y) (c_rem i j)"
proof -
  note v = vm_int_sexp [OF assms(2)] vm_int_sexp [OF assms(3)]
  have g: "returns_int (r_remainder (w_arith W) (to_sexp x) (to_sexp y)) (c_rem i j)"
    using rem_exact [of "to_sexp x" "to_sexp y"] v assms(1,4,5) by auto
  have f: "fits_fixnum i \<Longrightarrow> fits_fixnum j \<Longrightarrow> fits_fixnum (c_rem i j)"
    using c_rem_bound [OF assms(4), of i] by (auto simp: fits_fixnum_def)
  show ?thesis
    using assms(4) f
    by (auto simp: vm_remainder_def vm_int_fixnum_at [OF assms(2)] vm_int_fixnum_at [OF assms(3)]
        intro: gives_fix or_exception_int [OF g])
qed

lemma compare_instructions:
  assumes "w_arith W = N" "vm_int x i" "vm_int y j" "addressable (to_sexp x)" "addressable (to_sexp y)"
  shows "vm_lt W h x y = Some (RESULT (make_boolean (i < j)) h)" "vm_le W h x y = Some (RESULT (make_boolean (i \<le> j)) h)"
    "vm_eqn W h x y = Some (RESULT (make_boolean (i = j)) h)"
proof -
  note v = vm_int_sexp [OF assms(2)] vm_int_sexp [OF assms(3)]
  have "vm_lt W h x y = Some (RESULT (make_boolean (i < j)) h) \<and> vm_le W h x y = Some (RESULT (make_boolean (i \<le> j)) h)
    \<and> vm_eqn W h x y = Some (RESULT (make_boolean (i = j)) h)"
  proof (cases "fits_fixnum i \<and> fits_fixnum j")
    case True
    then have "fixnum_at x = Some i" "fixnum_at y = Some j" using assms(2,3) by (auto elim!: vm_int_cases)
    then show ?thesis by (simp add: vm_lt_def vm_le_def vm_eqn_def)
  next
    case False
    then have f: "fixnum_at x = None \<or> fixnum_at y = None" using assms(2,3) by (auto elim!: vm_int_cases)
    have "returns_sign (r_compare (w_arith W) (to_sexp x) (to_sexp y)) (i - j)"
      using compare_exact [of "to_sexp x" "to_sexp y"] v assms(1,4,5) False by auto
    then obtain m where m: "r_compare (w_arith W) (to_sexp x) (to_sexp y) = Some (fixnum_obj m)" "fits_fixnum m" "sgn m = sgn (i - j)"
      by (auto simp: returns_sign_def)
    have c: "compared h test (Some (fixnum_obj m)) = Some (RESULT (make_boolean (test (fixnum_obj m))) h)" for test
      by (simp add: compared_def fixnum_obj_def)
    have u: "sint (unbox_fixnum (fixnum_obj m :: 'f sexp)) = m" using m(2) by (simp add: unbox_fixnum_obj sint_fits)
    have z: "fixnum_obj m = (SEXP_ZERO :: 'f sexp) \<longleftrightarrow> m = 0"
      using norm_int_eq [of "fixnum_obj m :: 'f sexp" 0] m(2) by (simp add: const_objs fits_fixnum_def)
    have p: "\<not> sexp_complexp (to_sexp x)" "\<not> sexp_complexp (to_sexp y)" using v(3,7) by (cases "to_sexp x"; cases "to_sexp y"; simp)+
    have s: "m < 0 \<longleftrightarrow> i < j" "m \<le> 0 \<longleftrightarrow> i \<le> j" "m = 0 \<longleftrightarrow> i = j" using m(3) by (auto simp: sgn_if split: if_splits)
    have "vm_lt W h x y = compared h (\<lambda>r. sint (unbox_fixnum r) < 0) (r_compare (w_arith W) (to_sexp x) (to_sexp y))"
      "vm_le W h x y = compared h (\<lambda>r. sint (unbox_fixnum r) \<le> 0) (r_compare (w_arith W) (to_sexp x) (to_sexp y))"
      "vm_eqn W h x y = compared h (\<lambda>r. r = SEXP_ZERO) (r_compare (w_arith W) (to_sexp x) (to_sexp y))"
      using f by (auto simp: vm_lt_def vm_le_def vm_eqn_def Let_def p split: option.split)
    then show ?thesis by (simp add: m(1) c u z s)
  qed
  then show "vm_lt W h x y = Some (RESULT (make_boolean (i < j)) h)" "vm_le W h x y = Some (RESULT (make_boolean (i \<le> j)) h)"
    "vm_eqn W h x y = Some (RESULT (make_boolean (i = j)) h)" by blast+
qed

end

interpretation machine: machine_arith "arith F (Suc (Suc (Suc n)))" for F :: "'f flo_ops" and n
proof
  fix a b :: "'f sexp"
  show "returns_int (r_sub (arith F (Suc (Suc (Suc n)))) a b) (int_val a - int_val b)"
    if "exact_int a" "exact_int b" "sexp_fixnump a \<Longrightarrow> sexp_fixnump b \<Longrightarrow> fits_fixnum (int_val a - int_val b)"
    using sub_int [OF that] by (simp add: arith_simps)
  show "returns_sign (r_compare (arith F (Suc (Suc (Suc n)))) a b) (int_val a - int_val b)"
    if "norm_int a" "norm_int b" "addressable a" "addressable b"
      "sexp_fixnump a \<Longrightarrow> sexp_fixnump b \<Longrightarrow> fits_fixnum (int_val a - int_val b)"
    using compare_int [OF that] by (simp add: arith_simps)
qed

text \<open>
  The answers left out by the laws: a zero divisor raises an exception, and of the pair the generic
  division gets wrong the quotient is 0 and the remainder the dividend.
\<close>

lemma zero_divisor_instructions:
  fixes W :: "'f world"
  assumes "vm_int x i" "w_arith W = arith F (Suc n)"
  shows "(\<exists>d v. vm_quotient W h x (DATUM (FIX 0)) = Some (ERROR d v)) \<and> (\<exists>d v. vm_remainder W h x (DATUM (FIX 0)) = Some (ERROR d v))"
  using assms(1)
proof (cases rule: vm_int_cases)
  case (large b)
  have z: "unbox_fixnum (fixnum_obj 0 :: 'f sexp) = 0" "(fixnum_obj 0 :: 'f sexp) \<noteq> fixnum_obj 1"
    by (simp_all add: unbox_fixnum_obj) (simp add: fixnum_obj_def fixnum_word_alt)
  have "bn_int (sexp_fixnum_to_bignum (fixnum_word 0)) = 0" by (simp add: fixnum_to_bignum_val)
  then have "sexp_bignum_hi (sexp_fixnum_to_bignum (fixnum_word 0)) = 1" "sexp_bignum_data (sexp_fixnum_to_bignum (fixnum_word 0)) ! 0 = 0"
    by (simp_all add: sexp_fixnum_to_bignum_def sexp_bignum_hi_def fixnum_word_alt sexp_unbox_fx_abs_def sexp_unbox_fixnum_def sexp_make_bignum_def Let_def)
  then show ?thesis using large z assms(2)
    by (auto simp: vm_quotient_def vm_remainder_def arith_simps sexp_quotient_def sexp_remainder_def or_exception_def
        sexp_bignum_quotient_def sexp_bignum_quot_rem_def sexp_bignum_fxrem_def const_objs
        sexp_xtype_exception_def)
qed (simp add: vm_quotient_def vm_remainder_def)

lemma min_by_negation_instructions:
  assumes "vm_int x i" "vm_int y j" "min_by_negation i j" "w_arith W = arith F (Suc n)"
  shows "gives_int h (vm_quotient W h x y) 0 \<and> gives_int h (vm_remainder W h x y) i"
proof -
  have f: "fits_fixnum i" "\<not> fits_fixnum j" "fits_fixnum 0" using assms(3) by (auto simp: min_by_negation_def fits_fixnum_def)
  obtain c where x: "x = DATUM (FIX i)" "fixnum_at x = Some i" and y: "y = DATUM (NUM (BIGNUM c))" "fixnum_at y = None"
    using assms(1,2) f by (auto elim!: vm_int_cases)
  have "returns_int (r_quotient (w_arith W) (to_sexp x) (to_sexp y)) 0" "returns_int (r_remainder (w_arith W) (to_sexp x) (to_sexp y)) i"
    using f by (simp_all add: x y assms(4) arith_simps sexp_quotient_def sexp_remainder_def const_objs returns_int_def norm_int_def)
  then show ?thesis by (simp add: vm_quotient_def vm_remainder_def x(2) y(2) or_exception_int)
qed

definition gives_rat :: "('f, 'c) heap \<Rightarrow> ('f, 'c) ires option \<Rightarrow> rat \<Rightarrow> bool" where
  "gives_rat h r q \<longleftrightarrow> (\<exists>s. r = Some (RESULT (DATUM (of_sexp s)) h) \<and> norm_rat s \<and> rat_val s = q)"

lemma div_instruction:
  fixes W :: "'f world"
  assumes "vm_int x i" "vm_int y j" "w_flo W = F" "w_arith W = arith F (Suc (Suc (Suc (Suc n))))"
  shows "j = 0 \<Longrightarrow> vm_div W h x y = Some (ERROR 1 (EXN ''divide by zero''))"
    and "j \<noteq> 0 \<Longrightarrow> good_denominator i j \<Longrightarrow> gives_rat h (vm_div W h x y) (of_int i / of_int j)"
proof -
  note v = vm_int_sexp [OF assms(1)] vm_int_sexp [OF assms(2)]
  have z: "y = DATUM (FIX 0) \<longleftrightarrow> j = 0" using assms(2) by (auto elim!: vm_int_cases simp: fits_fixnum_def)
  have fl: "\<not> sexp_flonump (to_sexp x)" using v(3) by (cases "to_sexp x") simp_all
  show "j = 0 \<Longrightarrow> vm_div W h x y = Some (ERROR 1 (EXN ''divide by zero''))"
    using z fl by (cases "to_sexp x") (simp_all add: vm_div_def)
  assume j: "j \<noteq> 0" and g: "good_denominator i j"
  have "returns_rat (sexp_ratio_normalize F (arith F (Suc (Suc (Suc n)))) (RATIO (to_sexp x) (to_sexp y))) (of_int i / of_int j)"
    "returns_rat (sexp_ratio_normalize F (w_arith W) (RATIO (to_sexp x) (to_sexp y))) (of_int i / of_int j)"
    using tower.ratio_normalize_correct [of "to_sexp x" "to_sexp y", of F F n]
      tower.ratio_normalize_correct [of "to_sexp x" "to_sexp y", of F F "Suc n"] v g assms(4) by simp_all
  moreover have "r_div (w_arith W) (to_sexp x) (to_sexp y) = sexp_ratio_normalize F (arith F (Suc (Suc (Suc n)))) (RATIO (to_sexp x) (to_sexp y))"
    using div_integers [OF v(1,5)] assms(4) by (simp add: arith_simps)
  moreover have "\<not> sexp_exceptionp s" if "norm_rat s" for s :: "'f sexp"
    using that by (cases s) (simp_all add: norm_int_def)
  ultimately show "gives_rat h (vm_div W h x y) (of_int i / of_int j)"
    using z j assms(3) by (auto simp: vm_div_def gives_rat_def as_result_def or_exception_def returns_rat_def split: option.splits)
qed



subsection \<open>Continuations\<close>

text \<open>
  C18.  \<open>call/cc\<close> calls its argument with a continuation \<open>k\<close>.  Let \<open>k\<close> be called later with a value, from any stack and
  whatever happened to the heap apart from the two vectors of the continuation.  The call enters \<open>k\<close> if the
  stack has 64 slots of room (if not, it enters it when the stack can be grown).  In \<open>k\<close>, if the saved stack fits with 64 slots of room,
  the machine goes on after the \<open>call/cc\<close> with its stack, its procedure and its frame, and the value on top;
  if it does not fit and the stack cannot be grown, an exception is raised.  (Growing the stack there is left open:
  the code goes on with the address of the old stack.)
\<close>

theorem callcc_resume:
  assumes "vm_stack s = stk @ [p]"
  shows "\<exists>k h. vm_callcc W s = make_call W 1 p (s\<lparr>vm_stack := stk @ [k, fix_object 1], vm_ip := vm_ip s - 8, vm_heap := h\<rparr>)
    \<and> (\<exists>new. h = vm_heap s @ new)
    \<and> (\<forall>s' base v. vm_stack s' = base @ [v, k] \<and> (\<forall>i. length (vm_heap s) \<le> i \<and> i < length h \<longrightarrow> i < length (vm_heap s') \<and> vm_heap s' ! i = h ! i)
      \<longrightarrow> (int (length (vm_stack s')) + 64 < vm_stack_length s' \<longrightarrow> (\<exists>s1. make_call W 1 k s' = RUN s1 \<and> vm_stack_length s1 = vm_stack_length s'))
        \<and> (\<forall>s1. make_call W 1 k s' = RUN s1 \<longrightarrow>
            (int (length stk) + 69 < vm_stack_length s1 \<longrightarrow>
              step W s1 = RUN (s'\<lparr>vm_stack := stk @ [v], vm_ip := vm_ip s, vm_self := vm_self s, vm_fp := vm_fp s,
                vm_stack_length := vm_stack_length s1\<rparr>))
            \<and> (vm_stack_length s1 \<le> int (length stk) + 69 \<and> sexp_grow_stack W (vm_stack_length s1) (int (length stk) + 69) = None \<longrightarrow>
              (\<exists>ip. step W s1 = raise_top (s1\<lparr>vm_ip := ip, vm_stack := butlast (vm_stack s1) @ [DATUM (EXN ''out of stack space'')]\<rparr>)))))"
proof -
  let ?a = "length (vm_heap s)"
  let ?saved = "stk @ [p] @ [fix_object 1, fix_object (vm_ip s), vm_self s, fix_object (vm_fp s)]"
  let ?new = "[VECTOR_CELL [DATUM (VECTOR (?a + 1))] False, VECTOR_CELL ?saved False]"
  let ?k = "PROCEDURE 0 1 RESUMECC_BYTECODE (VECTOR ?a) :: ('a, 'a bytecode) object" and ?h = "vm_heap s @ ?new"
  have c: "vm_callcc W s = make_call W 1 p (s\<lparr>vm_stack := stk @ [?k, fix_object 1], vm_ip := vm_ip s - 8, vm_heap := ?h\<rparr>)"
    by (simp add: vm_callcc_def Let_def assms)
  have entered: "make_call W 1 ?k s' = (case sexp_ensure_stack W 64 s' of None \<Rightarrow> out_of_stack s' | Some s2 \<Rightarrow>
      RUN (s2\<lparr>vm_stack := base @ [v] @ [fix_object 1, fix_object (vm_ip s' + 8), vm_self s', fix_object (vm_fp s')],
        vm_self := ?k, vm_ip := 0, vm_fp := int (length base) + 1\<rparr>))"
    if st: "vm_stack s' = base @ [v, ?k]" for s' base v
    using st by (auto simp: make_call_def enter_def Let_def sexp_ensure_stack_def RESUMECC_BYTECODE_def adjust_args_def variadic_p_def
        split: option.split)
  have room: "\<exists>s1. make_call W 1 ?k s' = RUN s1 \<and> vm_stack_length s1 = vm_stack_length s'"
    if "vm_stack s' = base @ [v, ?k]" "int (length (vm_stack s')) + 64 < vm_stack_length s'" for s' base v
    using entered [OF that(1)] that(2) by (simp add: sexp_ensure_stack_def)
  have r: "(int (length stk) + 69 < vm_stack_length s1 \<longrightarrow>
        step W s1 = RUN (s'\<lparr>vm_stack := stk @ [v], vm_ip := vm_ip s, vm_self := vm_self s, vm_fp := vm_fp s, vm_stack_length := vm_stack_length s1\<rparr>))
      \<and> (vm_stack_length s1 \<le> int (length stk) + 69 \<and> sexp_grow_stack W (vm_stack_length s1) (int (length stk) + 69) = None \<longrightarrow>
        (\<exists>ip. step W s1 = raise_top (s1\<lparr>vm_ip := ip, vm_stack := butlast (vm_stack s1) @ [DATUM (EXN ''out of stack space'')]\<rparr>)))"
    if st: "vm_stack s' = base @ [v, ?k]" and hp: "\<forall>i. ?a \<le> i \<and> i < length ?h \<longrightarrow> i < length (vm_heap s') \<and> vm_heap s' ! i = ?h ! i"
      and run: "make_call W 1 ?k s' = RUN s1" for s' base v s1
  proof -
    let ?st = "base @ [v] @ [fix_object 1, fix_object (vm_ip s' + 8), vm_self s', fix_object (vm_fp s')]"
    obtain l where s1: "s1 = s'\<lparr>vm_stack := ?st, vm_self := ?k, vm_ip := 0, vm_fp := int (length base) + 1, vm_stack_length := l\<rparr>"
    proof -
      obtain s2 where s2: "sexp_ensure_stack W 64 s' = Some s2" "s1 = s2\<lparr>vm_stack := ?st, vm_self := ?k, vm_ip := 0, vm_fp := int (length base) + 1\<rparr>"
        using run unfolding entered [OF st] by (auto simp: out_of_stack_def split: option.splits)
      have "s2 = s'\<lparr>vm_stack_length := vm_stack_length s2\<rparr>"
        using s2(1) by (auto simp: sexp_ensure_stack_def split: if_splits)
      then show thesis using s2(2) by (intro that [of "vm_stack_length s2"]) (cases s', cases s2, simp)
    qed
    have v: "vector_at (vm_heap s') (DATUM (VECTOR ?a)) = Some ([DATUM (VECTOR (?a + 1))], False)"
      "vector_at (vm_heap s') (DATUM (VECTOR (?a + 1))) = Some (?saved, False)"
      using hp [rule_format, of ?a] hp [rule_format, of "?a + 1"] by (simp_all add: nth_append)
    note defs = step_def RESUMECC_BYTECODE_def execute_def vm_resumecc_def advance_ip_def stack_at_def nth_append nat_add_distrib
      fix_object_def Let_def
    have "step W s1 = RUN (s'\<lparr>vm_stack := stk @ [v], vm_ip := vm_ip s, vm_self := vm_self s, vm_fp := vm_fp s, vm_stack_length := l\<rparr>)"
      if "int (length stk) + 69 < l"
      using that v by (simp add: s1 defs)
    moreover have "\<exists>ip. step W s1 = raise_top (s1\<lparr>vm_ip := ip, vm_stack := butlast (vm_stack s1) @ [DATUM (EXN ''out of stack space'')]\<rparr>)"
      if "l \<le> int (length stk) + 69" "sexp_grow_stack W l (int (length stk) + 69) = None"
      using that v by (intro exI [of _ 1]) (simp add: s1 defs drop_top_def push_def butlast_append algebra_simps)
    ultimately show ?thesis by (simp add: s1)
  qed
  show ?thesis using c r room by (intro exI [of _ ?k] exI [of _ ?h]) blast
qed

theorem callcc_resume_witness:
  "\<forall>F :: bool flo_ops. \<exists>k h. vm_callcc (demo_world F (\<lambda>_. [])) (vm_state [DATUM (FIX 7), DATUM STRUE] [] 1024)
      = make_call (demo_world F (\<lambda>_. [])) 1 (DATUM STRUE) ((vm_state [DATUM (FIX 7), k, fix_object 1] h 1024)\<lparr>vm_ip := - 8\<rparr>)
    \<and> (\<exists>s1. make_call (demo_world F (\<lambda>_. [])) 1 k (vm_state [DATUM SVOID, DATUM (FIX 3), k] h 1024) = RUN s1 \<and>
        step (demo_world F (\<lambda>_. [])) s1 = RUN (vm_state [DATUM (FIX 7), DATUM (FIX 3)] h 1024))"
proof
  fix F :: "bool flo_ops"
  let ?s = "vm_state [DATUM (FIX 7), DATUM STRUE] [] 1024 :: bool vm" and ?W = "demo_world F (\<lambda>_. [])"
  have st: "vm_stack ?s = [DATUM (FIX 7)] @ [DATUM STRUE]" by (simp add: vm_state_def)
  obtain k h where
    c: "vm_callcc ?W ?s = make_call ?W 1 (DATUM STRUE) (?s\<lparr>vm_stack := [DATUM (FIX 7)] @ [k, fix_object 1], vm_ip := vm_ip ?s - 8, vm_heap := h\<rparr>)"
    and r: "\<And>s' base v. vm_stack s' = base @ [v, k] \<Longrightarrow> vm_heap s' = h \<Longrightarrow>
        (int (length (vm_stack s')) + 64 < vm_stack_length s' \<longrightarrow> (\<exists>s1. make_call ?W 1 k s' = RUN s1 \<and> vm_stack_length s1 = vm_stack_length s'))
        \<and> (\<forall>s1. make_call ?W 1 k s' = RUN s1 \<longrightarrow> 70 < vm_stack_length s1 \<longrightarrow>
          step ?W s1 = RUN (s'\<lparr>vm_stack := [DATUM (FIX 7)] @ [v], vm_ip := vm_ip ?s, vm_self := vm_self ?s, vm_fp := vm_fp ?s,
            vm_stack_length := vm_stack_length s1\<rparr>))"
    using callcc_resume [OF st, of ?W] by fastforce
  let ?s' = "vm_state [DATUM SVOID, DATUM (FIX 3), k] h 1024"
  from r [of ?s' "[DATUM SVOID]" "DATUM (FIX 3)"]
  obtain s1 where s1: "make_call ?W 1 k ?s' = RUN s1" "vm_stack_length s1 = 1024"
    "70 < vm_stack_length s1 \<longrightarrow> step ?W s1 = RUN (?s'\<lparr>vm_stack := [DATUM (FIX 7)] @ [DATUM (FIX 3)], vm_ip := vm_ip ?s, vm_self := vm_self ?s,
        vm_fp := vm_fp ?s, vm_stack_length := vm_stack_length s1\<rparr>)"
    by (auto simp: vm_state_def)
  show "\<exists>k h. vm_callcc ?W ?s
      = make_call ?W 1 (DATUM STRUE) ((vm_state [DATUM (FIX 7), k, fix_object 1] h 1024)\<lparr>vm_ip := - 8\<rparr>)
    \<and> (\<exists>s1. make_call ?W 1 k (vm_state [DATUM SVOID, DATUM (FIX 3), k] h 1024) = RUN s1 \<and>
        step ?W s1 = RUN (vm_state [DATUM (FIX 7), DATUM (FIX 3)] h 1024))"
    using c s1 by (intro exI [of _ k] exI [of _ h] conjI exI [of _ s1]) (simp_all add: vm_state_def)
qed

end
