(* ===== verification/Overruns.thy ===== *)
theory Overruns
  imports Instructions
begin

text \<open>
  Two places where compiled code leaves its frame: the stack check counts too little, and the box of an unused
  rest parameter is written over an object of the caller.
\<close>


subsection \<open>The size of the stack\<close>

text \<open>A global variable applied to itself, \<open>n\<close> times.\<close>

definition many_args :: "nat \<Rightarrow> 'f ast" where
  "many_args n = APP (REF (GLOBAL 0 False)) (replicate n (REF (GLOBAL 0 False)))"

lemma many_args_depth: "bytecode_max_depth (sexp_complete_bytecode (sexp_generate E (many_args n) (new_context None))) = 0"
proof -
  let ?g = "sexp_generate E (REF (GLOBAL 0 False))"
  have g: "sexp_context_max_depth (?g c) = sexp_context_max_depth c" "sexp_context_depth (?g c) = sexp_context_depth c" for c :: "'a gctx"
    by (simp_all add: sexp_emit_def sexp_emit_word_def)
  have f: "sexp_context_max_depth (fold (\<lambda>gen. gen) (replicate n ?g) c) = sexp_context_max_depth c
      \<and> sexp_context_depth (fold (\<lambda>gen. gen) (replicate n ?g) c) = sexp_context_depth c" for c :: "'a gctx"
    by (induction n arbitrary: c) (simp_all add: g del: sexp_generate.simps)
  show ?thesis
    using f by (simp add: many_args_def generate_general_app_def Let_def g sexp_complete_bytecode_def sexp_emit_return_def sexp_emit_def
        sexp_emit_word_def sexp_inc_context_depth_def set_tailp_def new_context_def del: sexp_generate.simps(5) add: map_replicate)
qed

lemma run_global_refs:
  assumes "code_at self ip (concat (replicate n (instr_word OP_GLOBAL_KNOWN_REF (WORD (DATUM (PAIR 0))))) @ cs)"
    "pair_at h (DATUM (PAIR 0)) = Some (name, v, im)"
  shows "run W n (conf self fp eh ip stk h l) = RUN (conf self fp eh (ip + 9 * int n) (stk @ replicate n v) h l)"
  using assms(1)
proof (induction n arbitrary: ip stk)
  case (Suc n)
  have c: "code_at self ip (instr_word OP_GLOBAL_KNOWN_REF (WORD (DATUM (PAIR 0))) @ concat (replicate n (instr_word OP_GLOBAL_KNOWN_REF (WORD (DATUM (PAIR 0))))) @ cs)"
    using Suc.prems by simp
  have "step W (conf self fp eh ip stk h l) = RUN (conf self fp eh (ip + 9) (stk @ [v]) h l)"
    using assms(2) by (simp add: step_word [OF c] operand_word [OF c] execute_def vm_global_ref_def)
  with Suc.IH [of "ip + 9" "stk @ [v]"] code_at_append(2) [OF c] show ?case by (simp add: algebra_simps)
qed simp

text \<open>
  C36.  The depth that the generator computes does not count references to global variables.  So a call of a
  procedure with sixty-three global variables as arguments passes the check of the stack size without growing
  the stack, and then writes beyond its end.
\<close>

theorem stack_check_overrun:
  assumes "no_push_opcode (w_genv W)" and "63 \<le> n" and "vm_stack_length s = int (length (vm_stack s)) + 66"
    and "vm_heap s = [PAIR_CELL name v im]"
  shows "\<exists>s'. sexp_apply W n (sexp_generate_op (w_genv W) (many_args n)) [] s = RUN s'
    \<and> vm_stack_length s' = vm_stack_length s \<and> int (length (vm_stack s')) > vm_stack_length s'"
proof -
  let ?E = "w_genv W" and ?stk = "vm_stack s" and ?h = "[PAIR_CELL name v im]" and ?l = "vm_stack_length s"
  let ?P = "sexp_generate_op ?E (many_args n)" and ?bc = "sexp_complete_bytecode (sexp_generate ?E (many_args n) (new_context None))"
  let ?fp = "int (length ?stk)" 
  let ?stk1 = "?stk @ frame_of 0 0 FINAL_RESUMER (?fp - 4)"
  have P: "?P = PROCEDURE 0 0 ?bc VECTOR0" by (simp add: sexp_generate_op_def)
  have start: "sexp_apply_start W ?P [] s = RUN (conf ?P ?fp (vm_handler s) 0 ?stk1 ?h ?l)"
    using assms(3,4) by (simp add: sexp_apply_start_def P sexp_ensure_stack_def many_args_depth make_call_def enter_def Let_def adjust_args_def
        variadic_p_def frame_of_def conf_def)
  let ?ref = "instr_word OP_GLOBAL_KNOWN_REF (WORD (DATUM (PAIR 0)))"
  have "compile ?E None True (many_args n) = concat (replicate n ?ref) @ ?ref
      @ instr_word (if no_tail_calls_p ?E then OP_CALL else OP_TAIL_CALL) (WORD (DATUM (FIX (int n))))"
    by (simp add: many_args_def map_replicate_const)
  with generate_op_data [OF assms(1), of "many_args n"] obtain cs where "procedure_code ?P = concat (replicate n ?ref) @ cs" by simp
  then have c: "code_at ?P 0 (concat (replicate n ?ref) @ cs)" unfolding code_at_def by (intro exI [of _ "[]"]) simp
  show ?thesis
    using run_global_refs [OF c, of ?h name v im W ?fp "vm_handler s" ?stk1 ?l] assms(2,3) by (simp add: sexp_apply_def start)
qed


theorem stack_check_overrun_witness:
  "\<forall>F :: bool flo_ops. \<exists>s'. sexp_apply (demo_world F (\<lambda>_. [])) 63
      (sexp_generate_op (w_genv (demo_world F (\<lambda>_. []))) (many_args 63)) []
      (vm_state (replicate 958 (DATUM SVOID)) [PAIR_CELL (DATUM SVOID) (DATUM STRUE) False] 1024) = RUN s'
    \<and> vm_stack_length s' = 1024 \<and> length (vm_stack s') > 1024"
proof
  fix F :: "bool flo_ops"
  let ?W = "demo_world F (\<lambda>_. [])"
  let ?s = "vm_state (replicate 958 (DATUM SVOID)) [PAIR_CELL (DATUM SVOID) (DATUM STRUE) False] 1024"
  have "no_push_opcode (w_genv ?W)" by (simp add: demo_world_def no_push_opcode_def arith_op_def)
  from stack_check_overrun [OF this, of 63 ?s "DATUM SVOID" "DATUM STRUE" False]
  show "\<exists>s'. sexp_apply ?W 63 (sexp_generate_op (w_genv ?W) (many_args 63)) [] ?s = RUN s'
    \<and> vm_stack_length s' = 1024 \<and> length (vm_stack s') > 1024"
    by (force simp: vm_state_def)
qed

subsection \<open>Unused rest parameters\<close>


text \<open>
  C35.  A rest parameter that the body only assigns counts as unused, so no slot is made for it; the code at
  the entry of the procedure boxes it all the same.  Called with no rest arguments, the
  procedure takes the object of the caller below the arguments for the variable, and overwrites it with the box.
\<close>

theorem rest_assignment_corrupts_caller:
  fixes W :: "'f world" and body :: "'f ast"
  assumes "P = PROCEDURE (procedure_flags k (Some r) body) (length params)
    (closure_code (w_genv W) (LAMBDA k params (Some r) [] [r] fv body)) vars"
    and "no_push_opcode (w_genv W)" and "sexp_rest_unused_p k (Some r) body" and "r \<notin> set params"
    and "length args = length params"
  shows "\<exists>L. \<forall>l \<ge> L. \<exists>m. resume W m (make_call W (length args) P (conf self fp (DATUM SFALSE) ip (base @ [old] @ args @ [P]) h l))
    = RUN (conf P (int (length base + 1 + length args)) (DATUM SFALSE) 28
        (base @ [DATUM (PAIR (length h))] @ args @ frame_of (length args) (ip + 8) self fp)
        (h @ [PAIR_CELL (DATUM (IDENT r)) old False]) l)"
proof -
  let ?L = "LAMBDA k params (Some r) [] [r] fv body" and ?eh = "DATUM SFALSE :: ('f, 'f bytecode) object"
  let ?n = "length params" and ?fp = "int (length base + 1 + length args)" and ?F = "frame_of (length args) (ip + 8) self fp"
  let ?k = "sexp_param_index params (Some r) [] r"
  have fl: "procedure_flags k (Some r) body = 3" using assms(3) by (simp add: procedure_flags_def SEXP_PROC_VARIADIC_def SEXP_PROC_UNUSED_REST_def)
  have "frame_index params (Some r) [] r = Some (int ?n)" using assms(4) list_index_None [of r params] by (auto simp: frame_index.simps split: option.split)
  from param_index_frame [OF this] have ix: "?k = int ?n" .
  have "goes W (\<lambda>l. make_call W (length args) P (conf self fp ?eh ip ((base @ [old]) @ args @ [P]) h l))
      (TO (conf P ?fp ?eh 0 ((base @ [old]) @ args @ ?F) h))"
    using enter_goes [of ?eh args "length args" W 3 ?n "closure_code (w_genv W) ?L" vars self fp ip "base @ [old]" P h] assms(5)
    by (simp add: assms(1) fl adjust_args_def variadic_p_def unused_rest_p_def add_ac)
  then have en: "goes W (\<lambda>l. make_call W (length args) P (conf self fp ?eh ip (base @ [old] @ args @ [P]) h l))
      (TO (conf P ?fp ?eh 0 (base @ [old] @ args @ ?F) h))" by simp
  have "procedure_code P = box_code params (Some r) [] r @ compile (w_genv W) (Some ?L) True body @ [OP OP_RET]"
    using lambda_code_data [OF assms(2), of k params "Some r" "[]" "[r]" fv body] by (simp add: assms(1) closure_code_def entry_code_def)
  then obtain cs where "procedure_code P = [] @ box_code params (Some r) [] r @ cs" by simp
  then have c: "code_at P 0 (instr_word OP_LOCAL_REF (SWORD ?k) @ push_code (DATUM (IDENT r)) @ OP OP_CONS # instr_word OP_LOCAL_SET (SWORD ?k) @ cs)"
    unfolding code_at_def by (intro exI [of _ "[]"] exI [of _ "[]"]) (simp add: box_code_def Let_def)
  have c1: "code_at P 9 (push_code (DATUM (IDENT r)) @ OP OP_CONS # instr_word OP_LOCAL_SET (SWORD ?k) @ cs)" using code_at_append(2) [OF c] by simp
  have c2: "code_at P 18 (OP OP_CONS # instr_word OP_LOCAL_SET (SWORD ?k) @ cs)" using code_at_append(2) [OF c1] by simp
  have c3: "code_at P 19 (instr_word OP_LOCAL_SET (SWORD ?k) @ cs)" using code_at_Cons(2) [OF c2] by simp
  let ?stk = "base @ [old] @ args @ ?F" and ?h = "h @ [PAIR_CELL (DATUM (IDENT r)) old False]"
  have i: "0 \<le> ?fp - 1 - ?k" "?fp - 1 - ?k < int (length ?stk)" "nat (?fp - 1 - ?k) = length base" using assms(5) by (simp_all add: ix)
  have m1: "moves W (conf P ?fp ?eh 0 ?stk h) (TO (conf P ?fp ?eh 9 (?stk @ [old]) h))"
    using move_local_ref [OF c i(1,2), of W ?eh h] i(3) by (simp add: nth_append)
  have m2: "moves W (conf P ?fp ?eh 9 (?stk @ [old]) h) (TO (conf P ?fp ?eh 18 (?stk @ [old, DATUM (IDENT r)]) h))"
    using move_push [OF c1, of W ?fp ?eh "?stk @ [old]" h] by simp
  have p: "primitive W OP_CONS h [DATUM (IDENT r), old] = Some (RESULT (DATUM (PAIR (length h))) ?h)"
    by (simp add: primitive_def vm_cons_def sexp_cons_def)
  have m3: "moves W (conf P ?fp ?eh 18 (?stk @ [old, DATUM (IDENT r)]) h) (TO (conf P ?fp ?eh 19 (?stk @ [DATUM (PAIR (length h))]) ?h))"
    using move_primitive [OF c2 _ p, of ?eh ?fp ?stk] by simp
  have m4: "moves W (conf P ?fp ?eh 19 (?stk @ [DATUM (PAIR (length h))]) ?h) (TO (conf P ?fp ?eh 28 (base @ [DATUM (PAIR (length h))] @ args @ ?F) ?h))"
    using move_local_set [OF c3 i(1,2), of W ?eh "DATUM (PAIR (length h))" ?h] i(3) by simp
  from goes_trans [OF en goes_trans [OF m1 goes_trans [OF m2 goes_trans [OF m3 m4]]]] show ?thesis by (simp add: goes_def)
qed


theorem rest_assignment_corrupts_caller_witness:
  "\<forall>F :: bool flo_ops. \<exists>L. \<forall>l \<ge> L. \<exists>m s. resume (demo_world F (\<lambda>_. [])) m (make_call (demo_world F (\<lambda>_. [])) 1
      (PROCEDURE 3 1 (closure_code (w_genv (demo_world F (\<lambda>_. []))) (LAMBDA 0 [SYMBOL ''a''] (Some (SYMBOL ''r'')) [] [SYMBOL ''r''] []
        (SEQ [SET (LOCAL (SYMBOL ''r'') 0) (LIT (FIX 5)), REF (LOCAL (SYMBOL ''a'') 0)]))) VECTOR0)
      (conf FINAL_RESUMER 0 (DATUM SFALSE) 0 [DATUM (FIX 10), DATUM (FIX 1),
        PROCEDURE 3 1 (closure_code (w_genv (demo_world F (\<lambda>_. []))) (LAMBDA 0 [SYMBOL ''a''] (Some (SYMBOL ''r'')) [] [SYMBOL ''r''] []
        (SEQ [SET (LOCAL (SYMBOL ''r'') 0) (LIT (FIX 5)), REF (LOCAL (SYMBOL ''a'') 0)]))) VECTOR0] [] l)) = RUN s
    \<and> take 2 (vm_stack s) = [DATUM (PAIR 0), DATUM (FIX 1)]"
proof
  fix F :: "bool flo_ops"
  let ?W = "demo_world F (\<lambda>_. [])" and ?a = "SYMBOL ''a''" and ?r = "SYMBOL ''r''"
  let ?b = "SEQ [SET (LOCAL ?r 0) (LIT (FIX 5)), REF (LOCAL ?a 0)] :: bool ast"
  let ?P = "PROCEDURE 3 1 (closure_code (w_genv ?W) (LAMBDA 0 [?a] (Some ?r) [] [?r] [] ?b)) VECTOR0"
  have w: "no_push_opcode (w_genv ?W)" by (simp add: demo_world_def no_push_opcode_def arith_op_def)
  have u: "sexp_rest_unused_p 0 (Some ?r) ?b" by simp
  have P: "?P = PROCEDURE (procedure_flags 0 (Some ?r) ?b) (length [?a]) (closure_code (w_genv ?W) (LAMBDA 0 [?a] (Some ?r) [] [?r] [] ?b)) VECTOR0"
    by (simp add: procedure_flags_def SEXP_PROC_VARIADIC_def SEXP_PROC_UNUSED_REST_def)
  from rest_assignment_corrupts_caller [OF P w u, of "[DATUM (FIX 1)]" FINAL_RESUMER 0 0 "[]" "DATUM (FIX 10)" "[]"]
  show "\<exists>L. \<forall>l \<ge> L. \<exists>m s. resume ?W m (make_call ?W 1 ?P (conf FINAL_RESUMER 0 (DATUM SFALSE) 0 [DATUM (FIX 10), DATUM (FIX 1), ?P] [] l)) = RUN s
    \<and> take 2 (vm_stack s) = [DATUM (PAIR 0), DATUM (FIX 1)]" by fastforce
qed

end
