(* ===== verification/Spec2Isabelle.thy ===== *)
theory Spec2Isabelle
  imports Ratios Alloc Counts Machine Sorting Overruns
begin

text \<open>
  A verification of the core of chibi-scheme, a Scheme interpreter in C: its code generator and virtual
  machine, its numbers, its memory manager, its strings and its sort.

  \<^bold>\<open>The program.\<close>  Every Scheme object is a \<open>sexp\<close>, a machine word whose low bits say whether it is an immediate
  (fixnum, character, string cursor, constant) or a pointer to a heap object
  (\<^verbatim>\<open>include/chibi/sexp.h\<close>).  The analyser (\<^verbatim>\<open>eval.c\<close>) turns source into a syntax tree, the code generator
  (\<^verbatim>\<open>vm.c\<close>) that into byte code, which the virtual machine (\<^verbatim>\<open>vm.c\<close>) runs; they call the run-time library: arithmetic (\<^verbatim>\<open>bignum.c\<close>, \<^verbatim>\<open>include/chibi/bignum.h\<close>,
  \<^verbatim>\<open>lib/srfi/151/bit.c\<close>), the allocator and garbage collector (\<^verbatim>\<open>gc.c\<close>), and strings and byte vectors (\<^verbatim>\<open>sexp.c\<close>,
  \<^verbatim>\<open>eval.c\<close>, \<^verbatim>\<open>lib/chibi/io/port.c\<close>).  The development models the code generator, the machine and the library as the default 64-bit
  build compiles it: bignums, ratios and complex numbers, a 128-bit \<open>sexp_luint_t\<close>, a precise collector,
  weak references, UTF-8 strings that can be changed, disjoint string cursors.

  \<^bold>\<open>Code and machine.\<close>  \<open>Code\<close> has the objects a program works on, the syntax tree, the instructions and the
  functions \<open>generate_\<close> of \<^verbatim>\<open>vm.c\<close> on the context they change; code is an array of bytes in which a word takes eight
  places, so that positions and offsets are those of the code.  A procedure holds its code; pairs and vectors are cells of
  a heap that is never collected here, and allocation succeeds.  \<open>Vm\<close> has the instructions, the call protocol,
  continuations and \<open>sexp_apply\<close>; the generic arithmetic of the theories below and the functions of the foreign interface are
  parameters of its \<open>world\<close>.  \<open>Emit\<close> shows that the generator appends the code \<open>compile\<close> gives as a list.
  \<open>Eval\<close> is the meaning of syntax trees, an evaluator with environments in place of frames, lambda expressions in place of
  byte code, and boxes for assigned variables.  \<open>Simulate\<close> shows that instructions do not depend on how code is
  represented, \<open>Runs\<close> has runs of code at a position, \<open>Calls\<close> frames, calls and returns, \<open>Operators\<close> the
  applications of opcodes, and \<open>Compiled\<close> proves the simulation by induction on the steps of the evaluator: generated
  code gives the answer of the evaluator on every large enough stack.  \<open>Instructions\<close> has the exactness of arithmetic on integers
  of any size, through the locale \<open>machine_arith\<close> interpreted for the generic arithmetic, and the
  meaning of continuations; \<open>Overruns\<close> two places where the generated code leaves its frame.

  \<^bold>\<open>Numbers.\<close>  \<open>Tagging\<close> has the tags and the fixnum macros on 64-bit words.  \<open>Luint\<close> has the emulation of
  128-bit integers that builds without a native type use, and shows that it agrees with the native type.
  \<open>Bignum\<close> has the digit routines of \<^verbatim>\<open>bignum.c\<close> on little-endian lists of words, with Karatsuba
  multiplication, and their values.  \<open>Numbers\<close> has the numeric objects, normalization, division and
  powers of bignums; \<open>Tower\<close> the ratio and complex operations and the dispatch on the types of the two operands.  The
  functions of \<^verbatim>\<open>bignum.c\<close> call each other through the generic entry points, which is not structural: the entry
  points are a record \<open>arith\<close> of functions, and \<open>arith F n\<close> is the record whose calls may nest \<open>n\<close> deep.
  The theorems hold for every depth from the one they name on, so they are about calls that return.  Flonums and
  their operations are a parameter \<open>flo_ops\<close>.  \<open>Division\<close>, \<open>Exact\<close> and \<open>Ratios\<close> prove that the operations
  compute the exact integer or rational, that division terminates, and on which operands the code is wrong; the
  locales \<open>long_long\<close>, \<open>quotient_accumulator\<close> and \<open>integer_arith\<close> state the contracts between these parts.
  Bignums are passed by value, a destination argument giving the digits it may reuse; where the C code
  updates a destination that is also an operand the model reads the operand first, as the code does except at one place
  that no caller reaches (\<open>sexp_bignum_add\<close>).  Normalizing a ratio negates the objects of its parts in place; the value it
  returns is that of \<open>sexp_ratio_normalize\<close>, and what the operands hold afterwards \<open>sexp_ratio_normalize_operands\<close>.
  \<open>Bitwise\<close> has the operators of SRFI 151, \<open>Bits\<close>, \<open>Shifts\<close> and \<open>Counts\<close> their proofs against
  infinite two's complement; the locales \<open>bit_operation\<close> and \<open>bit_addition\<close> state what the three logical operations share.

  \<^bold>\<open>Memory.\<close>  \<open>Heap\<close> has the type descriptors that say where the slots of an object are, heap segments with
  their free lists and first-fit allocation.  \<open>Mark\<close> has the marking phase with its explicit stack, \<open>Collect\<close> weak
  references, finalizers, the sweep, one collection and \<open>sexp_alloc\<close>.  The store is a map from
  addresses to objects.  \<open>Mark\<close> proves that marking marks exactly what is reachable, \<open>Sweep\<close>
  and \<open>Gc\<close> that a collection frees exactly the rest and keeps the layout invariant \<open>memory_ok\<close>, \<open>Alloc\<close> that
  allocation returns, hands out disjoint blocks and loses no reachable object.  \<open>malloc\<close> and finalizers are
  parameters, with their contracts as named hypotheses.  Sizes are bounded by \<open>2 ^ 57\<close> where \<open>sexp_grow_heap\<close> computes
  in floating point, so that the computation is exact.

  \<^bold>\<open>Strings.\<close>  \<open>Utf8\<close> has the encoder, the decoders and the loops over characters, with the locale
  \<open>character_code\<close> for what they rely on, interpreted for UTF-8.  \<open>Strings\<close> has byte vectors and strings as
  objects of a memory, so that strings can share bytes, and the operations and instructions on them.  \<open>Texts\<close> relates
  the memory to lists of characters, and \<open>Machine\<close> proves that sequences of operations follow an abstract
  machine on character lists, an instance of the locale \<open>simulation\<close>.  Whether a byte vector can be allocated,
  and what fresh memory and memory outside an object hold, are parameters.  Theorems on
  \<open>string-set!\<close> assume strings below two gigabytes, since the code computes with \<open>int\<close> there.

  \<^bold>\<open>Sorting.\<close>  \<open>Order\<close> has the built-in order of objects, \<open>sexp_object_compare\<close> of \<^verbatim>\<open>lib/srfi/95/qsort.c\<close>, on
  finite trees of numbers, immediates, strings, symbols, pairs and vectors; the tables of symbols that are packed into a word and the
  addresses of objects are parameters.  \<open>Sort\<close> has the merge sort, \<open>sexp_merge_sort\<close> on the built-in order and
  \<open>sexp_merge_sort_less\<close> on procedures, and \<open>sexp_sort_x\<close> behind \<open>sort!\<close>.  A procedure may raise an exception and change a
  state, the rest of the world; one that assigns the vector or list that is being sorted is not modelled.  The locale
  \<open>comparison\<close> is what a comparison has to satisfy; it is interpreted for the built-in order on exact integers.
  \<open>Sorting\<close> proves that the two versions agree, that the sort is stable and correct, that it
  returns and keeps all elements when a procedure raises an exception, and which result is wrong.

  \<^bold>\<open>Loops.\<close>  Recursion follows the loops of the source.  Where a loop has no evident bound (division of bignums,
  marking, stepping back over characters, the recursion of the merge sort) it is a partial function into \<open>option\<close>, and the theorems
  show that it returns.  Fuel bounds the nesting depth of \<open>arith F n\<close>, the nested steps of the evaluator \<open>eval\<close> and the
  instructions of a run; the theorem on generated code says that the machine stops whenever the evaluator
  gives an answer for any bound.

  \<^bold>\<open>Not modelled.\<close>  The analyser and macro expander, the instructions on records, ports, promises, parameters and threads,
  \<open>apply\<close> with an argument list and \<open>eq?\<close>, the reader, printer and ports, heap images,
  threads, symbol tables and the interfaces to the operating system: they work on the whole heap
  of syntax objects or are input and output.  The evaluator gives no meaning to procedures made from opcodes when they are
  called, to continuations and to foreign functions, so the theorem on generated code does not speak of them.  Of the numeric tower, flonum
  arithmetic is a parameter and transcendental functions are left out.  Concurrency does not arise: a
  heap belongs to one thread.
\<close>

end
